(* ===== verification/Prelude.thy ===== *)
theory Prelude
  imports Main "HOL-Library.Word" "HOL-Library.Signed_Division" "HOL-Library.Monad_Syntax"
begin

text \<open>
  Shared vocabulary of the development: bytes and 32-bit words, C's \<open>memcpy\<close> on byte lists
  (\<open>window\<close> reads, \<open>overlay\<close> overwrites), the little-endian layout of \<open>uint32_t\<close> arrays, and C's
  conversions between \<open>int\<close>, \<open>uint32_t\<close> and the 64-bit types.  Collections:
  \<open>c_consts\<close> unfolds the sizes of the code's \<open>#define\<close>s, \<open>codec\<close> holds the encode/decode
  round trips, \<open>frame\<close> the facts about what an operation leaves unchanged.
\<close>

unbundle bit_operations_syntax

named_theorems c_consts "values of the code's numeric macros"
named_theorems codec "encode/decode round trips"
named_theorems frame "what an operation leaves unchanged"

type_synonym byte = "8 word"
type_synonym u32 = "32 word"

section \<open>Parts of byte lists: memcpy\<close>

definition window :: "nat \<Rightarrow> nat \<Rightarrow> 'a list \<Rightarrow> 'a list" where
  "window off n xs = take n (drop off xs)"

definition overlay :: "nat \<Rightarrow> 'a list \<Rightarrow> 'a list \<Rightarrow> 'a list" where
  "overlay off src dst = take off dst @ src @ drop (off + length src) dst"

lemma length_window [simp]: "length (window off n xs) = min n (length xs - off)"
  by (simp add: window_def)

lemma length_overlay [simp]:
  "off + length src \<le> length dst \<Longrightarrow> length (overlay off src dst) = length dst"
  by (simp add: overlay_def)

lemma window_0 [simp]: "window off 0 xs = []"
  by (simp add: window_def)

lemma window_all: "n = length xs \<Longrightarrow> window 0 n xs = xs"
  by (simp add: window_def)

lemma overlay_Nil [simp]: "overlay off [] dst = dst"
  by (simp add: overlay_def)

lemma overlay_all: "length src = length dst \<Longrightarrow> overlay 0 src dst = src"
  by (simp add: overlay_def)

lemma nth_window: "i < n \<Longrightarrow> off + i < length xs \<Longrightarrow> window off n xs ! i = xs ! (off + i)"
  by (simp add: window_def)

lemma nth_overlay:
  assumes "off + length src \<le> length dst" and "i < length dst"
  shows "overlay off src dst ! i =
    (if off \<le> i \<and> i < off + length src then src ! (i - off) else dst ! i)"
  using assms by (auto simp: overlay_def nth_append)

lemma window_overlay_same:
  assumes "off + length src \<le> length dst" and "n = length src"
  shows "window off n (overlay off src dst) = src"
  using assms by (simp add: window_def overlay_def)

lemma window_overlay_disjoint:
  assumes "off + length src \<le> length dst" and "a + n \<le> off \<or> off + length src \<le> a"
  shows "window a n (overlay off src dst) = window a n dst"
proof (rule nth_equalityI)
  show "length (window a n (overlay off src dst)) = length (window a n dst)"
    using assms(1) by simp
next
  fix i assume "i < length (window a n (overlay off src dst))"
  then have "i < n" and "a + i < length dst" using assms(1) by auto
  then show "window a n (overlay off src dst) ! i = window a n dst ! i"
    using assms by (auto simp: nth_window nth_overlay)
qed

lemma window_window: "b + m \<le> n \<Longrightarrow> window b m (window a n xs) = window (a + b) m xs"
  by (simp add: window_def drop_take add.commute min_def)

lemma overlay_window_id: "off + n \<le> length xs \<Longrightarrow> overlay off (window off n xs) xs = xs"
  by (simp add: overlay_def window_def)
    (metis add.commute append_take_drop_id drop_drop)

lemma overlay_overlay_same:
  assumes "off + length a \<le> length xs" and "length a = length b"
  shows "overlay off b (overlay off a xs) = overlay off b xs"
  using assms by (simp add: overlay_def)

text \<open>An aligned window inside a larger window: the inner overwrite shows through.\<close>

lemma window_overlay_inner:
  assumes "a \<le> off" and "off + length src \<le> a + n" and "a + n \<le> length dst"
  shows "window a n (overlay off src dst) = overlay (off - a) src (window a n dst)"
proof (rule nth_equalityI)
  show "length (window a n (overlay off src dst)) = length (overlay (off - a) src (window a n dst))"
    using assms by simp
next
  fix i assume "i < length (window a n (overlay off src dst))"
  then have "i < n" and "a + i < length dst" using assms by auto
  then show "window a n (overlay off src dst) ! i = overlay (off - a) src (window a n dst) ! i"
    using assms by (auto simp: nth_window nth_overlay add.commute)
qed

lemma slots_disjoint:
  "(i::nat) \<noteq> j \<Longrightarrow> i * w + w \<le> j * w \<or> j * w + w \<le> i * w"
  by (metis add.commute linorder_neqE_nat mult_Suc mult_le_mono1 Suc_leI)

lemma slot_inside: "(i::nat) < n \<Longrightarrow> i * w + w \<le> n * w"
  by (metis add.commute mult_Suc mult_le_mono1 Suc_leI)

section \<open>Scanning a list for the first match\<close>

text \<open>The code's \<open>for (i = 0; i < n; i++) if (P(a[i])) ...\<close> with an exit at the first hit.\<close>

primrec first_index :: "('a \<Rightarrow> bool) \<Rightarrow> 'a list \<Rightarrow> nat option" where
  "first_index P [] = None"
| "first_index P (x # xs) = (if P x then Some 0 else map_option Suc (first_index P xs))"

lemma first_index_None: "first_index P xs = None \<longleftrightarrow> (\<forall>x \<in> set xs. \<not> P x)"
  by (induction xs) auto

lemma first_index_Some:
  "first_index P xs = Some i \<Longrightarrow> i < length xs \<and> P (xs ! i) \<and> (\<forall>j < i. \<not> P (xs ! j))"
proof (induction xs arbitrary: i)
  case (Cons x xs)
  show ?case
  proof (cases "P x")
    case False
    with Cons.prems obtain k where k: "first_index P xs = Some k" "i = Suc k" by auto
    from Cons.IH[OF k(1)] False k(2) show ?thesis by (auto simp: nth_Cons split: nat.splits)
  qed (use Cons.prems in simp)
qed simp

lemma first_index_lt: "first_index P xs = Some i \<Longrightarrow> i < length xs"
  by (simp add: first_index_Some)

section \<open>Little-endian words\<close>

definition le_bytes :: "u32 \<Rightarrow> byte list" where
  "le_bytes w = [ucast w, ucast (drop_bit 8 w), ucast (drop_bit 16 w), ucast (drop_bit 24 w)]"

definition le_word :: "byte \<Rightarrow> byte \<Rightarrow> byte \<Rightarrow> byte \<Rightarrow> u32" where
  "le_word a b c d = ucast a OR push_bit 8 (ucast b) OR push_bit 16 (ucast c) OR push_bit 24 (ucast d)"

lemma length_le_bytes [simp]: "length (le_bytes w) = 4"
  by (simp add: le_bytes_def)

lemma bit_u32_byte: "bit (ucast (b :: byte) :: u32) n \<longleftrightarrow> n < 8 \<and> bit b n"
  by (auto simp: bit_ucast_iff dest: bit_imp_le_length)

lemma bit_le_word:
  "bit (le_word a b c d) n =
    (if n < 8 then bit a n else if n < 16 then bit b (n - 8)
     else if n < 24 then bit c (n - 16) else n < 32 \<and> bit d (n - 24))"
  by (simp add: le_word_def bit_or_iff bit_push_bit_iff bit_u32_byte)
    (auto dest: bit_imp_le_length)

lemma le_word_le_bytes:
  "le_word (ucast w) (ucast (drop_bit 8 w)) (ucast (drop_bit 16 w)) (ucast (drop_bit 24 w)) = w"
  by (rule bit_word_eqI) (auto simp: bit_le_word bit_ucast_iff bit_drop_bit_eq)

lemma le_bytes_le_word: "le_bytes (le_word a b c d) = [a, b, c, d]"
proof -
  have "(ucast (le_word a b c d) :: byte) = a"
    by (rule bit_word_eqI) (simp add: bit_le_word bit_ucast_iff)
  moreover have "(ucast (drop_bit 8 (le_word a b c d)) :: byte) = b"
    by (rule bit_word_eqI) (simp add: bit_le_word bit_ucast_iff bit_drop_bit_eq)
  moreover have "(ucast (drop_bit 16 (le_word a b c d)) :: byte) = c"
    by (rule bit_word_eqI) (simp add: bit_le_word bit_ucast_iff bit_drop_bit_eq)
  moreover have "(ucast (drop_bit 24 (le_word a b c d)) :: byte) = d"
    by (rule bit_word_eqI) (simp add: bit_le_word bit_ucast_iff bit_drop_bit_eq)
  ultimately show ?thesis by (simp add: le_bytes_def)
qed

definition bytes_of_words :: "u32 list \<Rightarrow> byte list" where
  "bytes_of_words ws = concat (map le_bytes ws)"

fun words_of_bytes :: "byte list \<Rightarrow> u32 list" where
  "words_of_bytes (a # b # c # d # bs) = le_word a b c d # words_of_bytes bs"
| "words_of_bytes _ = []"

lemma bytes_of_words_simps [simp]:
  "bytes_of_words [] = []" "bytes_of_words (w # ws) = le_bytes w @ bytes_of_words ws"
  by (simp_all add: bytes_of_words_def)

lemma length_bytes_of_words [simp]: "length (bytes_of_words ws) = 4 * length ws"
  by (induction ws) simp_all

lemma words_of_bytes_of_words [simp, codec]: "words_of_bytes (bytes_of_words ws) = ws"
  by (induction ws) (simp_all add: le_bytes_def le_word_le_bytes)

lemma words_of_bytes_append [codec]: "words_of_bytes (bytes_of_words ws @ bs) = ws @ words_of_bytes bs"
  by (induction ws) (simp_all add: le_bytes_def le_word_le_bytes)

lemma length_words_of_bytes [simp]: "length (words_of_bytes bs) = length bs div 4"
  by (induction bs rule: words_of_bytes.induct) simp_all

lemma bytes_of_words_of_bytes [codec]:
  "4 dvd length bs \<Longrightarrow> bytes_of_words (words_of_bytes bs) = bs"
proof (induction bs rule: words_of_bytes.induct)
  case (1 a b c d bs)
  then have "4 dvd length bs" by (simp add: dvd_def) presburger
  with 1 show ?case by (simp add: le_bytes_le_word)
qed (simp_all, presburger+)

section \<open>C's integer types\<close>

text \<open>
  A C \<open>int\<close> is an \<open>int\<close> here; \<open>c_int\<close> is the conversion of a wider or unsigned value to it
  (two's complement, as gcc defines it), \<open>c_u64\<close> the conversion to a 64-bit unsigned type.
  A \<open>uint32_t\<close> is a \<open>32 word\<close>: \<open>sint\<close> converts it to \<open>int\<close>, \<open>word_of_int\<close> back.
\<close>

definition c_int :: "int \<Rightarrow> int" where
  "c_int x = (x + 2 ^ 31) mod 2 ^ 32 - 2 ^ 31"

definition c_u64 :: "int \<Rightarrow> int" where
  "c_u64 x = x mod 2 ^ 64"

lemma c_int_id [simp]: "- (2 ^ 31) \<le> x \<Longrightarrow> x < 2 ^ 31 \<Longrightarrow> c_int x = x"
  by (simp add: c_int_def)

lemma c_int_of_nat_id [simp]: "n < 2 ^ 31 \<Longrightarrow> c_int (int n) = int n"
  by (rule c_int_id) auto

lemma c_u64_id [simp]: "0 \<le> x \<Longrightarrow> x < 2 ^ 64 \<Longrightarrow> c_u64 x = x"
  by (simp add: c_u64_def)

lemma c_int_range: "- (2 ^ 31) \<le> c_int x \<and> c_int x < 2 ^ 31"
proof -
  have "0 \<le> (x + 2 ^ 31) mod 2 ^ 32" and "(x + 2 ^ 31) mod 2 ^ 32 < (2 ^ 32 :: int)" by simp_all
  then show ?thesis unfolding c_int_def by simp
qed

lemma sint_u32_small: "uint (w :: u32) < 2 ^ 31 \<Longrightarrow> sint w = uint w"
  using signed_take_bit_int_eq_self[of 31 "uint w"] uint_ge_0[of w] by (simp add: sint_uint)

lemma uint_add_small:
  fixes w :: u32
  assumes "0 \<le> k" and "uint w + k < 2 ^ 32"
  shows "uint (w + word_of_int k) = uint w + k"
proof -
  have "k < 2 ^ 32" using assms uint_ge_0[of w] by linarith
  then have "uint (word_of_int k :: u32) = k"
    using assms(1) by (simp add: uint_word_of_int_eq take_bit_int_eq_self)
  then show ?thesis using assms by (simp add: uint_plus_if')
qed

lemma sint_add_small:
  fixes w :: u32
  assumes "0 \<le> k" and "uint w + k < 2 ^ 31"
  shows "sint (w + word_of_int k) = uint w + k"
  using assms uint_add_small[of k w] sint_u32_small[of "w + word_of_int k"] by simp

lemma sint_word_of_int_small:
  assumes "0 \<le> k" and "k < 2 ^ 31"
  shows "sint (word_of_int k :: u32) = k"
  using sint_add_small[of k 0] assms by simp

lemma uint_word_of_int_small:
  assumes "0 \<le> k" and "k < 2 ^ 32"
  shows "uint (word_of_int k :: u32) = k"
  using uint_add_small[of k 0] assms by simp

lemma unat_u32_of_nat: "n < 2 ^ 32 \<Longrightarrow> unat (word_of_nat n :: u32) = n"
  by (simp add: unat_of_nat take_bit_nat_eq_self)

lemma nat_int_sum [simp]: "nat (int a + int b) = a + b"
  by linarith

lemma u32_of_nat_eq_iff:
  "a < 2 ^ 32 \<Longrightarrow> b < 2 ^ 32 \<Longrightarrow> (word_of_nat a :: u32) = word_of_nat b \<longleftrightarrow> a = b"
  by (metis unat_u32_of_nat)

end
