(* ===== verification/Layer0.thy ===== *)
theory Layer0
  imports Prelude
begin

text \<open>
  The in-memory disk of \<open>src/layer0.c\<close> and the macros of \<open>src/globals.h\<close>.  The state holds the two
  globals \<open>disk\<close> (a pointer, \<open>None\<close> for \<open>NULL\<close>, to the bytes of all blocks) and \<open>total_blocks\<close>.
  The third field, \<open>junk\<close>, stands for storage the program reads before it has written it
  (automatic variables, fresh \<open>malloc\<close> memory, bytes past the end of a caller's buffer): an
  arbitrary byte stream, which no operation inspects otherwise and no theorem constrains.

  The locale \<open>block_store\<close> is the contract of a store of fixed-size blocks; \<open>disk_store\<close> is its
  instance on the disk.  \<open>packed_table\<close> is the contract of a table of fixed-width records packed
  into consecutive blocks of such a store.
\<close>

section \<open>Return codes\<close>

definition SUCCESS :: int where [simp]: "SUCCESS = 0"
definition UNEXPECTED_ERROR :: int where [simp]: "UNEXPECTED_ERROR = -99999"
definition TOTALBLOCKS_INVALID :: int where [simp]: "TOTALBLOCKS_INVALID = -1001"
definition FS_TOO_SMALL :: int where [simp]: "FS_TOO_SMALL = -1002"
definition BLOCKSIZE_TOO_SMALL :: int where [simp]: "BLOCKSIZE_TOO_SMALL = -1003"
definition DATA_FULL :: int where [simp]: "DATA_FULL = -1004"
definition BAD_INODE :: int where [simp]: "BAD_INODE = -1005"
definition ILIST_FULL :: int where [simp]: "ILIST_FULL = -1007"
definition BAD_UID :: int where [simp]: "BAD_UID = -1008"
definition MALFORMED_DIRECTORY :: int where [simp]: "MALFORMED_DIRECTORY = -2009"
definition NOT_DIR :: int where [simp]: "NOT_DIR = -2010"
definition BAD_INDEX :: int where [simp]: "BAD_INDEX = -2011"
definition NOT_IN_DIR :: int where [simp]: "NOT_IN_DIR = -2012"
definition INVALID_PAGE :: int where [simp]: "INVALID_PAGE = -2013"
definition DISC_UNINITIALIZED :: int where [simp]: "DISC_UNINITIALIZED = -1"
definition INVALID_BLOCK :: int where [simp]: "INVALID_BLOCK = -2"
definition BUF_NULL :: int where [simp]: "BUF_NULL = -3"
definition INT_NULL :: int where [simp]: "INT_NULL = -4"

definition BLOCK_SIZE :: nat where [c_consts]: "BLOCK_SIZE = 4096"
definition UNINITIALIZED_BLOCKS :: int where [simp]: "UNINITIALIZED_BLOCKS = -1"

lemma BLOCK_SIZE_pos [simp]: "0 < BLOCK_SIZE"
  by (simp add: c_consts)

section \<open>State\<close>

record layer0 =
  disk :: "byte list option"
  total_blocks :: int
  junk :: "nat \<Rightarrow> byte"

definition uninit :: "nat \<Rightarrow> 'a layer0_scheme \<Rightarrow> byte list" where
  "uninit n s = map (junk s) [0..<n]"

definition consume :: "nat \<Rightarrow> 'a layer0_scheme \<Rightarrow> 'a layer0_scheme" where
  "consume n s = s\<lparr>junk := (\<lambda>k. junk s (k + n))\<rparr>"

lemma length_uninit [simp]: "length (uninit n s) = n"
  by (simp add: uninit_def)

lemma consume_simps [simp]:
  "disk (consume n s) = disk s" "total_blocks (consume n s) = total_blocks s"
  by (simp_all add: consume_def)

definition contents :: "byte list option \<Rightarrow> byte list" where
  "contents p = (case p of None \<Rightarrow> [] | Some b \<Rightarrow> b)"

lemma contents_simps [simp]: "contents None = []" "contents (Some b) = b"
  by (simp_all add: contents_def)

section \<open>Operations\<close>

text \<open>
  A pointer argument is an option, \<open>None\<close> for \<open>NULL\<close>.  \<open>read_block\<close> returns the return code and the
  contents of \<open>read_buf\<close> afterwards; the address \<open>disk + blocknum * BLOCK_SIZE\<close> is an offset into
  the bytes of the disk.
\<close>

definition write_block ::
    "int \<Rightarrow> byte list option \<Rightarrow> 'a layer0_scheme \<Rightarrow> int \<times> 'a layer0_scheme" where
  "write_block blocknum write_buf s =
    (if total_blocks s = UNINITIALIZED_BLOCKS then (DISC_UNINITIALIZED, s)
     else case disk s of
       None \<Rightarrow> (DISC_UNINITIALIZED, s)
     | Some d \<Rightarrow>
         if total_blocks s \<le> blocknum \<or> blocknum < 0 then (INVALID_BLOCK, s)
         else case write_buf of
           None \<Rightarrow> (BUF_NULL, s)
         | Some buf \<Rightarrow>
             (let write_start = nat blocknum * BLOCK_SIZE
              in (SUCCESS, s\<lparr>disk := Some (overlay write_start (take BLOCK_SIZE buf) d)\<rparr>)))"

definition read_block ::
    "int \<Rightarrow> byte list option \<Rightarrow> 'a layer0_scheme \<Rightarrow> int \<times> byte list" where
  "read_block blocknum read_buf s =
    (if total_blocks s = UNINITIALIZED_BLOCKS then (DISC_UNINITIALIZED, contents read_buf)
     else case disk s of
       None \<Rightarrow> (DISC_UNINITIALIZED, contents read_buf)
     | Some d \<Rightarrow>
         if total_blocks s \<le> blocknum \<or> blocknum < 0 then (INVALID_BLOCK, contents read_buf)
         else case read_buf of
           None \<Rightarrow> (BUF_NULL, [])
         | Some buf \<Rightarrow>
             (let read_start = nat blocknum * BLOCK_SIZE
              in (SUCCESS, overlay 0 (window read_start BLOCK_SIZE d) buf)))"

section \<open>The disk as numbered blocks\<close>

definition nblocks :: "'a layer0_scheme \<Rightarrow> nat" where
  "nblocks s = nat (total_blocks s)"

definition disk_ok :: "'a layer0_scheme \<Rightarrow> bool" where
  "disk_ok s \<longleftrightarrow> 0 \<le> total_blocks s \<and>
    (case disk s of None \<Rightarrow> False | Some d \<Rightarrow> length d = nblocks s * BLOCK_SIZE)"

definition blk :: "'a layer0_scheme \<Rightarrow> nat \<Rightarrow> byte list" where
  "blk s n = window (n * BLOCK_SIZE) BLOCK_SIZE (contents (disk s))"

definition put_blk :: "nat \<Rightarrow> byte list \<Rightarrow> 'a layer0_scheme \<Rightarrow> 'a layer0_scheme" where
  "put_blk n b s = s\<lparr>disk := Some (overlay (n * BLOCK_SIZE) b (contents (disk s)))\<rparr>"

definition is_block :: "byte list \<Rightarrow> bool" where
  "is_block b \<longleftrightarrow> length b = BLOCK_SIZE"

lemma is_block_uninit [simp]: "is_block (uninit BLOCK_SIZE s)"
  by (simp add: is_block_def)

lemma disk_okE:
  assumes "disk_ok s"
  obtains d where "disk s = Some d" and "length d = nblocks s * BLOCK_SIZE"
    and "total_blocks s = int (nblocks s)"
proof -
  have "total_blocks s = int (nblocks s)" using assms by (simp add: disk_ok_def nblocks_def)
  moreover obtain d where "disk s = Some d" "length d = nblocks s * BLOCK_SIZE"
    using assms by (auto simp: disk_ok_def split: option.splits)
  ultimately show thesis using that by blast
qed

lemma put_blk_simps [simp]:
  "total_blocks (put_blk n b s) = total_blocks s" "junk (put_blk n b s) = junk s"
  "disk (put_blk n b s) = Some (overlay (n * BLOCK_SIZE) b (contents (disk s)))"
  by (simp_all add: put_blk_def)

lemma nblocks_simps [simp]:
  "nblocks (put_blk n b s) = nblocks s" "nblocks (consume k s) = nblocks s"
  by (simp_all add: nblocks_def)

lemma blk_consume [simp]: "blk (consume k s) n = blk s n"
  by (simp add: blk_def)

lemma disk_ok_consume [simp]: "disk_ok (consume k s) = disk_ok s"
  by (simp add: disk_ok_def cong: option.case_cong)

lemma is_block_blk [simp]:
  assumes "disk_ok s" and "n < nblocks s"
  shows "is_block (blk s n)"
proof -
  obtain d where d: "disk s = Some d" "length d = nblocks s * BLOCK_SIZE"
    using assms(1) by (rule disk_okE)
  have "n * BLOCK_SIZE + BLOCK_SIZE \<le> length d"
    using slot_inside[OF assms(2), of BLOCK_SIZE] d(2) by argo
  then have "BLOCK_SIZE \<le> length d - n * BLOCK_SIZE" by arith
  with d(1) show ?thesis by (simp add: is_block_def blk_def)
qed

lemma disk_ok_put_blk [simp]:
  assumes "disk_ok s" and "n < nblocks s" and "is_block b"
  shows "disk_ok (put_blk n b s)"
proof -
  obtain d where "disk s = Some d" "length d = nblocks s * BLOCK_SIZE"
    "total_blocks s = int (nblocks s)" using assms(1) by (rule disk_okE)
  moreover from this have "n * BLOCK_SIZE + length b \<le> length d"
    using slot_inside[OF assms(2), of BLOCK_SIZE] assms(3) unfolding is_block_def by argo
  ultimately show ?thesis by (simp add: disk_ok_def)
qed

lemma blk_put_blk:
  assumes "disk_ok s" and "n < nblocks s" and "is_block b"
  shows "blk (put_blk n b s) m = (if m = n then b else blk s m)"
proof -
  obtain d where d: "disk s = Some d" "length d = nblocks s * BLOCK_SIZE"
    using assms(1) by (rule disk_okE)
  then have fits: "n * BLOCK_SIZE + length b \<le> length d"
    using slot_inside[OF assms(2), of BLOCK_SIZE] assms(3) unfolding is_block_def by argo
  show ?thesis
  proof (cases "m = n")
    case True
    then show ?thesis using d fits assms(3)
      by (simp add: blk_def put_blk_def window_overlay_same is_block_def)
  next
    case False
    then have "m * BLOCK_SIZE + BLOCK_SIZE \<le> n * BLOCK_SIZE \<or>
        n * BLOCK_SIZE + length b \<le> m * BLOCK_SIZE"
      using slots_disjoint[of m n BLOCK_SIZE] assms(3) by (simp add: is_block_def)
    then show ?thesis using d fits False
      by (simp add: blk_def put_blk_def window_overlay_disjoint)
  qed
qed

section \<open>The contract of a block store\<close>

locale block_store =
  fixes rd :: "'s \<Rightarrow> nat \<Rightarrow> 'b" and wr :: "nat \<Rightarrow> 'b \<Rightarrow> 's \<Rightarrow> 's"
    and ok :: "'s \<Rightarrow> bool" and lim :: "'s \<Rightarrow> nat" and fits :: "'b \<Rightarrow> bool"
  assumes lim_wr: "lim (wr n b s) = lim s"
    and ok_wr: "ok s \<Longrightarrow> n < lim s \<Longrightarrow> fits b \<Longrightarrow> ok (wr n b s)"
    and rd_fits: "ok s \<Longrightarrow> n < lim s \<Longrightarrow> fits (rd s n)"
    and rd_wr: "ok s \<Longrightarrow> n < lim s \<Longrightarrow> fits b \<Longrightarrow> rd (wr n b s) m = (if m = n then b else rd s m)"
begin

lemma rd_wr_same: "ok s \<Longrightarrow> n < lim s \<Longrightarrow> fits b \<Longrightarrow> rd (wr n b s) n = b"
  by (simp add: rd_wr)

lemma rd_wr_other: "ok s \<Longrightarrow> n < lim s \<Longrightarrow> fits b \<Longrightarrow> m \<noteq> n \<Longrightarrow> rd (wr n b s) m = rd s m"
  by (simp add: rd_wr)

text \<open>Writes to different blocks commute, and of two writes to one block the last one stays.\<close>

lemma rd_wr_commute:
  assumes "ok s" "n < lim s" "m < lim s" "fits b" "fits c" "n \<noteq> m"
  shows "rd (wr n b (wr m c s)) k = rd (wr m c (wr n b s)) k"
  using assms by (simp add: rd_wr ok_wr lim_wr)

lemma rd_wr_last:
  assumes "ok s" "n < lim s" "fits b" "fits c"
  shows "rd (wr n b (wr n c s)) k = rd (wr n b s) k"
  using assms by (simp add: rd_wr ok_wr lim_wr)

text \<open>A run of writes: the blocks it does not name keep their contents.\<close>

primrec wr_all :: "(nat \<times> 'b) list \<Rightarrow> 's \<Rightarrow> 's" where
  "wr_all [] s = s"
| "wr_all (p # ps) s = wr_all ps (wr (fst p) (snd p) s)"

lemma wr_all_ok:
  "ok s \<Longrightarrow> \<forall>p \<in> set ps. fst p < lim s \<and> fits (snd p) \<Longrightarrow> ok (wr_all ps s) \<and> lim (wr_all ps s) = lim s"
  by (induction ps arbitrary: s) (auto simp: ok_wr lim_wr)

lemma rd_wr_all_other:
  "ok s \<Longrightarrow> \<forall>p \<in> set ps. fst p < lim s \<and> fits (snd p) \<Longrightarrow> m \<notin> fst ` set ps
    \<Longrightarrow> rd (wr_all ps s) m = rd s m"
  by (induction ps arbitrary: s) (auto simp: ok_wr lim_wr rd_wr)

lemma rd_wr_all_in:
  "ok s \<Longrightarrow> \<forall>p \<in> set ps. fst p < lim s \<and> fits (snd p) \<Longrightarrow> distinct (map fst ps)
    \<Longrightarrow> (m, b) \<in> set ps \<Longrightarrow> rd (wr_all ps s) m = b"
proof (induction ps arbitrary: s)
  case (Cons p ps)
  show ?case
  proof (cases "(m, b) = p")
    case True
    then have "m \<notin> fst ` set ps" using Cons.prems by force
    with True Cons.prems show ?thesis
      by (auto simp: rd_wr_all_other ok_wr lim_wr rd_wr)
  next
    case False
    with Cons show ?thesis by (auto simp: ok_wr lim_wr)
  qed
qed simp

end

interpretation disk_store: block_store blk put_blk disk_ok nblocks is_block
  by unfold_locales (simp_all add: blk_put_blk)

section \<open>Tables of fixed-width records packed into blocks\<close>

text \<open>
  \<open>per\<close> records of \<open>width\<close> bytes in each block, the rest of the block padding: record \<open>i\<close> is slot
  \<open>i mod per\<close> of block \<open>i div per\<close>.
\<close>

locale packed_table = block_store rd wr ok lim fits
  for rd :: "'s \<Rightarrow> nat \<Rightarrow> byte list" and wr ok lim fits +
  fixes per width :: nat and enc :: "'e \<Rightarrow> byte list" and dec :: "byte list \<Rightarrow> 'e"
    and wf :: "'e \<Rightarrow> bool"
  assumes fits_block: "fits b \<longleftrightarrow> is_block b"
    and per_pos: "0 < per" and packed: "per * width \<le> BLOCK_SIZE"
    and dec_enc: "wf x \<Longrightarrow> dec (enc x) = x" and length_enc: "wf x \<Longrightarrow> length (enc x) = width"
begin

definition get :: "'s \<Rightarrow> nat \<Rightarrow> 'e" where
  "get s i = dec (window (i mod per * width) width (rd s (i div per)))"

definition put :: "nat \<Rightarrow> 'e \<Rightarrow> 's \<Rightarrow> 's" where
  "put i x s = wr (i div per) (overlay (i mod per * width) (enc x) (rd s (i div per))) s"

lemma slot_fits: "i mod per * width + width \<le> BLOCK_SIZE"
  using slot_inside[of "i mod per" per width] per_pos packed by simp

lemma in_range: "i < lim s * per \<Longrightarrow> i div per < lim s"
  using per_pos by (simp add: less_mult_imp_div_less)

lemma fits_put:
  assumes "ok s" "i < lim s * per" "wf x"
  shows "fits (overlay (i mod per * width) (enc x) (rd s (i div per)))"
  using assms slot_fits[of i] rd_fits[of s "i div per"] in_range[of i s]
  by (simp add: fits_block is_block_def length_enc)

lemma put_ok: "ok s \<Longrightarrow> i < lim s * per \<Longrightarrow> wf x \<Longrightarrow> ok (put i x s)"
  by (simp add: put_def ok_wr in_range fits_put)

lemma lim_put: "lim (put i x s) = lim s"
  by (simp add: put_def lim_wr)

lemma get_put:
  assumes "ok s" "i < lim s * per" "wf x"
  shows "get (put i x s) j = (if j = i then x else get s j)"
proof -
  let ?b = "rd s (i div per)" and ?o = "i mod per * width"
  have len: "length ?b = BLOCK_SIZE"
    using rd_fits[of s "i div per"] in_range assms by (simp add: fits_block is_block_def)
  have fit: "?o + length (enc x) \<le> length ?b"
    using slot_fits[of i] assms(3) by (simp add: len length_enc)
  have rd: "rd (put i x s) (j div per) =
      (if j div per = i div per then overlay ?o (enc x) ?b else rd s (j div per))"
    using assms by (simp add: put_def rd_wr in_range fits_put)
  consider "j = i" | "j \<noteq> i" "j div per = i div per" | "j div per \<noteq> i div per" by blast
  then show ?thesis
  proof cases
    case 1
    with rd have "rd (put i x s) (i div per) = overlay ?o (enc x) ?b" by simp
    with 1 show ?thesis
      using fit assms(3) by (simp add: get_def window_overlay_same length_enc dec_enc)
  next
    case 2
    then have "j mod per \<noteq> i mod per" by (metis div_mult_mod_eq)
    then have "j mod per * width + width \<le> ?o \<or> ?o + width \<le> j mod per * width"
      by (rule slots_disjoint)
    then have "window (j mod per * width) width (overlay ?o (enc x) ?b) =
        window (j mod per * width) width ?b"
      using fit assms(3) by (simp add: window_overlay_disjoint length_enc)
    moreover have "rd (put i x s) (j div per) = overlay ?o (enc x) ?b" using rd 2 by simp
    ultimately show ?thesis using 2 by (simp add: get_def)
  next
    case 3
    then show ?thesis by (auto simp: get_def rd)
  qed
qed

end

section \<open>The operations over blocks\<close>

lemma write_block_ok:
  assumes "disk_ok s" and "0 \<le> n" and "n < total_blocks s" and "is_block b"
  shows "write_block n (Some b) s = (SUCCESS, put_blk (nat n) b s)"
  using assms by (auto simp: write_block_def put_blk_def is_block_def Let_def elim!: disk_okE)

lemma read_block_ok:
  assumes "disk_ok s" and "0 \<le> n" and "n < total_blocks s" and "is_block b"
  shows "read_block n (Some b) s = (SUCCESS, blk s (nat n))"
proof -
  obtain d where d: "disk s = Some d" "length d = nblocks s * BLOCK_SIZE"
    "total_blocks s = int (nblocks s)" using assms(1) by (rule disk_okE)
  have "nat n < nblocks s" using assms(2,3) by (simp add: nblocks_def)
  then have "is_block (blk s (nat n))" using assms(1) by simp
  then have "length (window (nat n * BLOCK_SIZE) BLOCK_SIZE d) = BLOCK_SIZE"
    using d(1) by (simp only: is_block_def blk_def contents_simps)
  then show ?thesis using d assms
    by (simp add: read_block_def blk_def Let_def overlay_all is_block_def)
qed

lemma write_block_disk_ok:
  assumes "disk_ok s" and "is_block b"
  shows "disk_ok (snd (write_block n (Some b) s))"
proof (cases "0 \<le> n \<and> n < total_blocks s")
  case True
  then show ?thesis
    using assms write_block_ok[of s n b] by (simp add: nblocks_def)
next
  case False
  then show ?thesis using assms(1)
    by (auto simp: write_block_def split: option.splits)
qed

end
