(* ===== verification/Superblock.thy ===== *)
theory Superblock
  imports Layer0
begin

text \<open>
  The superblock of \<open>src/layer1.h\<close> and \<open>src/layer1.c\<close>: the packed struct, its byte layout, the
  cached copy in program memory (\<open>cached_superblock\<close>, \<open>None\<close> for \<open>NULL\<close>) and the two operations
  that read and write it.  \<open>geometry\<close> states how the four regions of a formatted disk lie, and
  \<open>mounted\<close> is the invariant every operation of this layer keeps: the disk has its blocks, the
  cached superblock describes them, and block 0 holds the same superblock.
\<close>

section \<open>The struct\<close>

record superblock =
  sb_ibitmap_block_offset :: u32
  sb_ibitmap_size :: u32
  sb_ilist_block_offset :: u32
  sb_ilist_size :: u32
  sb_data_block_offset :: u32
  sb_data_size :: u32
  sb_total_blocks :: u32
  sb_total_inodes :: u32
  sb_free_list_head :: u32
  sb_root_inode :: u32
  sb_block_size :: u32
  sb_inodes_per_block :: u32
  sb_num_inodes :: u32

definition sizeof_superblock :: nat where [c_consts]: "sizeof_superblock = 52"

definition SUPERBLOCK_SIZE :: nat where
  "SUPERBLOCK_SIZE = (sizeof_superblock + BLOCK_SIZE - 1) div BLOCK_SIZE"

lemma SUPERBLOCK_SIZE_eq [simp]: "SUPERBLOCK_SIZE = 1"
  by (simp add: SUPERBLOCK_SIZE_def c_consts)

definition enc_superblock :: "superblock \<Rightarrow> byte list" where
  "enc_superblock sb = bytes_of_words
    [sb_ibitmap_block_offset sb, sb_ibitmap_size sb, sb_ilist_block_offset sb, sb_ilist_size sb,
     sb_data_block_offset sb, sb_data_size sb, sb_total_blocks sb, sb_total_inodes sb,
     sb_free_list_head sb, sb_root_inode sb, sb_block_size sb, sb_inodes_per_block sb,
     sb_num_inodes sb]"

definition dec_superblock :: "byte list \<Rightarrow> superblock" where
  "dec_superblock bs = (let w = words_of_bytes bs in
    \<lparr>sb_ibitmap_block_offset = w ! 0, sb_ibitmap_size = w ! 1, sb_ilist_block_offset = w ! 2,
     sb_ilist_size = w ! 3, sb_data_block_offset = w ! 4, sb_data_size = w ! 5,
     sb_total_blocks = w ! 6, sb_total_inodes = w ! 7, sb_free_list_head = w ! 8,
     sb_root_inode = w ! 9, sb_block_size = w ! 10, sb_inodes_per_block = w ! 11,
     sb_num_inodes = w ! 12\<rparr>)"

lemma length_enc_superblock [simp]: "length (enc_superblock sb) = sizeof_superblock"
  by (simp add: enc_superblock_def c_consts)

lemma dec_enc_superblock [simp, codec]: "dec_superblock (enc_superblock sb @ rest) = sb"
  by (simp add: dec_superblock_def enc_superblock_def Let_def words_of_bytes_append
      del: bytes_of_words_simps)

section \<open>State\<close>

record layer1 = layer0 +
  cached_superblock :: "superblock option"

definition uninit_superblock :: "'a layer0_scheme \<Rightarrow> superblock" where
  "uninit_superblock s = dec_superblock (uninit sizeof_superblock s)"

section \<open>Operations\<close>

text \<open>
  \<open>read_superblock\<close> returns the code and \<open>*sb\<close> afterwards; the loop over the blocks of the
  superblock fills \<open>temp_buffer\<close> one block at a time.
\<close>

primrec read_superblock_loop :: "nat list \<Rightarrow> byte list \<Rightarrow> 'a layer0_scheme \<Rightarrow> int \<times> byte list" where
  "read_superblock_loop [] temp_buffer s = (SUCCESS, temp_buffer)"
| "read_superblock_loop (i # is) temp_buffer s =
    (let (ret, b) = read_block (int i) (Some (window (BLOCK_SIZE * i) BLOCK_SIZE temp_buffer)) s
     in if ret \<noteq> SUCCESS then (DISC_UNINITIALIZED, temp_buffer)
        else read_superblock_loop is (overlay (BLOCK_SIZE * i) b temp_buffer) s)"

definition read_superblock ::
    "superblock option \<Rightarrow> 'a layer1_scheme \<Rightarrow> int \<times> superblock" where
  "read_superblock sb s =
    (case sb of
       None \<Rightarrow> (BUF_NULL, uninit_superblock s)
     | Some old \<Rightarrow>
         (case cached_superblock s of
            Some c \<Rightarrow> (SUCCESS, c)
          | None \<Rightarrow>
              (let (ret, temp_buffer) = read_superblock_loop [0..<SUPERBLOCK_SIZE]
                     (uninit (BLOCK_SIZE * SUPERBLOCK_SIZE) s) s
               in if ret \<noteq> SUCCESS then (ret, old) else (SUCCESS, dec_superblock temp_buffer))))"

primrec write_superblock_loop ::
    "nat list \<Rightarrow> byte list \<Rightarrow> 'a layer0_scheme \<Rightarrow> int \<times> 'a layer0_scheme" where
  "write_superblock_loop [] temp_buffer s = (SUCCESS, s)"
| "write_superblock_loop (i # is) temp_buffer s =
    (let (ret, s') = write_block (int i) (Some (window (BLOCK_SIZE * i) BLOCK_SIZE temp_buffer)) s
     in if ret \<noteq> SUCCESS then (DISC_UNINITIALIZED, s')
        else write_superblock_loop is temp_buffer s')"

definition write_superblock ::
    "superblock option \<Rightarrow> 'a layer1_scheme \<Rightarrow> int \<times> 'a layer1_scheme" where
  "write_superblock sb s =
    (case sb of
       None \<Rightarrow> (BUF_NULL, s)
     | Some c \<Rightarrow>
         (let s1 = s\<lparr>cached_superblock := Some c\<rparr>;
              n = BLOCK_SIZE * SUPERBLOCK_SIZE;
              temp_buffer = overlay 0 (enc_superblock c) (uninit n s1)
          in write_superblock_loop [0..<SUPERBLOCK_SIZE] temp_buffer (consume n s1)))"

text \<open>The callers' \<open>superblock sb; ret = read_superblock(&sb);\<close>.\<close>

definition local_superblock :: "'a layer1_scheme \<Rightarrow> int \<times> superblock" where
  "local_superblock s = read_superblock (Some (uninit_superblock s)) s"

section \<open>Geometry and the mounted invariant\<close>

text \<open>
  \<open>MAX_DISK\<close> bounds the size of a disk in the invariant: the limit of the version on a device, above
  the limit \<open>MAX_FS_SIZE\<close> of the one in memory.
\<close>

definition MAX_FS_SIZE :: nat where [c_consts]: "MAX_FS_SIZE = 250000"
definition MAX_DISK :: nat where [c_consts]: "MAX_DISK = 2000000"
definition sizeof_inode :: nat where [c_consts]: "sizeof_inode = 80"
definition INODES_PER_BLOCK :: nat where "INODES_PER_BLOCK = BLOCK_SIZE div sizeof_inode"
definition BITS_PER_BLOCK :: nat where [c_consts]: "BITS_PER_BLOCK = BLOCK_SIZE * 8"

lemma INODES_PER_BLOCK_eq [c_consts]: "INODES_PER_BLOCK = 51"
  by (simp add: INODES_PER_BLOCK_def c_consts)

definition geometry :: "superblock \<Rightarrow> nat \<Rightarrow> bool" where
  "geometry sb n \<longleftrightarrow>
    unat (sb_ibitmap_block_offset sb) = SUPERBLOCK_SIZE \<and>
    1 \<le> unat (sb_ibitmap_size sb) \<and>
    unat (sb_ilist_block_offset sb) = SUPERBLOCK_SIZE + unat (sb_ibitmap_size sb) \<and>
    1 \<le> unat (sb_ilist_size sb) \<and>
    unat (sb_data_block_offset sb) = unat (sb_ilist_block_offset sb) + unat (sb_ilist_size sb) \<and>
    1 \<le> unat (sb_data_size sb) \<and>
    unat (sb_data_block_offset sb) + unat (sb_data_size sb) = n \<and> n \<le> MAX_DISK \<and>
    unat (sb_num_inodes sb) \<le> unat (sb_ilist_size sb) * INODES_PER_BLOCK \<and>
    unat (sb_num_inodes sb) \<le> unat (sb_ibitmap_size sb) * BITS_PER_BLOCK"

definition zero_superblock :: superblock where
  "zero_superblock = dec_superblock (replicate sizeof_superblock 0)"

definition sb_of :: "'a layer1_scheme \<Rightarrow> superblock" where
  "sb_of s = (case cached_superblock s of Some sb \<Rightarrow> sb | None \<Rightarrow> zero_superblock)"

definition mounted :: "'a layer1_scheme \<Rightarrow> bool" where
  "mounted s \<longleftrightarrow> disk_ok s \<and> cached_superblock s = Some (sb_of s) \<and>
    geometry (sb_of s) (nblocks s) \<and> dec_superblock (blk s 0) = sb_of s"

definition ibitmap_off :: "'a layer1_scheme \<Rightarrow> nat" where
  "ibitmap_off s = unat (sb_ibitmap_block_offset (sb_of s))"
definition ibitmap_len :: "'a layer1_scheme \<Rightarrow> nat" where
  "ibitmap_len s = unat (sb_ibitmap_size (sb_of s))"
definition ilist_off :: "'a layer1_scheme \<Rightarrow> nat" where
  "ilist_off s = unat (sb_ilist_block_offset (sb_of s))"
definition ilist_len :: "'a layer1_scheme \<Rightarrow> nat" where
  "ilist_len s = unat (sb_ilist_size (sb_of s))"
definition data_off :: "'a layer1_scheme \<Rightarrow> nat" where
  "data_off s = unat (sb_data_block_offset (sb_of s))"
definition ndata :: "'a layer1_scheme \<Rightarrow> nat" where
  "ndata s = unat (sb_data_size (sb_of s))"
definition ninodes :: "'a layer1_scheme \<Rightarrow> nat" where
  "ninodes s = unat (sb_num_inodes (sb_of s))"

lemmas region_defs =
  ibitmap_off_def ibitmap_len_def ilist_off_def ilist_len_def data_off_def ndata_def ninodes_def

lemma uint_regions:
  "uint (sb_ibitmap_block_offset (sb_of s)) = int (ibitmap_off s)"
  "uint (sb_ibitmap_size (sb_of s)) = int (ibitmap_len s)"
  "uint (sb_ilist_block_offset (sb_of s)) = int (ilist_off s)"
  "uint (sb_ilist_size (sb_of s)) = int (ilist_len s)"
  "uint (sb_data_block_offset (sb_of s)) = int (data_off s)"
  "uint (sb_data_size (sb_of s)) = int (ndata s)"
  "uint (sb_num_inodes (sb_of s)) = int (ninodes s)"
  by (simp_all add: region_defs)

lemma mountedD:
  assumes "mounted s"
  shows mounted_disk_ok: "disk_ok s" and mounted_cached: "cached_superblock s = Some (sb_of s)"
    and mounted_geometry: "geometry (sb_of s) (nblocks s)"
    and mounted_coherent: "dec_superblock (blk s 0) = sb_of s"
  using assms by (simp_all add: mounted_def)

lemma mounted_regions:
  assumes "mounted s"
  shows "ibitmap_off s = 1" "1 \<le> ibitmap_len s" "ilist_off s = 1 + ibitmap_len s"
    "1 \<le> ilist_len s" "data_off s = ilist_off s + ilist_len s" "1 \<le> ndata s"
    "data_off s + ndata s = nblocks s" "nblocks s \<le> 2000000"
    "ninodes s \<le> ilist_len s * INODES_PER_BLOCK" "ninodes s \<le> ibitmap_len s * BITS_PER_BLOCK"
  using mounted_geometry[OF assms]
  by (simp_all add: geometry_def region_defs MAX_DISK_def)

lemma mounted_total_blocks: "mounted s \<Longrightarrow> total_blocks s = int (nblocks s)"
  by (auto dest: mounted_disk_ok elim: disk_okE)

lemma sb_of_simps [simp]:
  "sb_of (s\<lparr>cached_superblock := Some sb\<rparr>) = sb"
  "cached_superblock (put_blk n b s) = cached_superblock s"
  "cached_superblock (consume k s) = cached_superblock s"
  by (simp_all add: sb_of_def put_blk_def consume_def)

lemma sb_of_put_blk [simp]: "sb_of (put_blk n b s) = sb_of s" "sb_of (consume k s) = sb_of s"
  by (simp_all add: sb_of_def)

lemma local_superblock_mounted [simp]: "mounted s \<Longrightarrow> local_superblock s = (SUCCESS, sb_of s)"
  by (simp add: local_superblock_def read_superblock_def mounted_cached)

lemma regions_put_blk [simp]:
  shows "ibitmap_off (put_blk n b s) = ibitmap_off s" "ibitmap_len (put_blk n b s) = ibitmap_len s"
    "ilist_off (put_blk n b s) = ilist_off s" "ilist_len (put_blk n b s) = ilist_len s"
    "data_off (put_blk n b s) = data_off s" "ndata (put_blk n b s) = ndata s"
    "ninodes (put_blk n b s) = ninodes s"
  by (simp_all add: region_defs)

text \<open>Any write of a whole block behind the superblock keeps the invariant.\<close>

lemma mounted_put_blk [simp]:
  assumes "mounted s" and "0 < n" and "n < nblocks s" and "is_block b"
  shows "mounted (put_blk n b s)"
  using assms mountedD[OF assms(1)]
  by (simp add: mounted_def blk_put_blk)

lemma nblocks_cached [simp]:
  "nblocks (s\<lparr>cached_superblock := c\<rparr>) = nblocks s" "blk (s\<lparr>cached_superblock := c\<rparr>) m = blk s m"
  "disk_ok (s\<lparr>cached_superblock := c\<rparr>) = disk_ok s"
  by (simp_all add: nblocks_def blk_def disk_ok_def cong: option.case_cong)

text \<open>
  A region of the disk behind the superblock, given by its offset and length in blocks, is a block
  store of its own under \<open>mounted\<close>.
\<close>

lemma region_store:
  fixes off len :: "'a layer1_scheme \<Rightarrow> nat"
  assumes off: "\<And>n b s. off (put_blk n b s) = off s" and len: "\<And>n b s. len (put_blk n b s) = len s"
    and inside: "\<And>s. mounted s \<Longrightarrow> 0 < off s \<and> off s + len s \<le> nblocks s"
  shows "block_store (\<lambda>s k. blk s (off s + k)) (\<lambda>k b s. put_blk (off s + k) b s) mounted len is_block"
proof
  fix s :: "'a layer1_scheme" and n m b
  assume h: "mounted s" "n < len s"
  then have b: "0 < off s + n" "off s + n < nblocks s" using inside[of s] by simp_all
  show "is_block (blk s (off s + n))" using b h by (simp add: mounted_disk_ok)
  assume "is_block b"
  then show "mounted (put_blk (off s + n) b s)"
    and "blk (put_blk (off s + n) b s) (off (put_blk (off s + n) b s) + m) =
      (if m = n then b else blk s (off s + m))"
    using b h by (simp_all add: mounted_disk_ok blk_put_blk off)
qed (rule len)

text \<open>Block operations of this layer on a mounted disk.\<close>

lemma read_block_mounted [simp]:
  assumes "mounted s" "0 \<le> k" "k < int (nblocks s)" "is_block b"
  shows "read_block k (Some b) s = (SUCCESS, blk s (nat k))"
  using read_block_ok[of s k b] assms
  by (simp add: mounted_disk_ok mounted_total_blocks)

lemma write_block_mounted [simp]:
  assumes "mounted s" "0 \<le> k" "k < int (nblocks s)" "is_block b"
  shows "write_block k (Some b) s = (SUCCESS, put_blk (nat k) b s)"
  using write_block_ok[of s k b] assms
  by (simp add: mounted_disk_ok mounted_total_blocks)

section \<open>write_superblock and read_superblock on a good disk\<close>

definition put_superblock :: "superblock \<Rightarrow> 'a layer1_scheme \<Rightarrow> 'a layer1_scheme" where
  "put_superblock sb s =
    put_blk 0 (overlay 0 (enc_superblock sb) (uninit BLOCK_SIZE s))
      (consume BLOCK_SIZE (s\<lparr>cached_superblock := Some sb\<rparr>))"

lemma is_block_superblock [simp]: "is_block (overlay 0 (enc_superblock sb) (uninit BLOCK_SIZE s))"
  by (simp add: is_block_def overlay_def c_consts)

lemma write_superblock_ok:
  assumes "disk_ok s" and "0 < nblocks s"
  shows "write_superblock (Some sb) s = (SUCCESS, put_superblock sb s)"
proof -
  let ?s1 = "consume BLOCK_SIZE (s\<lparr>cached_superblock := Some sb\<rparr>)"
  let ?b = "overlay 0 (enc_superblock sb) (uninit BLOCK_SIZE s)"
  have u: "uninit BLOCK_SIZE (s\<lparr>cached_superblock := Some sb\<rparr>) = uninit BLOCK_SIZE s"
    by (simp add: uninit_def)
  have "window 0 BLOCK_SIZE ?b = ?b"
    using is_block_superblock[of sb s] by (intro window_all) (simp add: is_block_def)
  moreover have "write_block 0 (Some ?b) ?s1 = (SUCCESS, put_blk 0 ?b ?s1)"
    using assms write_block_ok[of ?s1 0 ?b] by (simp add: nblocks_def)
  ultimately show ?thesis
    by (simp add: write_superblock_def put_superblock_def Let_def u)
qed

lemma put_superblock_simps [simp]:
  "cached_superblock (put_superblock sb s) = Some sb"
  "nblocks (put_superblock sb s) = nblocks s" "sb_of (put_superblock sb s) = sb"
  by (simp_all add: put_superblock_def sb_of_def)

lemma blk_put_superblock:
  assumes "disk_ok s" and "0 < nblocks s"
  shows "blk (put_superblock sb s) m =
    (if m = 0 then overlay 0 (enc_superblock sb) (uninit BLOCK_SIZE s) else blk s m)"
  using assms by (simp add: put_superblock_def blk_put_blk)

lemma mounted_put_superblock:
  assumes "disk_ok s" and "geometry sb (nblocks s)"
  shows "mounted (put_superblock sb s)"
proof -
  have pos: "0 < nblocks s" using assms(2) by (simp add: geometry_def)
  moreover have "disk_ok (put_superblock sb s)"
    using assms(1) pos by (simp add: put_superblock_def)
  moreover have "dec_superblock (overlay 0 (enc_superblock sb) (uninit BLOCK_SIZE s)) = sb"
    by (simp add: overlay_def)
  ultimately show ?thesis
    using assms by (simp add: mounted_def blk_put_superblock)
qed

text \<open>Without the cache, the superblock is read back from block 0.\<close>

lemma read_superblock_uncached:
  assumes "mounted s"
  shows "read_superblock (Some old) (s\<lparr>cached_superblock := None\<rparr>) = (SUCCESS, sb_of s)"
proof -
  let ?t = "s\<lparr>cached_superblock := None\<rparr>"
  let ?u = "window 0 BLOCK_SIZE (uninit BLOCK_SIZE ?t)"
  have "0 < nblocks s" using mounted_regions[OF assms] by simp
  then have t: "disk_ok ?t" "0 < nblocks ?t" "is_block ?u"
    using mounted_disk_ok[OF assms] by (simp_all add: is_block_def)
  then have rb: "read_block 0 (Some ?u) ?t = (SUCCESS, blk s 0)"
    using read_block_ok[of ?t 0 ?u] by (simp add: nblocks_def)
  moreover have "overlay 0 (blk s 0) (uninit BLOCK_SIZE ?t) = blk s 0"
    using is_block_blk[of s 0] t \<open>0 < nblocks s\<close> by (intro overlay_all) (simp add: is_block_def)
  ultimately show ?thesis
    using mounted_coherent[OF assms] by (simp add: read_superblock_def Let_def)
qed

end
