(* ===== verification/Inodes.thy ===== *)
theory Inodes
  imports Superblock
begin

text \<open>
  The inode table and the inode bitmap of \<open>src/layer1.c\<close>: the packed \<open>inode\<close> struct with its byte
  layout, \<open>inode_read\<close> and \<open>inode_write\<close> on the packed table of the ilist region, and
  \<open>inode_free\<close> and \<open>inode_create\<close> on the bitmap.  \<open>inode_at\<close> and \<open>inode_used\<close> are the abstract
  view: the table as a function of the inode number, the bitmap as a set of numbers.
\<close>

section \<open>The inode struct\<close>

definition NUM_DIRECT :: nat where [c_consts]: "NUM_DIRECT = 10"
definition INVALID_INODE :: int where [simp]: "INVALID_INODE = 0"
definition ROOT_INODE :: int where [simp]: "ROOT_INODE = 1"

record inode =
  i_mode :: u32
  i_links :: u32
  i_uid :: u32
  i_gid :: u32
  i_size :: u32
  i_access_time :: u32
  i_mod_time :: u32
  i_direct_blocks :: "u32 list"
  i_indirect :: u32
  i_double_indirect :: u32
  i_triple_indirect :: u32

definition enc_inode :: "inode \<Rightarrow> byte list" where
  "enc_inode i = bytes_of_words
    ([i_mode i, i_links i, i_uid i, i_gid i, i_size i, i_access_time i, i_mod_time i] @
     i_direct_blocks i @ [i_indirect i, i_double_indirect i, i_triple_indirect i])"

definition dec_inode :: "byte list \<Rightarrow> inode" where
  "dec_inode bs = (let w = words_of_bytes bs in
    \<lparr>i_mode = w ! 0, i_links = w ! 1, i_uid = w ! 2, i_gid = w ! 3, i_size = w ! 4,
     i_access_time = w ! 5, i_mod_time = w ! 6, i_direct_blocks = window 7 NUM_DIRECT w,
     i_indirect = w ! 17, i_double_indirect = w ! 18, i_triple_indirect = w ! 19\<rparr>)"

text \<open>The C array \<open>direct_blocks[NUM_DIRECT]\<close> always has its ten elements.\<close>

definition inode_wf :: "inode \<Rightarrow> bool" where
  "inode_wf i \<longleftrightarrow> length (i_direct_blocks i) = NUM_DIRECT"

lemma length_enc_inode: "inode_wf i \<Longrightarrow> length (enc_inode i) = sizeof_inode"
  by (simp add: enc_inode_def inode_wf_def c_consts del: bytes_of_words_simps)

lemma dec_enc_inode [codec]: "inode_wf i \<Longrightarrow> dec_inode (enc_inode i) = i"
  by (simp add: dec_inode_def enc_inode_def Let_def inode_wf_def c_consts window_def nth_append
      del: bytes_of_words_simps)

lemma inode_wf_dec: "length bs = sizeof_inode \<Longrightarrow> inode_wf (dec_inode bs)"
  by (simp add: inode_wf_def dec_inode_def Let_def c_consts)

definition uninit_inode :: "'a layer0_scheme \<Rightarrow> inode" where
  "uninit_inode s = dec_inode (uninit sizeof_inode s)"

definition zero_inode :: inode where
  "zero_inode = dec_inode (replicate sizeof_inode 0)"

lemma inode_wf_uninit [simp]: "inode_wf (uninit_inode s)"
  by (simp add: uninit_inode_def inode_wf_dec)

lemma inode_wf_zero [simp]: "inode_wf zero_inode"
  by (simp add: zero_inode_def inode_wf_dec)

section \<open>Reading and writing inodes\<close>

definition inode_read ::
    "int \<Rightarrow> inode option \<Rightarrow> 'a layer1_scheme \<Rightarrow> int \<times> inode" where
  "inode_read inode_num read_node s =
    (let (ret, sb) = local_superblock s in
     case read_node of
       None \<Rightarrow> (if ret \<noteq> SUCCESS then DISC_UNINITIALIZED else BUF_NULL, uninit_inode s)
     | Some old \<Rightarrow>
         if ret \<noteq> SUCCESS then (DISC_UNINITIALIZED, old)
         else if inode_num \<le> 0 \<or> uint (sb_num_inodes sb) < inode_num then (BAD_INODE, old)
         else
           (let inode_block_num = (inode_num - 1) div int INODES_PER_BLOCK;
                inode_in_block = nat ((inode_num - 1) mod int INODES_PER_BLOCK);
                total_block_offset = sint (sb_ilist_block_offset sb + word_of_int inode_block_num);
                (_, block) = read_block total_block_offset (Some (uninit BLOCK_SIZE s)) s
            in (SUCCESS, dec_inode (window (inode_in_block * sizeof_inode) sizeof_inode block))))"

definition inode_write ::
    "int \<Rightarrow> inode option \<Rightarrow> 'a layer1_scheme \<Rightarrow> int \<times> 'a layer1_scheme" where
  "inode_write inode_num modified s =
    (let (ret, sb) = local_superblock s in
     if ret \<noteq> SUCCESS then (DISC_UNINITIALIZED, s)
     else case modified of
       None \<Rightarrow> (BUF_NULL, s)
     | Some node \<Rightarrow>
         if inode_num \<le> 0 \<or> uint (sb_num_inodes sb) < inode_num then (BAD_INODE, s)
         else
           (let inode_block_num = (inode_num - 1) div int INODES_PER_BLOCK;
                inode_in_block = nat ((inode_num - 1) mod int INODES_PER_BLOCK);
                total_block_offset = sint (sb_ilist_block_offset sb + word_of_int inode_block_num);
                (_, block) = read_block total_block_offset (Some (uninit BLOCK_SIZE s)) s
            in write_block total_block_offset
                 (Some (overlay (inode_in_block * sizeof_inode) (enc_inode node) block)) s))"

text \<open>A \<open>struct inode\<close> declared by a caller and filled by \<open>inode_read(inum, &my_inode)\<close>.\<close>

definition local_inode :: "int \<Rightarrow> 'a layer1_scheme \<Rightarrow> int \<times> inode" where
  "local_inode inum s = inode_read inum (Some (uninit_inode s)) s"

subsection \<open>The inode table as a packed table\<close>

interpretation ilist: packed_table
  "\<lambda>s k. blk s (ilist_off s + k)" "\<lambda>k b s. put_blk (ilist_off s + k) b s" mounted ilist_len
  is_block INODES_PER_BLOCK sizeof_inode enc_inode dec_inode inode_wf
proof (rule packed_table.intro)
  show "block_store (\<lambda>s k. blk s (ilist_off s + k)) (\<lambda>k b s. put_blk (ilist_off s + k) b s)
      (mounted :: 'a layer1_scheme \<Rightarrow> bool) ilist_len is_block"
  proof (rule region_store)
    fix s :: "'a layer1_scheme" assume "mounted s"
    from mounted_regions[OF this] show "0 < ilist_off s \<and> ilist_off s + ilist_len s \<le> nblocks s"
      by linarith
  qed simp_all
qed (unfold_locales, simp_all add: c_consts dec_enc_inode length_enc_inode)

text \<open>Inodes are numbered from 1; \<open>islot\<close> is the zero-based position.\<close>

definition islot :: "nat \<Rightarrow> nat" where
  "islot n = n - 1"

definition inode_at :: "'a layer1_scheme \<Rightarrow> nat \<Rightarrow> inode" where
  "inode_at s n = ilist.get s (islot n)"

definition put_inode :: "nat \<Rightarrow> inode \<Rightarrow> 'a layer1_scheme \<Rightarrow> 'a layer1_scheme" where
  "put_inode n i s = ilist.put (islot n) i s"

definition valid_inum :: "'a layer1_scheme \<Rightarrow> nat \<Rightarrow> bool" where
  "valid_inum s n \<longleftrightarrow> 1 \<le> n \<and> n \<le> ninodes s"

lemma valid_inum_range:
  assumes "mounted s" and "valid_inum s n"
  shows "islot n < ilist_len s * INODES_PER_BLOCK" and "(islot n) div INODES_PER_BLOCK < ilist_len s"
    and "n < 2 ^ 31"
proof -
  show 1: "islot n < ilist_len s * INODES_PER_BLOCK"
    using assms(2) mounted_regions(9)[OF assms(1)] by (auto simp: valid_inum_def islot_def)
  then show "(islot n) div INODES_PER_BLOCK < ilist_len s" by (rule ilist.in_range)
  show "n < 2 ^ 31"
    using assms(2) mounted_regions[OF assms(1)] by (simp add: valid_inum_def c_consts)
qed

lemma put_inode_simps [simp]:
  "sb_of (put_inode n i s) = sb_of s" "nblocks (put_inode n i s) = nblocks s"
  by (simp_all add: put_inode_def ilist.put_def)

lemma regions_put_inode [simp]:
  "ibitmap_off (put_inode n i s) = ibitmap_off s" "ibitmap_len (put_inode n i s) = ibitmap_len s"
  "ilist_off (put_inode n i s) = ilist_off s" "ilist_len (put_inode n i s) = ilist_len s"
  "data_off (put_inode n i s) = data_off s" "ndata (put_inode n i s) = ndata s"
  "ninodes (put_inode n i s) = ninodes s" "valid_inum (put_inode n i s) m = valid_inum s m"
  by (simp_all add: region_defs valid_inum_def)

lemma mounted_put_inode [simp]:
  "mounted s \<Longrightarrow> valid_inum s n \<Longrightarrow> inode_wf i \<Longrightarrow> mounted (put_inode n i s)"
  by (simp add: put_inode_def ilist.put_ok valid_inum_range)

lemma inode_at_put_inode:
  assumes "mounted s" "valid_inum s n" "inode_wf i" "1 \<le> m"
  shows "inode_at (put_inode n i s) m = (if m = n then i else inode_at s m)"
proof -
  have "islot m = islot n \<longleftrightarrow> m = n" using assms(2,4) by (auto simp: valid_inum_def islot_def)
  then show ?thesis
    using assms by (simp add: inode_at_def put_inode_def ilist.get_put valid_inum_range)
qed

lemma blk_put_inode:
  assumes "mounted s" "valid_inum s n" "inode_wf i" "m < ilist_off s \<or> ilist_off s + ilist_len s \<le> m"
  shows "blk (put_inode n i s) m = blk s m"
proof -
  have n: "(islot n) div INODES_PER_BLOCK < ilist_len s" using valid_inum_range assms by blast
  then have "ilist_off s + (islot n) div INODES_PER_BLOCK < nblocks s"
    using mounted_regions[OF assms(1)] by linarith
  then show ?thesis
    using n assms ilist.fits_put[OF assms(1) valid_inum_range(1)[OF assms(1,2)] assms(3)]
    by (auto simp: put_inode_def ilist.put_def blk_put_blk mounted_disk_ok)
qed

lemma inode_wf_inode_at [simp]:
  assumes "mounted s" "valid_inum s n"
  shows "inode_wf (inode_at s n)"
  using ilist.slot_fits[of "islot n"] valid_inum_range(2)[OF assms]
    ilist.rd_fits[OF assms(1), of "(islot n) div INODES_PER_BLOCK"]
  by (auto simp: inode_at_def ilist.get_def is_block_def intro!: inode_wf_dec)

subsection \<open>The operations on a mounted disk\<close>

lemma inode_offset:
  assumes "mounted s" "valid_inum s n"
  shows "sint (sb_ilist_block_offset (sb_of s) + word_of_int ((int n - 1) div int INODES_PER_BLOCK)) =
      int (ilist_off s + (islot n) div INODES_PER_BLOCK)"
    and "nat ((int n - 1) mod int INODES_PER_BLOCK) = islot n mod INODES_PER_BLOCK"
    and "ilist_off s + (islot n) div INODES_PER_BLOCK < nblocks s"
proof -
  have i: "int n - 1 = int (islot n)" using assms(2) by (simp add: valid_inum_def islot_def)
  have q: "(islot n) div INODES_PER_BLOCK < ilist_len s" using assms by (rule valid_inum_range)
  show b: "ilist_off s + (islot n) div INODES_PER_BLOCK < nblocks s"
    using q mounted_regions[OF assms(1)] by linarith
  show "sint (sb_ilist_block_offset (sb_of s) + word_of_int ((int n - 1) div int INODES_PER_BLOCK)) =
      int (ilist_off s + (islot n) div INODES_PER_BLOCK)"
    using b mounted_regions(8)[OF assms(1)] unfolding i zdiv_int[symmetric]
    by (subst sint_add_small) (simp_all add: uint_regions)
  show "nat ((int n - 1) mod int INODES_PER_BLOCK) = islot n mod INODES_PER_BLOCK"
    unfolding i zmod_int[symmetric] by simp
qed

lemma inode_num_ok:
  "mounted s \<Longrightarrow> valid_inum s n \<Longrightarrow> \<not> (int n \<le> 0 \<or> uint (sb_num_inodes (sb_of s)) < int n)"
  by (simp add: valid_inum_def uint_regions)

lemma inode_read_ok:
  assumes "mounted s" "valid_inum s n"
  shows "inode_read (int n) (Some old) s = (SUCCESS, inode_at s n)"
  using inode_offset[OF assms] inode_num_ok[OF assms] assms
  by (simp add: inode_read_def Let_def inode_at_def ilist.get_def)

lemma inode_write_ok:
  assumes "mounted s" "valid_inum s n" "inode_wf i"
  shows "inode_write (int n) (Some i) s = (SUCCESS, put_inode n i s)"
proof -
  have "is_block (overlay (islot n mod INODES_PER_BLOCK * sizeof_inode) (enc_inode i)
      (blk s (ilist_off s + (islot n) div INODES_PER_BLOCK)))"
    using ilist.fits_put[OF assms(1) valid_inum_range(1)[OF assms(1,2)] assms(3)] .
  then show ?thesis
    using inode_offset[OF assms(1,2)] inode_num_ok[OF assms(1,2)] assms
    by (simp add: inode_write_def Let_def put_inode_def ilist.put_def)
qed

lemma inode_read_bad:
  assumes "mounted s" "n \<le> 0 \<or> int (ninodes s) < n"
  shows "inode_read n (Some old) s = (BAD_INODE, old)"
    and "inode_write n (Some i) s = (BAD_INODE, s)"
  using assms by (auto simp: inode_read_def inode_write_def uint_regions)

end
