(* ===== verification/Allocator.thy ===== *)
theory Allocator
  imports Prelude
begin

text \<open>
  The contract of an allocator of numbered cells.  Both allocators of \<open>src/layer1.c\<close> (the inode
  bitmap and the free list of data blocks) meet it, and what a client may rely on is proved here
  once: a run of allocations succeeds exactly when enough cells are free, hands out distinct
  cells that were free, stores each value in its own cell, and leaves all cells it does not own
  alone.
\<close>

locale allocator =
  fixes ok :: "'s \<Rightarrow> bool" and fits :: "'v \<Rightarrow> bool"
    and cells :: "'s \<Rightarrow> nat set" and free :: "'s \<Rightarrow> nat set" and val :: "'s \<Rightarrow> nat \<Rightarrow> 'v"
    and alloc :: "'v \<Rightarrow> 's \<Rightarrow> nat option \<times> 's" and release :: "nat \<Rightarrow> 's \<Rightarrow> 's"
  assumes free_cells: "ok s \<Longrightarrow> free s \<subseteq> cells s"
    and finite_cells: "ok s \<Longrightarrow> finite (cells s)"
    and alloc_none: "ok s \<Longrightarrow> fits v \<Longrightarrow> free s = {} \<Longrightarrow> alloc v s = (None, s)"
    and alloc_some: "ok s \<Longrightarrow> fits v \<Longrightarrow> free s \<noteq> {} \<Longrightarrow>
      \<exists>n t. alloc v s = (Some n, t) \<and> n \<in> free s \<and> ok t \<and> cells t = cells s \<and>
        free t = free s - {n} \<and> val t n = v \<and>
        (\<forall>m. m \<in> cells s \<longrightarrow> m \<notin> free s \<longrightarrow> val t m = val s m)"
    and release: "ok s \<Longrightarrow> n \<in> cells s \<Longrightarrow> n \<notin> free s \<Longrightarrow>
      ok (release n s) \<and> cells (release n s) = cells s \<and> free (release n s) = insert n (free s) \<and>
      (\<forall>m. m \<in> cells s \<longrightarrow> m \<notin> insert n (free s) \<longrightarrow> val (release n s) m = val s m)"
begin

lemma finite_free: "ok s \<Longrightarrow> finite (free s)"
  using free_cells finite_cells finite_subset by metis

lemma allocE:
  assumes "ok s" "fits v" "free s \<noteq> {}"
  obtains n t where "alloc v s = (Some n, t)" "n \<in> free s" "ok t" "cells t = cells s"
    "free t = free s - {n}" "val t n = v" "\<And>m. m \<in> cells s \<Longrightarrow> m \<notin> free s \<Longrightarrow> val t m = val s m"
  using alloc_some[OF assms] by blast

lemma alloc_fails_iff: "ok s \<Longrightarrow> fits v \<Longrightarrow> fst (alloc v s) = None \<longleftrightarrow> free s = {}"
  by (cases "free s = {}") (auto simp: alloc_none elim: allocE)

text \<open>What was just allocated can be given back, and the cell is then free again.\<close>

lemma alloc_release:
  assumes "ok s" "fits v" "alloc v s = (Some n, t)"
  shows "ok (release n t)" and "free (release n t) = free s"
    and "\<And>m. m \<in> cells s \<Longrightarrow> m \<notin> free s \<Longrightarrow> val (release n t) m = val s m"
proof -
  have ne: "free s \<noteq> {}" using assms alloc_none[of s v] by force
  from allocE[OF assms(1,2) ne] assms(3)
  have t: "n \<in> free s" "ok t" "cells t = cells s" "free t = free s - {n}"
    and v: "\<And>m. m \<in> cells s \<Longrightarrow> m \<notin> free s \<Longrightarrow> val t m = val s m" by auto
  have n: "n \<in> cells t" "n \<notin> free t" using t free_cells[OF assms(1)] by auto
  show "ok (release n t)" using release[OF t(2) n] by simp
  show "free (release n t) = free s" using release[OF t(2) n] t by auto
  fix m assume m: "m \<in> cells s" "m \<notin> free s"
  then have "m \<notin> insert n (free t)" using t by auto
  then show "val (release n t) m = val s m" using release[OF t(2) n] t v m by simp
qed

subsection \<open>Runs of allocations\<close>

primrec alloc_all :: "'v list \<Rightarrow> 's \<Rightarrow> (nat list \<times> 's) option" where
  "alloc_all [] s = Some ([], s)"
| "alloc_all (v # vs) s =
    (case alloc v s of
       (None, t) \<Rightarrow> None
     | (Some n, t) \<Rightarrow> (case alloc_all vs t of None \<Rightarrow> None | Some (ns, u) \<Rightarrow> Some (n # ns, u)))"

lemma alloc_all_enough:
  "ok s \<Longrightarrow> \<forall>v \<in> set vs. fits v \<Longrightarrow> alloc_all vs s \<noteq> None \<longleftrightarrow> length vs \<le> card (free s)"
proof (induction vs arbitrary: s)
  case (Cons v vs)
  show ?case
  proof (cases "free s = {}")
    case True
    then show ?thesis using Cons.prems by (simp add: alloc_none)
  next
    case False
    then obtain n t where a: "alloc v s = (Some n, t)" "n \<in> free s" "ok t" "free t = free s - {n}"
      using Cons.prems by (auto elim: allocE[of s v])
    have "card (free s) = Suc (card (free t))"
      using a(2,4) finite_free[OF Cons.prems(1)] by (metis card.remove)
    moreover have "alloc_all vs t \<noteq> None \<longleftrightarrow> length vs \<le> card (free t)"
      using Cons a(3) by simp
    ultimately show ?thesis using a(1) by (auto split: option.splits)
  qed
qed simp

lemma alloc_all_result:
  assumes "ok s" "\<forall>v \<in> set vs. fits v" "alloc_all vs s = Some (ns, t)"
  shows "ok t \<and> cells t = cells s \<and> distinct ns \<and> set ns \<subseteq> free s \<and> free t = free s - set ns \<and>
    length ns = length vs \<and> (\<forall>i < length vs. val t (ns ! i) = vs ! i) \<and>
    (\<forall>m. m \<in> cells s \<longrightarrow> m \<notin> free s \<longrightarrow> val t m = val s m)"
  using assms
proof (induction vs arbitrary: s ns)
  case (Cons v vs)
  have ne: "free s \<noteq> {}"
    using Cons.prems alloc_none[of s v] by (auto split: option.splits prod.splits)
  obtain n u where a: "alloc v s = (Some n, u)" "n \<in> free s" "ok u" "cells u = cells s"
    "free u = free s - {n}" "val u n = v" "\<And>m. m \<in> cells s \<Longrightarrow> m \<notin> free s \<Longrightarrow> val u m = val s m"
    using Cons.prems ne by (auto elim: allocE[of s v])
  from Cons.prems(3) a(1) obtain ms where ms: "alloc_all vs u = Some (ms, t)" "ns = n # ms"
    by (auto split: option.splits)
  have fits: "\<forall>v \<in> set vs. fits v" using Cons.prems(2) by simp
  note IH = Cons.IH[OF a(3) fits ms(1)]
  have "n \<in> cells u" "n \<notin> free u" using a free_cells[OF Cons.prems(1)] by auto
  then have "val t n = v" using IH a(6) by simp
  moreover have "val t m = val s m" if "m \<in> cells s" "m \<notin> free s" for m
    using that IH a by simp
  ultimately show ?case
    using IH a ms(2) by (auto simp: nth_Cons split: nat.splits)
qed simp

end

end
