(* ===== verification/Bitmap.thy ===== *)
theory Bitmap
  imports Inodes Allocator
begin

text \<open>
  The inode bitmap of \<open>src/layer1.c\<close>: \<open>inode_free\<close> clears a bit, \<open>inode_create\<close> scans the bitmap
  blocks for the first clear bit, sets it and writes the new inode.  Inode \<open>n\<close> is bit \<open>n - 1\<close>,
  most significant bit of a byte first.  The two operations are an instance of \<open>allocator\<close>.
\<close>

section \<open>Operations\<close>

definition inode_free :: "int \<Rightarrow> 'a layer1_scheme \<Rightarrow> int \<times> 'a layer1_scheme" where
  "inode_free inode_num s =
    (let (ret, sb) = local_superblock s in
     if ret \<noteq> SUCCESS then (DISC_UNINITIALIZED, s)
     else if inode_num \<le> 0 \<or> uint (sb_num_inodes sb) < inode_num then (BAD_INODE, s)
     else
       (let bitmap_block_num = (inode_num - 1) div int BITS_PER_BLOCK;
            bit_in_block = nat ((inode_num - 1) mod int BITS_PER_BLOCK);
            byte_in_block = bit_in_block div 8;
            bit_in_byte = bit_in_block mod 8;
            total_block_offset = sint (sb_ibitmap_block_offset sb + word_of_int bitmap_block_num);
            (_, buf) = read_block total_block_offset (Some (uninit BLOCK_SIZE s)) s;
            b = buf ! byte_in_block
        in write_block total_block_offset
             (Some (buf[byte_in_block := b AND (b XOR drop_bit bit_in_byte 0x80)])) s))"

text \<open>
  The three nested loops of \<open>inode_create\<close>.  A loop that ends without a hit yields \<open>Scan_None\<close>; the
  two exits from inside are \<open>Scan_Full\<close> (\<open>return ILIST_FULL\<close> at the first number that is too
  large) and \<open>Scan_Free byte_offset bit_offset inode_number\<close>.
\<close>

datatype scan_result = Scan_None | Scan_Full | Scan_Free nat nat int

definition scan_number :: "nat \<Rightarrow> nat \<Rightarrow> nat \<Rightarrow> int" where
  "scan_number cur_ibitmap_block byte_offset bit_offset =
    int (cur_ibitmap_block * (BLOCK_SIZE * 8) + byte_offset * 8 + bit_offset + 1)"

primrec scan_bits :: "u32 \<Rightarrow> nat \<Rightarrow> nat \<Rightarrow> byte \<Rightarrow> nat list \<Rightarrow> scan_result" where
  "scan_bits num cur byte_offset byte [] = Scan_None"
| "scan_bits num cur byte_offset byte (bit_offset # rest) =
    (let inode_number = scan_number cur byte_offset bit_offset in
     if uint num < inode_number then Scan_Full
     else if push_bit bit_offset byte AND 0x80 = 0 then Scan_Free byte_offset bit_offset inode_number
     else scan_bits num cur byte_offset byte rest)"

primrec scan_bytes :: "u32 \<Rightarrow> nat \<Rightarrow> (nat \<times> byte) list \<Rightarrow> scan_result" where
  "scan_bytes num cur [] = Scan_None"
| "scan_bytes num cur (p # rest) =
    (if snd p \<noteq> 0xff then
       (case scan_bits num cur (fst p) (snd p) [0..<8] of
          Scan_None \<Rightarrow> scan_bytes num cur rest
        | r \<Rightarrow> r)
     else scan_bytes num cur rest)"

primrec scan_blocks ::
    "nat list \<Rightarrow> superblock \<Rightarrow> byte list \<Rightarrow> inode \<Rightarrow> int \<Rightarrow> 'a layer1_scheme \<Rightarrow> int \<times> int \<times> 'a layer1_scheme"
where
  "scan_blocks [] sb ibitmap_buffer new_node inode_num s = (ILIST_FULL, inode_num, s)"
| "scan_blocks (cur # rest) sb ibitmap_buffer new_node inode_num s =
    (let addr = sint (sb_ibitmap_block_offset sb + word_of_nat cur);
         (_, buf) = read_block addr (Some ibitmap_buffer) s
     in case scan_bytes (sb_num_inodes sb) cur (enumerate 0 buf) of
          Scan_Full \<Rightarrow> (ILIST_FULL, inode_num, s)
        | Scan_Free byte_offset bit_offset inode_number \<Rightarrow>
            (let byte = buf ! byte_offset OR drop_bit bit_offset 0x80;
                 (_, s1) = write_block addr (Some (buf[byte_offset := byte])) s;
                 (ret, s2) = inode_write inode_number (Some new_node) s1
             in (ret, inode_number, s2))
        | Scan_None \<Rightarrow> scan_blocks rest sb buf new_node inode_num s)"

text \<open>\<open>inode_num\<close> is the caller's \<open>int*\<close>; the second result is \<open>*inode_num\<close> afterwards.\<close>

definition inode_create ::
    "inode option \<Rightarrow> int option \<Rightarrow> 'a layer1_scheme \<Rightarrow> int \<times> int \<times> 'a layer1_scheme" where
  "inode_create new_node inode_num s =
    (let (ret, sb) = local_superblock s; old = (case inode_num of None \<Rightarrow> 0 | Some n \<Rightarrow> n) in
     if ret \<noteq> SUCCESS then (DISC_UNINITIALIZED, old, s)
     else case new_node of
       None \<Rightarrow> (BUF_NULL, old, s)
     | Some node \<Rightarrow>
         (case inode_num of
            None \<Rightarrow> (INT_NULL, old, s)
          | Some _ \<Rightarrow> scan_blocks [0..<unat (sb_ibitmap_size sb)] sb (uninit BLOCK_SIZE s) node old s))"

section \<open>Bits of a byte, most significant first\<close>

definition msb_bit :: "byte \<Rightarrow> nat \<Rightarrow> bool" where
  "msb_bit b k \<longleftrightarrow> bit b (7 - k)"

lemma bit_0x80: "bit (0x80 :: byte) n \<longleftrightarrow> n = 7"
proof -
  have "bit ((2 :: byte) ^ 7) n \<longleftrightarrow> n = 7" by (auto simp only: bit_exp_iff possible_bit_word) simp
  then show ?thesis by simp
qed

lemma scan_test: "k < 8 \<Longrightarrow> push_bit k b AND 0x80 = 0 \<longleftrightarrow> \<not> msb_bit b k"
proof -
  assume k: "k < 8"
  have "(0x80 :: byte) = 2 ^ 7" by simp
  then have "push_bit k b AND 0x80 = 0 \<longleftrightarrow> \<not> bit (push_bit k b) 7"
    by (metis and_exp_eq_0_iff_not_bit)
  then show ?thesis using k by (auto simp: bit_push_bit_iff msb_bit_def)
qed

lemma bit_drop_0x80: "k < 8 \<Longrightarrow> j < 8 \<Longrightarrow> bit (drop_bit k (0x80 :: byte)) (7 - j) \<longleftrightarrow> j = k"
  by (simp only: bit_drop_bit_eq bit_0x80 comp_apply) arith

lemma msb_bit_set: "k < 8 \<Longrightarrow> j < 8 \<Longrightarrow> msb_bit (b OR drop_bit k 0x80) j \<longleftrightarrow> j = k \<or> msb_bit b j"
  by (auto simp only: msb_bit_def bit_or_iff bit_drop_0x80)

lemma msb_bit_clear:
  "k < 8 \<Longrightarrow> j < 8 \<Longrightarrow> msb_bit (b AND (b XOR drop_bit k 0x80)) j \<longleftrightarrow> j \<noteq> k \<and> msb_bit b j"
  by (auto simp only: msb_bit_def bit_and_iff bit_xor_iff bit_drop_0x80)

lemma msb_bit_ff: "k < 8 \<Longrightarrow> msb_bit 0xff k"
proof -
  assume "k < 8"
  then have "bit (mask 8 :: byte) (7 - k)" by (simp only: bit_mask_iff possible_bit_word) simp
  moreover have "(mask 8 :: byte) = 0xff" by (simp add: mask_eq_exp_minus_1)
  ultimately show ?thesis unfolding msb_bit_def by metis
qed

section \<open>The scan finds the first clear bit\<close>

lemma scan_bits_spec:
  assumes "\<forall>k \<in> set ks. k < 8"
  shows "case scan_bits num cur i b ks of
      Scan_None \<Rightarrow> \<forall>k \<in> set ks. msb_bit b k
    | Scan_Full \<Rightarrow> \<exists>ys k zs. ks = ys @ k # zs \<and> (\<forall>y \<in> set ys. msb_bit b y) \<and> uint num < scan_number cur i k
    | Scan_Free i' k n \<Rightarrow> i' = i \<and> n = scan_number cur i k \<and> n \<le> uint num \<and>
        (\<exists>ys zs. ks = ys @ k # zs \<and> (\<forall>y \<in> set ys. msb_bit b y) \<and> \<not> msb_bit b k)"
  using assms
proof (induction ks)
  case (Cons k ks)
  consider "uint num < scan_number cur i k"
    | "scan_number cur i k \<le> uint num" "\<not> msb_bit b k" | "scan_number cur i k \<le> uint num" "msb_bit b k"
    by linarith
  then show ?case
  proof cases
    case 3
    then have step: "scan_bits num cur i b (k # ks) = scan_bits num cur i b ks"
      using Cons.prems by (simp add: scan_test Let_def)
    show ?thesis
      using Cons.IH Cons.prems 3 unfolding step
      by (auto split: scan_result.splits) (metis append_Cons set_ConsD)+
  next
    case 1
    then show ?thesis by (auto simp: Let_def intro!: exI[of _ "[]"])
  next
    case 2
    then have "scan_bits num cur i b (k # ks) = Scan_Free i k (scan_number cur i k)"
      using Cons.prems by (simp add: scan_test Let_def)
    then show ?thesis using 2 by (simp only: scan_result.case) (simp, rule exI[of _ "[]"], simp)
  qed
qed simp

lemma prefix_upt: "[0..<n] = ys @ k # zs \<Longrightarrow> set ys = {..<k} \<and> k < n"
proof -
  assume eq: "[0..<n] = ys @ k # zs"
  then have len: "length ys < n" by (metis add_Suc_right length_append length_Cons length_upt
        less_add_Suc1 minus_nat.diff_0)
  have "ys = take (length ys) [0..<n]" using eq by simp
  then have "ys = [0..<length ys]" using len by simp
  moreover have "k = [0..<n] ! length ys" using eq by simp
  ultimately show ?thesis using len by (metis add_0 atLeastLessThan_upt lessThan_atLeast0 nth_upt)
qed

text \<open>\<open>busy\<close>: every bit of the listed bytes is set.\<close>

definition busy :: "(nat \<times> byte) list \<Rightarrow> bool" where
  "busy ps \<longleftrightarrow> (\<forall>p \<in> set ps. \<forall>k < 8. msb_bit (snd p) k)"

lemma scan_bytes_spec:
  "case scan_bytes num cur ps of
      Scan_None \<Rightarrow> busy ps
    | Scan_Full \<Rightarrow> \<exists>qs i b rs k. ps = qs @ (i, b) # rs \<and> busy qs \<and> k < 8 \<and>
        (\<forall>j < k. msb_bit b j) \<and> uint num < scan_number cur i k
    | Scan_Free i k n \<Rightarrow> n = scan_number cur i k \<and> n \<le> uint num \<and>
        (\<exists>qs b rs. ps = qs @ (i, b) # rs \<and> busy qs \<and> k < 8 \<and> (\<forall>j < k. msb_bit b j) \<and> \<not> msb_bit b k)"
proof (induction ps)
  case (Cons p ps)
  obtain i b where p: "p = (i, b)" by (cases p)
  note bits = scan_bits_spec[where ks = "[0..<8]" and num = num and cur = cur and i = i and b = b]
  have skip: ?case if "scan_bytes num cur (p # ps) = scan_bytes num cur ps" "\<forall>k < 8. msb_bit b k"
  proof -
    have b: "busy (p # qs) \<longleftrightarrow> busy qs" for qs using that(2) by (simp add: busy_def p)
    show ?thesis
      using Cons.IH unfolding that(1)
      by (auto split: scan_result.splits simp: b) (metis b append_Cons)+
  qed
  show ?case
  proof (cases "b = 0xff")
    case True
    then show ?thesis by (intro skip) (simp_all add: p msb_bit_ff)
  next
    case False
    then have step: "scan_bytes num cur (p # ps) =
        (case scan_bits num cur i b [0..<8] of Scan_None \<Rightarrow> scan_bytes num cur ps | r \<Rightarrow> r)"
      by (simp add: p)
    show ?thesis
    proof (cases "scan_bits num cur i b [0..<8]")
      case Scan_None
      then show ?thesis using bits step by (intro skip) auto
    next
      case Scan_Full
      with bits obtain ys k zs where k: "[0..<8] = ys @ k # zs" "\<forall>y \<in> set ys. msb_bit b y"
        "uint num < scan_number cur i k" by auto
      have r: "scan_bytes num cur (p # ps) = Scan_Full" using step Scan_Full by simp
      show ?thesis using k prefix_upt[OF k(1)]
        unfolding r scan_result.case unfolding p
        by (intro exI[of _ "[]"] exI[of _ i] exI[of _ b] exI[of _ ps] exI[of _ k])
          (auto simp: busy_def)
    next
      case (Scan_Free i' k n)
      with bits obtain ys zs where k: "[0..<8] = ys @ k # zs" "\<forall>y \<in> set ys. msb_bit b y"
        "\<not> msb_bit b k" "i' = i" "n = scan_number cur i k" "n \<le> uint num" by auto
      have r: "scan_bytes num cur (p # ps) = Scan_Free i k n" using step Scan_Free k(4) by simp
      show ?thesis using k prefix_upt[OF k(1)]
        unfolding r scan_result.case unfolding p
        by (intro conjI exI[of _ "[]"] exI[of _ b] exI[of _ ps]) (auto simp: busy_def)
    qed
  qed
qed (simp add: busy_def)

section \<open>The bitmap as a set of bit positions\<close>

interpretation ibitmap: block_store
  "\<lambda>s k. blk s (ibitmap_off s + k)" "\<lambda>k b s. put_blk (ibitmap_off s + k) b s" mounted ibitmap_len
  is_block
proof (rule region_store)
  fix s :: "'a layer1_scheme" assume "mounted s"
  from mounted_regions[OF this] show "0 < ibitmap_off s \<and> ibitmap_off s + ibitmap_len s \<le> nblocks s"
    by linarith
qed simp_all

definition bit_pos :: "'a layer1_scheme \<Rightarrow> nat \<Rightarrow> bool" where
  "bit_pos s p = msb_bit (blk s (ibitmap_off s + p div BITS_PER_BLOCK) ! (p mod BITS_PER_BLOCK div 8))
    (p mod BITS_PER_BLOCK mod 8)"

definition upd_bitmap :: "nat \<Rightarrow> (byte \<Rightarrow> nat \<Rightarrow> byte) \<Rightarrow> 'a layer1_scheme \<Rightarrow> 'a layer1_scheme" where
  "upd_bitmap p g s =
    (let k = ibitmap_off s + p div BITS_PER_BLOCK; i = p mod BITS_PER_BLOCK div 8; b = blk s k
     in put_blk k (b[i := g (b ! i) (p mod BITS_PER_BLOCK mod 8)]) s)"

definition sets_bit :: "(byte \<Rightarrow> nat \<Rightarrow> byte) \<Rightarrow> bool \<Rightarrow> bool" where
  "sets_bit g v \<longleftrightarrow>
    (\<forall>b k j. k < 8 \<longrightarrow> j < 8 \<longrightarrow> msb_bit (g b k) j = (if j = k then v else msb_bit b j))"

lemma BITS_PER_BLOCK_pos [simp]: "0 < BITS_PER_BLOCK"
  by (simp add: BITS_PER_BLOCK_def)

lemma byte_in_block: "p mod BITS_PER_BLOCK div 8 < BLOCK_SIZE"
  using mod_less_divisor[OF BITS_PER_BLOCK_pos, of p]
  by (simp add: BITS_PER_BLOCK_def less_mult_imp_div_less)

lemma upd_bitmap_simps [simp]:
  "sb_of (upd_bitmap p g s) = sb_of s" "nblocks (upd_bitmap p g s) = nblocks s"
  by (simp_all add: upd_bitmap_def Let_def)

lemma regions_upd_bitmap [simp]:
  "ibitmap_off (upd_bitmap p g s) = ibitmap_off s" "ibitmap_len (upd_bitmap p g s) = ibitmap_len s"
  "ilist_off (upd_bitmap p g s) = ilist_off s" "ilist_len (upd_bitmap p g s) = ilist_len s"
  "data_off (upd_bitmap p g s) = data_off s" "ndata (upd_bitmap p g s) = ndata s"
  "ninodes (upd_bitmap p g s) = ninodes s" "valid_inum (upd_bitmap p g s) m = valid_inum s m"
  by (simp_all add: region_defs valid_inum_def)

lemma upd_bitmap_block:
  assumes "mounted s" "p div BITS_PER_BLOCK < ibitmap_len s"
  shows "is_block ((blk s (ibitmap_off s + p div BITS_PER_BLOCK))[i := x])"
    and "length (blk s (ibitmap_off s + p div BITS_PER_BLOCK)) = BLOCK_SIZE"
  using ibitmap.rd_fits[OF assms] by (simp_all add: is_block_def)

lemma mounted_upd_bitmap [simp]:
  assumes "mounted s" "p < ibitmap_len s * BITS_PER_BLOCK"
  shows "mounted (upd_bitmap p g s)"
  using ibitmap.ok_wr[OF assms(1) _ upd_bitmap_block(1)[OF assms(1)]] assms(2)
  by (simp add: upd_bitmap_def Let_def less_mult_imp_div_less)

lemma bit_pos_upd_bitmap:
  assumes "mounted s" "p < ibitmap_len s * BITS_PER_BLOCK" "sets_bit g v"
  shows "bit_pos (upd_bitmap p g s) q = (if q = p then v else bit_pos s q)"
proof -
  let ?c = "p div BITS_PER_BLOCK" and ?i = "p mod BITS_PER_BLOCK div 8"
  let ?b = "blk s (ibitmap_off s + ?c)"
  have c: "?c < ibitmap_len s" using assms(2) by (rule less_mult_imp_div_less)
  have rd: "blk (upd_bitmap p g s) (ibitmap_off s + q div BITS_PER_BLOCK) =
      (if q div BITS_PER_BLOCK = ?c then ?b[?i := g (?b ! ?i) (p mod BITS_PER_BLOCK mod 8)]
       else blk s (ibitmap_off s + q div BITS_PER_BLOCK))"
    using ibitmap.rd_wr[OF assms(1) c upd_bitmap_block(1)[OF assms(1) c], of _ _ "q div BITS_PER_BLOCK"]
    by (simp add: upd_bitmap_def Let_def)
  have i: "?i < length ?b" using upd_bitmap_block(2)[OF assms(1) c] byte_in_block by simp
  show ?thesis
  proof (cases "q div BITS_PER_BLOCK = ?c \<and> q mod BITS_PER_BLOCK div 8 = ?i")
    case True
    then have "q = p \<longleftrightarrow> q mod BITS_PER_BLOCK mod 8 = p mod BITS_PER_BLOCK mod 8"
      by (metis div_mult_mod_eq)
    moreover have "blk (upd_bitmap p g s) (ibitmap_off s + ?c) =
        ?b[?i := g (?b ! ?i) (p mod BITS_PER_BLOCK mod 8)]" using rd True by simp
    ultimately show ?thesis
      using True i assms(3) by (simp add: bit_pos_def sets_bit_def)
  next
    case False
    then have "q \<noteq> p" by auto
    then show ?thesis using False by (auto simp: bit_pos_def rd nth_list_update)
  qed
qed

definition inode_used :: "'a layer1_scheme \<Rightarrow> nat \<Rightarrow> bool" where
  "inode_used s n = bit_pos s (islot n)"

definition mark_inode :: "nat \<Rightarrow> 'a layer1_scheme \<Rightarrow> 'a layer1_scheme" where
  "mark_inode n s = upd_bitmap (islot n) (\<lambda>b k. b OR drop_bit k 0x80) s"

definition clear_inode :: "nat \<Rightarrow> 'a layer1_scheme \<Rightarrow> 'a layer1_scheme" where
  "clear_inode n s = upd_bitmap (islot n) (\<lambda>b k. b AND (b XOR drop_bit k 0x80)) s"

lemma mark_inode_simps [simp]:
  "sb_of (mark_inode n s) = sb_of s"
  "nblocks (mark_inode n s) = nblocks s"
  "ibitmap_off (mark_inode n s) = ibitmap_off s"
  "ibitmap_len (mark_inode n s) = ibitmap_len s"
  "ilist_off (mark_inode n s) = ilist_off s"
  "ilist_len (mark_inode n s) = ilist_len s"
  "data_off (mark_inode n s) = data_off s"
  "ndata (mark_inode n s) = ndata s"
  "ninodes (mark_inode n s) = ninodes s"
  "valid_inum (mark_inode n s) m = valid_inum s m"
  by (simp_all add: mark_inode_def)

lemma clear_inode_simps [simp]:
  "sb_of (clear_inode n s) = sb_of s"
  "nblocks (clear_inode n s) = nblocks s"
  "ibitmap_off (clear_inode n s) = ibitmap_off s"
  "ibitmap_len (clear_inode n s) = ibitmap_len s"
  "ilist_off (clear_inode n s) = ilist_off s"
  "ilist_len (clear_inode n s) = ilist_len s"
  "data_off (clear_inode n s) = data_off s"
  "ndata (clear_inode n s) = ndata s"
  "ninodes (clear_inode n s) = ninodes s"
  "valid_inum (clear_inode n s) m = valid_inum s m"
  by (simp_all add: clear_inode_def)

lemma bitmap_room: "mounted s \<Longrightarrow> valid_inum s n \<Longrightarrow> islot n < ibitmap_len s * BITS_PER_BLOCK"
  using mounted_regions(10)[of s] by (auto simp: valid_inum_def islot_def)

lemma mounted_mark_inode [simp]:
  "mounted s \<Longrightarrow> valid_inum s n \<Longrightarrow> mounted (mark_inode n s)"
  "mounted s \<Longrightarrow> valid_inum s n \<Longrightarrow> mounted (clear_inode n s)"
  by (simp_all add: mark_inode_def clear_inode_def bitmap_room)

lemma islot_eq_iff: "1 \<le> n \<Longrightarrow> 1 \<le> m \<Longrightarrow> islot m = islot n \<longleftrightarrow> m = n"
  by (auto simp: islot_def)

lemma inode_used_mark_inode:
  assumes "mounted s" "valid_inum s n" "1 \<le> m"
  shows "inode_used (mark_inode n s) m \<longleftrightarrow> m = n \<or> inode_used s m"
    and "inode_used (clear_inode n s) m \<longleftrightarrow> m \<noteq> n \<and> inode_used s m"
proof -
  have n: "islot m = islot n \<longleftrightarrow> m = n" using assms by (simp add: valid_inum_def islot_eq_iff)
  note r = bit_pos_upd_bitmap[OF assms(1) bitmap_room[OF assms(1,2)]]
  show "inode_used (mark_inode n s) m \<longleftrightarrow> m = n \<or> inode_used s m"
    using r[of "\<lambda>b k. b OR drop_bit k 0x80" True "islot m"]
    by (auto simp: inode_used_def mark_inode_def n sets_bit_def msb_bit_set)
  show "inode_used (clear_inode n s) m \<longleftrightarrow> m \<noteq> n \<and> inode_used s m"
    using r[of "\<lambda>b k. b AND (b XOR drop_bit k 0x80)" False "islot m"]
    by (auto simp: inode_used_def clear_inode_def n sets_bit_def msb_bit_clear)
qed

section \<open>inode_free and inode_create on a mounted disk\<close>

lemma bitmap_offset:
  assumes "mounted s" "k < ibitmap_len s"
  shows "sint (sb_ibitmap_block_offset (sb_of s) + word_of_int (int k)) = int (ibitmap_off s + k)"
    and "ibitmap_off s + k < nblocks s"
proof -
  show b: "ibitmap_off s + k < nblocks s" using assms(2) mounted_regions[OF assms(1)] by linarith
  show "sint (sb_ibitmap_block_offset (sb_of s) + word_of_int (int k)) = int (ibitmap_off s + k)"
    using b mounted_regions(8)[OF assms(1)]
    by (subst sint_add_small) (simp_all add: uint_regions)
qed

lemma inode_free_ok:
  assumes "mounted s" "valid_inum s n"
  shows "inode_free (int n) s = (SUCCESS, clear_inode n s)"
proof -
  have i: "int n - 1 = int (islot n)" using assms(2) by (simp add: valid_inum_def islot_def)
  have c: "islot n div BITS_PER_BLOCK < ibitmap_len s"
    using bitmap_room[OF assms] by (rule less_mult_imp_div_less)
  show ?thesis
    using bitmap_offset[OF assms(1) c] inode_num_ok[OF assms] upd_bitmap_block(1)[OF assms(1) c] assms
    unfolding inode_free_def i zdiv_int[symmetric] zmod_int[symmetric] nat_int
    by (simp add: Let_def clear_inode_def upd_bitmap_def)
qed

lemma inode_free_bad:
  "mounted s \<Longrightarrow> n \<le> 0 \<or> int (ninodes s) < n \<Longrightarrow> inode_free n s = (BAD_INODE, s)"
  by (auto simp: inode_free_def uint_regions)

lemma bit_pos_split:
  assumes "i < BLOCK_SIZE" "k < 8"
  shows "bit_pos s (c * BITS_PER_BLOCK + i * 8 + k) = msb_bit (blk s (ibitmap_off s + c) ! i) k"
proof -
  have r: "i * 8 + k < BITS_PER_BLOCK" using assms by (simp add: BITS_PER_BLOCK_def)
  then have "(c * BITS_PER_BLOCK + (i * 8 + k)) div BITS_PER_BLOCK = c"
    "(c * BITS_PER_BLOCK + (i * 8 + k)) mod BITS_PER_BLOCK = i * 8 + k" by simp_all
  then show ?thesis using assms(2) by (simp add: bit_pos_def add.assoc)
qed

lemma enumerate_split:
  assumes "enumerate 0 buf = qs @ (i, b) # rs"
  shows "i < length buf" "b = buf ! i" "busy qs \<longleftrightarrow> (\<forall>j < i. \<forall>k < 8. msb_bit (buf ! j) k)"
proof -
  have len: "length qs < length buf"
    using arg_cong[OF assms, of length] by simp
  have "enumerate 0 buf ! length qs = (i, b)" by (simp add: assms)
  then have ib: "i = length qs" "b = buf ! i" using len by (auto simp: nth_enumerate_eq)
  have "qs ! j = (j, buf ! j)" if "j < length qs" for j
    using that len nth_enumerate_eq[of j buf 0] by (simp add: assms nth_append)
  then have "busy qs \<longleftrightarrow> (\<forall>j < i. \<forall>k < 8. msb_bit (buf ! j) k)"
    unfolding busy_def ib(1) all_set_conv_all_nth by simp
  with ib len show "i < length buf" "b = buf ! i"
    "busy qs \<longleftrightarrow> (\<forall>j < i. \<forall>k < 8. msb_bit (buf ! j) k)" by simp_all
qed

text \<open>All bits before a position of block \<open>c\<close> are set, if those of the earlier blocks and bytes are.\<close>

lemma prefix_set:
  assumes "\<forall>p < c * BITS_PER_BLOCK. bit_pos s p" and "i \<le> BLOCK_SIZE"
    and "\<forall>j < i. \<forall>k < 8. msb_bit (blk s (ibitmap_off s + c) ! j) k"
    and "\<forall>j < k. msb_bit (blk s (ibitmap_off s + c) ! i) j" and "k \<le> 8" and "i < BLOCK_SIZE \<or> k = 0"
    and "p < c * BITS_PER_BLOCK + i * 8 + k"
  shows "bit_pos s p"
proof (cases "p < c * BITS_PER_BLOCK")
  case False
  define r where "r = p - c * BITS_PER_BLOCK"
  have p: "p = c * BITS_PER_BLOCK + r div 8 * 8 + r mod 8" and r: "r < i * 8 + k"
    using False assms(7) by (simp_all add: r_def)
  have lex: "q < i \<or> q = i \<and> m < k" if "q * 8 + m < i * 8 + k" "k \<le> 8" for q m :: nat
    using that by arith
  have "r div 8 < i \<or> r div 8 = i \<and> r mod 8 < k" using r assms(5) by (intro lex) simp_all
  then consider "r div 8 < i" | "r div 8 = i" "r mod 8 < k" by blast
  then show ?thesis
  proof cases
    case 1
    then have "bit_pos s (c * BITS_PER_BLOCK + r div 8 * 8 + r mod 8)"
      using assms(2,3) by (subst bit_pos_split) simp_all
    then show ?thesis using p by simp
  next
    case 2
    then have "i < BLOCK_SIZE" "r mod 8 < 8" using assms(6) by auto
    then have "bit_pos s (c * BITS_PER_BLOCK + r div 8 * 8 + r mod 8)"
      using 2 assms(4) by (subst bit_pos_split) simp_all
    then show ?thesis using p by simp
  qed
qed (use assms(1) in simp)

text \<open>What \<open>inode_create\<close> does once the first free inode is known.\<close>

definition first_free :: "'a layer1_scheme \<Rightarrow> nat \<Rightarrow> bool" where
  "first_free s n \<longleftrightarrow> valid_inum s n \<and> \<not> inode_used s n \<and>
    (\<forall>m. valid_inum s m \<and> m < n \<longrightarrow> inode_used s m)"

lemma first_freeI:
  assumes "p < ninodes s" "\<not> bit_pos s p" "\<forall>q < p. bit_pos s q"
  shows "first_free s (p + 1)"
  using assms by (auto simp: first_free_def valid_inum_def inode_used_def islot_def)

lemma all_usedI: "\<forall>p < ninodes s. bit_pos s p \<Longrightarrow> valid_inum s n \<Longrightarrow> inode_used s n"
  by (auto simp: valid_inum_def inode_used_def islot_def)

text \<open>The scan of one bitmap block, when all bits before it are set.\<close>

lemma scan_block_outcome:
  assumes "mounted s" "k < ibitmap_len s" "\<forall>p < k * BITS_PER_BLOCK. bit_pos s p"
  defines "b \<equiv> blk s (ibitmap_off s + k)"
  shows "case scan_bytes (sb_num_inodes (sb_of s)) k (enumerate 0 b) of
      Scan_None \<Rightarrow> \<forall>p < Suc k * BITS_PER_BLOCK. bit_pos s p
    | Scan_Full \<Rightarrow> \<forall>n. valid_inum s n \<longrightarrow> inode_used s n
    | Scan_Free i j n \<Rightarrow> \<exists>m. n = int m \<and> first_free s m \<and>
        put_blk (ibitmap_off s + k) (b[i := b ! i OR drop_bit j 0x80]) s = mark_inode m s"
proof -
  have len: "length b = BLOCK_SIZE" using ibitmap.rd_fits[OF assms(1,2)] by (simp_all add: b_def is_block_def)
  note spec = scan_bytes_spec[where num = "sb_num_inodes (sb_of s)" and cur = k and ps = "enumerate 0 b"]
  note prefix = prefix_set[OF assms(3), folded b_def]
  show ?thesis
  proof (cases "scan_bytes (sb_num_inodes (sb_of s)) k (enumerate 0 b)")
    case Scan_None
    then have "busy (enumerate 0 b)" using spec by simp
    then have all: "\<forall>j < BLOCK_SIZE. \<forall>i < 8. msb_bit (b ! j) i"
      unfolding busy_def all_set_conv_all_nth by (simp add: len nth_enumerate_eq)
    have "bit_pos s p" if "p < Suc k * BITS_PER_BLOCK" for p
      by (rule prefix[where i = BLOCK_SIZE and k = 0]) (use that all in \<open>auto simp: BITS_PER_BLOCK_def\<close>)
    then show ?thesis by (simp add: Scan_None)
  next
    case Scan_Full
    then obtain qs i x rs j where w: "enumerate 0 b = qs @ (i, x) # rs" "busy qs" "j < 8"
      "\<forall>l < j. msb_bit x l" "uint (sb_num_inodes (sb_of s)) < scan_number k i j"
      using spec by auto
    note e = enumerate_split[OF w(1)]
    have "ninodes s \<le> k * BITS_PER_BLOCK + i * 8 + j"
      using w(5) unfolding uint_regions scan_number_def of_nat_less_iff BITS_PER_BLOCK_def by simp
    moreover have "bit_pos s p" if "p < k * BITS_PER_BLOCK + i * 8 + j" for p
      by (rule prefix[where i = i and k = j]) (use that e w len in auto)
    ultimately have "\<forall>p < ninodes s. bit_pos s p" by simp
    then show ?thesis by (auto simp: Scan_Full intro: all_usedI)
  next
    case (Scan_Free i j n)
    then obtain qs x rs where w: "enumerate 0 b = qs @ (i, x) # rs" "busy qs" "j < 8"
      "\<forall>l < j. msb_bit x l" "\<not> msb_bit x j" "n = scan_number k i j" "n \<le> uint (sb_num_inodes (sb_of s))"
      using spec by auto
    note e = enumerate_split[OF w(1)]
    define p where "p = k * BITS_PER_BLOCK + i * 8 + j"
    have n: "n = int (Suc p)" using w(6) by (simp add: scan_number_def BITS_PER_BLOCK_def p_def)
    have p: "p < ninodes s" using w(7) unfolding n uint_regions of_nat_le_iff by simp
    have "bit_pos s q" if "q < p" for q
      by (rule prefix[where i = i and k = j]) (use that e w len in \<open>auto simp: p_def\<close>)
    moreover have "\<not> bit_pos s p" using bit_pos_split[of i j s k, folded b_def] e w len by (simp add: p_def)
    ultimately have ff: "first_free s (Suc p)" using p first_freeI[of p s] by simp
    have r: "i * 8 + j < BITS_PER_BLOCK" using e(1) w(3) len by (simp add: BITS_PER_BLOCK_def)
    have "islot (Suc p) div BITS_PER_BLOCK = k" "islot (Suc p) mod BITS_PER_BLOCK = i * 8 + j"
      using r by (simp_all add: islot_def add.assoc p_def)
    then have "put_blk (ibitmap_off s + k) (b[i := b ! i OR drop_bit j 0x80]) s = mark_inode (Suc p) s"
      using w(3) by (simp add: mark_inode_def upd_bitmap_def Let_def b_def)
    then show ?thesis unfolding Scan_Free scan_result.case using ff n by (intro exI[of _ "Suc p"]) simp
  qed
qed

lemma scan_blocks_spec:
  assumes "mounted s" "inode_wf node" "k \<le> ibitmap_len s" "is_block buf"
    and "\<forall>p < k * BITS_PER_BLOCK. bit_pos s p"
  shows "(\<exists>n. first_free s n \<and>
        scan_blocks [k..<ibitmap_len s] (sb_of s) buf node old s =
          (SUCCESS, int n, put_inode n node (mark_inode n s)))
    \<or> ((\<forall>n. valid_inum s n \<longrightarrow> inode_used s n) \<and>
        scan_blocks [k..<ibitmap_len s] (sb_of s) buf node old s = (ILIST_FULL, old, s))"
  using assms(3-)
proof (induction "ibitmap_len s - k" arbitrary: k buf)
  case 0
  then have "\<forall>p < ninodes s. bit_pos s p" and "k = ibitmap_len s"
    using mounted_regions(10)[OF assms(1)] by auto
  then show ?case by (auto intro: all_usedI)
next
  case (Suc d)
  then have k: "k < ibitmap_len s" by simp
  let ?b = "blk s (ibitmap_off s + k)"
  have isb: "is_block ?b" by (rule ibitmap.rd_fits[OF assms(1) k])
  note off = bitmap_offset[OF assms(1) k] and out = scan_block_outcome[OF assms(1) k Suc.prems(3)]
  have upt: "[k..<ibitmap_len s] = k # [Suc k..<ibitmap_len s]" using k by (simp add: upt_conv_Cons)
  have rb: "read_block (sint (sb_ibitmap_block_offset (sb_of s) + word_of_nat k)) (Some buf) s = (SUCCESS, ?b)"
    using off assms(1) Suc.prems(2) by simp
  show ?case
  proof (cases "scan_bytes (sb_num_inodes (sb_of s)) k (enumerate 0 ?b)")
    case Scan_None
    then show ?thesis
      using Suc.hyps(1)[of "Suc k" ?b] Suc.hyps(2) k isb out by (simp add: upt rb Let_def)
  next
    case Scan_Full
    then show ?thesis using out by (simp add: upt rb Let_def)
  next
    case (Scan_Free i j n)
    then obtain m where m: "n = int m" "first_free s m"
      "put_blk (ibitmap_off s + k) (?b[i := ?b ! i OR drop_bit j 0x80]) s = mark_inode m s" using out by auto
    have v: "valid_inum s m" using m(2) by (simp add: first_free_def)
    have wb: "write_block (sint (sb_ibitmap_block_offset (sb_of s) + word_of_nat k))
        (Some (?b[i := ?b ! i OR drop_bit j 0x80])) s = (SUCCESS, mark_inode m s)"
      using off assms(1) isb m(3) by (simp add: is_block_def)
    have "inode_write (int m) (Some node) (mark_inode m s) = (SUCCESS, put_inode m node (mark_inode m s))"
      using assms(1,2) v by (intro inode_write_ok) (simp_all add: mark_inode_def bitmap_room)
    then show ?thesis using m(2) by (intro disjI1 exI[of _ m]) (simp add: upt rb Scan_Free Let_def wb m(1))
  qed
qed

lemma inode_create_cases:
  assumes "mounted s" "inode_wf node"
  obtains n where "first_free s n"
      "inode_create (Some node) (Some old) s = (SUCCESS, int n, put_inode n node (mark_inode n s))"
    | "\<forall>n. valid_inum s n \<longrightarrow> inode_used s n"
      "inode_create (Some node) (Some old) s = (ILIST_FULL, old, s)"
proof -
  have "inode_create (Some node) (Some old) s =
      scan_blocks [0..<ibitmap_len s] (sb_of s) (uninit BLOCK_SIZE s) node old s"
    using assms(1) by (simp add: inode_create_def ibitmap_len_def)
  with scan_blocks_spec[OF assms, of 0 "uninit BLOCK_SIZE s" old] that show thesis by auto
qed

section \<open>Frames: bitmap and inode table do not disturb each other\<close>

lemma blk_upd_bitmap:
  assumes "mounted s" "p < ibitmap_len s * BITS_PER_BLOCK" "m \<noteq> ibitmap_off s + p div BITS_PER_BLOCK"
  shows "blk (upd_bitmap p g s) m = blk s m"
proof -
  have c: "p div BITS_PER_BLOCK < ibitmap_len s" using assms(2) by (rule less_mult_imp_div_less)
  then show ?thesis
    using assms bitmap_offset(2)[OF assms(1) c] upd_bitmap_block(1)[OF assms(1) c]
    by (simp add: upd_bitmap_def Let_def blk_put_blk mounted_disk_ok)
qed

lemma blk_upd_bitmap_outside:
  assumes "mounted s" "p < ibitmap_len s * BITS_PER_BLOCK" "m < ibitmap_off s \<or> ilist_off s \<le> m"
  shows "blk (upd_bitmap p g s) m = blk s m"
proof -
  have "p div BITS_PER_BLOCK < ibitmap_len s" using assms(2) by (rule less_mult_imp_div_less)
  then have "m \<noteq> ibitmap_off s + p div BITS_PER_BLOCK"
    using assms(3) mounted_regions(1,3)[OF assms(1)] by auto
  then show ?thesis using blk_upd_bitmap[OF assms(1,2)] by blast
qed

lemma inode_at_blk_cong:
  assumes "\<And>m. ilist_off s \<le> m \<Longrightarrow> m < ilist_off s + ilist_len s \<Longrightarrow> blk t m = blk s m"
    and "ilist_off t = ilist_off s" "mounted s" "valid_inum s n"
  shows "inode_at t n = inode_at s n"
  using valid_inum_range(2)[OF assms(3,4)] assms(1,2)
  by (simp add: inode_at_def ilist.get_def)

lemma inode_used_blk_cong:
  assumes "\<And>m. ibitmap_off s \<le> m \<Longrightarrow> m < ilist_off s \<Longrightarrow> blk t m = blk s m"
    and "ibitmap_off t = ibitmap_off s" "mounted s" "valid_inum s n"
  shows "inode_used t n = inode_used s n"
proof -
  have "islot n div BITS_PER_BLOCK < ibitmap_len s"
    using bitmap_room[OF assms(3,4)] by (rule less_mult_imp_div_less)
  then show ?thesis
    using assms(1,2) mounted_regions(1,3)[OF assms(3)] by (simp add: inode_used_def bit_pos_def)
qed

lemma inode_at_upd_bitmap [frame]:
  "mounted s \<Longrightarrow> p < ibitmap_len s * BITS_PER_BLOCK \<Longrightarrow> valid_inum s n \<Longrightarrow>
    inode_at (upd_bitmap p g s) n = inode_at s n"
  by (rule inode_at_blk_cong) (simp_all add: blk_upd_bitmap_outside)

lemma inode_used_put_inode [frame]:
  assumes "mounted s" "valid_inum s n" "inode_wf i" "valid_inum s m"
  shows "inode_used (put_inode n i s) m = inode_used s m"
  by (rule inode_used_blk_cong) (use assms in \<open>simp_all add: blk_put_inode\<close>)

section \<open>The inode bitmap is an allocator\<close>

definition free_inums :: "'a layer1_scheme \<Rightarrow> nat set" where
  "free_inums s = {n. valid_inum s n \<and> \<not> inode_used s n}"

definition alloc_inode :: "inode \<Rightarrow> 'a layer1_scheme \<Rightarrow> nat option \<times> 'a layer1_scheme" where
  "alloc_inode node s =
    (let (ret, n, t) = inode_create (Some node) (Some 0) s
     in (if ret = SUCCESS then Some (nat n) else None, t))"

definition release_inode :: "nat \<Rightarrow> 'a layer1_scheme \<Rightarrow> 'a layer1_scheme" where
  "release_inode n s = snd (inode_free (int n) s)"

interpretation inodes: allocator mounted inode_wf "\<lambda>s. {n. valid_inum s n}" free_inums inode_at
  alloc_inode release_inode
proof unfold_locales
  fix s :: "'a layer1_scheme" and v
  assume s: "mounted s"
  show "free_inums s \<subseteq> {n. valid_inum s n}" by (auto simp: free_inums_def)
  show "finite {n. valid_inum s n}"
    by (rule finite_subset[of _ "{..ninodes s}"]) (auto simp: valid_inum_def)
  assume v: "inode_wf v"
  show "alloc_inode v s = (None, s)" if "free_inums s = {}"
    using inode_create_cases[OF s v, of 0] that
    by cases (auto simp: alloc_inode_def free_inums_def first_free_def)
  assume ne: "free_inums s \<noteq> {}"
  show "\<exists>n t. alloc_inode v s = (Some n, t) \<and> n \<in> free_inums s \<and> mounted t \<and>
      {n. valid_inum t n} = {n. valid_inum s n} \<and> free_inums t = free_inums s - {n} \<and>
      inode_at t n = v \<and>
      (\<forall>m. m \<in> {n. valid_inum s n} \<longrightarrow> m \<notin> free_inums s \<longrightarrow> inode_at t m = inode_at s m)"
  proof (cases rule: inode_create_cases[OF s v, where old = 0])
    case (1 n)
    note created = 1
    let ?m = "mark_inode n s" and ?t = "put_inode n v (mark_inode n s)"
    have n: "valid_inum s n" "\<not> inode_used s n" using created(1) by (simp_all add: first_free_def)
    have m: "mounted ?m" "valid_inum ?m k = valid_inum s k" for k
      using s n(1) by simp_all
    have used: "inode_used ?t k \<longleftrightarrow> k = n \<or> inode_used s k" if "valid_inum s k" for k
      using inode_used_put_inode[OF m(1), of n v k] inode_used_mark_inode(1)[OF s n(1), of k] n v that
      by (simp add: m valid_inum_def)
    have at: "inode_at ?t k = (if k = n then v else inode_at s k)" if "valid_inum s k" for k
      using inode_at_put_inode[OF m(1), of n v k] inode_at_upd_bitmap[OF s bitmap_room[OF s n(1)], of k] n v that
      by (simp add: m(2) valid_inum_def mark_inode_def)
    have "alloc_inode v s = (Some n, ?t)" using created(2) by (simp add: alloc_inode_def)
    moreover have "free_inums ?t = free_inums s - {n}"
      using used by (auto simp: free_inums_def m)
    ultimately show ?thesis using n m v used at
      by (intro exI[of _ n] exI[of _ ?t]) (auto simp: free_inums_def)
  next
    case 2
    then show ?thesis using ne by (auto simp: free_inums_def)
  qed
next
  fix s :: "'a layer1_scheme" and n
  assume s: "mounted s" and "n \<in> {n. valid_inum s n}"
  then have n: "valid_inum s n" by simp
  have r: "release_inode n s = clear_inode n s" using inode_free_ok[OF s n] by (simp add: release_inode_def)
  have used: "inode_used (clear_inode n s) k \<longleftrightarrow> k \<noteq> n \<and> inode_used s k" if "valid_inum s k" for k
    using inode_used_mark_inode(2)[OF s n, of k] that by (simp add: valid_inum_def)
  show "mounted (release_inode n s) \<and> {k. valid_inum (release_inode n s) k} = {k. valid_inum s k} \<and>
      free_inums (release_inode n s) = insert n (free_inums s) \<and>
      (\<forall>m. m \<in> {n. valid_inum s n} \<longrightarrow> m \<notin> insert n (free_inums s) \<longrightarrow>
        inode_at (release_inode n s) m = inode_at s m)"
    using s n used bitmap_room[OF s n] inode_at_upd_bitmap[OF s bitmap_room[OF s n]]
    unfolding r by (auto simp: clear_inode_def free_inums_def)
qed

end
