(* ===== verification/DataBlocks.thy ===== *)
theory DataBlocks
  imports Bitmap
begin

text \<open>
  The data blocks of \<open>src/layer1.c\<close>: \<open>data_read\<close>, \<open>data_write\<close>, and the free list through which
  \<open>data_allocate\<close> and \<open>data_free\<close> hand blocks out and take them back.  Data blocks are numbered
  from 1; block 0 reads as zeros and cannot be written.  The free list is a chain of nodes stored
  in free blocks themselves, each naming up to \<open>ADDR_PER_NODE\<close> more free blocks.

  \<open>data_free\<close> follows the chain until a node has room, so it returns only if the chain ends: its
  scan is a partial function whose value \<open>None\<close> means that the C loop does not stop.
\<close>

section \<open>Reading and writing data blocks\<close>

definition INVALID_DATA :: int where [simp]: "INVALID_DATA = 0"

definition data_read ::
    "int \<Rightarrow> byte list option \<Rightarrow> 'a layer1_scheme \<Rightarrow> int \<times> byte list" where
  "data_read data_block_num read_buf s =
    (let (ret, sb) = local_superblock s in
     if ret \<noteq> SUCCESS then (DISC_UNINITIALIZED, contents read_buf)
     else if data_block_num < 0 \<or> uint (sb_data_size sb) < data_block_num
     then (INVALID_BLOCK, contents read_buf)
     else case read_buf of
       None \<Rightarrow> (BUF_NULL, [])
     | Some buf \<Rightarrow>
         if data_block_num = 0 then (SUCCESS, overlay 0 (replicate BLOCK_SIZE 0) buf)
         else (let total_offset = sint (sb_data_block_offset sb + word_of_int data_block_num - 1)
               in read_block total_offset read_buf s))"

definition data_write ::
    "int \<Rightarrow> byte list option \<Rightarrow> 'a layer1_scheme \<Rightarrow> int \<times> 'a layer1_scheme" where
  "data_write data_block_num write_buf s =
    (let (ret, sb) = local_superblock s in
     if ret \<noteq> SUCCESS then (DISC_UNINITIALIZED, s)
     else if data_block_num \<le> 0 \<or> uint (sb_data_size sb) < data_block_num then (INVALID_BLOCK, s)
     else (let total_offset = sint (sb_data_block_offset sb + word_of_int data_block_num - 1)
           in write_block total_offset write_buf s))"

section \<open>The free list\<close>

definition ADDR_PER_NODE :: nat where
  "ADDR_PER_NODE = (BLOCK_SIZE - 4) div 4"

lemma ADDR_PER_NODE_eq [c_consts]: "ADDR_PER_NODE = 1023"
  by (simp add: ADDR_PER_NODE_def c_consts)

record freelist_node =
  fl_next :: u32
  fl_addr :: "u32 list"

definition enc_node :: "freelist_node \<Rightarrow> byte list" where
  "enc_node n = bytes_of_words (fl_next n # fl_addr n)"

definition dec_node :: "byte list \<Rightarrow> freelist_node" where
  "dec_node bs = (let w = words_of_bytes bs in \<lparr>fl_next = w ! 0, fl_addr = window 1 ADDR_PER_NODE w\<rparr>)"

definition node_wf :: "freelist_node \<Rightarrow> bool" where
  "node_wf n \<longleftrightarrow> length (fl_addr n) = ADDR_PER_NODE"

definition zero_node :: freelist_node where
  "zero_node = \<lparr>fl_next = 0, fl_addr = replicate ADDR_PER_NODE 0\<rparr>"

text \<open>
  The \<open>while\<close> loop of \<open>data_free\<close>: \<open>Some (Some (cur_loc, cur_node, i))\<close> is the exit at a free slot,
  \<open>Some None\<close> the end of the chain.  A failed \<open>data_read\<close> leaves \<open>cur_node\<close> as it was.
\<close>

partial_function (option) data_free_scan ::
    "int \<Rightarrow> freelist_node \<Rightarrow> 'a layer1_scheme \<Rightarrow> (int \<times> freelist_node \<times> nat) option option" where
  "data_free_scan cur_loc cur_node s =
    (if cur_loc = INVALID_DATA then Some None
     else (let node = dec_node (snd (data_read cur_loc (Some (enc_node cur_node)) s))
           in case first_index (\<lambda>a. a = 0) (fl_addr node) of
                Some i \<Rightarrow> Some (Some (cur_loc, node, i))
              | None \<Rightarrow> data_free_scan (sint (fl_next node)) node s))"

definition data_free :: "int \<Rightarrow> 'a layer1_scheme \<Rightarrow> (int \<times> 'a layer1_scheme) option" where
  "data_free data_block_num s =
    (let (ret, sb) = local_superblock s in
     if ret \<noteq> SUCCESS then Some (DISC_UNINITIALIZED, s)
     else if data_block_num \<le> 0 \<or> uint (sb_data_size sb) < data_block_num then Some (INVALID_BLOCK, s)
     else
       (let original_root = sint (sb_free_list_head sb) in
        case data_free_scan original_root (dec_node (uninit BLOCK_SIZE s)) s of
          None \<Rightarrow> None
        | Some (Some (cur_loc, cur_node, i)) \<Rightarrow>
            (let cur_node = cur_node\<lparr>fl_addr := (fl_addr cur_node)[i := word_of_int data_block_num]\<rparr>;
                 (_, s1) = data_write cur_loc (Some (enc_node cur_node)) s
             in Some (SUCCESS, s1))
        | Some None \<Rightarrow>
            (let cur_node = zero_node\<lparr>fl_next := word_of_int original_root\<rparr>;
                 sb = sb\<lparr>sb_free_list_head := word_of_int data_block_num\<rparr>;
                 (_, s1) = data_write data_block_num (Some (enc_node cur_node)) s;
                 (_, s2) = write_superblock (Some sb) s1
             in Some (SUCCESS, s2))))"

text \<open>The second result is \<open>*data_block_num\<close> afterwards.\<close>

definition data_allocate ::
    "byte list option \<Rightarrow> int \<Rightarrow> 'a layer1_scheme \<Rightarrow> int \<times> int \<times> 'a layer1_scheme" where
  "data_allocate new_data data_block_num s =
    (let (ret, sb) = local_superblock s in
     if ret \<noteq> SUCCESS then (DISC_UNINITIALIZED, data_block_num, s)
     else if sb_free_list_head sb = 0 then (DATA_FULL, data_block_num, s)
     else
       (let head = sint (sb_free_list_head sb);
            cur = dec_node (snd (data_read head (Some (uninit BLOCK_SIZE s)) s))
        in case first_index (\<lambda>a. a \<noteq> 0) (fl_addr cur) of
             Some i \<Rightarrow>
               (let data_block_num = sint (fl_addr cur ! i);
                    cur = cur\<lparr>fl_addr := (fl_addr cur)[i := 0]\<rparr>;
                    (_, s1) = data_write head (Some (enc_node cur)) s;
                    (ret, s2) = data_write data_block_num new_data s1
                in (ret, data_block_num, s2))
           | None \<Rightarrow>
               (let sb = sb\<lparr>sb_free_list_head := fl_next cur\<rparr>;
                    (_, s1) = write_superblock (Some sb) s;
                    (ret, s2) = data_write head new_data s1
                in (ret, head, s2))))"

lemma length_enc_node: "node_wf n \<Longrightarrow> is_block (enc_node n)"
  by (simp add: enc_node_def node_wf_def is_block_def c_consts del: bytes_of_words_simps)

lemma dec_enc_node [codec]: "node_wf n \<Longrightarrow> dec_node (enc_node n) = n"
  by (simp add: dec_node_def enc_node_def Let_def node_wf_def window_def
      del: bytes_of_words_simps)

lemma node_wf_dec: "is_block bs \<Longrightarrow> node_wf (dec_node bs)"
  by (simp add: node_wf_def dec_node_def Let_def is_block_def c_consts)

lemma node_wf_zero [simp]: "node_wf (zero_node\<lparr>fl_next := x\<rparr>)" "node_wf zero_node"
  by (simp_all add: node_wf_def zero_node_def)

lemma node_wf_update [simp]: "node_wf n \<Longrightarrow> node_wf (n\<lparr>fl_addr := (fl_addr n)[i := x]\<rparr>)"
  by (simp add: node_wf_def)

section \<open>The data region as numbered blocks\<close>

interpretation data: block_store
  "\<lambda>s k. blk s (data_off s + k)" "\<lambda>k b s. put_blk (data_off s + k) b s" mounted ndata is_block
proof (rule region_store)
  fix s :: "'a layer1_scheme" assume "mounted s"
  from mounted_regions[OF this] show "0 < data_off s \<and> data_off s + ndata s \<le> nblocks s"
    by linarith
qed simp_all

definition valid_data :: "'a layer1_scheme \<Rightarrow> nat \<Rightarrow> bool" where
  "valid_data s b \<longleftrightarrow> 1 \<le> b \<and> b \<le> ndata s"

definition dslot :: "nat \<Rightarrow> nat" where
  "dslot b = b - 1"

definition data_blk :: "'a layer1_scheme \<Rightarrow> nat \<Rightarrow> byte list" where
  "data_blk s b = (if b = 0 then replicate BLOCK_SIZE 0 else blk s (data_off s + dslot b))"

definition put_data :: "nat \<Rightarrow> byte list \<Rightarrow> 'a layer1_scheme \<Rightarrow> 'a layer1_scheme" where
  "put_data b x s = put_blk (data_off s + dslot b) x s"

lemma put_data_simps [simp]:
  "sb_of (put_data b x s) = sb_of s" "nblocks (put_data b x s) = nblocks s"
  "ibitmap_off (put_data b x s) = ibitmap_off s" "ibitmap_len (put_data b x s) = ibitmap_len s"
  "ilist_off (put_data b x s) = ilist_off s" "ilist_len (put_data b x s) = ilist_len s"
  "data_off (put_data b x s) = data_off s" "ndata (put_data b x s) = ndata s"
  "ninodes (put_data b x s) = ninodes s" "valid_inum (put_data b x s) n = valid_inum s n"
  "valid_data (put_data b x s) c = valid_data s c"
  by (simp_all add: put_data_def valid_inum_def valid_data_def)

lemma valid_data_range:
  assumes "mounted s" "valid_data s b"
  shows "dslot b < ndata s" "data_off s + dslot b < nblocks s" "0 < data_off s + dslot b" "b < 2 ^ 31"
  using assms(2) mounted_regions[OF assms(1)] by (auto simp: valid_data_def dslot_def)

lemma mounted_put_data [simp]:
  "mounted s \<Longrightarrow> valid_data s b \<Longrightarrow> is_block x \<Longrightarrow> mounted (put_data b x s)"
  by (simp add: put_data_def data.ok_wr valid_data_range)

lemma is_block_data_blk [simp]:
  "mounted s \<Longrightarrow> valid_data s b \<Longrightarrow> is_block (data_blk s b)"
  using data.rd_fits[of s "dslot b"] valid_data_range(1)[of s b]
  by (auto simp: data_blk_def is_block_def)

lemma data_blk_put_data:
  assumes "mounted s" "valid_data s b" "is_block x"
  shows "data_blk (put_data b x s) c = (if c = b then x else data_blk s c)"
proof (cases "c = 0")
  case False
  then have "dslot c = dslot b \<longleftrightarrow> c = b" using assms(2) by (auto simp: valid_data_def dslot_def)
  then show ?thesis
    using False assms data.rd_wr[OF assms(1) valid_data_range(1)[OF assms(1,2)] assms(3), of "dslot c"]
    by (auto simp: data_blk_def put_data_def valid_data_def)
qed (use assms(2) in \<open>auto simp: data_blk_def valid_data_def\<close>)

lemma blk_put_data:
  assumes "mounted s" "valid_data s b" "is_block x" "m < data_off s"
  shows "blk (put_data b x s) m = blk s m"
  using assms valid_data_range[OF assms(1,2)]
  by (simp add: put_data_def blk_put_blk mounted_disk_ok)

lemma data_offset:
  assumes "mounted s" "valid_data s b"
  shows "sint (sb_data_block_offset (sb_of s) + word_of_int (int b) - 1) = int (data_off s + dslot b)"
proof -
  obtain k where "b = Suc k" using assms(2) by (cases b) (auto simp: valid_data_def)
  then have w: "(word_of_int (int b) :: u32) - 1 = word_of_int (int (dslot b))"
    by (simp add: dslot_def)
  have "sb_data_block_offset (sb_of s) + word_of_int (int b) - 1 =
      sb_data_block_offset (sb_of s) + word_of_int (int (dslot b))"
    unfolding w[symmetric] by simp
  also have "sint \<dots> = int (data_off s + dslot b)"
    using valid_data_range(2)[OF assms] mounted_regions(8)[OF assms(1)]
    by (subst sint_add_small) (simp_all add: uint_regions)
  finally show ?thesis .
qed

lemma data_num_ok:
  "valid_data s b \<Longrightarrow> \<not> (int b \<le> 0 \<or> uint (sb_data_size (sb_of s)) < int b)"
  "valid_data s b \<Longrightarrow> \<not> (int b < 0 \<or> uint (sb_data_size (sb_of s)) < int b)"
  by (simp_all add: valid_data_def uint_regions)

lemma data_read_ok:
  assumes "mounted s" "valid_data s b" "is_block buf"
  shows "data_read (int b) (Some buf) s = (SUCCESS, data_blk s b)"
  using assms data_offset[OF assms(1,2)] data_num_ok[OF assms(2)] valid_data_range[OF assms(1,2)]
  by (auto simp: data_read_def Let_def data_blk_def)

lemma data_read_0:
  "mounted s \<Longrightarrow> is_block buf \<Longrightarrow> data_read 0 (Some buf) s = (SUCCESS, data_blk s 0)"
  by (simp add: data_read_def data_blk_def overlay_all is_block_def)

lemma data_write_ok:
  assumes "mounted s" "valid_data s b" "is_block x"
  shows "data_write (int b) (Some x) s = (SUCCESS, put_data b x s)"
  using assms data_offset[OF assms(1,2)] data_num_ok[OF assms(2)] valid_data_range[OF assms(1,2)]
  by (simp add: data_write_def Let_def put_data_def)

lemma data_access_bad:
  assumes "mounted s" "int (ndata s) < n \<or> n < 0"
  shows "data_read n (Some buf) s = (INVALID_BLOCK, buf)"
    and "data_write n p s = (INVALID_BLOCK, s)" and "data_free n s = Some (INVALID_BLOCK, s)"
  using assms by (auto simp: data_read_def data_write_def data_free_def uint_regions)

lemma data_write_0:
  "mounted s \<Longrightarrow> data_write 0 p s = (INVALID_BLOCK, s)"
  by (simp add: data_write_def)

end
