(* ===== verification/FreeList.thy ===== *)
theory FreeList
  imports DataBlocks
begin

text \<open>
  The abstract view of the free list.  \<open>fl_chain\<close> says that a list of block numbers is the chain of
  nodes from the head in the superblock; \<open>fl_blocks\<close> lists all blocks the chain gives away, nodes
  and entries.  \<open>fs_ok\<close> is the invariant of the allocator: the chain ends, and the blocks in it are
  valid and pairwise different.  Under it \<open>data_allocate\<close> and \<open>data_free\<close> are an instance of
  \<open>allocator\<close> over the set \<open>free_data\<close>.
\<close>

section \<open>Chains\<close>

primrec fl_chain :: "(nat \<Rightarrow> freelist_node) \<Rightarrow> nat \<Rightarrow> nat list \<Rightarrow> bool" where
  "fl_chain h x [] \<longleftrightarrow> x = 0"
| "fl_chain h x (n # ns) \<longleftrightarrow> x = n \<and> n \<noteq> 0 \<and> fl_chain h (unat (fl_next (h n))) ns"

primrec fl_walk :: "nat \<Rightarrow> (nat \<Rightarrow> freelist_node) \<Rightarrow> nat \<Rightarrow> nat list" where
  "fl_walk 0 h x = []"
| "fl_walk (Suc fuel) h x = (if x = 0 then [] else x # fl_walk fuel h (unat (fl_next (h x))))"

definition fl_entries :: "freelist_node \<Rightarrow> nat list" where
  "fl_entries n = filter (\<lambda>b. b \<noteq> 0) (map unat (fl_addr n))"

definition fl_blocks :: "(nat \<Rightarrow> freelist_node) \<Rightarrow> nat list \<Rightarrow> nat list" where
  "fl_blocks h ns = concat (map (\<lambda>n. n # fl_entries (h n)) ns)"

lemma fl_blocks_simps [simp]:
  "fl_blocks h [] = []" "fl_blocks h (n # ns) = n # fl_entries (h n) @ fl_blocks h ns"
  by (simp_all add: fl_blocks_def)

lemma fl_blocks_append: "fl_blocks h (ms @ ns) = fl_blocks h ms @ fl_blocks h ns"
  by (simp add: fl_blocks_def)

lemma fl_nodes_subset: "set ns \<subseteq> set (fl_blocks h ns)"
  by (induction ns) auto

lemma fl_nodes_distinct: "distinct (fl_blocks h ns) \<Longrightarrow> distinct ns"
  using fl_nodes_subset by (induction ns) fastforce+

lemma fl_chain_cong:
  "(\<And>n. n \<in> set ns \<Longrightarrow> fl_next (h n) = fl_next (h' n)) \<Longrightarrow> fl_chain h x ns \<longleftrightarrow> fl_chain h' x ns"
  by (induction ns arbitrary: x) auto

lemma fl_blocks_cong: "(\<And>n. n \<in> set ns \<Longrightarrow> h n = h' n) \<Longrightarrow> fl_blocks h ns = fl_blocks h' ns"
  by (induction ns) auto

lemma fl_walk_chain: "fl_chain h x ns \<Longrightarrow> length ns \<le> fuel \<Longrightarrow> fl_walk fuel h x = ns"
proof (induction ns arbitrary: x fuel)
  case Nil
  then show ?case by (cases fuel) auto
next
  case (Cons n ns)
  then show ?case by (cases fuel) auto
qed

lemma fl_chain_append_Cons:
  "fl_chain h x (ms @ n # ns) \<Longrightarrow> \<exists>y. fl_chain h y (n # ns) \<and> y = n"
  by (induction ms arbitrary: x) auto

text \<open>Taking the first entry out of a node, and putting an entry into its first empty slot.\<close>

lemma filter_zero_prefix: "\<forall>j < i. xs ! j = (0::nat) \<Longrightarrow> i \<le> length xs \<Longrightarrow> filter (\<lambda>b. b \<noteq> 0) (take i xs) = []"
  by (auto simp: filter_empty_conv in_set_conv_nth)

lemma fl_entries_take:
  assumes "first_index (\<lambda>a. a \<noteq> 0) (fl_addr n) = Some i"
  shows "fl_entries n = unat (fl_addr n ! i) # fl_entries (n\<lparr>fl_addr := (fl_addr n)[i := 0]\<rparr>)"
proof -
  let ?xs = "map unat (fl_addr n)"
  from first_index_Some[OF assms] have i: "i < length ?xs" "?xs ! i \<noteq> 0" "\<forall>j < i. ?xs ! j = 0"
    by (auto simp: unat_eq_zero)
  have f: "filter (\<lambda>b. b \<noteq> 0) (take i ?xs) = []" using i by (intro filter_zero_prefix) auto
  have "filter (\<lambda>b. b \<noteq> 0) ?xs = filter (\<lambda>b. b \<noteq> 0) (take i ?xs @ ?xs ! i # drop (Suc i) ?xs)"
    by (rule arg_cong[OF id_take_nth_drop[OF i(1)]])
  moreover have "filter (\<lambda>b. b \<noteq> 0) (?xs[i := 0]) =
      filter (\<lambda>b. b \<noteq> 0) (take i ?xs @ 0 # drop (Suc i) ?xs)"
    using i(1) by (simp add: upd_conv_take_nth_drop)
  ultimately show ?thesis
    using f i by (simp add: fl_entries_def map_update)
qed

lemma fl_entries_empty:
  "first_index (\<lambda>a. a \<noteq> 0) (fl_addr n) = None \<Longrightarrow> fl_entries n = []"
  by (auto simp: first_index_None fl_entries_def filter_empty_conv)

lemma fl_entries_zero [simp]: "fl_entries (zero_node\<lparr>fl_next := x\<rparr>) = []"
  by (simp add: fl_entries_def zero_node_def)

lemma fl_entries_put:
  assumes "first_index (\<lambda>a. a = 0) (fl_addr n) = Some i" "x \<noteq> 0"
  obtains as bs where "fl_entries n = as @ bs"
    "fl_entries (n\<lparr>fl_addr := (fl_addr n)[i := x]\<rparr>) = as @ unat x # bs"
proof -
  let ?xs = "map unat (fl_addr n)" and ?f = "filter (\<lambda>b. b \<noteq> (0::nat))"
  from first_index_Some[OF assms(1)] have i: "i < length ?xs" "?xs ! i = 0" by auto
  have "?f ?xs = ?f (take i ?xs @ ?xs ! i # drop (Suc i) ?xs)"
    by (rule arg_cong[OF id_take_nth_drop[OF i(1)]])
  moreover have "?f (?xs[i := unat x]) = ?f (take i ?xs @ unat x # drop (Suc i) ?xs)"
    using i(1) by (simp add: upd_conv_take_nth_drop)
  ultimately show thesis
    using that[of "?f (take i ?xs)" "?f (drop (Suc i) ?xs)"] i assms(2)
    by (simp add: fl_entries_def map_update unat_eq_zero)
qed

section \<open>The free list of a disk\<close>

definition node_at :: "'a layer1_scheme \<Rightarrow> nat \<Rightarrow> freelist_node" where
  "node_at s b = dec_node (data_blk s b)"

definition fl_head :: "'a layer1_scheme \<Rightarrow> nat" where
  "fl_head s = unat (sb_free_list_head (sb_of s))"

definition free_nodes :: "'a layer1_scheme \<Rightarrow> nat list" where
  "free_nodes s = fl_walk (ndata s) (node_at s) (fl_head s)"

definition free_list :: "'a layer1_scheme \<Rightarrow> nat list" where
  "free_list s = fl_blocks (node_at s) (free_nodes s)"

definition free_data :: "'a layer1_scheme \<Rightarrow> nat set" where
  "free_data s = set (free_list s)"

definition fl_inv :: "'a layer1_scheme \<Rightarrow> nat list \<Rightarrow> bool" where
  "fl_inv s ns \<longleftrightarrow> fl_chain (node_at s) (fl_head s) ns \<and> distinct (fl_blocks (node_at s) ns) \<and>
    (\<forall>b \<in> set (fl_blocks (node_at s) ns). valid_data s b)"

definition fs_ok :: "'a layer1_scheme \<Rightarrow> bool" where
  "fs_ok s \<longleftrightarrow> mounted s \<and> fl_inv s (free_nodes s)"

lemma fs_ok_mounted: "fs_ok s \<Longrightarrow> mounted s"
  by (simp add: fs_ok_def)

lemma free_data_valid: "fs_ok s \<Longrightarrow> b \<in> free_data s \<Longrightarrow> valid_data s b"
  by (simp add: fs_ok_def fl_inv_def free_data_def free_list_def)

lemma fl_inv_walk:
  assumes "fl_inv s ns"
  shows "free_nodes s = ns"
proof -
  have sub: "set (fl_blocks (node_at s) ns) \<subseteq> {1..ndata s}"
    using assms by (auto simp: fl_inv_def valid_data_def)
  have "distinct ns" using assms fl_nodes_distinct by (auto simp: fl_inv_def)
  moreover have "set ns \<subseteq> {1..ndata s}" using sub fl_nodes_subset by blast
  ultimately have "length ns \<le> ndata s"
    by (metis card_atLeastAtMost card_mono diff_Suc_1 distinct_card finite_atLeastAtMost)
  then show ?thesis using assms by (simp add: free_nodes_def fl_inv_def fl_walk_chain)
qed

text \<open>To re-establish the invariant, exhibit the new chain.\<close>

lemma fs_okI:
  assumes "mounted s" "fl_chain (node_at s) (fl_head s) ns" "fl_blocks (node_at s) ns = bs"
    "distinct bs" "\<forall>b \<in> set bs. valid_data s b"
  shows "fs_ok s" and "free_list s = bs" and "free_data s = set bs"
proof -
  have inv: "fl_inv s ns" using assms by (simp add: fl_inv_def)
  then have w: "free_nodes s = ns" by (rule fl_inv_walk)
  show "fs_ok s" using assms(1) inv w by (simp add: fs_ok_def)
  show l: "free_list s = bs" using w assms(3) by (simp add: free_list_def)
  show "free_data s = set bs" using l by (simp add: free_data_def)
qed

lemma fs_okE:
  assumes "fs_ok s"
  obtains ns where "fl_chain (node_at s) (fl_head s) ns"
    "fl_blocks (node_at s) ns = free_list s" "distinct (free_list s)"
    "\<forall>b \<in> set (free_list s). valid_data s b"
  using assms unfolding fs_ok_def fl_inv_def free_list_def by blast

lemma node_wf_node_at [simp]: "mounted s \<Longrightarrow> valid_data s b \<Longrightarrow> node_wf (node_at s b)"
  by (simp add: node_at_def node_wf_dec)

lemma node_at_put_data:
  "mounted s \<Longrightarrow> valid_data s b \<Longrightarrow> is_block x \<Longrightarrow>
    node_at (put_data b x s) c = (if c = b then dec_node x else node_at s c)"
  by (simp add: node_at_def data_blk_put_data)

lemma fl_head_put_data [simp]: "fl_head (put_data b x s) = fl_head s"
  by (simp add: fl_head_def)

lemma sint_unat_small:
  assumes "unat (w :: u32) < 2 ^ 31"
  shows "sint w = int (unat w)"
proof -
  have "int (unat w) < int (2 ^ 31)" using assms by (simp only: of_nat_less_iff)
  then have "uint w < 2 ^ 31" by simp
  then show ?thesis using sint_u32_small[of w] by simp
qed

lemma sint_valid_data:
  assumes "mounted s" "valid_data s (unat w)"
  shows "sint (w :: u32) = int (unat w)"
  using valid_data_range(4)[OF assms] by (rule sint_unat_small)

section \<open>What allocation and freeing leave alone\<close>

text \<open>
  \<open>data_step s t\<close>: the two disks have the same layout and agree outside the data region and the
  superblock; of the superblock only the head of the free list may differ.
\<close>

definition data_step :: "'a layer1_scheme \<Rightarrow> 'a layer1_scheme \<Rightarrow> bool" where
  "data_step s t \<longleftrightarrow> (\<exists>x. sb_of t = (sb_of s)\<lparr>sb_free_list_head := x\<rparr>) \<and> nblocks t = nblocks s \<and>
    (\<forall>m. 0 < m \<and> m < data_off s \<longrightarrow> blk t m = blk s m)"

lemma data_step_layout:
  assumes "data_step s t"
  shows "ibitmap_off t = ibitmap_off s" "ibitmap_len t = ibitmap_len s" "ilist_off t = ilist_off s"
    "ilist_len t = ilist_len s" "data_off t = data_off s" "ndata t = ndata s"
    "ninodes t = ninodes s" "nblocks t = nblocks s" "valid_inum t n = valid_inum s n"
    "valid_data t b = valid_data s b"
proof -
  obtain x where x: "sb_of t = (sb_of s)\<lparr>sb_free_list_head := x\<rparr>" "nblocks t = nblocks s"
    using assms by (auto simp: data_step_def)
  show "ibitmap_off t = ibitmap_off s" "ibitmap_len t = ibitmap_len s" "ilist_off t = ilist_off s"
    "ilist_len t = ilist_len s" "data_off t = data_off s" "ndata t = ndata s"
    "ninodes t = ninodes s" "nblocks t = nblocks s" "valid_inum t n = valid_inum s n"
    "valid_data t b = valid_data s b"
    by (simp_all add: region_defs valid_inum_def valid_data_def x)
qed

lemma data_step_refl [simp]: "data_step s s"
  by (auto simp: data_step_def intro: exI[of _ "sb_free_list_head (sb_of s)"])

lemma data_step_trans [trans]: "data_step s t \<Longrightarrow> data_step t u \<Longrightarrow> data_step s u"
  using data_step_layout(5)[of s t] by (auto simp: data_step_def)

lemma data_step_inodes [frame]:
  assumes "data_step s t" "mounted s" "valid_inum s n"
  shows "inode_at t n = inode_at s n" and "inode_used t n = inode_used s n"
proof -
  note r = mounted_regions[OF assms(2)] and l = data_step_layout[OF assms(1)]
  have b: "blk t m = blk s m" if "0 < m" "m < data_off s" for m
    using that assms(1) by (simp add: data_step_def)
  show "inode_at t n = inode_at s n"
    by (rule inode_at_blk_cong) (use b r l assms in auto)
  show "inode_used t n = inode_used s n"
    by (rule inode_used_blk_cong) (use b r l assms in auto)
qed

lemma data_step_put_data [simp]:
  "mounted s \<Longrightarrow> valid_data s b \<Longrightarrow> is_block x \<Longrightarrow> data_step s (put_data b x s)"
  by (auto simp: data_step_def blk_put_data intro: exI[of _ "sb_free_list_head (sb_of s)"])

definition set_head :: "u32 \<Rightarrow> 'a layer1_scheme \<Rightarrow> 'a layer1_scheme" where
  "set_head x s = put_superblock ((sb_of s)\<lparr>sb_free_list_head := x\<rparr>) s"

lemma set_head_simps [simp]:
  "sb_of (set_head x s) = (sb_of s)\<lparr>sb_free_list_head := x\<rparr>" "nblocks (set_head x s) = nblocks s"
  "ndata (set_head x s) = ndata s" "data_off (set_head x s) = data_off s"
  "valid_data (set_head x s) b = valid_data s b" "fl_head (set_head x s) = unat x"
  by (simp_all add: set_head_def region_defs valid_data_def fl_head_def)

lemma mounted_set_head [simp]:
  assumes "mounted s"
  shows "mounted (set_head x s)"
  using mounted_disk_ok[OF assms] mounted_geometry[OF assms]
  by (simp add: set_head_def mounted_put_superblock geometry_def)

lemma blk_set_head:
  "mounted s \<Longrightarrow> 0 < m \<Longrightarrow> blk (set_head x s) m = blk s m"
  using mounted_regions[of s] by (simp add: set_head_def blk_put_superblock mounted_disk_ok)

lemma data_blk_set_head [simp]: "mounted s \<Longrightarrow> data_blk (set_head x s) b = data_blk s b"
  using mounted_regions[of s] by (simp add: data_blk_def blk_set_head)

lemma node_at_set_head [simp]: "mounted s \<Longrightarrow> node_at (set_head x s) b = node_at s b"
  by (simp add: node_at_def)

lemma data_step_set_head [simp]: "mounted s \<Longrightarrow> data_step s (set_head x s)"
  by (auto simp: data_step_def blk_set_head)

lemma write_superblock_head:
  assumes "mounted s"
  shows "write_superblock (Some ((sb_of s)\<lparr>sb_free_list_head := x\<rparr>)) s = (SUCCESS, set_head x s)"
  using write_superblock_ok[of s] mounted_regions[OF assms] mounted_disk_ok[OF assms]
  by (simp add: set_head_def)

section \<open>data_allocate\<close>

lemma fl_head_word: "sb_free_list_head (sb_of s) = 0 \<longleftrightarrow> fl_head s = 0"
  by (simp add: fl_head_def unat_eq_zero)

lemma data_allocate_spec:
  assumes ok: "fs_ok s" and v: "is_block v"
  shows "(free_list s = [] \<and> data_allocate (Some v) old s = (DATA_FULL, old, s)) \<or>
    (\<exists>b t. data_allocate (Some v) old s = (SUCCESS, int b, t) \<and> b \<in> free_data s \<and> fs_ok t \<and>
      free_data t = free_data s - {b} \<and> data_step s t \<and> data_blk t b = v \<and>
      (\<forall>c. c \<notin> free_data s \<longrightarrow> data_blk t c = data_blk s c))"
proof -
  have m: "mounted s" using ok by (rule fs_ok_mounted)
  obtain ns where ns: "fl_chain (node_at s) (fl_head s) ns" "fl_blocks (node_at s) ns = free_list s"
    "distinct (free_list s)" "\<forall>b \<in> set (free_list s). valid_data s b" using ok by (rule fs_okE)
  show ?thesis
  proof (cases ns)
    case Nil
    then have "sb_free_list_head (sb_of s) = 0" using ns(1) by (simp add: fl_head_word)
    moreover have "free_list s = []" using ns(2) Nil by simp
    ultimately show ?thesis using m by (simp add: data_allocate_def)
  next
    case (Cons n rest)
    let ?cur = "node_at s n" and ?tl = "fl_blocks (node_at s) rest"
    have hd: "fl_head s = n" and n0: "n \<noteq> 0"
      and ch: "fl_chain (node_at s) (unat (fl_next ?cur)) rest" using ns(1) Cons by auto
    have fl: "free_list s = n # fl_entries ?cur @ ?tl" using ns(2) Cons by simp
    have vn: "valid_data s n" using ns(4) fl by simp
    have rest: "set rest \<subseteq> set ?tl" by (rule fl_nodes_subset)
    have w: "sb_free_list_head (sb_of s) \<noteq> 0" using hd n0 by (simp add: fl_head_word)
    have si: "sint (sb_free_list_head (sb_of s)) = int n"
      using sint_valid_data[OF m, of "sb_free_list_head (sb_of s)"] vn hd unfolding fl_head_def by metis
    have rd: "dec_node (snd (data_read (int n) (Some (uninit BLOCK_SIZE s)) s)) = ?cur"
      using data_read_ok[OF m vn] by (simp add: node_at_def)
    show ?thesis
    proof (cases "first_index (\<lambda>a. a \<noteq> 0) (fl_addr ?cur)")
      case (Some i)
      let ?b = "unat (fl_addr ?cur ! i)" and ?new = "?cur\<lparr>fl_addr := (fl_addr ?cur)[i := 0]\<rparr>"
      let ?s1 = "put_data n (enc_node ?new) s"
      let ?t = "put_data ?b v ?s1"
      have ent: "fl_entries ?cur = ?b # fl_entries ?new" using Some by (rule fl_entries_take)
      have vb: "valid_data s ?b" and bn: "?b \<noteq> n" "?b \<notin> set rest" and nr: "n \<notin> set rest"
        using ns(3,4) rest unfolding fl ent by auto
      have wf: "node_wf ?new" "is_block (enc_node ?new)" using m vn by (auto intro: length_enc_node)
      have m1: "mounted ?s1" using m vn wf by simp
      have mt: "mounted ?t" using m1 vb v by simp
      have at: "node_at ?t c = (if c = n then ?new else if c = ?b then dec_node v else node_at s c)" for c
        using m m1 vn vb v wf bn(1) by (auto simp: node_at_put_data dec_enc_node)
      have call: "data_allocate (Some v) old s = (SUCCESS, int ?b, ?t)"
        using m w si rd Some data_write_ok[OF m vn wf(2)] data_write_ok[OF m1, of ?b v] vb v
          sint_valid_data[OF m vb]
        by (simp add: data_allocate_def Let_def)
      have chain: "fl_chain (node_at ?t) (fl_head ?t) ns"
      proof -
        have "fl_chain (node_at ?t) (unat (fl_next ?cur)) rest \<longleftrightarrow>
            fl_chain (node_at s) (unat (fl_next ?cur)) rest"
          by (rule fl_chain_cong) (use bn nr at in auto)
        then show ?thesis using ch hd n0 by (simp add: Cons at)
      qed
      have "fl_blocks (node_at ?t) rest = ?tl"
        by (rule fl_blocks_cong) (use bn nr at in auto)
      then have blocks: "fl_blocks (node_at ?t) ns = n # fl_entries ?new @ ?tl"
        by (simp add: Cons at)
      note res = fs_okI[OF mt chain blocks]
      have d: "distinct (n # fl_entries ?new @ ?tl)" "\<forall>b \<in> set (n # fl_entries ?new @ ?tl). valid_data ?t b"
        using ns(3,4) unfolding fl ent by auto
      have free: "free_data s = insert ?b (set (n # fl_entries ?new @ ?tl))"
        "?b \<notin> set (n # fl_entries ?new @ ?tl)"
        using ns(3) unfolding free_data_def fl ent by auto
      have "data_step s ?t"
        using data_step_trans[OF data_step_put_data[OF m vn wf(2)] data_step_put_data[OF m1 _ v]] vb by simp
      moreover have "data_blk ?t c = data_blk s c" if "c \<notin> free_data s" for c
        using that free(1) m m1 vn vb v wf by (simp add: data_blk_put_data)
      moreover have "data_blk ?t ?b = v" using m1 vb v by (simp add: data_blk_put_data)
      ultimately show ?thesis
        using call res[OF d] free by (intro disjI2 exI[of _ ?b] exI[of _ ?t]) auto
    next
      case None
      let ?s1 = "set_head (fl_next ?cur) s"
      let ?t = "put_data n v ?s1"
      have ent: "fl_entries ?cur = []" using None by (rule fl_entries_empty)
      have nr: "n \<notin> set ?tl" using ns(3) unfolding fl by auto
      have m1: "mounted ?s1" and mt: "mounted ?t" using m vn v by simp_all
      have at: "node_at ?t c = (if c = n then dec_node v else node_at s c)" for c
        using m m1 vn v by (simp add: node_at_put_data)
      have call: "data_allocate (Some v) old s = (SUCCESS, int n, ?t)"
        using m w si rd None write_superblock_head[OF m] data_write_ok[OF m1, of n v] vn v
        by (simp add: data_allocate_def Let_def)
      have "fl_chain (node_at ?t) (unat (fl_next ?cur)) rest \<longleftrightarrow>
          fl_chain (node_at s) (unat (fl_next ?cur)) rest"
        by (rule fl_chain_cong) (use rest nr at in auto)
      then have chain: "fl_chain (node_at ?t) (fl_head ?t) rest" using ch by simp
      have blocks: "fl_blocks (node_at ?t) rest = ?tl"
        by (rule fl_blocks_cong) (use rest nr at in auto)
      note res = fs_okI[OF mt chain blocks]
      have d: "distinct ?tl" "\<forall>b \<in> set ?tl. valid_data ?t b" using ns(3,4) unfolding fl by auto
      have free: "free_data s = insert n (set ?tl)" unfolding free_data_def fl ent by simp
      have "data_step s ?t"
        using data_step_trans[OF data_step_set_head[OF m] data_step_put_data[OF m1 _ v]] vn by simp
      moreover have "data_blk ?t c = data_blk s c" if "c \<notin> free_data s" for c
        using that free m m1 vn v by (simp add: data_blk_put_data)
      moreover have "data_blk ?t n = v" using m1 vn v by (simp add: data_blk_put_data)
      ultimately show ?thesis
        using call res[OF d] free nr by (intro disjI2 exI[of _ n] exI[of _ ?t]) auto
    qed
  qed
qed

section \<open>data_free\<close>

text \<open>
  On a chain, the scan stops: at the first node with an empty slot, or at the end of the chain
  when every node is full.
\<close>

lemma data_free_scan_chain:
  assumes "mounted s" "\<forall>n \<in> set ns. valid_data s n" "fl_chain (node_at s) x ns" "node_wf cur"
  shows "(\<exists>ms n ks i. ns = ms @ n # ks \<and> first_index (\<lambda>a. a = 0) (fl_addr (node_at s n)) = Some i \<and>
        data_free_scan (int x) cur s = Some (Some (int n, node_at s n, i)))
    \<or> data_free_scan (int x) cur s = Some None"
  using assms(2-)
proof (induction ns arbitrary: x cur)
  case Nil
  then show ?case by (simp add: data_free_scan.simps)
next
  case (Cons n ns)
  then have x: "x = n" "n \<noteq> 0" "fl_chain (node_at s) (unat (fl_next (node_at s n))) ns"
    and v: "valid_data s n" by auto
  have rd: "dec_node (snd (data_read (int n) (Some (enc_node cur)) s)) = node_at s n"
    using data_read_ok[OF assms(1) v length_enc_node[OF Cons.prems(3)]] by (simp add: node_at_def)
  show ?case
  proof (cases "first_index (\<lambda>a. a = 0) (fl_addr (node_at s n))")
    case (Some i)
    then have "data_free_scan (int x) cur s = Some (Some (int n, node_at s n, i))"
      using x rd by (subst data_free_scan.simps) simp
    then show ?thesis using Some by (intro disjI1 exI[of _ "[]"]) auto
  next
    case None
    let ?y = "unat (fl_next (node_at s n))"
    have "?y = 0 \<or> valid_data s ?y" using x(3) Cons.prems(1) by (cases ns) auto
    then have "?y < 2 ^ 31" using valid_data_range(4)[OF assms(1)] by auto
    then have y: "sint (fl_next (node_at s n)) = int ?y" by (rule sint_unat_small)
    have step: "data_free_scan (int x) cur s = data_free_scan (int ?y) (node_at s n) s"
      using x None rd y by (subst data_free_scan.simps) (simp add: Let_def)
    have "node_wf (node_at s n)" using assms(1) v by simp
    from Cons.IH[OF _ x(3) this] Cons.prems(1) show ?thesis
      unfolding step by (metis append_Cons list.set_intros(2))
  qed
qed

lemma fl_blocks_split:
  "fl_blocks h (ms @ n # ks) = fl_blocks h ms @ n # fl_entries (h n) @ fl_blocks h ks"
  by (simp add: fl_blocks_append)

lemma data_free_spec:
  assumes ok: "fs_ok s" and v: "valid_data s b" and nf: "b \<notin> free_data s"
  shows "\<exists>t. data_free (int b) s = Some (SUCCESS, t) \<and> fs_ok t \<and> free_data t = insert b (free_data s) \<and>
    data_step s t \<and> (\<forall>c. c \<notin> insert b (free_data s) \<longrightarrow> data_blk t c = data_blk s c)"
proof -
  have m: "mounted s" using ok by (rule fs_ok_mounted)
  obtain ns where ns: "fl_chain (node_at s) (fl_head s) ns" "fl_blocks (node_at s) ns = free_list s"
    "distinct (free_list s)" "\<forall>b \<in> set (free_list s). valid_data s b" using ok by (rule fs_okE)
  have vns: "\<forall>n \<in> set ns. valid_data s n" using ns(2,4) fl_nodes_subset[of ns "node_at s"] by auto
  have "fl_head s = 0 \<or> valid_data s (fl_head s)" using ns(1) vns by (cases ns) auto
  then have hd: "sint (sb_free_list_head (sb_of s)) = int (fl_head s)"
    using valid_data_range(4)[OF m] unfolding fl_head_def by (intro sint_unat_small) auto
  have b0: "(word_of_nat b :: u32) \<noteq> 0" and ub: "unat (word_of_nat b :: u32) = b"
  proof -
    show ub: "unat (word_of_nat b :: u32) = b"
      using valid_data_range(4)[OF m v] unat_u32_of_nat[of b] by simp
    show "(word_of_nat b :: u32) \<noteq> 0" using ub v by (auto simp: valid_data_def)
  qed
  have wfu: "node_wf (dec_node (uninit BLOCK_SIZE s))" by (simp add: node_wf_dec)
  note guard = data_num_ok(1)[OF v]
  consider (slot) ms n ks i where "ns = ms @ n # ks"
      "first_index (\<lambda>a. a = 0) (fl_addr (node_at s n)) = Some i"
      "data_free_scan (int (fl_head s)) (dec_node (uninit BLOCK_SIZE s)) s = Some (Some (int n, node_at s n, i))"
    | (no_slot) "data_free_scan (int (fl_head s)) (dec_node (uninit BLOCK_SIZE s)) s = Some None"
    using data_free_scan_chain[OF m vns ns(1) wfu] by blast
  then show ?thesis
  proof cases
    case slot
    let ?cur = "node_at s n" and ?w = "word_of_nat b :: u32"
    let ?new = "?cur\<lparr>fl_addr := (fl_addr ?cur)[i := ?w]\<rparr>"
    let ?t = "put_data n (enc_node ?new) s"
    have vn: "valid_data s n" using vns slot(1) by simp
    have wf: "node_wf ?new" "is_block (enc_node ?new)" using m vn by (auto intro: length_enc_node)
    obtain as bs where ent: "fl_entries ?cur = as @ bs" "fl_entries ?new = as @ b # bs"
      using fl_entries_put[OF slot(2) b0] ub by metis
    have at: "node_at ?t c = (if c = n then ?new else node_at s c)" for c
      using m vn wf by (simp add: node_at_put_data dec_enc_node)
    have call: "data_free (int b) s = Some (SUCCESS, ?t)"
      using m guard slot(3) hd data_write_ok[OF m vn wf(2)] by (simp add: data_free_def Let_def)
    have mt: "mounted ?t" using m vn wf by simp
    have chain: "fl_chain (node_at ?t) (fl_head ?t) ns"
      using ns(1) fl_chain_cong[of ns "node_at ?t" "node_at s"] by (simp add: at)
    have old: "free_list s = fl_blocks (node_at s) ms @ n # (as @ bs) @ fl_blocks (node_at s) ks"
      using ns(2) unfolding slot(1) fl_blocks_split ent(1) by simp
    have "n \<notin> set ms" "n \<notin> set ks"
      using ns(3) fl_nodes_subset[of ms "node_at s"] fl_nodes_subset[of ks "node_at s"]
      unfolding old by auto
    then have "fl_blocks (node_at ?t) ms = fl_blocks (node_at s) ms"
      "fl_blocks (node_at ?t) ks = fl_blocks (node_at s) ks"
      by (auto intro!: fl_blocks_cong simp: at)
    then have blocks: "fl_blocks (node_at ?t) ns =
        fl_blocks (node_at s) ms @ n # (as @ b # bs) @ fl_blocks (node_at s) ks"
      unfolding slot(1) fl_blocks_split by (simp add: at ent(2))
    note res = fs_okI[OF mt chain blocks]
    have d: "distinct (fl_blocks (node_at s) ms @ n # (as @ b # bs) @ fl_blocks (node_at s) ks)"
      "\<forall>x \<in> set (fl_blocks (node_at s) ms @ n # (as @ b # bs) @ fl_blocks (node_at s) ks). valid_data ?t x"
      using ns(3,4) nf v unfolding old free_data_def by auto
    have "free_data ?t = insert b (free_data s)" using res(3)[OF d] unfolding free_data_def old by auto
    moreover have "n \<in> free_data s" unfolding free_data_def old by simp
    ultimately show ?thesis
      using call res(1)[OF d] m vn wf by (intro exI[of _ ?t]) (auto simp: data_blk_put_data)
  next
    case no_slot
    let ?new = "zero_node\<lparr>fl_next := word_of_nat (fl_head s)\<rparr>"
    let ?s1 = "put_data b (enc_node ?new) s"
    let ?t = "set_head (word_of_nat b) ?s1"
    have wf: "is_block (enc_node ?new)" by (intro length_enc_node) simp
    have m1: "mounted ?s1" and mt: "mounted ?t" using m v wf by simp_all
    have at: "node_at ?t c = (if c = b then ?new else node_at s c)" for c
      using m m1 v wf by (simp add: node_at_put_data dec_enc_node)
    have call: "data_free (int b) s = Some (SUCCESS, ?t)"
      using m guard no_slot hd data_write_ok[OF m v wf] write_superblock_head[OF m1, of "word_of_nat b"]
      by (simp add: data_free_def Let_def)
    have "unat (word_of_nat (fl_head s) :: u32) = fl_head s"
      unfolding fl_head_def by (simp add: unat_u32_of_nat)
    moreover
    have nb: "b \<notin> set ns"
      using nf ns(2) fl_nodes_subset[of ns "node_at s"] by (auto simp: free_data_def)
    have "fl_chain (node_at ?t) (fl_head s) ns \<longleftrightarrow> fl_chain (node_at s) (fl_head s) ns"
      by (rule fl_chain_cong) (use nb at in auto)
    with ns(1) have "fl_chain (node_at ?t) (fl_head s) ns" by simp
    ultimately have chain: "fl_chain (node_at ?t) (fl_head ?t) (b # ns)"
      using v ub by (simp add: at valid_data_def)
    have "fl_blocks (node_at ?t) ns = fl_blocks (node_at s) ns"
      by (rule fl_blocks_cong) (use nb at in auto)
    then have "fl_blocks (node_at ?t) ns = free_list s" using ns(2) by simp
    then have blocks: "fl_blocks (node_at ?t) (b # ns) = b # free_list s"
      by (simp add: at)
    note res = fs_okI[OF mt chain blocks]
    have d: "distinct (b # free_list s)" "\<forall>x \<in> set (b # free_list s). valid_data ?t x"
      using ns(3,4) nf v by (auto simp: free_data_def)
    have "data_step s ?t"
      using data_step_trans[OF data_step_put_data[OF m v wf] data_step_set_head[OF m1]] .
    then show ?thesis
      using call res[OF d] m m1 v wf
      by (intro exI[of _ ?t]) (auto simp: data_blk_put_data free_data_def)
  qed
qed

section \<open>The free list is an allocator\<close>

definition alloc_data :: "byte list \<Rightarrow> 'a layer1_scheme \<Rightarrow> nat option \<times> 'a layer1_scheme" where
  "alloc_data v s =
    (let (ret, b, t) = data_allocate (Some v) 0 s
     in (if ret = SUCCESS then Some (nat b) else None, t))"

definition release_data :: "nat \<Rightarrow> 'a layer1_scheme \<Rightarrow> 'a layer1_scheme" where
  "release_data b s = (case data_free (int b) s of Some (ret, t) \<Rightarrow> t | None \<Rightarrow> s)"

interpretation blocks: allocator fs_ok is_block "\<lambda>s. {b. valid_data s b}" free_data data_blk
  alloc_data release_data
proof unfold_locales
  fix s :: "'a layer1_scheme" and v
  assume s: "fs_ok s"
  show "free_data s \<subseteq> {b. valid_data s b}" using free_data_valid[OF s] by auto
  show "finite {b. valid_data s b}"
    by (rule finite_subset[of _ "{..ndata s}"]) (auto simp: valid_data_def)
  assume v: "is_block v"
  show "alloc_data v s = (None, s)" if "free_data s = {}"
    using data_allocate_spec[OF s v, of 0] that by (auto simp: alloc_data_def)
  assume "free_data s \<noteq> {}"
  then obtain b t where t: "data_allocate (Some v) 0 s = (SUCCESS, int b, t)" "b \<in> free_data s"
    "fs_ok t" "free_data t = free_data s - {b}" "data_step s t" "data_blk t b = v"
    "\<forall>c. c \<notin> free_data s \<longrightarrow> data_blk t c = data_blk s c"
    using data_allocate_spec[OF s v, of 0] by (auto simp: free_data_def)
  then have "alloc_data v s = (Some b, t)" by (simp add: alloc_data_def)
  then show "\<exists>n t. alloc_data v s = (Some n, t) \<and> n \<in> free_data s \<and> fs_ok t \<and>
      {b. valid_data t b} = {b. valid_data s b} \<and> free_data t = free_data s - {n} \<and>
      data_blk t n = v \<and>
      (\<forall>m. m \<in> {b. valid_data s b} \<longrightarrow> m \<notin> free_data s \<longrightarrow> data_blk t m = data_blk s m)"
    using t data_step_layout(10)[OF t(5)] by (intro exI[of _ b] exI[of _ t]) auto
next
  fix s :: "'a layer1_scheme" and n
  assume "fs_ok s" "n \<in> {b. valid_data s b}" "n \<notin> free_data s"
  then obtain t where t: "data_free (int n) s = Some (SUCCESS, t)" "fs_ok t"
    "free_data t = insert n (free_data s)" "data_step s t"
    "\<forall>c. c \<notin> insert n (free_data s) \<longrightarrow> data_blk t c = data_blk s c"
    using data_free_spec[of s n] by auto
  then have "release_data n s = t" by (simp add: release_data_def)
  then show "fs_ok (release_data n s) \<and> {b. valid_data (release_data n s) b} = {b. valid_data s b} \<and>
      free_data (release_data n s) = insert n (free_data s) \<and>
      (\<forall>m. m \<in> {b. valid_data s b} \<longrightarrow> m \<notin> insert n (free_data s) \<longrightarrow>
        data_blk (release_data n s) m = data_blk s m)"
    using t data_step_layout(10)[OF t(4)] by auto
qed

end
