(* ===== verification/Frames.thy ===== *)
theory Frames
  imports FreeList
begin

text \<open>
  The two halves of layer 1 do not disturb each other.  \<open>data_step\<close> (theory \<open>FreeList\<close>) is a change
  of data blocks and of the head of the free list; \<open>inode_step\<close> is a change of the bitmap and the
  inode table.  An \<open>inode_step\<close> keeps every data block and the free list, a \<open>data_step\<close> keeps
  every inode.  The operations of layer 1 are restated here with the step they make.
\<close>

definition inode_step :: "'a layer1_scheme \<Rightarrow> 'a layer1_scheme \<Rightarrow> bool" where
  "inode_step s t \<longleftrightarrow> sb_of t = sb_of s \<and> nblocks t = nblocks s \<and>
    (\<forall>m. m < ibitmap_off s \<or> data_off s \<le> m \<longrightarrow> blk t m = blk s m)"

lemma inode_step_layout:
  assumes "inode_step s t"
  shows "sb_of t = sb_of s" "nblocks t = nblocks s" "ibitmap_off t = ibitmap_off s"
    "ibitmap_len t = ibitmap_len s" "ilist_off t = ilist_off s"
    "ilist_len t = ilist_len s" "data_off t = data_off s" "ndata t = ndata s"
    "ninodes t = ninodes s" "valid_inum t n = valid_inum s n" "valid_data t b = valid_data s b"
  using assms by (simp_all add: inode_step_def region_defs valid_inum_def valid_data_def)

lemma inode_step_refl [simp]: "inode_step s s"
  by (simp add: inode_step_def)

lemma inode_step_trans [trans]: "inode_step s t \<Longrightarrow> inode_step t u \<Longrightarrow> inode_step s u"
  by (auto simp: inode_step_def region_defs)

lemma inode_step_data [frame]:
  assumes "inode_step s t"
  shows "data_blk t b = data_blk s b" "node_at t b = node_at s b" "fl_head t = fl_head s"
proof -
  show d: "data_blk t b = data_blk s b"
    using assms inode_step_layout(7)[OF assms] by (simp add: data_blk_def inode_step_def)
  show "node_at t b = node_at s b" "fl_head t = fl_head s"
    using inode_step_layout[OF assms] by (simp_all add: node_at_def fl_head_def d)
qed

lemma inode_step_free_list [frame]:
  assumes "inode_step s t"
  shows "free_list t = free_list s" "free_data t = free_data s" "fl_inv t ns = fl_inv s ns"
    "free_nodes t = free_nodes s"
proof -
  have h: "node_at t = node_at s" using inode_step_data(2)[OF assms] by auto
  show n: "free_nodes t = free_nodes s"
    using inode_step_layout[OF assms] inode_step_data[OF assms] by (simp add: free_nodes_def h)
  show "free_list t = free_list s" "free_data t = free_data s" "fl_inv t ns = fl_inv s ns"
    using inode_step_layout[OF assms] inode_step_data[OF assms]
    by (simp_all add: free_list_def free_data_def fl_inv_def n h)
qed

lemma inode_step_fs_ok: "inode_step s t \<Longrightarrow> fs_ok s \<Longrightarrow> mounted t \<Longrightarrow> fs_ok t"
  using inode_step_free_list(3,4)[of s t] by (simp add: fs_ok_def)

lemma inode_step_put_inode [simp]:
  assumes "mounted s" "valid_inum s n" "inode_wf i"
  shows "inode_step s (put_inode n i s)"
  using mounted_regions[OF assms(1)] assms by (auto simp: inode_step_def intro!: blk_put_inode)

lemma inode_step_upd_bitmap:
  assumes "mounted s" "p < ibitmap_len s * BITS_PER_BLOCK"
  shows "inode_step s (upd_bitmap p g s)"
  using mounted_regions[OF assms(1)] assms
  by (auto simp: inode_step_def intro!: blk_upd_bitmap_outside)

lemma inode_step_mark [simp]:
  assumes "mounted s" "valid_inum s n"
  shows "inode_step s (mark_inode n s)" "inode_step s (clear_inode n s)"
  using assms by (simp_all add: mark_inode_def clear_inode_def inode_step_upd_bitmap bitmap_room)

lemma fs_ok_put_inode [simp]:
  "fs_ok s \<Longrightarrow> valid_inum s n \<Longrightarrow> inode_wf i \<Longrightarrow> fs_ok (put_inode n i s)"
  using inode_step_fs_ok[of s "put_inode n i s"] fs_ok_mounted[of s] by simp

lemma fs_ok_clear_inode [simp]: "fs_ok s \<Longrightarrow> valid_inum s n \<Longrightarrow> fs_ok (clear_inode n s)"
  using inode_step_fs_ok[of s "clear_inode n s"] fs_ok_mounted[of s] by simp

section \<open>Creating and freeing an inode\<close>

text \<open>The two outcomes of \<open>inode_create\<close>, in terms of the bitmap and the table.\<close>

lemma inode_create_spec:
  assumes m: "mounted s" and wf: "inode_wf node"
  shows "(free_inums s = {} \<and> inode_create (Some node) (Some old) s = (ILIST_FULL, old, s)) \<or>
    (\<exists>n t. inode_create (Some node) (Some old) s = (SUCCESS, int n, t) \<and> first_free s n \<and>
      mounted t \<and> inode_step s t \<and> inode_at t n = node \<and> free_inums t = free_inums s - {n} \<and>
      (\<forall>k. valid_inum s k \<and> k \<noteq> n \<longrightarrow> inode_at t k = inode_at s k))"
proof (cases rule: inode_create_cases[OF m wf, where old = old])
  case (1 n)
  let ?m = "mark_inode n s" and ?t = "put_inode n node (mark_inode n s)"
  have n: "valid_inum s n" "\<not> inode_used s n" using 1(1) by (simp_all add: first_free_def)
  have mm: "mounted ?m" "valid_inum ?m k = valid_inum s k" for k using m n(1) by simp_all
  have used: "inode_used ?t k \<longleftrightarrow> k = n \<or> inode_used s k" if "valid_inum s k" for k
    using inode_used_put_inode[OF mm(1), of n node k] inode_used_mark_inode(1)[OF m n(1), of k]
      n wf that by (simp add: mm valid_inum_def)
  have at: "inode_at ?t k = (if k = n then node else inode_at s k)" if "valid_inum s k" for k
    using inode_at_put_inode[OF mm(1), of n node k]
      inode_at_upd_bitmap[OF m bitmap_room[OF m n(1)], of k] n wf that
    by (simp add: mm(2) valid_inum_def mark_inode_def)
  have "inode_step s ?t"
    by (rule inode_step_trans[OF inode_step_mark(1)[OF m n(1)]]) (use mm n wf in simp)
  moreover have "free_inums ?t = free_inums s - {n}" using used by (auto simp: free_inums_def mm)
  moreover have "mounted ?t" using mm n wf by simp
  ultimately show ?thesis
    using 1 n at by (intro disjI2 exI[of _ n] exI[of _ ?t]) auto
next
  case 2
  then show ?thesis by (auto simp: free_inums_def)
qed

lemma inode_free_spec:
  assumes m: "mounted s" and v: "valid_inum s n"
  shows "inode_free (int n) s = (SUCCESS, clear_inode n s)"
    and "free_inums (clear_inode n s) = insert n (free_inums s)"
    and "valid_inum s k \<Longrightarrow> inode_at (clear_inode n s) k = inode_at s k"
proof -
  show "inode_free (int n) s = (SUCCESS, clear_inode n s)" using m v by (rule inode_free_ok)
  show "free_inums (clear_inode n s) = insert n (free_inums s)"
    using inode_used_mark_inode(2)[OF m v] v by (auto simp: free_inums_def valid_inum_def)
  show "valid_inum s k \<Longrightarrow> inode_at (clear_inode n s) k = inode_at s k"
    using inode_at_upd_bitmap[OF m bitmap_room[OF m v]] by (simp add: clear_inode_def)
qed

lemma data_step_free_inums [frame]:
  assumes "data_step s t" "mounted s"
  shows "free_inums t = free_inums s"
  using data_step_inodes[OF assms] data_step_layout[OF assms(1)] by (auto simp: free_inums_def)

lemma put_inode_free_inums [frame]:
  assumes "mounted s" "valid_inum s n" "inode_wf i"
  shows "free_inums (put_inode n i s) = free_inums s"
  using inode_used_put_inode[OF assms] by (auto simp: free_inums_def)

section \<open>Uninitialised storage\<close>

text \<open>Taking bytes of uninitialised storage changes nothing on the disk.\<close>

lemma consume_regions [simp]:
  "ibitmap_off (consume k s) = ibitmap_off s" "ibitmap_len (consume k s) = ibitmap_len s"
  "ilist_off (consume k s) = ilist_off s" "ilist_len (consume k s) = ilist_len s"
  "data_off (consume k s) = data_off s" "ndata (consume k s) = ndata s"
  "ninodes (consume k s) = ninodes s" "valid_inum (consume k s) n = valid_inum s n"
  "valid_data (consume k s) b = valid_data s b"
  by (simp_all add: region_defs valid_inum_def valid_data_def)

lemma consume_mounted [simp]: "mounted (consume k s) = mounted s"
  by (simp add: mounted_def)

lemma consume_steps [simp]: "inode_step s (consume k s)" "data_step s (consume k s)"
  by (auto simp: inode_step_def data_step_def intro: exI[of _ "sb_free_list_head (sb_of s)"])

lemma consume_inodes [simp]:
  "inode_at (consume k s) n = inode_at s n" "inode_used (consume k s) n = inode_used s n"
  "free_inums (consume k s) = free_inums s" "first_free (consume k s) n = first_free s n"
proof -
  show at: "inode_at (consume k s) n = inode_at s n" by (simp add: inode_at_def ilist.get_def)
  show used: "inode_used (consume k s) n = inode_used s n" for n by (simp add: inode_used_def bit_pos_def)
  show "free_inums (consume k s) = free_inums s" "first_free (consume k s) n = first_free s n"
    by (simp_all add: free_inums_def first_free_def used)
qed

lemma consume_data [simp]:
  "data_blk (consume k s) b = data_blk s b" "free_data (consume k s) = free_data s"
  "free_list (consume k s) = free_list s"
  "fs_ok (consume k s) = fs_ok s"
  using inode_step_data[OF consume_steps(1)[of s k]] inode_step_free_list[OF consume_steps(1)[of s k]]
  by (simp_all add: fs_ok_def)

section \<open>Frames of whole operations\<close>

text \<open>
  \<open>fs_frame I B s t\<close>: \<open>t\<close> is a good disk of the same size as \<open>s\<close>, on which at most the inodes in
  \<open>I\<close> and the data blocks in \<open>B\<close> differ.
\<close>

definition fs_frame :: "nat set \<Rightarrow> nat set \<Rightarrow> 'a layer1_scheme \<Rightarrow> 'a layer1_scheme \<Rightarrow> bool" where
  "fs_frame I B s t \<longleftrightarrow> fs_ok t \<and> nblocks t = nblocks s \<and> ninodes t = ninodes s \<and> ndata t = ndata s \<and>
    (\<forall>k. valid_inum s k \<and> k \<notin> I \<longrightarrow> inode_at t k = inode_at s k) \<and>
    (\<forall>c. c \<notin> B \<longrightarrow> data_blk t c = data_blk s c)"

lemma fs_frameD:
  assumes "fs_frame I B s t"
  shows "fs_ok t" "mounted t" "nblocks t = nblocks s" "ninodes t = ninodes s" "ndata t = ndata s"
    "valid_inum t n = valid_inum s n" "valid_data t b = valid_data s b"
    "valid_inum s n \<Longrightarrow> n \<notin> I \<Longrightarrow> inode_at t n = inode_at s n" "b \<notin> B \<Longrightarrow> data_blk t b = data_blk s b"
  using assms by (auto simp: fs_frame_def valid_inum_def valid_data_def fs_ok_mounted)

lemma fs_frame_refl [simp]: "fs_frame I B s s = fs_ok s"
  by (simp add: fs_frame_def)

lemma fs_frame_trans:
  "fs_frame I B s t \<Longrightarrow> fs_frame I' B' t u \<Longrightarrow> I \<union> I' \<subseteq> J \<Longrightarrow> B \<union> B' \<subseteq> C \<Longrightarrow> fs_frame J C s u"
  unfolding fs_frame_def valid_inum_def by (metis UnI1 UnI2 subsetD)

lemma fs_frame_mono: "fs_frame I B s t \<Longrightarrow> I \<subseteq> J \<Longrightarrow> B \<subseteq> C \<Longrightarrow> fs_frame J C s t"
  by (rule fs_frame_trans[where I' = "{}" and B' = "{}" and u = t]) (auto simp: fs_frameD)

lemma fs_frame_consume [simp]: "fs_ok s \<Longrightarrow> fs_frame I B s (consume k s)"
  by (simp add: fs_frame_def)

lemma fs_frame_put_inode:
  assumes "fs_ok s" "valid_inum s n" "inode_wf i"
  shows "fs_frame {n} {} s (put_inode n i s)"
  using assms fs_ok_mounted[OF assms(1)]
    inode_step_data(1)[OF inode_step_put_inode[of s n i]]
  by (auto simp: fs_frame_def inode_at_put_inode valid_inum_def)

lemma fs_frame_put_data:
  assumes "fs_ok s" "valid_data s b" "is_block x" "b \<notin> free_data s"
  shows "fs_frame {} {b} s (put_data b x s)" and "free_data (put_data b x s) = free_data s"
    and "free_list (put_data b x s) = free_list s"
proof -
  have m: "mounted s" using assms(1) by (rule fs_ok_mounted)
  obtain ns where ns: "fl_chain (node_at s) (fl_head s) ns" "fl_blocks (node_at s) ns = free_list s"
    "distinct (free_list s)" "\<forall>b \<in> set (free_list s). valid_data s b" using assms(1) by (rule fs_okE)
  have nb: "b \<notin> set ns" using assms(4) ns(2) fl_nodes_subset[of ns "node_at s"] by (auto simp: free_data_def)
  have at: "c \<noteq> b \<Longrightarrow> node_at (put_data b x s) c = node_at s c" for c
    using m assms by (simp add: node_at_put_data)
  have ch: "fl_chain (node_at (put_data b x s)) (fl_head (put_data b x s)) ns"
  proof -
    have "fl_chain (node_at (put_data b x s)) (fl_head s) ns \<longleftrightarrow> fl_chain (node_at s) (fl_head s) ns"
      by (rule fl_chain_cong) (metis nb at)
    then show ?thesis using ns(1) by simp
  qed
  have "fl_blocks (node_at (put_data b x s)) ns = fl_blocks (node_at s) ns"
    by (rule fl_blocks_cong) (metis nb at)
  then have bl: "fl_blocks (node_at (put_data b x s)) ns = free_list s" using ns(2) by simp
  have mt: "mounted (put_data b x s)" using m assms by simp
  have v: "\<forall>c \<in> set (free_list s). valid_data (put_data b x s) c" using ns(4) by simp
  note ok = fs_okI[OF mt ch bl ns(3) v]
  show "free_list (put_data b x s) = free_list s" by (rule ok)
  show "free_data (put_data b x s) = free_data s" using ok(3) by (simp add: free_data_def)
  have "inode_at (put_data b x s) k = inode_at s k" if "valid_inum s k" for k
    using data_step_inodes(1)[OF data_step_put_data[OF m assms(2,3)] m that] .
  then show "fs_frame {} {b} s (put_data b x s)"
    using ok(1) m assms by (auto simp: fs_frame_def data_blk_put_data)
qed

text \<open>Allocation and release of data blocks and of inodes, as frames.\<close>

lemma data_allocate_frame:
  assumes "fs_ok s" "is_block v"
  shows "(free_data s = {} \<and> data_allocate (Some v) old s = (DATA_FULL, old, s)) \<or>
    (\<exists>b t. data_allocate (Some v) old s = (SUCCESS, int b, t) \<and> b \<in> free_data s \<and>
      fs_frame {} (free_data s) s t \<and> free_data t = free_data s - {b} \<and> data_blk t b = v \<and>
      free_inums t = free_inums s)"
proof -
  have m: "mounted s" using assms(1) by (rule fs_ok_mounted)
  consider "free_list s = []" "data_allocate (Some v) old s = (DATA_FULL, old, s)"
    | b t where "data_allocate (Some v) old s = (SUCCESS, int b, t)" "b \<in> free_data s" "fs_ok t"
      "free_data t = free_data s - {b}" "data_step s t" "data_blk t b = v"
      "\<forall>c. c \<notin> free_data s \<longrightarrow> data_blk t c = data_blk s c"
    using data_allocate_spec[OF assms, of old] by blast
  then show ?thesis
  proof cases
    case 2
    then have "fs_frame {} (free_data s) s t"
      using data_step_layout[OF 2(5)] data_step_inodes(1)[OF 2(5) m] by (simp add: fs_frame_def)
    then show ?thesis using 2 data_step_free_inums[OF 2(5) m] by blast
  qed (simp add: free_data_def)
qed

lemma data_free_frame:
  assumes "fs_ok s" "valid_data s b" "b \<notin> free_data s"
  shows "\<exists>t. data_free (int b) s = Some (SUCCESS, t) \<and> fs_frame {} (insert b (free_data s)) s t \<and>
    free_data t = insert b (free_data s) \<and> free_inums t = free_inums s"
proof -
  have m: "mounted s" using assms(1) by (rule fs_ok_mounted)
  obtain t where t: "data_free (int b) s = Some (SUCCESS, t)" "fs_ok t"
    "free_data t = insert b (free_data s)" "data_step s t"
    "\<forall>c. c \<notin> insert b (free_data s) \<longrightarrow> data_blk t c = data_blk s c"
    using data_free_spec[OF assms] by blast
  then have "fs_frame {} (insert b (free_data s)) s t"
    using data_step_layout[OF t(4)] data_step_inodes(1)[OF t(4) m] by (simp add: fs_frame_def)
  then show ?thesis using t data_step_free_inums[OF t(4) m] by blast
qed

lemma inode_create_frame:
  assumes "fs_ok s" "inode_wf node"
  shows "(free_inums s = {} \<and> inode_create (Some node) (Some old) s = (ILIST_FULL, old, s)) \<or>
    (\<exists>n t. inode_create (Some node) (Some old) s = (SUCCESS, int n, t) \<and> first_free s n \<and>
      fs_frame {n} {} s t \<and> inode_at t n = node \<and> free_inums t = free_inums s - {n} \<and>
      free_data t = free_data s)"
proof -
  have m: "mounted s" using assms(1) by (rule fs_ok_mounted)
  consider "free_inums s = {}" "inode_create (Some node) (Some old) s = (ILIST_FULL, old, s)"
    | n t where "inode_create (Some node) (Some old) s = (SUCCESS, int n, t)" "first_free s n"
      "mounted t" "inode_step s t" "inode_at t n = node" "free_inums t = free_inums s - {n}"
      "\<forall>k. valid_inum s k \<and> k \<noteq> n \<longrightarrow> inode_at t k = inode_at s k"
    using inode_create_spec[OF m assms(2), of old] by blast
  then show ?thesis
  proof cases
    case 2
    then have "fs_frame {n} {} s t"
      using inode_step_fs_ok[OF 2(4) assms(1)] inode_step_layout[OF 2(4)] inode_step_data(1)[OF 2(4)]
      by (simp add: fs_frame_def)
    then show ?thesis using 2 inode_step_free_list(2)[OF 2(4)] by blast
  qed simp
qed

lemma inode_free_frame:
  assumes "fs_ok s" "valid_inum s n"
  shows "inode_free (int n) s = (SUCCESS, clear_inode n s)" "fs_frame {} {} s (clear_inode n s)"
    "free_inums (clear_inode n s) = insert n (free_inums s)"
    "free_data (clear_inode n s) = free_data s"
proof -
  have m: "mounted s" using assms(1) by (rule fs_ok_mounted)
  note c = inode_free_spec[OF m assms(2)] and st = inode_step_mark(2)[OF m assms(2)]
  show "inode_free (int n) s = (SUCCESS, clear_inode n s)"
    "free_inums (clear_inode n s) = insert n (free_inums s)" by (rule c)+
  show "fs_frame {} {} s (clear_inode n s)"
    using assms c(3) inode_step_data(1)[OF st] by (simp add: fs_frame_def)
  show "free_data (clear_inode n s) = free_data s" using inode_step_free_list(2)[OF st] .
qed

end
