(* ===== verification/BlockTree.thy ===== *)
theory BlockTree
  imports Prelude
begin

text \<open>
  The trees of block pointers, as pure data.  \<open>h a\<close> are the words of block \<open>a\<close> read as an address
  block.  A tree of level 0 is one data block; a tree of level \<open>Suc i\<close> is an address block whose
  words are the roots of trees of level \<open>i\<close>; root 0 is the empty tree.  \<open>bm_lookup\<close> is the block at
  an offset, \<open>bm_set\<close> all blocks of the tree, \<open>bm_inner\<close> its address blocks, and \<open>bm_ok\<close> says that no
  block occurs twice.  A forest is a family of trees: the children of an address block, or the
  pointers of an inode.
\<close>

type_synonym heap = "nat \<Rightarrow> u32 list"

definition FANOUT :: nat where [c_consts]: "FANOUT = 1024"

lemma FANOUT_pos [simp]: "0 < FANOUT"
  by (simp add: FANOUT_def)

abbreviation kid :: "heap \<Rightarrow> nat \<Rightarrow> nat \<Rightarrow> nat" where
  "kid h a k \<equiv> unat (h a ! k)"

primrec bm_lookup :: "nat \<Rightarrow> heap \<Rightarrow> nat \<Rightarrow> nat \<Rightarrow> nat" where
  "bm_lookup 0 h a off = a"
| "bm_lookup (Suc i) h a off =
    (if a = 0 then 0 else bm_lookup i h (kid h a (off div FANOUT ^ i)) (off mod FANOUT ^ i))"

primrec bm_set :: "nat \<Rightarrow> heap \<Rightarrow> nat \<Rightarrow> nat set" where
  "bm_set 0 h a = (if a = 0 then {} else {a})"
| "bm_set (Suc i) h a = (if a = 0 then {} else insert a (\<Union>k < FANOUT. bm_set i h (kid h a k)))"

primrec bm_inner :: "nat \<Rightarrow> heap \<Rightarrow> nat \<Rightarrow> nat set" where
  "bm_inner 0 h a = {}"
| "bm_inner (Suc i) h a = (if a = 0 then {} else insert a (\<Union>k < FANOUT. bm_inner i h (kid h a k)))"

definition forest_set :: "(nat \<Rightarrow> nat) \<Rightarrow> nat \<Rightarrow> heap \<Rightarrow> (nat \<Rightarrow> nat) \<Rightarrow> nat set" where
  "forest_set L K h r = (\<Union>k < K. bm_set (L k) h (r k))"

definition forest_inner :: "(nat \<Rightarrow> nat) \<Rightarrow> nat \<Rightarrow> heap \<Rightarrow> (nat \<Rightarrow> nat) \<Rightarrow> nat set" where
  "forest_inner L K h r = (\<Union>k < K. bm_inner (L k) h (r k))"

definition disjoint_trees :: "(nat \<Rightarrow> nat) \<Rightarrow> nat \<Rightarrow> heap \<Rightarrow> (nat \<Rightarrow> nat) \<Rightarrow> bool" where
  "disjoint_trees L K h r \<longleftrightarrow>
    (\<forall>j < K. \<forall>k < K. j \<noteq> k \<longrightarrow> bm_set (L j) h (r j) \<inter> bm_set (L k) h (r k) = {})"

primrec bm_ok :: "nat \<Rightarrow> heap \<Rightarrow> nat \<Rightarrow> bool" where
  "bm_ok 0 h a = True"
| "bm_ok (Suc i) h a \<longleftrightarrow> a = 0 \<or>
    (\<forall>k < FANOUT. bm_ok i h (kid h a k)) \<and> disjoint_trees (\<lambda>_. i) FANOUT h (kid h a) \<and>
    (\<forall>k < FANOUT. a \<notin> bm_set i h (kid h a k))"

definition forest_ok :: "(nat \<Rightarrow> nat) \<Rightarrow> nat \<Rightarrow> heap \<Rightarrow> (nat \<Rightarrow> nat) \<Rightarrow> bool" where
  "forest_ok L K h r \<longleftrightarrow> (\<forall>k < K. bm_ok (L k) h (r k)) \<and> disjoint_trees L K h r"

text \<open>
  \<open>bm_full\<close>: no address block of the tree is empty.  \<open>bm_fullx\<close> allows the ones on the way to one
  offset to be empty, as they are while a block is added or removed there.
\<close>

primrec bm_full :: "nat \<Rightarrow> heap \<Rightarrow> nat \<Rightarrow> bool" where
  "bm_full 0 h a = True"
| "bm_full (Suc i) h a \<longleftrightarrow> a = 0 \<or>
    (\<forall>k < FANOUT. bm_full i h (kid h a k)) \<and> (\<exists>k < FANOUT. kid h a k \<noteq> 0)"

primrec bm_fullx :: "nat \<Rightarrow> heap \<Rightarrow> nat \<Rightarrow> nat \<Rightarrow> bool" where
  "bm_fullx 0 h a off = True"
| "bm_fullx (Suc i) h a off \<longleftrightarrow> a = 0 \<or>
    (\<forall>k < FANOUT. k \<noteq> off div FANOUT ^ i \<longrightarrow> bm_full i h (kid h a k)) \<and>
    bm_fullx i h (kid h a (off div FANOUT ^ i)) (off mod FANOUT ^ i)"

lemma bm_set_Suc: "a \<noteq> 0 \<Longrightarrow> bm_set (Suc i) h a = insert a (forest_set (\<lambda>_. i) FANOUT h (kid h a))"
  by (simp add: forest_set_def)

lemma bm_inner_Suc:
  "a \<noteq> 0 \<Longrightarrow> bm_inner (Suc i) h a = insert a (forest_inner (\<lambda>_. i) FANOUT h (kid h a))"
  by (simp add: forest_inner_def)

lemma bm_ok_Suc:
  "a \<noteq> 0 \<Longrightarrow> bm_ok (Suc i) h a \<longleftrightarrow> forest_ok (\<lambda>_. i) FANOUT h (kid h a) \<and>
    a \<notin> forest_set (\<lambda>_. i) FANOUT h (kid h a)"
  by (auto simp: forest_ok_def forest_set_def)

lemma bm_empty [simp]:
  "bm_lookup lv h 0 off = 0" "bm_set lv h 0 = {}" "bm_inner lv h 0 = {}" "bm_ok lv h 0"
  "bm_full lv h 0" "bm_fullx lv h 0 off"
  by (cases lv; simp)+

lemma off_bounds: "off < FANOUT ^ Suc i \<Longrightarrow> off div FANOUT ^ i < FANOUT \<and> off mod FANOUT ^ i < FANOUT ^ i"
  by (simp add: less_mult_imp_div_less)

lemma bm_inner_subset: "bm_inner lv h a \<subseteq> bm_set lv h a"
  by (induction lv arbitrary: a) auto

lemma forest_inner_subset: "forest_inner L K h r \<subseteq> forest_set L K h r"
  unfolding forest_inner_def forest_set_def using bm_inner_subset by (intro UN_mono) simp_all

lemma bm_lookup_in: "off < FANOUT ^ lv \<Longrightarrow> bm_lookup lv h a off \<noteq> 0 \<Longrightarrow> bm_lookup lv h a off \<in> bm_set lv h a"
proof (induction lv arbitrary: a off)
  case (Suc i)
  then have a: "a \<noteq> 0" by (auto split: if_splits)
  with Suc have "bm_lookup i h (kid h a (off div FANOUT ^ i)) (off mod FANOUT ^ i)
      \<in> bm_set i h (kid h a (off div FANOUT ^ i))"
    using off_bounds[OF Suc.prems(1)] by auto
  then show ?case using a off_bounds[OF Suc.prems(1)] by auto
qed simp

lemma zero_notin_set: "0 \<notin> bm_set lv h a"
  by (induction lv arbitrary: a) auto

lemma bm_full_fullx: "off < FANOUT ^ lv \<Longrightarrow> bm_full lv h a \<Longrightarrow> bm_fullx lv h a off"
proof (induction lv arbitrary: a off)
  case (Suc i)
  then show ?case using off_bounds[OF Suc.prems(1)] by auto
qed simp

lemma bm_fullx_full:
  "off < FANOUT ^ lv \<Longrightarrow> bm_fullx lv h a off \<Longrightarrow> bm_lookup lv h a off \<noteq> 0 \<Longrightarrow> bm_full lv h a"
proof (induction lv arbitrary: a off)
  case (Suc i)
  let ?k = "off div FANOUT ^ i" and ?o = "off mod FANOUT ^ i"
  note kb = off_bounds[OF Suc.prems(1)]
  have a: "a \<noteq> 0" using Suc.prems(3) by (auto split: if_splits)
  have l: "bm_lookup i h (kid h a ?k) ?o \<noteq> 0" using Suc.prems(3) a by simp
  then have "kid h a ?k \<noteq> 0" by (cases "kid h a ?k = 0") simp_all
  moreover have "bm_full i h (kid h a ?k)" using Suc.IH[of ?o "kid h a ?k"] Suc.prems(2) a kb l by simp
  then have "bm_full i h (kid h a k)" if "k < FANOUT" for k
    using Suc.prems(2) a that by (cases "k = ?k") auto
  ultimately show ?case using kb by auto
qed simp

lemma off_join: "k < FANOUT \<Longrightarrow> o' < FANOUT ^ i \<Longrightarrow> k * FANOUT ^ i + o' < FANOUT ^ Suc i"
proof -
  assume a: "k < FANOUT" "o' < FANOUT ^ i"
  have "k * FANOUT ^ i + o' < Suc k * FANOUT ^ i" using a(2) by simp
  also have "\<dots> \<le> FANOUT * FANOUT ^ i" using a(1) by (intro mult_right_mono) simp_all
  finally show ?thesis by simp
qed

text \<open>A block of a tree is an address block or a data block some offset leads to.\<close>

lemma bm_set_cases:
  "x \<in> bm_set lv h a \<Longrightarrow> x \<in> bm_inner lv h a \<or> (\<exists>off < FANOUT ^ lv. bm_lookup lv h a off = x)"
proof (induction lv arbitrary: a)
  case (Suc i)
  show ?case
  proof (cases "x = a")
    case False
    have a: "a \<noteq> 0" using Suc.prems by (auto split: if_splits)
    then obtain k where k: "k < FANOUT" "x \<in> bm_set i h (kid h a k)" using Suc.prems False by auto
    from Suc.IH[OF k(2)] show ?thesis
    proof
      assume "x \<in> bm_inner i h (kid h a k)"
      then show ?thesis using a k(1) by auto
    next
      assume "\<exists>off < FANOUT ^ i. bm_lookup i h (kid h a k) off = x"
      then obtain o' where o': "o' < FANOUT ^ i" "bm_lookup i h (kid h a k) o' = x" by blast
      then have "(k * FANOUT ^ i + o') div FANOUT ^ i = k" "(k * FANOUT ^ i + o') mod FANOUT ^ i = o'" by simp_all
      then have "bm_lookup (Suc i) h a (k * FANOUT ^ i + o') = x" using a o'(2) by simp
      then show ?thesis using off_join[OF k(1) o'(1)] by blast
    qed
  qed (use Suc.prems in \<open>auto split: if_splits\<close>)
qed (auto split: if_splits)

lemma bm_full_lookup:
  "bm_full lv h a \<Longrightarrow> a \<noteq> 0 \<Longrightarrow> \<exists>off < FANOUT ^ lv. bm_lookup lv h a off \<noteq> 0"
proof (induction lv arbitrary: a)
  case (Suc i)
  then obtain k where k: "k < FANOUT" "kid h a k \<noteq> 0" "bm_full i h (kid h a k)" by auto
  then obtain o' where o': "o' < FANOUT ^ i" "bm_lookup i h (kid h a k) o' \<noteq> 0" using Suc.IH by blast
  let ?off = "k * FANOUT ^ i + o'"
  have "?off < FANOUT ^ Suc i" by (rule off_join[OF k(1) o'(1)])
  moreover have "?off div FANOUT ^ i = k" "?off mod FANOUT ^ i = o'" using o'(1) by simp_all
  ultimately show ?case using o'(2) Suc.prems(2) by (intro exI[of _ ?off]) simp
qed simp

text \<open>A tree depends only on the address blocks in it.\<close>

lemma bm_cong:
  assumes "\<And>x. x \<in> bm_inner lv h a \<Longrightarrow> h' x = h x"
  shows "bm_set lv h' a = bm_set lv h a" "bm_inner lv h' a = bm_inner lv h a"
    "off < FANOUT ^ lv \<Longrightarrow> bm_lookup lv h' a off = bm_lookup lv h a off"
    "bm_ok lv h' a = bm_ok lv h a" "bm_full lv h' a = bm_full lv h a"
proof -
  have "bm_set lv h' a = bm_set lv h a \<and> bm_inner lv h' a = bm_inner lv h a \<and>
      bm_ok lv h' a = bm_ok lv h a \<and> bm_full lv h' a = bm_full lv h a \<and>
      (\<forall>off < FANOUT ^ lv. bm_lookup lv h' a off = bm_lookup lv h a off)"
    using assms
  proof (induction lv arbitrary: a)
    case (Suc i)
    show ?case
    proof (cases "a = 0")
      case False
      have h: "h' a = h a" using Suc.prems False by simp
      have IH: "bm_set i h' (kid h a k) = bm_set i h (kid h a k)"
        "bm_inner i h' (kid h a k) = bm_inner i h (kid h a k)"
        "bm_ok i h' (kid h a k) = bm_ok i h (kid h a k)"
        "bm_full i h' (kid h a k) = bm_full i h (kid h a k)"
        "off < FANOUT ^ i \<Longrightarrow> bm_lookup i h' (kid h a k) off = bm_lookup i h (kid h a k) off"
        if "k < FANOUT" for k off
        using Suc.IH[of "kid h a k"] Suc.prems that False by auto
      show ?thesis
        using False IH off_bounds by (simp add: h disjoint_trees_def)
    qed simp
  qed simp
  then show "bm_set lv h' a = bm_set lv h a" "bm_inner lv h' a = bm_inner lv h a"
    "bm_ok lv h' a = bm_ok lv h a" "bm_full lv h' a = bm_full lv h a" "off < FANOUT ^ lv \<Longrightarrow> bm_lookup lv h' a off = bm_lookup lv h a off"
    by blast+
qed

text \<open>A data block found by a lookup is not an address block of the same tree, and lookups of different
  offsets find different blocks.\<close>

lemma bm_leaf:
  assumes "bm_ok lv h a" "off < FANOUT ^ lv" "bm_lookup lv h a off \<noteq> 0"
  shows "bm_lookup lv h a off \<notin> bm_inner lv h a"
  using assms
proof (induction lv arbitrary: a off)
  case (Suc i)
  let ?k = "off div FANOUT ^ i" and ?o = "off mod FANOUT ^ i"
  have a: "a \<noteq> 0" using Suc.prems(3) by (auto split: if_splits)
  have k: "?k < FANOUT" "?o < FANOUT ^ i" using off_bounds[OF Suc.prems(2)] by auto
  let ?b = "bm_lookup i h (kid h a ?k) ?o"
  have b: "?b \<noteq> 0" using Suc.prems(3) a by simp
  have ok: "bm_ok i h (kid h a ?k)" "a \<notin> bm_set i h (kid h a ?k)"
    and disj: "\<forall>j < FANOUT. j \<noteq> ?k \<longrightarrow> bm_set i h (kid h a j) \<inter> bm_set i h (kid h a ?k) = {}"
    using Suc.prems(1) a k by (auto simp: disjoint_trees_def)
  have "?b \<in> bm_set i h (kid h a ?k)" by (rule bm_lookup_in[OF k(2) b])
  moreover have own: "?b \<notin> bm_inner i h (kid h a ?k)" by (rule Suc.IH[OF ok(1) k(2) b])
  ultimately have "?b \<notin> bm_inner i h (kid h a j)" if "j < FANOUT" for j
    using disj that bm_inner_subset[of i h "kid h a j"] by (cases "j = ?k") auto
  moreover have "?b \<noteq> a" using bm_lookup_in[OF k(2) b] ok(2) by metis
  ultimately show ?case using a by auto
qed simp

lemma bm_lookup_inj:
  assumes "bm_ok lv h a" "off < FANOUT ^ lv" "off' < FANOUT ^ lv" "off \<noteq> off'" "bm_lookup lv h a off \<noteq> 0"
  shows "bm_lookup lv h a off \<noteq> bm_lookup lv h a off'"
  using assms
proof (induction lv arbitrary: a off off')
  case (Suc i)
  let ?k = "off div FANOUT ^ i" and ?o = "off mod FANOUT ^ i"
  let ?k' = "off' div FANOUT ^ i" and ?o' = "off' mod FANOUT ^ i"
  have a: "a \<noteq> 0" using Suc.prems(5) by (auto split: if_splits)
  have k: "?k < FANOUT" "?o < FANOUT ^ i" "?k' < FANOUT" "?o' < FANOUT ^ i"
    using off_bounds Suc.prems(2,3) by auto
  have b: "bm_lookup i h (kid h a ?k) ?o \<noteq> 0" using Suc.prems(5) a by simp
  show ?case
  proof (cases "?k = ?k'")
    case True
    then have "?o \<noteq> ?o'" using Suc.prems(4) by (metis div_mult_mod_eq)
    then have "bm_lookup i h (kid h a ?k) ?o \<noteq> bm_lookup i h (kid h a ?k) ?o'"
      using Suc.IH[of "kid h a ?k" ?o ?o'] Suc.prems(1) a k b by simp
    then show ?thesis using a True by simp
  next
    case False
    then have "bm_set i h (kid h a ?k) \<inter> bm_set i h (kid h a ?k') = {}"
      using Suc.prems(1) a k by (simp add: disjoint_trees_def)
    then have "bm_lookup i h (kid h a ?k) ?o \<noteq> bm_lookup i h (kid h a ?k') ?o'"
      using bm_lookup_in[OF k(2) b] bm_lookup_in[OF k(4), of h "kid h a ?k'"] b by auto
    then show ?thesis using a by simp
  qed
qed simp

section \<open>Replacing one tree of a forest\<close>

lemma forest_update:
  assumes ok: "forest_ok L K h r" and k: "k < K"
    and new: "bm_ok (L k) h' c" "bm_set (L k) h' c \<subseteq> bm_set (L k) h (r k) \<union> N"
    and fresh: "N \<inter> forest_set L K h r = {}"
    and same: "\<forall>x \<in> forest_inner L K h r - bm_set (L k) h (r k). h' x = h x"
    and r': "\<forall>j < K. r' j = (if j = k then c else r j)"
  shows "forest_ok L K h' r'"
    and "\<And>j. j < K \<Longrightarrow> j \<noteq> k \<Longrightarrow> bm_set (L j) h' (r' j) = bm_set (L j) h (r j)"
    and "\<And>j off. j < K \<Longrightarrow> j \<noteq> k \<Longrightarrow> off < FANOUT ^ L j \<Longrightarrow>
      bm_lookup (L j) h' (r' j) off = bm_lookup (L j) h (r j) off"
    and "forest_set L K h' r' =
      (forest_set L K h r - bm_set (L k) h (r k)) \<union> bm_set (L k) h' c"
    and "\<And>j. j < K \<Longrightarrow> j \<noteq> k \<Longrightarrow> bm_inner (L j) h' (r' j) = bm_inner (L j) h (r j)"
    and "\<And>j. j < K \<Longrightarrow> j \<noteq> k \<Longrightarrow> bm_full (L j) h' (r' j) = bm_full (L j) h (r j)"
proof -
  have disj: "bm_set (L i) h (r i) \<inter> bm_set (L j) h (r j) = {}" if "i < K" "j < K" "i \<noteq> j" for i j
    using ok that by (simp add: forest_ok_def disjoint_trees_def)
  have eq: "h' x = h x" if "j < K" "j \<noteq> k" "x \<in> bm_inner (L j) h (r j)" for j x
  proof -
    have "x \<in> forest_inner L K h r" using that by (auto simp: forest_inner_def)
    moreover have "x \<notin> bm_set (L k) h (r k)"
      using disj[OF that(1) k that(2)] that(3) bm_inner_subset by blast
    ultimately show ?thesis using same by simp
  qed
  show set: "bm_set (L j) h' (r' j) = bm_set (L j) h (r j)" if "j < K" "j \<noteq> k" for j
    using bm_cong(1)[of "L j" h "r j" h'] eq[OF that] r' that by simp
  show "bm_inner (L j) h' (r' j) = bm_inner (L j) h (r j)" if "j < K" "j \<noteq> k" for j
    using bm_cong(2)[of "L j" h "r j" h'] eq[OF that] r' that by simp
  show "bm_full (L j) h' (r' j) = bm_full (L j) h (r j)" if "j < K" "j \<noteq> k" for j
    using bm_cong(5)[of "L j" h "r j" h'] eq[OF that] r' that by simp
  show "bm_lookup (L j) h' (r' j) off = bm_lookup (L j) h (r j) off"
    if "j < K" "j \<noteq> k" "off < FANOUT ^ L j" for j off
    using bm_cong(3)[of "L j" h "r j" h' off] eq[OF that(1,2)] r' that by simp
  have okj: "bm_ok (L j) h' (r' j)" if "j < K" for j
  proof (cases "j = k")
    case False
    have "bm_ok (L j) h (r j)" using ok that by (simp add: forest_ok_def)
    then show ?thesis using bm_cong(4)[of "L j" h "r j" h'] eq[OF that False] r' that False by simp
  qed (use new r' k in simp)
  have sub: "bm_set (L j) h' (r' j) \<subseteq> bm_set (L j) h (r j) \<union> (if j = k then N else {})" if "j < K" for j
    using set[OF that] new(2) r' that by (cases "j = k") auto
  have "bm_set (L i) h' (r' i) \<inter> bm_set (L j) h' (r' j) = {}" if "i < K" "j < K" "i \<noteq> j" for i j
  proof -
    have "bm_set (L i) h (r i) \<inter> N = {}" "bm_set (L j) h (r j) \<inter> N = {}"
      using fresh that by (auto simp: forest_set_def)
    then show ?thesis using sub[OF that(1)] sub[OF that(2)] disj[OF that] that(3)
      by (cases "i = k"; cases "j = k") (simp_all, blast+)
  qed
  then show "forest_ok L K h' r'" using okj by (simp add: forest_ok_def disjoint_trees_def)
  have "forest_set L K h' r' = (\<Union>j \<in> {..<K} - {k}. bm_set (L j) h' (r' j)) \<union> bm_set (L k) h' (r' k)"
    using k by (auto simp: forest_set_def)
  also have "(\<Union>j \<in> {..<K} - {k}. bm_set (L j) h' (r' j)) = (\<Union>j \<in> {..<K} - {k}. bm_set (L j) h (r j))"
    using set by simp
  also have "\<dots> = forest_set L K h r - bm_set (L k) h (r k)"
    using disj k by (auto simp: forest_set_def)
  finally show "forest_set L K h' r' =
      (forest_set L K h r - bm_set (L k) h (r k)) \<union> bm_set (L k) h' c"
    using r' k by simp
qed

text \<open>The same for a tree of level \<open>Suc i\<close>, seen through its root \<open>a\<close>.\<close>

lemma bm_update:
  assumes a: "a \<noteq> 0" and ok: "bm_ok (Suc i) h a" and k: "k < FANOUT"
    and new: "bm_ok i h' c" "bm_set i h' c \<subseteq> bm_set i h (kid h a k) \<union> N"
    and fresh: "N \<inter> bm_set (Suc i) h a = {}"
    and same: "\<forall>x \<in> bm_inner (Suc i) h a - {a} - bm_set i h (kid h a k). h' x = h x"
    and r': "\<forall>j < FANOUT. kid h' a j = (if j = k then c else kid h a j)"
  shows "bm_ok (Suc i) h' a"
    and "bm_set (Suc i) h' a = (bm_set (Suc i) h a - bm_set i h (kid h a k)) \<union> bm_set i h' c"
    and "\<And>off. off < FANOUT ^ Suc i \<Longrightarrow> bm_lookup (Suc i) h' a off =
      (if off div FANOUT ^ i = k then bm_lookup i h' c (off mod FANOUT ^ i) else bm_lookup (Suc i) h a off)"
    and "bm_inner (Suc i) h' a \<subseteq> bm_inner (Suc i) h a \<union> bm_inner i h' c"
    and "\<And>j. j < FANOUT \<Longrightarrow> j \<noteq> k \<Longrightarrow> bm_full i h' (kid h' a j) = bm_full i h (kid h a j)"
proof -
  have f: "forest_ok (\<lambda>_. i) FANOUT h (kid h a)" "a \<notin> forest_set (\<lambda>_. i) FANOUT h (kid h a)"
    using ok bm_ok_Suc[OF a] by auto
  have fr: "N \<inter> forest_set (\<lambda>_. i) FANOUT h (kid h a) = {}" "a \<notin> N"
    using fresh unfolding bm_set_Suc[OF a] by auto
  have sm: "\<forall>x \<in> forest_inner (\<lambda>_. i) FANOUT h (kid h a) - bm_set i h (kid h a k). h' x = h x"
    using same f(2) forest_inner_subset[of "\<lambda>_. i" FANOUT h "kid h a"]
    unfolding bm_inner_Suc[OF a] by blast
  have fs: "forest_set (\<lambda>_. i) FANOUT h' (kid h' a) =
      (forest_set (\<lambda>_. i) FANOUT h (kid h a) - bm_set i h (kid h a k)) \<union> bm_set i h' c"
    using forest_update(4)[where L = "\<lambda>_. i", OF f(1) k new fr(1) sm r'] .
  have ak: "a \<notin> bm_set i h (kid h a k)" using f(2) k by (auto simp: forest_set_def)
  have "a \<notin> forest_set (\<lambda>_. i) FANOUT h' (kid h' a)"
    unfolding fs using f(2) new(2) ak fr(2) by blast
  then show "bm_ok (Suc i) h' a"
    unfolding bm_ok_Suc[OF a] using forest_update(1)[where L = "\<lambda>_. i", OF f(1) k new fr(1) sm r'] by simp
  show "bm_set (Suc i) h' a = (bm_set (Suc i) h a - bm_set i h (kid h a k)) \<union> bm_set i h' c"
    unfolding bm_set_Suc[OF a] fs using ak by blast
  show "bm_full i h' (kid h' a j) = bm_full i h (kid h a j)" if "j < FANOUT" "j \<noteq> k" for j
    using forest_update(6)[where L = "\<lambda>_. i", OF f(1) k new fr(1) sm r' that] .
  show "bm_lookup (Suc i) h' a off = (if off div FANOUT ^ i = k then bm_lookup i h' c (off mod FANOUT ^ i)
      else bm_lookup (Suc i) h a off)" if "off < FANOUT ^ Suc i" for off
    using off_bounds[OF that] forest_update(3)[where L = "\<lambda>_. i", OF f(1) k new fr(1) sm r'] a r' by simp
  have "bm_inner i h' (kid h' a j) \<subseteq> bm_inner i h (kid h a j) \<union> bm_inner i h' c" if "j < FANOUT" for j
    using forest_update(5)[where L = "\<lambda>_. i", OF f(1) k new fr(1) sm r' that] r' that by (cases "j = k") auto
  then show "bm_inner (Suc i) h' a \<subseteq> bm_inner (Suc i) h a \<union> bm_inner i h' c"
    unfolding bm_inner_Suc[OF a] forest_inner_def by blast
qed

section \<open>Counting blocks\<close>

lemma finite_bm_set [simp]: "finite (bm_set lv h a)"
  by (induction lv arbitrary: a) auto

lemma card_forest_set:
  assumes "disjoint_trees L K h r"
  shows "card (forest_set L K h r) = (\<Sum>k < K. card (bm_set (L k) h (r k)))"
  unfolding forest_set_def using assms by (intro card_UN_disjoint) (auto simp: disjoint_trees_def)

lemma card_bm_set_Suc:
  assumes "a \<noteq> 0" "bm_ok (Suc i) h a"
  shows "card (bm_set (Suc i) h a) = Suc (\<Sum>k < FANOUT. card (bm_set i h (kid h a k)))"
proof -
  have f: "forest_ok (\<lambda>_. i) FANOUT h (kid h a)" "a \<notin> forest_set (\<lambda>_. i) FANOUT h (kid h a)"
    using assms bm_ok_Suc by blast+
  have "finite (forest_set (\<lambda>_. i) FANOUT h (kid h a))" by (simp add: forest_set_def)
  then have "card (bm_set (Suc i) h a) = Suc (card (forest_set (\<lambda>_. i) FANOUT h (kid h a)))"
    unfolding bm_set_Suc[OF assms(1)] using f(2) by simp
  then show ?thesis using card_forest_set[of "\<lambda>_. i" FANOUT h "kid h a"] f(1) by (simp only: forest_ok_def)
qed

text \<open>A tree without empty address blocks has no more blocks than one that has blocks wherever it has some.\<close>

lemma bm_card_le:
  assumes "bm_ok lv h a" "bm_full lv h a" "bm_ok lv g b"
    and "\<forall>off < FANOUT ^ lv. bm_lookup lv g b off = 0 \<longrightarrow> bm_lookup lv h a off = 0"
  shows "card (bm_set lv h a) \<le> card (bm_set lv g b)"
  using assms
proof (induction lv arbitrary: a b)
  case (Suc i)
  show ?case
  proof (cases "a = 0")
    case False
    have b: "b \<noteq> 0" using bm_full_lookup[OF Suc.prems(2) False] Suc.prems(4) by (intro notI) auto
    have "card (bm_set i h (kid h a k)) \<le> card (bm_set i g (kid g b k))" if k: "k < FANOUT" for k
    proof (rule Suc.IH)
      show "\<forall>off < FANOUT ^ i. bm_lookup i g (kid g b k) off = 0 \<longrightarrow> bm_lookup i h (kid h a k) off = 0"
      proof (intro allI impI)
        fix off assume o: "off < FANOUT ^ i" "bm_lookup i g (kid g b k) off = 0"
        have "k * FANOUT ^ i + off < FANOUT ^ Suc i" by (rule off_join[OF k o(1)])
        then show "bm_lookup i h (kid h a k) off = 0"
          using Suc.prems(4)[rule_format, of "k * FANOUT ^ i + off"] o False b by simp
      qed
    qed (use Suc.prems(1-3) False b k in simp_all)
    then show ?thesis unfolding card_bm_set_Suc[OF False Suc.prems(1)] card_bm_set_Suc[OF b Suc.prems(3)]
      by (intro Suc_leI le_imp_less_Suc sum_mono) simp
  qed simp
qed simp

lemma forest_card_le:
  assumes "forest_ok L K h r" "\<forall>k < K. bm_full (L k) h (r k)" "forest_ok L K g q"
    and "\<forall>k < K. \<forall>off < FANOUT ^ L k. bm_lookup (L k) g (q k) off = 0 \<longrightarrow> bm_lookup (L k) h (r k) off = 0"
  shows "card (forest_set L K h r) \<le> card (forest_set L K g q)"
proof -
  have "card (bm_set (L k) h (r k)) \<le> card (bm_set (L k) g (q k))" if "k < K" for k
    using assms that by (intro bm_card_le) (simp_all add: forest_ok_def)
  then show ?thesis using assms(1,3) by (simp add: card_forest_set forest_ok_def) (intro sum_mono, simp)
qed

end
