(* ===== verification/BlockMap.thy ===== *)
theory BlockMap
  imports Frames BlockTree
begin

text \<open>
  The block map of a file, \<open>src/layer2.c\<close>: \<open>get_nth_datablock\<close> and \<open>rm_nth_datablock\<close> walk from the
  ten direct pointers and the single, double and triple indirect pointers of an inode to the
  \<open>n\<close>-th block of the file.  A result \<open>None\<close> means that the C call does not return (\<open>data_free\<close> on a
  cyclic free list) or that it indexes an array with a negative number.
\<close>

section \<open>Operations\<close>

definition ADDRESSES_PER_BLOCK :: nat where
  "ADDRESSES_PER_BLOCK = BLOCK_SIZE div 4"

lemma ADDRESSES_PER_BLOCK_eq [c_consts]: "ADDRESSES_PER_BLOCK = 1024"
  by (simp add: ADDRESSES_PER_BLOCK_def c_consts)

definition intPow :: "int \<Rightarrow> int \<Rightarrow> int" where
  "intPow x y = fold (\<lambda>i sum. sum * x) [0..<nat y] 1"

text \<open>
  The case distinction on \<open>n\<close>: the number of indirect levels (0 for a direct pointer) and the
  offset below the pointer, \<open>None\<close> for a number beyond the triple indirect range.
\<close>

definition block_level :: "int \<Rightarrow> (nat \<times> int) option" where
  "block_level n =
    (let num_direct = int NUM_DIRECT;
         single_indirect = num_direct + int ADDRESSES_PER_BLOCK;
         double_indirect = single_indirect + int ADDRESSES_PER_BLOCK * int ADDRESSES_PER_BLOCK;
         triple_indirect = double_indirect +
           int ADDRESSES_PER_BLOCK * int ADDRESSES_PER_BLOCK * int ADDRESSES_PER_BLOCK
     in if n < num_direct then Some (0, n)
        else if n < single_indirect then Some (1, n - num_direct)
        else if n < double_indirect then Some (2, n - single_indirect)
        else if n < triple_indirect then Some (3, n - double_indirect)
        else None)"

text \<open>\<open>*from_pointer\<close>, read and written.\<close>

definition from_pointer :: "nat \<Rightarrow> int \<Rightarrow> inode \<Rightarrow> u32" where
  "from_pointer lv off ino =
    (if lv = 0 then i_direct_blocks ino ! nat off
     else if lv = 1 then i_indirect ino
     else if lv = 2 then i_double_indirect ino
     else i_triple_indirect ino)"

definition set_pointer :: "nat \<Rightarrow> int \<Rightarrow> u32 \<Rightarrow> inode \<Rightarrow> inode" where
  "set_pointer lv off x ino =
    (if lv = 0 then ino\<lparr>i_direct_blocks := (i_direct_blocks ino)[nat off := x]\<rparr>
     else if lv = 1 then ino\<lparr>i_indirect := x\<rparr>
     else if lv = 2 then ino\<lparr>i_double_indirect := x\<rparr>
     else ino\<lparr>i_triple_indirect := x\<rparr>)"

definition empty_block :: "byte list" where
  "empty_block = replicate BLOCK_SIZE 0"

text \<open>
  An \<open>address_block\<close> is a list of words.  The loop of \<open>get_nth_datablock\<close>, by recursion on the
  number of levels left; it returns the address, \<open>*created\<close> and the state.
\<close>

primrec get_nth_loop ::
    "nat \<Rightarrow> int \<Rightarrow> int \<Rightarrow> bool \<Rightarrow> bool \<Rightarrow> 'a layer1_scheme \<Rightarrow> int \<times> bool \<times> 'a layer1_scheme" where
  "get_nth_loop 0 offset next_addr create created s = (next_addr, created, s)"
| "get_nth_loop (Suc i) offset next_addr create created s =
    (if next_addr = 0 \<and> \<not> create then (0, created, s)
     else
       (let (ret, bytes) = data_read next_addr (Some (uninit BLOCK_SIZE s)) s in
        if ret \<noteq> SUCCESS then (ret, created, s)
        else
          (let b = words_of_bytes bytes;
               next_index = nat (offset div intPow (int ADDRESSES_PER_BLOCK) (int i));
               offset = offset mod intPow (int ADDRESSES_PER_BLOCK) (int i)
           in if b ! next_index = 0 \<and> create then
                (let (ret, new_block, s1) = data_allocate (Some empty_block) 0 s in
                 if ret \<noteq> SUCCESS then (ret, created, s1)
                 else
                   (let b = b[next_index := word_of_int new_block];
                        (ret, s2) = data_write next_addr (Some (bytes_of_words b)) s1
                    in if ret \<noteq> SUCCESS then (ret, created, s2)
                       else get_nth_loop i offset (sint (b ! next_index)) create True s2))
              else get_nth_loop i offset (sint (b ! next_index)) create created s)))"

definition get_nth_datablock ::
    "inode option \<Rightarrow> int \<Rightarrow> bool \<Rightarrow> bool \<Rightarrow> 'a layer1_scheme \<Rightarrow>
      (int \<times> inode \<times> bool \<times> 'a layer1_scheme) option" where
  "get_nth_datablock inod n create created s =
    (case inod of
       None \<Rightarrow> Some (BUF_NULL, uninit_inode s, created, s)
     | Some ino \<Rightarrow>
         if c_int n < 0 then None
         else case block_level (c_int n) of
           None \<Rightarrow> Some (INVALID_BLOCK, ino, created, s)
         | Some (lv, offset) \<Rightarrow>
             (let next_addr = sint (from_pointer lv offset ino) in
              if next_addr = 0 \<and> create then
                (let (ret, new_block, s1) = data_allocate (Some empty_block) 0 s in
                 if ret \<noteq> SUCCESS then Some (ret, ino, created, s1)
                 else
                   (let ino' = set_pointer lv offset (word_of_int new_block) ino;
                        (addr, cr, s2) = get_nth_loop lv offset new_block create True s1
                    in Some (addr, ino', cr, s2)))
              else
                (let (addr, cr, s1) = get_nth_loop lv offset next_addr create created s
                 in Some (addr, ino, cr, s1))))"

text \<open>
  The first loop of \<open>rm_nth_datablock\<close> reads the address blocks on the way down, up to the first
  zero pointer; the list of what it read, innermost first, holds \<open>block_addrs[j]\<close>, \<open>b[j]\<close> and
  \<open>next_index[j]\<close> from \<open>check_start\<close> on.
\<close>

type_synonym rm_entry = "int \<times> u32 list \<times> nat"

primrec rm_walk ::
    "nat \<Rightarrow> int \<Rightarrow> int \<Rightarrow> rm_entry list \<Rightarrow> 'a layer1_scheme \<Rightarrow> int + rm_entry list" where
  "rm_walk 0 offset next_addr acc s = Inr acc"
| "rm_walk (Suc j) offset next_addr acc s =
    (if next_addr = 0 then Inr acc
     else
       (let (ret, bytes) = data_read next_addr (Some (uninit BLOCK_SIZE s)) s in
        if ret \<noteq> SUCCESS then Inl ret
        else
          (let b = words_of_bytes bytes;
               next_index = nat (offset div intPow (int ADDRESSES_PER_BLOCK) (int j))
           in rm_walk j (offset mod intPow (int ADDRESSES_PER_BLOCK) (int j))
                (sint (b ! next_index)) ((next_addr, b, next_index) # acc) s)))"

text \<open>
  The second loop frees on the way up, as long as the address blocks become empty.  \<open>Some ret\<close> is a
  \<open>return\<close> from inside the loop.
\<close>

primrec rm_up ::
    "rm_entry list \<Rightarrow> 'a layer1_scheme \<Rightarrow> (int option \<times> 'a layer1_scheme) option" where
  "rm_up [] s = Some (None, s)"
| "rm_up (e # es) s =
    (let (block_addr, b, next_index) = e; next_addr = sint (b ! next_index) in
     if next_addr \<noteq> 0 then
       (case data_free next_addr s of
          None \<Rightarrow> None
        | Some (ret, s1) \<Rightarrow>
            if ret \<noteq> SUCCESS then Some (Some ret, s1)
            else
              (let b = b[next_index := 0];
                   (_, s2) = data_write block_addr (Some (bytes_of_words b)) s1
               in if bytes_of_words b \<noteq> empty_block then Some (Some SUCCESS, s2)
                  else rm_up es s2))
     else if bytes_of_words b \<noteq> empty_block then Some (Some SUCCESS, s)
     else rm_up es s)"

definition rm_nth_datablock ::
    "inode option \<Rightarrow> int \<Rightarrow> 'a layer1_scheme \<Rightarrow> (int \<times> inode \<times> 'a layer1_scheme) option" where
  "rm_nth_datablock inod n s =
    (case inod of
       None \<Rightarrow> Some (BUF_NULL, uninit_inode s, s)
     | Some ino \<Rightarrow>
         if c_int n < 0 then None
         else case block_level (c_int n) of
           None \<Rightarrow> Some (INVALID_BLOCK, ino, s)
         | Some (lv, offset) \<Rightarrow>
             (case rm_walk lv offset (sint (from_pointer lv offset ino)) [] s of
                Inl ret \<Rightarrow> Some (ret, ino, s)
              | Inr es \<Rightarrow>
                  (case rm_up es s of
                     None \<Rightarrow> None
                   | Some (Some ret, s1) \<Rightarrow> Some (ret, ino, s1)
                   | Some (None, s1) \<Rightarrow>
                       (let p = sint (from_pointer lv offset ino) in
                        if p \<noteq> 0 then
                          (case data_free p s1 of
                             None \<Rightarrow> None
                           | Some (ret, s2) \<Rightarrow>
                               if ret \<noteq> SUCCESS then Some (ret, ino, s2)
                               else Some (SUCCESS, set_pointer lv offset 0 ino, s2))
                        else Some (SUCCESS, ino, s1)))))"

section \<open>Address blocks of a disk\<close>

definition addr_words :: "'a layer1_scheme \<Rightarrow> heap" where
  "addr_words s a = words_of_bytes (data_blk s a)"

lemma FANOUT_eq: "ADDRESSES_PER_BLOCK = FANOUT"
  by (simp add: c_consts)

lemma intPow_eq: "intPow (int ADDRESSES_PER_BLOCK) (int i) = int (FANOUT ^ i)"
proof -
  have "fold (\<lambda>i sum. sum * x) [0..<i] 1 = x ^ i" for x :: int by (induction i) simp_all
  then show ?thesis by (simp add: intPow_def FANOUT_eq)
qed

lemma length_addr_words [simp]: "mounted s \<Longrightarrow> valid_data s a \<Longrightarrow> length (addr_words s a) = FANOUT"
  using is_block_data_blk[of s a] by (simp add: addr_words_def is_block_def c_consts)

lemma is_block_words [simp]: "length b = FANOUT \<Longrightarrow> is_block (bytes_of_words b)"
  by (simp add: is_block_def c_consts)

lemma is_block_empty [simp]: "is_block empty_block"
  by (simp add: is_block_def empty_block_def)

lemma bytes_zeros: "bytes_of_words (replicate n 0) = replicate (4 * n) 0"
proof (induction n)
  case (Suc n)
  have "le_bytes 0 = replicate 4 (0 :: byte)" by (simp add: le_bytes_def numeral_eq_Suc)
  then have "bytes_of_words (replicate (Suc n) 0) = replicate 4 0 @ replicate (4 * n) 0"
    using Suc by simp
  also have "\<dots> = replicate (4 * Suc n) 0" by (simp flip: replicate_add)
  finally show ?case .
qed simp

lemma empty_block_words: "empty_block = bytes_of_words (replicate FANOUT 0)"
  by (simp add: bytes_zeros empty_block_def c_consts)

lemma words_empty_block [simp]: "words_of_bytes empty_block = replicate FANOUT 0"
  unfolding empty_block_words by simp

lemma words_eq_empty: "bytes_of_words b = empty_block \<longleftrightarrow> b = replicate FANOUT 0"
  by (metis words_empty_block words_of_bytes_of_words empty_block_words)

lemma addr_words_put_data:
  "mounted s \<Longrightarrow> valid_data s a \<Longrightarrow> length b = FANOUT \<Longrightarrow>
    addr_words (put_data a (bytes_of_words b) s) x = (if x = a then b else addr_words s x)"
  by (simp add: addr_words_def data_blk_put_data)

lemma addr_words_frame: "fs_frame I B s t \<Longrightarrow> a \<notin> B \<Longrightarrow> addr_words t a = addr_words s a"
  by (simp add: addr_words_def fs_frameD(9))

text \<open>\<open>tree_ok s lv a\<close>: the tree below block \<open>a\<close> is well formed, its blocks exist and none is free.\<close>

definition tree_ok :: "'a layer1_scheme \<Rightarrow> nat \<Rightarrow> nat \<Rightarrow> bool" where
  "tree_ok s lv a \<longleftrightarrow> bm_ok lv (addr_words s) a \<and>
    bm_set lv (addr_words s) a \<subseteq> Collect (valid_data s) \<and> bm_set lv (addr_words s) a \<inter> free_data s = {}"

lemma tree_okD:
  assumes "tree_ok s lv a"
  shows "bm_ok lv (addr_words s) a" "b \<in> bm_set lv (addr_words s) a \<Longrightarrow> valid_data s b"
    "b \<in> bm_set lv (addr_words s) a \<Longrightarrow> b \<notin> free_data s"
    "a \<noteq> 0 \<Longrightarrow> valid_data s a" "a \<noteq> 0 \<Longrightarrow> a \<notin> free_data s"
proof -
  have "a \<noteq> 0 \<Longrightarrow> a \<in> bm_set lv (addr_words s) a" by (cases lv) auto
  then show "bm_ok lv (addr_words s) a" "b \<in> bm_set lv (addr_words s) a \<Longrightarrow> valid_data s b"
    "b \<in> bm_set lv (addr_words s) a \<Longrightarrow> b \<notin> free_data s"
    "a \<noteq> 0 \<Longrightarrow> valid_data s a" "a \<noteq> 0 \<Longrightarrow> a \<notin> free_data s"
    using assms by (auto simp: tree_ok_def)
qed

lemma tree_ok_0 [simp]: "tree_ok s lv 0"
  by (simp add: tree_ok_def)

lemma tree_ok_kid:
  assumes "tree_ok s (Suc i) a" "a \<noteq> 0" "k < FANOUT"
  shows "tree_ok s i (kid (addr_words s) a k)"
    and "bm_set i (addr_words s) (kid (addr_words s) a k) \<subseteq> bm_set (Suc i) (addr_words s) a"
    and "a \<notin> bm_set i (addr_words s) (kid (addr_words s) a k)"
    and "bm_inner i (addr_words s) (kid (addr_words s) a k) \<subseteq> bm_inner (Suc i) (addr_words s) a"
proof -
  show sub: "bm_set i (addr_words s) (kid (addr_words s) a k) \<subseteq> bm_set (Suc i) (addr_words s) a"
    using assms by auto
  show "tree_ok s i (kid (addr_words s) a k)"
    using assms sub unfolding tree_ok_def by (simp, blast)
  show "a \<notin> bm_set i (addr_words s) (kid (addr_words s) a k)"
    using assms unfolding tree_ok_def by simp
  show "bm_inner i (addr_words s) (kid (addr_words s) a k) \<subseteq> bm_inner (Suc i) (addr_words s) a"
    using assms by auto
qed

lemma put_data_free_inums:
  "mounted s \<Longrightarrow> valid_data s b \<Longrightarrow> is_block x \<Longrightarrow> free_inums (put_data b x s) = free_inums s"
  by (rule data_step_free_inums[OF data_step_put_data])

lemma sint_tree_addr:
  assumes "mounted s" "tree_ok s lv (unat w)"
  shows "sint (w :: u32) = int (unat w)"
proof (cases "unat w = 0")
  case True
  then show ?thesis by (simp add: unat_eq_zero)
next
  case False
  then show ?thesis using tree_okD(4)[OF assms(2)] sint_valid_data[OF assms(1)] by simp
qed

lemma unat_addr: "mounted s \<Longrightarrow> valid_data s b \<Longrightarrow> unat (word_of_int (int b) :: u32) = b"
  using valid_data_range(4)[of s b] unat_u32_of_nat[of b] by simp

lemma fresh_tree:
  assumes "valid_data s n" "n \<notin> free_data s" "data_blk s n = empty_block"
  shows "tree_ok s i n" "bm_set i (addr_words s) n = {n}"
    "o' < FANOUT ^ i \<Longrightarrow> bm_lookup i (addr_words s) n o' = (if i = 0 then n else 0)"
    "o' < FANOUT ^ i \<Longrightarrow> bm_fullx i (addr_words s) n o'"
proof -
  have n0: "n \<noteq> 0" using assms(1) by (auto simp: valid_data_def)
  have w: "addr_words s n = replicate FANOUT 0" using assms(3) by (simp add: addr_words_def)
  show st: "bm_set i (addr_words s) n = {n}" using n0 by (cases i) (auto simp: w)
  have "bm_ok i (addr_words s) n" using n0 by (cases i) (auto simp: w disjoint_trees_def)
  then show "tree_ok s i n" using assms st by (simp add: tree_ok_def)
  show "o' < FANOUT ^ i \<Longrightarrow> bm_lookup i (addr_words s) n o' = (if i = 0 then n else 0)"
    using n0 off_bounds by (cases i) (auto simp: w)
  show "o' < FANOUT ^ i \<Longrightarrow> bm_fullx i (addr_words s) n o'"
    using off_bounds by (cases i) (auto simp: w)
qed

section \<open>get_nth_datablock\<close>

text \<open>
  \<open>grow lv a off s t\<close>: from \<open>s\<close> to \<open>t\<close> blocks moved from the free list into the tree, and every
  lookup but that of \<open>off\<close> is as before.
\<close>

definition grow :: "nat \<Rightarrow> nat \<Rightarrow> nat \<Rightarrow> 'a layer1_scheme \<Rightarrow> 'a layer1_scheme \<Rightarrow> bool" where
  "grow lv a off s t \<longleftrightarrow> fs_frame {} (free_data s \<union> bm_inner lv (addr_words s) a) s t \<and>
    (bm_fullx lv (addr_words s) a off \<longrightarrow> bm_fullx lv (addr_words t) a off) \<and>
    free_data t \<subseteq> free_data s \<and> free_inums t = free_inums s \<and> tree_ok t lv a \<and>
    bm_set lv (addr_words t) a = bm_set lv (addr_words s) a \<union> (free_data s - free_data t) \<and>
    (\<forall>o'. o' < FANOUT ^ lv \<longrightarrow> o' \<noteq> off \<longrightarrow>
      bm_lookup lv (addr_words t) a o' = bm_lookup lv (addr_words s) a o')"

lemma grow_refl: "fs_ok s \<Longrightarrow> tree_ok s lv a \<Longrightarrow> grow lv a off s s"
  by (simp add: grow_def)

lemma grow_lift:
  assumes ok: "fs_ok s" and tree: "tree_ok s (Suc i) a" "a \<noteq> 0" and off: "off < FANOUT ^ Suc i"
    and k: "k = off div FANOUT ^ i" and c: "c = kid (addr_words s) a k"
    and frame: "fs_frame {} (free_data s \<union> insert a (bm_inner i (addr_words s) c)) s t"
    and aw: "addr_words t a = (addr_words s a)[k := w]"
    and free: "free_data t \<subseteq> free_data s" "free_inums t = free_inums s"
    and new: "tree_ok t i (unat w)"
      "bm_set i (addr_words t) (unat w) = bm_set i (addr_words s) c \<union> (free_data s - free_data t)"
    and same: "\<forall>o'. o' < FANOUT ^ i \<longrightarrow> o' \<noteq> off mod FANOUT ^ i \<longrightarrow>
      bm_lookup i (addr_words t) (unat w) o' = bm_lookup i (addr_words s) c o'"
    and full: "bm_fullx i (addr_words s) c (off mod FANOUT ^ i) \<longrightarrow>
      bm_fullx i (addr_words t) (unat w) (off mod FANOUT ^ i)"
  shows "grow (Suc i) a off s t"
    and "bm_lookup (Suc i) (addr_words t) a off = bm_lookup i (addr_words t) (unat w) (off mod FANOUT ^ i)"
proof -
  let ?h = "addr_words s" and ?h' = "addr_words t" and ?N = "free_data s - free_data t"
  note kb = off_bounds[OF off, folded k]
  have m: "mounted s" using ok by (rule fs_ok_mounted)
  have len: "length (?h a) = FANOUT" using m tree_okD(4)[OF tree] by simp
  have inA: "bm_set (Suc i) ?h a \<inter> free_data s = {}" using tree(1) by (simp add: tree_ok_def)
  have kid: "\<forall>j < FANOUT. kid ?h' a j = (if j = k then unat w else kid ?h a j)"
    using len by (simp add: aw nth_list_update)
  have eq: "\<forall>x \<in> bm_inner (Suc i) ?h a - {a} - bm_set i ?h (kid ?h a k). ?h' x = ?h x"
  proof (intro ballI addr_words_frame[OF frame])
    fix x assume x: "x \<in> bm_inner (Suc i) ?h a - {a} - bm_set i ?h (kid ?h a k)"
    then have "x \<notin> free_data s" using inA bm_inner_subset by blast
    moreover have "x \<notin> bm_inner i ?h c" using x bm_inner_subset c by blast
    ultimately show "x \<notin> free_data s \<union> insert a (bm_inner i ?h c)" using x by simp
  qed
  have okc: "bm_ok i ?h' (unat w)" using new(1) by (rule tree_okD(1))
  have sub: "bm_set i ?h' (unat w) \<subseteq> bm_set i ?h (kid ?h a k) \<union> ?N" using new(2) c by simp
  have fresh: "?N \<inter> bm_set (Suc i) ?h a = {}" using inA by blast
  note u = bm_update[OF tree(2) tree_okD(1)[OF tree(1)] conjunct1[OF kb] okc sub fresh eq kid]
  have in': "bm_set i ?h c \<subseteq> bm_set (Suc i) ?h a" using tree_ok_kid(2)[OF tree conjunct1[OF kb]] c by simp
  have set: "bm_set (Suc i) ?h' a = bm_set (Suc i) ?h a \<union> ?N"
    using u(2) new(2) in' unfolding c[symmetric] by blast
  have valid: "valid_data t x = valid_data s x" for x using fs_frameD(7)[OF frame] .
  have "bm_set (Suc i) ?h a \<subseteq> Collect (valid_data s)" using tree(1) unfolding tree_ok_def by blast
  then have "bm_set (Suc i) ?h a \<union> ?N \<subseteq> Collect (valid_data t)"
    unfolding valid using free_data_valid[OF ok] by blast
  moreover have "(bm_set (Suc i) ?h a \<union> ?N) \<inter> free_data t = {}" using inA free(1) by blast
  ultimately have "tree_ok t (Suc i) a" unfolding tree_ok_def set using u(1) by blast
  moreover have "fs_frame {} (free_data s \<union> bm_inner (Suc i) ?h a) s t"
    by (rule fs_frame_mono[OF frame])
      (use tree_ok_kid(4)[OF tree conjunct1[OF kb]] bm_inner_Suc[OF tree(2)] c in blast)+
  moreover have "bm_lookup (Suc i) ?h' a o' = bm_lookup (Suc i) ?h a o'" if "o' < FANOUT ^ Suc i" "o' \<noteq> off" for o'
  proof (cases "o' div FANOUT ^ i = k")
    case True
    then have "o' mod FANOUT ^ i \<noteq> off mod FANOUT ^ i" using that(2) k by (metis div_mult_mod_eq)
    then have "bm_lookup i ?h' (unat w) (o' mod FANOUT ^ i) = bm_lookup i ?h c (o' mod FANOUT ^ i)"
      using same off_bounds[OF that(1)] by simp
    then show ?thesis using u(3)[OF that(1)] True tree(2) c by simp
  next
    case False
    then show ?thesis using u(3)[OF that(1)] by simp
  qed
  moreover have "bm_fullx (Suc i) ?h a off \<longrightarrow> bm_fullx (Suc i) ?h' a off"
    using u(5) full kid kb tree(2) c k by simp
  ultimately show "grow (Suc i) a off s t" using set free unfolding grow_def by blast
  show "bm_lookup (Suc i) ?h' a off = bm_lookup i ?h' (unat w) (off mod FANOUT ^ i)"
    using u(3)[OF off] k by simp
qed

text \<open>What \<open>get_nth_loop\<close> returns: the block of the offset, old or new, or \<open>DATA_FULL\<close>.\<close>

definition get_result ::
    "nat \<Rightarrow> nat \<Rightarrow> nat \<Rightarrow> bool \<Rightarrow> 'a layer1_scheme \<Rightarrow> int \<times> bool \<times> 'a layer1_scheme \<Rightarrow> bool" where
  "get_result lv a off cr s r \<longleftrightarrow> (case r of (x, cr', t) \<Rightarrow>
    grow lv a off s t \<and>
    (let old = bm_lookup lv (addr_words s) a off; new = bm_lookup lv (addr_words t) a off in
      (old \<noteq> 0 \<and> x = int old \<and> t = s \<and> cr' = cr) \<or>
      (old = 0 \<and> new \<noteq> 0 \<and> x = int new \<and> cr' \<and> new \<in> free_data s \<and> data_blk t new = empty_block) \<or>
      (old = 0 \<and> new = 0 \<and> x = DATA_FULL \<and> free_data t = {})))"

lemma get_nth_loop_step:
  assumes m: "mounted s" and a: "valid_data s a" "tree_ok s (Suc i) a" and off: "off < FANOUT ^ Suc i"
  defines "k \<equiv> off div FANOUT ^ i" and "o' \<equiv> off mod FANOUT ^ i" and "b \<equiv> addr_words s a"
  shows "get_nth_loop (Suc i) (int off) (int a) True cr s =
    (if b ! k = 0 then
       (let (ret, new_block, s1) = data_allocate (Some empty_block) 0 s in
        if ret \<noteq> SUCCESS then (ret, cr, s1)
        else (let b' = b[k := word_of_int new_block];
                  (ret, s2) = data_write (int a) (Some (bytes_of_words b')) s1
              in if ret \<noteq> SUCCESS then (ret, cr, s2)
                 else get_nth_loop i (int o') (sint (b' ! k)) True True s2))
     else get_nth_loop i (int o') (int (unat (b ! k))) True cr s)"
proof -
  have a0: "a \<noteq> 0" using a(1) by (auto simp: valid_data_def)
  have k: "k < FANOUT" using off_bounds[OF off] by (simp add: k_def)
  have rd: "data_read (int a) (Some (uninit BLOCK_SIZE s)) s = (SUCCESS, data_blk s a)"
    using m a(1) by (intro data_read_ok) simp_all
  have d: "nat (int off div intPow (int ADDRESSES_PER_BLOCK) (int i)) = k"
    "int off mod intPow (int ADDRESSES_PER_BLOCK) (int i) = int o'"
    unfolding intPow_eq k_def o'_def zdiv_int[symmetric] zmod_int[symmetric] by (rule nat_int, rule refl)
  have "sint (b ! k) = int (unat (b ! k))"
    using sint_tree_addr[OF m tree_ok_kid(1)[OF a(2) a0 k]] by (simp add: b_def)
  moreover have w: "words_of_bytes (data_blk s a) = b" by (simp add: addr_words_def b_def)
  ultimately show ?thesis
    unfolding get_nth_loop.simps rd d Let_def prod.case w by simp
qed

lemma get_nth_loop_spec:
  assumes "fs_ok s" "tree_ok s lv a" "a \<noteq> 0" "off < FANOUT ^ lv"
  shows "get_result lv a off cr s (get_nth_loop lv (int off) (int a) True cr s)"
  using assms
proof (induction lv arbitrary: a off cr s)
  case 0
  then show ?case by (simp add: get_result_def grow_refl)
next
  case (Suc i)
  let ?k = "off div FANOUT ^ i" and ?o = "off mod FANOUT ^ i" and ?b = "addr_words s a"
  note kb = off_bounds[OF Suc.prems(4)]
  have m: "mounted s" using Suc.prems(1) by (rule fs_ok_mounted)
  have va: "valid_data s a" "a \<notin> free_data s" using tree_okD(4,5)[OF Suc.prems(2)] Suc.prems(3) by auto
  note step = get_nth_loop_step[OF m va(1) Suc.prems(2,4), of cr]
  have kid: "tree_ok s i (unat (?b ! ?k))" "a \<notin> bm_set i (addr_words s) (unat (?b ! ?k))"
    using tree_ok_kid(1,3)[OF Suc.prems(2,3) conjunct1[OF kb]] by simp_all
  have old: "bm_lookup (Suc i) (addr_words s) a off = bm_lookup i (addr_words s) (unat (?b ! ?k)) ?o"
    using Suc.prems(3) by simp
  show ?case
  proof (cases "?b ! ?k = 0")
    case False
    let ?c = "unat (?b ! ?k)"
    obtain x cr' t where r: "get_nth_loop i (int ?o) (int ?c) True cr s = (x, cr', t)" by (metis prod_cases3)
    have IH: "get_result i ?c ?o cr s (x, cr', t)"
      using Suc.IH[OF Suc.prems(1) kid(1) _ conjunct2[OF kb], of cr] False r by (simp add: unat_eq_zero)
    have g: "fs_frame {} (free_data s \<union> bm_inner i (addr_words s) ?c) s t" "free_data t \<subseteq> free_data s"
      "free_inums t = free_inums s" "tree_ok t i ?c"
      "bm_set i (addr_words t) ?c = bm_set i (addr_words s) ?c \<union> (free_data s - free_data t)"
      "\<forall>o'. o' < FANOUT ^ i \<longrightarrow> o' \<noteq> ?o \<longrightarrow>
        bm_lookup i (addr_words t) ?c o' = bm_lookup i (addr_words s) ?c o'"
      "bm_fullx i (addr_words s) ?c ?o \<longrightarrow> bm_fullx i (addr_words t) ?c ?o"
      using IH unfolding get_result_def grow_def by auto
    have "a \<notin> free_data s \<union> bm_inner i (addr_words s) ?c" using va(2) kid(2) bm_inner_subset by blast
    then have aw: "addr_words t a = ?b[?k := ?b ! ?k]" using addr_words_frame[OF g(1)] by simp
    have fr: "fs_frame {} (free_data s \<union> insert a (bm_inner i (addr_words s) ?c)) s t"
      by (rule fs_frame_mono[OF g(1)]) auto
    note l = grow_lift[OF Suc.prems(1-4) refl refl fr aw g(2,3,4,5,6,7)]
    have call: "get_nth_loop (Suc i) (int off) (int a) True cr s = (x, cr', t)" using step False r by simp
    show ?thesis
      using IH l(1) unfolding call get_result_def prod.case old l(2) by blast
  next
    case True
    consider "free_data s = {}" "data_allocate (Some empty_block) 0 s = (DATA_FULL, 0, s)"
      | n s1 where "data_allocate (Some empty_block) 0 s = (SUCCESS, int n, s1)" "n \<in> free_data s"
        "fs_frame {} (free_data s) s s1" "free_data s1 = free_data s - {n}"
        "data_blk s1 n = empty_block" "free_inums s1 = free_inums s"
      using data_allocate_frame[OF Suc.prems(1) is_block_empty, of 0] by blast
    then show ?thesis
    proof cases
      case 1
      then have "get_nth_loop (Suc i) (int off) (int a) True cr s = (DATA_FULL, cr, s)"
        using step True by simp
      then show ?thesis
        using 1(1) old True grow_refl[OF Suc.prems(1,2)] by (simp add: get_result_def)
    next
      case 2
      let ?b' = "?b[?k := word_of_int (int n)]"
      let ?s2 = "put_data a (bytes_of_words ?b') s1"
      have len: "length ?b' = FANOUT" using m va by simp
      have vn: "valid_data s n" "n \<noteq> a" "n \<noteq> 0"
        using free_data_valid[OF Suc.prems(1) 2(2)] va(2) 2(2) by (auto simp: valid_data_def)
      have v1: "valid_data s1 x = valid_data s x" for x using fs_frameD(7)[OF 2(3)] .
      have ok1: "fs_ok s1" "mounted s1" using fs_frameD[OF 2(3)] by simp_all
      have a1: "valid_data s1 a" "a \<notin> free_data s1" using va v1 2(4) by auto
      note pd = fs_frame_put_data[OF ok1(1) a1(1) is_block_words[OF len] a1(2)]
      have ok2: "fs_ok ?s2" using fs_frameD(1)[OF pd(1)] .
      have wr: "data_write (int a) (Some (bytes_of_words ?b')) s1 = (SUCCESS, ?s2)"
        using ok1(2) a1(1) is_block_words[OF len] by (rule data_write_ok)
      have un: "unat (word_of_int (int n) :: u32) = n" using unat_addr[OF m vn(1)] .
      have "sint (word_of_int (int n) :: u32) = int (unat (word_of_int (int n) :: u32))"
        by (rule sint_valid_data[OF m]) (simp only: un vn(1))
      then have sn: "sint (?b' ! ?k) = int n" unfolding un using len kb by simp
      have db: "data_blk ?s2 n = empty_block"
        using fs_frameD(9)[OF pd(1), of n] vn(2) 2(5) by simp
      have f2: "free_data ?s2 = free_data s - {n}" using pd(2) 2(4) by simp
      have n2: "valid_data ?s2 n" "n \<notin> free_data ?s2" using vn(1) v1 f2 by simp_all
      note ft = fresh_tree[OF n2 db]
      obtain x cr' t where r: "get_nth_loop i (int ?o) (int n) True True ?s2 = (x, cr', t)"
        by (metis prod_cases3)
      have IH: "get_result i n ?o True ?s2 (x, cr', t)"
        using Suc.IH[OF ok2 ft(1) vn(3) conjunct2[OF kb], of True] r by simp
      have g: "fs_frame {} (free_data ?s2 \<union> bm_inner i (addr_words ?s2) n) ?s2 t"
        "free_data t \<subseteq> free_data ?s2" "free_inums t = free_inums ?s2" "tree_ok t i n"
        "bm_set i (addr_words t) n = bm_set i (addr_words ?s2) n \<union> (free_data ?s2 - free_data t)"
        "\<forall>o'. o' < FANOUT ^ i \<longrightarrow> o' \<noteq> ?o \<longrightarrow>
          bm_lookup i (addr_words t) n o' = bm_lookup i (addr_words ?s2) n o'"
        "bm_fullx i (addr_words ?s2) n ?o \<longrightarrow> bm_fullx i (addr_words t) n ?o"
        using IH unfolding get_result_def grow_def by auto
      have inn: "bm_inner i (addr_words ?s2) n \<subseteq> {n}" using bm_inner_subset[of i "addr_words ?s2" n] ft(2) by simp
      have "a \<notin> free_data ?s2 \<union> bm_inner i (addr_words ?s2) n" using va(2) f2 inn vn(2) by auto
      then have aw: "addr_words t a = ?b'"
        using addr_words_frame[OF g(1)] addr_words_put_data[OF ok1(2) a1(1) len] by simp
      have z: "unat (?b ! ?k) = 0" using True by simp
      have fr12: "fs_frame {} (free_data s \<union> {a}) s ?s2" by (rule fs_frame_trans[OF 2(3) pd(1)]) auto
      have fr: "fs_frame {} (free_data s \<union> insert a (bm_inner i (addr_words s) (unat (?b ! ?k)))) s t"
        by (rule fs_frame_trans[OF fr12 g(1)]) (use f2 inn 2(2) z in auto)
      have free: "free_data t \<subseteq> free_data s" "free_inums t = free_inums s"
        using g(2,3) f2 2(6) put_data_free_inums[OF ok1(2) a1(1) is_block_words[OF len]] by auto
      have "n \<notin> free_data t" using g(2) f2 by auto
      then have set: "bm_set i (addr_words t) (unat (word_of_int (int n) :: u32)) =
          bm_set i (addr_words s) (unat (?b ! ?k)) \<union> (free_data s - free_data t)"
        unfolding un g(5) ft(2) f2 z using 2(2) by auto
      have same: "\<forall>o'. o' < FANOUT ^ i \<longrightarrow> o' \<noteq> ?o \<longrightarrow>
          bm_lookup i (addr_words t) (unat (word_of_int (int n) :: u32)) o' =
          bm_lookup i (addr_words s) (unat (?b ! ?k)) o'"
      proof (intro allI impI)
        fix o' assume o': "o' < FANOUT ^ i" "o' \<noteq> ?o"
        then have "i \<noteq> 0" by (cases i) auto
        then show "bm_lookup i (addr_words t) (unat (word_of_int (int n) :: u32)) o' =
            bm_lookup i (addr_words s) (unat (?b ! ?k)) o'"
          unfolding un using g(6) o' ft(3)[OF o'(1)] z by simp
      qed
      have tr: "tree_ok t i (unat (word_of_int (int n) :: u32))" unfolding un by (rule g(4))
      have full: "bm_fullx i (addr_words s) (unat (?b ! ?k)) ?o \<longrightarrow>
          bm_fullx i (addr_words t) (unat (word_of_int (int n) :: u32)) ?o"
        unfolding un using g(7) ft(4) kb by blast
      note l = grow_lift[OF Suc.prems(1-4) refl refl fr aw free tr set same full]
      have call: "get_nth_loop (Suc i) (int off) (int a) True cr s = (x, cr', t)"
        using step True 2(1) wr sn r by (simp add: Let_def)
      have l2: "bm_lookup (Suc i) (addr_words t) a off = bm_lookup i (addr_words t) n ?o"
        using l(2) un by simp
      have o0: "bm_lookup (Suc i) (addr_words s) a off = 0" unfolding old z by simp
      have o2: "bm_lookup i (addr_words ?s2) n ?o = (if i = 0 then n else 0)" using ft(3) kb by blast
      let ?new = "bm_lookup i (addr_words t) n ?o"
      have fs2: "free_data ?s2 \<subseteq> free_data s" using f2 by blast
      have "?new \<noteq> 0 \<and> x = int ?new \<and> cr' \<and> ?new \<in> free_data s \<and> data_blk t ?new = empty_block \<or>
          ?new = 0 \<and> x = DATA_FULL \<and> free_data t = {}"
      proof (cases "bm_lookup i (addr_words ?s2) n ?o = 0")
        case True
        then show ?thesis using IH fs2 unfolding get_result_def prod.case Let_def by blast
      next
        case False
        then have lo: "bm_lookup i (addr_words ?s2) n ?o = n" unfolding o2 by (simp split: if_splits)
        have "x = int n \<and> t = ?s2 \<and> cr' = True"
          using IH False unfolding get_result_def prod.case Let_def lo by blast
        then show ?thesis using lo vn(3) 2(2) db by simp
      qed
      then show ?thesis
        using l(1) unfolding call get_result_def prod.case Let_def l2 o0 by blast
    qed
  qed
qed

section \<open>The block map of an inode\<close>

text \<open>
  The thirteen pointers of an inode as a forest: ten direct ones (level 0), then the single, double
  and triple indirect one.  Block \<open>n\<close> of the file lies below pointer \<open>fslot n\<close> at offset \<open>foff n\<close>.
\<close>

definition NPTRS :: nat where [c_consts]: "NPTRS = 13"
definition MAX_FILE_BLOCKS :: nat where [c_consts]: "MAX_FILE_BLOCKS = 1074791434"

definition iptr :: "inode \<Rightarrow> nat \<Rightarrow> nat" where
  "iptr ino p = unat (if p < NUM_DIRECT then i_direct_blocks ino ! p
    else if p = 10 then i_indirect ino else if p = 11 then i_double_indirect ino
    else i_triple_indirect ino)"

definition ilvl :: "nat \<Rightarrow> nat" where
  "ilvl p = p - 9"

definition fslot :: "nat \<Rightarrow> nat" where
  "fslot n = (if n < 10 then n else if n < 1034 then 10 else if n < 1049610 then 11 else 12)"

definition foff :: "nat \<Rightarrow> nat" where
  "foff n = (if n < 10 then 0 else if n < 1034 then n - 10 else if n < 1049610 then n - 1034 else n - 1049610)"

definition file_map :: "'a layer1_scheme \<Rightarrow> inode \<Rightarrow> nat \<Rightarrow> nat" where
  "file_map s ino n = bm_lookup (ilvl (fslot n)) (addr_words s) (iptr ino (fslot n)) (foff n)"

definition file_set :: "'a layer1_scheme \<Rightarrow> inode \<Rightarrow> nat set" where
  "file_set s ino = forest_set ilvl NPTRS (addr_words s) (iptr ino)"

definition file_inner :: "'a layer1_scheme \<Rightarrow> inode \<Rightarrow> nat set" where
  "file_inner s ino = forest_inner ilvl NPTRS (addr_words s) (iptr ino)"

definition file_ok :: "'a layer1_scheme \<Rightarrow> inode \<Rightarrow> bool" where
  "file_ok s ino \<longleftrightarrow> inode_wf ino \<and> forest_ok ilvl NPTRS (addr_words s) (iptr ino) \<and>
    file_set s ino \<subseteq> Collect (valid_data s) \<and> file_set s ino \<inter> free_data s = {}"

text \<open>
  No address block of the file is empty; \<open>file_fullx n\<close> excepts the address blocks on the way to
  block \<open>n\<close>.
\<close>

definition file_full :: "'a layer1_scheme \<Rightarrow> inode \<Rightarrow> bool" where
  "file_full s ino \<longleftrightarrow> (\<forall>p < NPTRS. bm_full (ilvl p) (addr_words s) (iptr ino p))"

definition file_fullx :: "nat \<Rightarrow> 'a layer1_scheme \<Rightarrow> inode \<Rightarrow> bool" where
  "file_fullx n s ino \<longleftrightarrow>
    (\<forall>p < NPTRS. p \<noteq> fslot n \<longrightarrow> bm_full (ilvl p) (addr_words s) (iptr ino p)) \<and>
    bm_fullx (ilvl (fslot n)) (addr_words s) (iptr ino (fslot n)) (foff n)"

lemma fslot_bounds: "n < MAX_FILE_BLOCKS \<Longrightarrow> fslot n < NPTRS \<and> foff n < FANOUT ^ ilvl (fslot n)"
  by (auto simp: fslot_def foff_def ilvl_def c_consts)

lemma fslot_inj: "n \<noteq> m \<Longrightarrow> fslot n = fslot m \<Longrightarrow> foff n \<noteq> foff m"
  by (auto simp: fslot_def foff_def split: if_splits)

lemma block_level_eq:
  assumes "n < MAX_FILE_BLOCKS"
  shows "block_level (int n) = Some (ilvl (fslot n), int (if n < 10 then n else foff n))"
  using assms by (auto simp: block_level_def fslot_def foff_def ilvl_def c_consts Let_def)

lemma block_level_too_big: "MAX_FILE_BLOCKS \<le> n \<Longrightarrow> block_level (int n) = None"
  by (simp add: block_level_def Let_def c_consts)

lemma c_int_block: "n < MAX_FILE_BLOCKS \<Longrightarrow> c_int (int n) = int n"
  by (intro c_int_of_nat_id) (simp add: c_consts)

lemma from_pointer_eq:
  "unat (from_pointer (ilvl (fslot n)) (int (if n < 10 then n else foff n)) ino) = iptr ino (fslot n)"
  by (simp add: from_pointer_def iptr_def ilvl_def fslot_def c_consts)

lemma iptr_set_pointer:
  assumes "inode_wf ino" "p < NPTRS"
  shows "iptr (set_pointer (ilvl (fslot n)) (int (if n < 10 then n else foff n)) x ino) p =
    (if p = fslot n then unat x else iptr ino p)"
  using assms by (auto simp: iptr_def set_pointer_def ilvl_def fslot_def inode_wf_def c_consts nth_list_update)

lemma inode_wf_set_pointer [simp]: "inode_wf (set_pointer lv off x ino) = inode_wf ino"
  by (simp add: inode_wf_def set_pointer_def)

text \<open>The fields of an inode that are not block pointers.\<close>

definition same_meta :: "inode \<Rightarrow> inode \<Rightarrow> bool" where
  "same_meta i j \<longleftrightarrow> i_mode i = i_mode j \<and> i_links i = i_links j \<and> i_uid i = i_uid j \<and>
    i_gid i = i_gid j \<and> i_size i = i_size j \<and> i_access_time i = i_access_time j \<and>
    i_mod_time i = i_mod_time j"

lemma same_meta_simps [simp]:
  "same_meta i i" "same_meta i (set_pointer lv off x i)" "same_meta (set_pointer lv off x i) i"
  by (simp_all add: same_meta_def set_pointer_def)

lemma same_meta_trans: "same_meta i j \<Longrightarrow> same_meta j k \<Longrightarrow> same_meta i k"
  by (simp add: same_meta_def)

lemma file_okD:
  assumes "file_ok s ino"
  shows "inode_wf ino" "forest_ok ilvl NPTRS (addr_words s) (iptr ino)"
    "file_set s ino \<subseteq> Collect (valid_data s)" "file_set s ino \<inter> free_data s = {}"
    "p < NPTRS \<Longrightarrow> tree_ok s (ilvl p) (iptr ino p)"
proof -
  show "inode_wf ino" "forest_ok ilvl NPTRS (addr_words s) (iptr ino)"
    "file_set s ino \<subseteq> Collect (valid_data s)" "file_set s ino \<inter> free_data s = {}"
    using assms unfolding file_ok_def by blast+
  then show "p < NPTRS \<Longrightarrow> tree_ok s (ilvl p) (iptr ino p)"
    unfolding file_set_def forest_set_def forest_ok_def tree_ok_def by blast
qed

lemma file_inner_subset: "file_inner s ino \<subseteq> file_set s ino"
  unfolding file_inner_def file_set_def by (rule forest_inner_subset)

lemma file_map_in: "n < MAX_FILE_BLOCKS \<Longrightarrow> file_map s ino n \<noteq> 0 \<Longrightarrow> file_map s ino n \<in> file_set s ino"
  using bm_lookup_in[of "foff n" "ilvl (fslot n)"] fslot_bounds[of n]
  unfolding file_map_def file_set_def forest_set_def by blast

lemma file_full_fullx: "n < MAX_FILE_BLOCKS \<Longrightarrow> file_full s ino \<Longrightarrow> file_fullx n s ino"
  using bm_full_fullx fslot_bounds unfolding file_full_def file_fullx_def by blast

lemma file_fullx_fullI:
  "file_fullx n s ino \<Longrightarrow> bm_full (ilvl (fslot n)) (addr_words s) (iptr ino (fslot n)) \<Longrightarrow> file_full s ino"
  unfolding file_full_def file_fullx_def by metis

lemma file_fullx_full:
  "n < MAX_FILE_BLOCKS \<Longrightarrow> file_fullx n s ino \<Longrightarrow> file_map s ino n \<noteq> 0 \<Longrightarrow> file_full s ino"
  using bm_fullx_full fslot_bounds file_fullx_fullI unfolding file_fullx_def file_map_def by blast

lemma file_map_leaf:
  assumes "file_ok s ino" "n < MAX_FILE_BLOCKS" "file_map s ino n \<noteq> 0"
  shows "file_map s ino n \<notin> file_inner s ino" "valid_data s (file_map s ino n)"
    "file_map s ino n \<notin> free_data s"
proof -
  let ?p = "fslot n" and ?b = "file_map s ino n"
  note f = file_okD[OF assms(1)]
  note nb = fslot_bounds[OF assms(2)]
  have b: "?b \<in> bm_set (ilvl ?p) (addr_words s) (iptr ino ?p)"
    using bm_lookup_in nb assms(3) unfolding file_map_def by blast
  have "?b \<notin> bm_inner (ilvl ?p) (addr_words s) (iptr ino ?p)"
    using bm_leaf nb assms(3) tree_okD(1)[OF f(5)[OF conjunct1[OF nb]]] unfolding file_map_def by blast
  moreover have "?b \<notin> bm_inner (ilvl q) (addr_words s) (iptr ino q)" if "q < NPTRS" "q \<noteq> ?p" for q
    using that b nb f(2) bm_inner_subset[of "ilvl q" "addr_words s" "iptr ino q"]
    unfolding forest_ok_def disjoint_trees_def by blast
  ultimately show "?b \<notin> file_inner s ino" unfolding file_inner_def forest_inner_def by blast
  have "?b \<in> file_set s ino" using file_map_in assms by blast
  then show "valid_data s ?b" "?b \<notin> free_data s" using f by blast+
qed

lemma file_map_inj:
  assumes "file_ok s ino" "n < MAX_FILE_BLOCKS" "m < MAX_FILE_BLOCKS" "n \<noteq> m" "file_map s ino n \<noteq> 0"
  shows "file_map s ino n \<noteq> file_map s ino m"
proof (cases "fslot n = fslot m")
  case True
  note nb = fslot_bounds[OF assms(2)] and mb = fslot_bounds[OF assms(3)]
  have "bm_ok (ilvl (fslot n)) (addr_words s) (iptr ino (fslot n))"
    using tree_okD(1)[OF file_okD(5)[OF assms(1) conjunct1[OF nb]]] .
  moreover have "foff n \<noteq> foff m" using fslot_inj[OF assms(4) True] .
  ultimately show ?thesis
    using bm_lookup_inj nb mb True assms(5) unfolding file_map_def by metis
next
  case False
  note nb = fslot_bounds[OF assms(2)] and mb = fslot_bounds[OF assms(3)]
  have "bm_set (ilvl (fslot n)) (addr_words s) (iptr ino (fslot n)) \<inter>
      bm_set (ilvl (fslot m)) (addr_words s) (iptr ino (fslot m)) = {}"
    using file_okD(2)[OF assms(1)] nb mb False unfolding forest_ok_def disjoint_trees_def by blast
  moreover have "file_map s ino n \<in> bm_set (ilvl (fslot n)) (addr_words s) (iptr ino (fslot n))"
    using bm_lookup_in nb assms(5) unfolding file_map_def by blast
  moreover have "file_map s ino m \<noteq> 0 \<Longrightarrow>
      file_map s ino m \<in> bm_set (ilvl (fslot m)) (addr_words s) (iptr ino (fslot m))"
    using bm_lookup_in mb unfolding file_map_def by blast
  ultimately show ?thesis using assms(5) by (metis disjoint_iff)
qed

text \<open>
  \<open>file_grow n s ino t ino'\<close>: blocks moved from the free list into the file, and every block of the
  file but the \<open>n\<close>-th is where it was.
\<close>

definition file_grow ::
    "nat \<Rightarrow> 'a layer1_scheme \<Rightarrow> inode \<Rightarrow> 'a layer1_scheme \<Rightarrow> inode \<Rightarrow> bool" where
  "file_grow n s ino t ino' \<longleftrightarrow> fs_frame {} (free_data s \<union> file_inner s ino) s t \<and>
    (file_fullx n s ino \<longrightarrow> file_fullx n t ino') \<and>
    (\<forall>p < NPTRS. iptr ino p \<noteq> 0 \<longrightarrow> iptr ino' p = iptr ino p) \<and>
    free_data t \<subseteq> free_data s \<and> free_inums t = free_inums s \<and> file_ok t ino' \<and> same_meta ino ino' \<and>
    file_set t ino' = file_set s ino \<union> (free_data s - free_data t) \<and>
    (\<forall>m. m < MAX_FILE_BLOCKS \<longrightarrow> m \<noteq> n \<longrightarrow> file_map t ino' m = file_map s ino m)"

lemma file_grow_refl: "fs_ok s \<Longrightarrow> file_ok s ino \<Longrightarrow> file_grow n s ino s ino"
  by (simp add: file_grow_def)

lemma file_lift:
  assumes ok: "fs_ok s" and fok: "file_ok s ino" and n: "n < MAX_FILE_BLOCKS"
    and frame: "fs_frame {} (free_data s \<union> bm_inner (ilvl (fslot n)) (addr_words s) (iptr ino (fslot n))) s t"
    and free: "free_data t \<subseteq> free_data s" "free_inums t = free_inums s"
    and ptr: "\<forall>p < NPTRS. iptr ino' p = (if p = fslot n then c else iptr ino p)"
    and meta: "inode_wf ino'" "same_meta ino ino'"
    and new: "tree_ok t (ilvl (fslot n)) c" "bm_set (ilvl (fslot n)) (addr_words t) c =
      bm_set (ilvl (fslot n)) (addr_words s) (iptr ino (fslot n)) \<union> (free_data s - free_data t)"
    and same: "\<forall>o'. o' < FANOUT ^ ilvl (fslot n) \<longrightarrow> o' \<noteq> foff n \<longrightarrow>
      bm_lookup (ilvl (fslot n)) (addr_words t) c o' =
      bm_lookup (ilvl (fslot n)) (addr_words s) (iptr ino (fslot n)) o'"
    and full: "bm_fullx (ilvl (fslot n)) (addr_words s) (iptr ino (fslot n)) (foff n) \<longrightarrow>
      bm_fullx (ilvl (fslot n)) (addr_words t) c (foff n)"
    and keep: "iptr ino (fslot n) \<noteq> 0 \<longrightarrow> c = iptr ino (fslot n)"
  shows "file_grow n s ino t ino'" and "file_map t ino' n = bm_lookup (ilvl (fslot n)) (addr_words t) c (foff n)"
proof -
  let ?p = "fslot n" and ?h = "addr_words s" and ?h' = "addr_words t" and ?N = "free_data s - free_data t"
  note f = file_okD[OF fok] and nb = fslot_bounds[OF n]
  have eq: "\<forall>x \<in> forest_inner ilvl NPTRS ?h (iptr ino) - bm_set (ilvl ?p) ?h (iptr ino ?p). ?h' x = ?h x"
  proof (intro ballI addr_words_frame[OF frame])
    fix x assume x: "x \<in> forest_inner ilvl NPTRS ?h (iptr ino) - bm_set (ilvl ?p) ?h (iptr ino ?p)"
    then have "x \<notin> free_data s" using f(4) forest_inner_subset unfolding file_set_def by blast
    then show "x \<notin> free_data s \<union> bm_inner (ilvl ?p) ?h (iptr ino ?p)"
      using x bm_inner_subset by blast
  qed
  have fresh: "?N \<inter> forest_set ilvl NPTRS ?h (iptr ino) = {}"
    using f(4) unfolding file_set_def by blast
  have sub: "bm_set (ilvl ?p) ?h' c \<subseteq> bm_set (ilvl ?p) ?h (iptr ino ?p) \<union> ?N" using new(2) by simp
  note u = forest_update[OF f(2) conjunct1[OF nb] tree_okD(1)[OF new(1)] sub fresh eq ptr]
  have "bm_set (ilvl ?p) ?h (iptr ino ?p) \<subseteq> forest_set ilvl NPTRS ?h (iptr ino)"
    using nb unfolding forest_set_def by blast
  then have set: "file_set t ino' = file_set s ino \<union> ?N"
    using u(4) new(2) unfolding file_set_def by blast
  have valid: "valid_data t x = valid_data s x" for x using fs_frameD(7)[OF frame] .
  have "file_set t ino' \<subseteq> Collect (valid_data t)"
    unfolding set valid using f(3) free_data_valid[OF ok] by blast
  moreover have "file_set t ino' \<inter> free_data t = {}" unfolding set using f(4) free(1) by blast
  ultimately have "file_ok t ino'" using meta(1) u(1) unfolding file_ok_def by blast
  moreover have "fs_frame {} (free_data s \<union> file_inner s ino) s t"
    using nb by (intro fs_frame_mono[OF frame]) (auto simp: file_inner_def forest_inner_def)
  moreover have "file_map t ino' m = file_map s ino m" if m: "m < MAX_FILE_BLOCKS" "m \<noteq> n" for m
  proof (cases "fslot m = ?p")
    case True
    then have "foff m \<noteq> foff n" using fslot_inj m(2) by blast
    then show ?thesis
      using same fslot_bounds[OF m(1)] True ptr nb unfolding file_map_def by simp
  next
    case False
    then show ?thesis using u(3) fslot_bounds[OF m(1)] unfolding file_map_def by blast
  qed
  moreover have "file_fullx n s ino \<longrightarrow> file_fullx n t ino'"
    using u(6) full ptr nb unfolding file_fullx_def by simp
  moreover have "\<forall>p < NPTRS. iptr ino p \<noteq> 0 \<longrightarrow> iptr ino' p = iptr ino p" using keep ptr by simp
  ultimately show "file_grow n s ino t ino'" using set free meta(2) unfolding file_grow_def by blast
  show "file_map t ino' n = bm_lookup (ilvl (fslot n)) (addr_words t) c (foff n)"
    using ptr nb unfolding file_map_def by simp
qed

text \<open>What \<open>get_nth_datablock\<close> with \<open>create\<close> does to a well-formed file.\<close>

definition got_block ::
    "nat \<Rightarrow> 'a layer1_scheme \<Rightarrow> inode \<Rightarrow> bool \<Rightarrow> 'a layer1_scheme \<Rightarrow> inode \<Rightarrow> bool \<Rightarrow> int \<Rightarrow> bool" where
  "got_block n s ino cr t ino' cr' x \<longleftrightarrow> file_grow n s ino t ino' \<and>
    (let old = file_map s ino n; new = file_map t ino' n in
      (old \<noteq> 0 \<and> x = int old \<and> t = s \<and> ino' = ino \<and> cr' = cr) \<or>
      (old = 0 \<and> new \<noteq> 0 \<and> x = int new \<and> cr' \<and> new \<in> free_data s \<and> data_blk t new = empty_block) \<or>
      (old = 0 \<and> new = 0 \<and> x = DATA_FULL \<and> free_data t = {}))"

lemma get_nth_loop_0: "get_nth_loop 0 offset next_addr create created s = (next_addr, created, s)"
  by simp

lemma get_nth_loop_offset:
  "get_nth_loop (ilvl (fslot n)) (int (if n < 10 then n else foff n)) x create created s =
    get_nth_loop (ilvl (fslot n)) (int (foff n)) x create created s"
  by (simp add: ilvl_def fslot_def)

lemma get_nth_datablock_create:
  assumes ok: "fs_ok s" and fok: "file_ok s ino" and n: "n < MAX_FILE_BLOCKS"
  shows "\<exists>x ino' cr' t. get_nth_datablock (Some ino) (int n) True cr s = Some (x, ino', cr', t) \<and>
    got_block n s ino cr t ino' cr' x"
proof -
  let ?p = "fslot n" and ?off = "int (if n < 10 then n else foff n)" and ?a = "iptr ino (fslot n)"
  note f = file_okD[OF fok] and nb = fslot_bounds[OF n]
  have m: "mounted s" using ok by (rule fs_ok_mounted)
  have tree: "tree_ok s (ilvl ?p) ?a" using f(5) nb by blast
  have ptr: "sint (from_pointer (ilvl ?p) ?off ino) = int ?a"
    using sint_tree_addr[OF m, of "ilvl ?p" "from_pointer (ilvl ?p) ?off ino"] tree
    unfolding from_pointer_eq by simp
  have call: "get_nth_datablock (Some ino) (int n) True cr s =
      (if ?a = 0 then
         (let (ret, new_block, s1) = data_allocate (Some empty_block) 0 s in
          if ret \<noteq> SUCCESS then Some (ret, ino, cr, s1)
          else (let (addr, cr', s2) = get_nth_loop (ilvl ?p) (int (foff n)) new_block True True s1
                in Some (addr, set_pointer (ilvl ?p) ?off (word_of_int new_block) ino, cr', s2)))
       else (let (addr, cr', s1) = get_nth_loop (ilvl ?p) (int (foff n)) (int ?a) True cr s
             in Some (addr, ino, cr', s1)))"
    unfolding get_nth_datablock_def option.case c_int_block[OF n] block_level_eq[OF n] prod.case
      Let_def ptr get_nth_loop_offset by simp
  show ?thesis
  proof (cases "?a = 0")
    case False
    obtain x cr' t where r: "get_nth_loop (ilvl ?p) (int (foff n)) (int ?a) True cr s = (x, cr', t)"
      by (metis prod_cases3)
    have R: "get_result (ilvl ?p) ?a (foff n) cr s (x, cr', t)"
      using get_nth_loop_spec[OF ok tree False conjunct2[OF nb], of cr] r by simp
    have g: "fs_frame {} (free_data s \<union> bm_inner (ilvl ?p) (addr_words s) ?a) s t"
      "free_data t \<subseteq> free_data s" "free_inums t = free_inums s" "tree_ok t (ilvl ?p) ?a"
      "bm_set (ilvl ?p) (addr_words t) ?a = bm_set (ilvl ?p) (addr_words s) ?a \<union> (free_data s - free_data t)"
      "\<forall>o'. o' < FANOUT ^ ilvl ?p \<longrightarrow> o' \<noteq> foff n \<longrightarrow>
        bm_lookup (ilvl ?p) (addr_words t) ?a o' = bm_lookup (ilvl ?p) (addr_words s) ?a o'"
      "bm_fullx (ilvl ?p) (addr_words s) ?a (foff n) \<longrightarrow> bm_fullx (ilvl ?p) (addr_words t) ?a (foff n)"
      using R unfolding get_result_def grow_def by auto
    have ptrs: "\<forall>p < NPTRS. iptr ino p = (if p = ?p then ?a else iptr ino p)" by simp
    have same_root: "?a \<noteq> 0 \<longrightarrow> ?a = ?a" by simp
    note l = file_lift[OF ok fok n g(1,2,3) ptrs f(1) same_meta_simps(1) g(4,5,6,7) same_root]
    have "got_block n s ino cr t ino cr' x"
      using R l(1) unfolding get_result_def got_block_def prod.case file_map_def[of s] l(2) Let_def by blast
    then show ?thesis using call False r by (intro exI[of _ x] exI[of _ ino] exI[of _ cr'] exI[of _ t]) simp
  next
    case True
    consider "free_data s = {}" "data_allocate (Some empty_block) 0 s = (DATA_FULL, 0, s)"
      | k s1 where "data_allocate (Some empty_block) 0 s = (SUCCESS, int k, s1)" "k \<in> free_data s"
        "fs_frame {} (free_data s) s s1" "free_data s1 = free_data s - {k}"
        "data_blk s1 k = empty_block" "free_inums s1 = free_inums s"
      using data_allocate_frame[OF ok is_block_empty, of 0] by blast
    then show ?thesis
    proof cases
      case 1
      have "file_map s ino n = 0" using True by (simp add: file_map_def)
      then have "got_block n s ino cr s ino cr DATA_FULL"
        using 1(1) file_grow_refl[OF ok fok] by (simp add: got_block_def)
      then show ?thesis using call True 1(2)
        by (intro exI[of _ DATA_FULL] exI[of _ ino] exI[of _ cr] exI[of _ s]) simp
    next
      case 2
      let ?ino = "set_pointer (ilvl ?p) ?off (word_of_int (int k)) ino"
      have vk: "valid_data s k" "k \<noteq> 0" using free_data_valid[OF ok 2(2)] by (auto simp: valid_data_def)
      have v1: "valid_data s1 x = valid_data s x" for x using fs_frameD(7)[OF 2(3)] .
      have ok1: "fs_ok s1" using fs_frameD[OF 2(3)] by simp
      have k1: "valid_data s1 k" "k \<notin> free_data s1" using vk v1 2(4) by auto
      note ft = fresh_tree[OF k1 2(5)]
      obtain x cr' t where r: "get_nth_loop (ilvl ?p) (int (foff n)) (int k) True True s1 = (x, cr', t)"
        by (metis prod_cases3)
      have R: "get_result (ilvl ?p) k (foff n) True s1 (x, cr', t)"
        using get_nth_loop_spec[OF ok1 ft(1) vk(2) conjunct2[OF nb], of True] r by simp
      have g: "fs_frame {} (free_data s1 \<union> bm_inner (ilvl ?p) (addr_words s1) k) s1 t"
        "free_data t \<subseteq> free_data s1" "free_inums t = free_inums s1" "tree_ok t (ilvl ?p) k"
        "bm_set (ilvl ?p) (addr_words t) k = bm_set (ilvl ?p) (addr_words s1) k \<union> (free_data s1 - free_data t)"
        "\<forall>o'. o' < FANOUT ^ ilvl ?p \<longrightarrow> o' \<noteq> foff n \<longrightarrow>
          bm_lookup (ilvl ?p) (addr_words t) k o' = bm_lookup (ilvl ?p) (addr_words s1) k o'"
        "bm_fullx (ilvl ?p) (addr_words s1) k (foff n) \<longrightarrow> bm_fullx (ilvl ?p) (addr_words t) k (foff n)"
        using R unfolding get_result_def grow_def by auto
      have inn: "bm_inner (ilvl ?p) (addr_words s1) k \<subseteq> {k}"
        using bm_inner_subset[of "ilvl ?p" "addr_words s1" k] ft(2) by simp
      have un: "unat (word_of_int (int k) :: u32) = k" using unat_addr[OF m vk(1)] .
      have ptrs: "\<forall>p < NPTRS. iptr ?ino p = (if p = ?p then k else iptr ino p)"
        using iptr_set_pointer[OF f(1)] un by simp
      have fr: "fs_frame {} (free_data s \<union> bm_inner (ilvl ?p) (addr_words s) ?a) s t"
        by (rule fs_frame_trans[OF 2(3) g(1)]) (use 2(2,4) inn in auto)
      have free: "free_data t \<subseteq> free_data s" "free_inums t = free_inums s" using g(2,3) 2(4,6) by auto
      have "k \<notin> free_data t" using g(2) k1(2) by blast
      then have set: "bm_set (ilvl ?p) (addr_words t) k =
          bm_set (ilvl ?p) (addr_words s) ?a \<union> (free_data s - free_data t)"
        unfolding g(5) ft(2) 2(4) True using 2(2) by auto
      have same: "\<forall>o'. o' < FANOUT ^ ilvl ?p \<longrightarrow> o' \<noteq> foff n \<longrightarrow>
          bm_lookup (ilvl ?p) (addr_words t) k o' = bm_lookup (ilvl ?p) (addr_words s) ?a o'"
      proof (intro allI impI)
        fix o' assume o': "o' < FANOUT ^ ilvl ?p" "o' \<noteq> foff n"
        then have "ilvl ?p \<noteq> 0" using nb by (cases "ilvl ?p") auto
        then show "bm_lookup (ilvl ?p) (addr_words t) k o' = bm_lookup (ilvl ?p) (addr_words s) ?a o'"
          using g(6) o' ft(3)[OF o'(1)] True by simp
      qed
      have wf: "inode_wf ?ino" using f(1) by simp
      have full: "bm_fullx (ilvl ?p) (addr_words s) ?a (foff n) \<longrightarrow>
          bm_fullx (ilvl ?p) (addr_words t) k (foff n)" using g(7) ft(4) nb by blast
      have keep: "?a \<noteq> 0 \<longrightarrow> k = ?a" using True by simp
      note l = file_lift[OF ok fok n fr free ptrs wf same_meta_simps(2) g(4) set same full keep]
      have o0: "file_map s ino n = 0" using True by (simp add: file_map_def)
      let ?new = "bm_lookup (ilvl ?p) (addr_words t) k (foff n)"
      have o2: "bm_lookup (ilvl ?p) (addr_words s1) k (foff n) = (if ilvl ?p = 0 then k else 0)"
        using ft(3) nb by blast
      have fs1: "free_data s1 \<subseteq> free_data s" using 2(4) by blast
      have "?new \<noteq> 0 \<and> x = int ?new \<and> cr' \<and> ?new \<in> free_data s \<and> data_blk t ?new = empty_block \<or>
          ?new = 0 \<and> x = DATA_FULL \<and> free_data t = {}"
      proof (cases "bm_lookup (ilvl ?p) (addr_words s1) k (foff n) = 0")
        case True
        then show ?thesis using R fs1 unfolding get_result_def prod.case Let_def by blast
      next
        case False
        then have lo: "bm_lookup (ilvl ?p) (addr_words s1) k (foff n) = k"
          unfolding o2 by (simp split: if_splits)
        have "x = int k \<and> t = s1 \<and> cr' = True"
          using R False unfolding get_result_def prod.case Let_def lo by blast
        then show ?thesis using lo vk(2) 2(2,5) by simp
      qed
      then have "got_block n s ino cr t ?ino cr' x"
        using l(1) unfolding got_block_def l(2) o0 Let_def by blast
      then show ?thesis using call True 2(1) r
        by (intro exI[of _ x] exI[of _ ?ino] exI[of _ cr'] exI[of _ t]) simp
    qed
  qed
qed

text \<open>A direct block needs one free block.\<close>

lemma get_nth_datablock_direct:
  assumes ok: "fs_ok s" and fok: "file_ok s ino" and n: "n < 10" and free: "free_data s \<noteq> {}"
  shows "\<exists>x ino' cr' t. get_nth_datablock (Some ino) (int n) True cr s = Some (x, ino', cr', t) \<and>
    got_block n s ino cr t ino' cr' x \<and> x = int (file_map t ino' n) \<and> file_map t ino' n \<noteq> 0"
proof -
  have nm: "n < MAX_FILE_BLOCKS" using n by (simp add: c_consts)
  have lv: "ilvl (fslot n) = 0" using n by (simp add: ilvl_def fslot_def)
  obtain x ino' cr' t where r: "get_nth_datablock (Some ino) (int n) True cr s = Some (x, ino', cr', t)"
    "got_block n s ino cr t ino' cr' x" using get_nth_datablock_create[OF ok fok nm] by blast
  obtain k s1 where al: "data_allocate (Some empty_block) 0 s = (SUCCESS, int k, s1)"
    using data_allocate_frame[OF ok is_block_empty, of 0] free by blast
  have tree: "tree_ok s 0 (iptr ino (fslot n))"
    using file_okD(5)[OF fok, of "fslot n"] fslot_bounds[OF nm] lv by simp
  have pe: "unat (from_pointer 0 (int n) ino) = iptr ino (fslot n)" using from_pointer_eq[of n ino] lv n by simp
  then have ptr: "sint (from_pointer 0 (int n) ino) = int (iptr ino (fslot n))"
    using sint_tree_addr[OF fs_ok_mounted[OF ok], of 0 "from_pointer 0 (int n) ino"] tree by (simp only: pe)
  have "0 \<le> x"
    using r(1) n al ptr block_level_eq[OF nm] lv
    by (auto simp: get_nth_datablock_def c_int_block[OF nm] split: if_splits)
  then show ?thesis using r unfolding got_block_def Let_def by auto
qed

text \<open>Without \<open>create\<close> nothing changes and the result is the block's address, 0 for a hole.\<close>

lemma get_nth_loop_read:
  assumes "mounted s" "tree_ok s lv a" "off < FANOUT ^ lv"
  shows "get_nth_loop lv (int off) (int a) False cr s = (int (bm_lookup lv (addr_words s) a off), cr, s)"
  using assms(2,3)
proof (induction lv arbitrary: a off)
  case (Suc i)
  show ?case
  proof (cases "a = 0")
    case False
    let ?k = "off div FANOUT ^ i" and ?o = "off mod FANOUT ^ i"
    note kb = off_bounds[OF Suc.prems(2)]
    note kid = tree_ok_kid(1)[OF Suc.prems(1) False conjunct1[OF kb]]
    have rd: "data_read (int a) (Some (uninit BLOCK_SIZE s)) s = (SUCCESS, data_blk s a)"
      using assms(1) tree_okD(4)[OF Suc.prems(1) False] by (intro data_read_ok) simp_all
    have d: "nat (int off div intPow (int ADDRESSES_PER_BLOCK) (int i)) = ?k"
      "int off mod intPow (int ADDRESSES_PER_BLOCK) (int i) = int ?o"
      unfolding intPow_eq zdiv_int[symmetric] zmod_int[symmetric] by (rule nat_int, rule refl)
    have w: "words_of_bytes (data_blk s a) = addr_words s a" by (simp add: addr_words_def)
    have "sint (addr_words s a ! ?k) = int (kid (addr_words s) a ?k)"
      using sint_tree_addr[OF assms(1) kid] .
    then show ?thesis
      using False Suc.IH[OF kid conjunct2[OF kb]]
      unfolding get_nth_loop.simps rd d Let_def prod.case w by simp
  qed simp
qed simp

lemma get_nth_datablock_read:
  assumes "mounted s" "file_ok s ino" "n < MAX_FILE_BLOCKS"
  shows "get_nth_datablock (Some ino) (int n) False cr s = Some (int (file_map s ino n), ino, cr, s)"
proof -
  let ?p = "fslot n" and ?off = "int (if n < 10 then n else foff n)"
  note nb = fslot_bounds[OF assms(3)]
  have tree: "tree_ok s (ilvl ?p) (iptr ino ?p)" using file_okD(5)[OF assms(2)] nb by blast
  have ptr: "sint (from_pointer (ilvl ?p) ?off ino) = int (iptr ino ?p)"
    using sint_tree_addr[OF assms(1), of "ilvl ?p" "from_pointer (ilvl ?p) ?off ino"] tree
    unfolding from_pointer_eq by simp
  show ?thesis
    unfolding get_nth_datablock_def option.case c_int_block[OF assms(3)] block_level_eq[OF assms(3)]
      prod.case Let_def ptr get_nth_loop_offset
    using get_nth_loop_read[OF assms(1) tree conjunct2[OF nb]] by (simp add: file_map_def)
qed

lemma get_nth_datablock_too_big:
  assumes "MAX_FILE_BLOCKS \<le> n" "n < 2 ^ 31"
  shows "get_nth_datablock (Some ino) (int n) create cr s = Some (INVALID_BLOCK, ino, cr, s)"
    and "rm_nth_datablock (Some ino) (int n) s = Some (INVALID_BLOCK, ino, s)"
  using assms block_level_too_big[OF assms(1)]
  by (simp_all add: get_nth_datablock_def rm_nth_datablock_def)

section \<open>rm_nth_datablock\<close>

lemma rm_walk_acc:
  "rm_walk lv off a acc s = (case rm_walk lv off a [] s of Inl r \<Rightarrow> Inl r | Inr es \<Rightarrow> Inr (es @ acc))"
proof (induction lv arbitrary: off a acc)
  case (Suc j)
  show ?case
    unfolding rm_walk.simps Let_def
    by (subst (1 2) Suc.IH) (simp split: prod.split sum.split)
qed simp

lemma rm_up_append:
  "rm_up (es @ fs) s = (case rm_up es s of None \<Rightarrow> None
    | Some (None, t) \<Rightarrow> rm_up fs t | Some (Some r, t) \<Rightarrow> Some (Some r, t))"
proof (induction es arbitrary: s)
  case (Cons e es)
  show ?case
    unfolding append_Cons rm_up.simps Let_def
    by (simp add: Cons split: prod.split option.split)
qed simp

text \<open>\<open>shrink lv a off s t\<close>: blocks moved from the tree to the free list, other lookups are as before.\<close>

definition shrink :: "nat \<Rightarrow> nat \<Rightarrow> nat \<Rightarrow> 'a layer1_scheme \<Rightarrow> 'a layer1_scheme \<Rightarrow> bool" where
  "shrink lv a off s t \<longleftrightarrow> fs_frame {} (free_data t \<union> bm_inner lv (addr_words s) a) s t \<and>
    (bm_fullx lv (addr_words s) a off \<longrightarrow> bm_fullx lv (addr_words t) a off) \<and>
    bm_inner lv (addr_words t) a \<subseteq> bm_inner lv (addr_words s) a \<and>
    free_data s \<subseteq> free_data t \<and> free_inums t = free_inums s \<and> tree_ok t lv a \<and>
    bm_set lv (addr_words s) a = bm_set lv (addr_words t) a \<union> (free_data t - free_data s) \<and>
    (\<forall>o'. o' < FANOUT ^ lv \<longrightarrow> o' \<noteq> off \<longrightarrow>
      bm_lookup lv (addr_words t) a o' = bm_lookup lv (addr_words s) a o')"

lemma shrink_refl: "fs_ok s \<Longrightarrow> tree_ok s lv a \<Longrightarrow> shrink lv a off s s"
  by (simp add: shrink_def)

lemma shrink_lift:
  assumes ok: "fs_ok s" and tree: "tree_ok s (Suc i) a" "a \<noteq> 0" and off: "off < FANOUT ^ Suc i"
    and k: "k = off div FANOUT ^ i" and c: "c = kid (addr_words s) a k"
    and frame: "fs_frame {} (free_data t \<union> insert a (bm_inner i (addr_words s) c)) s t"
    and aw: "addr_words t a = (addr_words s a)[k := w]"
    and free: "free_data s \<subseteq> free_data t" "free_inums t = free_inums s"
    and new: "tree_ok t i (unat w)"
      "bm_set i (addr_words s) c = bm_set i (addr_words t) (unat w) \<union> (free_data t - free_data s)"
    and same: "\<forall>o'. o' < FANOUT ^ i \<longrightarrow> o' \<noteq> off mod FANOUT ^ i \<longrightarrow>
      bm_lookup i (addr_words t) (unat w) o' = bm_lookup i (addr_words s) c o'"
    and full: "bm_fullx i (addr_words s) c (off mod FANOUT ^ i) \<longrightarrow>
      bm_fullx i (addr_words t) (unat w) (off mod FANOUT ^ i)"
    and inner: "bm_inner i (addr_words t) (unat w) \<subseteq> bm_inner i (addr_words s) c"
  shows "shrink (Suc i) a off s t"
    and "bm_lookup (Suc i) (addr_words t) a off = bm_lookup i (addr_words t) (unat w) (off mod FANOUT ^ i)"
proof -
  let ?h = "addr_words s" and ?h' = "addr_words t" and ?F = "free_data t - free_data s"
  note kb = off_bounds[OF off, folded k]
  have m: "mounted s" using ok by (rule fs_ok_mounted)
  have len: "length (?h a) = FANOUT" using m tree_okD(4)[OF tree] by simp
  have inA: "bm_set (Suc i) ?h a \<inter> free_data s = {}" using tree(1) by (simp add: tree_ok_def)
  have ft: "free_data t \<subseteq> free_data s \<union> bm_set i ?h c" using new(2) by blast
  have kid: "\<forall>j < FANOUT. kid ?h' a j = (if j = k then unat w else kid ?h a j)"
    using len by (simp add: aw nth_list_update)
  have eq: "\<forall>x \<in> bm_inner (Suc i) ?h a - {a} - bm_set i ?h (kid ?h a k). ?h' x = ?h x"
  proof (intro ballI addr_words_frame[OF frame])
    fix x assume x: "x \<in> bm_inner (Suc i) ?h a - {a} - bm_set i ?h (kid ?h a k)"
    then have "x \<notin> free_data t" using inA ft c bm_inner_subset by blast
    moreover have "x \<notin> bm_inner i ?h c" using x bm_inner_subset c by blast
    ultimately show "x \<notin> free_data t \<union> insert a (bm_inner i ?h c)" using x by simp
  qed
  have okc: "bm_ok i ?h' (unat w)" using new(1) by (rule tree_okD(1))
  have sub: "bm_set i ?h' (unat w) \<subseteq> bm_set i ?h (kid ?h a k) \<union> {}" using new(2) c by blast
  note u = bm_update[OF tree(2) tree_okD(1)[OF tree(1)] conjunct1[OF kb] okc sub Int_empty_left eq kid]
  have in': "bm_set i ?h c \<subseteq> bm_set (Suc i) ?h a" using tree_ok_kid(2)[OF tree conjunct1[OF kb]] c by simp
  have set: "bm_set (Suc i) ?h a = bm_set (Suc i) ?h' a \<union> ?F"
    using u(2) new(2) in' unfolding c[symmetric] by blast
  have dj: "bm_set i ?h' (unat w) \<inter> free_data t = {}" using new(1) by (simp add: tree_ok_def)
  have valid: "valid_data t x = valid_data s x" for x using fs_frameD(7)[OF frame] .
  have "bm_set (Suc i) ?h a \<subseteq> Collect (valid_data s)" using tree(1) unfolding tree_ok_def by blast
  then have "bm_set (Suc i) ?h' a \<subseteq> Collect (valid_data t)" unfolding valid using set by blast
  moreover have "bm_set (Suc i) ?h' a \<inter> free_data t = {}"
    using u(2) inA ft dj c by blast
  ultimately have "tree_ok t (Suc i) a" unfolding tree_ok_def using u(1) by blast
  moreover have "fs_frame {} (free_data t \<union> bm_inner (Suc i) ?h a) s t"
    by (rule fs_frame_mono[OF frame])
      (use tree_ok_kid(4)[OF tree conjunct1[OF kb]] bm_inner_Suc[OF tree(2)] c in blast)+
  moreover have "bm_lookup (Suc i) ?h' a o' = bm_lookup (Suc i) ?h a o'" if "o' < FANOUT ^ Suc i" "o' \<noteq> off" for o'
  proof (cases "o' div FANOUT ^ i = k")
    case True
    then have "o' mod FANOUT ^ i \<noteq> off mod FANOUT ^ i" using that(2) k by (metis div_mult_mod_eq)
    then have "bm_lookup i ?h' (unat w) (o' mod FANOUT ^ i) = bm_lookup i ?h c (o' mod FANOUT ^ i)"
      using same off_bounds[OF that(1)] by simp
    then show ?thesis using u(3)[OF that(1)] True tree(2) c by simp
  next
    case False
    then show ?thesis using u(3)[OF that(1)] by simp
  qed
  moreover have "bm_fullx (Suc i) ?h a off \<longrightarrow> bm_fullx (Suc i) ?h' a off"
    using u(5) full kid kb tree(2) c k by simp
  moreover have "bm_inner (Suc i) ?h' a \<subseteq> bm_inner (Suc i) ?h a"
    using u(4) inner tree_ok_kid(4)[OF tree conjunct1[OF kb]] c by blast
  ultimately show "shrink (Suc i) a off s t" using set free unfolding shrink_def by blast
  show "bm_lookup (Suc i) ?h' a off = bm_lookup i ?h' (unat w) (off mod FANOUT ^ i)"
    using u(3)[OF off] k by simp
qed

lemma lookup_only_root:
  assumes "bm_ok lv h a" "bm_set lv h a \<subseteq> {a}" "off < FANOUT ^ lv" "0 < lv"
  shows "bm_lookup lv h a off = 0"
proof (rule ccontr)
  assume b: "bm_lookup lv h a off \<noteq> 0"
  then have "bm_lookup lv h a off = a" using bm_lookup_in[OF assms(3)] assms(2) by blast
  moreover have "a \<in> bm_inner lv h a"
    using assms(4) b by (cases lv) (auto split: if_splits)
  ultimately show False using bm_leaf[OF assms(1,3) b] by simp
qed

text \<open>
  Both loops of \<open>rm_nth_datablock\<close> on a tree: either the offset has become a hole and the rest of the
  tree stays, or nothing but the root is left, which the caller then frees.
\<close>

definition rm_result :: "nat \<Rightarrow> nat \<Rightarrow> nat \<Rightarrow> 'a layer1_scheme \<Rightarrow> int option \<Rightarrow> 'a layer1_scheme \<Rightarrow> bool" where
  "rm_result lv a off s r t \<longleftrightarrow> shrink lv a off s t \<and>
    (r = Some SUCCESS \<and> bm_lookup lv (addr_words t) a off = 0 \<and>
       (bm_fullx lv (addr_words s) a off \<longrightarrow> bm_full lv (addr_words t) a) \<or>
     r = None \<and> bm_set lv (addr_words t) a \<subseteq> {a})"

lemma zero_words_set: "h a = replicate FANOUT 0 \<Longrightarrow> bm_set (Suc i) h a \<subseteq> {a}"
  by simp

lemma rm_walk_0: "rm_walk lv off 0 acc s = Inr acc"
  by (cases lv) simp_all

lemma bm_fullx_done:
  assumes "bm_fullx (Suc i) h a off" "bm_full i h (kid h a (off div FANOUT ^ i))"
    and "length (h a) = FANOUT" "h a \<noteq> replicate FANOUT 0"
  shows "bm_full (Suc i) h a"
proof -
  obtain k where "k < FANOUT" "h a ! k \<noteq> 0"
    using assms(3,4) by (auto simp: list_eq_iff_nth_eq)
  then have "\<exists>k < FANOUT. kid h a k \<noteq> 0" by (auto simp: unat_eq_zero)
  moreover have "bm_full i h (kid h a k)" if "a \<noteq> 0" "k < FANOUT" for k
    using assms(1,2) that by (cases "k = off div FANOUT ^ i") auto
  ultimately show ?thesis unfolding bm_full.simps by blast
qed

lemma rm_spec:
  assumes "fs_ok s" "tree_ok s lv a" "off < FANOUT ^ lv"
  shows "\<exists>es r t. rm_walk lv (int off) (int a) [] s = Inr es \<and> rm_up es s = Some (r, t) \<and>
    rm_result lv a off s r t"
  using assms
proof (induction lv arbitrary: a off)
  case 0
  then show ?case by (simp add: rm_result_def shrink_refl)
next
  case (Suc i)
  let ?k = "off div FANOUT ^ i" and ?o = "off mod FANOUT ^ i" and ?b = "addr_words s a"
  have m: "mounted s" using Suc.prems(1) by (rule fs_ok_mounted)
  show ?case
  proof (cases "a = 0")
    case True
    then show ?thesis using shrink_refl[OF Suc.prems(1,2)]
      by (intro exI[of _ "[]"] exI[of _ None] exI[of _ s]) (simp add: rm_result_def)
  next
    case False
    let ?c = "unat (?b ! ?k)" and ?e = "(int a, ?b, ?k)"
    note kb = off_bounds[OF Suc.prems(3)]
    note kid = tree_ok_kid[OF Suc.prems(2) False conjunct1[OF kb]]
    have va: "valid_data s a" "a \<notin> free_data s" using tree_okD(4,5)[OF Suc.prems(2) False] by auto
    have len: "length ?b = FANOUT" using m va by simp
    have rd: "data_read (int a) (Some (uninit BLOCK_SIZE s)) s = (SUCCESS, data_blk s a)"
      using m va(1) by (intro data_read_ok) simp_all
    have d: "nat (int off div intPow (int ADDRESSES_PER_BLOCK) (int i)) = ?k"
      "int off mod intPow (int ADDRESSES_PER_BLOCK) (int i) = int ?o"
      unfolding intPow_eq zdiv_int[symmetric] zmod_int[symmetric] by (rule nat_int, rule refl)
    have w: "words_of_bytes (data_blk s a) = ?b" by (simp add: addr_words_def)
    have sc: "sint (?b ! ?k) = int ?c" using sint_tree_addr[OF m kid(1)] .
    obtain es r t where c: "rm_walk i (int ?o) (int ?c) [] s = Inr es" "rm_up es s = Some (r, t)"
      "rm_result i ?c ?o s r t" using Suc.IH[OF Suc.prems(1) kid(1) conjunct2[OF kb]] by blast
    have walk: "rm_walk (Suc i) (int off) (int a) [] s = Inr (es @ [?e])"
    proof -
      have "rm_walk (Suc i) (int off) (int a) [] s = rm_walk i (int ?o) (int ?c) [?e] s"
        unfolding rm_walk.simps rd Let_def prod.case w d sc using False by simp
      also have "\<dots> = Inr (es @ [?e])" using rm_walk_acc[of i "int ?o" "int ?c" "[?e]" s] c(1) by simp
      finally show ?thesis .
    qed
    have sh: "fs_frame {} (free_data t \<union> bm_inner i (addr_words s) ?c) s t" "free_data s \<subseteq> free_data t"
      "free_inums t = free_inums s" "tree_ok t i ?c"
      "bm_set i (addr_words s) ?c = bm_set i (addr_words t) ?c \<union> (free_data t - free_data s)"
      "\<forall>o'. o' < FANOUT ^ i \<longrightarrow> o' \<noteq> ?o \<longrightarrow>
        bm_lookup i (addr_words t) ?c o' = bm_lookup i (addr_words s) ?c o'"
      "bm_fullx i (addr_words s) ?c ?o \<longrightarrow> bm_fullx i (addr_words t) ?c ?o"
      "bm_inner i (addr_words t) ?c \<subseteq> bm_inner i (addr_words s) ?c"
      using c(3) unfolding rm_result_def shrink_def by auto
    have at: "a \<notin> free_data t" using sh(5) va(2) kid(3) by blast
    then have awt: "addr_words t a = ?b"
      using addr_words_frame[OF sh(1)] kid(3) bm_inner_subset by blast
    have ok_t: "fs_ok t" "mounted t" using fs_frameD[OF sh(1)] by auto
    have vt: "valid_data t x = valid_data s x" for x using fs_frameD(7)[OF sh(1)] .
    from c(3) consider (finished) "r = Some SUCCESS" "bm_lookup i (addr_words t) ?c ?o = 0"
        "bm_fullx i (addr_words s) ?c ?o \<longrightarrow> bm_full i (addr_words t) ?c"
      | (up) "r = None" "bm_set i (addr_words t) ?c \<subseteq> {?c}" unfolding rm_result_def by argo
    then show ?thesis
    proof cases
      case finished
      have aw: "addr_words t a = ?b[?k := ?b ! ?k]" using awt by simp
      have fr: "fs_frame {} (free_data t \<union> insert a (bm_inner i (addr_words s) ?c)) s t"
        by (rule fs_frame_mono[OF sh(1)]) auto
      note l = shrink_lift[OF Suc.prems(1,2) False Suc.prems(3) refl refl fr aw sh(2,3,4,5,6,7,8)]
      have "rm_up (es @ [?e]) s = Some (Some SUCCESS, t)" using c(2) finished(1) by (simp add: rm_up_append)
      moreover have "rm_result (Suc i) a off s (Some SUCCESS) t"
      proof -
        have "?c \<noteq> 0" using c(1,2) finished(1) by (cases "?c = 0") (auto simp: rm_walk_0)
        then have "?b ! ?k \<noteq> 0" by (simp add: unat_eq_zero)
        then have nz: "addr_words t a \<noteq> replicate FANOUT 0" unfolding awt using kb by auto
        have "bm_full (Suc i) (addr_words t) a" if fx: "bm_fullx (Suc i) (addr_words s) a off"
        proof (rule bm_fullx_done)
          show "bm_fullx (Suc i) (addr_words t) a off" using l(1) fx unfolding shrink_def by blast
          have "bm_fullx i (addr_words s) ?c ?o" using fx False by simp
          then show "bm_full i (addr_words t) (kid (addr_words t) a ?k)" unfolding awt using finished(3) by blast
          show "length (addr_words t a) = FANOUT" unfolding awt by (rule len)
          show "addr_words t a \<noteq> replicate FANOUT 0" by (rule nz)
        qed
        moreover have "bm_lookup (Suc i) (addr_words t) a off = 0" unfolding l(2) by (rule finished(2))
        ultimately show ?thesis using l(1) unfolding rm_result_def by blast
      qed
      ultimately show ?thesis using walk by blast
    next
      case up
      have rest: "rm_up (es @ [?e]) s = rm_up [?e] t" using c(2) up(1) by (simp add: rm_up_append)
      show ?thesis
      proof (cases "?c = 0")
        case True
        have "es = []" using c(1) unfolding True by (simp add: rm_walk_0)
        then have t: "t = s" using c(2) by simp
        have z: "?b ! ?k = 0" using True by (simp add: unat_eq_zero)
        have lk: "bm_lookup (Suc i) (addr_words s) a off = 0" using True False by simp
        have last: "rm_up [?e] t =
            (if ?b \<noteq> replicate FANOUT 0 then Some (Some SUCCESS, s) else Some (None, s))"
          unfolding rm_up.simps Let_def prod.case words_eq_empty t using z by simp
        show ?thesis
        proof (cases "?b = replicate FANOUT 0")
          case empty: True
          have "bm_set (Suc i) (addr_words s) a \<subseteq> {a}" by (simp add: empty)
          moreover have "rm_up [?e] t = Some (None, s)" using last empty by simp
          ultimately show ?thesis using walk rest shrink_refl[OF Suc.prems(1,2)]
            by (intro exI[of _ "es @ [?e]"] exI[of _ None] exI[of _ s]) (simp add: rm_result_def)
        next
          case False
          have "bm_full i (addr_words s) ?c" unfolding True by simp
          then have "rm_result (Suc i) a off s (Some SUCCESS) s"
            using shrink_refl[OF Suc.prems(1,2)] lk bm_fullx_done[of i "addr_words s" a off] len False
            unfolding rm_result_def by blast
          moreover have "rm_up (es @ [?e]) s = Some (Some SUCCESS, s)"
            unfolding rest using last False by simp
          ultimately show ?thesis using walk by blast
        qed
      next
        case c0: False
        let ?b' = "?b[?k := 0]"
        have len': "length ?b' = FANOUT" using len by simp
        have ct: "valid_data t ?c" "?c \<notin> free_data t" using tree_okD(4,5)[OF sh(4) c0] .
        obtain u where u: "data_free (int ?c) t = Some (SUCCESS, u)"
          "fs_frame {} (insert ?c (free_data t)) t u" "free_data u = insert ?c (free_data t)"
          "free_inums u = free_inums t" using data_free_frame[OF ok_t(1) ct] by blast
        have ac: "a \<noteq> ?c" using kid(3) c0 by (cases i) auto
        have ok_u: "fs_ok u" "mounted u" "valid_data u a" "a \<notin> free_data u"
          using fs_frameD[OF u(2)] vt va(1) at ac u(3) by auto
        let ?v = "put_data a (bytes_of_words ?b') u"
        note pd = fs_frame_put_data[OF ok_u(1,3) is_block_words[OF len'] ok_u(4)]
        have wr: "data_write (int a) (Some (bytes_of_words ?b')) u = (SUCCESS, ?v)"
          using ok_u(2,3) is_block_words[OF len'] by (rule data_write_ok)
        have nz: "int ?c \<noteq> 0" using c0 by (simp only: of_nat_eq_0_iff not_False_eq_True)
        have last: "rm_up [?e] t =
            (if ?b' \<noteq> replicate FANOUT 0 then Some (Some SUCCESS, ?v) else Some (None, ?v))"
          unfolding rm_up.simps Let_def prod.case sc if_P[OF nz] u(1) option.case wr words_eq_empty
          by simp
        have fv: "free_data ?v = insert ?c (free_data t)" using pd(2) u(3) by simp
        have awv: "addr_words ?v a = ?b[?k := 0]" using addr_words_put_data[OF ok_u(2,3) len'] by simp
        have fr: "fs_frame {} (free_data ?v \<union> insert a (bm_inner i (addr_words s) ?c)) s ?v"
        proof -
          have "free_data t \<subseteq> free_data ?v" "insert ?c (free_data t) \<subseteq> free_data ?v" using fv by blast+
          then have "fs_frame {} (free_data ?v \<union> bm_inner i (addr_words s) ?c) s u"
            by (intro fs_frame_trans[OF sh(1) u(2)]) blast+
          then show ?thesis by (rule fs_frame_trans[OF _ pd(1)]) blast+
        qed
        have free: "free_data s \<subseteq> free_data ?v" "free_inums ?v = free_inums s"
          using sh(2,3) fv u(4) put_data_free_inums[OF ok_u(2,3) is_block_words[OF len']] by auto
        have set: "bm_set i (addr_words s) ?c =
            bm_set i (addr_words ?v) (unat (0 :: u32)) \<union> (free_data ?v - free_data s)"
        proof -
          have "bm_set i (addr_words t) ?c = {?c}" using up(2) c0 by (cases i) auto
          moreover have "?c \<notin> free_data s" using ct(2) sh(2) by blast
          ultimately show ?thesis using sh(5) fv by auto
        qed
        have same: "\<forall>o'. o' < FANOUT ^ i \<longrightarrow> o' \<noteq> ?o \<longrightarrow>
            bm_lookup i (addr_words ?v) (unat (0 :: u32)) o' = bm_lookup i (addr_words s) ?c o'"
        proof (intro allI impI)
          fix o' assume o': "o' < FANOUT ^ i" "o' \<noteq> ?o"
          then have "0 < i" by (cases i) auto
          then have "bm_lookup i (addr_words t) ?c o' = 0"
            using lookup_only_root[OF tree_okD(1)[OF sh(4)] up(2) o'(1)] by blast
          then show "bm_lookup i (addr_words ?v) (unat (0 :: u32)) o' = bm_lookup i (addr_words s) ?c o'"
            using sh(6) o' by simp
        qed
        have tr: "tree_ok ?v i (unat (0 :: u32))" by simp
        have full: "bm_fullx i (addr_words s) ?c ?o \<longrightarrow> bm_fullx i (addr_words ?v) (unat (0 :: u32)) ?o"
          by simp
        have inn: "bm_inner i (addr_words ?v) (unat (0 :: u32)) \<subseteq> bm_inner i (addr_words s) ?c" by simp
        note l = shrink_lift[OF Suc.prems(1,2) False Suc.prems(3) refl refl fr awv free tr set same full inn]
        show ?thesis
        proof (cases "?b' = replicate FANOUT 0")
          case empty: True
          have "bm_set (Suc i) (addr_words ?v) a \<subseteq> {a}"
            by (rule zero_words_set) (rule trans[OF awv empty])
          then have "rm_result (Suc i) a off s None ?v" using l(1) unfolding rm_result_def by blast
          moreover have "rm_up (es @ [?e]) s = Some (None, ?v)" unfolding rest last using empty by simp
          ultimately show ?thesis using walk by blast
        next
          case False
          have "bm_full (Suc i) (addr_words ?v) a" if fx: "bm_fullx (Suc i) (addr_words s) a off"
          proof (rule bm_fullx_done)
            show "bm_fullx (Suc i) (addr_words ?v) a off" using l(1) fx unfolding shrink_def by blast
            show "bm_full i (addr_words ?v) (kid (addr_words ?v) a ?k)" unfolding awv using len kb by simp
            show "length (addr_words ?v a) = FANOUT" unfolding awv by (rule len')
            show "addr_words ?v a \<noteq> replicate FANOUT 0" unfolding awv by (rule False)
          qed
          moreover have "bm_lookup (Suc i) (addr_words ?v) a off = 0" unfolding l(2) by simp
          ultimately have "rm_result (Suc i) a off s (Some SUCCESS) ?v"
            using l(1) unfolding rm_result_def by blast
          moreover have "rm_up (es @ [?e]) s = Some (Some SUCCESS, ?v)"
            unfolding rest last using False by simp
          ultimately show ?thesis using walk by blast
        qed
      qed
    qed
  qed
qed

text \<open>
  \<open>file_shrink n s ino t ino'\<close>: blocks moved from the file to the free list, and every block of the
  file but the \<open>n\<close>-th is where it was.
\<close>

definition file_shrink ::
    "nat \<Rightarrow> 'a layer1_scheme \<Rightarrow> inode \<Rightarrow> 'a layer1_scheme \<Rightarrow> inode \<Rightarrow> bool" where
  "file_shrink n s ino t ino' \<longleftrightarrow> fs_frame {} (free_data t \<union> file_inner s ino) s t \<and>
    (file_fullx n s ino \<longrightarrow> file_fullx n t ino') \<and>
    (\<forall>p < NPTRS. iptr ino' p \<noteq> 0 \<longrightarrow> iptr ino' p = iptr ino p) \<and>
    file_inner t ino' \<subseteq> file_inner s ino \<and>
    free_data s \<subseteq> free_data t \<and> free_inums t = free_inums s \<and> file_ok t ino' \<and> same_meta ino ino' \<and>
    file_set s ino = file_set t ino' \<union> (free_data t - free_data s) \<and>
    (\<forall>m. m < MAX_FILE_BLOCKS \<longrightarrow> m \<noteq> n \<longrightarrow> file_map t ino' m = file_map s ino m)"

lemma file_shrink_refl: "fs_ok s \<Longrightarrow> file_ok s ino \<Longrightarrow> file_shrink n s ino s ino"
  by (simp add: file_shrink_def)

lemma file_shrink_lift:
  assumes ok: "fs_ok s" and fok: "file_ok s ino" and n: "n < MAX_FILE_BLOCKS"
    and frame: "fs_frame {} (free_data t \<union> bm_inner (ilvl (fslot n)) (addr_words s) (iptr ino (fslot n))) s t"
    and free: "free_data s \<subseteq> free_data t" "free_inums t = free_inums s"
    and ptr: "\<forall>p < NPTRS. iptr ino' p = (if p = fslot n then c else iptr ino p)"
    and meta: "inode_wf ino'" "same_meta ino ino'"
    and new: "tree_ok t (ilvl (fslot n)) c" "bm_set (ilvl (fslot n)) (addr_words s) (iptr ino (fslot n)) =
      bm_set (ilvl (fslot n)) (addr_words t) c \<union> (free_data t - free_data s)"
    and same: "\<forall>o'. o' < FANOUT ^ ilvl (fslot n) \<longrightarrow> o' \<noteq> foff n \<longrightarrow>
      bm_lookup (ilvl (fslot n)) (addr_words t) c o' =
      bm_lookup (ilvl (fslot n)) (addr_words s) (iptr ino (fslot n)) o'"
    and full: "bm_fullx (ilvl (fslot n)) (addr_words s) (iptr ino (fslot n)) (foff n) \<longrightarrow>
      bm_fullx (ilvl (fslot n)) (addr_words t) c (foff n)"
    and keep: "c \<noteq> 0 \<longrightarrow> c = iptr ino (fslot n)"
    and inner: "bm_inner (ilvl (fslot n)) (addr_words t) c \<subseteq> bm_inner (ilvl (fslot n)) (addr_words s) (iptr ino (fslot n))"
  shows "file_shrink n s ino t ino'" and "file_map t ino' n = bm_lookup (ilvl (fslot n)) (addr_words t) c (foff n)"
proof -
  let ?p = "fslot n" and ?h = "addr_words s" and ?h' = "addr_words t"
  let ?C = "bm_set (ilvl (fslot n)) (addr_words s) (iptr ino (fslot n))"
  note f = file_okD[OF fok] and nb = fslot_bounds[OF n]
  have ft: "free_data t \<subseteq> free_data s \<union> ?C" using new(2) by blast
  have eq: "\<forall>x \<in> forest_inner ilvl NPTRS ?h (iptr ino) - ?C. ?h' x = ?h x"
  proof (intro ballI addr_words_frame[OF frame])
    fix x assume x: "x \<in> forest_inner ilvl NPTRS ?h (iptr ino) - ?C"
    then have "x \<notin> free_data s" using f(4) forest_inner_subset unfolding file_set_def by blast
    then show "x \<notin> free_data t \<union> bm_inner (ilvl ?p) ?h (iptr ino ?p)"
      using x ft bm_inner_subset by blast
  qed
  have sub: "bm_set (ilvl ?p) ?h' c \<subseteq> ?C \<union> {}" using new(2) by blast
  note u = forest_update[OF f(2) conjunct1[OF nb] tree_okD(1)[OF new(1)] sub Int_empty_left eq ptr]
  have C: "?C \<subseteq> forest_set ilvl NPTRS ?h (iptr ino)" using nb unfolding forest_set_def by blast
  have dj: "bm_set (ilvl ?p) ?h' c \<inter> free_data t = {}" using new(1) by (simp add: tree_ok_def)
  have set: "file_set s ino = file_set t ino' \<union> (free_data t - free_data s)"
    using u(4) new(2) C unfolding file_set_def by blast
  have valid: "valid_data t x = valid_data s x" for x using fs_frameD(7)[OF frame] .
  have "file_set t ino' \<subseteq> Collect (valid_data t)" unfolding valid using f(3) set by blast
  moreover have "file_set t ino' \<inter> free_data t = {}"
    using u(4) f(4) ft dj unfolding file_set_def by blast
  ultimately have "file_ok t ino'" using meta(1) u(1) unfolding file_ok_def by blast
  moreover have "fs_frame {} (free_data t \<union> file_inner s ino) s t"
    using nb by (intro fs_frame_mono[OF frame]) (auto simp: file_inner_def forest_inner_def)
  moreover have "file_map t ino' m = file_map s ino m" if m: "m < MAX_FILE_BLOCKS" "m \<noteq> n" for m
  proof (cases "fslot m = ?p")
    case True
    then have "foff m \<noteq> foff n" using fslot_inj m(2) by blast
    then show ?thesis
      using same fslot_bounds[OF m(1)] True ptr nb unfolding file_map_def by simp
  next
    case False
    then show ?thesis using u(3) fslot_bounds[OF m(1)] unfolding file_map_def by blast
  qed
  moreover have "file_fullx n s ino \<longrightarrow> file_fullx n t ino'"
    using u(6) full ptr nb unfolding file_fullx_def by simp
  moreover have "\<forall>p < NPTRS. iptr ino' p \<noteq> 0 \<longrightarrow> iptr ino' p = iptr ino p" using keep ptr by simp
  moreover have "file_inner t ino' \<subseteq> file_inner s ino"
  proof -
    have "bm_inner (ilvl q) ?h' (iptr ino' q) \<subseteq> bm_inner (ilvl q) ?h (iptr ino q)" if "q < NPTRS" for q
    proof (cases "q = ?p")
      case True
      then show ?thesis using inner ptr that by simp
    next
      case False
      then show ?thesis using u(5)[OF that False] by simp
    qed
    then show ?thesis unfolding file_inner_def forest_inner_def by blast
  qed
  ultimately show "file_shrink n s ino t ino'" using set free meta(2) unfolding file_shrink_def by blast
  show "file_map t ino' n = bm_lookup (ilvl (fslot n)) (addr_words t) c (foff n)"
    using ptr nb unfolding file_map_def by simp
qed

lemma rm_walk_offset:
  "rm_walk (ilvl (fslot n)) (int (if n < 10 then n else foff n)) x acc s =
    rm_walk (ilvl (fslot n)) (int (foff n)) x acc s"
  by (simp add: ilvl_def fslot_def)

lemma rm_nth_datablock_spec:
  assumes ok: "fs_ok s" and fok: "file_ok s ino" and n: "n < MAX_FILE_BLOCKS"
  shows "\<exists>ino' t. rm_nth_datablock (Some ino) (int n) s = Some (SUCCESS, ino', t) \<and>
    file_shrink n s ino t ino' \<and> file_map t ino' n = 0 \<and> (file_fullx n s ino \<longrightarrow> file_full t ino')"
proof -
  let ?p = "fslot n" and ?off = "int (if n < 10 then n else foff n)" and ?a = "iptr ino (fslot n)"
  note f = file_okD[OF fok] and nb = fslot_bounds[OF n]
  have m: "mounted s" using ok by (rule fs_ok_mounted)
  have tree: "tree_ok s (ilvl ?p) ?a" using f(5) nb by blast
  have ptr: "sint (from_pointer (ilvl ?p) ?off ino) = int ?a"
    using sint_tree_addr[OF m, of "ilvl ?p" "from_pointer (ilvl ?p) ?off ino"] tree
    unfolding from_pointer_eq by simp
  obtain es r t where R: "rm_walk (ilvl ?p) (int (foff n)) (int ?a) [] s = Inr es"
    "rm_up es s = Some (r, t)" "rm_result (ilvl ?p) ?a (foff n) s r t"
    using rm_spec[OF ok tree conjunct2[OF nb]] by blast
  have call: "rm_nth_datablock (Some ino) (int n) s =
      (case (r, t) of (Some ret, s1) \<Rightarrow> Some (ret, ino, s1)
        | (None, s1) \<Rightarrow>
            if int ?a \<noteq> 0 then
              (case data_free (int ?a) s1 of None \<Rightarrow> None
               | Some (ret, s2) \<Rightarrow> if ret \<noteq> SUCCESS then Some (ret, ino, s2)
                   else Some (SUCCESS, set_pointer (ilvl ?p) ?off 0 ino, s2))
            else Some (SUCCESS, ino, s1))"
    unfolding rm_nth_datablock_def option.case c_int_block[OF n] block_level_eq[OF n] prod.case
      Let_def ptr rm_walk_offset R(1) sum.case R(2) by simp
  have sh: "fs_frame {} (free_data t \<union> bm_inner (ilvl ?p) (addr_words s) ?a) s t"
    "free_data s \<subseteq> free_data t" "free_inums t = free_inums s" "tree_ok t (ilvl ?p) ?a"
    "bm_set (ilvl ?p) (addr_words s) ?a = bm_set (ilvl ?p) (addr_words t) ?a \<union> (free_data t - free_data s)"
    "\<forall>o'. o' < FANOUT ^ ilvl ?p \<longrightarrow> o' \<noteq> foff n \<longrightarrow>
      bm_lookup (ilvl ?p) (addr_words t) ?a o' = bm_lookup (ilvl ?p) (addr_words s) ?a o'"
    "bm_fullx (ilvl ?p) (addr_words s) ?a (foff n) \<longrightarrow> bm_fullx (ilvl ?p) (addr_words t) ?a (foff n)"
    "bm_inner (ilvl ?p) (addr_words t) ?a \<subseteq> bm_inner (ilvl ?p) (addr_words s) ?a"
    using R(3) unfolding rm_result_def shrink_def by auto
  have ptrs: "\<forall>p < NPTRS. iptr ino p = (if p = ?p then ?a else iptr ino p)" by simp
  have same_root: "?a \<noteq> 0 \<longrightarrow> ?a = ?a" by simp
  note stay = file_shrink_lift[OF ok fok n sh(1,2,3) ptrs f(1) same_meta_simps(1) sh(4,5,6,7) same_root sh(8)]
  have stayx: "file_fullx n s ino \<longrightarrow> file_fullx n t ino" using stay(1) unfolding file_shrink_def by blast
  from R(3) consider (kept) "r = Some SUCCESS" "bm_lookup (ilvl ?p) (addr_words t) ?a (foff n) = 0"
      "bm_fullx (ilvl ?p) (addr_words s) ?a (foff n) \<longrightarrow> bm_full (ilvl ?p) (addr_words t) ?a"
    | (root) "r = None" "bm_set (ilvl ?p) (addr_words t) ?a \<subseteq> {?a}" unfolding rm_result_def by argo
  then show ?thesis
  proof cases
    case kept
    have "rm_nth_datablock (Some ino) (int n) s = Some (SUCCESS, ino, t)" using call kept(1) by simp
    moreover have "file_fullx n s ino \<longrightarrow> file_full t ino"
      using stayx kept(3) file_fullx_fullI unfolding file_fullx_def by blast
    moreover have "file_map t ino n = 0" unfolding stay(2) by (rule kept(2))
    ultimately show ?thesis using stay(1) by blast
  next
    case root
    show ?thesis
    proof (cases "?a = 0")
      case True
      have "rm_nth_datablock (Some ino) (int n) s = Some (SUCCESS, ino, t)" using call root(1) True by simp
      moreover have "file_map t ino n = 0" using True by (simp add: file_map_def)
      moreover have "file_fullx n s ino \<longrightarrow> file_full t ino"
        using stayx file_fullx_fullI[of n t ino] True by simp
      ultimately show ?thesis using stay(1) by blast
    next
      case False
      let ?ino = "set_pointer (ilvl ?p) ?off 0 ino"
      have ok_t: "fs_ok t" using fs_frameD(1)[OF sh(1)] .
      have ct: "valid_data t ?a" "?a \<notin> free_data t" using tree_okD(4,5)[OF sh(4) False] .
      obtain u where u: "data_free (int ?a) t = Some (SUCCESS, u)"
        "fs_frame {} (insert ?a (free_data t)) t u" "free_data u = insert ?a (free_data t)"
        "free_inums u = free_inums t" using data_free_frame[OF ok_t ct] by blast
      have "rm_nth_datablock (Some ino) (int n) s = Some (SUCCESS, ?ino, u)"
        using call root(1) u(1) False by simp
      moreover have fr: "fs_frame {} (free_data u \<union> bm_inner (ilvl ?p) (addr_words s) ?a) s u"
        by (rule fs_frame_trans[OF sh(1) u(2)]) (use u(3) in auto)
      have free: "free_data s \<subseteq> free_data u" "free_inums u = free_inums s" using sh(2,3) u(3,4) by auto
      have np: "\<forall>p < NPTRS. iptr ?ino p = (if p = ?p then 0 else iptr ino p)"
        using iptr_set_pointer[OF f(1)] by simp
      have wf: "inode_wf ?ino" using f(1) by simp
      have set: "bm_set (ilvl ?p) (addr_words s) ?a =
          bm_set (ilvl ?p) (addr_words u) 0 \<union> (free_data u - free_data s)"
      proof -
        have "?a \<in> bm_set (ilvl ?p) (addr_words t) ?a" using False by (cases "ilvl ?p") auto
        then have "bm_set (ilvl ?p) (addr_words t) ?a = {?a}" using root(2) by blast
        moreover have "?a \<notin> free_data s" using ct(2) sh(2) by blast
        ultimately show ?thesis using sh(5) u(3) by auto
      qed
      have same: "\<forall>o'. o' < FANOUT ^ ilvl ?p \<longrightarrow> o' \<noteq> foff n \<longrightarrow>
          bm_lookup (ilvl ?p) (addr_words u) 0 o' = bm_lookup (ilvl ?p) (addr_words s) ?a o'"
      proof (intro allI impI)
        fix o' assume o': "o' < FANOUT ^ ilvl ?p" "o' \<noteq> foff n"
        then have "0 < ilvl ?p" using nb by (cases "ilvl ?p") auto
        then have "bm_lookup (ilvl ?p) (addr_words t) ?a o' = 0"
          using lookup_only_root[OF tree_okD(1)[OF sh(4)] root(2) o'(1)] by blast
        then show "bm_lookup (ilvl ?p) (addr_words u) 0 o' = bm_lookup (ilvl ?p) (addr_words s) ?a o'"
          using sh(6) o' by simp
      qed
      have full: "bm_fullx (ilvl ?p) (addr_words s) ?a (foff n) \<longrightarrow>
          bm_fullx (ilvl ?p) (addr_words u) 0 (foff n)" by simp
      have keep: "(0 :: nat) \<noteq> 0 \<longrightarrow> 0 = ?a" by simp
      have inn: "bm_inner (ilvl ?p) (addr_words u) 0 \<subseteq> bm_inner (ilvl ?p) (addr_words s) ?a" by simp
      note l = file_shrink_lift[OF ok fok n fr free np wf same_meta_simps(2) tree_ok_0 set same full keep inn]
      have "file_fullx n s ino \<longrightarrow> file_fullx n u ?ino" using l(1) unfolding file_shrink_def by blast
      then have "file_fullx n s ino \<longrightarrow> file_full u ?ino"
        using file_fullx_fullI[of n u ?ino] np nb by simp
      moreover have "file_map u ?ino n = 0" using l(2) by simp
      ultimately show ?thesis using l(1) by blast
    qed
  qed
qed

end
