(* ===== verification/FileBlocks.thy ===== *)
theory FileBlocks
  imports BlockMap
begin

text \<open>
  The contents of a file as a function from block numbers to blocks, and what the block map
  operations do to it.  \<open>file_blk s ino n\<close> is the \<open>n\<close>-th block of the file of \<open>ino\<close>, a hole reads as
  zeros.  \<open>file_step\<close> is a change that touches only the blocks of the file, the free blocks and
  the inodes named, and moves blocks only between the file and the free list.
\<close>

definition file_blk :: "'a layer1_scheme \<Rightarrow> inode \<Rightarrow> nat \<Rightarrow> byte list" where
  "file_blk s ino n =
    (if file_map s ino n = 0 then empty_block else data_blk s (file_map s ino n))"

definition file_step :: "nat set \<Rightarrow> 'a layer1_scheme \<Rightarrow> inode \<Rightarrow> 'a layer1_scheme \<Rightarrow> inode \<Rightarrow> bool" where
  "file_step I s ino t ino' \<longleftrightarrow> fs_frame I (free_data s \<union> file_set s ino) s t \<and>
    free_data t \<union> file_set t ino' = free_data s \<union> file_set s ino \<and>
    free_inums t = free_inums s \<and> file_ok t ino'"

lemma file_stepD:
  assumes "file_step I s ino t ino'"
  shows "fs_frame I (free_data s \<union> file_set s ino) s t"
    "free_data t \<union> file_set t ino' = free_data s \<union> file_set s ino"
    "free_inums t = free_inums s" "file_ok t ino'" "fs_ok t" "mounted t" "valid_inum t k = valid_inum s k"
  using assms by (auto simp: file_step_def dest: fs_frameD)

lemma file_step_refl: "fs_ok s \<Longrightarrow> file_ok s ino \<Longrightarrow> file_step I s ino s ino"
  by (simp add: file_step_def)

lemma file_step_trans:
  "file_step I s ino t ino' \<Longrightarrow> file_step J t ino' u ino'' \<Longrightarrow> file_step (I \<union> J) s ino u ino''"
  unfolding file_step_def using fs_frame_trans[of I _ s t J _ u "I \<union> J"] by (metis order_refl sup.idem)

lemma file_step_mono: "file_step I s ino t ino' \<Longrightarrow> I \<subseteq> J \<Longrightarrow> file_step J s ino t ino'"
  unfolding file_step_def using fs_frame_mono by blast

lemma is_block_file_blk [simp]:
  "mounted s \<Longrightarrow> file_ok s ino \<Longrightarrow> n < MAX_FILE_BLOCKS \<Longrightarrow> is_block (file_blk s ino n)"
  by (simp add: file_blk_def file_map_leaf(2))

text \<open>A file depends only on its pointers and its address blocks.\<close>

lemma file_cong:
  assumes "\<forall>x \<in> file_inner s ino. addr_words t x = addr_words s x" "\<forall>p < NPTRS. iptr ino' p = iptr ino p"
  shows "file_set t ino' = file_set s ino" "file_inner t ino' = file_inner s ino"
    "n < MAX_FILE_BLOCKS \<Longrightarrow> file_map t ino' n = file_map s ino n"
    "forest_ok ilvl NPTRS (addr_words t) (iptr ino') = forest_ok ilvl NPTRS (addr_words s) (iptr ino)"
    "file_full t ino' = file_full s ino"
proof -
  have eq: "addr_words t x = addr_words s x"
    if "p < NPTRS" "x \<in> bm_inner (ilvl p) (addr_words s) (iptr ino p)" for p x
    using assms(1) that unfolding file_inner_def forest_inner_def by blast
  have c: "bm_set (ilvl p) (addr_words t) (iptr ino p) = bm_set (ilvl p) (addr_words s) (iptr ino p)"
    "bm_inner (ilvl p) (addr_words t) (iptr ino p) = bm_inner (ilvl p) (addr_words s) (iptr ino p)"
    "off < FANOUT ^ ilvl p \<Longrightarrow>
      bm_lookup (ilvl p) (addr_words t) (iptr ino p) off = bm_lookup (ilvl p) (addr_words s) (iptr ino p) off"
    "bm_ok (ilvl p) (addr_words t) (iptr ino p) = bm_ok (ilvl p) (addr_words s) (iptr ino p)"
    "bm_full (ilvl p) (addr_words t) (iptr ino p) = bm_full (ilvl p) (addr_words s) (iptr ino p)"
    if "p < NPTRS" for p off
    using bm_cong[of "ilvl p" "addr_words s" "iptr ino p" "addr_words t"] eq[OF that] by blast+
  note p = assms(2)[rule_format]
  show "file_set t ino' = file_set s ino" "file_inner t ino' = file_inner s ino"
    unfolding file_set_def forest_set_def file_inner_def forest_inner_def using c(1,2) p by simp_all
  show "forest_ok ilvl NPTRS (addr_words t) (iptr ino') = forest_ok ilvl NPTRS (addr_words s) (iptr ino)"
    "file_full t ino' = file_full s ino"
    unfolding forest_ok_def disjoint_trees_def file_full_def using c(1,4,5) p by simp_all
  show "n < MAX_FILE_BLOCKS \<Longrightarrow> file_map t ino' n = file_map s ino n"
    unfolding file_map_def using c(3) p fslot_bounds[of n] by simp
qed

text \<open>A file none of whose blocks changes keeps its contents.\<close>

lemma file_frame:
  assumes ok: "file_ok s ino" and fr: "fs_frame I B s t" and B: "B \<inter> file_set s ino = {}"
    and F: "free_data t \<inter> file_set s ino = {}"
  shows "file_ok t ino" "file_set t ino = file_set s ino"
    "n < MAX_FILE_BLOCKS \<Longrightarrow> file_map t ino n = file_map s ino n"
    "n < MAX_FILE_BLOCKS \<Longrightarrow> file_blk t ino n = file_blk s ino n"
    "file_full t ino = file_full s ino"
proof -
  have eq: "\<forall>x \<in> file_inner s ino. addr_words t x = addr_words s x"
    using addr_words_frame[OF fr] B file_inner_subset by blast
  have p: "\<forall>p < NPTRS. iptr ino p = iptr ino p" by simp
  note c = file_cong[OF eq p]
  show "file_set t ino = file_set s ino" "file_full t ino = file_full s ino" by (rule c)+
  show m: "n < MAX_FILE_BLOCKS \<Longrightarrow> file_map t ino n = file_map s ino n" by (rule c)
  show "file_ok t ino"
    using ok c F fs_frameD(7)[OF fr] unfolding file_ok_def by auto
  show "n < MAX_FILE_BLOCKS \<Longrightarrow> file_blk t ino n = file_blk s ino n"
  proof (cases "file_map s ino n = 0")
    case False
    assume n: "n < MAX_FILE_BLOCKS"
    then have "file_map s ino n \<notin> B" using file_map_in[OF n False] B by blast
    then show "file_blk t ino n = file_blk s ino n"
      using m[OF n] fs_frameD(9)[OF fr] unfolding file_blk_def by simp
  qed (simp add: file_blk_def m)
qed

section \<open>Growing, shrinking and writing\<close>

lemma file_grow_step:
  assumes "file_ok s ino" "file_grow n s ino t ino'"
  shows "file_step {} s ino t ino'"
    and "m < MAX_FILE_BLOCKS \<Longrightarrow> m \<noteq> n \<Longrightarrow> file_blk t ino' m = file_blk s ino m"
proof -
  have fr: "fs_frame {} (free_data s \<union> file_inner s ino) s t" using assms(2) by (simp add: file_grow_def)
  show "file_step {} s ino t ino'"
    using assms(2) fs_frame_mono[OF fr, of "{}"] file_inner_subset[of s ino]
    unfolding file_grow_def file_step_def by blast
  show "file_blk t ino' m = file_blk s ino m" if m: "m < MAX_FILE_BLOCKS" "m \<noteq> n"
  proof (cases "file_map s ino m = 0")
    case False
    then have "data_blk t (file_map s ino m) = data_blk s (file_map s ino m)"
      using file_map_leaf[OF assms(1) m(1)] fs_frameD(9)[OF fr] by blast
    then show ?thesis using assms(2) m unfolding file_grow_def file_blk_def by simp
  qed (use assms(2) m in \<open>simp add: file_blk_def file_grow_def\<close>)
qed

lemma file_shrink_step:
  assumes "file_ok s ino" "file_shrink n s ino t ino'"
  shows "file_step {} s ino t ino'"
    and "m < MAX_FILE_BLOCKS \<Longrightarrow> m \<noteq> n \<Longrightarrow> file_blk t ino' m = file_blk s ino m"
proof -
  have fr: "fs_frame {} (free_data t \<union> file_inner s ino) s t" and ok': "file_ok t ino'"
    using assms(2) by (simp_all add: file_shrink_def)
  show "file_step {} s ino t ino'"
    using assms(2) fs_frame_mono[OF fr, of "{}" "free_data s \<union> file_set s ino"] file_inner_subset[of s ino]
    unfolding file_shrink_def file_step_def by blast
  show "file_blk t ino' m = file_blk s ino m" if m: "m < MAX_FILE_BLOCKS" "m \<noteq> n"
  proof (cases "file_map s ino m = 0")
    case False
    have e: "file_map t ino' m = file_map s ino m" using assms(2) m unfolding file_shrink_def by blast
    have "file_map s ino m \<notin> free_data t"
      using file_map_leaf(3)[OF ok' m(1)] e False by simp
    then have "data_blk t (file_map s ino m) = data_blk s (file_map s ino m)"
      using file_map_leaf(1)[OF assms(1) m(1) False] fs_frameD(9)[OF fr] by blast
    then show ?thesis using e unfolding file_blk_def by simp
  qed (use assms(2) m in \<open>simp add: file_blk_def file_shrink_def\<close>)
qed

text \<open>\<open>get_nth_datablock\<close> never changes the contents: a block it creates was a hole.\<close>

lemma got_block_step:
  assumes "file_ok s ino" "got_block n s ino cr t ino' cr' x"
  shows "file_step {} s ino t ino'" "same_meta ino ino'"
    and "m < MAX_FILE_BLOCKS \<Longrightarrow> file_blk t ino' m = file_blk s ino m"
    and "n < MAX_FILE_BLOCKS \<Longrightarrow> file_full s ino \<Longrightarrow> x \<noteq> DATA_FULL \<Longrightarrow> file_full t ino'"
proof -
  have g: "file_grow n s ino t ino'" using assms(2) by (simp add: got_block_def)
  show "file_step {} s ino t ino'" by (rule file_grow_step(1)[OF assms(1) g])
  show "same_meta ino ino'" using g by (simp add: file_grow_def)
  have "file_blk t ino' n = file_blk s ino n"
    using assms(2) unfolding got_block_def file_blk_def Let_def by auto
  then show "m < MAX_FILE_BLOCKS \<Longrightarrow> file_blk t ino' m = file_blk s ino m"
    using file_grow_step(2)[OF assms(1) g] by (cases "m = n") auto
  assume n: "n < MAX_FILE_BLOCKS" "file_full s ino" "x \<noteq> DATA_FULL"
  have "file_fullx n t ino'" using g file_full_fullx[OF n(1,2)] unfolding file_grow_def by blast
  moreover have "file_map t ino' n \<noteq> 0" using assms(2) n(3) unfolding got_block_def Let_def by auto
  ultimately show "file_full t ino'" using file_fullx_full[OF n(1)] by blast
qed

lemma rm_block_step:
  assumes ok: "fs_ok s" "file_ok s ino" and n: "n < MAX_FILE_BLOCKS"
  shows "\<exists>ino' t. rm_nth_datablock (Some ino) (int n) s = Some (SUCCESS, ino', t) \<and>
    file_step {} s ino t ino' \<and> same_meta ino ino' \<and> file_shrink n s ino t ino' \<and>
    (\<forall>m. m < MAX_FILE_BLOCKS \<longrightarrow> file_blk t ino' m = (if m = n then empty_block else file_blk s ino m)) \<and>
    (file_fullx n s ino \<longrightarrow> file_full t ino')"
proof -
  obtain ino' t where r: "rm_nth_datablock (Some ino) (int n) s = Some (SUCCESS, ino', t)"
    "file_shrink n s ino t ino'" "file_map t ino' n = 0" "file_fullx n s ino \<longrightarrow> file_full t ino'"
    using rm_nth_datablock_spec[OF ok n] by blast
  moreover have "same_meta ino ino'" using r(2) by (simp add: file_shrink_def)
  moreover have "file_blk t ino' m = (if m = n then empty_block else file_blk s ino m)"
    if "m < MAX_FILE_BLOCKS" for m
    using file_shrink_step(2)[OF ok(2) r(2) that] r(3) by (simp add: file_blk_def)
  ultimately show ?thesis using file_shrink_step(1)[OF ok(2) r(2)] by blast
qed

lemma write_block_step:
  assumes ok: "fs_ok s" "file_ok s ino" and n: "n < MAX_FILE_BLOCKS" "file_map s ino n \<noteq> 0"
    and v: "is_block v"
  defines "t \<equiv> put_data (file_map s ino n) v s"
  shows "data_write (int (file_map s ino n)) (Some v) s = (SUCCESS, t)"
    and "file_step {} s ino t ino" "file_full t ino = file_full s ino"
    and "m < MAX_FILE_BLOCKS \<Longrightarrow> file_blk t ino m = (if m = n then v else file_blk s ino m)"
proof -
  let ?b = "file_map s ino n"
  have m: "mounted s" using ok(1) by (rule fs_ok_mounted)
  note b = file_map_leaf[OF ok(2) n]
  note fr = fs_frame_put_data[OF ok(1) b(2) v b(3), folded t_def]
  show "data_write (int ?b) (Some v) s = (SUCCESS, t)"
    unfolding t_def using m b(2) v by (rule data_write_ok)
  have eq: "\<forall>x \<in> file_inner s ino. addr_words t x = addr_words s x"
  proof (intro ballI addr_words_frame[OF fr(1)])
    fix x assume "x \<in> file_inner s ino"
    then show "x \<notin> {?b}" using b(1) by blast
  qed
  have p: "\<forall>p < NPTRS. iptr ino p = iptr ino p" by simp
  note c = file_cong[OF eq p]
  show "file_full t ino = file_full s ino" by (rule c)
  have "file_ok t ino" using ok(2) c fr fs_frameD(7)[OF fr(1)] unfolding file_ok_def by auto
  moreover have "fs_frame {} (free_data s \<union> file_set s ino) s t"
    by (rule fs_frame_mono[OF fr(1)]) (use file_map_in[OF n] in auto)
  moreover have "free_inums t = free_inums s" unfolding t_def by (rule put_data_free_inums[OF m b(2) v])
  ultimately show "file_step {} s ino t ino" using c(1) fr(2) unfolding file_step_def by simp
  show "file_blk t ino m = (if m = n then v else file_blk s ino m)" if "m < MAX_FILE_BLOCKS"
    using c(3)[OF that] file_map_inj[OF ok(2) n(1) that _ n(2)] n(2) data_blk_put_data[OF m b(2) v]
    unfolding file_blk_def t_def by auto
qed

text \<open>
  When the disk is full, \<open>get_nth_datablock\<close> may have added address blocks; \<open>rm_nth_datablock\<close>
  takes them back and leaves the inode as it was.
\<close>

lemma inode_eqI:
  assumes "inode_wf i" "inode_wf j" "same_meta i j" "\<forall>p < NPTRS. iptr i p = iptr j p"
  shows "i = j"
proof -
  have p: "iptr i p = iptr j p" if "p < 13" for p using assms(4) that by (simp add: NPTRS_def)
  have "i_direct_blocks i = i_direct_blocks j"
  proof (rule nth_equalityI)
    fix k assume "k < length (i_direct_blocks i)"
    then show "i_direct_blocks i ! k = i_direct_blocks j ! k"
      using p[of k] assms(1) by (simp add: iptr_def inode_wf_def c_consts word_unat_eq_iff)
  qed (use assms in \<open>simp add: inode_wf_def\<close>)
  moreover have "i_indirect i = i_indirect j" "i_double_indirect i = i_double_indirect j"
    "i_triple_indirect i = i_triple_indirect j"
    using p[of 10] p[of 11] p[of 12] by (simp_all add: iptr_def c_consts word_unat_eq_iff)
  ultimately show ?thesis using assms(3) by (simp add: same_meta_def)
qed

lemma slot_join:
  assumes "p < NPTRS" "off < FANOUT ^ ilvl p"
  shows "\<exists>n < MAX_FILE_BLOCKS. fslot n = p \<and> foff n = off"
proof -
  let ?n = "if p < 10 then p else if p = 10 then off + 10 else if p = 11 then off + 1034 else off + 1049610"
  have "p < 10 \<or> p = 10 \<or> p = 11 \<or> p = 12" using assms(1) unfolding NPTRS_def by linarith
  then consider "p < 10" "off = 0" | "p = 10" "off < 1024" | "p = 11" "off < 1048576" | "p = 12" "off < 1073741824"
    using assms(2) unfolding ilvl_def FANOUT_def by (elim disjE) simp_all
  then have "?n < MAX_FILE_BLOCKS \<and> fslot ?n = p \<and> foff ?n = off"
    by cases (simp_all add: fslot_def foff_def c_consts)
  then show ?thesis by blast
qed

lemma iptr_nonzero:
  assumes "file_full s ino" "p < NPTRS" "iptr ino p \<noteq> 0"
  shows "\<exists>n < MAX_FILE_BLOCKS. fslot n = p \<and> file_map s ino n \<noteq> 0"
proof -
  obtain off where off: "off < FANOUT ^ ilvl p" "bm_lookup (ilvl p) (addr_words s) (iptr ino p) off \<noteq> 0"
    using bm_full_lookup assms unfolding file_full_def by blast
  then obtain n where n: "n < MAX_FILE_BLOCKS" "fslot n = p" "foff n = off"
    using slot_join[OF assms(2)] by blast
  then show ?thesis using off(2) unfolding file_map_def by blast
qed

text \<open>The block \<open>rm_nth_datablock\<close> takes out of the file is on the free list afterwards.\<close>

lemma file_set_cases:
  assumes "x \<in> file_set s ino"
  shows "x \<in> file_inner s ino \<or> (\<exists>m < MAX_FILE_BLOCKS. file_map s ino m = x)"
proof -
  obtain p where p: "p < NPTRS" "x \<in> bm_set (ilvl p) (addr_words s) (iptr ino p)"
    using assms unfolding file_set_def forest_set_def by blast
  from bm_set_cases[OF p(2)] show ?thesis
  proof
    assume "x \<in> bm_inner (ilvl p) (addr_words s) (iptr ino p)"
    then show ?thesis using p(1) unfolding file_inner_def forest_inner_def by blast
  next
    assume "\<exists>off < FANOUT ^ ilvl p. bm_lookup (ilvl p) (addr_words s) (iptr ino p) off = x"
    then obtain off where off: "off < FANOUT ^ ilvl p" "bm_lookup (ilvl p) (addr_words s) (iptr ino p) off = x" by blast
    then show ?thesis using slot_join[OF p(1) off(1)] unfolding file_map_def by blast
  qed
qed

lemma rm_block_freed:
  assumes ok: "file_ok s ino" and n: "n < MAX_FILE_BLOCKS" "file_map s ino n \<noteq> 0"
    and r: "file_shrink n s ino t ino'" "file_map t ino' n = 0"
  shows "file_map s ino n \<in> free_data t"
proof (rule ccontr)
  let ?b = "file_map s ino n"
  assume "?b \<notin> free_data t"
  then have "?b \<in> file_set t ino'" using r(1) file_map_in[OF n] unfolding file_shrink_def by blast
  moreover have "?b \<notin> file_inner t ino'"
    using r(1) file_map_leaf(1)[OF ok n] unfolding file_shrink_def by blast
  ultimately obtain m where m: "m < MAX_FILE_BLOCKS" "file_map t ino' m = ?b" using file_set_cases by blast
  then have "m \<noteq> n" using n(2) r(2) by auto
  then have "file_map s ino m = ?b" using r(1) m unfolding file_shrink_def by simp
  then show False using file_map_inj[OF ok n(1) m(1) _ n(2)] \<open>m \<noteq> n\<close> by simp
qed

lemma full_disk_undone:
  assumes ok: "file_ok s ino" "file_full s ino" and n: "n < MAX_FILE_BLOCKS"
    and g: "got_block n s ino cr t ino' cr' DATA_FULL"
    and r: "file_shrink n t ino' u ino''" "file_map u ino'' n = 0" "file_full u ino''"
  shows "ino'' = ino"
proof (rule inode_eqI)
  have gr: "file_grow n s ino t ino'" using g by (simp add: got_block_def)
  show "inode_wf ino''" "inode_wf ino" using ok(1) r(1) by (simp_all add: file_shrink_def file_ok_def)
  show "same_meta ino'' ino" using gr r(1) by (simp add: file_shrink_def file_grow_def same_meta_def)
  have "file_map s ino n = 0" using g unfolding got_block_def Let_def by auto
  then have map: "file_map u ino'' m = file_map s ino m" if "m < MAX_FILE_BLOCKS" for m
    using gr r(1,2) that unfolding file_shrink_def file_grow_def by metis
  have zero: "iptr i p = 0 \<Longrightarrow> fslot m = p \<Longrightarrow> file_map v i m = 0" for i p m and v :: "'a layer1_scheme"
    by (auto simp: file_map_def)
  show "\<forall>p < NPTRS. iptr ino'' p = iptr ino p"
  proof (intro allI impI)
    fix p assume p: "p < NPTRS"
    show "iptr ino'' p = iptr ino p"
    proof (cases "iptr ino p = 0")
      case True
      have "iptr ino'' p = 0"
      proof (rule ccontr)
        assume "iptr ino'' p \<noteq> 0"
        then obtain m where m: "m < MAX_FILE_BLOCKS" "fslot m = p" "file_map u ino'' m \<noteq> 0"
          using iptr_nonzero[OF r(3) p] by blast
        then show False using map[OF m(1)] zero[OF True m(2), of s] by simp
      qed
      then show ?thesis using True by simp
    next
      case False
      then obtain m where m: "m < MAX_FILE_BLOCKS" "fslot m = p" "file_map s ino m \<noteq> 0"
        using iptr_nonzero[OF ok(2) p] by blast
      have "iptr ino'' p \<noteq> 0"
      proof
        assume "iptr ino'' p = 0"
        then show False using zero[OF _ m(2), of ino'' u] map[OF m(1)] m(3) by simp
      qed
      moreover have "iptr ino' p = iptr ino p" using gr p False unfolding file_grow_def by blast
      ultimately show ?thesis using r(1) p unfolding file_shrink_def by metis
    qed
  qed
qed

lemma card_file_blocks:
  assumes "file_ok s ino"
  shows "card (free_data s \<union> file_set s ino) = card (free_data s) + card (file_set s ino)"
proof -
  have "finite (free_data s)" "finite (file_set s ino)" by (simp_all add: free_data_def file_set_def forest_set_def)
  then show ?thesis using file_okD(4)[OF assms] by (intro card_Un_disjoint) auto
qed

text \<open>An operation that fills no hole of the file leaves at least as many blocks free.\<close>

lemma file_card_le:
  assumes s: "file_ok s ino" "file_full s ino" and t: "file_ok t ino'"
    and z: "\<forall>m < MAX_FILE_BLOCKS. file_map t ino' m = 0 \<longrightarrow> file_map s ino m = 0"
  shows "card (file_set s ino) \<le> card (file_set t ino')"
  unfolding file_set_def
proof (rule forest_card_le[OF file_okD(2)[OF s(1)] s(2)[unfolded file_full_def] file_okD(2)[OF t]])
  show "\<forall>k < NPTRS. \<forall>off < FANOUT ^ ilvl k. bm_lookup (ilvl k) (addr_words t) (iptr ino' k) off = 0 \<longrightarrow>
      bm_lookup (ilvl k) (addr_words s) (iptr ino k) off = 0"
  proof (intro allI impI)
    fix p off assume p: "p < NPTRS" "off < FANOUT ^ ilvl p" "bm_lookup (ilvl p) (addr_words t) (iptr ino' p) off = 0"
    obtain m where m: "m < MAX_FILE_BLOCKS" "fslot m = p" "foff m = off" using slot_join[OF p(1,2)] by blast
    show "bm_lookup (ilvl p) (addr_words s) (iptr ino p) off = 0"
      using z[rule_format, OF m(1)] p(3) unfolding file_map_def m(2,3) .
  qed
qed

lemma file_step_card_le:
  assumes f: "file_step I s ino t ino'" "file_ok s ino" "file_full t ino'"
    and z: "\<forall>m < MAX_FILE_BLOCKS. file_map s ino m = 0 \<longrightarrow> file_map t ino' m = 0"
  shows "card (free_data s) \<le> card (free_data t)"
proof -
  note d = file_stepD[OF f(1)]
  show ?thesis using card_file_blocks[OF f(2)] card_file_blocks[OF d(4)] file_card_le[OF d(4) f(3,2) z]
    unfolding d(2) by linarith
qed

text \<open>One that changes no place of a block leaves as many.\<close>

lemma file_step_card:
  assumes f: "file_step I s ino t ino'" "file_ok s ino" "file_full s ino" "file_full t ino'"
    and z: "\<forall>m < MAX_FILE_BLOCKS. file_map t ino' m = file_map s ino m"
  shows "card (free_data t) = card (free_data s)"
proof -
  note d = file_stepD[OF f(1)]
  have "card (file_set s ino) = card (file_set t ino')"
    using file_card_le[OF f(2,3) d(4)] file_card_le[OF d(4) f(4,2)] z by (intro antisym) simp_all
  then show ?thesis using card_file_blocks[OF f(2)] card_file_blocks[OF d(4)] d(2) by simp
qed

end
