(* ===== verification/FileIO.thy ===== *)
theory FileIO
  imports FileBlocks
begin

text \<open>
  Reading and writing files by inode number, \<open>src/layer2.c\<close>: \<open>read_i\<close>, \<open>write_i\<close>, \<open>truncate\<close>,
  \<open>del\<close>.  A buffer is a byte list, \<open>None\<close> the null pointer.  A result \<open>None\<close> means that the C code
  has no defined behaviour (a copy outside a buffer, a negative array index) or does not return.
\<close>

section \<open>Operations\<close>

definition S_ISUID :: u32 where "S_ISUID = 0x800"
definition S_ISGID :: u32 where "S_ISGID = 0x400"

text \<open>\<open>memcpy(dst + d, src + p, n)\<close>, defined inside both arrays only.\<close>

definition memcpy :: "byte list \<Rightarrow> int \<Rightarrow> byte list \<Rightarrow> int \<Rightarrow> int \<Rightarrow> byte list option" where
  "memcpy dst d src p n =
    (if 0 \<le> d \<and> 0 \<le> p \<and> 0 \<le> n \<and> p + n \<le> int (length src) \<and> d + n \<le> int (length dst)
     then Some (overlay (nat d) (window (nat p) (nat n) src) dst) else None)"

text \<open>
  \<open>n\<close> bytes of memory from \<open>buf + p\<close> on: what lies behind the buffer is indeterminate, and is taken
  from the same source as uninitialised storage.
\<close>

definition peek :: "byte list \<Rightarrow> nat \<Rightarrow> nat \<Rightarrow> 'a layer0_scheme \<Rightarrow> byte list \<times> 'a layer0_scheme" where
  "peek buf p n s = (let over = p + n - length buf
    in (window p n (buf @ uninit over s), consume over s))"

subsection \<open>read_i\<close>

primrec read_loop ::
    "int list \<Rightarrow> int \<Rightarrow> int \<Rightarrow> inode \<Rightarrow> int \<Rightarrow> int \<Rightarrow> byte list \<Rightarrow> 'a layer1_scheme \<Rightarrow>
      (int \<times> byte list) option" where
  "read_loop [] end_block end_size my_inode read_start bytes_read buf s = Some (c_int bytes_read, buf)"
| "read_loop (i # is) end_block end_size my_inode read_start bytes_read buf s =
    (let read_size = (if i = end_block then c_u64 end_size else int BLOCK_SIZE) in
     case get_nth_datablock (Some my_inode) i False False s of
       None \<Rightarrow> None
     | Some (block_addr, _, _, _) \<Rightarrow>
         (let (ret, block_buf) = data_read block_addr (Some (uninit BLOCK_SIZE s)) s in
          if ret \<noteq> SUCCESS then Some (ret, buf)
          else case memcpy buf bytes_read block_buf read_start (c_u64 (read_size - read_start)) of
            None \<Rightarrow> None
          | Some buf \<Rightarrow>
              read_loop is end_block end_size my_inode 0
                (c_u64 (bytes_read + (read_size - read_start))) buf s))"

text \<open>The result is the return value and the buffer afterwards.\<close>

definition read_i ::
    "int \<Rightarrow> byte list option \<Rightarrow> int \<Rightarrow> int \<Rightarrow> 'a layer1_scheme \<Rightarrow> (int \<times> byte list) option" where
  "read_i inum buf offset sz s =
    (case buf of
       None \<Rightarrow> Some (BUF_NULL, [])
     | Some buf \<Rightarrow>
         (let (ret, my_inode) = local_inode inum s in
          if ret \<noteq> SUCCESS then Some (ret, buf)
          else if uint (i_size my_inode) \<le> offset then Some (0, buf)
          else
            (let truncated_size = c_int (min (c_u64 (uint (i_size my_inode) - offset)) sz) in
             if truncated_size = 0 then Some (0, buf)
             else
               (let start_block = c_int (offset sdiv int BLOCK_SIZE);
                    start_offset = offset smod int BLOCK_SIZE;
                    end_block = c_int ((offset + truncated_size - 1) sdiv int BLOCK_SIZE);
                    end_size = (offset + truncated_size - 1) smod int BLOCK_SIZE + 1
                in read_loop [start_block..end_block] end_block end_size my_inode start_offset 0 buf s))))"

subsection \<open>write_i\<close>

text \<open>
  One iteration of the loop of \<open>write_i\<close> up to the update of \<open>bytes_written\<close>; \<open>Some ret\<close> is a \<open>return\<close>
  from inside the loop.
\<close>

definition write_part ::
    "byte list \<Rightarrow> int \<Rightarrow> int \<Rightarrow> int \<Rightarrow> int \<Rightarrow> inode \<Rightarrow> 'a layer1_scheme \<Rightarrow>
      (int option \<times> inode \<times> 'a layer1_scheme) option" where
  "write_part buf i write_start write_size bytes_written my_inode s =
    (let n = c_u64 (write_size - write_start) in
     if write_start < 0 \<or> int BLOCK_SIZE < n then None
     else
       (let (mem, s) = peek buf (nat write_start) (nat n) s;
            all_zeros = (mem = replicate (nat n) 0);
            whole_block = (write_size = int BLOCK_SIZE \<and> write_start = 0)
        in if all_zeros \<and> whole_block then
             map_option (\<lambda>(_, ino, s). (None, ino, s)) (rm_nth_datablock (Some my_inode) i s)
           else case get_nth_datablock (Some my_inode) i True False s of
             None \<Rightarrow> None
           | Some (block_addr, my_inode, created, s) \<Rightarrow>
               if block_addr = DATA_FULL \<and> \<not> all_zeros then
                 map_option (\<lambda>(_, ino, s). (Some DATA_FULL, ino, s)) (rm_nth_datablock (Some my_inode) i s)
               else if block_addr = DATA_FULL then
                 map_option (\<lambda>(_, ino, s). (None, ino, s)) (rm_nth_datablock (Some my_inode) i s)
               else if whole_block then
                 (if int (length buf) < bytes_written + int BLOCK_SIZE then None
                  else
                    (let (ret, s) = data_write block_addr
                           (Some (window (nat bytes_written) BLOCK_SIZE buf)) s
                     in Some (if ret \<noteq> SUCCESS then Some ret else None, my_inode, s)))
               else
                 (let (ret, block_buf) =
                        (if created then (SUCCESS, empty_block)
                         else data_read block_addr (Some (uninit BLOCK_SIZE s)) s)
                  in if ret \<noteq> SUCCESS then Some (Some ret, my_inode, s)
                     else case memcpy block_buf write_start buf bytes_written n of
                       None \<Rightarrow> None
                     | Some block_buf \<Rightarrow>
                         if block_buf = empty_block then
                           map_option (\<lambda>(_, ino, s). (None, ino, s)) (rm_nth_datablock (Some my_inode) i s)
                         else
                           (let (ret, s) = data_write block_addr (Some block_buf) s
                            in Some (if ret \<noteq> SUCCESS then Some ret else None, my_inode, s)))))"

definition new_size :: "int \<Rightarrow> int \<Rightarrow> int \<Rightarrow> u32" where
  "new_size original_size offset bytes_written =
    word_of_int (max (c_u64 original_size) (c_u64 (offset + bytes_written)))"

primrec write_loop ::
    "int list \<Rightarrow> int \<Rightarrow> byte list \<Rightarrow> int \<Rightarrow> int \<Rightarrow> int \<Rightarrow> int \<Rightarrow> int \<Rightarrow> int \<Rightarrow> inode \<Rightarrow> 'a layer1_scheme \<Rightarrow>
      (int \<times> 'a layer1_scheme) option" where
  "write_loop [] inum buf offset original_size end_block end_size write_start bytes_written my_inode s =
    Some (c_int bytes_written, s)"
| "write_loop (i # is) inum buf offset original_size end_block end_size write_start bytes_written my_inode s =
    (let write_size = (if i = end_block then c_u64 end_size else int BLOCK_SIZE) in
     case write_part buf i write_start write_size bytes_written my_inode s of
       None \<Rightarrow> None
     | Some (Some ret, _, s) \<Rightarrow> Some (ret, s)
     | Some (None, my_inode, s) \<Rightarrow>
         (let bytes_written = c_u64 (bytes_written + (write_size - write_start));
              my_inode = my_inode
                \<lparr>i_size := new_size original_size offset bytes_written,
                 i_mode := i_mode my_inode AND (0xffff XOR (S_ISUID OR S_ISGID))\<rparr>;
              (_, s) = inode_write inum (Some my_inode) s
          in write_loop is inum buf offset original_size end_block end_size 0 bytes_written my_inode s))"

definition write_i ::
    "int \<Rightarrow> byte list option \<Rightarrow> int \<Rightarrow> int \<Rightarrow> 'a layer1_scheme \<Rightarrow> (int \<times> 'a layer1_scheme) option" where
  "write_i inum buf offset sz s =
    (case buf of
       None \<Rightarrow> Some (BUF_NULL, s)
     | Some buf \<Rightarrow>
         (let (ret, my_inode) = local_inode inum s in
          if ret \<noteq> SUCCESS then Some (ret, s)
          else
            (let original_size = c_int (uint (i_size my_inode));
                 start_block = c_int (offset sdiv int BLOCK_SIZE);
                 start_offset = offset smod int BLOCK_SIZE;
                 end_block = c_int (c_u64 (offset + sz - 1) div int BLOCK_SIZE);
                 end_size = c_u64 (offset + sz - 1) mod int BLOCK_SIZE + 1
             in write_loop [start_block..end_block] inum buf offset original_size end_block end_size
                  start_offset 0 my_inode s)))"

subsection \<open>truncate and del\<close>

text \<open>\<open>malloc\<close> of a negative size, converted to \<open>size_t\<close>, fails; \<open>memset\<close> on its null result is undefined.\<close>

definition truncate_i :: "int \<Rightarrow> int \<Rightarrow> 'a layer1_scheme \<Rightarrow> (int \<times> 'a layer1_scheme) option" where
  "truncate_i inum offset s =
    (let (ret, my_inode) = local_inode inum s in
     if ret \<noteq> SUCCESS then Some (ret, s)
     else if uint (i_size my_inode) < offset then
       (let (_, s) = inode_write inum (Some (my_inode\<lparr>i_size := word_of_int offset\<rparr>)) s
        in Some (SUCCESS, s))
     else
       (let buf_size = c_int (uint (i_size my_inode) - offset) in
        if buf_size < 0 then None
        else
          (let buf = replicate (nat buf_size) 0 in
           case write_i inum (Some buf) offset buf_size s of
             None \<Rightarrow> None
           | Some (_, s) \<Rightarrow>
               (let (_, s) = inode_write inum (Some (my_inode\<lparr>i_size := word_of_int offset\<rparr>)) s
                in Some (SUCCESS, s)))))"

definition del :: "int \<Rightarrow> 'a layer1_scheme \<Rightarrow> (int \<times> 'a layer1_scheme) option" where
  "del inum s =
    (case truncate_i inum 0 s of
       None \<Rightarrow> None
     | Some (ret, s) \<Rightarrow> if ret \<noteq> SUCCESS then Some (ret, s) else Some (inode_free inum s))"

section \<open>The bytes of a file\<close>

definition MAX_FILE_BYTES :: nat where
  "MAX_FILE_BYTES = MAX_FILE_BLOCKS * BLOCK_SIZE"

definition file_byte :: "'a layer1_scheme \<Rightarrow> inode \<Rightarrow> nat \<Rightarrow> byte" where
  "file_byte s ino j = file_blk s ino (j div BLOCK_SIZE) ! (j mod BLOCK_SIZE)"

definition file_bytes :: "'a layer1_scheme \<Rightarrow> inode \<Rightarrow> nat \<Rightarrow> nat \<Rightarrow> byte list" where
  "file_bytes s ino off n = map (file_byte s ino) [off..<off + n]"

lemma length_file_bytes [simp]: "length (file_bytes s ino off n) = n"
  by (simp add: file_bytes_def)

lemma nth_file_bytes [simp]: "j < n \<Longrightarrow> file_bytes s ino off n ! j = file_byte s ino (off + j)"
  by (simp add: file_bytes_def)

text \<open>
  A file in good order: besides \<open>file_ok\<close>, no address block is empty, the size is a non-negative
  \<open>int\<close>, bytes from the size on are zero and blocks from the size on are holes.
\<close>

definition file_size :: "inode \<Rightarrow> nat" where
  "file_size ino = unat (i_size ino)"

definition file_good :: "'a layer1_scheme \<Rightarrow> inode \<Rightarrow> bool" where
  "file_good s ino \<longleftrightarrow> file_ok s ino \<and> file_full s ino \<and> file_size ino < 2 ^ 31 \<and>
    (\<forall>m < MAX_FILE_BLOCKS. file_size ino \<le> m * BLOCK_SIZE \<longrightarrow> file_map s ino m = 0) \<and>
    (\<forall>j < MAX_FILE_BYTES. file_size ino \<le> j \<longrightarrow> file_byte s ino j = 0)"


lemma file_bytes_0 [simp]: "file_bytes s ino off 0 = []"
  by (simp add: file_bytes_def)

lemma file_bytes_append: "file_bytes s ino off (a + b) = file_bytes s ino off a @ file_bytes s ino (off + a) b"
  using upt_add_eq_append[of off "off + a" b] by (simp add: file_bytes_def add.assoc)

lemma file_bytes_window:
  assumes "mounted s" "file_ok s ino" "i < MAX_FILE_BLOCKS" "p + n \<le> BLOCK_SIZE"
  shows "window p n (file_blk s ino i) = file_bytes s ino (i * BLOCK_SIZE + p) n"
proof (rule nth_equalityI)
  have len: "length (file_blk s ino i) = BLOCK_SIZE"
    using is_block_file_blk[OF assms(1-3)] by (simp add: is_block_def)
  then show "length (window p n (file_blk s ino i)) = length (file_bytes s ino (i * BLOCK_SIZE + p) n)"
    using assms(4) by simp
  fix j assume "j < length (window p n (file_blk s ino i))"
  then have j: "j < n" "p + j < BLOCK_SIZE" using assms(4) len by auto
  then have "(i * BLOCK_SIZE + p + j) div BLOCK_SIZE = i" "(i * BLOCK_SIZE + p + j) mod BLOCK_SIZE = p + j"
    using div_mult_self3[of BLOCK_SIZE i "p + j"] by (simp_all add: add.assoc)
  then show "window p n (file_blk s ino i) ! j = file_bytes s ino (i * BLOCK_SIZE + p) n ! j"
    using j len by (simp add: nth_window file_byte_def)
qed

section \<open>read_i\<close>

lemma overlay_append:
  assumes "r + length a + length b \<le> length xs"
  shows "overlay (r + length a) b (overlay r a xs) = overlay r (a @ b) xs"
  using assms by (simp add: overlay_def ac_simps)

lemma memcpy_ok:
  assumes "p + n \<le> length src" "d + n \<le> length dst"
  shows "memcpy dst (int d) src (int p) (int n) = Some (overlay d (window p n src) dst)"
  using assms by (simp add: memcpy_def del: of_nat_add flip: of_nat_add)

lemma data_read_file_blk:
  assumes "mounted s" "file_ok s ino" "n < MAX_FILE_BLOCKS"
  shows "data_read (int (file_map s ino n)) (Some (uninit BLOCK_SIZE s)) s = (SUCCESS, file_blk s ino n)"
proof (cases "file_map s ino n = 0")
  case True
  have "data_read 0 (Some (uninit BLOCK_SIZE s)) s = (SUCCESS, empty_block)"
    using assms(1) by (simp add: data_read_0 empty_block_def data_blk_def)
  then show ?thesis using True by (simp add: file_blk_def)
next
  case False
  then show ?thesis
    using data_read_ok[OF assms(1) file_map_leaf(2)[OF assms(2,3) False], of "uninit BLOCK_SIZE s"]
    by (simp add: file_blk_def)
qed

lemma upto_int_Suc: "i \<le> e \<Longrightarrow> [int i..int e] = int i # [int (Suc i)..int e]"
  by (simp add: upto_rec1 add.commute)

lemma c_u64_int [simp]: "n < 2 ^ 64 \<Longrightarrow> c_u64 (int n) = int n"
  by (rule c_u64_id) simp_all

lemma read_loop_spec:
  assumes m: "mounted s" and fok: "file_ok s ino"
    and fin: "off + len = e * BLOCK_SIZE + es" "1 \<le> es" "es \<le> BLOCK_SIZE" "e < MAX_FILE_BLOCKS"
    and len: "len < 2 ^ 31" "len \<le> length buf"
    and pos: "i \<le> e \<Longrightarrow> off + r = i * BLOCK_SIZE + rs \<and> rs < BLOCK_SIZE \<and> (i = e \<longrightarrow> rs < es)"
      "i = Suc e \<Longrightarrow> r = len" "i \<le> Suc e"
  shows "read_loop [int i..int e] (int e) (int es) ino (int rs) (int r) buf s =
    Some (int len, overlay r (file_bytes s ino (off + r) (len - r)) buf)"
  using len(2) pos
proof (induction "Suc e - i" arbitrary: i r rs buf)
  case 0
  then have "i = Suc e" by simp
  then show ?case using 0 len(1) by simp
next
  case (Suc d)
  then have ie: "i \<le> e" by simp
  note pp = Suc.prems(2)[OF ie]
  let ?sz = "if i = e then es else BLOCK_SIZE" and ?rd = "get_nth_datablock (Some ino) (int i) False False s"
  let ?c = "?sz - rs"
  have i: "i < MAX_FILE_BLOCKS" using ie fin(4) by simp
  have szb: "?sz \<le> BLOCK_SIZE" "rs < ?sz" using fin pp by auto
  have c: "rs + ?c \<le> BLOCK_SIZE" "0 < ?c" "rs + ?c = ?sz" using szb by simp_all
  have "off + (r + ?c) = i * BLOCK_SIZE + (rs + ?c)" using pp by (simp only: add.assoc[symmetric])
  then have nx: "off + (r + ?c) = i * BLOCK_SIZE + ?sz" unfolding c(3) .
  have "i * BLOCK_SIZE + BLOCK_SIZE \<le> e * BLOCK_SIZE" if "i \<noteq> e" using ie that by (intro slot_inside) simp
  then have le: "r + ?c \<le> len" using nx fin(1,2) by (cases "i = e") auto
  have rs: "(if int i = int e then c_u64 (int es) else int BLOCK_SIZE) = int ?sz"
    using fin(3) by (simp add: c_consts)
  have n: "c_u64 (int ?sz - int rs) = int ?c" "c_u64 (int r + (int ?sz - int rs)) = int (r + ?c)"
  proof -
    have e: "int ?sz - int rs = int ?c" using szb(2) by linarith
    have "?c < 2 ^ 64" "r + ?c < 2 ^ 64" using le len(1) by simp_all
    then show "c_u64 (int ?sz - int rs) = int ?c" "c_u64 (int r + (int ?sz - int rs)) = int (r + ?c)"
      unfolding e of_nat_add[symmetric] by (simp_all only: c_u64_int)
  qed
  have gn: "?rd = Some (int (file_map s ino i), ino, False, s)" by (rule get_nth_datablock_read[OF m fok i])
  have fl: "length (file_blk s ino i) = BLOCK_SIZE" using is_block_file_blk[OF m fok i] by (simp add: is_block_def)
  let ?buf = "overlay r (window rs ?c (file_blk s ino i)) buf"
  have cp: "memcpy buf (int r) (file_blk s ino i) (int rs) (int ?c) = Some ?buf"
    using c(1) le Suc.prems(1) fl by (intro memcpy_ok) simp_all
  have wl: "length (window rs ?c (file_blk s ino i)) = ?c" using c(1) fl by simp
  have bl: "length ?buf = length buf" using wl le Suc.prems(1) by simp
  have step: "read_loop [int i..int e] (int e) (int es) ino (int rs) (int r) buf s =
      read_loop [int (Suc i)..int e] (int e) (int es) ino (int 0) (int (r + ?c)) ?buf s"
    unfolding upto_int_Suc[OF ie] read_loop.simps Let_def rs gn option.case prod.case
      data_read_file_blk[OF m fok i] n cp by simp
  also have "\<dots> = Some (int len, overlay (r + ?c) (file_bytes s ino (off + (r + ?c)) (len - (r + ?c))) ?buf)"
  proof (rule Suc.hyps(1))
    show "d = Suc e - Suc i" using Suc.hyps(2) by simp
    show "len \<le> length ?buf" using bl Suc.prems(1) by simp
    show "Suc i = Suc e \<Longrightarrow> r + ?c = len" using nx fin(1) by simp
    show "Suc i \<le> Suc e" using ie by simp
    show "Suc i \<le> e \<Longrightarrow> off + (r + ?c) = Suc i * BLOCK_SIZE + 0 \<and> 0 < BLOCK_SIZE \<and> (Suc i = e \<longrightarrow> 0 < es)"
      using nx fin(2) by simp
  qed
  also have "overlay (r + ?c) (file_bytes s ino (off + (r + ?c)) (len - (r + ?c))) ?buf =
      overlay r (file_bytes s ino (off + r) (len - r)) buf"
  proof -
    have split: "len - r = ?c + (len - (r + ?c))" using le by simp
    have "window rs ?c (file_blk s ino i) = file_bytes s ino (off + r) ?c"
      unfolding conjunct1[OF pp] by (rule file_bytes_window[OF m fok i c(1)])
    then have "file_bytes s ino (off + r) (len - r) =
        window rs ?c (file_blk s ino i) @ file_bytes s ino (off + (r + ?c)) (len - (r + ?c))"
      unfolding split file_bytes_append add.assoc by (simp only:)
    then show ?thesis
      using overlay_append[of r "window rs ?c (file_blk s ino i)"
          "file_bytes s ino (off + (r + ?c)) (len - (r + ?c))" buf] wl le Suc.prems(1) by simp
  qed
  finally show ?case .
qed

lemma sdiv_nat [simp]: "int a sdiv int b = int (a div b)" "int a smod int b = int (a mod b)"
  by (cases "a = 0"; cases "b = 0"; simp add: signed_divide_int_def signed_modulo_int_def zdiv_int zmod_int)+

lemma local_inode_ok: "mounted s \<Longrightarrow> valid_inum s k \<Longrightarrow> local_inode (int k) s = (SUCCESS, inode_at s k)"
  by (simp add: local_inode_def inode_read_ok)

text \<open>
  The last byte of a transfer of \<open>n\<close> bytes at \<open>off\<close>: its block and, one-based, its place there.
\<close>

lemma end_block:
  assumes "0 < n" "off + n \<le> 2 ^ 31"
  defines "e \<equiv> (off + n - 1) div BLOCK_SIZE" and "es \<equiv> (off + n - 1) mod BLOCK_SIZE + 1"
  shows "off + n = e * BLOCK_SIZE + es" "1 \<le> es" "es \<le> BLOCK_SIZE" "e < MAX_FILE_BLOCKS" "e < 2 ^ 31"
    and "off div BLOCK_SIZE \<le> e" "off div BLOCK_SIZE = e \<Longrightarrow> off mod BLOCK_SIZE < es"
    and "int off + int n - 1 = int (off + n - 1)" "off div BLOCK_SIZE < 2 ^ 31"
proof -
  have le: "off \<le> off + n - 1" using assms(1) by simp
  have b: "off + n - 1 = e * BLOCK_SIZE + (off + n - 1) mod BLOCK_SIZE" by (simp add: e_def)
  then show "off + n = e * BLOCK_SIZE + es" using assms(1) by (simp add: es_def)
  show "1 \<le> es" "es \<le> BLOCK_SIZE" by (simp_all add: es_def Suc_le_eq)
  have "e \<le> off + n - 1" by (simp add: e_def)
  moreover have "off + n - 1 < 2 ^ 31" using assms(1,2) by simp
  ultimately show e: "e < 2 ^ 31" by simp
  show oe: "off div BLOCK_SIZE \<le> e" unfolding e_def using le by (rule div_le_mono)
  then show "off div BLOCK_SIZE < 2 ^ 31" using e by simp
  have "e \<le> 2 ^ 31 div BLOCK_SIZE" unfolding e_def using assms(1,2) by (intro div_le_mono) simp
  then show "e < MAX_FILE_BLOCKS" by (simp add: c_consts)
  show "int off + int n - 1 = int (off + n - 1)" using assms(1) by simp
  assume "off div BLOCK_SIZE = e"
  then have "off = e * BLOCK_SIZE + off mod BLOCK_SIZE" by (metis div_mult_mod_eq)
  then show "off mod BLOCK_SIZE < es" using le b unfolding es_def by linarith
qed

lemma read_i_spec:
  fixes off :: nat
  assumes m: "mounted s" and k: "valid_inum s k" and fok: "file_ok s (inode_at s k)"
    and sz: "file_size (inode_at s k) < 2 ^ 31" "sz < 2 ^ 64"
  defines "n \<equiv> min sz (file_size (inode_at s k) - off)"
  assumes len: "n \<le> length buf"
  shows "read_i (int k) (Some buf) (int off) (int sz) s =
    Some (int n, overlay 0 (file_bytes s (inode_at s k) off n) buf)"
proof -
  let ?ino = "inode_at s k"
  have us: "uint (i_size ?ino) = int (file_size ?ino)" by (simp add: file_size_def)
  show ?thesis
  proof (cases "file_size ?ino \<le> off")
    case True
    then show ?thesis by (simp add: read_i_def local_inode_ok[OF m k] us n_def)
  next
    case False
    then have d: "int (file_size ?ino) - int off = int (file_size ?ino - off)" by simp
    have "file_size ?ino - off < 2 ^ 64" using sz(1) by simp
    then have mn: "min (c_u64 (int (file_size ?ino) - int off)) (int sz) = int n"
      unfolding d n_def by (simp only: c_u64_int of_nat_min min.commute)
    have n31: "n < 2 ^ 31" using sz(1) unfolding n_def by simp
    then have cn: "c_int (int n) = int n" by simp
    show ?thesis
    proof (cases "n = 0")
      case True
      then show ?thesis using False mn cn by (simp add: read_i_def local_inode_ok[OF m k] us)
    next
      case n0: False
      have "off + n \<le> file_size ?ino" using n0 unfolding n_def by linarith
      then have on: "0 < n" "off + n \<le> 2 ^ 31" using n0 sz(1) by simp_all
      note e = end_block[OF on]
      have ne: "int n \<noteq> 0" using n0 by simp
      have nl: "\<not> int (file_size ?ino) \<le> int off" using False by simp
      let ?e = "(off + n - 1) div BLOCK_SIZE" and ?es = "(off + n - 1) mod BLOCK_SIZE + 1"
      have es: "int ((off + n - 1) mod BLOCK_SIZE) + 1 = int ?es" by simp
      have "read_i (int k) (Some buf) (int off) (int sz) s =
          read_loop [int (off div BLOCK_SIZE)..int ?e] (int ?e) (int ?es) ?ino (int (off mod BLOCK_SIZE)) (int 0) buf s"
        unfolding read_i_def option.case local_inode_ok[OF m k] Let_def prod.case us mn cn
          if_not_P[OF nl] if_not_P[OF ne] e(8) sdiv_nat es c_int_of_nat_id[OF e(5)] c_int_of_nat_id[OF e(9)]
        by simp
      also have "\<dots> = Some (int n, overlay 0 (file_bytes s ?ino (off + 0) (n - 0)) buf)"
        by (rule read_loop_spec[OF m fok e(1-4) n31 len]) (use e(6,7) in auto)
      finally show ?thesis by simp
    qed
  qed
qed

section \<open>write_i: one block\<close>

lemma consume_file [simp]:
  "addr_words (consume k s) = addr_words s" "file_map (consume k s) ino n = file_map s ino n"
  "file_set (consume k s) ino = file_set s ino" "file_ok (consume k s) ino = file_ok s ino"
  "file_full (consume k s) ino = file_full s ino" "file_blk (consume k s) ino n = file_blk s ino n"
proof -
  show a: "addr_words (consume k s) = addr_words s" by (rule ext) (simp add: addr_words_def)
  have v: "valid_data (consume k s) = valid_data s" by (rule ext) simp
  show "file_map (consume k s) ino n = file_map s ino n" "file_set (consume k s) ino = file_set s ino"
    "file_ok (consume k s) ino = file_ok s ino"
    "file_full (consume k s) ino = file_full s ino" "file_blk (consume k s) ino n = file_blk s ino n"
    by (simp_all add: file_map_def file_set_def file_ok_def file_full_def file_blk_def a v)
qed

lemma file_step_consume:
  "file_step {} (consume k s) ino t ino' = file_step {} s ino t ino'"
  by (simp add: file_step_def fs_frame_def valid_inum_def)

text \<open>
  The zero test is honest for a block when a nonzero byte is among the bytes tested, or the bytes to
  be written are zeros indeed, or the test does not matter because the block is written partially and
  is there already.  (The code tests \<open>c\<close> bytes from \<open>buf + write_start\<close>, not from
  \<open>buf + bytes_written\<close>.)
\<close>

definition zero_test_ok :: "byte list \<Rightarrow> nat \<Rightarrow> nat \<Rightarrow> nat \<Rightarrow> nat \<Rightarrow> bool" where
  "zero_test_ok buf ws c b block \<longleftrightarrow> (\<exists>j < c. ws + j < length buf \<and> buf ! (ws + j) \<noteq> 0) \<or>
    window b c buf = replicate c 0 \<or> c < BLOCK_SIZE \<and> block \<noteq> 0"

definition part_written ::
    "nat \<Rightarrow> nat \<Rightarrow> byte list \<Rightarrow> 'a layer1_scheme \<Rightarrow> inode \<Rightarrow> 'a layer1_scheme \<Rightarrow> inode \<Rightarrow> bool" where
  "part_written i ws x s ino t ino' \<longleftrightarrow> file_step {} s ino t ino' \<and> same_meta ino ino' \<and> file_full t ino' \<and>
    (\<forall>m < MAX_FILE_BLOCKS. m \<noteq> i \<longrightarrow> file_map t ino' m = file_map s ino m) \<and>
    (\<forall>m < MAX_FILE_BLOCKS.
      file_blk t ino' m = (if m = i then overlay ws x (file_blk s ino i) else file_blk s ino m))"

lemma peek_nonzero:
  assumes "fst (peek buf p n s) = replicate n 0" "j < n" "p + j < length buf"
  shows "buf ! (p + j) = 0"
proof -
  have "fst (peek buf p n s) ! j = buf ! (p + j)"
    using assms(2,3) by (simp add: peek_def Let_def nth_window nth_append)
  then show ?thesis using assms by simp
qed

lemma peek_inside: "p + n \<le> length buf \<Longrightarrow> peek buf p n s = (window p n buf, consume 0 s)"
  by (simp add: peek_def Let_def window_def)

lemma zero_test_sound:
  assumes "zero_test_ok buf ws c b block" "fst (peek buf ws c s) = replicate c 0"
  shows "window b c buf = replicate c 0 \<or> c < BLOCK_SIZE \<and> block \<noteq> 0"
  using assms peek_nonzero[OF assms(2)] unfolding zero_test_ok_def by blast

lemma overlay_zeros: "overlay p (replicate n 0) empty_block = empty_block" if "p + n \<le> BLOCK_SIZE"
  using that by (intro nth_equalityI) (auto simp: empty_block_def nth_overlay)

lemma part_written_rm:
  assumes ok: "fs_ok s" "file_ok s ino" and n: "i < MAX_FILE_BLOCKS" and full: "file_fullx i s ino"
    and z: "overlay ws x (file_blk s ino i) = empty_block"
  shows "\<exists>ino' t. rm_nth_datablock (Some ino) (int i) s = Some (SUCCESS, ino', t) \<and>
    part_written i ws x s ino t ino' \<and> file_map t ino' i = 0"
proof -
  obtain ino' t where r: "rm_nth_datablock (Some ino) (int i) s = Some (SUCCESS, ino', t)"
    "file_shrink i s ino t ino'" "file_map t ino' i = 0" "file_fullx i s ino \<longrightarrow> file_full t ino'"
    using rm_nth_datablock_spec[OF ok n] by blast
  have sh: "same_meta ino ino'" "\<forall>m < MAX_FILE_BLOCKS. m \<noteq> i \<longrightarrow> file_map t ino' m = file_map s ino m"
    using r(2) unfolding file_shrink_def by blast+
  have "file_blk t ino' m = (if m = i then overlay ws x (file_blk s ino i) else file_blk s ino m)"
    if "m < MAX_FILE_BLOCKS" for m
    using file_shrink_step(2)[OF ok(2) r(2) that] r(3) z by (simp add: file_blk_def)
  then have "part_written i ws x s ino t ino'"
    using file_shrink_step(1)[OF ok(2) r(2)] sh r(4) full unfolding part_written_def by blast
  then show ?thesis using r(1,3) by blast
qed

lemma part_written_after:
  assumes "file_step {} s ino t ino'" "same_meta ino ino'"
    "\<forall>m < MAX_FILE_BLOCKS. m \<noteq> i \<longrightarrow> file_map t ino' m = file_map s ino m"
    "\<forall>m < MAX_FILE_BLOCKS. file_blk t ino' m = file_blk s ino m"
    and p: "part_written i ws x t ino' u ino''" and i: "i < MAX_FILE_BLOCKS"
  shows "part_written i ws x s ino u ino''"
proof -
  have "file_step ({} \<union> {}) s ino u ino''"
    using p assms(1) unfolding part_written_def by (blast intro: file_step_trans)
  moreover have "same_meta ino ino''" using p assms(2) same_meta_trans unfolding part_written_def by blast
  ultimately show ?thesis using p assms(3,4) i unfolding part_written_def by simp
qed

lemma part_written_write:
  assumes ok: "fs_ok s" "file_ok s ino" "file_full s ino" and n: "i < MAX_FILE_BLOCKS" "file_map s ino i \<noteq> 0"
    and x: "ws + length x \<le> BLOCK_SIZE"
  shows "\<exists>t. data_write (int (file_map s ino i)) (Some (overlay ws x (file_blk s ino i))) s = (SUCCESS, t) \<and>
    part_written i ws x s ino t ino"
proof -
  let ?v = "overlay ws x (file_blk s ino i)"
  have m: "mounted s" using ok(1) by (rule fs_ok_mounted)
  have v: "is_block ?v" using is_block_file_blk[OF m ok(2) n(1)] x by (simp add: is_block_def)
  let ?t = "put_data (file_map s ino i) ?v s"
  note w = write_block_step[OF ok(1,2) n v]
  have "file_map ?t ino m = file_map s ino m" if "m < MAX_FILE_BLOCKS" for m
  proof -
    have "\<forall>x \<in> file_inner s ino. addr_words ?t x = addr_words s x"
    proof (intro ballI addr_words_frame)
      note b = file_map_leaf[OF ok(2) n]
      show "fs_frame {} {file_map s ino i} s ?t" using fs_frame_put_data(1)[OF ok(1) b(2) v b(3)] .
      fix x assume "x \<in> file_inner s ino"
      then show "x \<notin> {file_map s ino i}" using b(1) by blast
    qed
    then show ?thesis using file_cong(3)[of s ino ?t ino] that by simp
  qed
  then have "part_written i ws x s ino ?t ino"
    using w(2,3) w(4) ok(3) unfolding part_written_def by simp
  then show ?thesis using w(1) by blast
qed

lemma map_option_rm:
  "rm_nth_datablock (Some ino) i s = Some (ret, ino', t) \<Longrightarrow>
    map_option (\<lambda>(_, ino, s). (r, ino, s)) (rm_nth_datablock (Some ino) i s) = Some (r, ino', t)"
  by simp

lemma write_part_spec:
  assumes ok: "fs_ok s" "file_ok s ino" "file_full s ino" and i: "i < MAX_FILE_BLOCKS"
    and pos: "ws \<le> sz" "sz \<le> BLOCK_SIZE" "b + (sz - ws) \<le> length buf"
    and honest: "zero_test_ok buf ws (sz - ws) b (file_map s ino i)"
  shows "\<exists>r ino' t. write_part buf (int i) (int ws) (int sz) (int b) ino s = Some (r, ino', t) \<and>
    (r = None \<and> part_written i ws (window b (sz - ws) buf) s ino t ino' \<and>
      (sz - ws < BLOCK_SIZE \<or> window 0 (sz - ws) buf = replicate (sz - ws) 0 \<longrightarrow>
        file_blk t ino' i = empty_block \<longrightarrow> file_map t ino' i = 0) \<and>
      (file_map s ino i \<noteq> 0 \<and> file_blk t ino' i \<noteq> empty_block \<longrightarrow> ino' = ino) \<or>
     r = Some DATA_FULL \<and> ino' = ino \<and> part_written i 0 [] s ino t ino \<and>
      file_map t ino i = 0 \<and> file_map s ino i = 0 \<and> \<not> (i < 10 \<and> free_data s \<noteq> {}) \<and>
      (ws + (sz - ws) \<le> length buf \<longrightarrow> window ws (sz - ws) buf \<noteq> replicate (sz - ws) 0))"
proof -
  let ?c = "sz - ws" and ?x = "window b (sz - ws) buf"
  let ?blk = "overlay ws ?x (file_blk s ino i)"
  have m: "mounted s" using ok(1) by (rule fs_ok_mounted)
  have xl: "length ?x = ?c" "ws + length ?x \<le> BLOCK_SIZE" using pos by simp_all
  have bl: "length (file_blk s ino i) = BLOCK_SIZE" using is_block_file_blk[OF m ok(2) i] by (simp add: is_block_def)
  have n: "c_u64 (int sz - int ws) = int ?c"
  proof -
    have "?c < 2 ^ 64" using pos(2) by (simp add: c_consts)
    moreover have "int sz - int ws = int ?c" using pos(1) by simp
    ultimately show ?thesis by (simp only: c_u64_int)
  qed
  have guard: "\<not> (int ws < 0 \<or> int BLOCK_SIZE < int ?c)" using pos(2) by simp
  have whole: "(int sz = int BLOCK_SIZE \<and> int ws = 0) = (?c = BLOCK_SIZE)" using pos by auto
  obtain mem s1 where pk: "peek buf ws ?c s = (mem, s1)" by fastforce
  obtain k where s1: "s1 = consume k s" using pk by (auto simp: peek_def Let_def)
  have ok1: "fs_ok s1" "file_ok s1 ino" "file_full s1 ino" using ok by (simp_all add: s1)
  let ?z = "mem = replicate ?c 0"
  have sound: "?z \<Longrightarrow> ?x = replicate ?c 0 \<or> ?c < BLOCK_SIZE \<and> file_map s ino i \<noteq> 0"
    using zero_test_sound[OF honest, of s] pk by simp
  have pw: "part_written j p y s1 ino t ino' \<longleftrightarrow> part_written j p y s ino t ino'" for j p y t ino'
    unfolding part_written_def s1 by (simp add: file_step_consume)
  have fullx: "file_fullx i s1 ino" by (rule file_full_fullx[OF i ok1(3)])
  let ?goal = "\<lambda>r ino' t. r = None \<and> part_written i ws ?x s ino t ino' \<and>
      (?c < BLOCK_SIZE \<or> window 0 ?c buf = replicate ?c 0 \<longrightarrow>
        file_blk t ino' i = empty_block \<longrightarrow> file_map t ino' i = 0) \<and>
      (file_map s ino i \<noteq> 0 \<and> file_blk t ino' i \<noteq> empty_block \<longrightarrow> ino' = ino) \<or>
     r = Some DATA_FULL \<and> ino' = ino \<and> part_written i 0 [] s ino t ino \<and>
      file_map t ino i = 0 \<and> file_map s ino i = 0 \<and> \<not> (i < 10 \<and> free_data s \<noteq> {}) \<and>
      (ws + (sz - ws) \<le> length buf \<longrightarrow> window ws (sz - ws) buf \<noteq> replicate (sz - ws) 0)"
  have def: "write_part buf (int i) (int ws) (int sz) (int b) ino s =
      (if ?z \<and> ?c = BLOCK_SIZE then
         map_option (\<lambda>(_, ino, s). (None, ino, s)) (rm_nth_datablock (Some ino) (int i) s1)
       else case get_nth_datablock (Some ino) (int i) True False s1 of
         None \<Rightarrow> None
       | Some (block_addr, ino, created, s) \<Rightarrow>
           if block_addr = DATA_FULL \<and> \<not> ?z then
             map_option (\<lambda>(_, ino, s). (Some DATA_FULL, ino, s)) (rm_nth_datablock (Some ino) (int i) s)
           else if block_addr = DATA_FULL then
             map_option (\<lambda>(_, ino, s). (None, ino, s)) (rm_nth_datablock (Some ino) (int i) s)
           else if ?c = BLOCK_SIZE then
             (if int (length buf) < int b + int BLOCK_SIZE then None
              else (let (ret, s) = data_write block_addr (Some (window b BLOCK_SIZE buf)) s
                    in Some (if ret \<noteq> SUCCESS then Some ret else None, ino, s)))
           else
             (let (ret, block_buf) = (if created then (SUCCESS, empty_block)
                    else data_read block_addr (Some (uninit BLOCK_SIZE s)) s)
              in if ret \<noteq> SUCCESS then Some (Some ret, ino, s)
                 else case memcpy block_buf (int ws) buf (int b) (int ?c) of
                   None \<Rightarrow> None
                 | Some block_buf \<Rightarrow>
                     if block_buf = empty_block then
                       map_option (\<lambda>(_, ino, s). (None, ino, s)) (rm_nth_datablock (Some ino) (int i) s)
                     else (let (ret, s) = data_write block_addr (Some block_buf) s
                           in Some (if ret \<noteq> SUCCESS then Some ret else None, ino, s))))"
    unfolding write_part_def n Let_def if_not_P[OF guard] nat_int pk prod.case whole by (rule refl)
  show ?thesis
  proof (cases "?z \<and> ?c = BLOCK_SIZE")
    case True
    have "0 < BLOCK_SIZE" by simp
    then have "ws = 0" using True pos(1,2) by linarith
    moreover have "?x = replicate ?c 0" using sound True by simp
    ultimately have z: "overlay ws ?x (file_blk s1 ino i) = empty_block"
      using True pos bl by (simp add: overlay_all empty_block_def s1)
    obtain ino' t where r: "rm_nth_datablock (Some ino) (int i) s1 = Some (SUCCESS, ino', t)"
      "part_written i ws ?x s1 ino t ino'" "file_map t ino' i = 0"
      using part_written_rm[OF ok1(1,2) i fullx z] by blast
    have "file_blk t ino' i = empty_block" using r(3) by (simp add: file_blk_def)
    then have "?goal None ino' t" using r(2,3) pw by blast
    then show ?thesis using def True r(1) by (intro exI[of _ None] exI[of _ ino'] exI[of _ t]) simp
  next
    case notrm: False
    obtain a ino1 cr t1 where g: "get_nth_datablock (Some ino) (int i) True False s1 = Some (a, ino1, cr, t1)"
      "got_block i s1 ino False t1 ino1 cr a" using get_nth_datablock_create[OF ok1(1,2) i] by blast
    note gs = got_block_step[OF ok1(2) g(2)]
    have gr: "file_grow i s1 ino t1 ino1" using g(2) by (simp add: got_block_def)
    have ok2: "fs_ok t1" "file_ok t1 ino1" using file_stepD[OF gs(1)] by simp_all
    have maps: "\<forall>m < MAX_FILE_BLOCKS. m \<noteq> i \<longrightarrow> file_map t1 ino1 m = file_map s1 ino m"
      using gr by (simp add: file_grow_def)
    have blks: "\<forall>m < MAX_FILE_BLOCKS. file_blk t1 ino1 m = file_blk s1 ino m" using gs(3) by blast
    note after = part_written_after[OF gs(1,2) maps blks _ i]
    have fb: "file_blk t1 ino1 i = file_blk s ino i" using blks i by (simp add: s1)
    show ?thesis
    proof (cases "a = DATA_FULL")
      case True
      have full2: "file_fullx i t1 ino1" using gr fullx by (simp add: file_grow_def)
      have old: "file_map s1 ino i = 0" "file_map t1 ino1 i = 0"
        using g(2) True unfolding got_block_def Let_def by auto
      have e: "file_blk t1 ino1 i = empty_block" using old by (simp add: file_blk_def)
      have z0: "overlay 0 [] (file_blk t1 ino1 i) = empty_block" using e by simp
      obtain ino2 t2 where r: "rm_nth_datablock (Some ino1) (int i) t1 = Some (SUCCESS, ino2, t2)"
        "part_written i 0 [] t1 ino1 t2 ino2" "file_map t2 ino2 i = 0"
        using part_written_rm[OF ok2 i full2 z0] by blast
      obtain ino3 t3 where r3: "rm_nth_datablock (Some ino1) (int i) t1 = Some (SUCCESS, ino3, t3)"
        "file_shrink i t1 ino1 t3 ino3" "file_map t3 ino3 i = 0" "file_full t3 ino3"
        using rm_nth_datablock_spec[OF ok2 i] full2 by blast
      have "ino2 = ino"
        using full_disk_undone[OF ok1(2,3) i _ r3(2-4)] g(2) True r(1) r3(1) by auto
      then have p: "part_written i 0 [] s ino t2 ino" using after[OF r(2)] pw by blast
      show ?thesis
      proof (cases ?z)
        case z: True
        have "?x = replicate ?c 0" using sound[OF z] old(1) by (simp add: s1)
        then have "overlay ws ?x (file_blk s ino i) = file_blk s ino i"
          using overlay_zeros[of ws ?c] xl e fb by simp
        then have "part_written i ws ?x s ino t2 ino" using p unfolding part_written_def by simp
        then have "?goal None ino2 t2" using r(3) \<open>ino2 = ino\<close> by blast
        then show ?thesis using def notrm g(1) True z r(1)
          by (intro exI[of _ None] exI[of _ ino2] exI[of _ t2]) simp
      next
        case False
        have "file_map t2 ino i = 0 \<and> file_map s ino i = 0" using r(3) old(1) \<open>ino2 = ino\<close> by (simp add: s1)
        moreover have "ws + ?c \<le> length buf \<longrightarrow> window ws ?c buf \<noteq> replicate ?c 0"
          using False pk peek_inside[of ws ?c buf s] by auto
        moreover have "\<not> (i < 10 \<and> free_data s \<noteq> {})"
          using get_nth_datablock_direct[OF ok1(1,2), of i False] g(1) True by (auto simp: s1)
        ultimately show ?thesis using def False g(1) True r(1) p \<open>ino2 = ino\<close>
          by (intro exI[of _ "Some DATA_FULL"] exI[of _ ino2] exI[of _ t2]) simp
      qed
    next
      case nf: False
      have full2: "file_full t1 ino1" by (rule gs(4)[OF i ok1(3) nf])
      have a: "a = int (file_map t1 ino1 i)" "file_map t1 ino1 i \<noteq> 0"
        using g(2) nf unfolding got_block_def Let_def by auto
      have same: "file_map s ino i \<noteq> 0 \<longrightarrow> ino1 = ino"
        using g(2) nf unfolding got_block_def Let_def s1 by auto
      obtain t2 where w: "data_write a (Some (overlay ws ?x (file_blk s ino i))) t1 = (SUCCESS, t2)"
        "part_written i ws ?x t1 ino1 t2 ino1"
        using part_written_write[OF ok2 full2 i a(2) xl(2)] unfolding a(1) fb by blast
      have p: "part_written i ws ?x s ino t2 ino1" using after[OF w(2)] pw by blast
      show ?thesis
      proof (cases "?c = BLOCK_SIZE")
        case wh: True
        have "0 < BLOCK_SIZE" by simp
        then have ws0: "ws = 0" using wh pos(1,2) by linarith
        then have ov: "overlay ws ?x (file_blk s ino i) = window b BLOCK_SIZE buf"
          using wh pos bl by (simp add: overlay_all)
        have "window 0 ?c buf = replicate ?c 0 \<longrightarrow> ?z"
          using pk wh pos ws0 by (auto simp: peek_def Let_def window_def)
        moreover have "\<not> ?c < BLOCK_SIZE" using wh by simp
        ultimately have "?goal None ino1 t2" using p notrm wh same by blast
        moreover have "\<not> int (length buf) < int b + int BLOCK_SIZE" using pos(3) wh by simp
        ultimately show ?thesis using def notrm g(1) nf wh w(1)[unfolded ov]
          by (intro exI[of _ None] exI[of _ ino1] exI[of _ t2]) simp
      next
        case part: False
        have rd: "(if cr then (SUCCESS, empty_block) else data_read a (Some (uninit BLOCK_SIZE t1)) t1) =
            (SUCCESS, file_blk s ino i)"
        proof (cases cr)
          case True
          then have "file_map s1 ino i = 0" using g(2) nf unfolding got_block_def Let_def by auto
          then show ?thesis using True by (simp add: file_blk_def s1)
        next
          case False
          then show ?thesis
            using data_read_file_blk[OF fs_ok_mounted[OF ok2(1)] ok2(2) i] unfolding a(1) fb by simp
        qed
        have cp: "memcpy (file_blk s ino i) (int ws) buf (int b) (int ?c) = Some ?blk"
          using pos(3) xl bl by (intro memcpy_ok) simp_all
        show ?thesis
        proof (cases "?blk = empty_block")
          case True
          obtain ino2 t3 where r: "rm_nth_datablock (Some ino1) (int i) t1 = Some (SUCCESS, ino2, t3)"
            "part_written i ws ?x t1 ino1 t3 ino2" "file_map t3 ino2 i = 0"
            using part_written_rm[OF ok2 i file_full_fullx[OF i full2]] True fb by metis
          have "file_blk t3 ino2 i = empty_block" using r(3) by (simp add: file_blk_def)
          then have "?goal None ino2 t3" using after[OF r(2)] pw r(3) by blast
          then show ?thesis using def notrm g(1) nf part rd cp True r(1)
            by (intro exI[of _ None] exI[of _ ino2] exI[of _ t3]) simp
        next
          case False
          have "file_blk t2 ino1 i = ?blk" using p i unfolding part_written_def by simp
          then have "?goal None ino1 t2" using p False same by simp
          then show ?thesis using def notrm g(1) nf part rd cp False w(1)
            by (intro exI[of _ None] exI[of _ ino1] exI[of _ t2]) simp
        qed
      qed
    qed
  qed
qed

end
