(* ===== verification/FileWrite.thy ===== *)
theory FileWrite
  imports FileIO
begin

text \<open>
  What \<open>write_i\<close>, \<open>truncate\<close> and \<open>del\<close> of theory \<open>FileIO\<close> do to a file: the loop of \<open>write_i\<close> over the
  blocks, with its writes of the inode, and the effect on the bytes of the file.
\<close>

section \<open>Writing the inode\<close>

lemma put_inode_file:
  assumes ok: "fs_ok s" "file_ok s ino" and k: "valid_inum s k"
    and wf: "inode_wf ino'" and p: "\<forall>p < NPTRS. iptr ino' p = iptr ino p"
  defines "t \<equiv> put_inode k ino' s"
  shows "file_step {k} s ino t ino'" "inode_at t k = ino'" "file_full t ino' = file_full s ino"
    "n < MAX_FILE_BLOCKS \<Longrightarrow> file_map t ino' n = file_map s ino n"
    "n < MAX_FILE_BLOCKS \<Longrightarrow> file_blk t ino' n = file_blk s ino n"
    "inode_write (int k) (Some ino') s = (SUCCESS, t)"
proof -
  have m: "mounted s" using ok(1) by (rule fs_ok_mounted)
  note st = inode_step_put_inode[OF m k wf, folded t_def]
  have d: "data_blk t x = data_blk s x" for x using inode_step_data(1)[OF st] .
  have "\<forall>x \<in> file_inner s ino. addr_words t x = addr_words s x" by (simp add: addr_words_def d)
  note c = file_cong[OF this p]
  show "file_full t ino' = file_full s ino" by (rule c)
  show "file_map t ino' n = file_map s ino n" if "n < MAX_FILE_BLOCKS" for n using c(3)[OF that] .
  then show "n < MAX_FILE_BLOCKS \<Longrightarrow> file_blk t ino' n = file_blk s ino n" by (simp add: file_blk_def d)
  show "inode_write (int k) (Some ino') s = (SUCCESS, t)" unfolding t_def by (rule inode_write_ok[OF m k wf])
  show "inode_at t k = ino'" unfolding t_def using inode_at_put_inode[OF m k wf, of k] k by (simp add: valid_inum_def)
  have "fs_frame {k} (free_data s \<union> file_set s ino) s t"
    using fs_frame_mono[OF fs_frame_put_inode[OF ok(1) k wf, folded t_def]] by blast
  moreover have "free_data t = free_data s" by (rule inode_step_free_list(2)[OF st])
  moreover have "free_inums t = free_inums s" unfolding t_def by (rule put_inode_free_inums[OF m k wf])
  moreover have "valid_data t = valid_data s" using inode_step_layout(11)[OF st] by blast
  then have "file_ok t ino'" using ok(2) c(1,4) wf \<open>free_data t = free_data s\<close> unfolding file_ok_def by simp
  ultimately show "file_step {k} s ino t ino'" using c(1) unfolding file_step_def by simp
qed

section \<open>Blocks and bytes\<close>

lemma byte_block: "j < MAX_FILE_BYTES \<Longrightarrow> j div BLOCK_SIZE < MAX_FILE_BLOCKS"
  by (simp add: MAX_FILE_BYTES_def less_mult_imp_div_less)

lemma in_block:
  assumes "ws + n \<le> BLOCK_SIZE"
  shows "i * BLOCK_SIZE + ws \<le> j \<and> j < i * BLOCK_SIZE + ws + n \<longleftrightarrow>
    j div BLOCK_SIZE = i \<and> ws \<le> j mod BLOCK_SIZE \<and> j mod BLOCK_SIZE < ws + n"
proof
  assume l: "i * BLOCK_SIZE + ws \<le> j \<and> j < i * BLOCK_SIZE + ws + n"
  then obtain d where d: "j = i * BLOCK_SIZE + d" "ws \<le> d" "d < ws + n"
    by (metis add.assoc le_add1 le_iff_add nat_add_left_cancel_le nat_add_left_cancel_less order_trans)
  then have "d < BLOCK_SIZE" using assms by simp
  then show "j div BLOCK_SIZE = i \<and> ws \<le> j mod BLOCK_SIZE \<and> j mod BLOCK_SIZE < ws + n"
    using d by simp
next
  assume r: "j div BLOCK_SIZE = i \<and> ws \<le> j mod BLOCK_SIZE \<and> j mod BLOCK_SIZE < ws + n"
  moreover have "j = i * BLOCK_SIZE + j mod BLOCK_SIZE" using r div_mult_mod_eq[of j BLOCK_SIZE] by simp
  ultimately show "i * BLOCK_SIZE + ws \<le> j \<and> j < i * BLOCK_SIZE + ws + n" by linarith
qed

lemma part_written_byte:
  assumes "mounted s" "file_ok s ino" "part_written i ws x s ino t ino'" "i < MAX_FILE_BLOCKS"
    "ws + length x \<le> BLOCK_SIZE" "j < MAX_FILE_BYTES"
  shows "file_byte t ino' j =
    (if i * BLOCK_SIZE + ws \<le> j \<and> j < i * BLOCK_SIZE + ws + length x then x ! (j - (i * BLOCK_SIZE + ws))
     else file_byte s ino j)"
proof -
  let ?m = "j div BLOCK_SIZE" and ?o = "j mod BLOCK_SIZE"
  have m: "?m < MAX_FILE_BLOCKS" by (rule byte_block[OF assms(6)])
  have b: "file_blk t ino' ?m = (if ?m = i then overlay ws x (file_blk s ino i) else file_blk s ino ?m)"
    using assms(3) m unfolding part_written_def by blast
  show ?thesis
  proof (cases "?m = i")
    case False
    then have "\<not> (i * BLOCK_SIZE + ws \<le> j \<and> j < i * BLOCK_SIZE + ws + length x)"
      using in_block[OF assms(5), of i j] by blast
    moreover have "file_byte t ino' j = file_byte s ino j" using b False by (simp add: file_byte_def)
    ultimately show ?thesis by (simp only: if_False)
  next
    case True
    have "length (file_blk s ino i) = BLOCK_SIZE"
      using is_block_file_blk[OF assms(1,2,4)] by (simp add: is_block_def)
    then have "file_byte t ino' j =
        (if ws \<le> ?o \<and> ?o < ws + length x then x ! (?o - ws) else file_blk s ino i ! ?o)"
      using b True assms(5) by (simp add: file_byte_def nth_overlay)
    moreover have "j - (i * BLOCK_SIZE + ws) = ?o - ws" using True by (metis diff_diff_left minus_mult_div_eq_mod mult.commute)
    ultimately show ?thesis using in_block[OF assms(5), of i j] True by (simp add: file_byte_def)
  qed
qed

lemma uint_size: "uint (i_size ino) = int (file_size ino)"
  by (simp add: file_size_def)

section \<open>The loop of write_i\<close>

text \<open>The inode after \<open>q\<close> bytes were written at \<open>off\<close>, but for its block pointers.\<close>

definition write_meta :: "nat \<Rightarrow> nat \<Rightarrow> inode \<Rightarrow> inode" where
  "write_meta off q ino = (if q = 0 then ino else ino
    \<lparr>i_size := word_of_nat (max (file_size ino) (off + q)),
     i_mode := i_mode ino AND (0xffff XOR (S_ISUID OR S_ISGID))\<rparr>)"

definition touched :: "nat \<Rightarrow> nat \<Rightarrow> nat \<Rightarrow> bool" where
  "touched off q m \<longleftrightarrow> 0 < q \<and> off < Suc m * BLOCK_SIZE \<and> m * BLOCK_SIZE < off + q"

text \<open>\<open>wrote k off buf q s t\<close>: from \<open>s\<close> to \<open>t\<close> the first \<open>q\<close> bytes of \<open>buf\<close> went to offset \<open>off\<close> of file \<open>k\<close>.\<close>

definition wrote ::
    "nat \<Rightarrow> nat \<Rightarrow> byte list \<Rightarrow> nat \<Rightarrow> 'a layer1_scheme \<Rightarrow> 'a layer1_scheme \<Rightarrow> bool" where
  "wrote k off buf q s t \<longleftrightarrow> file_step {k} s (inode_at s k) t (inode_at t k) \<and> file_full t (inode_at t k) \<and>
    same_meta (write_meta off q (inode_at s k)) (inode_at t k) \<and>
    (\<forall>j < MAX_FILE_BYTES. file_byte t (inode_at t k) j =
      (if off \<le> j \<and> j < off + q then buf ! (j - off) else file_byte s (inode_at s k) j)) \<and>
    (\<forall>m < MAX_FILE_BLOCKS. \<not> touched off q m \<longrightarrow>
      file_map t (inode_at t k) m = file_map s (inode_at s k) m) \<and>
    (buf = replicate (length buf) 0 \<longrightarrow> (\<forall>m < MAX_FILE_BLOCKS. touched off q m \<longrightarrow>
      file_blk t (inode_at t k) m = empty_block \<longrightarrow> file_map t (inode_at t k) m = 0))"

lemma wrote_0:
  "fs_ok s \<Longrightarrow> file_ok s (inode_at s k) \<Longrightarrow> file_full s (inode_at s k) \<Longrightarrow> wrote k off buf 0 s s"
  by (auto simp: wrote_def file_step_refl write_meta_def touched_def)

lemma block_order:
  assumes "0 < c" "ws + c \<le> BLOCK_SIZE"
  shows "m * BLOCK_SIZE < i * BLOCK_SIZE + ws + c \<longleftrightarrow> m \<le> i"
proof
  assume "m \<le> i"
  then have "m * BLOCK_SIZE \<le> i * BLOCK_SIZE" by simp
  then show "m * BLOCK_SIZE < i * BLOCK_SIZE + ws + c" using assms(1) by linarith
next
  assume l: "m * BLOCK_SIZE < i * BLOCK_SIZE + ws + c"
  have "\<not> i < m"
  proof
    assume "i < m"
    then have "i * BLOCK_SIZE + BLOCK_SIZE \<le> m * BLOCK_SIZE" by (rule slot_inside)
    then show False using l assms(2) by linarith
  qed
  then show "m \<le> i" by simp
qed

lemma touched_step:
  assumes pos: "off + r = i * BLOCK_SIZE + ws" "0 < c" "ws + c \<le> BLOCK_SIZE" "0 < r \<longrightarrow> ws = 0"
  shows "touched off (r + c) m \<longleftrightarrow> touched off r m \<or> m = i"
proof -
  have rc: "m * BLOCK_SIZE < off + (r + c) \<longleftrightarrow> m \<le> i"
    using block_order[OF pos(2,3), of m i] pos(1) by (simp add: add.assoc[symmetric])
  have self: "off < Suc i * BLOCK_SIZE" using pos(1-3) by simp
  show ?thesis
  proof (cases "r = 0")
    case True
    have "off < Suc m * BLOCK_SIZE \<Longrightarrow> i \<le> m"
      using block_order[of 1 "BLOCK_SIZE - 1" i m] pos(1) True by (simp add: c_consts)
    then show ?thesis using rc self pos(2) True unfolding touched_def by (metis add_gr_0 le_antisym order_refl less_irrefl)
  next
    case False
    then have "off + r = i * BLOCK_SIZE" using pos(1,4) by simp
    then have "m * BLOCK_SIZE < off + r \<longleftrightarrow> m < i" by simp
    then show ?thesis using rc self False unfolding touched_def by auto
  qed
qed

lemma iptr_meta [simp]: "iptr (ino\<lparr>i_size := a\<rparr>) p = iptr ino p" "iptr (ino\<lparr>i_mode := b\<rparr>) p = iptr ino p"
  "inode_wf (ino\<lparr>i_size := a\<rparr>) = inode_wf ino" "inode_wf (ino\<lparr>i_mode := b\<rparr>) = inode_wf ino"
  by (simp_all add: iptr_def inode_wf_def)

lemma wrote_step:
  assumes w: "wrote k off buf r s t" and k: "valid_inum s k"
    and pw: "part_written i ws (window r c buf) t (inode_at t k) t1 ino1"
    and z: "buf = replicate (length buf) 0 \<longrightarrow> file_blk t1 ino1 i = empty_block \<longrightarrow> file_map t1 ino1 i = 0"
    and pos: "off + r = i * BLOCK_SIZE + ws" "0 < c" "ws + c \<le> BLOCK_SIZE" "0 < r \<longrightarrow> ws = 0"
    and i: "i < MAX_FILE_BLOCKS" and len: "r + c \<le> length buf"
  defines "ino2 \<equiv> ino1\<lparr>i_size := word_of_nat (max (file_size (inode_at s k)) (off + (r + c))),
      i_mode := i_mode ino1 AND (0xffff XOR (S_ISUID OR S_ISGID))\<rparr>"
  defines "t2 \<equiv> put_inode k ino2 t1"
  shows "wrote k off buf (r + c) s t2" "inode_at t2 k = ino2" "inode_write (int k) (Some ino2) t1 = (SUCCESS, t2)"
proof -
  let ?orig = "inode_at s k" and ?i = "inode_at t k"
  have st: "file_step {k} s ?orig t ?i" using w unfolding wrote_def by blast
  have st1: "file_step {} t ?i t1 ino1" "same_meta ?i ino1" "file_full t1 ino1"
    using pw by (simp_all add: part_written_def)
  note d = file_stepD[OF st] and d1 = file_stepD[OF st1(1)]
  have k1: "valid_inum t1 k" using k d(7) d1(7) by simp
  have p: "\<forall>p < NPTRS. iptr ino2 p = iptr ino1 p" "inode_wf ino2"
    using file_okD(1)[OF d1(4)] by (simp_all add: ino2_def)
  note pi = put_inode_file[OF d1(5,4) k1 p(2,1), folded t2_def]
  show at: "inode_at t2 k = ino2" and "inode_write (int k) (Some ino2) t1 = (SUCCESS, t2)" by (rule pi)+
  have "file_step ({k} \<union> {} \<union> {k}) s ?orig t2 ino2"
    by (rule file_step_trans[OF file_step_trans[OF st st1(1)] pi(1)])
  then have step: "file_step {k} s ?orig t2 ino2" by simp
  have meta: "same_meta (write_meta off (r + c) ?orig) ino2"
  proof -
    have wm: "same_meta (write_meta off r ?orig) ino1"
      using w st1(2) same_meta_trans unfolding wrote_def by blast
    have idem: "(x AND y) AND y = x AND y" for x y :: u32 by (simp add: and.assoc)
    have "i_mode ino1 AND (0xffff XOR (S_ISUID OR S_ISGID)) = i_mode ?orig AND (0xffff XOR (S_ISUID OR S_ISGID))"
      using wm unfolding same_meta_def write_meta_def by (cases "r = 0") (simp, simp, metis idem)
    then show ?thesis
      using wm pos(2) by (cases "r = 0") (simp_all add: same_meta_def write_meta_def ino2_def)
  qed
  have byte: "file_byte t2 ino2 j = (if off \<le> j \<and> j < off + (r + c) then buf ! (j - off) else file_byte s ?orig j)"
    if j: "j < MAX_FILE_BYTES" for j
  proof -
    have wl: "length (window r c buf) = c" using len by simp
    have "ws + length (window r c buf) \<le> BLOCK_SIZE" using pos(3) wl by simp
    from part_written_byte[OF d(6,4) pw i this j]
    have "file_byte t1 ino1 j = (if off + r \<le> j \<and> j < off + r + c then window r c buf ! (j - (off + r))
        else file_byte t ?i j)" unfolding wl pos(1) .
    moreover have "window r c buf ! (j - (off + r)) = buf ! (j - off)" if "off + r \<le> j" "j < off + r + c"
      using that len by (simp add: nth_window)
    moreover have "file_byte t2 ino2 j = file_byte t1 ino1 j"
      using pi(5)[OF byte_block[OF j]] by (simp add: file_byte_def)
    moreover have "file_byte t ?i j = (if off \<le> j \<and> j < off + r then buf ! (j - off) else file_byte s ?orig j)"
      using w j unfolding wrote_def by blast
    ultimately show ?thesis by auto
  qed
  have map: "file_map t2 ino2 m = file_map s ?orig m" if "m < MAX_FILE_BLOCKS" "\<not> touched off (r + c) m" for m
  proof -
    have "m \<noteq> i" "\<not> touched off r m" using that(2) touched_step[OF pos] by blast+
    then show ?thesis using pi(4)[OF that(1)] pw w that(1) unfolding part_written_def wrote_def by simp
  qed
  have zero: "file_map t2 ino2 m = 0"
    if "buf = replicate (length buf) 0" "m < MAX_FILE_BLOCKS" "touched off (r + c) m" "file_blk t2 ino2 m = empty_block" for m
  proof (cases "m = i")
    case True
    then show ?thesis using pi(4,5)[OF that(2)] z that by simp
  next
    case False
    then have tm: "touched off r m" using that(3) touched_step[OF pos] by blast
    have "file_blk t ?i m = empty_block" "file_map t2 ino2 m = file_map t ?i m"
      using pi(4,5)[OF that(2)] pw False that unfolding part_written_def by simp_all
    then show ?thesis using w tm that(1,2) unfolding wrote_def by simp
  qed
  show "wrote k off buf (r + c) s t2"
    unfolding wrote_def at using step pi(3) st1(3) meta byte map zero by blast
qed

lemma wrote_same:
  assumes w: "wrote k off buf r s t" and k: "valid_inum s k"
    and pw: "part_written i 0 [] t (inode_at t k) t1 (inode_at t k)"
    and mi: "file_map t1 (inode_at t k) i = file_map t (inode_at t k) i"
  shows "wrote k off buf r s t1"
proof -
  let ?ino = "inode_at t k"
  have st: "file_step {k} s (inode_at s k) t ?ino" using w unfolding wrote_def by blast
  have fr: "file_step {} t ?ino t1 ?ino" and full: "file_full t1 ?ino" using pw by (simp_all add: part_written_def)
  have at: "inode_at t1 k = ?ino"
    using fs_frameD(8)[OF file_stepD(1)[OF fr], of k] k file_stepD(7)[OF st] by simp
  have "file_step ({k} \<union> {}) s (inode_at s k) t1 ?ino" by (rule file_step_trans[OF st fr])
  moreover have b: "file_blk t1 ?ino m = file_blk t ?ino m" if "m < MAX_FILE_BLOCKS" for m
    using pw that unfolding part_written_def by auto
  moreover have "file_map t1 ?ino m = file_map t ?ino m" if "m < MAX_FILE_BLOCKS" for m
    using pw mi that unfolding part_written_def by (cases "m = i") auto
  moreover have "file_byte t1 ?ino j = file_byte t ?ino j" if "j < MAX_FILE_BYTES" for j
    using b[OF byte_block[OF that]] by (simp add: file_byte_def)
  ultimately show ?thesis using w full unfolding wrote_def at by simp
qed

text \<open>The zero test is honest for every block of the transfer.\<close>

definition write_honest :: "'a layer1_scheme \<Rightarrow> inode \<Rightarrow> byte list \<Rightarrow> nat \<Rightarrow> nat \<Rightarrow> bool" where
  "write_honest s ino buf off n \<longleftrightarrow>
    (\<forall>i \<in> {off div BLOCK_SIZE..(off + n - 1) div BLOCK_SIZE}.
      let p = max off (i * BLOCK_SIZE); q = min (Suc i * BLOCK_SIZE) (off + n)
      in zero_test_ok buf (p - i * BLOCK_SIZE) (q - p) (p - off) (file_map s ino i))"

lemma new_size_nat:
  assumes "a < 2 ^ 31" "off + r < 2 ^ 32"
  shows "new_size (int a) (int off) (int r) = word_of_nat (max a (off + r))"
proof -
  have "a < 2 ^ 64" "off + r < 2 ^ 64" using assms by simp_all
  then show ?thesis
    unfolding new_size_def of_nat_add[symmetric] by (simp only: c_u64_int flip: of_nat_max) simp
qed

lemma zeros_window: "xs = replicate (length xs) 0 \<Longrightarrow> p + c \<le> length xs \<Longrightarrow> window p c xs = replicate c 0"
  by (metis window_def drop_replicate take_replicate min_absorb1 Nat.le_diff_conv2 add.commute le_add1 order_trans)

lemma write_loop_spec:
  assumes ok: "fs_ok s" "file_ok s (inode_at s k)" "file_size (inode_at s k) < 2 ^ 31"
    and k: "valid_inum s k"
    and fin: "off + n = e * BLOCK_SIZE + es" "1 \<le> es" "es \<le> BLOCK_SIZE" "e < MAX_FILE_BLOCKS"
    and n: "off + n \<le> 2 ^ 31" "n < 2 ^ 31" "n \<le> length buf"
    and honest: "\<forall>i ws sz r. off div BLOCK_SIZE \<le> i \<and> i \<le> e \<and> off + r = i * BLOCK_SIZE + ws \<and>
      (0 < r \<longrightarrow> ws = 0) \<and> sz = (if i = e then es else BLOCK_SIZE) \<longrightarrow>
      zero_test_ok buf ws (sz - ws) r (file_map s (inode_at s k) i)"
    and pos: "i \<le> e \<Longrightarrow> off + r = i * BLOCK_SIZE + ws \<and> ws < BLOCK_SIZE \<and> (i = e \<longrightarrow> ws < es) \<and>
        (0 < r \<longrightarrow> ws = 0) \<and> off div BLOCK_SIZE \<le> i"
      "i = Suc e \<Longrightarrow> r = n" "i \<le> Suc e"
    and w: "wrote k off buf r s t"
  shows "\<exists>ret q u. write_loop [int i..int e] (int k) buf (int off) (int (file_size (inode_at s k))) (int e)
      (int es) (int ws) (int r) (inode_at t k) t = Some (ret, u) \<and> wrote k off buf q s u \<and>
    (ret = int n \<and> q = n \<or> ret = DATA_FULL \<and> q < n \<and>
      \<not> (off mod BLOCK_SIZE = 0 \<and> buf = replicate (length buf) 0))"
  using pos w
proof (induction "Suc e - i" arbitrary: i r ws t)
  case 0
  then have "i = Suc e" by simp
  then show ?case using 0 n(2) by auto
next
  case (Suc d)
  then have ie: "i \<le> e" by simp
  note pp = Suc.prems(1)[OF ie]
  let ?sz = "if i = e then es else BLOCK_SIZE" and ?ino = "inode_at t k"
  let ?c = "?sz - ws"
  have i: "i < MAX_FILE_BLOCKS" using ie fin(4) by simp
  have szb: "?sz \<le> BLOCK_SIZE" "ws < ?sz" using fin pp by auto
  have c: "ws + ?c \<le> BLOCK_SIZE" "0 < ?c" "ws + ?c = ?sz" using szb by simp_all
  have "off + (r + ?c) = i * BLOCK_SIZE + (ws + ?c)" using pp by (simp only: add.assoc[symmetric])
  then have nx: "off + (r + ?c) = i * BLOCK_SIZE + ?sz" unfolding c(3) .
  have "i * BLOCK_SIZE + BLOCK_SIZE \<le> e * BLOCK_SIZE" if "i \<noteq> e" using ie that by (intro slot_inside) simp
  then have le: "r + ?c \<le> n" using nx fin(1,2) by (cases "i = e") auto
  have sz: "(if int i = int e then c_u64 (int es) else int BLOCK_SIZE) = int ?sz"
    using fin(3) by (simp add: c_consts)
  have st: "file_step {k} s (inode_at s k) t ?ino" "file_full t ?ino" using Suc.prems(4) unfolding wrote_def by blast+
  note d = file_stepD[OF st(1)]
  have first: "off + r = i * BLOCK_SIZE + ws" "0 < r \<longrightarrow> ws = 0" "off div BLOCK_SIZE \<le> i" using pp by blast+
  have "\<not> touched off r i" using first by (auto simp: touched_def)
  then have old: "file_map t ?ino i = file_map s (inode_at s k) i"
    using Suc.prems(4) i unfolding wrote_def by blast
  have "zero_test_ok buf ws ?c r (file_map s (inode_at s k) i)" using honest ie first by blast
  then have h: "zero_test_ok buf ws ?c r (file_map t ?ino i)" unfolding old .
  have le': "r + ?c \<le> length buf" using le n(3) by simp
  obtain ret ino1 t1 where p: "write_part buf (int i) (int ws) (int ?sz) (int r) ?ino t = Some (ret, ino1, t1)"
    and res: "(ret = None \<and> part_written i ws (window r ?c buf) t ?ino t1 ino1 \<and>
      (?c < BLOCK_SIZE \<or> window 0 ?c buf = replicate ?c 0 \<longrightarrow>
        file_blk t1 ino1 i = empty_block \<longrightarrow> file_map t1 ino1 i = 0) \<and>
      (file_map t ?ino i \<noteq> 0 \<and> file_blk t1 ino1 i \<noteq> empty_block \<longrightarrow> ino1 = ?ino)) \<or>
     (ret = Some DATA_FULL \<and> ino1 = ?ino \<and> part_written i 0 [] t ?ino t1 ?ino \<and>
      file_map t1 ?ino i = 0 \<and> file_map t ?ino i = 0 \<and> \<not> (i < 10 \<and> free_data t \<noteq> {}) \<and>
      (ws + ?c \<le> length buf \<longrightarrow> window ws ?c buf \<noteq> replicate ?c 0))"
    using write_part_spec[OF d(5,4) st(2) i less_imp_le[OF szb(2)] szb(1) le' h] by blast
  from res show ?case
  proof
    assume r: "ret = Some DATA_FULL \<and> ino1 = ?ino \<and> part_written i 0 [] t ?ino t1 ?ino \<and>
      file_map t1 ?ino i = 0 \<and> file_map t ?ino i = 0 \<and> \<not> (i < 10 \<and> free_data t \<noteq> {}) \<and>
      (ws + ?c \<le> length buf \<longrightarrow> window ws ?c buf \<noteq> replicate ?c 0)"
    then have "wrote k off buf r s t1" using wrote_same[OF Suc.prems(4) k] by metis
    moreover have "write_loop [int i..int e] (int k) buf (int off) (int (file_size (inode_at s k))) (int e)
        (int es) (int ws) (int r) ?ino t = Some (DATA_FULL, t1)"
      unfolding upto_int_Suc[OF ie] write_loop.simps Let_def sz p using r by simp
    moreover have "r < n" using le c(2) by simp
    moreover have "\<not> (off mod BLOCK_SIZE = 0 \<and> buf = replicate (length buf) 0)"
    proof
      assume z: "off mod BLOCK_SIZE = 0 \<and> buf = replicate (length buf) 0"
      have "r = 0 \<Longrightarrow> off mod BLOCK_SIZE = ws mod BLOCK_SIZE" using first(1) by simp
      then have "ws = 0" using z first(2) szb by (cases "r = 0") simp_all
      then show False using r z le' zeros_window by fastforce
    qed
    ultimately show ?thesis by blast
  next
    assume r: "ret = None \<and> part_written i ws (window r ?c buf) t ?ino t1 ino1 \<and>
      (?c < BLOCK_SIZE \<or> window 0 ?c buf = replicate ?c 0 \<longrightarrow>
        file_blk t1 ino1 i = empty_block \<longrightarrow> file_map t1 ino1 i = 0) \<and>
      (file_map t ?ino i \<noteq> 0 \<and> file_blk t1 ino1 i \<noteq> empty_block \<longrightarrow> ino1 = ?ino)"
    then have pw: "part_written i ws (window r ?c buf) t ?ino t1 ino1" by blast
    have zero: "buf = replicate (length buf) 0 \<longrightarrow> file_blk t1 ino1 i = empty_block \<longrightarrow> file_map t1 ino1 i = 0"
    proof
      assume "buf = replicate (length buf) 0"
      then have "window 0 ?c buf = replicate ?c 0" using le' by (intro zeros_window) simp_all
      then show "file_blk t1 ino1 i = empty_block \<longrightarrow> file_map t1 ino1 i = 0" using r by blast
    qed
    let ?ino2 = "ino1\<lparr>i_size := word_of_nat (max (file_size (inode_at s k)) (off + (r + ?c))),
      i_mode := i_mode ino1 AND (0xffff XOR (S_ISUID OR S_ISGID))\<rparr>"
    let ?t2 = "put_inode k ?ino2 t1"
    note ws = wrote_step[OF Suc.prems(4) k pw zero first(1) c(2,1) first(2) i le']
    have on: "off + (r + ?c) \<le> 2 ^ 31" using le n(1) by linarith
    have n31: "r + ?c < 2 ^ 31" using le n(2) by linarith
    have cn: "int r + (int ?sz - int ws) = int (r + ?c)" using szb(2) by simp
    have "c_u64 (int (r + ?c)) = int (r + ?c)" using n31 by (intro c_u64_int) simp
    then have b: "c_u64 (int r + (int ?sz - int ws)) = int (r + ?c)" unfolding cn .
    have ns: "new_size (int (file_size (inode_at s k))) (int off) (int (r + ?c)) =
        word_of_nat (max (file_size (inode_at s k)) (off + (r + ?c)))"
      using ok(3) on by (intro new_size_nat) simp_all
    have call: "write_loop [int i..int e] (int k) buf (int off) (int (file_size (inode_at s k))) (int e)
        (int es) (int ws) (int r) ?ino t =
      write_loop [int (Suc i)..int e] (int k) buf (int off) (int (file_size (inode_at s k))) (int e)
        (int es) (int 0) (int (r + ?c)) (inode_at ?t2 k) ?t2"
      unfolding upto_int_Suc[OF ie] write_loop.simps Let_def sz p option.case prod.case conjunct1[OF r]
        b ns ws(2,3) int_ops(1) by (rule refl)
    show ?thesis unfolding call
    proof (rule Suc.hyps(1))
      show "d = Suc e - Suc i" using Suc.hyps(2) by simp
      show "Suc i = Suc e \<Longrightarrow> r + ?c = n" using nx fin(1) by simp
      show "Suc i \<le> Suc e" using ie by simp
      show "Suc i \<le> e \<Longrightarrow> off + (r + ?c) = Suc i * BLOCK_SIZE + 0 \<and> 0 < BLOCK_SIZE \<and> (Suc i = e \<longrightarrow> 0 < es) \<and>
          (0 < r + ?c \<longrightarrow> (0 :: nat) = 0) \<and> off div BLOCK_SIZE \<le> Suc i"
        using nx fin(2) first(3) by simp
      show "wrote k off buf (r + ?c) s ?t2" by (rule ws(1))
    qed
  qed
qed

lemma honest_loop:
  assumes h: "write_honest s ino buf off n" and e: "e = (off + n - 1) div BLOCK_SIZE"
    and fin: "off + n = e * BLOCK_SIZE + es" "1 \<le> es" "es \<le> BLOCK_SIZE"
    and i: "off div BLOCK_SIZE \<le> i" "i \<le> e" "off + r = i * BLOCK_SIZE + ws" "0 < r \<longrightarrow> ws = 0"
    and sz: "sz = (if i = e then es else BLOCK_SIZE)"
  shows "zero_test_ok buf ws (sz - ws) r (file_map s ino i)"
proof -
  have "zero_test_ok buf (max off (i * BLOCK_SIZE) - i * BLOCK_SIZE)
      (min (Suc i * BLOCK_SIZE) (off + n) - max off (i * BLOCK_SIZE)) (max off (i * BLOCK_SIZE) - off) (file_map s ino i)"
    using h i(1,2) e unfolding write_honest_def Let_def by simp
  moreover have p: "max off (i * BLOCK_SIZE) = i * BLOCK_SIZE + ws" using i(3,4) by (cases "r = 0") auto
  moreover have "min (Suc i * BLOCK_SIZE) (off + n) = i * BLOCK_SIZE + sz"
  proof (cases "i = e")
    case False
    then have "i * BLOCK_SIZE + BLOCK_SIZE \<le> e * BLOCK_SIZE" using i(2) by (intro slot_inside) simp
    then show ?thesis using fin sz False by simp
  qed (use fin sz in simp)
  moreover have "i * BLOCK_SIZE + ws - off = r" using i(3) by linarith
  ultimately show ?thesis by simp
qed

theorem write_i_spec:
  assumes ok: "fs_ok s" "file_ok s (inode_at s k)" "file_full s (inode_at s k)"
      "file_size (inode_at s k) < 2 ^ 31" and k: "valid_inum s k"
    and n: "0 < n" "off + n \<le> 2 ^ 31" "n < 2 ^ 31" "n \<le> length buf"
    and h: "write_honest s (inode_at s k) buf off n"
  shows "\<exists>ret q t. write_i (int k) (Some buf) (int off) (int n) s = Some (ret, t) \<and> wrote k off buf q s t \<and>
    (ret = int n \<and> q = n \<or> ret = DATA_FULL \<and> q < n \<and>
      \<not> (off mod BLOCK_SIZE = 0 \<and> buf = replicate (length buf) 0))"
proof -
  let ?e = "(off + n - 1) div BLOCK_SIZE" and ?es = "(off + n - 1) mod BLOCK_SIZE + 1" and ?ino = "inode_at s k"
  note e = end_block[OF n(1,2)]
  have m: "mounted s" using ok(1) by (rule fs_ok_mounted)
  have osz: "c_int (uint (i_size ?ino)) = int (file_size ?ino)" unfolding uint_size using ok(4) by (rule c_int_of_nat_id)
  have "off + n - 1 < 2 ^ 64" using n by simp
  then have u: "c_u64 (int off + int n - 1) = int (off + n - 1)" unfolding e(8) by (rule c_u64_int)
  have es: "int (off + n - 1) mod int BLOCK_SIZE + 1 = int ?es" by (simp add: zmod_int)
  have ed: "int (off + n - 1) div int BLOCK_SIZE = int ?e" by (simp add: zdiv_int)
  have call: "write_i (int k) (Some buf) (int off) (int n) s =
      write_loop [int (off div BLOCK_SIZE)..int ?e] (int k) buf (int off) (int (file_size ?ino)) (int ?e) (int ?es)
        (int (off mod BLOCK_SIZE)) (int 0) ?ino s"
    unfolding write_i_def option.case local_inode_ok[OF m k] Let_def prod.case osz u es ed sdiv_nat
      c_int_of_nat_id[OF e(5)] c_int_of_nat_id[OF e(9)] int_ops(1) by simp
  show ?thesis unfolding call
  proof (rule write_loop_spec[OF ok(1,2,4) k e(1-4) n(2,3,4)])
    show "wrote k off buf 0 s s" using ok by (intro wrote_0)
    show "\<forall>i ws sz r. off div BLOCK_SIZE \<le> i \<and> i \<le> ?e \<and> off + r = i * BLOCK_SIZE + ws \<and> (0 < r \<longrightarrow> ws = 0) \<and>
        sz = (if i = ?e then ?es else BLOCK_SIZE) \<longrightarrow> zero_test_ok buf ws (sz - ws) r (file_map s ?ino i)"
      using honest_loop[OF h refl e(1-3)] by blast
  qed (use e(6,7) in auto)
qed

section \<open>Files in good order\<close>

lemma file_goodD:
  assumes "file_good s ino"
  shows "file_ok s ino" "file_full s ino" "file_size ino < 2 ^ 31"
    "m < MAX_FILE_BLOCKS \<Longrightarrow> file_size ino \<le> m * BLOCK_SIZE \<Longrightarrow> file_map s ino m = 0"
    "j < MAX_FILE_BYTES \<Longrightarrow> file_size ino \<le> j \<Longrightarrow> file_byte s ino j = 0"
  using assms by (auto simp: file_good_def)

lemma wroteD:
  assumes "wrote k off buf q s t"
  shows "file_step {k} s (inode_at s k) t (inode_at t k)" "file_full t (inode_at t k)"
    "same_meta (write_meta off q (inode_at s k)) (inode_at t k)"
    "j < MAX_FILE_BYTES \<Longrightarrow> file_byte t (inode_at t k) j =
      (if off \<le> j \<and> j < off + q then buf ! (j - off) else file_byte s (inode_at s k) j)"
    "m < MAX_FILE_BLOCKS \<Longrightarrow> \<not> touched off q m \<Longrightarrow> file_map t (inode_at t k) m = file_map s (inode_at s k) m"
    "buf = replicate (length buf) 0 \<Longrightarrow> m < MAX_FILE_BLOCKS \<Longrightarrow> touched off q m \<Longrightarrow>
      file_blk t (inode_at t k) m = empty_block \<Longrightarrow> file_map t (inode_at t k) m = 0"
  using assms unfolding wrote_def by blast+

lemma file_size_write_meta:
  assumes "file_size ino < 2 ^ 31" "off + q \<le> 2 ^ 31"
  shows "file_size (write_meta off q ino) = (if q = 0 then file_size ino else max (file_size ino) (off + q))"
proof -
  have "max (file_size ino) (off + q) < 2 ^ 32" using assms by simp
  from unat_u32_of_nat[OF this] show ?thesis by (simp add: write_meta_def file_size_def)
qed

lemma wrote_good:
  assumes g: "file_good s (inode_at s k)" and w: "wrote k off buf q s t" and q: "off + q < 2 ^ 31"
  shows "file_good t (inode_at t k)"
    "file_size (inode_at t k) = (if q = 0 then file_size (inode_at s k) else max (file_size (inode_at s k)) (off + q))"
proof -
  note f = file_goodD[OF g] and d = wroteD[OF w]
  have "file_size (inode_at t k) = file_size (write_meta off q (inode_at s k))"
    using d(3) by (simp add: same_meta_def file_size_def)
  then show sz: "file_size (inode_at t k) =
      (if q = 0 then file_size (inode_at s k) else max (file_size (inode_at s k)) (off + q))"
    using file_size_write_meta[OF f(3)] q by simp
  have "file_map t (inode_at t k) m = 0" if "m < MAX_FILE_BLOCKS" "file_size (inode_at t k) \<le> m * BLOCK_SIZE" for m
  proof -
    have "\<not> touched off q m" using that(2) sz unfolding touched_def by (auto split: if_splits)
    moreover have "file_size (inode_at s k) \<le> m * BLOCK_SIZE" using that(2) sz by (simp split: if_splits)
    ultimately show ?thesis using d(5)[OF that(1)] f(4)[OF that(1)] by simp
  qed
  moreover have "file_byte t (inode_at t k) j = 0" if "j < MAX_FILE_BYTES" "file_size (inode_at t k) \<le> j" for j
    using d(4)[OF that(1)] f(5)[OF that(1)] that(2) sz by (auto split: if_splits)
  moreover have "file_size (inode_at t k) < 2 ^ 31" using sz f(3) q by simp
  ultimately show "file_good t (inode_at t k)"
    using d(2) file_stepD(4)[OF d(1)] unfolding file_good_def by blast
qed

lemma no_blocks_no_set:
  assumes "file_full s ino" "\<forall>m < MAX_FILE_BLOCKS. file_map s ino m = 0"
  shows "file_set s ino = {}" "\<forall>p < NPTRS. iptr ino p = 0"
proof -
  show z: "\<forall>p < NPTRS. iptr ino p = 0"
  proof (intro allI impI, rule ccontr)
    fix p assume "p < NPTRS" "iptr ino p \<noteq> 0"
    then obtain n where "n < MAX_FILE_BLOCKS" "file_map s ino n \<noteq> 0" using iptr_nonzero[OF assms(1)] by blast
    then show False using assms(2) by simp
  qed
  then show "file_set s ino = {}" unfolding file_set_def forest_set_def by simp
qed

text \<open>A file without pointers and of size 0.\<close>

lemma iptr_zero_inode [simp]: "p < NPTRS \<Longrightarrow> iptr zero_inode p = 0"
proof -
  have "words_of_bytes (replicate (4 * n) 0) = replicate n 0" for n
    using words_of_bytes_of_words[of "replicate n 0"] by (simp add: bytes_zeros)
  from this[of 20] have w: "words_of_bytes (replicate 80 0) = replicate 20 0" by simp
  assume "p < NPTRS"
  then have "p < 13" by (simp add: NPTRS_def)
  then show ?thesis
    by (simp add: iptr_def zero_inode_def dec_inode_def Let_def w window_def c_consts)
qed

lemma file_size_zero_inode: "file_size zero_inode = 0"
proof -
  have "words_of_bytes (replicate (4 * n) 0) = replicate n 0" for n
    using words_of_bytes_of_words[of "replicate n 0"] by (simp add: bytes_zeros)
  from this[of 20] show ?thesis
    by (simp add: file_size_def zero_inode_def dec_inode_def Let_def c_consts)
qed

lemma no_pointers_good:
  assumes ok: "fs_ok s" and wf: "inode_wf ino" and p: "\<forall>p < NPTRS. iptr ino p = 0" and sz: "file_size ino = 0"
  shows "file_good s ino" "file_set s ino = {}" "n < MAX_FILE_BLOCKS \<Longrightarrow> file_map s ino n = 0"
proof -
  show set: "file_set s ino = {}" using p unfolding file_set_def forest_set_def by simp
  have "file_ok s ino" using set p wf by (simp add: file_ok_def forest_ok_def disjoint_trees_def)
  moreover have "file_full s ino" using p unfolding file_full_def by simp
  moreover show map: "file_map s ino n = 0" if "n < MAX_FILE_BLOCKS" for n
    using fslot_bounds[OF that] p unfolding file_map_def by simp
  moreover have "file_byte s ino j = 0" if "j < MAX_FILE_BYTES" for j
    using map[OF byte_block[OF that]] by (simp add: file_byte_def file_blk_def empty_block_def)
  ultimately show "file_good s ino" by (simp add: file_good_def sz)
qed

section \<open>truncate and del\<close>

lemma write_honest_zeros:
  assumes "buf = replicate (length buf) 0" "n \<le> length buf"
  shows "write_honest s ino buf off n"
proof -
  have "zero_test_ok buf (p - i * BLOCK_SIZE) (q - p) (p - off) b"
    if "p = max off (i * BLOCK_SIZE)" "q = min (Suc i * BLOCK_SIZE) (off + n)" for p q i b
  proof -
    have "p - off + (q - p) \<le> length buf \<or> q - p = 0" using that assms(2) by linarith
    then have "window (p - off) (q - p) buf = replicate (q - p) 0"
      using zeros_window[OF assms(1)] by (metis replicate_0 window_0)
    then show ?thesis unfolding zero_test_ok_def by blast
  qed
  then show ?thesis unfolding write_honest_def Let_def by blast
qed

text \<open>A write of no bytes at offset 0 does nothing.\<close>

lemma write_i_nothing:
  assumes "mounted s" "valid_inum s k"
  shows "write_i (int k) (Some buf) 0 0 s = Some (0, s)"
proof -
  have "c_int (c_u64 (0 + 0 - 1) div int BLOCK_SIZE) = -1"
    by (simp add: c_u64_def c_int_def c_consts)
  moreover have "c_int (0 sdiv int BLOCK_SIZE) = 0" by (simp add: signed_divide_int_def)
  ultimately show ?thesis by (simp add: write_i_def local_inode_ok[OF assms] Let_def)
qed

lemma truncate_extend:
  assumes ok: "fs_ok s" and k: "valid_inum s k" and g: "file_good s (inode_at s k)"
    and off: "file_size (inode_at s k) < off" "off < 2 ^ 31"
  defines "ino' \<equiv> (inode_at s k)\<lparr>i_size := word_of_nat off\<rparr>"
  shows "\<exists>t. truncate_i (int k) (int off) s = Some (SUCCESS, t) \<and> file_step {k} s (inode_at s k) t ino' \<and>
    inode_at t k = ino' \<and> file_good t ino' \<and> file_size ino' = off \<and>
    (\<forall>j < MAX_FILE_BYTES. file_byte t ino' j = file_byte s (inode_at s k) j)"
proof -
  let ?ino = "inode_at s k" and ?t = "put_inode k ino' s"
  have m: "mounted s" using ok by (rule fs_ok_mounted)
  note f = file_goodD[OF g]
  have p: "inode_wf ino'" "\<forall>p < NPTRS. iptr ino' p = iptr ?ino p"
    using file_okD(1)[OF f(1)] by (simp_all add: ino'_def)
  note pi = put_inode_file[OF ok f(1) k p]
  have sz: "file_size ino' = off" using unat_u32_of_nat[of off] off(2) by (simp add: ino'_def file_size_def)
  have lt: "uint (i_size ?ino) < int off" unfolding uint_size using off(1) by simp
  have "truncate_i (int k) (int off) s = Some (SUCCESS, ?t)"
    unfolding truncate_i_def local_inode_ok[OF m k] Let_def prod.case
    using lt pi(6) by (simp add: ino'_def)
  moreover have byte: "file_byte ?t ino' j = file_byte s ?ino j" if "j < MAX_FILE_BYTES" for j
    using pi(5)[OF byte_block[OF that]] by (simp add: file_byte_def)
  moreover have "file_good ?t ino'"
    unfolding file_good_def
  proof (intro conjI allI impI)
    show "file_ok ?t ino'" by (rule file_stepD(4)[OF pi(1)])
    show "file_full ?t ino'" using pi(3) f(2) by simp
    show "file_size ino' < 2 ^ 31" using sz off(2) by simp
    show "file_map ?t ino' m = 0" if "m < MAX_FILE_BLOCKS" "file_size ino' \<le> m * BLOCK_SIZE" for m
      using pi(4)[OF that(1)] f(4)[OF that(1)] that(2) sz off(1) by simp
    show "file_byte ?t ino' j = 0" if "j < MAX_FILE_BYTES" "file_size ino' \<le> j" for j
      using byte[OF that(1)] f(5)[OF that(1)] that(2) sz off(1) by simp
  qed
  ultimately show ?thesis using pi(1,2) sz by blast
qed

text \<open>After the zeros of \<open>truncate\<close> were written, the inode read before is written back.\<close>

lemma truncate_shrink:
  assumes ok: "fs_ok s" and k: "valid_inum s k" and sz: "file_size (inode_at s k) < 2 ^ 31"
    and off: "off \<le> file_size (inode_at s k)"
    and w: "write_i (int k) (Some (replicate (file_size (inode_at s k) - off) 0)) (int off)
      (int (file_size (inode_at s k) - off)) s = Some (ret, t1)"
    and t1: "fs_ok t1" "valid_inum t1 k"
  shows "truncate_i (int k) (int off) s =
    Some (SUCCESS, put_inode k ((inode_at s k)\<lparr>i_size := word_of_nat off\<rparr>) t1)"
proof -
  let ?ino = "inode_at s k"
  have m: "mounted s" "mounted t1" using ok t1(1) by (simp_all add: fs_ok_mounted)
  have d: "int (file_size ?ino) - int off = int (file_size ?ino - off)" using off by simp
  have c: "c_int (int (file_size ?ino - off)) = int (file_size ?ino - off)" using sz by simp
  have wf: "inode_wf (?ino\<lparr>i_size := word_of_nat off\<rparr>)" using m(1) k by simp
  have nl: "\<not> int (file_size ?ino) < int off" using off by simp
  show ?thesis
    unfolding truncate_i_def local_inode_ok[OF m(1) k] Let_def prod.case uint_size d c nat_int w option.case
      if_not_P[OF nl]
    using inode_write_ok[OF m(2) t1(2) wf] by simp
qed

lemma zero_bytes_empty:
  assumes "mounted s" "file_ok s ino" "m < MAX_FILE_BLOCKS" "\<And>j. j < BLOCK_SIZE \<Longrightarrow> file_byte s ino (m * BLOCK_SIZE + j) = 0"
  shows "file_blk s ino m = empty_block"
proof (rule nth_equalityI)
  have len: "length (file_blk s ino m) = BLOCK_SIZE" using is_block_file_blk[OF assms(1-3)] by (simp add: is_block_def)
  then show "length (file_blk s ino m) = length empty_block" by (simp add: empty_block_def)
  fix j assume "j < length (file_blk s ino m)"
  then have "j < BLOCK_SIZE" using len by simp
  then show "file_blk s ino m ! j = empty_block ! j" using assms(4)[of j] by (simp add: file_byte_def empty_block_def)
qed

text \<open>Of the blocks that are zero after the end of the file the zeros of \<open>truncate\<close> to 0 leave none.\<close>

lemma zeros_over_file:
  assumes ok: "fs_ok s" and k: "valid_inum s k" and f: "file_ok s (inode_at s k)" "file_full s (inode_at s k)"
    and n: "n = file_size (inode_at s k)" "n < 2 ^ 31"
  shows "\<exists>ret t. write_i (int k) (Some (replicate n 0)) (int 0) (int n) s = Some (ret, t) \<and>
    file_step {k} s (inode_at s k) t (inode_at t k) \<and> file_full t (inode_at t k) \<and>
    (\<forall>m < MAX_FILE_BLOCKS. (n \<le> m * BLOCK_SIZE \<longrightarrow> file_map s (inode_at s k) m = 0) \<and>
      (\<forall>j < BLOCK_SIZE. n \<le> m * BLOCK_SIZE + j \<longrightarrow> file_byte s (inode_at s k) (m * BLOCK_SIZE + j) = 0) \<longrightarrow>
      file_map t (inode_at t k) m = 0)"
proof (cases "n = 0")
  case True
  then show ?thesis
    using write_i_nothing[OF fs_ok_mounted[OF ok] k, of "[]"] file_step_refl[OF ok f(1)] f(2)
    by (intro exI[of _ 0] exI[of _ s]) simp
next
  case False
  let ?z = "replicate n (0 :: byte)"
  have pos: "0 < n" "0 + n \<le> 2 ^ 31" "n \<le> length ?z" "file_size (inode_at s k) < 2 ^ 31" using False n by simp_all
  have z: "?z = replicate (length ?z) 0" by simp
  obtain ret q t where w: "write_i (int k) (Some ?z) (int 0) (int n) s = Some (ret, t)" "wrote k 0 ?z q s t"
    "ret = int n \<and> q = n \<or> ret = DATA_FULL \<and> q < n \<and> \<not> (0 mod BLOCK_SIZE = 0 \<and> ?z = replicate (length ?z) 0)"
    using write_i_spec[OF ok f pos(4) k pos(1,2) n(2) pos(3) write_honest_zeros[OF z pos(3)]] by blast
  then have q: "q = n" using z by auto
  note d = wroteD[OF w(2)]
  have "file_map t (inode_at t k) m = 0"
    if m: "m < MAX_FILE_BLOCKS" and h: "n \<le> m * BLOCK_SIZE \<longrightarrow> file_map s (inode_at s k) m = 0"
      "\<forall>j < BLOCK_SIZE. n \<le> m * BLOCK_SIZE + j \<longrightarrow> file_byte s (inode_at s k) (m * BLOCK_SIZE + j) = 0" for m
  proof (cases "touched 0 q m")
    case True
    have "file_byte t (inode_at t k) (m * BLOCK_SIZE + j) = 0" if j: "j < BLOCK_SIZE" for j
    proof -
      have "m * BLOCK_SIZE + j < MAX_FILE_BYTES" using slot_inside[OF m, of BLOCK_SIZE] j by (simp add: MAX_FILE_BYTES_def)
      from d(4)[OF this] show ?thesis using h(2) j q by (cases "m * BLOCK_SIZE + j < n") simp_all
    qed
    from zero_bytes_empty[OF file_stepD(6,4)[OF d(1)] m this] show ?thesis using d(6)[OF z m True] by blast
  next
    case nt: False
    then have "n \<le> m * BLOCK_SIZE" using q pos(1) by (auto simp: touched_def)
    then show ?thesis using d(5)[OF m nt] h(1) by simp
  qed
  then show ?thesis using w(1) d(1,2) by blast
qed

lemma truncate_0:
  assumes ok: "fs_ok s" and k: "valid_inum s k" and g: "file_good s (inode_at s k)"
  shows "\<exists>t1. file_step {k} s (inode_at s k) t1 (inode_at t1 k) \<and> file_set t1 (inode_at t1 k) = {} \<and>
    truncate_i (int k) 0 s = Some (SUCCESS, put_inode k ((inode_at s k)\<lparr>i_size := 0\<rparr>) t1)"
proof -
  let ?ino = "inode_at s k" and ?n = "file_size (inode_at s k)"
  note f = file_goodD[OF g]
  obtain ret t1 where w: "write_i (int k) (Some (replicate ?n 0)) (int 0) (int ?n) s = Some (ret, t1)"
    "file_step {k} s ?ino t1 (inode_at t1 k)" "file_full t1 (inode_at t1 k)"
    and z: "\<forall>m < MAX_FILE_BLOCKS. (?n \<le> m * BLOCK_SIZE \<longrightarrow> file_map s ?ino m = 0) \<and>
      (\<forall>j < BLOCK_SIZE. ?n \<le> m * BLOCK_SIZE + j \<longrightarrow> file_byte s ?ino (m * BLOCK_SIZE + j) = 0) \<longrightarrow>
      file_map t1 (inode_at t1 k) m = 0"
    using zeros_over_file[OF ok k f(1,2) refl f(3)] by blast
  have "file_map t1 (inode_at t1 k) m = 0" if m: "m < MAX_FILE_BLOCKS" for m
  proof -
    have "file_byte s ?ino (m * BLOCK_SIZE + j) = 0" if "j < BLOCK_SIZE" "?n \<le> m * BLOCK_SIZE + j" for j
      using f(5)[OF _ that(2)] slot_inside[OF m, of BLOCK_SIZE] that(1) by (simp add: MAX_FILE_BYTES_def)
    then show ?thesis using z m f(4)[OF m] by blast
  qed
  then have "file_set t1 (inode_at t1 k) = {}" using no_blocks_no_set(1)[OF w(3)] by blast
  moreover have "truncate_i (int k) (int 0) s = Some (SUCCESS, put_inode k (?ino\<lparr>i_size := word_of_nat 0\<rparr>) t1)"
    by (rule truncate_shrink[OF ok k f(3)]) (use w file_stepD[OF w(2)] k in simp_all)
  ultimately show ?thesis using w(2) by auto
qed

text \<open>\<open>truncate\<close> to 0 frees every block of the file but writes back the inode that still points to them.\<close>

lemma truncate_0_dangling:
  assumes ok: "fs_ok s" and k: "valid_inum s k" and g: "file_good s (inode_at s k)"
  shows "\<exists>t. truncate_i (int k) 0 s = Some (SUCCESS, t) \<and> fs_frame {k} (free_data s \<union> file_set s (inode_at s k)) s t \<and>
    inode_at t k = (inode_at s k)\<lparr>i_size := 0\<rparr> \<and> free_inums t = free_inums s \<and>
    free_data t = free_data s \<union> file_set s (inode_at s k)"
proof -
  let ?ino = "inode_at s k" and ?ino' = "(inode_at s k)\<lparr>i_size := 0\<rparr>"
  obtain t1 where t: "file_step {k} s ?ino t1 (inode_at t1 k)" "file_set t1 (inode_at t1 k) = {}"
    "truncate_i (int k) 0 s = Some (SUCCESS, put_inode k ?ino' t1)"
    using truncate_0[OF ok k g] by blast
  let ?t = "put_inode k ?ino' t1"
  note d = file_stepD[OF t(1)]
  have k1: "valid_inum t1 k" using k d(7) by simp
  have wf: "inode_wf ?ino'" using k fs_ok_mounted[OF ok] by simp
  have "fs_frame {k} (free_data s \<union> file_set s ?ino) s ?t"
    by (rule fs_frame_trans[OF d(1) fs_frame_put_inode[OF d(5) k1 wf]]) auto
  moreover have "free_data ?t = free_data s \<union> file_set s ?ino"
    using inode_step_free_list(2)[OF inode_step_put_inode[OF d(6) k1 wf]] d(2) t(2) by simp
  moreover have "free_inums ?t = free_inums s" using put_inode_free_inums[OF d(6) k1 wf] d(3) by simp
  moreover have "inode_at ?t k = ?ino'"
    using inode_at_put_inode[OF d(6) k1 wf, of k] k1 by (simp add: valid_inum_def)
  ultimately show ?thesis using t(3) by blast
qed

lemma del_spec:
  assumes ok: "fs_ok s" and k: "valid_inum s k" and g: "file_good s (inode_at s k)"
  shows "\<exists>t. del (int k) s = Some (SUCCESS, t) \<and> fs_frame {k} (free_data s \<union> file_set s (inode_at s k)) s t \<and>
    free_data t = free_data s \<union> file_set s (inode_at s k) \<and> free_inums t = insert k (free_inums s)"
proof -
  obtain t where t: "truncate_i (int k) 0 s = Some (SUCCESS, t)"
    "fs_frame {k} (free_data s \<union> file_set s (inode_at s k)) s t" "free_inums t = free_inums s"
    "free_data t = free_data s \<union> file_set s (inode_at s k)" using truncate_0_dangling[OF ok k g] by blast
  have kt: "valid_inum t k" using fs_frameD(6)[OF t(2)] k by simp
  note fr = inode_free_frame[OF fs_frameD(1)[OF t(2)] kt]
  have "del (int k) s = Some (SUCCESS, clear_inode k t)" using t(1) fr(1) by (simp add: del_def)
  moreover have "fs_frame {k} (free_data s \<union> file_set s (inode_at s k)) s (clear_inode k t)"
    by (rule fs_frame_trans[OF t(2) fr(2)]) auto
  ultimately show ?thesis using fr(3,4) t(3,4) by auto
qed

text \<open>
  \<open>del\<close> of a file with anything after its end gives the inode back; blocks that are not zero there stay
  taken, but it takes none.
\<close>

lemma del_any:
  assumes ok: "fs_ok s" and k: "valid_inum s k" and f: "file_ok s (inode_at s k)" "file_full s (inode_at s k)"
    and sz: "file_size (inode_at s k) < 2 ^ 31"
  shows "\<exists>t. del (int k) s = Some (SUCCESS, t) \<and> fs_frame {k} (free_data s \<union> file_set s (inode_at s k)) s t \<and>
    free_data t \<subseteq> free_data s \<union> file_set s (inode_at s k) \<and> card (free_data s) \<le> card (free_data t) \<and>
    free_inums t = insert k (free_inums s)"
proof -
  let ?ino = "inode_at s k" and ?n = "file_size (inode_at s k)" and ?ino' = "(inode_at s k)\<lparr>i_size := word_of_nat 0\<rparr>"
  obtain ret t where w: "write_i (int k) (Some (replicate ?n 0)) (int 0) (int ?n) s = Some (ret, t)"
    "file_step {k} s ?ino t (inode_at t k)" "file_full t (inode_at t k)"
    and z: "\<forall>m < MAX_FILE_BLOCKS. (?n \<le> m * BLOCK_SIZE \<longrightarrow> file_map s ?ino m = 0) \<and>
      (\<forall>j < BLOCK_SIZE. ?n \<le> m * BLOCK_SIZE + j \<longrightarrow> file_byte s ?ino (m * BLOCK_SIZE + j) = 0) \<longrightarrow>
      file_map t (inode_at t k) m = 0"
    using zeros_over_file[OF ok k f refl sz] by blast
  note d = file_stepD[OF w(2)]
  let ?u = "put_inode k ?ino' t"
  have kt: "valid_inum t k" "inode_wf ?ino'" using k d(7) fs_ok_mounted[OF ok] by simp_all
  have tr: "truncate_i (int k) 0 s = Some (SUCCESS, ?u)"
    using truncate_shrink[OF ok k sz, of 0 ret t] w(1) d(5) kt(1) by simp
  have "file_map t (inode_at t k) m = 0" if m: "m < MAX_FILE_BLOCKS" "file_map s ?ino m = 0" for m
  proof -
    have "file_byte s ?ino (m * BLOCK_SIZE + j) = 0" if "j < BLOCK_SIZE" for j
      using that m(2) by (simp add: file_byte_def file_blk_def empty_block_def)
    then show ?thesis using z m by blast
  qed
  then have card: "card (free_data s) \<le> card (free_data t)" by (intro file_step_card_le[OF w(2) f(1) w(3)]) blast
  have u: "fs_frame {k} {} t ?u" "free_data ?u = free_data t" "free_inums ?u = free_inums t"
    using fs_frame_put_inode[OF d(5) kt] inode_step_free_list(2)[OF inode_step_put_inode[OF d(6) kt]]
      put_inode_free_inums[OF d(6) kt] by simp_all
  note fr = inode_free_frame[OF fs_frameD(1)[OF u(1)], of k]
  have ku: "valid_inum ?u k" using fs_frameD(6)[OF u(1)] kt(1) by simp
  have "del (int k) s = Some (SUCCESS, clear_inode k ?u)" using tr fr(1)[OF ku] by (simp add: del_def)
  moreover have "fs_frame {k} (free_data s \<union> file_set s ?ino) s ?u" by (rule fs_frame_trans[OF d(1) u(1)]) auto
  then have "fs_frame {k} (free_data s \<union> file_set s ?ino) s (clear_inode k ?u)"
    by (rule fs_frame_trans[OF _ fr(2)[OF ku]]) auto
  ultimately show ?thesis using fr(3,4)[OF ku] u(2,3) d(2,3) card by auto
qed

section \<open>Transfers inside one block\<close>

lemma write_i_one_block:
  assumes m: "mounted s" and k: "valid_inum s k" and sz: "file_size (inode_at s k) < 2 ^ 31"
    and n: "0 < n" "off + n \<le> 2 ^ 31"
    and b: "off = b * BLOCK_SIZE + ws" "ws + n \<le> BLOCK_SIZE"
  shows "write_i (int k) (Some buf) (int off) (int n) s =
    (case write_part buf (int b) (int ws) (int (ws + n)) (int 0) (inode_at s k) s of
       None \<Rightarrow> None
     | Some (Some ret, _, s) \<Rightarrow> Some (ret, s)
     | Some (None, ino, u) \<Rightarrow> Some (int n, snd (inode_write (int k) (Some (ino
         \<lparr>i_size := word_of_nat (max (file_size (inode_at s k)) (off + n)),
          i_mode := i_mode ino AND (0xffff XOR (S_ISUID OR S_ISGID))\<rparr>)) u)))"
proof -
  let ?ino = "inode_at s k"
  note e = end_block[OF n]
  have wsb: "ws < BLOCK_SIZE" "ws + n - 1 < BLOCK_SIZE" using b(2) n(1) by simp_all
  have last: "off + n - 1 = b * BLOCK_SIZE + (ws + n - 1)" using b(1) n(1) by simp
  have bl: "off div BLOCK_SIZE = b" "off mod BLOCK_SIZE = ws" unfolding b(1) using wsb(1) by simp_all
  have el: "(off + n - 1) div BLOCK_SIZE = b" "(off + n - 1) mod BLOCK_SIZE = ws + n - 1"
    unfolding last using wsb(2) by simp_all
  have osz: "c_int (uint (i_size ?ino)) = int (file_size ?ino)" unfolding uint_size using sz by (rule c_int_of_nat_id)
  have "off + n - 1 < 2 ^ 64" using n by simp
  then have u: "c_u64 (int off + int n - 1) = int (off + n - 1)" unfolding e(8) by (rule c_u64_int)
  have es: "int (off + n - 1) mod int BLOCK_SIZE + 1 = int (ws + n)"
    unfolding zmod_int[symmetric] el(2) using n(1) by simp
  have ed: "int (off + n - 1) div int BLOCK_SIZE = int b" unfolding zdiv_int[symmetric] el(1) ..
  have "ws + n < 2 ^ 64" "n < 2 ^ 64" using b(2) by (simp_all add: c_consts)
  then have c: "c_u64 (int (ws + n)) = int (ws + n)" "c_u64 (int 0 + (int (ws + n) - int ws)) = int n"
    by (simp_all add: c_u64_int del: of_nat_add)
  have ns: "new_size (int (file_size ?ino)) (int off) (int n) = word_of_nat (max (file_size ?ino) (off + n))"
    using sz n by (intro new_size_nat) simp_all
  have one: "[int b..int b] = [int b]" by simp
  have nn: "c_int (int n) = int n" using b(2) by (intro c_int_of_nat_id) (simp add: c_consts)
  show ?thesis
    unfolding write_i_def option.case local_inode_ok[OF m k] Let_def prod.case osz u es ed sdiv_nat
      bl c_int_of_nat_id[OF e(9), unfolded bl] one write_loop.simps if_P[OF refl] c int_ops(1)[symmetric] ns nn
    by (simp split: option.split prod.split)
qed

text \<open>
  \<open>truncate\<close> to a length inside the last block, when a nonzero byte of that block remains: no block is
  freed, so the inode written back is right.
\<close>

lemma truncate_within:
  assumes ok: "fs_ok s" and k: "valid_inum s k"
    and f: "file_ok s (inode_at s k)" "file_full s (inode_at s k)" "file_size (inode_at s k) < 2 ^ 31"
    and b: "off = b * BLOCK_SIZE + ws" "file_size (inode_at s k) \<le> b * BLOCK_SIZE + BLOCK_SIZE"
    and off: "off < file_size (inode_at s k)"
    and kept: "j0 < ws" "file_byte s (inode_at s k) (b * BLOCK_SIZE + j0) \<noteq> 0"
  defines "ino' \<equiv> (inode_at s k)\<lparr>i_size := word_of_nat off\<rparr>"
  shows "\<exists>t. truncate_i (int k) (int off) s = Some (SUCCESS, t) \<and> file_step {k} s (inode_at s k) t ino' \<and>
    inode_at t k = ino' \<and> file_full t ino' \<and> file_size ino' = off \<and>
    (\<forall>m < MAX_FILE_BLOCKS. m \<noteq> b \<longrightarrow> file_map t ino' m = file_map s (inode_at s k) m) \<and>
    (\<forall>j < MAX_FILE_BYTES. file_byte t ino' j =
      (if off \<le> j \<and> j < file_size (inode_at s k) then 0 else file_byte s (inode_at s k) j))"
proof -
  let ?ino = "inode_at s k" and ?n = "file_size (inode_at s k) - off"
  let ?z = "replicate ?n (0 :: byte)"
  have m: "mounted s" using ok by (rule fs_ok_mounted)
  have n: "0 < ?n" "off + ?n \<le> 2 ^ 31" "ws + ?n \<le> BLOCK_SIZE" using off b f(3) by simp_all
  have "b * BLOCK_SIZE < 2 ^ 31" using off f(3) b(1) by linarith
  then have bm: "b < MAX_FILE_BLOCKS" by (simp add: c_consts)
  have pos: "ws \<le> ws + ?n" "0 + (ws + ?n - ws) \<le> length ?z" by simp_all
  have c: "ws + ?n - ws = ?n" by simp
  have w0: "window 0 ?n ?z = ?z" by (simp add: window_def)
  have h: "zero_test_ok ?z ws (ws + ?n - ws) 0 (file_map s ?ino b)" unfolding c by (simp add: zero_test_ok_def w0)
  have j0: "j0 < BLOCK_SIZE" using kept(1) n(3) by simp
  then have byte0: "file_blk s ?ino b ! j0 \<noteq> 0" using kept(2) by (simp add: file_byte_def)
  then have mb: "file_map s ?ino b \<noteq> 0" using j0 by (cases "file_map s ?ino b = 0") (simp_all add: file_blk_def empty_block_def)
  obtain r ino1 t1 where p: "write_part ?z (int b) (int ws) (int (ws + ?n)) (int 0) ?ino s = Some (r, ino1, t1)"
    "r = None" "part_written b ws ?z s ?ino t1 ino1" "file_blk t1 ino1 b \<noteq> empty_block \<longrightarrow> ino1 = ?ino"
    using write_part_spec[OF ok f(1,2) bm pos(1) n(3) pos(2) h] mb unfolding c w0 by metis
  have bl: "length (file_blk s ?ino b) = BLOCK_SIZE" using is_block_file_blk[OF m f(1) bm] by (simp add: is_block_def)
  have "file_blk t1 ino1 b ! j0 = file_blk s ?ino b ! j0"
    using p(3) bm kept(1) j0 n(3) bl by (simp add: part_written_def nth_overlay)
  then have "file_blk t1 ino1 b \<noteq> empty_block" using byte0 j0 by (auto simp: empty_block_def)
  then have i1: "ino1 = ?ino" using p(4) by blast
  have st1: "file_step {} s ?ino t1 ?ino" "file_full t1 ?ino" using p(3) i1 by (simp_all add: part_written_def)
  note d1 = file_stepD[OF st1(1)]
  have k1: "valid_inum t1 k" using k d1(7) by simp
  let ?ino2 = "?ino\<lparr>i_size := word_of_nat (max (file_size ?ino) (off + ?n)),
    i_mode := i_mode ?ino AND (0xffff XOR (S_ISUID OR S_ISGID))\<rparr>"
  let ?t2 = "put_inode k ?ino2 t1" and ?t = "put_inode k ino' (put_inode k ?ino2 t1)"
  have wf: "inode_wf ?ino2" "\<forall>p < NPTRS. iptr ?ino2 p = iptr ?ino p" "inode_wf ino'" "\<forall>p < NPTRS. iptr ino' p = iptr ?ino2 p"
    using file_okD(1)[OF f(1)] by (simp_all add: ino'_def)
  note p2 = put_inode_file[OF d1(5,4) k1 wf(1,2)]
  note d2 = file_stepD[OF p2(1)]
  have k2: "valid_inum ?t2 k" using k1 d2(7) by simp
  note p3 = put_inode_file[OF d2(5,4) k2 wf(3,4)]
  have wr: "write_i (int k) (Some ?z) (int off) (int ?n) s = Some (int ?n, ?t2)"
    unfolding write_i_one_block[OF m k f(3) n(1,2) b(1) n(3)] p(1,2) option.case prod.case i1 p2(6) by simp
  have call: "truncate_i (int k) (int off) s = Some (SUCCESS, ?t)"
    unfolding ino'_def by (rule truncate_shrink[OF ok k f(3) less_imp_le[OF off] wr d2(5) k2])
  have "file_step ({} \<union> {k} \<union> {k}) s ?ino ?t ino'"
    by (rule file_step_trans[OF file_step_trans[OF st1(1) p2(1)] p3(1)])
  then have step: "file_step {k} s ?ino ?t ino'" by simp
  have sz: "file_size ino' = off" using unat_u32_of_nat[of off] off f(3) by (simp add: ino'_def file_size_def)
  have byte: "file_byte ?t ino' j = (if off \<le> j \<and> j < file_size ?ino then 0 else file_byte s ?ino j)"
    if j: "j < MAX_FILE_BYTES" for j
  proof -
    have "ws + length ?z \<le> BLOCK_SIZE" using n(3) by simp
    from part_written_byte[OF m f(1) p(3) bm this j]
    have e: "file_byte t1 ?ino j = (if off \<le> j \<and> j < off + ?n then ?z ! (j - off) else file_byte s ?ino j)"
      unfolding i1 b(1)[symmetric] by simp
    have "?z ! (j - off) = 0" if "off \<le> j" "j < off + ?n" using that by (intro nth_replicate) linarith
    with e have "file_byte t1 ?ino j = (if off \<le> j \<and> j < off + ?n then 0 else file_byte s ?ino j)" by auto
    moreover have "file_byte ?t ino' j = file_byte t1 ?ino j"
      using p2(5)[OF byte_block[OF j]] p3(5)[OF byte_block[OF j]] by (simp add: file_byte_def)
    moreover have "off + ?n = file_size ?ino" using off by simp
    ultimately show ?thesis by simp
  qed
  have map: "file_map ?t ino' m = file_map s ?ino m" if "m < MAX_FILE_BLOCKS" "m \<noteq> b" for m
    using p2(4)[OF that(1)] p3(4)[OF that(1)] p(3) that unfolding part_written_def i1 by simp
  have "file_full ?t ino'" using p2(3) p3(3) st1(2) by simp
  then show ?thesis using call step p3(2) sz byte map by blast
qed

lemma truncate_within_block:
  assumes ok: "fs_ok s" and k: "valid_inum s k" and g: "file_good s (inode_at s k)"
    and b: "off = b * BLOCK_SIZE + ws" "file_size (inode_at s k) \<le> b * BLOCK_SIZE + BLOCK_SIZE"
    and off: "off < file_size (inode_at s k)"
    and kept: "j0 < ws" "file_byte s (inode_at s k) (b * BLOCK_SIZE + j0) \<noteq> 0"
  defines "ino' \<equiv> (inode_at s k)\<lparr>i_size := word_of_nat off\<rparr>"
  shows "\<exists>t. truncate_i (int k) (int off) s = Some (SUCCESS, t) \<and> file_step {k} s (inode_at s k) t ino' \<and>
    inode_at t k = ino' \<and> file_good t ino' \<and> file_size ino' = off \<and>
    (\<forall>j < MAX_FILE_BYTES. file_byte t ino' j = (if j < off then file_byte s (inode_at s k) j else 0))"
proof -
  let ?ino = "inode_at s k"
  note f = file_goodD[OF g]
  obtain t where t: "truncate_i (int k) (int off) s = Some (SUCCESS, t)" "file_step {k} s ?ino t ino'"
    "inode_at t k = ino'" "file_full t ino'" and sz: "file_size ino' = off"
    and map: "\<forall>m < MAX_FILE_BLOCKS. m \<noteq> b \<longrightarrow> file_map t ino' m = file_map s ?ino m"
    and byte0: "\<forall>j < MAX_FILE_BYTES. file_byte t ino' j = (if off \<le> j \<and> j < file_size ?ino then 0 else file_byte s ?ino j)"
    using truncate_within[OF ok k f(1-3) b off kept] unfolding ino'_def by blast
  have byte: "file_byte t ino' j = (if j < off then file_byte s ?ino j else 0)" if "j < MAX_FILE_BYTES" for j
    using byte0 that f(5)[OF that] by auto
  have "file_good t ino'" unfolding file_good_def
  proof (intro conjI allI impI)
    show "file_ok t ino'" by (rule file_stepD(4)[OF t(2)])
    show "file_full t ino'" by (rule t(4))
    show "file_size ino' < 2 ^ 31" using sz off f(3) by simp
    show "file_map t ino' m = 0" if mm: "m < MAX_FILE_BLOCKS" "file_size ino' \<le> m * BLOCK_SIZE" for m
    proof -
      have "b * BLOCK_SIZE < m * BLOCK_SIZE" using mm(2) sz b(1) kept(1) by linarith
      then have bm': "b < m" by simp
      then have "b * BLOCK_SIZE + BLOCK_SIZE \<le> m * BLOCK_SIZE" by (rule slot_inside)
      then show ?thesis using map mm(1) f(4)[OF mm(1)] bm' b(2) by simp
    qed
    show "file_byte t ino' j = 0" if "j < MAX_FILE_BYTES" "file_size ino' \<le> j" for j
      using byte[OF that(1)] that(2) sz by simp
  qed
  then show ?thesis using t(1-3) sz byte by blast
qed

section \<open>The zero test looks at the wrong bytes\<close>

text \<open>
  From the second block on, \<open>write_i\<close> tests the first bytes of the buffer instead of the bytes it is
  about to write.  If the first block of the buffer is zero, so is every test, and the rest of the
  buffer makes no difference.
\<close>

lemma consume_0 [simp]: "consume 0 s = s"
  by (simp add: consume_def)

lemma write_part_zero_test:
  assumes "window 0 BLOCK_SIZE buf = replicate BLOCK_SIZE 0" "BLOCK_SIZE \<le> length buf"
  shows "write_part buf i 0 (int BLOCK_SIZE) b ino s =
    map_option (\<lambda>(_, ino, s). (None, ino, s)) (rm_nth_datablock (Some ino) i s)"
proof -
  have "c_u64 (int BLOCK_SIZE - 0) = int BLOCK_SIZE" by (simp add: c_consts)
  moreover have "peek buf 0 BLOCK_SIZE s = (replicate BLOCK_SIZE 0, s)"
    using peek_inside[of 0 BLOCK_SIZE buf s] assms by simp
  ultimately show ?thesis by (simp add: write_part_def Let_def)
qed

lemma write_loop_zero_test:
  assumes "window 0 BLOCK_SIZE buf = replicate BLOCK_SIZE 0" "BLOCK_SIZE \<le> length buf"
    "window 0 BLOCK_SIZE buf' = replicate BLOCK_SIZE 0" "BLOCK_SIZE \<le> length buf'"
  shows "write_loop is inum buf off osz e (int BLOCK_SIZE) 0 b ino s =
    write_loop is inum buf' off osz e (int BLOCK_SIZE) 0 b ino s"
proof (induction "is" arbitrary: b ino s)
  case (Cons i "is")
  have "c_u64 (int BLOCK_SIZE) = int BLOCK_SIZE" by (simp add: c_consts)
  then show ?case
    unfolding write_loop.simps Let_def
    by (simp add: write_part_zero_test[OF assms(1,2)] write_part_zero_test[OF assms(3,4)] Cons
        split: option.split prod.split)
qed simp

lemma write_i_zero_test:
  assumes x: "length x = n * BLOCK_SIZE" and b: "a + n < 2 ^ 31"
  shows "write_i inum (Some (replicate BLOCK_SIZE 0 @ x)) (int (a * BLOCK_SIZE)) (int (Suc n * BLOCK_SIZE)) s =
    write_i inum (Some (replicate BLOCK_SIZE 0 @ replicate (n * BLOCK_SIZE) 0))
      (int (a * BLOCK_SIZE)) (int (Suc n * BLOCK_SIZE)) s"
proof -
  let ?last = "(a + n) * BLOCK_SIZE + (BLOCK_SIZE - 1)"
  have sz: "int (a * BLOCK_SIZE) + int (Suc n * BLOCK_SIZE) - 1 = int ?last"
    by (simp add: c_consts)
  have "?last < 2 ^ 64" using b by (simp add: c_consts)
  then have u: "c_u64 (int ?last) = int ?last" by (rule c_u64_int)
  have "(q * BLOCK_SIZE + (BLOCK_SIZE - 1)) mod BLOCK_SIZE + 1 = BLOCK_SIZE" for q by (simp add: c_consts)
  then have es: "int ?last mod int BLOCK_SIZE + 1 = int BLOCK_SIZE"
    unfolding zmod_int[symmetric] by (metis of_nat_1 of_nat_add)
  have so: "int (a * BLOCK_SIZE) smod int BLOCK_SIZE = 0" unfolding sdiv_nat by simp
  have w: "window 0 BLOCK_SIZE (replicate BLOCK_SIZE 0 @ y) = replicate BLOCK_SIZE (0 :: byte)" for y
    by (simp add: window_def)
  have l: "BLOCK_SIZE \<le> length (replicate BLOCK_SIZE (0 :: byte) @ y)" for y by simp
  show ?thesis
    unfolding write_i_def option.case Let_def sz u es so
    by (simp only: write_loop_zero_test[OF w[of x] l[of x] w[of "replicate (n * BLOCK_SIZE) 0"] l])
qed

end
