(* ===== verification/Dirents.thy ===== *)
theory Dirents
  imports Frames
begin

text \<open>
  The directory structs of \<open>src/layer2.h\<close>: a \<open>dir_ent\<close> is a file name buffer followed by an inode
  number, a \<open>dirblock\<close> is \<open>DIRENTS_PER_BLOCK\<close> of them and padding.  C strings are the bytes before
  the terminating NUL; \<open>strcpy\<close> writes them into a buffer, \<open>cstr\<close> reads them back.
\<close>

definition FILEBUF_SIZE :: nat where [c_consts]: "FILEBUF_SIZE = 257"
definition MAX_FILENAME :: nat where [c_consts]: "MAX_FILENAME = 256"
definition sizeof_dirent :: nat where [c_consts]: "sizeof_dirent = 261"
definition DIRENTS_PER_BLOCK :: nat where "DIRENTS_PER_BLOCK = BLOCK_SIZE div sizeof_dirent"

lemma DIRENTS_PER_BLOCK_eq [c_consts]: "DIRENTS_PER_BLOCK = 15"
  by (simp add: DIRENTS_PER_BLOCK_def c_consts)

section \<open>C strings\<close>

definition cstr :: "byte list \<Rightarrow> byte list" where
  "cstr b = takeWhile (\<lambda>c. c \<noteq> 0) b"

definition strcpy :: "byte list \<Rightarrow> byte list \<Rightarrow> byte list" where
  "strcpy dst src = overlay 0 (src @ [0]) dst"

definition is_cstr :: "byte list \<Rightarrow> bool" where
  "is_cstr s \<longleftrightarrow> 0 \<notin> set s"

lemma cstr_strcpy [simp]: "is_cstr src \<Longrightarrow> cstr (strcpy dst src) = src"
  by (auto simp: cstr_def strcpy_def overlay_def is_cstr_def takeWhile_append)

lemma length_strcpy [simp]: "length src < length dst \<Longrightarrow> length (strcpy dst src) = length dst"
  by (simp add: strcpy_def)

definition DOT :: "byte list" where "DOT = [0x2e]"
definition DOT_DOT :: "byte list" where "DOT_DOT = [0x2e, 0x2e]"

lemma is_cstr_dots [simp]: "is_cstr DOT" "is_cstr DOT_DOT"
  by (simp_all add: DOT_def DOT_DOT_def is_cstr_def)

lemma length_dots [simp]: "length DOT = 1" "length DOT_DOT = 2"
  by (simp_all add: DOT_def DOT_DOT_def)

section \<open>Directory entries\<close>

record dir_ent =
  de_name :: "byte list"
  de_inode_num :: u32

definition enc_dirent :: "dir_ent \<Rightarrow> byte list" where
  "enc_dirent d = de_name d @ le_bytes (de_inode_num d)"

definition dec_dirent :: "byte list \<Rightarrow> dir_ent" where
  "dec_dirent bs = \<lparr>de_name = take FILEBUF_SIZE bs, de_inode_num = words_of_bytes (drop FILEBUF_SIZE bs) ! 0\<rparr>"

definition dirent_wf :: "dir_ent \<Rightarrow> bool" where
  "dirent_wf d \<longleftrightarrow> length (de_name d) = FILEBUF_SIZE"

lemma length_enc_dirent: "dirent_wf d \<Longrightarrow> length (enc_dirent d) = sizeof_dirent"
  by (simp add: enc_dirent_def dirent_wf_def c_consts)

lemma dec_enc_dirent [codec]: "dirent_wf d \<Longrightarrow> dec_dirent (enc_dirent d) = d"
  using words_of_bytes_of_words[of "[de_inode_num d]"]
  by (simp add: enc_dirent_def dec_dirent_def dirent_wf_def)

lemma dirent_wf_dec: "length bs = sizeof_dirent \<Longrightarrow> dirent_wf (dec_dirent bs)"
  by (simp add: dirent_wf_def dec_dirent_def c_consts)

section \<open>Directory blocks\<close>

definition dirent_at :: "byte list \<Rightarrow> nat \<Rightarrow> dir_ent" where
  "dirent_at block i = dec_dirent (window (i * sizeof_dirent) sizeof_dirent block)"

definition set_dirent :: "nat \<Rightarrow> dir_ent \<Rightarrow> byte list \<Rightarrow> byte list" where
  "set_dirent i d block = overlay (i * sizeof_dirent) (enc_dirent d) block"

lemma dirent_fits: "i < DIRENTS_PER_BLOCK \<Longrightarrow> i * sizeof_dirent + sizeof_dirent \<le> BLOCK_SIZE"
  using slot_inside[of i DIRENTS_PER_BLOCK sizeof_dirent] by (simp add: c_consts)

lemma is_block_set_dirent [simp]:
  "is_block b \<Longrightarrow> i < DIRENTS_PER_BLOCK \<Longrightarrow> dirent_wf d \<Longrightarrow> is_block (set_dirent i d b)"
  using dirent_fits[of i] by (simp add: is_block_def set_dirent_def length_enc_dirent)

lemma dirent_at_set_dirent:
  assumes "is_block b" "i < DIRENTS_PER_BLOCK" "dirent_wf d"
  shows "dirent_at (set_dirent i d b) j = (if j = i then d else dirent_at b j)"
proof -
  have fit: "i * sizeof_dirent + length (enc_dirent d) \<le> length b"
    using assms dirent_fits[of i] by (simp add: length_enc_dirent is_block_def)
  show ?thesis
  proof (cases "j = i")
    case True
    then show ?thesis using fit assms(3)
      by (simp add: dirent_at_def set_dirent_def window_overlay_same length_enc_dirent dec_enc_dirent)
  next
    case False
    then have "j * sizeof_dirent + sizeof_dirent \<le> i * sizeof_dirent \<or>
        i * sizeof_dirent + sizeof_dirent \<le> j * sizeof_dirent" by (rule slots_disjoint)
    then show ?thesis using fit False assms(3)
      by (simp add: dirent_at_def set_dirent_def window_overlay_disjoint length_enc_dirent)
  qed
qed

end
