(* ===== verification/Doubles.thy ===== *)
theory Doubles
  imports Prelude "HOL-Library.Log_Nat"
begin

text \<open>
  The double arithmetic of \<open>init_superblock\<close> and \<open>init_freelist\<close>, on non-negative values.  A double is
  \<open>Dbl m s\<close> with value \<open>m / 2 ^ s\<close>; every operation rounds its exact result to 53 significant bits,
  to nearest with ties to even, as IEEE 754 does.  \<open>dbl_of_ratio a b\<close> is the correctly rounded
  quotient; product, sum and quotient of doubles are instances of it.
\<close>

datatype dbl = Dbl (sig: nat) (scale: nat)

definition round_div :: "nat \<Rightarrow> nat \<Rightarrow> nat" where
  "round_div a b =
    (let q = a div b; r = a mod b in if 2 * r < b \<or> 2 * r = b \<and> even q then q else q + 1)"

definition dbl_scale :: "nat \<Rightarrow> nat \<Rightarrow> nat" where
  "dbl_scale a b =
    (let s = 52 + floorlog 2 b - floorlog 2 a in if a * 2 ^ s < b * 2 ^ 52 then s + 1 else s)"

definition dbl_of_ratio :: "nat \<Rightarrow> nat \<Rightarrow> dbl" where
  "dbl_of_ratio a b = (let s = dbl_scale a b in Dbl (round_div (a * 2 ^ s) b) s)"

definition dbl_mult_nat :: "nat \<Rightarrow> dbl \<Rightarrow> dbl" where
  "dbl_mult_nat n x = dbl_of_ratio (n * sig x) (2 ^ scale x)"

definition dbl_add_nat :: "dbl \<Rightarrow> nat \<Rightarrow> dbl" where
  "dbl_add_nat x n = dbl_of_ratio (sig x + n * 2 ^ scale x) (2 ^ scale x)"

definition nat_div_dbl :: "nat \<Rightarrow> dbl \<Rightarrow> dbl" where
  "nat_div_dbl n x = dbl_of_ratio (n * 2 ^ scale x) (sig x)"

definition dbl_ceil :: "dbl \<Rightarrow> nat" where
  "dbl_ceil x = (sig x + 2 ^ scale x - 1) div 2 ^ scale x"

section \<open>Rounding error\<close>

lemma round_div_error:
  assumes "0 < b"
  shows "2 * (round_div a b * b) \<le> 2 * a + b" and "2 * a \<le> 2 * (round_div a b * b) + b"
proof -
  define q r where "q = a div b" and "r = a mod b"
  have a: "a = q * b + r" "r < b" using assms by (simp_all add: q_def r_def)
  have "round_div a b = q \<and> 2 * r \<le> b \<or> round_div a b = q + 1 \<and> b \<le> 2 * r"
    by (auto simp: round_div_def Let_def q_def r_def)
  then show "2 * (round_div a b * b) \<le> 2 * a + b" and "2 * a \<le> 2 * (round_div a b * b) + b"
    using a by (auto simp: algebra_simps)
qed

lemma dbl_scale_bounds:
  assumes "0 < a" "0 < b" "floorlog 2 a \<le> 52 + floorlog 2 b"
  shows "b * 2 ^ 52 \<le> a * 2 ^ dbl_scale a b" and "a * 2 ^ dbl_scale a b < b * 2 ^ 53"
proof -
  define la lb where "la = floorlog 2 a" and "lb = floorlog 2 b"
  define s where "s = 52 + lb - la"
  have a: "2 ^ (la - 1) \<le> a" "a < 2 ^ la" "0 < la"
    using floorlog_bounds[of a 2] assms(1) by (auto simp: la_def floorlog_def)
  have b: "2 ^ (lb - 1) \<le> b" "b < 2 ^ lb" "0 < lb"
    using floorlog_bounds[of b 2] assms(2) by (auto simp: lb_def floorlog_def)
  have e: "la + s = 52 + lb" using assms(3) by (simp add: s_def la_def lb_def)
  have "a * 2 ^ s < 2 ^ la * 2 ^ s" using a by simp
  also have "\<dots> = 2 ^ (lb - 1 + 53)" using e b(3) by (simp only: power_add[symmetric]) simp
  also have "\<dots> = 2 ^ (lb - 1) * 2 ^ 53" by (rule power_add)
  also have "\<dots> \<le> b * 2 ^ 53" using b by simp
  finally have up: "a * 2 ^ s < b * 2 ^ 53" .
  have "b * 2 ^ 52 < 2 ^ lb * 2 ^ 52" using b by simp
  also have "\<dots> = 2 ^ (la - 1) * 2 ^ (s + 1)"
    using e a(3) by (simp only: power_add[symmetric]) (simp add: add.commute)
  also have "\<dots> \<le> a * 2 ^ (s + 1)" using a by (intro mult_right_mono) simp_all
  finally have lo: "b * 2 ^ 52 \<le> a * 2 ^ (s + 1)" by simp
  have d: "dbl_scale a b = (if a * 2 ^ s < b * 2 ^ 52 then s + 1 else s)"
    by (simp add: dbl_scale_def Let_def s_def la_def lb_def)
  show "b * 2 ^ 52 \<le> a * 2 ^ dbl_scale a b" using lo by (simp add: d)
  show "a * 2 ^ dbl_scale a b < b * 2 ^ 53" using up by (auto simp: d)
qed

text \<open>The ceiling of a rounded quotient, from an integer \<open>k\<close> known to bracket it.\<close>

lemma dbl_ceilI:
  assumes "(k - 1) * 2 ^ scale x < sig x" "sig x \<le> k * 2 ^ scale x" "0 < k"
  shows "dbl_ceil x = k"
proof -
  obtain j where k: "k = Suc j" using assms(3) by (cases k) auto
  define p where "p = (2 :: nat) ^ scale x"
  have p: "0 < p" by (simp add: p_def)
  have "k * p \<le> sig x + p - 1" and "sig x + p - 1 < Suc k * p"
    using assms(1,2) p unfolding p_def[symmetric] k by simp_all
  then show ?thesis unfolding dbl_ceil_def p_def[symmetric]
    by (intro div_nat_eqI) (simp_all add: mult.commute)
qed

lemma dbl_of_ratio_simps [simp]:
  "sig (dbl_of_ratio a b) = round_div (a * 2 ^ dbl_scale a b) b"
  "scale (dbl_of_ratio a b) = dbl_scale a b"
  by (simp_all add: dbl_of_ratio_def Let_def)

text \<open>
  The exact quotient lies in \<open>(k - 1, k]\<close> and not too close above \<open>k - 1\<close>: then rounding does not
  change its ceiling.
\<close>

lemma dbl_ceil_ratio:
  assumes b: "0 < b" and k: "0 < k" and up: "a \<le> k * b"
    and lo: "b < 2 ^ Suc (dbl_scale a b) * (a - (k - 1) * b)"
  shows "dbl_ceil (dbl_of_ratio a b) = k"
proof (rule dbl_ceilI)
  define p m where "p = (2 :: nat) ^ dbl_scale a b" and "m = round_div (a * p) b"
  have e: "2 * (m * b) \<le> 2 * (a * p) + b" "2 * (a * p) \<le> 2 * (m * b) + b"
    using round_div_error[OF b] by (simp_all add: m_def)
  have "m \<le> k * p"
  proof (rule ccontr)
    assume "\<not> m \<le> k * p"
    then have "(k * p + 1) * b \<le> m * b" by (intro mult_right_mono) simp_all
    then have "(k * p) * b + b \<le> m * b" by (simp add: add_mult_distrib)
    moreover have "a * p \<le> (k * p) * b"
      using mult_right_mono[OF up, of p] by (simp add: ac_simps)
    ultimately show False using e(1) b by linarith
  qed
  then show "sig (dbl_of_ratio a b) \<le> k * 2 ^ scale (dbl_of_ratio a b)"
    by (simp add: p_def m_def)
  have "(k - 1) * p < m"
  proof (rule ccontr)
    assume "\<not> (k - 1) * p < m"
    then have "m * b \<le> (k - 1) * p * b" by (intro mult_right_mono) simp_all
    then have "2 * (a * p) \<le> 2 * ((k - 1) * b * p) + b" using e(2) by (simp add: algebra_simps)
    moreover have "b < 2 * (p * a - p * ((k - 1) * b))"
      using lo by (simp add: p_def diff_mult_distrib2)
    ultimately show False by (simp add: algebra_simps)
  qed
  then show "(k - 1) * 2 ^ scale (dbl_of_ratio a b) < sig (dbl_of_ratio a b)"
    by (simp add: p_def m_def)
qed (rule k)

lemma dbl_scale_large:
  assumes "0 < a" "0 < b" "floorlog 2 a \<le> 52 + floorlog 2 b" "a \<le> c * b" "c \<le> 2 ^ 21"
  shows "2 ^ 31 \<le> (2 :: nat) ^ dbl_scale a b"
proof (rule ccontr)
  define p where "p = (2 :: nat) ^ dbl_scale a b"
  assume "\<not> 2 ^ 31 \<le> (2 :: nat) ^ dbl_scale a b"
  then have p: "p < 2 ^ 31" by (simp add: p_def)
  have "b * 2 ^ 52 \<le> a * p" using dbl_scale_bounds(1)[OF assms(1-3)] by (simp add: p_def)
  also have "\<dots> \<le> c * b * p" using assms(4) by simp
  also have "\<dots> \<le> 2 ^ 21 * b * p" using assms(5) by (intro mult_right_mono) simp_all
  also have "\<dots> < 2 ^ 21 * b * 2 ^ 31" using p assms(2) by simp
  finally show False by simp
qed

section \<open>The two ceilings of init_superblock\<close>

definition INODES_PERCENT :: dbl where
  "INODES_PERCENT = dbl_of_ratio 1 10"

lemma INODES_PERCENT_eq: "INODES_PERCENT = Dbl 7205759403792794 56"
  by (simp add: INODES_PERCENT_def dbl_of_ratio_def dbl_scale_def round_div_def compute_floorlog)

lemma tenth_ceil:
  assumes "1 \<le> n" "n \<le> 2 ^ 21"
  shows "dbl_ceil (dbl_mult_nat n INODES_PERCENT) = (n + 9) div 10"
proof -
  define a b k where "a = n * 7205759403792794" and "b = (2 :: nat) ^ 56" and "k = (n + 9) div 10"
  have eq: "dbl_mult_nat n INODES_PERCENT = dbl_of_ratio a b"
    by (simp add: dbl_mult_nat_def INODES_PERCENT_eq a_def b_def)
  have pos: "0 < a" "0 < b" "0 < k" using assms by (simp_all add: a_def b_def k_def)
  have "a < 2 ^ 108" using assms by (simp add: a_def)
  then have "floorlog 2 a \<le> 108" using pos by (intro floorlog_leI) simp_all
  moreover have "floorlog 2 b = 57" unfolding b_def by (simp add: compute_floorlog)
  ultimately have fl: "floorlog 2 a \<le> 52 + floorlog 2 b" by simp
  have ab: "10 * a = n * (b + 4)" by (simp add: a_def b_def)
  have s: "2 ^ 31 \<le> (2 :: nat) ^ dbl_scale a b"
    by (rule dbl_scale_large[OF pos(1,2) fl, of n]) (use assms in \<open>simp_all add: a_def b_def\<close>)
  show ?thesis
  proof (cases "n mod 10 = 0")
    case True
    then have n: "n = 10 * k" by (simp add: k_def) presburger
    define p where "p = (2 :: nat) ^ dbl_scale a b"
    have p_pos: "0 < p" by (simp add: p_def)
    have a10: "a = k * (b + 4)" using ab n by simp
    have "a * p < b * 2 ^ 53" using dbl_scale_bounds(2)[OF pos(1,2) fl] by (simp add: p_def)
    moreover have "k * b * p \<le> a * p" by (simp add: a10 algebra_simps)
    ultimately have "k * p < 2 ^ 53" using pos(2) by (metis le_less_trans mult.assoc mult.commute nat_mult_less_cancel1)
    then have r: "4 * (k * p) * 2 < b" by (simp add: b_def)
    have "a * p = (k * p) * b + 4 * (k * p)" by (simp add: a10 algebra_simps)
    then have "round_div (a * p) b = k * p" using r by (simp add: round_div_def Let_def)
    then show ?thesis
      unfolding eq k_def[symmetric] using pos(3) p_pos
      by (intro dbl_ceilI) (simp_all add: p_def[symmetric])
  next
    case False
    then have n: "10 * (k - 1) + 1 \<le> n" "n + 1 \<le> 10 * k" unfolding k_def by presburger+
    have "10 * a \<le> 10 * (k * b)"
    proof -
      have "(n + 1) * b \<le> 10 * k * b" using n(2) by (rule mult_right_mono) simp
      moreover have "n * 4 \<le> b" using assms(2) by (simp add: b_def)
      ultimately show ?thesis unfolding ab by (simp add: algebra_simps)
    qed
    moreover have "10 * ((k - 1) * b) + b \<le> 10 * a"
    proof -
      have "(10 * (k - 1) + 1) * b \<le> n * b" using n(1) by (rule mult_right_mono) simp
      then show ?thesis unfolding ab by (simp add: algebra_simps)
    qed
    ultimately have "a \<le> k * b" "b \<le> 10 * (a - (k - 1) * b)" by simp_all
    moreover have "b < 2 ^ Suc (dbl_scale a b) * (a - (k - 1) * b)"
    proof -
      have "b < 11 * (a - (k - 1) * b)" using calculation(2) pos(2) by linarith
      also have "\<dots> \<le> 2 ^ Suc (dbl_scale a b) * (a - (k - 1) * b)"
        using s by (intro mult_right_mono) simp_all
      finally show ?thesis .
    qed
    ultimately show ?thesis
      unfolding eq k_def[symmetric] using pos by (intro dbl_ceil_ratio) simp_all
  qed
qed

definition inode_blocks_per_bitmap_block :: dbl where
  "inode_blocks_per_bitmap_block = dbl_of_ratio 32768 51"

lemma bitmap_divisor_eq:
  "dbl_add_nat inode_blocks_per_bitmap_block 1 = Dbl 5660372095996948 43"
  by (simp add: inode_blocks_per_bitmap_block_def dbl_add_nat_def dbl_of_ratio_def dbl_scale_def
      round_div_def compute_floorlog)

lemma bitmap_ceil:
  assumes "1 \<le> t" "t \<le> 25000"
  shows "dbl_ceil (nat_div_dbl t (dbl_add_nat inode_blocks_per_bitmap_block 1)) =
    (51 * t + 32818) div 32819"
proof -
  define a b k where "a = t * 2 ^ 43" and "b = (5660372095996948 :: nat)"
    and "k = (51 * t + 32818) div 32819"
  have eq: "nat_div_dbl t (dbl_add_nat inode_blocks_per_bitmap_block 1) = dbl_of_ratio a b"
    unfolding bitmap_divisor_eq by (simp add: nat_div_dbl_def a_def b_def)
  define r where "r = (51 * t + 32818) mod 32819"
  have "51 * t + 32818 = 32819 * k + r" "r < 32819" by (simp_all add: k_def r_def)
  then have k: "0 < k" "51 * t \<le> 32819 * k" "32819 * (k - 1) + 1 \<le> 51 * t" "k \<le> 39"
    using assms by linarith+
  have pos: "0 < a" "0 < b" using assms by (simp_all add: a_def b_def)
  have "a < 2 ^ 58" using assms by (simp add: a_def)
  then have "floorlog 2 a \<le> 58" using pos by (intro floorlog_leI) simp_all
  moreover have "floorlog 2 b = 53" unfolding b_def by (simp add: compute_floorlog)
  ultimately have fl: "floorlog 2 a \<le> 52 + floorlog 2 b" by simp
  have s: "2 ^ 31 \<le> (2 :: nat) ^ dbl_scale a b"
    by (rule dbl_scale_large[OF pos fl, of t]) (use assms in \<open>simp_all add: a_def b_def\<close>)
  have "51 * t \<noteq> 32819 * k"
  proof
    assume e: "51 * t = 32819 * k"
    define z where "z = 2 * int t - 1287 * int k"
    have "51 * int t = 32819 * int k" using arg_cong[OF e, of int] by simp
    then have "int k = 51 * z" by (simp add: z_def)
    then show False using k(1,4) by presburger
  qed
  then have "51 * t + 1 \<le> 32819 * k" using k(2) by simp
  then have up: "a \<le> k * b" using k(4) by (simp add: a_def b_def)
  have "(k - 1) * b + 2 ^ 32 \<le> a" using k(3,4) by (simp add: a_def b_def)
  then have "2 ^ 32 \<le> a - (k - 1) * b" by simp
  then have "2 ^ 31 * 2 ^ 32 \<le> 2 ^ dbl_scale a b * (a - (k - 1) * b)"
    using s by (intro mult_mono) simp_all
  then have lo: "b < 2 ^ Suc (dbl_scale a b) * (a - (k - 1) * b)" by (simp add: b_def)
  show ?thesis
    unfolding eq k_def[symmetric] by (rule dbl_ceil_ratio[OF pos(2) k(1) up lo])
qed

text \<open>\<open>ceil((double)n / 1024)\<close>: dividing by a power of two is exact.\<close>

lemma dyadic_ceil:
  assumes "1 \<le> n" "n \<le> 2 ^ 21"
  shows "dbl_ceil (dbl_of_ratio n 1024) = (n + 1023) div 1024"
proof -
  define k where "k = (n + 1023) div 1024"
  define r where "r = (n + 1023) mod 1024"
  have "n + 1023 = 1024 * k + r" "r < 1024" by (simp_all add: k_def r_def)
  then have k: "0 < k" "n \<le> k * 1024" "(k - 1) * 1024 + 1 \<le> n" using assms(1) by linarith+
  have "floorlog 2 n \<le> 22" using assms by (intro floorlog_leI) simp_all
  then have fl: "floorlog 2 n \<le> 52 + floorlog 2 (1024 :: nat)" by simp
  have s: "2 ^ 31 \<le> (2 :: nat) ^ dbl_scale n 1024"
    by (rule dbl_scale_large[OF _ _ fl, of n]) (use assms in simp_all)
  have "2 ^ 31 * 1 \<le> 2 ^ dbl_scale n 1024 * (n - (k - 1) * 1024)"
    using s k(3) by (intro mult_mono) simp_all
  then have "1024 < 2 ^ Suc (dbl_scale n 1024) * (n - (k - 1) * 1024)" by simp
  then show ?thesis
    unfolding k_def[symmetric] by (intro dbl_ceil_ratio) (use k in simp_all)
qed

end
