(* ===== verification/Mkfs.thy ===== *)
theory Mkfs
  imports Dirents Doubles
begin

text \<open>
  Formatting: \<open>mkfs\<close> of \<open>src/layer1.c\<close> and the four routines it calls, \<open>init_superblock\<close> (the
  geometry, computed in doubles), \<open>init_freelist\<close>, \<open>init_ibitmap\<close> and \<open>create_dir_base\<close> (the root
  directory, and every directory made later by \<open>mkdir\<close>).  The lemmas show that a formatted disk
  satisfies \<open>fs_ok\<close> with every data block free but the one of the root directory.
\<close>

section \<open>Operations\<close>

definition MIN_IBITMAP :: int where [c_consts]: "MIN_IBITMAP = 1"
definition MIN_INODES :: int where [c_consts]: "MIN_INODES = 1"
definition MIN_DATA :: int where [c_consts]: "MIN_DATA = 1"
definition MIN_BLOCKS :: int where
  "MIN_BLOCKS = int SUPERBLOCK_SIZE + MIN_IBITMAP + MIN_INODES + MIN_DATA"
definition ROOT_FREELIST :: int where [simp]: "ROOT_FREELIST = 1"

lemma MIN_BLOCKS_eq [simp]: "MIN_BLOCKS = 4"
  by (simp add: MIN_BLOCKS_def c_consts)

definition init_sb :: "int \<Rightarrow> superblock" where
  "init_sb blocks =
    (let total_iblocks = max (MIN_IBITMAP + MIN_INODES)
           (int (dbl_ceil (dbl_mult_nat (nat blocks) INODES_PERCENT)));
         data_blocks = blocks - int SUPERBLOCK_SIZE - total_iblocks;
         inode_blocks_per_bitmap_block = dbl_of_ratio BITS_PER_BLOCK INODES_PER_BLOCK;
         ibitmap_blocks = int (dbl_ceil
           (nat_div_dbl (nat total_iblocks) (dbl_add_nat inode_blocks_per_bitmap_block 1)));
         inode_blocks = total_iblocks - ibitmap_blocks
     in \<lparr>sb_ibitmap_block_offset = word_of_nat SUPERBLOCK_SIZE,
         sb_ibitmap_size = word_of_int ibitmap_blocks,
         sb_ilist_block_offset = word_of_int (int SUPERBLOCK_SIZE + ibitmap_blocks),
         sb_ilist_size = word_of_int inode_blocks,
         sb_data_block_offset = word_of_int (int SUPERBLOCK_SIZE + ibitmap_blocks + inode_blocks),
         sb_data_size = word_of_int data_blocks,
         sb_total_blocks = word_of_int blocks,
         sb_total_inodes = word_of_int (inode_blocks * int INODES_PER_BLOCK),
         sb_free_list_head = word_of_int ROOT_FREELIST,
         sb_root_inode = word_of_int ROOT_INODE,
         sb_block_size = word_of_nat BLOCK_SIZE,
         sb_inodes_per_block = word_of_nat INODES_PER_BLOCK,
         sb_num_inodes = word_of_int (inode_blocks * int INODES_PER_BLOCK)\<rparr>)"

definition init_superblock :: "int \<Rightarrow> 'a layer1_scheme \<Rightarrow> int \<times> 'a layer1_scheme" where
  "init_superblock blocks s = write_superblock (Some (init_sb blocks)) s"

text \<open>The inner loop of \<open>init_freelist\<close> fills \<open>cur.addr\<close>; it stops at the first block too large.\<close>

primrec fill_addr :: "nat list \<Rightarrow> int \<Rightarrow> int \<Rightarrow> freelist_node \<Rightarrow> freelist_node" where
  "fill_addr [] node_loc num_data_blocks cur = cur"
| "fill_addr (j # js) node_loc num_data_blocks cur =
    (if node_loc + int j + 1 \<le> num_data_blocks then
       fill_addr js node_loc num_data_blocks
         (cur\<lparr>fl_addr := (fl_addr cur)[j := word_of_int (node_loc + int j + 1)]\<rparr>)
     else cur)"

definition init_node :: "int \<Rightarrow> nat \<Rightarrow> freelist_node" where
  "init_node num_data_blocks i =
    (let blocks_per_node = ADDR_PER_NODE + 1;
         node_loc = int (i * blocks_per_node + 1);
         cur = fill_addr [0..<ADDR_PER_NODE] node_loc num_data_blocks zero_node;
         next_loc = int ((i + 1) * blocks_per_node + 1)
     in if next_loc \<le> num_data_blocks then cur\<lparr>fl_next := word_of_int next_loc\<rparr> else cur)"

primrec init_freelist_loop ::
    "nat list \<Rightarrow> int \<Rightarrow> 'a layer1_scheme \<Rightarrow> int \<times> 'a layer1_scheme" where
  "init_freelist_loop [] num_data_blocks s = (SUCCESS, s)"
| "init_freelist_loop (i # is) num_data_blocks s =
    (let node_loc = int (i * (ADDR_PER_NODE + 1) + 1);
         (ret, s') = data_write node_loc (Some (enc_node (init_node num_data_blocks i))) s
     in if ret \<noteq> SUCCESS then (DISC_UNINITIALIZED, s')
        else init_freelist_loop is num_data_blocks s')"

definition init_freelist :: "'a layer1_scheme \<Rightarrow> int \<times> 'a layer1_scheme" where
  "init_freelist s =
    (let (ret, sb) = local_superblock s in
     if ret \<noteq> SUCCESS then (DISC_UNINITIALIZED, s)
     else (let num_data_blocks = sint (sb_data_size sb);
               blocks_per_node = ADDR_PER_NODE + 1;
               num_nodes = dbl_ceil (dbl_of_ratio (nat num_data_blocks) blocks_per_node)
           in init_freelist_loop [0..<num_nodes] num_data_blocks s))"

primrec init_ibitmap_loop :: "nat list \<Rightarrow> superblock \<Rightarrow> 'a layer1_scheme \<Rightarrow> 'a layer1_scheme" where
  "init_ibitmap_loop [] sb s = s"
| "init_ibitmap_loop (cur # rest) sb s =
    init_ibitmap_loop rest sb
      (snd (write_block (sint (sb_ibitmap_block_offset sb + word_of_nat cur))
        (Some (replicate BLOCK_SIZE 0)) s))"

definition init_ibitmap :: "'a layer1_scheme \<Rightarrow> int \<times> 'a layer1_scheme" where
  "init_ibitmap s =
    (let (ret, sb) = local_superblock s in
     if ret \<noteq> SUCCESS then (DISC_UNINITIALIZED, s)
     else (SUCCESS, init_ibitmap_loop [0..<unat (sb_ibitmap_size sb)] sb s))"

definition S_IFDIR :: u32 where "S_IFDIR = 0x4000"
definition S_IFREG :: u32 where "S_IFREG = 0x8000"

text \<open>
  \<open>dirblock d; dir_ent dot, dot_dot;\<close> are uninitialised: all their bytes but the two names and
  inode numbers are whatever the stack held.
\<close>

definition base_dirblock :: "int \<Rightarrow> int \<Rightarrow> 'a layer0_scheme \<Rightarrow> byte list" where
  "base_dirblock my_inode parent_inum s =
    (let d = uninit BLOCK_SIZE s;
         dot = \<lparr>de_name = strcpy (uninit FILEBUF_SIZE (consume BLOCK_SIZE s)) DOT,
                de_inode_num = word_of_int my_inode\<rparr>;
         dot_dot = \<lparr>de_name = strcpy (uninit FILEBUF_SIZE (consume (BLOCK_SIZE + FILEBUF_SIZE) s)) DOT_DOT,
                de_inode_num = word_of_int (if parent_inum = INVALID_INODE then my_inode else parent_inum)\<rparr>
     in set_dirent 1 dot_dot (set_dirent 0 dot d))"

definition dir_inode :: "u32 \<Rightarrow> int \<Rightarrow> int \<Rightarrow> int \<Rightarrow> inode" where
  "dir_inode mode uid gid data_num =
    zero_inode\<lparr>i_mode := (S_IFDIR OR mode) AND (0xffff XOR S_IFREG),
      i_uid := word_of_int uid, i_gid := word_of_int gid,
      i_size := word_of_nat (2 * sizeof_dirent),
      i_direct_blocks := (i_direct_blocks zero_inode)[0 := word_of_int data_num]\<rparr>"

text \<open>The second result is \<open>*inode_num\<close> afterwards.\<close>

definition create_dir_base ::
    "int \<Rightarrow> u32 \<Rightarrow> int \<Rightarrow> int \<Rightarrow> int \<Rightarrow> 'a layer1_scheme \<Rightarrow> int \<times> int \<times> 'a layer1_scheme" where
  "create_dir_base inode_num mode uid gid parent_inum s =
    (let (ret, my_inode, s1) = inode_create (Some (uninit_inode s)) (Some 0) (consume sizeof_inode s) in
     if ret \<noteq> SUCCESS then (ret, inode_num, s1)
     else
       (let d = base_dirblock my_inode parent_inum s1;
            (ret, data_num, s2) = data_allocate (Some d) 0
              (consume (BLOCK_SIZE + 2 * FILEBUF_SIZE) s1)
        in if ret \<noteq> SUCCESS then (ret, inode_num, snd (inode_free my_inode s2))
           else (let (_, s3) = inode_write my_inode (Some (dir_inode mode uid gid data_num)) s2
                 in (SUCCESS, my_inode, s3))))"

definition S_IRWXUGO :: u32 where "S_IRWXUGO = 0x1ff"

text \<open>\<open>malloc_ok\<close> says whether the allocation of the disk succeeds.\<close>

definition mkfs :: "bool \<Rightarrow> int \<Rightarrow> int \<Rightarrow> int \<Rightarrow> 'a layer1_scheme \<Rightarrow> int \<times> 'a layer1_scheme" where
  "mkfs malloc_ok blocks root_uid root_gid s =
    (if blocks < 0 then (TOTALBLOCKS_INVALID, s)
     else if blocks < MIN_BLOCKS then (FS_TOO_SMALL, s)
     else if BLOCK_SIZE < sizeof_inode then (BLOCKSIZE_TOO_SMALL, s)
     else if root_uid < 0 \<or> root_gid < 0 then (BAD_UID, s)
     else
       (let blocks = (if int MAX_FS_SIZE < blocks then int MAX_FS_SIZE else blocks) in
        if \<not> malloc_ok then (UNEXPECTED_ERROR, s\<lparr>disk := None, total_blocks := blocks\<rparr>)
        else
          (let n = nat blocks * BLOCK_SIZE;
               s0 = consume n (s\<lparr>disk := Some (uninit n s), total_blocks := blocks\<rparr>);
               (_, s1) = init_superblock blocks s0;
               (_, s2) = init_freelist s1;
               (_, s3) = init_ibitmap s2;
               (_, root_inode, s4) = create_dir_base 0 S_IRWXUGO root_uid root_gid INVALID_INODE s3;
               (_, sb) = local_superblock s4;
               (_, s5) = write_superblock (Some (sb\<lparr>sb_root_inode := word_of_int root_inode\<rparr>)) s4
           in (SUCCESS, s5))))"

section \<open>The geometry\<close>

definition isize :: "nat \<Rightarrow> nat" where
  "isize n = max 2 ((n + 9) div 10)"

definition bsize :: "nat \<Rightarrow> nat" where
  "bsize n = (51 * isize n + 32818) div 32819"

lemma sizes_bounds:
  assumes "4 \<le> n" "n \<le> MAX_FS_SIZE"
  shows "2 \<le> isize n" "isize n \<le> 25000" "isize n + 2 \<le> n"
    "1 \<le> bsize n" "bsize n < isize n" "51 * isize n \<le> 32819 * bsize n"
proof -
  have n: "n \<le> 250000" using assms(2) by (simp add: MAX_FS_SIZE_def)
  define q where "q = (n + 9) div 10"
  have "10 * q \<le> n + 9" by (simp add: q_def)
  then show i: "2 \<le> isize n" "isize n \<le> 25000" "isize n + 2 \<le> n"
    using assms(1) n unfolding isize_def q_def[symmetric] by auto
  define r where "r = (51 * isize n + 32818) mod 32819"
  have "51 * isize n + 32818 = 32819 * bsize n + r" "r < 32819" by (simp_all add: bsize_def r_def)
  then show "1 \<le> bsize n" "bsize n < isize n" "51 * isize n \<le> 32819 * bsize n"
    using i by linarith+
qed

lemma init_sb_int:
  assumes "4 \<le> n" "n \<le> MAX_FS_SIZE"
  shows "init_sb (int n) =
    \<lparr>sb_ibitmap_block_offset = 1, sb_ibitmap_size = word_of_nat (bsize n),
     sb_ilist_block_offset = word_of_nat (1 + bsize n),
     sb_ilist_size = word_of_nat (isize n - bsize n),
     sb_data_block_offset = word_of_nat (1 + isize n), sb_data_size = word_of_nat (n - 1 - isize n),
     sb_total_blocks = word_of_nat n, sb_total_inodes = word_of_nat ((isize n - bsize n) * 51),
     sb_free_list_head = 1, sb_root_inode = 1, sb_block_size = 4096, sb_inodes_per_block = 51,
     sb_num_inodes = word_of_nat ((isize n - bsize n) * 51)\<rparr>"
proof -
  note b = sizes_bounds[OF assms]
  have "int (dbl_ceil (dbl_mult_nat n INODES_PERCENT)) = int ((n + 9) div 10)"
    using assms by (subst tenth_ceil) (simp_all add: MAX_FS_SIZE_def)
  then have T: "max (MIN_IBITMAP + MIN_INODES) (int (dbl_ceil (dbl_mult_nat n INODES_PERCENT))) =
      int (isize n)" by (simp add: isize_def c_consts)
  have "dbl_of_ratio BITS_PER_BLOCK INODES_PER_BLOCK = inode_blocks_per_bitmap_block"
    by (simp add: inode_blocks_per_bitmap_block_def c_consts)
  then have I: "int (dbl_ceil (nat_div_dbl (isize n)
      (dbl_add_nat (dbl_of_ratio BITS_PER_BLOCK INODES_PER_BLOCK) 1))) = int (bsize n)"
    using b(1,2) bitmap_ceil[of "isize n"] by (simp add: bsize_def)
  have d: "int n - 1 - int (isize n) = int (n - 1 - isize n)"
    "int (isize n) - int (bsize n) = int (isize n - bsize n)" using b by simp_all
  show ?thesis
    unfolding init_sb_def nat_int T I Let_def SUPERBLOCK_SIZE_eq of_nat_1 d
    using b by (simp add: c_consts flip: of_nat_add)
qed

lemma geometry_init_sb:
  assumes "4 \<le> n" "n \<le> MAX_FS_SIZE"
  shows "geometry (init_sb (int n)) n"
proof -
  note b = sizes_bounds[OF assms]
  have n: "n \<le> 250000" using assms(2) by (simp add: MAX_FS_SIZE_def)
  have u: "unat (word_of_nat k :: u32) = k" if "k \<le> 2000000" for k
    using that by (intro unat_u32_of_nat) simp
  define k where "k = isize n - bsize n"
  have k: "isize n = bsize n + k" using b by (simp add: k_def)
  then have "unat (word_of_nat (k * 51) :: u32) = k * 51" using b by (intro u) linarith
  moreover have "k * 51 \<le> bsize n * 32768" using b k by linarith
  ultimately show ?thesis
    unfolding geometry_def init_sb_int[OF assms] k_def[symmetric]
    using b n k assms(2) u[of "bsize n"] u[of k] u[of "1 + bsize n"] u[of "1 + isize n"]
      u[of "n - 1 - isize n"]
    by (simp add: c_consts)
qed

lemma init_superblock_ok:
  assumes "disk_ok s" "nblocks s = n" "4 \<le> n" "n \<le> MAX_FS_SIZE"
  shows "init_superblock (int n) s = (SUCCESS, put_superblock (init_sb (int n)) s)"
    and "mounted (put_superblock (init_sb (int n)) s)"
  using assms geometry_init_sb[of n] write_superblock_ok[of s "init_sb (int n)"]
  by (simp_all add: init_superblock_def mounted_put_superblock)

section \<open>The initial free list\<close>

definition fl_loc :: "nat \<Rightarrow> nat" where
  "fl_loc i = i * (ADDR_PER_NODE + 1) + 1"

lemma fl_loc_eq: "fl_loc i = i * 1024 + 1" "fl_loc (Suc i) = fl_loc i + 1024"
  by (simp_all add: fl_loc_def c_consts)

lemma fill_addr_spec:
  assumes "k \<le> ADDR_PER_NODE" "node_wf cur"
  shows "fill_addr [k..<ADDR_PER_NODE] (int loc) (int n) cur =
    cur\<lparr>fl_addr := map (\<lambda>j. if k \<le> j \<and> loc + j + 1 \<le> n then word_of_nat (loc + j + 1)
      else fl_addr cur ! j) [0..<ADDR_PER_NODE]\<rparr>"
  using assms
proof (induction "ADDR_PER_NODE - k" arbitrary: k cur)
  case 0
  then have k: "k = ADDR_PER_NODE" and "map (\<lambda>j. fl_addr cur ! j) [0..<ADDR_PER_NODE] = fl_addr cur"
    by (simp, metis map_nth node_wf_def)
  moreover have "map (\<lambda>j. if k \<le> j \<and> loc + j + 1 \<le> n then word_of_nat (loc + j + 1)
      else fl_addr cur ! j) [0..<ADDR_PER_NODE] = map (\<lambda>j. fl_addr cur ! j) [0..<ADDR_PER_NODE]"
    using k by (intro map_cong) auto
  ultimately show ?case by simp
next
  case (Suc d)
  then have upt: "[k..<ADDR_PER_NODE] = k # [Suc k..<ADDR_PER_NODE]" by (simp add: upt_conv_Cons)
  have len: "length (fl_addr cur) = ADDR_PER_NODE" using Suc.prems by (simp add: node_wf_def)
  show ?case
  proof (cases "loc + k + 1 \<le> n")
    case True
    let ?c = "cur\<lparr>fl_addr := (fl_addr cur)[k := word_of_nat (loc + k + 1)]\<rparr>"
    have "fill_addr [Suc k..<ADDR_PER_NODE] (int loc) (int n) ?c =
      ?c\<lparr>fl_addr := map (\<lambda>j. if Suc k \<le> j \<and> loc + j + 1 \<le> n then word_of_nat (loc + j + 1)
        else fl_addr ?c ! j) [0..<ADDR_PER_NODE]\<rparr>"
      using Suc.hyps Suc.prems by (intro Suc.hyps(1)) simp_all
    moreover have "fill_addr [k..<ADDR_PER_NODE] (int loc) (int n) cur =
        fill_addr [Suc k..<ADDR_PER_NODE] (int loc) (int n) ?c"
    proof -
      have "int loc + int k + 1 = int (loc + k + 1)" by simp
      then show ?thesis unfolding upt fill_addr.simps using True by (simp only:) simp
    qed
    moreover have "map (\<lambda>j. if Suc k \<le> j \<and> loc + j + 1 \<le> n then word_of_nat (loc + j + 1)
          else fl_addr ?c ! j) [0..<ADDR_PER_NODE] =
        map (\<lambda>j. if k \<le> j \<and> loc + j + 1 \<le> n then word_of_nat (loc + j + 1)
          else fl_addr cur ! j) [0..<ADDR_PER_NODE]"
      using True len by (intro map_cong) (auto simp: nth_list_update not_less_eq_eq dest: le_antisym)
    ultimately show ?thesis by (simp only:) simp
  next
    case False
    have "map (\<lambda>j. if k \<le> j \<and> loc + j + 1 \<le> n then word_of_nat (loc + j + 1) else fl_addr cur ! j)
        [0..<ADDR_PER_NODE] = map (\<lambda>j. fl_addr cur ! j) [0..<ADDR_PER_NODE]"
      using False by (intro map_cong) auto
    also have "\<dots> = fl_addr cur" using len by (metis map_nth)
    finally show ?thesis using False upt by simp
  qed
qed

lemma filter_run:
  "m \<le> M \<Longrightarrow> filter (\<lambda>b. b \<noteq> 0) (map (\<lambda>j. if j < m then loc + j + 1 else 0) [0..<M]) =
    [loc + 1..<loc + 1 + (m :: nat)]"
proof -
  assume "m \<le> M"
  then have "[0..<M] = [0..<m] @ [m..<M]" by (metis le0 le_add_diff_inverse upt_add_eq_append)
  moreover have "filter (\<lambda>b. b \<noteq> 0) (map (\<lambda>j. if j < m then loc + j + 1 else 0) [m..<M]) = []"
    by (simp add: filter_empty_conv)
  moreover have "filter (\<lambda>b. b \<noteq> 0) (map (\<lambda>j. if j < m then loc + j + 1 else 0) [0..<m]) =
      map (\<lambda>j. j + (loc + 1)) [0..<m]"
    by (subst filter_True) (auto simp: add.commute)
  moreover have "map (\<lambda>j. j + (loc + 1)) [0..<m] = [loc + 1..<loc + 1 + m]"
    using map_add_upt[of "loc + 1" m] by (simp only: add.commute[of m])
  ultimately show ?thesis by (simp only: map_append filter_append append_Nil2)
qed

lemma init_node_spec:
  assumes "fl_loc i \<le> n" "n \<le> 2000000"
  shows "node_wf (init_node (int n) i)"
    and "fl_entries (init_node (int n) i) = [fl_loc i + 1..<min (fl_loc (Suc i)) (n + 1)]"
    and "unat (fl_next (init_node (int n) i)) = (if fl_loc (Suc i) \<le> n then fl_loc (Suc i) else 0)"
proof -
  define cur where "cur = fill_addr [0..<ADDR_PER_NODE] (int (fl_loc i)) (int n) zero_node"
  have cur: "cur = zero_node\<lparr>fl_addr := map (\<lambda>j. if fl_loc i + j + 1 \<le> n
      then word_of_nat (fl_loc i + j + 1) else 0) [0..<ADDR_PER_NODE]\<rparr>"
    unfolding cur_def by (subst fill_addr_spec) (auto simp: zero_node_def node_wf_def)
  have node: "init_node (int n) i = (if int (fl_loc (Suc i)) \<le> int n
      then cur\<lparr>fl_next := word_of_int (int (fl_loc (Suc i)))\<rparr> else cur)"
    unfolding init_node_def Let_def cur_def fl_loc_def by simp
  show "node_wf (init_node (int n) i)" by (simp add: node cur node_wf_def)
  have u: "unat (word_of_nat k :: u32) = k" if "k \<le> 2000000" for k
    using that by (intro unat_u32_of_nat) simp
  show "unat (fl_next (init_node (int n) i)) = (if fl_loc (Suc i) \<le> n then fl_loc (Suc i) else 0)"
    using assms u[of "fl_loc (Suc i)"] by (simp add: node cur zero_node_def)
  define m where "m = min ADDR_PER_NODE (n - fl_loc i)"
  have "map unat (fl_addr cur) = map (\<lambda>j. if j < m then fl_loc i + j + 1 else 0) [0..<ADDR_PER_NODE]"
    using assms u[of "fl_loc i + j + 1" for j] unfolding cur m_def
    by (auto simp del: of_nat_Suc of_nat_add)
  moreover have "fl_addr (init_node (int n) i) = fl_addr cur" by (simp add: node)
  ultimately have "fl_entries (init_node (int n) i) = [fl_loc i + 1..<fl_loc i + 1 + m]"
    unfolding fl_entries_def using filter_run[of m ADDR_PER_NODE "fl_loc i"]
    by (simp only:) (simp add: m_def)
  moreover have "fl_loc i + 1 + m = min (fl_loc (Suc i)) (n + 1)"
    using assms by (simp add: m_def fl_loc_eq(2) c_consts)
  ultimately show "fl_entries (init_node (int n) i) = [fl_loc i + 1..<min (fl_loc (Suc i)) (n + 1)]"
    by (simp only:)
qed

text \<open>The nodes from the \<open>i\<close>-th on chain up and give away the blocks from its own on, in order.\<close>

lemma init_chain:
  assumes "\<forall>j < K. h (fl_loc j) = init_node (int n) j" "K = (n + 1023) div 1024" "n \<le> 2000000" "i \<le> K"
  shows "fl_chain h (if i < K then fl_loc i else 0) (map fl_loc [i..<K])"
    and "fl_blocks h (map fl_loc [i..<K]) = (if i < K then [fl_loc i..<n + 1] else [])"
proof -
  have lt: "j < K \<longleftrightarrow> fl_loc j \<le> n" for j
  proof -
    define r where "r = (n + 1023) mod 1024"
    have "n + 1023 = 1024 * K + r" "r < 1024" by (simp_all add: assms(2) r_def)
    then show ?thesis unfolding fl_loc_eq(1) by linarith
  qed
  have "fl_chain h (if i < K then fl_loc i else 0) (map fl_loc [i..<K]) \<and>
      fl_blocks h (map fl_loc [i..<K]) = (if i < K then [fl_loc i..<n + 1] else [])"
    using assms(4)
  proof (induction "K - i" arbitrary: i)
    case (Suc d)
    then have i: "i < K" by simp
    have IH: "fl_chain h (if Suc i < K then fl_loc (Suc i) else 0) (map fl_loc [Suc i..<K])"
      "fl_blocks h (map fl_loc [Suc i..<K]) = (if Suc i < K then [fl_loc (Suc i)..<n + 1] else [])"
      using Suc.hyps(1)[of "Suc i"] Suc.hyps(2) i by simp_all
    have upt: "[i..<K] = i # [Suc i..<K]" using i by (simp add: upt_conv_Cons)
    have le: "fl_loc i \<le> n" using i lt by simp
    note nd = init_node_spec[OF le assms(3)]
    have h: "h (fl_loc i) = init_node (int n) i" using assms(1) i by simp
    have "[fl_loc i..<n + 1] = fl_loc i # [fl_loc i + 1..<n + 1]" using le by (simp add: upt_conv_Cons)
    moreover have "[fl_loc i + 1..<n + 1] = [fl_loc i + 1..<min (fl_loc (Suc i)) (n + 1)] @
        (if Suc i < K then [fl_loc (Suc i)..<n + 1] else [])"
    proof (cases "Suc i < K")
      case True
      then have "fl_loc (Suc i) \<le> n + 1" using lt[of "Suc i"] by simp
      then obtain q where q: "n + 1 = fl_loc (Suc i) + q" by (rule less_eqE)
      have "fl_loc i + 1 \<le> fl_loc (Suc i)" by (simp add: fl_loc_eq(2))
      then have "[fl_loc i + 1..<n + 1] = [fl_loc i + 1..<fl_loc (Suc i)] @ [fl_loc (Suc i)..<n + 1]"
        unfolding q by (rule upt_add_eq_append)
      moreover have "min (fl_loc (Suc i)) (n + 1) = fl_loc (Suc i)" unfolding q by simp
      ultimately show ?thesis using True by (simp only: if_True)
    next
      case False
      then have "n + 1 \<le> fl_loc (Suc i)" using lt[of "Suc i"] by simp
      then show ?thesis using False by (simp add: min_def)
    qed
    moreover have "fl_chain h (unat (fl_next (h (fl_loc i)))) (map fl_loc [Suc i..<K])"
      using IH(1) lt[of "Suc i"] nd(3) by (simp add: h split: if_splits)
    moreover have "fl_loc i \<noteq> 0" by (simp add: fl_loc_def)
    moreover have "fl_blocks h (map fl_loc [i..<K]) =
        fl_loc i # fl_entries (init_node (int n) i) @ fl_blocks h (map fl_loc [Suc i..<K])"
      by (simp add: upt h)
    ultimately show ?case using i IH(2) nd(2) by (simp add: upt del: upt_Suc)
  qed simp
  then show "fl_chain h (if i < K then fl_loc i else 0) (map fl_loc [i..<K])"
    and "fl_blocks h (map fl_loc [i..<K]) = (if i < K then [fl_loc i..<n + 1] else [])" by simp_all
qed

lemma init_freelist_loop_ok:
  assumes "mounted s" "\<forall>i \<in> set is. fl_loc i \<le> ndata s"
  shows "\<exists>t. init_freelist_loop is (int (ndata s)) s = (SUCCESS, t) \<and> mounted t \<and> data_step s t \<and>
    sb_of t = sb_of s \<and>
    (\<forall>c. node_at t c = (if c \<in> fl_loc ` set is then init_node (int (ndata s)) ((c - 1) div 1024)
      else node_at s c))"
  using assms
proof (induction "is" arbitrary: s)
  case (Cons i "is")
  have n: "ndata s \<le> 2000000" using mounted_regions[OF Cons.prems(1)] by simp
  let ?nd = "init_node (int (ndata s)) i"
  let ?s = "put_data (fl_loc i) (enc_node ?nd) s"
  have v: "valid_data s (fl_loc i)" using Cons.prems(2) by (simp add: valid_data_def fl_loc_def)
  have wf: "node_wf ?nd" using Cons.prems(2) n by (intro init_node_spec) simp_all
  then have b: "is_block (enc_node ?nd)" by (rule length_enc_node)
  have w: "data_write (int (fl_loc i)) (Some (enc_node ?nd)) s = (SUCCESS, ?s)"
    using Cons.prems(1) v b by (rule data_write_ok)
  have m: "mounted ?s" using Cons.prems(1) v b by simp
  have "init_freelist_loop (i # is) (int (ndata s)) s = init_freelist_loop is (int (ndata ?s)) ?s"
    using w by (simp add: fl_loc_def)
  moreover obtain t where t: "init_freelist_loop is (int (ndata ?s)) ?s = (SUCCESS, t)" "mounted t"
    "data_step ?s t" "sb_of t = sb_of ?s"
    "\<forall>c. node_at t c = (if c \<in> fl_loc ` set is then init_node (int (ndata ?s)) ((c - 1) div 1024)
      else node_at ?s c)"
    using Cons.IH[OF m] Cons.prems(2) by auto
  moreover have "data_step s t"
    by (rule data_step_trans[OF _ t(3)]) (use Cons.prems(1) v b in simp)
  moreover have "(fl_loc i - 1) div 1024 = i" by (simp add: fl_loc_eq(1))
  ultimately show ?case
    using Cons.prems(1) v b wf
    by (intro exI[of _ t]) (auto simp: node_at_put_data dec_enc_node)
qed simp

lemma init_freelist_ok:
  assumes "mounted s" "fl_head s = 1"
  shows "\<exists>t. init_freelist s = (SUCCESS, t) \<and> fs_ok t \<and> data_step s t \<and> sb_of t = sb_of s \<and>
    free_list t = [1..<ndata s + 1]"
proof -
  define K where "K = (ndata s + 1023) div 1024"
  note r = mounted_regions[OF assms(1)]
  have K: "dbl_ceil (dbl_of_ratio (ndata s) (ADDR_PER_NODE + 1)) = K"
    using dyadic_ceil[of "ndata s"] r by (simp add: c_consts K_def)
  have lt: "i < K \<Longrightarrow> fl_loc i \<le> ndata s" for i
  proof -
    define q where "q = (ndata s + 1023) mod 1024"
    have "ndata s + 1023 = 1024 * K + q" "q < 1024" by (simp_all add: K_def q_def)
    then show "i < K \<Longrightarrow> fl_loc i \<le> ndata s" unfolding fl_loc_eq(1) by linarith
  qed
  then have "\<forall>i \<in> set [0..<K]. fl_loc i \<le> ndata s" by simp
  from init_freelist_loop_ok[OF assms(1) this] obtain t where
    t: "init_freelist_loop [0..<K] (int (ndata s)) s = (SUCCESS, t)" "mounted t" "data_step s t"
      "sb_of t = sb_of s"
      "\<forall>c. node_at t c = (if c \<in> fl_loc ` set [0..<K] then init_node (int (ndata s)) ((c - 1) div 1024)
        else node_at s c)" by blast
  have "sint (sb_data_size (sb_of s)) = int (ndata s)"
    using r by (subst sint_u32_small) (simp_all add: uint_regions)
  then have call: "init_freelist s = (SUCCESS, t)"
    using assms(1) t(1) K by (simp add: init_freelist_def Let_def)
  have h: "\<forall>j < K. node_at t (fl_loc j) = init_node (int (ndata s)) j"
    using t(5) by (auto simp: fl_loc_eq(1))
  have pos: "0 < K" using r(6) by (simp add: K_def)
  have n: "ndata s \<le> 2000000" using r by simp
  note ch = init_chain[OF h K_def n le0]
  have head: "fl_head t = fl_loc 0" using t(4) assms(2) by (simp add: fl_head_def fl_loc_def)
  have chain: "fl_chain (node_at t) (fl_head t) (map fl_loc [0..<K])" using ch(1) pos head by simp
  have blocks: "fl_blocks (node_at t) (map fl_loc [0..<K]) = [1..<ndata s + 1]"
    using ch(2) pos by (simp add: fl_loc_def)
  have "ndata t = ndata s" using t(4) by (simp add: ndata_def)
  then have v: "\<forall>b \<in> set [1..<ndata s + 1]. valid_data t b" by (auto simp: valid_data_def)
  show ?thesis
    using call t(3,4) fs_okI(1,2)[OF t(2) chain blocks distinct_upt v] by blast
qed

section \<open>The initial bitmap\<close>

lemma init_ibitmap_loop_ok:
  assumes "mounted s" "\<forall>k \<in> set ks. k < ibitmap_len s"
  shows "mounted (init_ibitmap_loop ks (sb_of s) s) \<and> inode_step s (init_ibitmap_loop ks (sb_of s) s) \<and>
    (\<forall>k. blk (init_ibitmap_loop ks (sb_of s) s) (ibitmap_off s + k) =
      (if k \<in> set ks then replicate BLOCK_SIZE 0 else blk s (ibitmap_off s + k)))"
  using assms
proof (induction ks arbitrary: s)
  case (Cons k ks)
  let ?s = "put_blk (ibitmap_off s + k) (replicate BLOCK_SIZE 0) s"
  have k: "k < ibitmap_len s" using Cons.prems by simp
  have z: "is_block (replicate BLOCK_SIZE 0)" by (simp add: is_block_def)
  note off = bitmap_offset[OF Cons.prems(1) k]
  have m: "mounted ?s" using ibitmap.ok_wr[OF Cons.prems(1) k z] .
  have step: "init_ibitmap_loop (k # ks) (sb_of s) s = init_ibitmap_loop ks (sb_of ?s) ?s"
    using off Cons.prems(1) z by simp
  have "inode_step s ?s"
    using Cons.prems(1) off(2) z k mounted_regions[OF Cons.prems(1)]
    by (auto simp: inode_step_def blk_put_blk mounted_disk_ok)
  moreover have "blk ?s (ibitmap_off s + j) =
      (if j = k then replicate BLOCK_SIZE 0 else blk s (ibitmap_off s + j))" for j
    using Cons.prems(1) off(2) z by (simp add: blk_put_blk mounted_disk_ok)
  moreover note Cons.IH[OF m]
  ultimately show ?case
    using Cons.prems(2) inode_step_trans[of s ?s] unfolding step by auto
qed simp

lemma init_ibitmap_ok:
  assumes "mounted s"
  shows "\<exists>t. init_ibitmap s = (SUCCESS, t) \<and> mounted t \<and> inode_step s t \<and>
    (\<forall>n. valid_inum t n \<longrightarrow> \<not> inode_used t n)"
proof -
  define t where "t = init_ibitmap_loop [0..<ibitmap_len s] (sb_of s) s"
  have t: "mounted t" "inode_step s t"
    "\<forall>k. blk t (ibitmap_off s + k) = (if k < ibitmap_len s then replicate BLOCK_SIZE 0
      else blk s (ibitmap_off s + k))"
    using init_ibitmap_loop_ok[OF assms, of "[0..<ibitmap_len s]"] unfolding t_def by simp_all
  note l = inode_step_layout[OF t(2)]
  have "\<not> inode_used t n" if "valid_inum t n" for n
  proof -
    have "islot n div BITS_PER_BLOCK < ibitmap_len s"
      using bitmap_room[OF t(1) that] l by (simp add: less_mult_imp_div_less)
    then show ?thesis
      using t(3) l byte_in_block[of "islot n"]
      by (simp add: inode_used_def bit_pos_def msb_bit_def)
  qed
  then show ?thesis
    using assms t(1,2) by (intro exI[of _ t]) (simp add: init_ibitmap_def t_def ibitmap_len_def)
qed

section \<open>create_dir_base\<close>

text \<open>A fresh directory block: entry 0 is \<open>.\<close>, entry 1 is \<open>..\<close>.\<close>

definition dir_base_block :: "nat \<Rightarrow> int \<Rightarrow> byte list \<Rightarrow> bool" where
  "dir_base_block n parent blck \<longleftrightarrow> is_block blck \<and>
    cstr (de_name (dirent_at blck 0)) = DOT \<and> de_inode_num (dirent_at blck 0) = word_of_nat n \<and>
    cstr (de_name (dirent_at blck 1)) = DOT_DOT \<and>
    de_inode_num (dirent_at blck 1) = (if parent = 0 then word_of_nat n else word_of_int parent)"

lemma dir_base_block: "dir_base_block n parent (base_dirblock (int n) parent s)"
proof -
  let ?dot = "\<lparr>de_name = strcpy (uninit FILEBUF_SIZE (consume BLOCK_SIZE s)) DOT,
    de_inode_num = word_of_int (int n)\<rparr>"
  let ?dd = "\<lparr>de_name = strcpy (uninit FILEBUF_SIZE (consume (BLOCK_SIZE + FILEBUF_SIZE) s)) DOT_DOT,
    de_inode_num = word_of_int (if parent = INVALID_INODE then int n else parent)\<rparr>"
  have wf: "dirent_wf ?dot" "dirent_wf ?dd" by (simp_all add: dirent_wf_def c_consts)
  have i: "0 < DIRENTS_PER_BLOCK" "1 < DIRENTS_PER_BLOCK" by (simp_all add: c_consts)
  have b: "is_block (set_dirent 0 ?dot (uninit BLOCK_SIZE s))" using wf i by simp
  show ?thesis
    unfolding dir_base_block_def base_dirblock_def Let_def
    using wf i b dirent_at_set_dirent[OF b i(2) wf(2)]
      dirent_at_set_dirent[OF is_block_uninit[of s] i(1) wf(1)]
    by simp
qed

lemma inode_wf_dir_inode [simp]: "inode_wf (dir_inode mode uid gid b)"
  using inode_wf_zero by (simp add: inode_wf_def dir_inode_def)

text \<open>
  The same with any inode and any number of bytes in place of the uninitialised \<open>my_inode\<close>; both versions
  of the code are instances of it.
\<close>

definition make_dir ::
    "nat \<Rightarrow> inode \<Rightarrow> int \<Rightarrow> u32 \<Rightarrow> int \<Rightarrow> int \<Rightarrow> int \<Rightarrow> 'a layer1_scheme \<Rightarrow> int \<times> int \<times> 'a layer1_scheme" where
  "make_dir w i inode_num mode uid gid parent_inum s =
    (let (ret, my_inode, s1) = inode_create (Some i) (Some 0) (consume w s) in
     if ret \<noteq> SUCCESS then (ret, inode_num, s1)
     else
       (let (ret, data_num, s2) = data_allocate (Some (base_dirblock my_inode parent_inum s1)) 0
              (consume (BLOCK_SIZE + 2 * FILEBUF_SIZE) s1)
        in if ret \<noteq> SUCCESS then (ret, inode_num, snd (inode_free my_inode s2))
           else (let (_, s3) = inode_write my_inode (Some (dir_inode mode uid gid data_num)) s2
                 in (SUCCESS, my_inode, s3))))"

lemma create_dir_base_make: "create_dir_base k mode uid gid parent s = make_dir sizeof_inode (uninit_inode s) k mode uid gid parent s"
  unfolding create_dir_base_def make_dir_def Let_def ..

lemma make_dir_spec:
  assumes ok: "fs_ok s" and wf: "inode_wf i"
  shows "(\<exists>t. make_dir w i old mode uid gid parent s = (ILIST_FULL, old, t) \<and> free_inums s = {} \<and>
      fs_frame {} {} s t \<and> free_inums t = free_inums s \<and> free_data t = free_data s)
    \<or> (\<exists>n t. make_dir w i old mode uid gid parent s = (DATA_FULL, old, t) \<and> free_data s = {} \<and>
      first_free s n \<and> fs_frame {n} {} s t \<and> free_inums t = free_inums s \<and> free_data t = free_data s)
    \<or> (\<exists>n b t. make_dir w i old mode uid gid parent s = (SUCCESS, int n, t) \<and>
      first_free s n \<and> b \<in> free_data s \<and> fs_frame {n} (free_data s) s t \<and>
      inode_at t n = dir_inode mode uid gid (int b) \<and> dir_base_block n parent (data_blk t b) \<and>
      free_inums t = free_inums s - {n} \<and> free_data t = free_data s - {b})"
proof -
  let ?s = "consume w s"
  have ok0: "fs_ok ?s" using ok by simp
  note ic = inode_create_frame[OF ok0 wf, of 0]
  show ?thesis
  proof (cases "free_inums s = {}")
    case True
    have "make_dir w i old mode uid gid parent s = (ILIST_FULL, old, ?s)"
      using ic True by (auto simp: make_dir_def first_free_def free_inums_def)
    then show ?thesis using True ok by (intro disjI1 exI[of _ ?s]) simp
  next
    case False
    then obtain n s1 where c: "inode_create (Some i) (Some 0) ?s = (SUCCESS, int n, s1)"
      "first_free s n" "fs_frame {n} {} ?s s1" "free_inums s1 = free_inums s - {n}"
      "free_data s1 = free_data s" using ic by auto
    let ?b = "base_dirblock (int n) parent s1"
    let ?s1 = "consume (BLOCK_SIZE + 2 * FILEBUF_SIZE) s1"
    have f1: "fs_frame {n} {} s ?s1"
      by (rule fs_frame_trans[OF fs_frame_consume[OF ok, of "{}" "{}" w]
            fs_frame_trans[OF c(3) fs_frame_consume[of s1 "{}" "{}"]]])
        (use fs_frameD[OF c(3)] in auto)
    have ok1: "fs_ok ?s1" using fs_frameD[OF c(3)] by simp
    have b: "dir_base_block n parent ?b" by (rule dir_base_block)
    then have blk: "is_block ?b" by (simp add: dir_base_block_def)
    have v: "valid_inum s n" using c(2) by (simp add: first_free_def)
    consider "free_data s = {}" "data_allocate (Some ?b) 0 ?s1 = (DATA_FULL, 0, ?s1)"
      | k s2 where "data_allocate (Some ?b) 0 ?s1 = (SUCCESS, int k, s2)" "k \<in> free_data s"
        "fs_frame {} (free_data s) ?s1 s2" "free_data s2 = free_data s - {k}" "data_blk s2 k = ?b"
        "free_inums s2 = free_inums s1"
      using data_allocate_frame[OF ok1 blk, of 0] c(5) by auto
    then show ?thesis
    proof cases
      case 1
      have v1: "valid_inum ?s1 n" using v fs_frameD(6)[OF f1] by simp
      note fr = inode_free_frame[OF ok1 v1]
      have "fs_frame {n} {} s (clear_inode n ?s1)" by (rule fs_frame_trans[OF f1 fr(2)]) auto
      moreover have "n \<in> free_inums s" using c(2) by (simp add: first_free_def free_inums_def)
      moreover have "make_dir w i old mode uid gid parent s = (DATA_FULL, old, clear_inode n ?s1)"
        using c(1) 1 fr(1) by (simp add: make_dir_def)
      ultimately show ?thesis
        using 1(1) c fr(3,4) by (intro disjI2 disjI1 exI[of _ n] exI[of _ "clear_inode n ?s1"]) auto
    next
      case 2
      let ?i = "dir_inode mode uid gid (int k)"
      let ?t = "put_inode n ?i s2"
      have f2: "fs_frame {n} (free_data s) s s2" by (rule fs_frame_trans[OF f1 2(3)]) auto
      have v2: "valid_inum s2 n" "fs_ok s2" "mounted s2" using v fs_frameD[OF f2] by simp_all
      have f3: "fs_frame {n} (free_data s) s ?t"
        by (rule fs_frame_trans[OF f2 fs_frame_put_inode[OF v2(2,1)]]) auto
      have st: "inode_step s2 ?t" using v2 by simp
      have call: "make_dir w i old mode uid gid parent s = (SUCCESS, int n, ?t)"
        using c(1) 2(1) inode_write_ok[OF v2(3,1), of ?i] by (simp add: make_dir_def)
      have "inode_at ?t n = ?i" using inode_at_put_inode[OF v2(3,1), of ?i n] v by (simp add: valid_inum_def)
      moreover have "free_inums ?t = free_inums s - {n}"
        using put_inode_free_inums[OF v2(3,1)] 2(6) c(4) by simp
      ultimately show ?thesis
        using call f3 b c(2) 2 inode_step_data(1)[OF st] inode_step_free_list(2)[OF st]
        by (intro disjI2 exI[of _ n] exI[of _ k] exI[of _ ?t]) simp
    qed
  qed
qed

lemma create_dir_base_spec:
  assumes "fs_ok s"
  shows "(\<exists>t. create_dir_base old mode uid gid parent s = (ILIST_FULL, old, t) \<and> free_inums s = {} \<and>
      fs_frame {} {} s t \<and> free_inums t = free_inums s \<and> free_data t = free_data s)
    \<or> (\<exists>n t. create_dir_base old mode uid gid parent s = (DATA_FULL, old, t) \<and> free_data s = {} \<and>
      first_free s n \<and> fs_frame {n} {} s t \<and> free_inums t = free_inums s \<and> free_data t = free_data s)
    \<or> (\<exists>n b t. create_dir_base old mode uid gid parent s = (SUCCESS, int n, t) \<and>
      first_free s n \<and> b \<in> free_data s \<and> fs_frame {n} (free_data s) s t \<and>
      inode_at t n = dir_inode mode uid gid (int b) \<and> dir_base_block n parent (data_blk t b) \<and>
      free_inums t = free_inums s - {n} \<and> free_data t = free_data s - {b})"
  unfolding create_dir_base_make by (rule make_dir_spec[OF assms inode_wf_uninit])

section \<open>mkfs\<close>

text \<open>Changing the root inode number in the superblock changes nothing else.\<close>

definition set_root :: "u32 \<Rightarrow> 'a layer1_scheme \<Rightarrow> 'a layer1_scheme" where
  "set_root x s = put_superblock ((sb_of s)\<lparr>sb_root_inode := x\<rparr>) s"

lemma set_root_ok:
  assumes "fs_ok s"
  shows "write_superblock (Some ((sb_of s)\<lparr>sb_root_inode := x\<rparr>)) s = (SUCCESS, set_root x s)"
    and "fs_frame {} {} s (set_root x s)" and "free_inums (set_root x s) = free_inums s"
    and "free_data (set_root x s) = free_data s" and "sb_root_inode (sb_of (set_root x s)) = x"
proof -
  let ?t = "set_root x s"
  have m: "mounted s" using assms by (rule fs_ok_mounted)
  note d = mounted_disk_ok[OF m] mounted_regions[OF m]
  show "write_superblock (Some ((sb_of s)\<lparr>sb_root_inode := x\<rparr>)) s = (SUCCESS, ?t)"
    using write_superblock_ok[of s] d by (simp add: set_root_def)
  have sb: "sb_of ?t = (sb_of s)\<lparr>sb_root_inode := x\<rparr>" "nblocks ?t = nblocks s"
    by (simp_all add: set_root_def)
  then show "sb_root_inode (sb_of ?t) = x" by simp
  have mt: "mounted ?t"
    using mounted_put_superblock[of s "(sb_of s)\<lparr>sb_root_inode := x\<rparr>"] mounted_geometry[OF m] d(1)
    by (simp add: set_root_def geometry_def)
  have blk: "0 < k \<Longrightarrow> blk ?t k = blk s k" for k
    using blk_put_superblock[of s] d by (simp add: set_root_def)
  have st: "data_step s (set_head (sb_free_list_head (sb_of s)) s)" using m by simp
  have r: "ibitmap_off ?t = ibitmap_off s" "ilist_off ?t = ilist_off s" "data_off ?t = data_off s"
    "ndata ?t = ndata s" "ninodes ?t = ninodes s" "fl_head ?t = fl_head s"
    by (simp_all add: region_defs fl_head_def sb)
  then have v: "valid_inum ?t k = valid_inum s k" "valid_data ?t k = valid_data s k" for k
    by (simp_all add: valid_inum_def valid_data_def)
  have at: "valid_inum s k \<Longrightarrow> inode_at ?t k = inode_at s k" for k
    by (rule inode_at_blk_cong) (use blk d r m in auto)
  have used: "valid_inum s k \<Longrightarrow> inode_used ?t k = inode_used s k" for k
    by (rule inode_used_blk_cong) (use blk d r m in auto)
  then show "free_inums ?t = free_inums s" by (auto simp: free_inums_def v)
  have dat: "data_blk ?t c = data_blk s c" for c using blk d r by (simp add: data_blk_def)
  then have h: "node_at ?t = node_at s" by (auto simp: node_at_def)
  then have "free_nodes ?t = free_nodes s" by (simp add: free_nodes_def r)
  then show "free_data ?t = free_data s" by (simp add: free_data_def free_list_def h)
  have "fs_ok ?t" using assms mt \<open>free_nodes ?t = free_nodes s\<close>
    by (simp add: fs_ok_def fl_inv_def h r v)
  then show "fs_frame {} {} s ?t" by (simp add: fs_frame_def sb r at dat)
qed

lemma mkfs_errors:
  "blocks < 0 \<Longrightarrow> mkfs ok blocks u g s = (TOTALBLOCKS_INVALID, s)"
  "0 \<le> blocks \<Longrightarrow> blocks < 4 \<Longrightarrow> mkfs ok blocks u g s = (FS_TOO_SMALL, s)"
  "4 \<le> blocks \<Longrightarrow> u < 0 \<or> g < 0 \<Longrightarrow> mkfs ok blocks u g s = (BAD_UID, s)"
  "4 \<le> blocks \<Longrightarrow> 0 \<le> u \<Longrightarrow> 0 \<le> g \<Longrightarrow> fst (mkfs False blocks u g s) = UNEXPECTED_ERROR"
  by (auto simp: mkfs_def c_consts Let_def)

lemma mkfs_spec:
  assumes "4 \<le> blocks" "0 \<le> uid" "0 \<le> gid"
  shows "\<exists>b t. mkfs True blocks uid gid s = (SUCCESS, t) \<and> fs_ok t \<and>
    nblocks t = min (nat blocks) MAX_FS_SIZE \<and> ndata t = nblocks t - 1 - isize (nblocks t) \<and>
    ninodes t = (isize (nblocks t) - bsize (nblocks t)) * INODES_PER_BLOCK \<and>
    valid_data t b \<and> free_data t = {1..ndata t} - {b} \<and> free_inums t = {2..ninodes t} \<and>
    sb_root_inode (sb_of t) = 1 \<and> inode_at t 1 = dir_inode S_IRWXUGO uid gid (int b) \<and>
    dir_base_block 1 0 (data_blk t b)"
proof -
  define n where "n = min (nat blocks) MAX_FS_SIZE"
  have n: "4 \<le> n" "n \<le> MAX_FS_SIZE" "n \<le> 250000" using assms(1) by (simp_all add: n_def MAX_FS_SIZE_def)
  have clamp: "(if int MAX_FS_SIZE < blocks then int MAX_FS_SIZE else blocks) = int n"
    using assms(1) by (cases "int MAX_FS_SIZE < blocks") (simp_all add: n_def min_def nat_le_iff)
  define s0 where "s0 = consume (n * BLOCK_SIZE)
    (s\<lparr>disk := Some (uninit (n * BLOCK_SIZE) s), total_blocks := int n\<rparr>)"
  have d0: "disk_ok s0" "nblocks s0 = n" by (simp_all add: s0_def disk_ok_def nblocks_def)
  define s1 where "s1 = put_superblock (init_sb (int n)) s0"
  have s1: "init_superblock (int n) s0 = (SUCCESS, s1)" "mounted s1" "nblocks s1 = n"
    "sb_of s1 = init_sb (int n)"
    using init_superblock_ok[OF d0 n(1,2)] d0 by (simp_all add: s1_def)
  have "fl_head s1 = 1" using s1(4) init_sb_int[OF n(1,2)] by (simp add: fl_head_def)
  from init_freelist_ok[OF s1(2) this] obtain s2 where s2: "init_freelist s1 = (SUCCESS, s2)" "fs_ok s2"
    "data_step s1 s2" "sb_of s2 = sb_of s1" "free_list s2 = [1..<ndata s1 + 1]" by blast
  obtain s3 where s3: "init_ibitmap s2 = (SUCCESS, s3)" "mounted s3" "inode_step s2 s3"
    "\<forall>k. valid_inum s3 k \<longrightarrow> \<not> inode_used s3 k" using init_ibitmap_ok[OF fs_ok_mounted[OF s2(2)]] by blast
  have ok3: "fs_ok s3" by (rule inode_step_fs_ok[OF s3(3) s2(2) s3(2)])
  have sb3: "sb_of s3 = init_sb (int n)" "nblocks s3 = n"
    using inode_step_layout(1,2)[OF s3(3)] s2(4) s1(3,4) data_step_layout(8)[OF s2(3)] by simp_all
  have u: "unat (word_of_nat k :: u32) = k" if "k \<le> 2000000" for k
    using that by (intro unat_u32_of_nat) simp
  note bnd = sizes_bounds[OF n(1,2)]
  have dims: "ndata s3 = n - 1 - isize n" "ninodes s3 = (isize n - bsize n) * 51"
    unfolding ndata_def ninodes_def sb3 init_sb_int[OF n(1,2)] superblock.select_convs
    using bnd n(3) by (intro u, simp)+
  have "set [1..<ndata s3 + 1] = {1..ndata s3}" by auto
  moreover have "ndata s1 = ndata s3" using sb3(1) s1(4) by (simp add: ndata_def)
  ultimately have fd3: "free_data s3 = {1..ndata s3}"
    using inode_step_free_list(2)[OF s3(3)] s2(5) by (simp add: free_data_def)
  have fi3: "free_inums s3 = {1..ninodes s3}" using s3(4) by (auto simp: free_inums_def valid_inum_def)
  have pos: "1 \<le> ndata s3" "1 \<le> ninodes s3" using dims bnd by simp_all
  have ff: "first_free s3 k \<longleftrightarrow> k = 1" for k
    using s3(4) pos(2) by (auto simp: first_free_def valid_inum_def)
  obtain b s4 where c: "create_dir_base 0 S_IRWXUGO uid gid INVALID_INODE s3 = (SUCCESS, 1, s4)"
    "b \<in> free_data s3" "fs_frame {1} (free_data s3) s3 s4"
    "inode_at s4 1 = dir_inode S_IRWXUGO uid gid (int b)" "dir_base_block 1 0 (data_blk s4 b)"
    "free_inums s4 = free_inums s3 - {1}" "free_data s4 = free_data s3 - {b}"
    using create_dir_base_spec[OF ok3, of 0 S_IRWXUGO uid gid INVALID_INODE] fd3 fi3 pos
    by (auto simp: ff)
  have ok4: "fs_ok s4" "mounted s4" using fs_frameD[OF c(3)] by simp_all
  note rt = set_root_ok[OF ok4(1), of 1]
  have fr: "fs_frame {1} (free_data s3) s3 (set_root 1 s4)"
    by (rule fs_frame_trans[OF c(3) rt(2)]) auto
  have "mkfs True blocks uid gid s = (SUCCESS, set_root 1 s4)"
    using assms s1(1) s2(1) s3(1) c(1) rt(1) ok4(2) clamp
    by (simp add: mkfs_def Let_def c_consts s0_def)
  moreover have "inode_at (set_root 1 s4) 1 = dir_inode S_IRWXUGO uid gid (int b)"
    using fs_frameD(8)[OF rt(2), of 1] c(4) pos(2) fs_frameD(4)[OF c(3)] by (simp add: valid_inum_def)
  moreover have "{1..ninodes s3} - {1} = {2..ninodes s3}" by auto
  moreover have "valid_data s3 b" using c(2) fd3 by (simp add: valid_data_def)
  ultimately show ?thesis
    using c(5-) fs_frameD[OF fr] rt sb3(2) dims fd3 fi3 fs_frameD(9)[OF rt(2), of b]
    by (intro exI[of _ b] exI[of _ "set_root 1 s4"]) (simp add: n_def[symmetric] INODES_PER_BLOCK_eq)
qed

end
