(* ===== verification/Directory.thy ===== *)
theory Directory
  imports FileWrite Mkfs
begin

text \<open>
  Directories, \<open>src/layer2.c\<close>: a directory is a file of \<open>dir_ent\<close>s, fifteen to a block, the rest of each
  full block unused.  Pages are read with \<open>read_dir_page\<close>, entries found with \<open>search_by_name\<close> and
  \<open>search_by_inum\<close>, added at the end and removed by moving the last one into the gap.

  Pointer arguments are options; \<open>None\<close> as a result means a signed overflow, an access outside a
  buffer or a call that does not return.
\<close>

definition DIRENTS_REMAINDER :: nat where "DIRENTS_REMAINDER = BLOCK_SIZE mod sizeof_dirent"

lemma DIRENTS_REMAINDER_eq [c_consts]: "DIRENTS_REMAINDER = 181"
  by (simp add: DIRENTS_REMAINDER_def c_consts)

definition S_IFMT :: u32 where "S_IFMT = 0xf000"

definition S_ISDIR :: "u32 \<Rightarrow> bool" where
  "S_ISDIR mode \<longleftrightarrow> mode AND S_IFMT = S_IFDIR"

text \<open>A product of two non-negative \<open>int\<close>s; \<open>None\<close> on signed overflow.\<close>

definition int_times :: "int \<Rightarrow> int \<Rightarrow> int option" where
  "int_times a b = (if a * b < 2 ^ 31 then Some (a * b) else None)"

section \<open>Reading pages\<close>

definition opt_or :: "'a \<Rightarrow> 'a option \<Rightarrow> 'a" where
  "opt_or x p = (case p of None \<Rightarrow> x | Some y \<Rightarrow> y)"

text \<open>The results are the return value and \<open>*d\<close>, \<open>*entries\<close> and \<open>*last\<close>
  (here \<open>reached_end\<close>) afterwards.\<close>

definition read_dir_page ::
    "int \<Rightarrow> byte list option \<Rightarrow> int \<Rightarrow> int option \<Rightarrow> bool option \<Rightarrow> 'a layer1_scheme \<Rightarrow>
      (int \<times> byte list \<times> int \<times> bool) option" where
  "read_dir_page inum d page entries reached_end s =
    (let d0 = contents d; entries0 = opt_or 0 entries; last0 = opt_or False reached_end in
     if d = None \<or> entries = None \<or> reached_end = None then Some (BUF_NULL, d0, entries0, last0)
     else
       (let (ret, my_inode) = local_inode inum s in
        if ret \<noteq> SUCCESS then Some (ret, d0, entries0, last0)
        else if \<not> S_ISDIR (i_mode my_inode) then Some (NOT_DIR, d0, entries0, last0)
        else if i_size my_inode = 0 then Some (MALFORMED_DIRECTORY, d0, entries0, last0)
        else
          (let num_blocks = uint (i_size my_inode) div int BLOCK_SIZE;
               remainder = uint (i_size my_inode) mod int BLOCK_SIZE
           in if remainder mod int sizeof_dirent \<noteq> 0 then Some (MALFORMED_DIRECTORY, d0, entries0, last0)
              else if num_blocks < page \<or> page < 0 then Some (INVALID_PAGE, d0, entries0, last0)
              else
                (let (entries, reached_end) =
                       (if page = num_blocks then (remainder div int sizeof_dirent, True)
                        else (int DIRENTS_PER_BLOCK, False))
                 in case int_times page (int BLOCK_SIZE) of
                      None \<Rightarrow> None
                    | Some offset \<Rightarrow>
                        (case read_i inum (Some d0) offset (entries * int sizeof_dirent) s of
                           None \<Rightarrow> None
                         | Some (ret, d) \<Rightarrow>
                             Some (if c_u64 ret \<noteq> entries * int sizeof_dirent then ret else SUCCESS,
                               d, entries, reached_end))))))"

text \<open>\<open>read_i\<close> into \<open>buf + write_offset\<close>.\<close>

definition read_into ::
    "int \<Rightarrow> byte list \<Rightarrow> nat \<Rightarrow> int \<Rightarrow> int \<Rightarrow> 'a layer1_scheme \<Rightarrow> (int \<times> byte list) option" where
  "read_into inum buf write_offset offset sz s =
    map_option (\<lambda>(ret, b). (ret, take write_offset buf @ b))
      (read_i inum (Some (drop write_offset buf)) offset sz s)"

text \<open>The loop over the full blocks; \<open>Inl ret\<close> is a \<open>return\<close> from inside.\<close>

primrec read_dir_blocks ::
    "nat list \<Rightarrow> int \<Rightarrow> byte list \<Rightarrow> nat \<Rightarrow> 'a layer1_scheme \<Rightarrow>
      ((int \<times> byte list) + (byte list \<times> nat)) option" where
  "read_dir_blocks [] inum buf write_offset s = Some (Inr (buf, write_offset))"
| "read_dir_blocks (i # is) inum buf write_offset s =
    (case int_times (int i) (int BLOCK_SIZE) of
       None \<Rightarrow> None
     | Some offset \<Rightarrow>
         (case read_into inum buf write_offset offset (int (DIRENTS_PER_BLOCK * sizeof_dirent)) s of
            None \<Rightarrow> None
          | Some (ret, buf) \<Rightarrow>
              if c_u64 ret \<noteq> int (DIRENTS_PER_BLOCK * sizeof_dirent) then Some (Inl (ret, buf))
              else read_dir_blocks is inum buf (write_offset + DIRENTS_PER_BLOCK * sizeof_dirent) s))"

definition read_dir_whole ::
    "int \<Rightarrow> byte list option \<Rightarrow> 'a layer1_scheme \<Rightarrow> (int \<times> byte list) option" where
  "read_dir_whole inum buf s =
    (case buf of
       None \<Rightarrow> Some (BUF_NULL, [])
     | Some buf \<Rightarrow>
         (let (ret, my_inode) = local_inode inum s in
          if ret \<noteq> SUCCESS then Some (ret, buf)
          else if \<not> S_ISDIR (i_mode my_inode) then Some (NOT_DIR, buf)
          else if i_size my_inode = 0 then Some (MALFORMED_DIRECTORY, buf)
          else
            (let num_blocks = unat (i_size my_inode) div BLOCK_SIZE;
                 remainder = uint (i_size my_inode) mod int BLOCK_SIZE
             in if remainder mod int sizeof_dirent \<noteq> 0 then Some (MALFORMED_DIRECTORY, buf)
                else case read_dir_blocks [0..<num_blocks] inum buf 0 s of
                  None \<Rightarrow> None
                | Some (Inl r) \<Rightarrow> Some r
                | Some (Inr (buf, write_offset)) \<Rightarrow>
                    (case int_times (int num_blocks) (int BLOCK_SIZE) of
                       None \<Rightarrow> None
                     | Some offset \<Rightarrow>
                         (case read_into inum buf write_offset offset remainder s of
                            None \<Rightarrow> None
                          | Some (ret, buf) \<Rightarrow> Some (if ret \<noteq> remainder then ret else SUCCESS, buf))))))"

section \<open>Searching\<close>

text \<open>
  \<open>strncmp(a, b, n) == 0\<close>; both arguments hold the bytes in memory, the terminating NUL included.
\<close>

fun strncmp_eq :: "nat \<Rightarrow> byte list \<Rightarrow> byte list \<Rightarrow> bool" where
  "strncmp_eq 0 a b = True"
| "strncmp_eq (Suc n) (x # a) (y # b) = (x = y \<and> (x = 0 \<or> strncmp_eq n a b))"
| "strncmp_eq (Suc n) a b = False"

text \<open>
  The two searches share their loop: it ends after the last page, at the first entry that satisfies
  \<open>P\<close> or at a page that cannot be read.  \<open>Inr (entry, index)\<close> is the hit.
\<close>

partial_function (option) search_pages ::
    "(dir_ent \<Rightarrow> bool) \<Rightarrow> int \<Rightarrow> byte list \<Rightarrow> int \<Rightarrow> int \<Rightarrow> bool \<Rightarrow> 'a layer1_scheme \<Rightarrow>
      (int + dir_ent \<times> int) option" where
  "search_pages P inum d cur_block num_entries reached_end s =
    (if reached_end then Some (Inl NOT_IN_DIR)
     else case read_dir_page inum (Some d) cur_block (Some num_entries) (Some reached_end) s of
       None \<Rightarrow> None
     | Some (ret, d, num_entries, reached_end) \<Rightarrow>
         if ret \<noteq> SUCCESS then Some (Inl NOT_DIR)
         else case first_index (\<lambda>i. P (dirent_at d i)) [0..<nat num_entries] of
           Some i \<Rightarrow> Some (Inr (dirent_at d i, cur_block * int DIRENTS_PER_BLOCK + int i))
         | None \<Rightarrow> search_pages P inum d (cur_block + 1) num_entries reached_end s)"

text \<open>The second result is \<open>*index\<close> afterwards.\<close>

definition search_by_inum ::
    "int \<Rightarrow> int \<Rightarrow> int option \<Rightarrow> 'a layer1_scheme \<Rightarrow> (int \<times> int) option" where
  "search_by_inum inum search_num index s =
    (case index of
       None \<Rightarrow> Some (BUF_NULL, 0)
     | Some index \<Rightarrow>
         (let (ret, my_inode) = local_inode inum s in
          if ret \<noteq> SUCCESS then Some (ret, index)
          else if \<not> S_ISDIR (i_mode my_inode) then Some (NOT_DIR, index)
          else map_option (\<lambda>r. case r of Inl ret \<Rightarrow> (ret, index) | Inr (_, index) \<Rightarrow> (SUCCESS, index))
            (search_pages (\<lambda>e. sint (de_inode_num e) = search_num) inum (uninit BLOCK_SIZE s) 0 0 False s)))"

text \<open>\<open>name\<close> is a C string without its NUL; the results are the code, \<open>*target\<close> and \<open>*index\<close>.\<close>

definition search_by_name ::
    "int \<Rightarrow> byte list option \<Rightarrow> int option \<Rightarrow> int \<Rightarrow> 'a layer1_scheme \<Rightarrow> (int \<times> int \<times> int) option" where
  "search_by_name inum name target index s =
    (case (name, target) of
       (Some name, Some target) \<Rightarrow>
         (let (ret, my_inode) = local_inode inum s in
          if ret \<noteq> SUCCESS then Some (ret, target, index)
          else if \<not> S_ISDIR (i_mode my_inode) then Some (NOT_DIR, target, index)
          else map_option (\<lambda>r. case r of
              Inl ret \<Rightarrow> (ret, target, index)
            | Inr (e, index) \<Rightarrow> (SUCCESS, sint (de_inode_num e), index))
            (search_pages (\<lambda>e. strncmp_eq FILEBUF_SIZE (name @ [0]) (de_name e)) inum
              (uninit BLOCK_SIZE s) 0 0 False s))
     | _ \<Rightarrow> Some (BUF_NULL, opt_or 0 target, index))"

section \<open>Removing and adding entries\<close>

definition remove_dirent :: "int \<Rightarrow> int \<Rightarrow> 'a layer1_scheme \<Rightarrow> (int \<times> 'a layer1_scheme) option" where
  "remove_dirent inum index s =
    (let (ret, my_inode) = local_inode inum s in
     if ret \<noteq> SUCCESS then Some (ret, s)
     else if \<not> S_ISDIR (i_mode my_inode) then Some (NOT_DIR, s)
     else if i_size my_inode = 0 \<or> index < 0 then Some (BAD_INDEX, s)
     else
       (let block_num = index div int DIRENTS_PER_BLOCK;
            block_offset = index mod int DIRENTS_PER_BLOCK;
            num_blocks = uint (i_size my_inode) div int BLOCK_SIZE;
            remainder = uint (i_size my_inode) mod int BLOCK_SIZE
        in if remainder mod int sizeof_dirent \<noteq> 0 then Some (MALFORMED_DIRECTORY, s)
           else case (int_times block_num (int BLOCK_SIZE), int_times num_blocks (int BLOCK_SIZE)) of
             (Some block_start, Some blocks_end) \<Rightarrow>
               (let entry = c_u64 (block_start + block_offset * int sizeof_dirent);
                    last_entry = c_u64 (blocks_end + (remainder - int sizeof_dirent))
                in if last_entry < entry then Some (BAD_INDEX, s)
                   else case read_i inum (Some (uninit sizeof_dirent s)) last_entry (int sizeof_dirent) s of
                     None \<Rightarrow> None
                   | Some (_, last_ent) \<Rightarrow>
                       (case write_i inum (Some last_ent) entry (int sizeof_dirent) s of
                          None \<Rightarrow> None
                        | Some (ret, s) \<Rightarrow>
                            if ret \<noteq> int sizeof_dirent then Some (ret, s)
                            else
                              (let new_size = c_int (uint (i_size my_inode) - int sizeof_dirent);
                                   new_size = (if new_size smod int BLOCK_SIZE = 0 \<and> new_size \<noteq> 0
                                     then c_int (new_size - int DIRENTS_REMAINDER) else new_size)
                               in map_option (\<lambda>(_, s). (SUCCESS, s)) (truncate_i inum new_size s))))
           | _ \<Rightarrow> None))"

definition add_dirent :: "int \<Rightarrow> dir_ent option \<Rightarrow> 'a layer1_scheme \<Rightarrow> (int \<times> 'a layer1_scheme) option" where
  "add_dirent inum d s =
    (case d of
       None \<Rightarrow> Some (BUF_NULL, s)
     | Some d \<Rightarrow>
         (let (ret, my_inode) = local_inode inum s in
          if ret \<noteq> SUCCESS then Some (ret, s)
          else if \<not> S_ISDIR (i_mode my_inode) then Some (NOT_DIR, s)
          else
            (let sz = uint (i_size my_inode);
                 write_offset = (if sz div int BLOCK_SIZE < (sz + int sizeof_dirent) div int BLOCK_SIZE
                   then sz + int DIRENTS_REMAINDER else sz);
                 remainder = sz mod int BLOCK_SIZE
             in if remainder mod int sizeof_dirent \<noteq> 0 then Some (MALFORMED_DIRECTORY, s)
                else write_i inum (Some (enc_dirent d)) write_offset (int sizeof_dirent) s)))"

end
