(* ===== verification/DirSpec.thy ===== *)
theory DirSpec
  imports Directory
begin

text \<open>
  Directories as lists of entries.  Entry \<open>i\<close> lies at \<open>dir_pos i\<close>; \<open>dir_ok\<close> says that the size of a
  directory is the end of its last entry and that every entry names an inode.  Reading, searching,
  adding and removing are shown to be operations on the list.
\<close>

section \<open>Entries and their places\<close>

definition dir_pos :: "nat \<Rightarrow> nat" where
  "dir_pos i = i div DIRENTS_PER_BLOCK * BLOCK_SIZE + i mod DIRENTS_PER_BLOCK * sizeof_dirent"

definition dir_len :: "inode \<Rightarrow> nat" where
  "dir_len ino = file_size ino div BLOCK_SIZE * DIRENTS_PER_BLOCK + file_size ino mod BLOCK_SIZE div sizeof_dirent"

definition dir_entry :: "'a layer1_scheme \<Rightarrow> inode \<Rightarrow> nat \<Rightarrow> dir_ent" where
  "dir_entry s ino i = dec_dirent (file_bytes s ino (dir_pos i) sizeof_dirent)"

definition dir_entries :: "'a layer1_scheme \<Rightarrow> inode \<Rightarrow> dir_ent list" where
  "dir_entries s ino = map (dir_entry s ino) [0..<dir_len ino]"

definition dir_size :: "nat \<Rightarrow> nat" where
  "dir_size n = dir_pos (n - 1) + sizeof_dirent"

definition dir_ok :: "'a layer1_scheme \<Rightarrow> inode \<Rightarrow> bool" where
  "dir_ok s ino \<longleftrightarrow> file_ok s ino \<and> file_full s ino \<and> S_ISDIR (i_mode ino) \<and> file_size ino < 2 ^ 31 \<and>
    0 < dir_len ino \<and> file_size ino = dir_size (dir_len ino) \<and>
    (\<forall>e \<in> set (dir_entries s ino). de_inode_num e \<noteq> 0)"

lemma dir_okD:
  assumes "dir_ok s ino"
  shows "file_ok s ino" "file_full s ino" "S_ISDIR (i_mode ino)" "file_size ino < 2 ^ 31" "0 < dir_len ino"
    "file_size ino = dir_size (dir_len ino)" "\<forall>e \<in> set (dir_entries s ino). de_inode_num e \<noteq> 0"
  using assms unfolding dir_ok_def by blast+

lemma length_dir_entries [simp]: "length (dir_entries s ino) = dir_len ino"
  by (simp add: dir_entries_def)

lemma dirent_wf_dir_entry [simp]: "dirent_wf (dir_entry s ino i)"
  by (simp add: dir_entry_def dirent_wf_dec)

lemma dir_pos_block:
  assumes "i = p * DIRENTS_PER_BLOCK + j" "j < DIRENTS_PER_BLOCK"
  shows "dir_pos i = p * BLOCK_SIZE + j * sizeof_dirent" "dir_pos i div BLOCK_SIZE = p"
    "dir_pos i mod BLOCK_SIZE = j * sizeof_dirent"
proof -
  have "i div DIRENTS_PER_BLOCK = p" "i mod DIRENTS_PER_BLOCK = j" using assms by simp_all
  then show e: "dir_pos i = p * BLOCK_SIZE + j * sizeof_dirent" by (simp add: dir_pos_def)
  have "j * sizeof_dirent < BLOCK_SIZE" using assms(2) by (simp add: c_consts)
  then show "dir_pos i div BLOCK_SIZE = p" "dir_pos i mod BLOCK_SIZE = j * sizeof_dirent" unfolding e by simp_all
qed

text \<open>The size of a directory of \<open>n\<close> entries: blocks before the last, entries in the last.\<close>

lemma dir_size_block:
  assumes "n = p * DIRENTS_PER_BLOCK + j" "0 < j" "j \<le> DIRENTS_PER_BLOCK"
  shows "dir_size n = p * BLOCK_SIZE + j * sizeof_dirent" "dir_size n div BLOCK_SIZE = p"
    "dir_size n mod BLOCK_SIZE = j * sizeof_dirent"
proof -
  have j: "n - 1 = p * DIRENTS_PER_BLOCK + (j - 1)" "j - 1 < DIRENTS_PER_BLOCK" using assms by simp_all
  have "(j - 1) * sizeof_dirent + sizeof_dirent = j * sizeof_dirent" using assms(2) by (cases j) simp_all
  then show e: "dir_size n = p * BLOCK_SIZE + j * sizeof_dirent"
    unfolding dir_size_def dir_pos_block(1)[OF j] by simp
  have "j * sizeof_dirent < BLOCK_SIZE" using assms(3) by (simp add: c_consts)
  then show "dir_size n div BLOCK_SIZE = p" "dir_size n mod BLOCK_SIZE = j * sizeof_dirent" unfolding e by simp_all
qed

lemma last_block:
  assumes "0 < n"
  obtains p j where "n = p * DIRENTS_PER_BLOCK + j" "0 < j" "j \<le> DIRENTS_PER_BLOCK"
proof (rule that)
  show "n = (n - 1) div DIRENTS_PER_BLOCK * DIRENTS_PER_BLOCK + ((n - 1) mod DIRENTS_PER_BLOCK + 1)"
    using assms by simp
  show "(n - 1) mod DIRENTS_PER_BLOCK + 1 \<le> DIRENTS_PER_BLOCK"
    using mod_less_divisor[of DIRENTS_PER_BLOCK "n - 1"] by (simp add: c_consts)
qed simp

lemma dir_len_size: "0 < n \<Longrightarrow> file_size ino = dir_size n \<Longrightarrow> dir_len ino = n"
  by (erule last_block[of n]) (simp add: dir_len_def dir_size_block c_consts)

lemma dir_size_le: "i < n \<Longrightarrow> dir_pos i + sizeof_dirent \<le> dir_size n"
proof -
  assume i: "i < n"
  have "i div DIRENTS_PER_BLOCK \<le> (n - 1) div DIRENTS_PER_BLOCK" using i by (intro div_le_mono) simp
  then consider "i div DIRENTS_PER_BLOCK < (n - 1) div DIRENTS_PER_BLOCK" |
    "i div DIRENTS_PER_BLOCK = (n - 1) div DIRENTS_PER_BLOCK" by linarith
  then show ?thesis
  proof cases
    case 1
    then have "i div DIRENTS_PER_BLOCK * BLOCK_SIZE + BLOCK_SIZE \<le> (n - 1) div DIRENTS_PER_BLOCK * BLOCK_SIZE"
      by (rule slot_inside)
    moreover have "i mod DIRENTS_PER_BLOCK * sizeof_dirent + sizeof_dirent \<le> BLOCK_SIZE"
      by (rule dirent_fits) (simp add: c_consts)
    ultimately show ?thesis unfolding dir_size_def dir_pos_def by linarith
  next
    case 2
    have "i mod DIRENTS_PER_BLOCK \<le> (n - 1) mod DIRENTS_PER_BLOCK"
      using i div_mult_mod_eq[of i DIRENTS_PER_BLOCK] div_mult_mod_eq[of "n - 1" DIRENTS_PER_BLOCK]
      unfolding 2 by linarith
    then have "i mod DIRENTS_PER_BLOCK * sizeof_dirent \<le> (n - 1) mod DIRENTS_PER_BLOCK * sizeof_dirent"
      by (rule mult_le_mono1)
    then show ?thesis using 2 unfolding dir_size_def dir_pos_def by simp
  qed
qed

section \<open>Pages\<close>

text \<open>The number of entries of page \<open>p\<close> of a directory of \<open>n\<close> entries.\<close>

definition page_entries :: "nat \<Rightarrow> nat \<Rightarrow> nat" where
  "page_entries n p = min DIRENTS_PER_BLOCK (n - p * DIRENTS_PER_BLOCK)"

lemma window_file_bytes:
  "a + m \<le> n \<Longrightarrow> window a m (file_bytes s ino off n) = file_bytes s ino (off + a) m"
  by (rule nth_equalityI) (simp_all add: nth_window add.assoc)

lemma dirent_at_page:
  assumes "i < m" "m \<le> DIRENTS_PER_BLOCK" "length d = BLOCK_SIZE"
  shows "dirent_at (overlay 0 (file_bytes s ino (p * BLOCK_SIZE) (m * sizeof_dirent)) d) i =
    dir_entry s ino (p * DIRENTS_PER_BLOCK + i)"
proof -
  have in_page: "i * sizeof_dirent + sizeof_dirent \<le> m * sizeof_dirent" using assms(1) by (rule slot_inside)
  have "m * sizeof_dirent \<le> BLOCK_SIZE" using assms(2) by (simp add: c_consts)
  then have "window (i * sizeof_dirent) sizeof_dirent
      (overlay 0 (file_bytes s ino (p * BLOCK_SIZE) (m * sizeof_dirent)) d) =
    window (i * sizeof_dirent) sizeof_dirent (file_bytes s ino (p * BLOCK_SIZE) (m * sizeof_dirent))"
    using in_page assms(3) by (intro nth_equalityI) (auto simp: nth_window nth_overlay)
  then show ?thesis
    using in_page dir_pos_block(1)[OF refl, of i p] assms(1,2)
    by (simp add: dirent_at_def dir_entry_def window_file_bytes)
qed

lemma read_dir_page_spec:
  assumes m: "mounted s" and k: "valid_inum s k" and ok: "dir_ok s (inode_at s k)"
    and n: "n = dir_len (inode_at s k)" and p: "p \<le> (n - 1) div DIRENTS_PER_BLOCK" and d: "length d = BLOCK_SIZE"
  shows "read_dir_page (int k) (Some d) (int p) (Some e0) (Some l0) s =
    Some (SUCCESS,
      overlay 0 (file_bytes s (inode_at s k) (p * BLOCK_SIZE) (page_entries n p * sizeof_dirent)) d,
      int (page_entries n p), p = (n - 1) div DIRENTS_PER_BLOCK)"
proof -
  let ?ino = "inode_at s k"
  note o = dir_okD[OF ok]
  have n0: "0 < n" using o(5) n by simp
  obtain q j where q: "n = q * DIRENTS_PER_BLOCK + j" "0 < j" "j \<le> DIRENTS_PER_BLOCK" using last_block[OF n0] .
  note sz = dir_size_block[OF q, folded o(6)[folded n]]
  have "n - 1 = q * DIRENTS_PER_BLOCK + (j - 1)" "j - 1 < DIRENTS_PER_BLOCK" using q by simp_all
  then have lq: "(n - 1) div DIRENTS_PER_BLOCK = q" by simp
  have us: "uint (i_size ?ino) = int (file_size ?ino)" by (rule uint_size)
  have nz: "i_size ?ino \<noteq> 0" using sz(1) q(2) by (auto simp: file_size_def c_consts)
  have dv: "int (file_size ?ino) div int BLOCK_SIZE = int q" "int (file_size ?ino) mod int BLOCK_SIZE = int (j * sizeof_dirent)"
    using sz(2,3) by (simp_all flip: zdiv_int zmod_int)
  have pe: "page_entries n p = (if p = q then j else DIRENTS_PER_BLOCK)"
  proof (cases "p = q")
    case True
    then show ?thesis using q by (simp add: page_entries_def)
  next
    case False
    then have "p * DIRENTS_PER_BLOCK + DIRENTS_PER_BLOCK \<le> q * DIRENTS_PER_BLOCK" using p lq by (intro slot_inside) simp
    then show ?thesis using False q by (simp add: page_entries_def)
  qed
  have pq: "p \<le> q" using p lq by simp
  let ?m = "page_entries n p"
  have "p * BLOCK_SIZE + ?m * sizeof_dirent \<le> file_size ?ino"
  proof (cases "p = q")
    case False
    then have "p * BLOCK_SIZE + BLOCK_SIZE \<le> q * BLOCK_SIZE" using pq by (intro slot_inside) simp
    then show ?thesis using pe False sz(1) by (simp add: c_consts)
  qed (use pe sz(1) in simp)
  then have len: "min (?m * sizeof_dirent) (file_size ?ino - p * BLOCK_SIZE) = ?m * sizeof_dirent"
    "p * BLOCK_SIZE < 2 ^ 31" using o(4) by linarith+
  have small: "?m * sizeof_dirent \<le> BLOCK_SIZE" using pe q(3) by (simp add: c_consts)
  have off: "int_times (int p) (int BLOCK_SIZE) = Some (int (p * BLOCK_SIZE))"
    using len(2) by (simp add: int_times_def flip: of_nat_mult)
  have "?m * sizeof_dirent < 2 ^ 64" using small by (simp add: c_consts)
  from read_i_spec[OF m k o(1,4) this, of "p * BLOCK_SIZE" d] small d
  have rd: "read_i (int k) (Some d) (int (p * BLOCK_SIZE)) (int (?m * sizeof_dirent)) s =
    Some (int (?m * sizeof_dirent), overlay 0 (file_bytes s ?ino (p * BLOCK_SIZE) (?m * sizeof_dirent)) d)"
    unfolding len(1) by simp
  have c: "c_u64 (int (?m * sizeof_dirent)) = int (?m * sizeof_dirent)"
    using \<open>?m * sizeof_dirent < 2 ^ 64\<close> by (rule c_u64_int)
  have em: "int (j * sizeof_dirent) mod int sizeof_dirent = 0" "int (j * sizeof_dirent) div int sizeof_dirent = int j"
    by (simp_all add: c_consts)
  have pr: "\<not> (int q < int p \<or> int p < 0)" "int p = int q \<longleftrightarrow> p = q" using pq by simp_all
  have br: "(if int p = int q then (int j, True) else (int DIRENTS_PER_BLOCK, False)) = (int ?m, p = q)"
    using pe by simp
  have mm: "int ?m * int sizeof_dirent = int (?m * sizeof_dirent)" by simp
  show ?thesis
    unfolding read_dir_page_def Let_def local_inode_ok[OF m k] prod.case us dv em contents_simps lq
      if_not_P[OF pr(1)] br off option.case mm rd c
    using o(3) nz by simp
qed

section \<open>Names\<close>

lemma strncmp_eq_cstr:
  assumes "is_cstr a" "length a < n" "n \<le> length b"
  shows "strncmp_eq n (a @ [0]) b \<longleftrightarrow> cstr b = a"
  using assms
proof (induction a arbitrary: n b)
  case Nil
  then obtain m where n: "n = Suc m" using gr0_implies_Suc by auto
  then obtain y b' where "b = y # b'" using Nil.prems(3) by (auto simp: Suc_le_length_iff)
  then show ?case using n by (simp add: cstr_def eq_commute[of 0])
next
  case (Cons x a)
  then obtain m where n: "n = Suc m" by (cases n) simp_all
  then obtain y b' where b: "b = y # b'" using Cons.prems(3) by (auto simp: Suc_le_length_iff)
  note e = n b
  have x: "x \<noteq> 0" and a: "is_cstr a" using Cons.prems(1) by (simp_all add: is_cstr_def)
  have "strncmp_eq m (a @ [0]) b' \<longleftrightarrow> cstr b' = a" by (rule Cons.IH[OF a]) (use Cons.prems e in simp_all)
  then show ?case using x by (auto simp: e cstr_def)
qed

definition has_name :: "byte list \<Rightarrow> dir_ent \<Rightarrow> bool" where
  "has_name name e \<longleftrightarrow> cstr (de_name e) = name"

definition valid_name :: "byte list \<Rightarrow> bool" where
  "valid_name name \<longleftrightarrow> is_cstr name \<and> length name \<le> MAX_FILENAME"

lemma strncmp_eq_name:
  assumes "valid_name name" "dirent_wf e"
  shows "strncmp_eq FILEBUF_SIZE (name @ [0]) (de_name e) \<longleftrightarrow> has_name name e"
  using assms strncmp_eq_cstr[of name FILEBUF_SIZE "de_name e"]
  by (simp add: valid_name_def dirent_wf_def has_name_def c_consts)

section \<open>Searching\<close>

lemma first_index_append:
  "first_index P (xs @ ys) = (case first_index P xs of Some i \<Rightarrow> Some i
    | None \<Rightarrow> map_option ((+) (length xs)) (first_index P ys))"
proof (induction xs)
  case Nil
  have "(+) 0 = (id :: nat \<Rightarrow> nat)" by (rule ext) simp
  then show ?case by (simp add: option.map_id)
next
  case (Cons x xs)
  have "Suc \<circ> (+) n = (+) (Suc n)" for n :: nat by (rule ext) simp
  then show ?case using Cons by (simp add: option.map_comp split: option.split)
qed

lemma first_index_map: "first_index P (map f xs) = first_index (\<lambda>x. P (f x)) xs"
  by (induction xs) simp_all

lemma first_index_cong: "(\<And>x. x \<in> set xs \<Longrightarrow> P x = Q x) \<Longrightarrow> first_index P xs = first_index Q xs"
  by (induction xs) simp_all

lemma page_of_entries:
  "map (\<lambda>i. dir_entry s ino (p * DIRENTS_PER_BLOCK + i)) [0..<page_entries (dir_len ino) p] =
    take DIRENTS_PER_BLOCK (drop (p * DIRENTS_PER_BLOCK) (dir_entries s ino))"
proof (rule nth_equalityI)
  fix i assume "i < length (map (\<lambda>i. dir_entry s ino (p * DIRENTS_PER_BLOCK + i)) [0..<page_entries (dir_len ino) p])"
  then have "i < DIRENTS_PER_BLOCK" "p * DIRENTS_PER_BLOCK + i < dir_len ino"
    unfolding page_entries_def by auto
  then show "map (\<lambda>i. dir_entry s ino (p * DIRENTS_PER_BLOCK + i)) [0..<page_entries (dir_len ino) p] ! i =
      take DIRENTS_PER_BLOCK (drop (p * DIRENTS_PER_BLOCK) (dir_entries s ino)) ! i"
    by (simp add: dir_entries_def page_entries_def drop_map)
qed (simp add: page_entries_def min.commute)

text \<open>The loop from page \<open>p\<close> on finds the first entry that satisfies \<open>P\<close> among the entries left.\<close>

definition find_from :: "(dir_ent \<Rightarrow> bool) \<Rightarrow> nat \<Rightarrow> dir_ent list \<Rightarrow> int + dir_ent \<times> int" where
  "find_from P a es = (case first_index P (drop a es) of
    None \<Rightarrow> Inl NOT_IN_DIR | Some i \<Rightarrow> Inr (es ! (a + i), int (a + i)))"

lemma find_from_page:
  "find_from P a es = (case first_index P (take c (drop a es)) of
    Some i \<Rightarrow> Inr (es ! (a + i), int (a + i)) | None \<Rightarrow> find_from P (a + c) es)"
proof -
  have d: "drop a es = take c (drop a es) @ drop (a + c) es"
    using append_take_drop_id[of c "drop a es"] by (simp add: add.commute)
  show ?thesis
  proof (cases "first_index P (take c (drop a es))")
    case (Some i)
    then show ?thesis unfolding find_from_def by (subst d) (simp add: first_index_append)
  next
    case None
    show ?thesis
    proof (cases "c \<le> length es - a")
      case True
      then have "length (take c (drop a es)) = c" by simp
      then show ?thesis using None unfolding find_from_def
        by (subst d) (simp add: first_index_append add.assoc split: option.split)
    next
      case False
      then show ?thesis using None unfolding find_from_def by simp
    qed
  qed
qed

lemma first_index_page:
  assumes "m = page_entries (dir_len ino) p" "length d = BLOCK_SIZE"
  shows "first_index (\<lambda>i. P (dirent_at (overlay 0 (file_bytes s ino (p * BLOCK_SIZE) (m * sizeof_dirent)) d) i)) [0..<m] =
    first_index P (take DIRENTS_PER_BLOCK (drop (p * DIRENTS_PER_BLOCK) (dir_entries s ino)))"
proof -
  have le: "m \<le> DIRENTS_PER_BLOCK" using assms(1) by (simp add: page_entries_def)
  have "first_index (\<lambda>i. P (dirent_at (overlay 0 (file_bytes s ino (p * BLOCK_SIZE) (m * sizeof_dirent)) d) i)) [0..<m] =
      first_index (\<lambda>i. P (dir_entry s ino (p * DIRENTS_PER_BLOCK + i))) [0..<m]"
  proof (rule first_index_cong)
    fix i assume "i \<in> set [0..<m]"
    then have "i < m" by simp
    note dirent_at_page[OF this le assms(2), of s ino p]
    then show "P (dirent_at (overlay 0 (file_bytes s ino (p * BLOCK_SIZE) (m * sizeof_dirent)) d) i) =
        P (dir_entry s ino (p * DIRENTS_PER_BLOCK + i))" by simp
  qed
  then show ?thesis
    using first_index_map[of P "\<lambda>i. dir_entry s ino (p * DIRENTS_PER_BLOCK + i)" "[0..<m]"]
      page_of_entries[of s ino p] assms(1) by simp
qed

lemma search_pages_spec:
  assumes m: "mounted s" and k: "valid_inum s k" and ok: "dir_ok s (inode_at s k)"
    and p: "p \<le> (dir_len (inode_at s k) - 1) div DIRENTS_PER_BLOCK" and d: "length d = BLOCK_SIZE"
  shows "search_pages P (int k) d (int p) e0 False s =
    Some (find_from P (p * DIRENTS_PER_BLOCK) (dir_entries s (inode_at s k)))"
  using p d
proof (induction "(dir_len (inode_at s k) - 1) div DIRENTS_PER_BLOCK - p" arbitrary: p d e0 rule: less_induct)
  case less
  let ?ino = "inode_at s k" and ?es = "dir_entries s (inode_at s k)" and ?N = "(dir_len (inode_at s k) - 1) div DIRENTS_PER_BLOCK"
  let ?m = "page_entries (dir_len ?ino) p" and ?a = "p * DIRENTS_PER_BLOCK"
  let ?d = "overlay 0 (file_bytes s ?ino (p * BLOCK_SIZE) (?m * sizeof_dirent)) d"
  let ?f = "first_index P (take DIRENTS_PER_BLOCK (drop ?a ?es))"
  have le: "?m \<le> DIRENTS_PER_BLOCK" by (simp add: page_entries_def)
  have fit: "?m * sizeof_dirent \<le> BLOCK_SIZE" using le by (simp add: c_consts)
  have fi: "first_index (\<lambda>i. P (dirent_at ?d i)) [0..<?m] = ?f" by (rule first_index_page[OF refl less.prems(2)])
  have step: "search_pages P (int k) d (int p) e0 False s = (case ?f of
      Some i \<Rightarrow> Some (Inr (dirent_at ?d i, int p * int DIRENTS_PER_BLOCK + int i))
    | None \<Rightarrow> search_pages P (int k) ?d (int p + 1) (int ?m) (p = ?N) s)"
    by (subst search_pages.simps) (simp only: read_dir_page_spec[OF m k ok refl less.prems] if_False
        option.case prod.case SUCCESS_def nat_int fi refl not_False_eq_True HOL.simp_thms)
  show ?case
  proof (cases ?f)
    case (Some i)
    then have i: "i < ?m" "?a + i < dir_len ?ino"
      using first_index_lt[OF Some] unfolding page_entries_def by auto
    then have "dirent_at ?d i = ?es ! (?a + i)"
      using dirent_at_page[OF i(1) le less.prems(2)] by (simp add: dir_entries_def)
    then show ?thesis unfolding step find_from_page[of P ?a _ DIRENTS_PER_BLOCK] Some by simp
  next
    case None
    have n0: "0 < dir_len ?ino" using dir_okD(5)[OF ok] .
    show ?thesis
    proof (cases "p = ?N")
      case True
      have "dir_len ?ino \<le> ?a + DIRENTS_PER_BLOCK"
        using div_mult_mod_eq[of "dir_len ?ino - 1" DIRENTS_PER_BLOCK]
          mod_less_divisor[of DIRENTS_PER_BLOCK "dir_len ?ino - 1"] n0 unfolding True[symmetric]
        by (simp add: c_consts)
      then have "find_from P (?a + DIRENTS_PER_BLOCK) ?es = Inl NOT_IN_DIR" by (simp add: find_from_def)
      then show ?thesis unfolding step find_from_page[of P ?a _ DIRENTS_PER_BLOCK] None
        using True by (simp add: search_pages.simps)
    next
      case False
      have "search_pages P (int k) ?d (int (Suc p)) (int ?m) False s =
          Some (find_from P (Suc p * DIRENTS_PER_BLOCK) ?es)"
        by (rule less.hyps) (use False less.prems fit in simp_all)
      then show ?thesis unfolding step find_from_page[of P ?a _ DIRENTS_PER_BLOCK] None
        using False by (simp add: add.commute)
    qed
  qed
qed

text \<open>The name lookup on the list of entries.\<close>

definition dir_find :: "byte list \<Rightarrow> dir_ent list \<Rightarrow> nat option" where
  "dir_find name es = first_index (has_name name) es"

lemma search_by_name_spec:
  assumes m: "mounted s" and k: "valid_inum s k" and ok: "dir_ok s (inode_at s k)" and name: "valid_name name"
  shows "search_by_name (int k) (Some name) (Some target) index s =
    Some (case dir_find name (dir_entries s (inode_at s k)) of
      None \<Rightarrow> (NOT_IN_DIR, target, index)
    | Some i \<Rightarrow> (SUCCESS, sint (de_inode_num (dir_entries s (inode_at s k) ! i)), int i))"
proof -
  let ?es = "dir_entries s (inode_at s k)"
  have "first_index (\<lambda>e. strncmp_eq FILEBUF_SIZE (name @ [0]) (de_name e)) ?es = dir_find name ?es"
    unfolding dir_find_def
  proof (rule first_index_cong)
    fix e assume "e \<in> set ?es"
    then have "dirent_wf e" by (auto simp: dir_entries_def)
    then show "strncmp_eq FILEBUF_SIZE (name @ [0]) (de_name e) = has_name name e" by (rule strncmp_eq_name[OF name])
  qed
  then have f: "find_from (\<lambda>e. strncmp_eq FILEBUF_SIZE (name @ [0]) (de_name e)) 0 ?es =
      (case dir_find name ?es of None \<Rightarrow> Inl NOT_IN_DIR | Some i \<Rightarrow> Inr (?es ! i, int i))"
    unfolding find_from_def by (simp split: option.split)
  show ?thesis
    using search_pages_spec[OF m k ok, of 0 "uninit BLOCK_SIZE s" _ 0] dir_okD(3)[OF ok]
    by (simp add: search_by_name_def local_inode_ok[OF m k] f split: option.split)
qed

lemma search_by_inum_spec:
  assumes m: "mounted s" and k: "valid_inum s k" and ok: "dir_ok s (inode_at s k)"
  shows "search_by_inum (int k) i (Some index) s =
    Some (case first_index (\<lambda>e. sint (de_inode_num e) = i) (dir_entries s (inode_at s k)) of
      None \<Rightarrow> (NOT_IN_DIR, index) | Some j \<Rightarrow> (SUCCESS, int j))"
  using search_pages_spec[OF m k ok, of 0 "uninit BLOCK_SIZE s" _ 0] dir_okD(3)[OF ok]
  by (simp add: search_by_inum_def local_inode_ok[OF m k] find_from_def split: option.split)

section \<open>Writing inside one block\<close>

lemma block_div: "y < BLOCK_SIZE \<Longrightarrow> (p * BLOCK_SIZE + y) div BLOCK_SIZE = p"
  by simp

lemma write_i_block:
  assumes ok: "fs_ok s" and f: "file_ok s (inode_at s k)" "file_full s (inode_at s k)" "file_size (inode_at s k) < 2 ^ 31"
    and k: "valid_inum s k" and n: "0 < length x" "off + length x \<le> 2 ^ 31"
    and b: "off = b * BLOCK_SIZE + ws" "ws + length x \<le> BLOCK_SIZE"
    and h: "zero_test_ok x ws (length x) 0 (file_map s (inode_at s k) b)"
  shows "\<exists>ret t. write_i (int k) (Some x) (int off) (int (length x)) s = Some (ret, t) \<and>
    file_step {k} s (inode_at s k) t (inode_at t k) \<and> file_full t (inode_at t k) \<and>
    (ret = int (length x) \<and> same_meta (write_meta off (length x) (inode_at s k)) (inode_at t k) \<and>
      (\<forall>j < MAX_FILE_BYTES. file_byte t (inode_at t k) j =
        (if off \<le> j \<and> j < off + length x then x ! (j - off) else file_byte s (inode_at s k) j)) \<or>
     ret = DATA_FULL \<and> inode_at t k = inode_at s k \<and> file_map s (inode_at s k) b = 0 \<and>
      card (free_data t) = card (free_data s) \<and> (\<forall>j < MAX_FILE_BYTES. file_byte t (inode_at t k) j = file_byte s (inode_at s k) j))"
proof -
  let ?ino = "inode_at s k" and ?n = "length x"
  have m: "mounted s" using ok by (rule fs_ok_mounted)
  have "b * BLOCK_SIZE < 2 ^ 31" using n b(1) by linarith
  then have bm: "b < MAX_FILE_BLOCKS" by (simp add: c_consts)
  have c: "ws + ?n - ws = ?n" by simp
  have pos: "ws \<le> ws + ?n" "0 + (ws + ?n - ws) \<le> length x" by simp_all
  have h': "zero_test_ok x ws (ws + ?n - ws) 0 (file_map s ?ino b)" using h by simp
  obtain r ino1 t1 where p: "write_part x (int b) (int ws) (int (ws + ?n)) (int 0) ?ino s = Some (r, ino1, t1)"
    "r = None \<or> r = Some DATA_FULL \<and> part_written b 0 [] s ?ino t1 ?ino \<and> file_map s ?ino b = 0 \<and> file_map t1 ?ino b = 0"
    using write_part_spec[OF ok f(1,2) bm pos(1) b(2) pos(2) h'] by blast
  note call = write_i_one_block[OF m k f(3) n(1,2) b, of x, unfolded p(1) option.case prod.case]
  show ?thesis
  proof (cases "r = None")
    case False
    then have pw: "part_written b 0 [] s ?ino t1 ?ino" "file_map s ?ino b = 0" "r = Some DATA_FULL"
      "file_map t1 ?ino b = 0" using p(2) by blast+
    then have st: "file_step {} s ?ino t1 ?ino" "file_full t1 ?ino" by (simp_all add: part_written_def)
    have "file_map t1 ?ino i = file_map s ?ino i" if "i < MAX_FILE_BLOCKS" for i
      using pw(1,2,4) that unfolding part_written_def by (cases "i = b") simp_all
    then have "card (free_data t1) = card (free_data s)" by (intro file_step_card[OF st(1) f(1,2) st(2)]) blast
    moreover have "inode_at t1 k = ?ino" using fs_frameD(8)[OF file_stepD(1)[OF st(1)] k] by simp
    moreover have "file_byte t1 ?ino j = file_byte s ?ino j" if "j < MAX_FILE_BYTES" for j
      using part_written_byte[OF m f(1) pw(1) bm _ that] by (auto split: if_splits)
    ultimately show ?thesis
      using call pw(2,3) st file_step_mono[OF st(1), of "{k}"] by (intro exI[of _ DATA_FULL] exI[of _ t1]) simp
  next
    case True
    have wsb: "ws < BLOCK_SIZE" "ws + ?n - 1 < BLOCK_SIZE" using b(2) n(1) by linarith+
    have last: "off + ?n - 1 = b * BLOCK_SIZE + (ws + ?n - 1)" using b(1) n(1) by linarith
    have bl: "off div BLOCK_SIZE = b" "(off + ?n - 1) div BLOCK_SIZE = b"
      unfolding last block_div[OF wsb(2)] using block_div[OF wsb(1), of b] b(1) by simp_all
    have mx: "max off (b * BLOCK_SIZE) = off" "min (Suc b * BLOCK_SIZE) (off + ?n) = off + ?n" "off - b * BLOCK_SIZE = ws"
      using b by simp_all
    have "{b..b} = {b}" by simp
    then have hn: "write_honest s ?ino x off ?n" unfolding write_honest_def bl Let_def using h mx by simp
    have n31: "?n < 2 ^ 31" using b(2) by (simp add: c_consts)
    obtain ret q t where w: "write_i (int k) (Some x) (int off) (int ?n) s = Some (ret, t)" "wrote k off x q s t"
      "ret = int ?n \<and> q = ?n \<or> ret = DATA_FULL \<and> q < ?n"
      using write_i_spec[OF ok f k n n31 order_refl hn] by blast
    have "ret = int ?n" using w(1) call True by simp
    then have "q = ?n" using w(3) by auto
    then show ?thesis using w(1) \<open>ret = int ?n\<close> wroteD(1,2,3)[OF w(2)] wroteD(4)[OF w(2)] by auto
  qed
qed

text \<open>The metadata of a directory after a write.\<close>

lemma S_ISDIR_write_meta: "S_ISDIR (i_mode (write_meta off q ino)) = S_ISDIR (i_mode ino)"
proof -
  have c: "(0xffff XOR (S_ISUID OR S_ISGID)) AND S_IFMT = (S_IFMT :: u32)"
    by (simp add: S_ISUID_def S_ISGID_def S_IFMT_def)
  have "(mo AND (0xffff XOR (S_ISUID OR S_ISGID))) AND S_IFMT = mo AND S_IFMT" for mo :: u32
    unfolding and.assoc c ..
  then show ?thesis by (simp add: S_ISDIR_def write_meta_def)
qed

lemma small_pos: "j < 2 ^ 31 \<Longrightarrow> j < MAX_FILE_BYTES"
  by (simp add: MAX_FILE_BYTES_def MAX_FILE_BLOCKS_def c_consts)

lemma file_bytes_cong:
  assumes "\<And>j. off \<le> j \<Longrightarrow> j < off + n \<Longrightarrow> file_byte t ino' j = file_byte s ino j"
  shows "file_bytes t ino' off n = file_bytes s ino off n"
  by (rule nth_equalityI) (use assms in simp_all)

text \<open>A block that holds an entry is not a hole.\<close>

lemma entry_byte_nonzero:
  assumes "dir_ok s ino" "i < dir_len ino"
  obtains j where "dir_pos i \<le> j" "j < dir_pos i + sizeof_dirent" "file_byte s ino j \<noteq> 0"
proof (rule ccontr)
  assume no: "\<not> thesis"
  have "file_bytes s ino (dir_pos i) sizeof_dirent = replicate sizeof_dirent 0"
  proof (rule nth_equalityI)
    fix i' assume "i' < length (file_bytes s ino (dir_pos i) sizeof_dirent)"
    then show "file_bytes s ino (dir_pos i) sizeof_dirent ! i' = replicate sizeof_dirent 0 ! i'"
      using no that[of "dir_pos i + i'"] by auto
  qed simp
  then have "dir_entry s ino i = dec_dirent (replicate FILEBUF_SIZE 0 @ replicate (4 * 1) 0)"
    by (simp add: dir_entry_def c_consts flip: replicate_add)
  then have "de_inode_num (dir_entry s ino i) = words_of_bytes (bytes_of_words (replicate 1 0)) ! 0"
    unfolding bytes_zeros by (simp add: dec_dirent_def)
  then have "de_inode_num (dir_entry s ino i) = 0" by (simp del: bytes_of_words_simps)
  moreover have "dir_entry s ino i \<in> set (dir_entries s ino)" using assms(2) by (simp add: dir_entries_def)
  ultimately show False using dir_okD(7)[OF assms(1)] by blast
qed

lemma entry_in_block:
  assumes "dir_pos i \<le> j" "j < dir_pos i + sizeof_dirent"
  shows "j div BLOCK_SIZE = i div DIRENTS_PER_BLOCK" "j mod BLOCK_SIZE = i mod DIRENTS_PER_BLOCK * sizeof_dirent + (j - dir_pos i)"
proof -
  have "i mod DIRENTS_PER_BLOCK * sizeof_dirent + sizeof_dirent \<le> BLOCK_SIZE"
    by (rule dirent_fits) (simp add: c_consts)
  then have lt: "i mod DIRENTS_PER_BLOCK * sizeof_dirent + (j - dir_pos i) < BLOCK_SIZE" using assms by linarith
  have "j = i div DIRENTS_PER_BLOCK * BLOCK_SIZE + (i mod DIRENTS_PER_BLOCK * sizeof_dirent + (j - dir_pos i))"
    using assms(1) unfolding dir_pos_def by linarith
  with lt show "j div BLOCK_SIZE = i div DIRENTS_PER_BLOCK"
    "j mod BLOCK_SIZE = i mod DIRENTS_PER_BLOCK * sizeof_dirent + (j - dir_pos i)"
    by (metis add.commute div_mult_self3 div_less plus_nat.add_0 BLOCK_SIZE_pos less_numeral_extra(3),
        metis mod_mult_self3 mod_less)
qed

lemma entry_block:
  assumes "dir_ok s ino" "i < dir_len ino"
  shows "file_map s ino (i div DIRENTS_PER_BLOCK) \<noteq> 0"
proof
  assume z: "file_map s ino (i div DIRENTS_PER_BLOCK) = 0"
  obtain j where j: "dir_pos i \<le> j" "j < dir_pos i + sizeof_dirent" "file_byte s ino j \<noteq> 0"
    using entry_byte_nonzero[OF assms] .
  then show False
    using z entry_in_block(1)[OF j(1,2)] by (simp add: file_byte_def file_blk_def empty_block_def)
qed

section \<open>Adding an entry\<close>

lemma dir_okI:
  assumes "file_ok s ino" "file_full s ino" "S_ISDIR (i_mode ino)" "0 < n" "file_size ino = dir_size n"
    "dir_size n < 2 ^ 31" "map (dir_entry s ino) [0..<n] = es" "\<forall>e \<in> set es. de_inode_num e \<noteq> 0"
  shows "dir_ok s ino" "dir_entries s ino = es" "dir_len ino = n"
proof -
  show n: "dir_len ino = n" by (rule dir_len_size[OF assms(4,5)])
  show "dir_entries s ino = es" unfolding dir_entries_def n by (rule assms(7))
  then show "dir_ok s ino" unfolding dir_ok_def n using assms by simp
qed

lemma dir_entry_cong:
  assumes "\<And>j. dir_pos i \<le> j \<Longrightarrow> j < dir_pos i + sizeof_dirent \<Longrightarrow> file_byte t ino' j = file_byte s ino j"
  shows "dir_entry t ino' i = dir_entry s ino i"
  unfolding dir_entry_def by (rule arg_cong[OF file_bytes_cong[OF assms]])

text \<open>Where \<open>add_dirent\<close> writes: after the last entry, or at the next block when it does not fit.\<close>

lemma next_pos:
  assumes "0 < n"
  shows "(if dir_size n div BLOCK_SIZE < (dir_size n + sizeof_dirent) div BLOCK_SIZE
    then dir_size n + DIRENTS_REMAINDER else dir_size n) = dir_pos n"
    and "dir_size n \<le> dir_pos n" "dir_size n mod BLOCK_SIZE mod sizeof_dirent = 0"
proof -
  obtain p j where n: "n = p * DIRENTS_PER_BLOCK + j" "0 < j" "j \<le> DIRENTS_PER_BLOCK" using last_block[OF assms] .
  note z = dir_size_block[OF n]
  show "dir_size n mod BLOCK_SIZE mod sizeof_dirent = 0" unfolding z(3) by simp
  have "(if dir_size n div BLOCK_SIZE < (dir_size n + sizeof_dirent) div BLOCK_SIZE
    then dir_size n + DIRENTS_REMAINDER else dir_size n) = dir_pos n \<and> dir_size n \<le> dir_pos n"
  proof (cases "j = DIRENTS_PER_BLOCK")
    case True
    then have e: "n = Suc p * DIRENTS_PER_BLOCK + 0" using n(1) by simp
    have d: "0 < DIRENTS_PER_BLOCK" by (simp add: c_consts)
    have "dir_size n + sizeof_dirent = Suc p * BLOCK_SIZE + 80" unfolding z(1) True by (simp add: c_consts)
    then have "(dir_size n + sizeof_dirent) div BLOCK_SIZE = Suc p" by (simp add: c_consts)
    then show ?thesis unfolding z(2) dir_pos_block(1)[OF e d] unfolding z(1) True by (simp add: c_consts)
  next
    case False
    then have d: "j < DIRENTS_PER_BLOCK" using n(3) by simp
    then have fit: "Suc j * sizeof_dirent < BLOCK_SIZE" by (simp add: c_consts)
    have "dir_size n + sizeof_dirent = p * BLOCK_SIZE + Suc j * sizeof_dirent" unfolding z(1) by simp
    then have "(dir_size n + sizeof_dirent) div BLOCK_SIZE = p" by (simp only: block_div[OF fit])
    then show ?thesis unfolding z(2) dir_pos_block(1)[OF n(1) d] unfolding z(1) by simp
  qed
  then show "(if dir_size n div BLOCK_SIZE < (dir_size n + sizeof_dirent) div BLOCK_SIZE
    then dir_size n + DIRENTS_REMAINDER else dir_size n) = dir_pos n" "dir_size n \<le> dir_pos n" by blast+
qed

lemma enc_dirent_nonzero:
  assumes "dirent_wf d" "de_inode_num d \<noteq> 0"
  shows "\<exists>j < sizeof_dirent. enc_dirent d ! j \<noteq> 0"
proof (rule ccontr)
  assume "\<not> ?thesis"
  then have "enc_dirent d = replicate sizeof_dirent 0"
    using length_enc_dirent[OF assms(1)] by (intro nth_equalityI) auto
  also have "\<dots> = replicate FILEBUF_SIZE 0 @ bytes_of_words (replicate 1 0)"
    unfolding bytes_zeros by (simp add: c_consts flip: replicate_add)
  finally have "le_bytes (de_inode_num d) = bytes_of_words (replicate 1 0)"
    using assms(1) by (simp add: enc_dirent_def dirent_wf_def del: bytes_of_words_simps)
  then have "bytes_of_words [de_inode_num d] = bytes_of_words [0]" by simp
  then have "[de_inode_num d] = [0]" by (metis words_of_bytes_of_words)
  then show False using assms(2) by simp
qed

lemma dir_pos_mono: "i < j \<Longrightarrow> dir_pos i + sizeof_dirent \<le> dir_pos j"
  using dir_size_le[of i j] next_pos(2)[of j] by linarith

text \<open>A write of \<open>x\<close> over entry \<open>i\<close>, or behind the last one, as seen by every entry \<open>j\<close>.\<close>

lemma entry_overwritten:
  assumes "\<forall>l < MAX_FILE_BYTES. file_byte t ino' l =
      (if dir_pos i \<le> l \<and> l < dir_pos i + sizeof_dirent then enc_dirent x ! (l - dir_pos i) else file_byte s ino l)"
    and "dirent_wf x" "dir_pos i + sizeof_dirent \<le> 2 ^ 31" "dir_pos j + sizeof_dirent \<le> 2 ^ 31"
  shows "dir_entry t ino' j = (if j = i then x else dir_entry s ino j)"
proof (cases "j = i")
  case True
  have "l < MAX_FILE_BYTES" if "l < dir_pos i + sizeof_dirent" for l using that assms(3) small_pos[of l] by linarith
  then have "file_bytes t ino' (dir_pos i) sizeof_dirent = enc_dirent x"
    by (intro nth_equalityI) (use assms(1) length_enc_dirent[OF assms(2)] in simp_all)
  then show ?thesis using True dec_enc_dirent[OF assms(2)] by (simp add: dir_entry_def)
next
  case False
  then have apart: "dir_pos j + sizeof_dirent \<le> dir_pos i \<or> dir_pos i + sizeof_dirent \<le> dir_pos j"
    using dir_pos_mono by (metis linorder_neqE_nat)
  have "dir_entry t ino' j = dir_entry s ino j"
  proof (rule dir_entry_cong)
    fix l assume l: "dir_pos j \<le> l" "l < dir_pos j + sizeof_dirent"
    then have "l < MAX_FILE_BYTES" using assms(4) small_pos[of l] by linarith
    then show "file_byte t ino' l = file_byte s ino l" using assms(1) apart l by auto
  qed
  then show ?thesis using False by simp
qed

text \<open>The entries after a write of \<open>x\<close> at place \<open>i\<close>, an old one or the next.\<close>

definition put_entry :: "nat \<Rightarrow> 'b \<Rightarrow> 'b list \<Rightarrow> 'b list" where
  "put_entry i x es = (if i < length es then es[i := x] else es @ [x])"

lemma put_entry_map:
  "i \<le> n \<Longrightarrow> put_entry i x (map f [0..<n]) = map (\<lambda>j. if j = i then x else f j) [0..<max n (Suc i)]"
  by (intro nth_equalityI) (auto simp: put_entry_def nth_list_update nth_append)

lemma set_put_entry: "set (put_entry i x es) \<subseteq> insert x (set es)"
  using set_update_subset_insert[of es i x] by (auto simp: put_entry_def)

lemma entry_zero_test:
  assumes dok: "dir_ok s ino" and x: "dirent_wf x" "de_inode_num x \<noteq> 0" and i: "i \<le> dir_len ino"
  shows "file_map s ino (i div DIRENTS_PER_BLOCK) \<noteq> 0 \<or> i = dir_len ino \<and> i mod DIRENTS_PER_BLOCK = 0"
    and "zero_test_ok (enc_dirent x) (i mod DIRENTS_PER_BLOCK * sizeof_dirent) sizeof_dirent 0
      (file_map s ino (i div DIRENTS_PER_BLOCK))"
proof -
  have n0: "0 < dir_len ino" by (rule dir_okD(5)[OF dok])
  have "(dir_len ino - 1) div DIRENTS_PER_BLOCK = dir_len ino div DIRENTS_PER_BLOCK"
    if "dir_len ino mod DIRENTS_PER_BLOCK \<noteq> 0"
    using that n0 by (cases "dir_len ino") (simp_all add: div_Suc mod_Suc split: if_splits)
  then show blk: "file_map s ino (i div DIRENTS_PER_BLOCK) \<noteq> 0 \<or> i = dir_len ino \<and> i mod DIRENTS_PER_BLOCK = 0"
    using entry_block[OF dok, of i] entry_block[OF dok, of "dir_len ino - 1"] i n0 by fastforce
  have xl: "length (enc_dirent x) = sizeof_dirent" by (rule length_enc_dirent[OF x(1)])
  show "zero_test_ok (enc_dirent x) (i mod DIRENTS_PER_BLOCK * sizeof_dirent) sizeof_dirent 0
      (file_map s ino (i div DIRENTS_PER_BLOCK))"
  proof (cases "file_map s ino (i div DIRENTS_PER_BLOCK) = 0")
    case True
    then show ?thesis using blk enc_dirent_nonzero[OF x] by (auto simp: zero_test_ok_def xl)
  qed (simp add: zero_test_ok_def c_consts)
qed

lemma write_entry:
  assumes ok: "fs_ok s" and k: "valid_inum s k" and dok: "dir_ok s (inode_at s k)"
    and x: "dirent_wf x" "de_inode_num x \<noteq> 0" and n: "n = dir_len (inode_at s k)"
    and i: "i \<le> n" "dir_pos i + sizeof_dirent < 2 ^ 31"
  shows "\<exists>ret t. write_i (int k) (Some (enc_dirent x)) (int (dir_pos i)) (int sizeof_dirent) s = Some (ret, t) \<and>
    file_step {k} s (inode_at s k) t (inode_at t k) \<and> dir_ok t (inode_at t k) \<and>
    (ret = int sizeof_dirent \<and> dir_entries t (inode_at t k) = put_entry i x (dir_entries s (inode_at s k)) \<and>
      same_meta (write_meta (dir_pos i) sizeof_dirent (inode_at s k)) (inode_at t k) \<or>
     ret = DATA_FULL \<and> inode_at t k = inode_at s k \<and> card (free_data t) = card (free_data s) \<and>
      dir_entries t (inode_at t k) = dir_entries s (inode_at s k) \<and> i = n \<and> n mod DIRENTS_PER_BLOCK = 0)"
proof -
  let ?ino = "inode_at s k" and ?x = "enc_dirent x"
  let ?b = "i div DIRENTS_PER_BLOCK" and ?ws = "i mod DIRENTS_PER_BLOCK * sizeof_dirent"
  note o = dir_okD[OF dok] and z = entry_zero_test[OF dok x i(1)[unfolded n]]
  have szn: "file_size ?ino = dir_size n" using o(6) n by simp
  have n31: "dir_size n < 2 ^ 31" using o(4) szn by simp
  have xl: "length ?x = sizeof_dirent" by (rule length_enc_dirent[OF x(1)])
  have pos: "0 < length ?x" "dir_pos i + length ?x \<le> 2 ^ 31" "dir_pos i = ?b * BLOCK_SIZE + ?ws" "?ws + length ?x \<le> BLOCK_SIZE"
    unfolding xl using i(2) dirent_fits[of "i mod DIRENTS_PER_BLOCK"] by (simp_all add: dir_pos_def c_consts)
  have zt: "zero_test_ok ?x ?ws (length ?x) 0 (file_map s ?ino ?b)" unfolding xl by (rule z(2))
  obtain ret t where w: "write_i (int k) (Some ?x) (int (dir_pos i)) (int (length ?x)) s = Some (ret, t)"
    "file_step {k} s ?ino t (inode_at t k)" "file_full t (inode_at t k)"
    and r: "ret = int (length ?x) \<and> same_meta (write_meta (dir_pos i) (length ?x) ?ino) (inode_at t k) \<and>
      (\<forall>j < MAX_FILE_BYTES. file_byte t (inode_at t k) j =
        (if dir_pos i \<le> j \<and> j < dir_pos i + length ?x then ?x ! (j - dir_pos i) else file_byte s ?ino j)) \<or>
     ret = DATA_FULL \<and> inode_at t k = ?ino \<and> file_map s ?ino ?b = 0 \<and> card (free_data t) = card (free_data s) \<and>
      (\<forall>j < MAX_FILE_BYTES. file_byte t (inode_at t k) j = file_byte s ?ino j)"
    using write_i_block[OF ok o(1,2,4) k pos zt] by blast
  note fok = file_stepD(4)[OF w(2)]
  have before: "dir_pos j + sizeof_dirent \<le> 2 ^ 31" if "j < max n (Suc i)" for j
    using that dir_size_le[of j n] dir_pos_mono[of j i] i(2) n31 by (cases "j < n"; cases "j = i") auto
  from r show ?thesis
  proof
    assume a: "ret = int (length ?x) \<and> same_meta (write_meta (dir_pos i) (length ?x) ?ino) (inode_at t k) \<and>
      (\<forall>j < MAX_FILE_BYTES. file_byte t (inode_at t k) j =
        (if dir_pos i \<le> j \<and> j < dir_pos i + length ?x then ?x ! (j - dir_pos i) else file_byte s ?ino j))"
    then have meta: "same_meta (write_meta (dir_pos i) sizeof_dirent ?ino) (inode_at t k)" unfolding xl by blast
    let ?n = "max n (Suc i)"
    have "file_size (inode_at t k) = max (dir_size n) (dir_pos i + sizeof_dirent)"
      using meta file_size_write_meta[OF o(4), of "dir_pos i" sizeof_dirent] i(2) szn
      by (simp add: same_meta_def file_size_def c_consts)
    also have "\<dots> = dir_size ?n"
    proof (cases "i = n")
      case True
      then show ?thesis using next_pos(2)[OF o(5)] n dir_size_def[of "Suc n"] by simp
    next
      case False
      then have "i < n" using i(1) by simp
      then show ?thesis using dir_size_le[of i n] by (simp add: max_absorb1)
    qed
    finally have sz: "file_size (inode_at t k) = dir_size ?n" .
    have n31': "dir_size ?n < 2 ^ 31" using n31 i(2) by (cases "Suc i \<le> n") (simp_all add: max_def dir_size_def)
    have wb: "\<forall>l < MAX_FILE_BYTES. file_byte t (inode_at t k) l =
        (if dir_pos i \<le> l \<and> l < dir_pos i + sizeof_dirent then ?x ! (l - dir_pos i) else file_byte s ?ino l)"
      using a unfolding xl by blast
    have "i < ?n" by simp
    note ent = entry_overwritten[OF wb x(1) before[OF this] before]
    have es: "map (dir_entry t (inode_at t k)) [0..<?n] = put_entry i x (dir_entries s ?ino)"
      unfolding dir_entries_def n[symmetric] put_entry_map[OF i(1)] by (intro map_cong refl ent) simp
    have nz: "\<forall>e \<in> set (put_entry i x (dir_entries s ?ino)). de_inode_num e \<noteq> 0"
      using set_put_entry[of i x "dir_entries s ?ino"] o(7) x(2) by auto
    have isdir: "S_ISDIR (i_mode (inode_at t k))"
      using meta o(3) S_ISDIR_write_meta[of "dir_pos i" sizeof_dirent ?ino] by (simp add: same_meta_def)
    show ?thesis
      using w(1,2) a meta dir_okI(1,2)[OF fok w(3) isdir _ sz n31' es nz] unfolding xl by auto
  next
    assume a: "ret = DATA_FULL \<and> inode_at t k = ?ino \<and> file_map s ?ino ?b = 0 \<and> card (free_data t) = card (free_data s) \<and>
      (\<forall>j < MAX_FILE_BYTES. file_byte t (inode_at t k) j = file_byte s ?ino j)"
    then have it: "inode_at t k = ?ino" and bt: "\<forall>j < MAX_FILE_BYTES. file_byte t ?ino j = file_byte s ?ino j"
      by auto
    have ent: "dir_entry t ?ino j = dir_entry s ?ino j" if "j < n" for j
    proof (rule dir_entry_cong)
      fix l assume "l < dir_pos j + sizeof_dirent"
      moreover have "j < max n (Suc i)" using that by simp
      ultimately have "l < 2 ^ 31" using before[of j] by linarith
      then show "file_byte t ?ino l = file_byte s ?ino l" using bt small_pos by blast
    qed
    then have "map (dir_entry t ?ino) [0..<n] = dir_entries s ?ino" by (simp add: dir_entries_def n)
    from dir_okI(1,2)[OF fok[unfolded it] w(3)[unfolded it] o(3) _ szn n31 this o(7)] o(5) n
    have "dir_ok t ?ino" "dir_entries t ?ino = dir_entries s ?ino" by simp_all
    moreover have "i = n \<and> n mod DIRENTS_PER_BLOCK = 0" using z(1) a n by auto
    ultimately show ?thesis using w(1,2) a unfolding xl by auto
  qed
qed

lemma add_dirent_spec:
  assumes ok: "fs_ok s" and k: "valid_inum s k" and dok: "dir_ok s (inode_at s k)"
    and d: "dirent_wf d" "de_inode_num d \<noteq> 0" and n: "n = dir_len (inode_at s k)" and small: "dir_size (Suc n) < 2 ^ 31"
  shows "\<exists>ret t. add_dirent (int k) (Some d) s = Some (ret, t) \<and>
    file_step {k} s (inode_at s k) t (inode_at t k) \<and> dir_ok t (inode_at t k) \<and>
    (ret = int sizeof_dirent \<and> dir_entries t (inode_at t k) = dir_entries s (inode_at s k) @ [d] \<and>
      same_meta (write_meta (dir_pos n) sizeof_dirent (inode_at s k)) (inode_at t k) \<or>
     ret = DATA_FULL \<and> inode_at t k = inode_at s k \<and> card (free_data t) = card (free_data s) \<and>
      dir_entries t (inode_at t k) = dir_entries s (inode_at s k) \<and> n mod DIRENTS_PER_BLOCK = 0)"
proof -
  let ?ino = "inode_at s k" and ?sz = "dir_size n"
  note o = dir_okD[OF dok]
  have m: "mounted s" using ok by (rule fs_ok_mounted)
  have n0: "0 < n" using o(5) n by simp
  have us: "uint (i_size ?ino) = int ?sz" using uint_size[of ?ino] o(6) n by simp
  note np = next_pos[OF n0]
  have dv: "int ?sz div int BLOCK_SIZE = int (?sz div BLOCK_SIZE)"
    "(int ?sz + int sizeof_dirent) div int BLOCK_SIZE = int ((?sz + sizeof_dirent) div BLOCK_SIZE)"
    "int ?sz mod int BLOCK_SIZE mod int sizeof_dirent = int (?sz mod BLOCK_SIZE mod sizeof_dirent)"
    by (simp_all add: zdiv_int zmod_int)
  have off: "(if int (?sz div BLOCK_SIZE) < int ((?sz + sizeof_dirent) div BLOCK_SIZE)
      then int ?sz + int DIRENTS_REMAINDER else int ?sz) = int (dir_pos n)"
    unfolding np(1)[symmetric] by simp
  have "add_dirent (int k) (Some d) s = write_i (int k) (Some (enc_dirent d)) (int (dir_pos n)) (int sizeof_dirent) s"
    unfolding add_dirent_def option.case local_inode_ok[OF m k] Let_def prod.case us dv off np(3) using o(3) by simp
  moreover have "put_entry n d (dir_entries s ?ino) = dir_entries s ?ino @ [d]" by (simp add: put_entry_def n)
  ultimately show ?thesis using write_entry[OF ok k dok d n order_refl] small by (simp add: dir_size_def)
qed

section \<open>Removing an entry\<close>

text \<open>The offsets \<open>remove_dirent\<close> computes for entry \<open>i\<close> and for the last entry.\<close>

lemma entry_offset:
  assumes "dir_pos i < 2 ^ 31"
  shows "int_times (int i div int DIRENTS_PER_BLOCK) (int BLOCK_SIZE) = Some (int (i div DIRENTS_PER_BLOCK * BLOCK_SIZE))"
    "c_u64 (int (i div DIRENTS_PER_BLOCK * BLOCK_SIZE) + int i mod int DIRENTS_PER_BLOCK * int sizeof_dirent) = int (dir_pos i)"
proof -
  have "i div DIRENTS_PER_BLOCK * BLOCK_SIZE < 2 ^ 31" using assms by (simp add: dir_pos_def)
  then show "int_times (int i div int DIRENTS_PER_BLOCK) (int BLOCK_SIZE) = Some (int (i div DIRENTS_PER_BLOCK * BLOCK_SIZE))"
    by (simp add: int_times_def flip: zdiv_int of_nat_mult)
  have "int (i div DIRENTS_PER_BLOCK * BLOCK_SIZE) + int i mod int DIRENTS_PER_BLOCK * int sizeof_dirent = int (dir_pos i)"
    by (simp add: dir_pos_def zmod_int)
  then show "c_u64 (int (i div DIRENTS_PER_BLOCK * BLOCK_SIZE) + int i mod int DIRENTS_PER_BLOCK * int sizeof_dirent) = int (dir_pos i)"
    using assms by simp
qed

lemma last_offset:
  assumes "0 < n" "dir_size n < 2 ^ 31"
  shows "int_times (int (dir_size n) div int BLOCK_SIZE) (int BLOCK_SIZE) = Some (int (dir_size n div BLOCK_SIZE * BLOCK_SIZE))"
    "c_u64 (int (dir_size n div BLOCK_SIZE * BLOCK_SIZE) + (int (dir_size n) mod int BLOCK_SIZE - int sizeof_dirent)) =
      int (dir_pos (n - 1))"
    "int (dir_size n) mod int BLOCK_SIZE mod int sizeof_dirent = 0"
proof -
  have le: "dir_size n div BLOCK_SIZE * BLOCK_SIZE \<le> dir_size n" by simp
  show "int_times (int (dir_size n) div int BLOCK_SIZE) (int BLOCK_SIZE) = Some (int (dir_size n div BLOCK_SIZE * BLOCK_SIZE))"
    using order_le_less_trans[OF le assms(2)] by (simp add: int_times_def flip: zdiv_int of_nat_mult)
  have "int (dir_size n div BLOCK_SIZE * BLOCK_SIZE) + int (dir_size n) mod int BLOCK_SIZE = int (dir_size n)"
    by (simp only: zmod_int[symmetric] of_nat_add[symmetric] div_mult_mod_eq)
  then have "int (dir_size n div BLOCK_SIZE * BLOCK_SIZE) + (int (dir_size n) mod int BLOCK_SIZE - int sizeof_dirent) =
      int (dir_pos (n - 1))" unfolding dir_size_def by simp
  moreover have "dir_pos (n - 1) < 2 ^ 64" using assms(2) by (simp add: dir_size_def)
  ultimately show "c_u64 (int (dir_size n div BLOCK_SIZE * BLOCK_SIZE) + (int (dir_size n) mod int BLOCK_SIZE - int sizeof_dirent)) =
      int (dir_pos (n - 1))" by (simp only: c_u64_int)
  have "int (dir_size n) mod int BLOCK_SIZE mod int sizeof_dirent = int (dir_size n mod BLOCK_SIZE mod sizeof_dirent)"
    by (simp add: zmod_int)
  then show "int (dir_size n) mod int BLOCK_SIZE mod int sizeof_dirent = 0" unfolding next_pos(3)[OF assms(1)] by simp
qed

lemma remove_dirent_bad_index:
  assumes m: "mounted s" and k: "valid_inum s k" and dok: "dir_ok s (inode_at s k)"
    and i: "i < 0 \<or> (\<exists>j. i = int j \<and> dir_len (inode_at s k) \<le> j \<and> dir_pos j < 2 ^ 31)"
  shows "remove_dirent (int k) i s = Some (BAD_INDEX, s)"
proof -
  let ?ino = "inode_at s k" and ?n = "dir_len (inode_at s k)"
  note o = dir_okD[OF dok]
  have us: "uint (i_size ?ino) = int (dir_size ?n)" unfolding o(6)[symmetric] by (rule uint_size)
  have nz: "i_size ?ino \<noteq> 0" using o(6) by (auto simp: file_size_def dir_size_def c_consts)
  have s31: "dir_size ?n < 2 ^ 31" using o(4,6) by simp
  show ?thesis
  proof (cases "i < 0")
    case True
    then show ?thesis using o(3) by (simp add: remove_dirent_def local_inode_ok[OF m k])
  next
    case False
    then obtain j where j: "i = int j" "?n \<le> j" "dir_pos j < 2 ^ 31" using i by blast
    have "?n - 1 < j" using o(5) j(2) by linarith
    from dir_pos_mono[OF this] have "dir_pos (?n - 1) < dir_pos j" by (simp add: c_consts)
    then show ?thesis
      unfolding remove_dirent_def local_inode_ok[OF m k] Let_def prod.case us j(1) entry_offset[OF j(3)]
        last_offset[OF o(5) s31] option.case using o(3) nz by simp
  qed
qed

lemma enc_dec_dirent: "length bs = sizeof_dirent \<Longrightarrow> enc_dirent (dec_dirent bs) = bs"
proof -
  assume l: "length bs = sizeof_dirent"
  then have d: "length (drop FILEBUF_SIZE bs) = 4" by (simp add: c_consts)
  then have w: "length (words_of_bytes (drop FILEBUF_SIZE bs)) = 1" by simp
  then have "words_of_bytes (drop FILEBUF_SIZE bs) = [words_of_bytes (drop FILEBUF_SIZE bs) ! 0]"
    by (intro nth_equalityI) auto
  then have "le_bytes (words_of_bytes (drop FILEBUF_SIZE bs) ! 0) = bytes_of_words (words_of_bytes (drop FILEBUF_SIZE bs))"
    by (metis append_Nil2 bytes_of_words_simps)
  also have "\<dots> = drop FILEBUF_SIZE bs" using d by (intro bytes_of_words_of_bytes) simp
  finally show ?thesis by (simp add: enc_dirent_def dec_dirent_def)
qed

text \<open>
  The last entry moves into the gap and the directory shrinks by one entry.  This is the case in which
  another entry stays in the last block; otherwise \<open>truncate\<close> frees that block.
\<close>

definition list_remove :: "nat \<Rightarrow> 'b list \<Rightarrow> 'b list" where
  "list_remove i es = butlast (es[i := last es])"

lemma cut_entry:
  assumes ok: "fs_ok s" and k: "valid_inum s k" and dok: "dir_ok s (inode_at s k)"
    and n: "dir_len (inode_at s k) = Suc n" and part: "n mod DIRENTS_PER_BLOCK \<noteq> 0"
  shows "\<exists>t. truncate_i (int k) (int (dir_pos n)) s = Some (SUCCESS, t) \<and>
    file_step {k} s (inode_at s k) t (inode_at t k) \<and> dir_ok t (inode_at t k) \<and>
    dir_entries t (inode_at t k) = butlast (dir_entries s (inode_at s k))"
proof -
  let ?ino = "inode_at s k" and ?q = "n div DIRENTS_PER_BLOCK" and ?j = "n mod DIRENTS_PER_BLOCK"
  note o = dir_okD[OF dok]
  have szn: "file_size ?ino = dir_pos n + sizeof_dirent" using o(6) n by (simp add: dir_size_def)
  have n31: "dir_pos n + sizeof_dirent < 2 ^ 31" using o(4) szn by simp
  have n0: "0 < n" using part by (cases n) simp_all
  have jb: "?j < DIRENTS_PER_BLOCK" by (simp add: c_consts)
  have nq: "n = ?q * DIRENTS_PER_BLOCK + ?j" by simp
  note pn = dir_pos_block[OF nq jb]
  have zn: "dir_size n = dir_pos n" using dir_size_block(1)[OF nq _ less_imp_le[OF jb]] part pn(1) by simp
  have first: "?q * DIRENTS_PER_BLOCK < dir_len ?ino" using nq n by linarith
  have fp: "dir_pos (?q * DIRENTS_PER_BLOCK) = ?q * BLOCK_SIZE" by (simp add: dir_pos_def c_consts)
  obtain l where l: "?q * BLOCK_SIZE \<le> l" "l < ?q * BLOCK_SIZE + sizeof_dirent" "file_byte s ?ino l \<noteq> 0"
    using entry_byte_nonzero[OF dok first] unfolding fp by auto
  have cut: "l - ?q * BLOCK_SIZE < ?j * sizeof_dirent" "?q * BLOCK_SIZE + (l - ?q * BLOCK_SIZE) = l"
    using l(1,2) part by (cases ?j; simp)+
  have tr: "file_size ?ino \<le> ?q * BLOCK_SIZE + BLOCK_SIZE" "dir_pos n < file_size ?ino"
    unfolding szn using pn(1) dirent_fits[OF jb] by (simp_all add: c_consts)
  let ?ino' = "?ino\<lparr>i_size := word_of_nat (dir_pos n)\<rparr>"
  obtain u where u: "truncate_i (int k) (int (dir_pos n)) s = Some (SUCCESS, u)" "file_step {k} s ?ino u ?ino'"
    "inode_at u k = ?ino'" "file_full u ?ino'" "file_size ?ino' = dir_pos n"
    and ub: "\<forall>j < MAX_FILE_BYTES. file_byte u ?ino' j =
      (if dir_pos n \<le> j \<and> j < file_size ?ino then 0 else file_byte s ?ino j)"
    using truncate_within[OF ok k o(1,2,4) pn(1) tr cut(1), unfolded cut(2), OF l(3)] by blast
  have keep: "dir_entry u ?ino' j = dir_entry s ?ino j" if j: "j < n" for j
  proof (rule dir_entry_cong)
    fix l assume "l < dir_pos j + sizeof_dirent"
    then have "l < dir_pos n" "l < 2 ^ 31" using dir_pos_mono[OF j] n31 by linarith+
    then show "file_byte u ?ino' l = file_byte s ?ino l" using ub small_pos[of l] by simp
  qed
  have es: "map (dir_entry u ?ino') [0..<n] = butlast (dir_entries s ?ino)"
    unfolding dir_entries_def n using keep by simp
  have nz: "\<forall>e \<in> set (butlast (dir_entries s ?ino)). de_inode_num e \<noteq> 0" using o(7) in_set_butlastD by fast
  have sz: "file_size ?ino' = dir_size n" "dir_size n < 2 ^ 31" "S_ISDIR (i_mode ?ino')" using u(5) zn n31 o(3) by simp_all
  show ?thesis using u(1,2,3) dir_okI(1,2)[OF file_stepD(4)[OF u(2)] u(4) sz(3) n0 sz(1,2) es nz] by auto
qed

lemma remove_dirent_spec:
  assumes ok: "fs_ok s" and k: "valid_inum s k" and dok: "dir_ok s (inode_at s k)"
    and n: "dir_len (inode_at s k) = Suc n" and i: "i < Suc n" and part: "n mod DIRENTS_PER_BLOCK \<noteq> 0"
  shows "\<exists>t. remove_dirent (int k) (int i) s = Some (SUCCESS, t) \<and>
    file_step {k} s (inode_at s k) t (inode_at t k) \<and> dir_ok t (inode_at t k) \<and>
    dir_entries t (inode_at t k) = list_remove i (dir_entries s (inode_at s k))"
proof -
  let ?ino = "inode_at s k" and ?e = "dir_entry s (inode_at s k) n"
  note o = dir_okD[OF dok]
  have m: "mounted s" using ok by (rule fs_ok_mounted)
  have dn: "dir_size (Suc n) = dir_pos n + sizeof_dirent" by (simp add: dir_size_def)
  have szn: "file_size ?ino = dir_size (Suc n)" using o(6) n by simp
  have s31: "dir_size (Suc n) < 2 ^ 31" using o(4) szn by simp
  have us: "uint (i_size ?ino) = int (dir_size (Suc n))" unfolding szn[symmetric] by (rule uint_size)
  have nz: "i_size ?ino \<noteq> 0" using szn by (auto simp: file_size_def dir_size_def c_consts)
  have i31: "dir_pos i + sizeof_dirent < 2 ^ 31" using dir_size_le[OF i] s31 by linarith
  then have eo: "dir_pos i < 2 ^ 31" by simp
  have le: "\<not> int (dir_pos n) < int (dir_pos i)" using dir_pos_mono[of i n] i by (cases "i = n") auto
  note lo = last_offset[OF zero_less_Suc s31, unfolded diff_Suc_1]
  have xeq: "enc_dirent ?e = file_bytes s ?ino (dir_pos n) sizeof_dirent" by (simp add: dir_entry_def enc_dec_dirent)
  have mn: "min sizeof_dirent (file_size ?ino - dir_pos n) = sizeof_dirent" unfolding szn dn by simp
  have "sizeof_dirent < 2 ^ 64" by (simp add: c_consts)
  from read_i_spec[OF m k o(1,4) this, of "dir_pos n" "uninit sizeof_dirent s"]
  have rd: "read_i (int k) (Some (uninit sizeof_dirent s)) (int (dir_pos n)) (int sizeof_dirent) s =
      Some (int sizeof_dirent, enc_dirent ?e)"
    unfolding mn xeq[symmetric] by (simp add: overlay_all length_enc_dirent)
  have last: "?e = last (dir_entries s ?ino)" "?e \<in> set (dir_entries s ?ino)" by (simp_all add: dir_entries_def n)
  obtain t where w: "write_i (int k) (Some (enc_dirent ?e)) (int (dir_pos i)) (int sizeof_dirent) s = Some (int sizeof_dirent, t)"
    "file_step {k} s ?ino t (inode_at t k)" "dir_ok t (inode_at t k)"
    "dir_entries t (inode_at t k) = (dir_entries s ?ino)[i := last (dir_entries s ?ino)]"
    using write_entry[OF ok k dok dirent_wf_dir_entry _ n[symmetric] less_imp_le[OF i] i31, of s ?ino n] o(7) last i
    by (auto simp: put_entry_def n)
  note d = file_stepD[OF w(2)]
  have kt: "valid_inum t k" using k d(7) by simp
  have nt: "dir_len (inode_at t k) = Suc n" using arg_cong[OF w(4), of length] n by simp
  obtain u where u: "truncate_i (int k) (int (dir_pos n)) t = Some (SUCCESS, u)"
    "file_step {k} t (inode_at t k) u (inode_at u k)" "dir_ok u (inode_at u k)"
    "dir_entries u (inode_at u k) = butlast (dir_entries t (inode_at t k))"
    using cut_entry[OF d(5) kt w(3) nt part] by blast
  have "int (dir_size (Suc n)) - int sizeof_dirent = int (dir_pos n)" unfolding dn by simp
  then have ns: "c_int (int (dir_size (Suc n)) - int sizeof_dirent) = int (dir_pos n)" using s31 dn by simp
  have "dir_pos n mod BLOCK_SIZE \<noteq> 0"
    using dir_pos_block(3)[of n "n div DIRENTS_PER_BLOCK" "n mod DIRENTS_PER_BLOCK"] part by (simp add: c_consts)
  then have nm: "int (dir_pos n) smod int BLOCK_SIZE \<noteq> 0" unfolding sdiv_nat by simp
  have "remove_dirent (int k) (int i) s = Some (SUCCESS, u)"
    unfolding remove_dirent_def local_inode_ok[OF m k] Let_def prod.case us entry_offset[OF eo] lo option.case
      if_not_P[OF le] rd w(1) ns
    using o(3) nz nm u(1) by simp
  moreover have "file_step {k} s ?ino u (inode_at u k)" using file_step_trans[OF w(2) u(2)] by simp
  ultimately show ?thesis using u(3,4) w(4) by (simp add: list_remove_def)
qed

end
