(* ===== verification/Namespace.thy ===== *)
theory Namespace
  imports Directory
begin

text \<open>
  Paths, \<open>src/layer2.c\<close>: attributes and permissions of an inode, the walk along a path from the root
  directory, and the creation of directories and files.  A path is a C string without its NUL.
\<close>

section \<open>Error numbers and mode bits\<close>

definition ENOENT :: int where [simp]: "ENOENT = 2"
definition EBADF :: int where [simp]: "EBADF = 9"
definition EACCES :: int where [simp]: "EACCES = 13"
definition EEXIST :: int where [simp]: "EEXIST = 17"
definition ENOTDIR :: int where [simp]: "ENOTDIR = 20"
definition EISDIR :: int where [simp]: "EISDIR = 21"
definition EINVAL :: int where [simp]: "EINVAL = 22"
definition ENOSPC :: int where [simp]: "ENOSPC = 28"
definition ENAMETOOLONG :: int where [simp]: "ENAMETOOLONG = 36"

definition S_IRUSR :: u32 where "S_IRUSR = 0x100"
definition S_IWUSR :: u32 where "S_IWUSR = 0x80"
definition S_IXUSR :: u32 where "S_IXUSR = 0x40"
definition S_IRGRP :: u32 where "S_IRGRP = 0x20"
definition S_IWGRP :: u32 where "S_IWGRP = 0x10"
definition S_IXGRP :: u32 where "S_IXGRP = 0x8"
definition S_IROTH :: u32 where "S_IROTH = 0x4"
definition S_IWOTH :: u32 where "S_IWOTH = 0x2"
definition S_IXOTH :: u32 where "S_IXOTH = 0x1"

section \<open>get_stat\<close>

text \<open>
  The fields of \<open>struct stat\<close> the code writes, and \<open>st_dev\<close>, its first field: \<open>sizeof(stat)\<close> is the
  size of the function \<open>stat\<close>, which is 1, so \<open>memset\<close> clears one byte.  \<open>s0\<close> is the content of the
  local variable before.
\<close>

record c_stat =
  st_dev :: "64 word"
  st_ino :: int
  st_mode :: u32
  st_uid :: u32
  st_gid :: u32
  st_size :: int

definition get_stat :: "c_stat \<Rightarrow> int \<Rightarrow> 'a layer1_scheme \<Rightarrow> c_stat" where
  "get_stat s0 inum s =
    (let st = s0\<lparr>st_dev := st_dev s0 AND NOT 0xff\<rparr>;
         (ret, my_inode) = local_inode inum s
     in if ret \<noteq> SUCCESS then st
        else st\<lparr>st_ino := inum, st_mode := i_mode my_inode, st_uid := i_uid my_inode,
                st_gid := i_gid my_inode, st_size := uint (i_size my_inode)\<rparr>)"

section \<open>check_permissions\<close>

text \<open>The results are the code and \<open>*read\<close>, \<open>*write\<close>, \<open>*exec\<close> afterwards.\<close>

definition has :: "u32 \<Rightarrow> inode \<Rightarrow> bool" where
  "has flag ino \<longleftrightarrow> flag AND i_mode ino \<noteq> 0"

definition check_permissions ::
    "int \<Rightarrow> int \<Rightarrow> int \<Rightarrow> bool option \<Rightarrow> bool option \<Rightarrow> bool option \<Rightarrow> 'a layer1_scheme \<Rightarrow>
      int \<times> bool \<times> bool \<times> bool" where
  "check_permissions inum uid gid read write exec s =
    (if read = None \<or> write = None \<or> exec = None
     then (BUF_NULL, opt_or False read, opt_or False write, opt_or False exec)
     else
       (let (ret, my_inode) = local_inode inum s in
        if ret \<noteq> SUCCESS then (ret, False, False, False)
        else
          (let read = False; write = False; exec = False;
               (read, write, exec) =
                 (if i_uid my_inode = word_of_int uid then
                    (read \<or> has S_IRUSR my_inode, write \<or> has S_IWUSR my_inode, exec \<or> has S_IXUSR my_inode)
                  else (read, write, exec));
               (read, write, exec) =
                 (if i_gid my_inode = word_of_int gid then
                    (read \<or> has S_IRGRP my_inode, write \<or> has S_IWGRP my_inode, exec \<or> has S_IXGRP my_inode)
                  else (read, write, exec));
               (read, write, exec) =
                 (if i_uid my_inode \<noteq> word_of_int uid \<and> i_gid my_inode \<noteq> word_of_int gid then
                    (read \<or> has S_IROTH my_inode, write \<or> has S_IWOTH my_inode, exec \<or> has S_IXOTH my_inode)
                  else (read, write, exec))
           in (SUCCESS, read, write, exec))))"

text \<open>All callers pass the addresses of three local variables.\<close>

definition permissions :: "int \<Rightarrow> int \<Rightarrow> int \<Rightarrow> 'a layer1_scheme \<Rightarrow> bool \<times> bool \<times> bool" where
  "permissions inum uid gid s =
    snd (check_permissions inum uid gid (Some False) (Some False) (Some False) s)"

section \<open>namei\<close>

definition SLASH :: byte where "SLASH = 0x2f"

text \<open>The results of \<open>strtok(path, "/")\<close>, \<open>strtok(NULL, "/")\<close>, ... up to the null pointer.\<close>

function strtok :: "byte list \<Rightarrow> byte list list" where
  "strtok path =
    (let path = dropWhile (\<lambda>c. c = SLASH) path in
     if path = [] then []
     else takeWhile (\<lambda>c. c \<noteq> SLASH) path # strtok (dropWhile (\<lambda>c. c \<noteq> SLASH) path))"
  by pat_completeness auto

lemma dropWhile_shorter:
  assumes "dropWhile P xs \<noteq> []" "\<And>x. P x \<longleftrightarrow> \<not> Q x"
  shows "length (dropWhile Q (dropWhile P xs)) < length xs"
proof -
  obtain y ys where y: "dropWhile P xs = y # ys" using assms(1) by (cases "dropWhile P xs") auto
  have "\<not> P y" using hd_dropWhile[OF assms(1)] y by simp
  then have "length (dropWhile Q (dropWhile P xs)) \<le> length ys"
    using assms(2)[of y] y length_dropWhile_le[of Q ys] by simp
  also have "length ys < length xs" using y length_dropWhile_le[of P xs] by simp
  finally show ?thesis .
qed

termination strtok
  by (relation "measure length") (auto intro!: dropWhile_shorter)

declare strtok.simps [simp del]

text \<open>The loop of \<open>namei\<close>; the results are the code, \<open>*parent_inum\<close>, \<open>*target_inum\<close> and \<open>*index\<close>.\<close>

primrec namei_loop ::
    "byte list list \<Rightarrow> int \<Rightarrow> int \<Rightarrow> int \<Rightarrow> int \<Rightarrow> int \<Rightarrow> 'a layer1_scheme \<Rightarrow>
      (int \<times> int \<times> int \<times> int) option" where
  "namei_loop [] uid gid parent_inum target_inum index s = Some (SUCCESS, parent_inum, target_inum, index)"
| "namei_loop (token # tokens) uid gid parent_inum target_inum index s =
    (let parent_inum = target_inum in
     if parent_inum = 0 then Some (- ENOENT, parent_inum, target_inum, index)
     else if MAX_FILENAME < length token then Some (- ENAMETOOLONG, parent_inum, target_inum, index)
     else
       (let (read, write, exec) = permissions parent_inum uid gid s in
        if \<not> read \<or> \<not> exec then Some (- EACCES, parent_inum, target_inum, index)
        else case search_by_name parent_inum (Some token) (Some target_inum) index s of
          None \<Rightarrow> None
        | Some (ret, target_inum, index) \<Rightarrow>
            if ret = NOT_DIR then Some (- ENOTDIR, parent_inum, target_inum, index)
            else
              (let target_inum = (if ret = NOT_IN_DIR then 0 else target_inum)
               in namei_loop tokens uid gid parent_inum target_inum index s)))"

definition namei ::
    "byte list \<Rightarrow> int \<Rightarrow> int \<Rightarrow> 'a layer1_scheme \<Rightarrow> (int \<times> int \<times> int \<times> int) option" where
  "namei pathname uid gid s = namei_loop (strtok pathname) uid gid ROOT_INODE ROOT_INODE 0 s"

section \<open>mkdir and mknod\<close>

text \<open>\<open>strrchr(pathname, '/') + 1\<close>, undefined for a path without a slash.\<close>

definition last_component :: "byte list \<Rightarrow> byte list option" where
  "last_component pathname =
    (if SLASH \<in> set pathname then Some (rev (takeWhile (\<lambda>c. c \<noteq> SLASH) (rev pathname))) else None)"

definition strncpy :: "nat \<Rightarrow> byte list \<Rightarrow> byte list" where
  "strncpy n src = take n (src @ replicate n 0)"

definition new_dirent :: "byte list \<Rightarrow> int \<Rightarrow> dir_ent" where
  "new_dirent target_name new_inum =
    \<lparr>de_name = strncpy FILEBUF_SIZE target_name, de_inode_num = word_of_int new_inum\<rparr>"

definition mkdir_fs ::
    "byte list \<Rightarrow> u32 \<Rightarrow> int \<Rightarrow> int \<Rightarrow> 'a layer1_scheme \<Rightarrow> (int \<times> 'a layer1_scheme) option" where
  "mkdir_fs pathname mode uid gid s =
    (case namei pathname uid gid s of
       None \<Rightarrow> None
     | Some (ret, parent_inum, target_inum, index) \<Rightarrow>
         if ret \<noteq> SUCCESS then Some (ret, s)
         else
           (let (read, write, exec) = permissions parent_inum uid gid s in
            if \<not> read \<or> \<not> exec \<or> \<not> write then Some (- EACCES, s)
            else if target_inum \<noteq> 0 then Some (- EEXIST, s)
            else
              (let (ret, new_inum, s) = create_dir_base 0 mode uid gid parent_inum s in
               if ret \<noteq> SUCCESS then Some (- ENOSPC, s)
               else case last_component pathname of
                 None \<Rightarrow> None
               | Some target_name \<Rightarrow>
                   (case add_dirent parent_inum (Some (new_dirent target_name new_inum)) s of
                      None \<Rightarrow> None
                    | Some (ret, s) \<Rightarrow>
                        if c_u64 ret \<noteq> int sizeof_dirent then
                          map_option (\<lambda>(_, s). (- ENOSPC, s)) (del new_inum s)
                        else Some (SUCCESS, s)))))"

definition file_inode :: "u32 \<Rightarrow> int \<Rightarrow> int \<Rightarrow> inode" where
  "file_inode mode uid gid =
    zero_inode\<lparr>i_mode := (S_IFREG OR mode) AND (0xffff XOR S_IFDIR),
      i_uid := word_of_int uid, i_gid := word_of_int gid\<rparr>"

definition mknod_fs ::
    "byte list \<Rightarrow> u32 \<Rightarrow> int \<Rightarrow> int \<Rightarrow> 'a layer1_scheme \<Rightarrow> (int \<times> 'a layer1_scheme) option" where
  "mknod_fs pathname mode uid gid s =
    (case namei pathname uid gid s of
       None \<Rightarrow> None
     | Some (ret, parent_inum, target_inum, index) \<Rightarrow>
         if ret \<noteq> SUCCESS then Some (ret, s)
         else
           (let (read, write, exec) = permissions parent_inum uid gid s in
            if \<not> read \<or> \<not> exec \<or> \<not> write then Some (- EACCES, s)
            else if target_inum \<noteq> 0 then Some (- EEXIST, s)
            else
              (let (ret, new_inum, s) = inode_create (Some (file_inode mode uid gid)) (Some 0) s in
               if ret \<noteq> SUCCESS then Some (- ENOSPC, s)
               else case last_component pathname of
                 None \<Rightarrow> None
               | Some target_name \<Rightarrow>
                   (case add_dirent parent_inum (Some (new_dirent target_name new_inum)) s of
                      None \<Rightarrow> None
                    | Some (ret, s) \<Rightarrow>
                        if c_u64 ret \<noteq> int sizeof_dirent then
                          map_option (\<lambda>(_, s). (- ENOSPC, s)) (del new_inum s)
                        else Some (SUCCESS, s)))))"

end
