(* ===== verification/NameSpec.thy ===== *)
theory NameSpec
  imports DirSpec Namespace
begin

text \<open>
  Paths as lists of names.  \<open>walk s uid gid k ts k'\<close> says that the names \<open>ts\<close> lead from directory \<open>k\<close>
  to inode \<open>k'\<close> for a user who may search every directory on the way; \<open>namei\<close> is shown to follow it,
  with the error the code returns at the first obstacle.
\<close>

section \<open>Splitting a path\<close>

definition is_component :: "byte list \<Rightarrow> bool" where
  "is_component t \<longleftrightarrow> t \<noteq> [] \<and> SLASH \<notin> set t"

definition path_of :: "byte list list \<Rightarrow> byte list" where
  "path_of ts = concat (map ((#) SLASH) ts)"

lemma path_of_simps [simp]: "path_of [] = []" "path_of (t # ts) = SLASH # t @ path_of ts"
  by (simp_all add: path_of_def)

lemma takeWhile_component:
  assumes "SLASH \<notin> set t"
  shows "takeWhile (\<lambda>c. c \<noteq> SLASH) (t @ path_of ts) = t" "dropWhile (\<lambda>c. c \<noteq> SLASH) (t @ path_of ts) = path_of ts"
proof -
  have t: "\<forall>x \<in> set t. x \<noteq> SLASH" using assms by blast
  have "takeWhile (\<lambda>c. c \<noteq> SLASH) (path_of ts) = []" "dropWhile (\<lambda>c. c \<noteq> SLASH) (path_of ts) = path_of ts"
    by (cases ts; simp)+
  then show "takeWhile (\<lambda>c. c \<noteq> SLASH) (t @ path_of ts) = t" "dropWhile (\<lambda>c. c \<noteq> SLASH) (t @ path_of ts) = path_of ts"
    using t by (simp_all add: takeWhile_append2 dropWhile_append2)
qed

lemma strtok_path: "\<forall>t \<in> set ts. is_component t \<Longrightarrow> strtok (path_of ts) = ts"
proof (induction ts)
  case Nil
  then show ?case by (simp add: strtok.simps)
next
  case (Cons t ts)
  then have t: "t \<noteq> []" "SLASH \<notin> set t" by (simp_all add: is_component_def)
  then have "dropWhile (\<lambda>c. c = SLASH) (path_of (t # ts)) = t @ path_of ts"
    by (cases t) auto
  then show ?case
    using Cons t takeWhile_component[OF t(2), of ts] by (subst strtok.simps) (simp add: Let_def)
qed

lemma last_component_path: "is_component t \<Longrightarrow> last_component (path_of (ts @ [t])) = Some t"
proof -
  assume t: "is_component t"
  have p: "path_of (ts @ [t]) = path_of ts @ SLASH # t" by (induction ts) simp_all
  have "takeWhile (\<lambda>c. c \<noteq> SLASH) (rev t @ SLASH # rev (path_of ts)) = rev t"
    using t by (simp add: is_component_def takeWhile_append)
  then show ?thesis unfolding last_component_def p by simp
qed

section \<open>Permissions\<close>

text \<open>Owner and group bits both count for an owner who is in the group; the others' bits only for the rest.\<close>

definition granted :: "u32 \<Rightarrow> u32 \<Rightarrow> u32 \<Rightarrow> int \<Rightarrow> int \<Rightarrow> inode \<Rightarrow> bool" where
  "granted usr grp oth uid gid ino \<longleftrightarrow>
    (i_uid ino = word_of_int uid \<and> has usr ino) \<or> (i_gid ino = word_of_int gid \<and> has grp ino) \<or>
    (i_uid ino \<noteq> word_of_int uid \<and> i_gid ino \<noteq> word_of_int gid \<and> has oth ino)"

definition may_read :: "int \<Rightarrow> int \<Rightarrow> inode \<Rightarrow> bool" where
  "may_read = granted S_IRUSR S_IRGRP S_IROTH"

definition may_write :: "int \<Rightarrow> int \<Rightarrow> inode \<Rightarrow> bool" where
  "may_write = granted S_IWUSR S_IWGRP S_IWOTH"

definition may_exec :: "int \<Rightarrow> int \<Rightarrow> inode \<Rightarrow> bool" where
  "may_exec = granted S_IXUSR S_IXGRP S_IXOTH"

lemma permissions_eq:
  assumes "mounted s" "valid_inum s k"
  shows "permissions (int k) uid gid s =
    (may_read uid gid (inode_at s k), may_write uid gid (inode_at s k), may_exec uid gid (inode_at s k))"
  by (simp add: permissions_def check_permissions_def local_inode_ok[OF assms] Let_def may_read_def may_write_def
      may_exec_def granted_def)

lemma permissions_bad: "local_inode i s = (r, ino) \<Longrightarrow> r \<noteq> SUCCESS \<Longrightarrow> permissions i uid gid s = (False, False, False)"
  by (simp add: permissions_def check_permissions_def)

section \<open>Walking\<close>

definition may_search :: "'a layer1_scheme \<Rightarrow> int \<Rightarrow> int \<Rightarrow> nat \<Rightarrow> bool" where
  "may_search s uid gid k \<longleftrightarrow> may_read uid gid (inode_at s k) \<and> may_exec uid gid (inode_at s k)"

definition entries_of :: "'a layer1_scheme \<Rightarrow> nat \<Rightarrow> dir_ent list" where
  "entries_of s k = dir_entries s (inode_at s k)"

definition is_dir :: "'a layer1_scheme \<Rightarrow> nat \<Rightarrow> bool" where
  "is_dir s k \<longleftrightarrow> valid_inum s k \<and> k \<notin> free_inums s \<and> dir_ok s (inode_at s k)"

inductive walk :: "'a layer1_scheme \<Rightarrow> int \<Rightarrow> int \<Rightarrow> nat \<Rightarrow> byte list list \<Rightarrow> nat \<Rightarrow> bool"
  for s uid gid where
  here: "walk s uid gid k [] k"
| down: "is_dir s k \<Longrightarrow> may_search s uid gid k \<Longrightarrow> valid_name t \<Longrightarrow> dir_find t (entries_of s k) = Some i \<Longrightarrow>
    sint (de_inode_num (entries_of s k ! i)) = int k' \<Longrightarrow> k' \<noteq> 0 \<Longrightarrow> walk s uid gid k' ts k'' \<Longrightarrow>
    walk s uid gid k (t # ts) k''"

inductive_cases walk_NilE: "walk s uid gid k [] k'"
inductive_cases walk_ConsE: "walk s uid gid k (t # ts) k'"

text \<open>One step of the loop in a directory that may be searched.\<close>

lemma namei_loop_dir:
  assumes "mounted s" "is_dir s k" "may_search s uid gid k" "valid_name t" "k \<noteq> 0"
  shows "namei_loop (t # ts) uid gid p (int k) index s =
    (case dir_find t (entries_of s k) of
      None \<Rightarrow> namei_loop ts uid gid (int k) 0 index s
    | Some i \<Rightarrow> namei_loop ts uid gid (int k) (sint (de_inode_num (entries_of s k ! i))) (int i) s)"
proof -
  have k: "valid_inum s k" "dir_ok s (inode_at s k)" using assms(2) by (simp_all add: is_dir_def)
  have len: "\<not> MAX_FILENAME < length t" using assms(4) by (simp add: valid_name_def)
  show ?thesis
    using assms(3,5) len
    by (simp add: permissions_eq[OF assms(1) k(1)] search_by_name_spec[OF assms(1) k assms(4)] may_search_def
        entries_of_def split: option.split)
qed

lemma namei_loop_walk:
  assumes "walk s uid gid k ts k'" "mounted s" "k \<noteq> 0"
  shows "\<exists>p' index'. namei_loop (ts @ us) uid gid p (int k) index s = namei_loop us uid gid p' (int k') index' s \<and> k' \<noteq> 0"
  using assms
proof (induction arbitrary: p index rule: walk.induct)
  case (here k)
  then show ?case by auto
next
  case (down k t i k' ts k'')
  show ?case
    using down.IH[OF down.prems(1) down.hyps(6), of "int k" "int i"]
      namei_loop_dir[OF down.prems(1) down.hyps(1-3) down.prems(2), of "ts @ us" p index] down.hyps(4,5)
    by simp
qed

lemma namei_walk:
  assumes "walk s uid gid 1 ts k" "mounted s" "\<forall>t \<in> set (ts @ us). is_component t"
  shows "\<exists>p index. namei (path_of (ts @ us)) uid gid s = namei_loop us uid gid p (int k) index s \<and> k \<noteq> 0"
  using namei_loop_walk[OF assms(1,2), of us 1 0] strtok_path[OF assms(3)] by (simp add: namei_def)

section \<open>namei\<close>

definition found :: "byte list \<Rightarrow> dir_ent list \<Rightarrow> int" where
  "found t es = (case dir_find t es of None \<Rightarrow> 0 | Some i \<Rightarrow> sint (de_inode_num (es ! i)))"

lemma namei_last:
  assumes w: "walk s uid gid 1 ts k" and m: "mounted s" and c: "\<forall>t \<in> set (ts @ [t]). is_component t"
    and d: "is_dir s k" "may_search s uid gid k" "valid_name t"
  obtains index where "namei (path_of (ts @ [t])) uid gid s = Some (SUCCESS, int k, found t (entries_of s k), index)"
    "\<And>i. dir_find t (entries_of s k) = Some i \<Longrightarrow> index = int i"
proof -
  obtain p index where n: "namei (path_of (ts @ [t])) uid gid s = namei_loop [t] uid gid p (int k) index s" "k \<noteq> 0"
    using namei_walk[OF w m c] by blast
  show thesis
    using n(1) namei_loop_dir[OF m d n(2), of "[]" p index]
    by (cases "dir_find t (entries_of s k)") (auto simp: found_def intro: that)
qed

text \<open>The obstacles: a long name, a directory that must not be searched, a file, a missing name.\<close>

lemma namei_obstacle:
  assumes w: "walk s uid gid 1 ts k" and m: "mounted s" and c: "\<forall>t \<in> set (ts @ t # us). is_component t"
    and k: "valid_inum s k"
  defines "code \<equiv> map_option fst (namei (path_of (ts @ t # us)) uid gid s)"
  shows "MAX_FILENAME < length t \<Longrightarrow> code = Some (- ENAMETOOLONG)"
    "length t \<le> MAX_FILENAME \<Longrightarrow> \<not> may_search s uid gid k \<Longrightarrow> code = Some (- EACCES)"
    "length t \<le> MAX_FILENAME \<Longrightarrow> may_search s uid gid k \<Longrightarrow> \<not> S_ISDIR (i_mode (inode_at s k)) \<Longrightarrow>
      code = Some (- ENOTDIR)"
    "is_dir s k \<Longrightarrow> may_search s uid gid k \<Longrightarrow> valid_name t \<Longrightarrow> dir_find t (entries_of s k) = None \<Longrightarrow>
      us \<noteq> [] \<Longrightarrow> code = Some (- ENOENT)"
proof -
  obtain p index where n: "namei (path_of (ts @ t # us)) uid gid s = namei_loop (t # us) uid gid p (int k) index s" "k \<noteq> 0"
    using namei_walk[OF w m c] by blast
  note perm = permissions_eq[OF m k, of uid gid]
  show "MAX_FILENAME < length t \<Longrightarrow> code = Some (- ENAMETOOLONG)"
    using n by (simp add: code_def Let_def)
  show "length t \<le> MAX_FILENAME \<Longrightarrow> \<not> may_search s uid gid k \<Longrightarrow> code = Some (- EACCES)"
    using n by (simp add: code_def perm may_search_def Let_def)
  show "length t \<le> MAX_FILENAME \<Longrightarrow> may_search s uid gid k \<Longrightarrow> \<not> S_ISDIR (i_mode (inode_at s k)) \<Longrightarrow>
      code = Some (- ENOTDIR)"
    using n by (simp add: code_def perm may_search_def search_by_name_def local_inode_ok[OF m k] Let_def)
  assume d: "is_dir s k" "may_search s uid gid k" "valid_name t" "dir_find t (entries_of s k) = None" "us \<noteq> []"
  then show "code = Some (- ENOENT)"
    using namei_loop_dir[OF m d(1-3) n(2), of us p index] n(1) by (cases us) (simp_all add: code_def Let_def)
qed

section \<open>Directories under a change elsewhere\<close>

lemma dir_frame:
  assumes "is_dir s k" "fs_frame I B s t" "k \<notin> I" "B \<inter> file_set s (inode_at s k) = {}"
    "free_data t \<inter> file_set s (inode_at s k) = {}" "k \<notin> free_inums t"
  shows "is_dir t k" "entries_of t k = entries_of s k" "inode_at t k = inode_at s k"
proof -
  let ?ino = "inode_at s k"
  have k: "valid_inum s k" and o: "dir_ok s ?ino" using assms(1) by (simp_all add: is_dir_def)
  note f = file_frame[OF dir_okD(1)[OF o] assms(2,4,5)]
  show it: "inode_at t k = ?ino" using fs_frameD(8)[OF assms(2) k assms(3)] .
  have e: "dir_entry t ?ino i = dir_entry s ?ino i" if "i < dir_len ?ino" for i
  proof (rule dir_entry_cong)
    fix j assume "j < dir_pos i + sizeof_dirent"
    then have "j < 2 ^ 31" using dir_size_le[OF that] dir_okD(4,6)[OF o] by linarith
    then show "file_byte t ?ino j = file_byte s ?ino j"
      using f(4)[OF byte_block[OF small_pos]] by (simp add: file_byte_def)
  qed
  then have es: "dir_entries t ?ino = dir_entries s ?ino" by (simp add: dir_entries_def)
  then show "entries_of t k = entries_of s k" by (simp add: entries_of_def it)
  have "dir_ok t ?ino" using o f(1,5) es unfolding dir_ok_def by simp
  then show "is_dir t k" using assms(6) k fs_frameD(6)[OF assms(2)] by (simp add: is_dir_def it)
qed

section \<open>Creating a file\<close>

lemma is_cstr_valid: "valid_name t \<Longrightarrow> is_cstr t"
  by (simp add: valid_name_def)

lemma new_dirent_wf: "dirent_wf (new_dirent t n)"
  by (simp add: dirent_wf_def new_dirent_def strncpy_def)

lemma has_name_new: "valid_name t \<Longrightarrow> has_name t' (new_dirent t n) \<longleftrightarrow> t' = t"
proof -
  assume v: "valid_name t"
  then have l: "length t < FILEBUF_SIZE" by (simp add: valid_name_def c_consts)
  then obtain m where m: "FILEBUF_SIZE - length t = Suc m" by (cases "FILEBUF_SIZE - length t") auto
  have "take FILEBUF_SIZE (t @ replicate FILEBUF_SIZE 0) = t @ replicate (FILEBUF_SIZE - length t) 0"
    using l by (simp add: min_def)
  moreover have "\<forall>x \<in> set t. x \<noteq> 0" using is_cstr_valid[OF v] by (auto simp: is_cstr_def)
  then have "takeWhile (\<lambda>c. c \<noteq> 0) (t @ 0 # replicate m 0) = t" by (subst takeWhile_append2) auto
  ultimately have "cstr (de_name (new_dirent t n)) = t"
    unfolding m new_dirent_def strncpy_def dir_ent.select_convs by (simp add: cstr_def)
  then show ?thesis by (auto simp: has_name_def)
qed

lemma inum_u32:
  assumes "mounted s" "valid_inum s n"
  shows "sint (word_of_int (int n) :: u32) = int n" "(word_of_int (int n) :: u32) \<noteq> 0"
proof -
  have n: "0 < n" "n < 2 ^ 31" using assms(2) valid_inum_range(3)[OF assms] by (simp_all add: valid_inum_def)
  then show s: "sint (word_of_int (int n) :: u32) = int n" by (intro sint_word_of_int_small) simp_all
  show "(word_of_int (int n) :: u32) \<noteq> 0"
  proof
    assume "(word_of_int (int n) :: u32) = 0"
    then have "sint (word_of_int (int n) :: u32) = 0" by simp
    then show False using s n(1) by simp
  qed
qed

lemma file_inode_empty:
  "inode_wf (file_inode mode uid gid)" "\<forall>p < NPTRS. iptr (file_inode mode uid gid) p = 0"
  "file_size (file_inode mode uid gid) = 0"
proof -
  have "iptr (file_inode mode uid gid) p = iptr zero_inode p" for p by (simp add: file_inode_def iptr_def)
  then show "\<forall>p < NPTRS. iptr (file_inode mode uid gid) p = 0" by simp
qed (use inode_wf_zero file_size_zero_inode in \<open>simp_all add: file_inode_def inode_wf_def file_size_def\<close>)

text \<open>
  \<open>mknod_fs\<close> and \<open>mkdir_fs\<close> up to the creation of the inode: \<open>k\<close> is the parent, \<open>t\<close> the new name.
\<close>

definition creatable :: "'a layer1_scheme \<Rightarrow> int \<Rightarrow> int \<Rightarrow> byte list list \<Rightarrow> byte list \<Rightarrow> nat \<Rightarrow> bool" where
  "creatable s uid gid ts t k \<longleftrightarrow> walk s uid gid 1 ts k \<and> (\<forall>u \<in> set (ts @ [t]). is_component u) \<and>
    is_dir s k \<and> may_search s uid gid k \<and> valid_name t"

lemma found_None: "dir_find t es = None \<Longrightarrow> found t es = 0"
  by (simp add: found_def)

lemma creatable_namei:
  assumes "fs_ok s" "creatable s uid gid ts t k"
  obtains index where "namei (path_of (ts @ [t])) uid gid s = Some (SUCCESS, int k, found t (entries_of s k), index)"
    "permissions (int k) uid gid s = (True, may_write uid gid (inode_at s k), True)"
    "last_component (path_of (ts @ [t])) = Some t"
proof -
  note c = assms(2)[unfolded creatable_def]
  have m: "mounted s" using assms(1) by (rule fs_ok_mounted)
  have k: "valid_inum s k" using c by (simp add: is_dir_def)
  have l: "last_component (path_of (ts @ [t])) = Some t" by (rule last_component_path) (use c in simp)
  have p: "permissions (int k) uid gid s = (True, may_write uid gid (inode_at s k), True)"
    using permissions_eq[OF m k] c by (simp add: may_search_def)
  show thesis using namei_last[of s uid gid ts k t] m c that p l by metis
qed

lemma mknod_refused:
  assumes ok: "fs_ok s" and c: "creatable s uid gid ts t k"
  shows "\<not> may_write uid gid (inode_at s k) \<Longrightarrow> mknod_fs (path_of (ts @ [t])) mode uid gid s = Some (- EACCES, s)"
    "may_write uid gid (inode_at s k) \<Longrightarrow> found t (entries_of s k) \<noteq> 0 \<Longrightarrow>
      mknod_fs (path_of (ts @ [t])) mode uid gid s = Some (- EEXIST, s)"
    "may_write uid gid (inode_at s k) \<Longrightarrow> found t (entries_of s k) = 0 \<Longrightarrow> free_inums s = {} \<Longrightarrow>
      mknod_fs (path_of (ts @ [t])) mode uid gid s = Some (- ENOSPC, s)"
proof -
  obtain index where n: "namei (path_of (ts @ [t])) uid gid s = Some (SUCCESS, int k, found t (entries_of s k), index)"
    "permissions (int k) uid gid s = (True, may_write uid gid (inode_at s k), True)"
    using creatable_namei[OF ok c] by metis
  show "\<not> may_write uid gid (inode_at s k) \<Longrightarrow> mknod_fs (path_of (ts @ [t])) mode uid gid s = Some (- EACCES, s)"
    "may_write uid gid (inode_at s k) \<Longrightarrow> found t (entries_of s k) \<noteq> 0 \<Longrightarrow>
      mknod_fs (path_of (ts @ [t])) mode uid gid s = Some (- EEXIST, s)"
    by (simp_all add: mknod_fs_def n)
  assume w: "may_write uid gid (inode_at s k)" "found t (entries_of s k) = 0" "free_inums s = {}"
  have "\<not> first_free s l" for l using w(3) by (auto simp: first_free_def free_inums_def)
  then have "inode_create (Some (file_inode mode uid gid)) (Some 0) s = (ILIST_FULL, 0, s)"
    using inode_create_frame[OF ok file_inode_empty(1), of mode uid gid 0] by blast
  then show "mknod_fs (path_of (ts @ [t])) mode uid gid s = Some (- ENOSPC, s)"
    using w by (simp add: mknod_fs_def n)
qed

text \<open>The inode of a new file, before its name is entered in the directory.\<close>

lemma mknod_inode:
  assumes ok: "fs_ok s" and d: "is_dir s k" and free: "free_inums s \<noteq> {}"
  obtains n u where "inode_create (Some (file_inode mode uid gid)) (Some 0) s = (SUCCESS, int n, u)" "first_free s n"
    "fs_frame {n} {} s u" "inode_at u n = file_inode mode uid gid" "free_inums u = free_inums s - {n}"
    "free_data u = free_data s" "is_dir u k" "entries_of u k = entries_of s k" "inode_at u k = inode_at s k"
    "n \<noteq> k" "valid_inum s n" "n \<in> free_inums s"
proof -
  obtain n u where u: "inode_create (Some (file_inode mode uid gid)) (Some 0) s = (SUCCESS, int n, u)" "first_free s n"
    "fs_frame {n} {} s u" "inode_at u n = file_inode mode uid gid" "free_inums u = free_inums s - {n}"
    "free_data u = free_data s"
    using inode_create_frame[OF ok file_inode_empty(1), of mode uid gid 0] free by blast
  have n: "n \<in> free_inums s" "valid_inum s n" using u(2) by (simp_all add: first_free_def free_inums_def)
  have k: "k \<notin> free_inums s" "free_data s \<inter> file_set s (inode_at s k) = {}"
    using d file_okD(4)[OF dir_okD(1)] by (auto simp: is_dir_def)
  then have nk: "k \<notin> {n}" "k \<notin> free_inums u" using n u(5) by auto
  from dir_frame[OF d u(3) nk(1) _ _ nk(2)] k(2) u(6)
  show thesis using that u n nk(1) by auto
qed

text \<open>Entering the name of a new inode \<open>n\<close> in the directory, as \<open>mknod_fs\<close> and \<open>mkdir_fs\<close> do.\<close>

lemma enter_name:
  assumes d: "is_dir s k" and m: "mounted s" and n: "n \<noteq> k" "valid_inum s n"
    and u: "fs_frame {n} (free_data s) s u" "free_data u \<subseteq> free_data s" "is_dir u k"
      "entries_of u k = entries_of s k" "inode_at u k = inode_at s k"
    and small: "dir_size (Suc (length (entries_of s k))) < 2 ^ 31"
  obtains r v where "add_dirent (int k) (Some (new_dirent t (int n))) u = Some (r, v)"
    "file_step {k} u (inode_at u k) v (inode_at v k)" "is_dir v k" "inode_at v n = inode_at u n"
    "file_set u (inode_at u k) = file_set s (inode_at s k)"
    "fs_frame {n, k} (free_data s \<union> file_set s (inode_at s k)) s v"
    "r = int sizeof_dirent \<and> entries_of v k = entries_of s k @ [new_dirent t (int n)] \<and>
       same_meta (write_meta (dir_pos (length (entries_of s k))) sizeof_dirent (inode_at s k)) (inode_at v k) \<or>
     r = DATA_FULL \<and> entries_of v k = entries_of s k \<and> inode_at v k = inode_at s k \<and>
       card (free_data v) = card (free_data u) \<and> length (entries_of s k) mod DIRENTS_PER_BLOCK = 0"
proof -
  note fu = fs_frameD[OF u(1)]
  have kn: "valid_inum u k" "dir_ok u (inode_at u k)" "valid_inum u n" "k \<notin> free_inums u"
    using u(3) n(2) fu(6) by (simp_all add: is_dir_def)
  let ?d = "new_dirent t (int n)"
  have dz: "de_inode_num ?d \<noteq> 0" using inum_u32(2)[OF m n(2)] by (simp add: new_dirent_def)
  have len: "length (entries_of s k) = dir_len (inode_at u k)"
    using arg_cong[OF u(4), of length] by (simp add: entries_of_def)
  obtain r v where v: "add_dirent (int k) (Some ?d) u = Some (r, v)"
    "file_step {k} u (inode_at u k) v (inode_at v k)" "dir_ok v (inode_at v k)"
    and rr: "r = int sizeof_dirent \<and> dir_entries v (inode_at v k) = dir_entries u (inode_at u k) @ [?d] \<and>
      same_meta (write_meta (dir_pos (length (entries_of s k))) sizeof_dirent (inode_at u k)) (inode_at v k) \<or>
     r = DATA_FULL \<and> inode_at v k = inode_at u k \<and> card (free_data v) = card (free_data u) \<and> dir_entries v (inode_at v k) = dir_entries u (inode_at u k) \<and>
      length (entries_of s k) mod DIRENTS_PER_BLOCK = 0"
    using add_dirent_spec[OF fu(1) kn(1,2) new_dirent_wf dz len small] by metis
  note dv = file_stepD[OF v(2)]
  have disj: "free_data s \<inter> file_set s (inode_at s k) = {}"
    using d file_okD(4)[OF dir_okD(1)] by (auto simp: is_dir_def)
  then have set: "file_set u (inode_at u k) = file_set s (inode_at s k)"
    unfolding u(5) using d u(1,2) by (intro file_frame(2)[OF dir_okD(1)]) (auto simp: is_dir_def)
  have "fs_frame {n, k} (free_data s \<union> file_set s (inode_at s k)) s v"
    by (rule fs_frame_trans[OF u(1) dv(1)]) (use u(2) in \<open>auto simp: set\<close>)
  moreover have "is_dir v k" using v(3) kn(1,4) dv(3,7) by (simp add: is_dir_def)
  moreover have "inode_at v n = inode_at u n" using fs_frameD(8)[OF dv(1) kn(3)] n(1) by simp
  ultimately show thesis
    using rr u(4,5) by (intro that[OF v(1,2) _ _ set]) (auto simp: entries_of_def)
qed

lemma mknod_spec:
  assumes ok: "fs_ok s" and c: "creatable s uid gid ts t k" and w: "may_write uid gid (inode_at s k)"
    and new: "found t (entries_of s k) = 0" and free: "free_inums s \<noteq> {}"
    and small: "dir_size (Suc (length (entries_of s k))) < 2 ^ 31"
  shows "\<exists>ret n v. mknod_fs (path_of (ts @ [t])) mode uid gid s = Some (ret, v) \<and> first_free s n \<and>
    fs_frame {n, k} (free_data s \<union> file_set s (inode_at s k)) s v \<and> is_dir v k \<and>
    free_data v \<union> file_set v (inode_at v k) = free_data s \<union> file_set s (inode_at s k) \<and>
    (ret = SUCCESS \<and> inode_at v n = file_inode mode uid gid \<and> free_inums v = free_inums s - {n} \<and>
      entries_of v k = entries_of s k @ [new_dirent t (int n)] \<and>
      same_meta (write_meta (dir_pos (length (entries_of s k))) sizeof_dirent (inode_at s k)) (inode_at v k) \<or>
     ret = - ENOSPC \<and> free_inums v = free_inums s \<and> entries_of v k = entries_of s k \<and>
      inode_at v k = inode_at s k \<and> card (free_data v) = card (free_data s) \<and> length (entries_of s k) mod DIRENTS_PER_BLOCK = 0)"
proof -
  obtain index where nm: "namei (path_of (ts @ [t])) uid gid s = Some (SUCCESS, int k, 0, index)"
    "permissions (int k) uid gid s = (True, True, True)" "last_component (path_of (ts @ [t])) = Some t"
    using creatable_namei[OF ok c] w new by metis
  have d: "is_dir s k" and m: "mounted s" using c ok by (simp_all add: creatable_def fs_ok_mounted)
  obtain n u where u: "inode_create (Some (file_inode mode uid gid)) (Some 0) s = (SUCCESS, int n, u)" "first_free s n"
    "fs_frame {n} {} s u" "inode_at u n = file_inode mode uid gid" "free_inums u = free_inums s - {n}"
    "free_data u = free_data s" "is_dir u k" "entries_of u k = entries_of s k" "inode_at u k = inode_at s k"
    "n \<noteq> k" "valid_inum s n" "n \<in> free_inums s"
    using mknod_inode[OF ok d free] by blast
  have fu: "fs_frame {n} (free_data s) s u" using u(3) by (rule fs_frame_mono) auto
  obtain r v where v: "add_dirent (int k) (Some (new_dirent t (int n))) u = Some (r, v)"
    "file_step {k} u (inode_at u k) v (inode_at v k)" "is_dir v k" "inode_at v n = inode_at u n"
    "file_set u (inode_at u k) = file_set s (inode_at s k)"
    "fs_frame {n, k} (free_data s \<union> file_set s (inode_at s k)) s v"
    and rr: "r = int sizeof_dirent \<and> entries_of v k = entries_of s k @ [new_dirent t (int n)] \<and>
       same_meta (write_meta (dir_pos (length (entries_of s k))) sizeof_dirent (inode_at s k)) (inode_at v k) \<or>
     r = DATA_FULL \<and> entries_of v k = entries_of s k \<and> inode_at v k = inode_at s k \<and>
       card (free_data v) = card (free_data u) \<and> length (entries_of s k) mod DIRENTS_PER_BLOCK = 0"
    using enter_name[OF d m u(10,11) fu _ u(7-9) small] u(6) by (metis order_refl)
  note dv = file_stepD[OF v(2)]
  have all: "free_data v \<union> file_set v (inode_at v k) = free_data s \<union> file_set s (inode_at s k)" using dv(2) v(5) u(6) by simp
  from rr show ?thesis
  proof
    assume a: "r = int sizeof_dirent \<and> entries_of v k = entries_of s k @ [new_dirent t (int n)] \<and>
       same_meta (write_meta (dir_pos (length (entries_of s k))) sizeof_dirent (inode_at s k)) (inode_at v k)"
    then have "mknod_fs (path_of (ts @ [t])) mode uid gid s = Some (SUCCESS, v)"
      using nm u(1) v(1) by (simp add: mknod_fs_def c_consts)
    then show ?thesis using a u(2,4,5) v(3,4,6) dv(3) all by auto
  next
    assume a: "r = DATA_FULL \<and> entries_of v k = entries_of s k \<and> inode_at v k = inode_at s k \<and>
       card (free_data v) = card (free_data u) \<and> length (entries_of s k) mod DIRENTS_PER_BLOCK = 0"
    note good = no_pointers_good[OF dv(5) file_inode_empty]
    have vn: "valid_inum v n" using dv(7) fs_frameD(6)[OF fu] u(11) by simp
    obtain x where x: "del (int n) v = Some (SUCCESS, x)" "fs_frame {n} (free_data v) v x"
      "free_data x = free_data v" "free_inums x = insert n (free_inums v)"
      using del_spec[OF dv(5) vn] good(1,2) v(4) u(4) by auto
    have "k \<notin> free_inums x" using x(4) v(3) u(10) by (simp add: is_dir_def)
    from dir_frame[OF v(3) x(2) _ _ _ this] u(10) file_okD(4)[OF dv(4)] x(3)
    have dx: "is_dir x k" "entries_of x k = entries_of v k" "inode_at x k = inode_at v k" by auto
    have "file_set x (inode_at x k) = file_set v (inode_at v k)"
      unfolding dx(3) using file_frame(2)[OF dv(4) x(2)] file_okD(4)[OF dv(4)] x(3) by auto
    then have all': "free_data x \<union> file_set x (inode_at x k) = free_data s \<union> file_set s (inode_at s k)"
      using all x(3) by simp
    have "free_data v \<subseteq> free_data s \<union> file_set s (inode_at s k)" using dv(2) v(5) u(6) by auto
    then have fx: "fs_frame {n, k} (free_data s \<union> file_set s (inode_at s k)) s x"
      by (intro fs_frame_trans[OF v(6) x(2)]) auto
    have "free_inums x = free_inums s" using x(4) dv(3) u(5,12) by auto
    moreover have "mknod_fs (path_of (ts @ [t])) mode uid gid s = Some (- ENOSPC, x)"
      using nm u(1) v(1) a x(1) by (simp add: mknod_fs_def c_consts c_u64_def)
    ultimately show ?thesis using a u(2,6) fx dx x(3) all' by auto
  qed
qed

end
