(* ===== verification/NewDir.thy ===== *)
theory NewDir
  imports NameSpec
begin

text \<open>
  Fresh directories: the block and inode that \<open>create_dir_base\<close> makes form a directory of the two
  entries \<open>.\<close> and \<open>..\<close>, and \<open>mkdir_fs\<close> enters it in its parent.
\<close>

section \<open>A file of one block\<close>

lemma one_block_file:
  assumes wf: "inode_wf ino" and p: "iptr ino 0 = b" "\<forall>p. 0 < p \<and> p < NPTRS \<longrightarrow> iptr ino p = 0"
    and b: "valid_data s b" "b \<notin> free_data s"
  shows "file_ok s ino" "file_full s ino" "file_set s ino = {b}" "file_map s ino 0 = b"
proof -
  have b0: "b \<noteq> 0" using b(1) by (simp add: valid_data_def)
  have l0: "ilvl 0 = 0" by (simp add: ilvl_def)
  have s0: "bm_set (ilvl p) (addr_words s) (iptr ino p) = (if p = 0 then {b} else {})" if "p < NPTRS" for p
    using p that b0 by (cases "p = 0") (simp_all add: l0)
  show set: "file_set s ino = {b}"
    unfolding file_set_def forest_set_def using s0 by (auto split: if_splits simp: c_consts)
  have "bm_ok (ilvl p) (addr_words s) (iptr ino p)" "bm_full (ilvl p) (addr_words s) (iptr ino p)" if "p < NPTRS" for p
    using p that by (cases "p = 0"; simp add: l0)+
  moreover have "disjoint_trees ilvl NPTRS (addr_words s) (iptr ino)" by (simp add: disjoint_trees_def s0)
  ultimately show "file_ok s ino" "file_full s ino"
    using set wf b by (simp_all add: file_ok_def forest_ok_def file_full_def)
  show "file_map s ino 0 = b" using p(1) by (simp add: file_map_def fslot_def ilvl_def foff_def)
qed

section \<open>The directory made by create_dir_base\<close>

lemma dir_inode_fields:
  assumes "b < 2 ^ 32"
  shows "iptr (dir_inode mode uid gid (int b)) 0 = b"
    "\<forall>p. 0 < p \<and> p < NPTRS \<longrightarrow> iptr (dir_inode mode uid gid (int b)) p = 0"
    "file_size (dir_inode mode uid gid (int b)) = dir_size 2" "dir_len (dir_inode mode uid gid (int b)) = 2"
proof -
  have z: "length (i_direct_blocks zero_inode) = NUM_DIRECT" using inode_wf_zero by (simp add: inode_wf_def)
  have u: "unat (word_of_nat b :: u32) = b" using assms by (simp add: unat_u32_of_nat)
  show "iptr (dir_inode mode uid gid (int b)) 0 = b"
    using z u by (simp add: iptr_def dir_inode_def c_consts)
  have "iptr (dir_inode mode uid gid (int b)) p = iptr zero_inode p" if "0 < p" for p
    using that by (simp add: iptr_def dir_inode_def)
  then show "\<forall>p. 0 < p \<and> p < NPTRS \<longrightarrow> iptr (dir_inode mode uid gid (int b)) p = 0" by simp
  show sz: "file_size (dir_inode mode uid gid (int b)) = dir_size 2"
    by (simp add: file_size_def dir_inode_def dir_size_def dir_pos_def c_consts)
  show "dir_len (dir_inode mode uid gid (int b)) = 2" using dir_len_size[OF _ sz] by simp
qed

lemma dir_inode_mode: "mode AND 0x3000 = 0 \<Longrightarrow> S_ISDIR (i_mode (dir_inode mode uid gid b))"
proof -
  assume m: "mode AND 0x3000 = 0"
  have "((S_IFDIR OR mode) AND (0xffff XOR S_IFREG)) AND S_IFMT = (S_IFDIR OR mode) AND (0x3000 OR S_IFDIR)"
    unfolding and.assoc by (simp add: S_IFDIR_def S_IFREG_def S_IFMT_def)
  also have "\<dots> = (S_IFDIR AND 0x3000 OR mode AND 0x3000) OR (S_IFDIR OR mode) AND S_IFDIR"
    by (simp only: bit.conj_disj_distrib bit.conj_disj_distrib2)
  also have "(S_IFDIR OR mode) AND S_IFDIR = S_IFDIR" by (rule bit_eqI) (auto simp: bit_and_iff bit_or_iff)
  also have "S_IFDIR AND 0x3000 = 0" by (simp add: S_IFDIR_def)
  also have "(0 OR mode AND 0x3000) OR S_IFDIR = S_IFDIR" using m by simp
  finally show ?thesis by (simp add: S_ISDIR_def dir_inode_def)
qed

lemma block_entry:
  assumes "file_map s ino 0 = b" "b \<noteq> 0" "i < DIRENTS_PER_BLOCK" "is_block (data_blk s b)"
  shows "dir_entry s ino i = dirent_at (data_blk s b) i"
proof -
  have p: "dir_pos i = i * sizeof_dirent" using dir_pos_block(1)[of i 0 i] assms(3) by simp
  have "file_bytes s ino (i * sizeof_dirent) sizeof_dirent = window (i * sizeof_dirent) sizeof_dirent (data_blk s b)"
  proof (rule nth_equalityI)
    have e: "i * sizeof_dirent + sizeof_dirent \<le> BLOCK_SIZE" using assms(3) by (rule dirent_fits)
    then show "length (file_bytes s ino (i * sizeof_dirent) sizeof_dirent) =
        length (window (i * sizeof_dirent) sizeof_dirent (data_blk s b))"
      using assms(4) by (simp add: is_block_def)
    fix j assume "j < length (file_bytes s ino (i * sizeof_dirent) sizeof_dirent)"
    then have j: "j < sizeof_dirent" "i * sizeof_dirent + j < BLOCK_SIZE" using e by simp_all
    then show "file_bytes s ino (i * sizeof_dirent) sizeof_dirent ! j =
        window (i * sizeof_dirent) sizeof_dirent (data_blk s b) ! j"
      using assms(1,2,4) by (simp add: file_byte_def file_blk_def nth_window is_block_def)
  qed
  then show ?thesis by (simp add: dir_entry_def dirent_at_def p)
qed

text \<open>What a fresh directory of inode \<open>n\<close> in \<open>parent\<close> holds.\<close>

definition base_entries :: "nat \<Rightarrow> int \<Rightarrow> dir_ent list \<Rightarrow> bool" where
  "base_entries n parent es \<longleftrightarrow> (\<exists>d dd. es = [d, dd] \<and> cstr (de_name d) = DOT \<and> cstr (de_name dd) = DOT_DOT \<and>
    de_inode_num d = word_of_nat n \<and> de_inode_num dd = (if parent = 0 then word_of_nat n else word_of_int parent))"

lemma base_dir:
  assumes b: "valid_data s b" "b \<notin> free_data s" "b < 2 ^ 32" and d: "dir_base_block n parent (data_blk s b)"
    and ino: "ino = dir_inode mode uid gid (int b)" and mode: "mode AND 0x3000 = 0"
    and n: "(word_of_nat n :: u32) \<noteq> 0" "parent = 0 \<or> (word_of_int parent :: u32) \<noteq> 0"
  shows "dir_ok s ino" "file_set s ino = {b}" "base_entries n parent (dir_entries s ino)"
proof -
  note i = dir_inode_fields[OF b(3), of mode uid gid, folded ino]
  have wf: "inode_wf ino" by (simp add: ino)
  note f = one_block_file[OF wf i(1,2) b(1,2)]
  show "file_set s ino = {b}" by (rule f(3))
  have b0: "b \<noteq> 0" using b(1) by (simp add: valid_data_def)
  have bl: "is_block (data_blk s b)" using d by (simp add: dir_base_block_def)
  have "dir_entries s ino = [dir_entry s ino 0, dir_entry s ino 1]"
    by (simp add: dir_entries_def i(4) numeral_2_eq_2)
  then have es: "dir_entries s ino = [dirent_at (data_blk s b) 0, dirent_at (data_blk s b) 1]"
    using block_entry[OF f(4) b0 _ bl] by (simp add: c_consts)
  show be: "base_entries n parent (dir_entries s ino)" using d by (simp add: base_entries_def es dir_base_block_def)
  have "file_size ino < 2 ^ 31" unfolding i(3) by (simp add: dir_size_def dir_pos_def c_consts)
  moreover have "\<forall>e \<in> set (dir_entries s ino). de_inode_num e \<noteq> 0"
    using be n by (cases "parent = 0") (auto simp: base_entries_def)
  ultimately show "dir_ok s ino"
    using f(1,2) i(3,4) dir_inode_mode[OF mode, of uid gid "int b"] by (simp add: dir_ok_def ino)
qed

section \<open>The root directory that mkfs makes\<close>

lemma S_IRWXUGO_mode: "S_IRWXUGO AND 0x3000 = 0"
  by (simp add: S_IRWXUGO_def)

lemma fresh_root:
  assumes m: "mounted s" and b: "valid_data s b" "b \<notin> free_data s" and d: "dir_base_block 1 0 (data_blk s b)"
    and i: "inode_at s 1 = dir_inode S_IRWXUGO 0 0 (int b)" and r: "valid_inum s 1" "1 \<notin> free_inums s"
  shows "is_dir s 1" "base_entries 1 0 (entries_of s 1)" "file_set s (inode_at s 1) = {b}"
    "length (entries_of s 1) = 2" "may_search s 0 0 1" "may_write 0 0 (inode_at s 1)"
    "file_size (inode_at s 1) = dir_size 2"
    "is_component t \<Longrightarrow> valid_name t \<Longrightarrow> creatable s 0 0 [] t 1"
    "t \<noteq> DOT \<Longrightarrow> t \<noteq> DOT_DOT \<Longrightarrow> dir_find t (entries_of s 1) = None"
proof -
  have b32: "b < 2 ^ 32" using valid_data_range(4)[OF m b(1)] by simp
  note bd = base_dir[OF b b32 d i S_IRWXUGO_mode]
  show dir: "is_dir s 1" using bd(1) r by (simp add: is_dir_def)
  show e: "base_entries 1 0 (entries_of s 1)" using bd(3) by (simp add: entries_of_def)
  show "file_set s (inode_at s 1) = {b}" using bd(2) by simp
  show "length (entries_of s 1) = 2" using e by (auto simp: base_entries_def)
  show "file_size (inode_at s 1) = dir_size 2" unfolding i by (rule dir_inode_fields(3)[OF b32])
  have "i_mode (inode_at s 1) = 0x41ff" "i_uid (inode_at s 1) = 0"
    unfolding i by (simp_all add: dir_inode_def S_IRWXUGO_def S_IFDIR_def S_IFREG_def)
  then show p: "may_search s 0 0 1" "may_write 0 0 (inode_at s 1)"
    by (simp_all add: may_search_def may_read_def may_write_def may_exec_def granted_def has_def
        S_IRUSR_def S_IWUSR_def S_IXUSR_def)
  show "is_component t \<Longrightarrow> valid_name t \<Longrightarrow> creatable s 0 0 [] t 1"
    using dir p(1) by (simp add: creatable_def walk.here)
  show "t \<noteq> DOT \<Longrightarrow> t \<noteq> DOT_DOT \<Longrightarrow> dir_find t (entries_of s 1) = None"
    using e by (auto simp: base_entries_def dir_find_def has_name_def)
qed

section \<open>mkdir\<close>

lemma mkdir_refused:
  assumes ok: "fs_ok s" and c: "creatable s uid gid ts t k"
  shows "\<not> may_write uid gid (inode_at s k) \<Longrightarrow> mkdir_fs (path_of (ts @ [t])) mode uid gid s = Some (- EACCES, s)"
    "may_write uid gid (inode_at s k) \<Longrightarrow> found t (entries_of s k) \<noteq> 0 \<Longrightarrow>
      mkdir_fs (path_of (ts @ [t])) mode uid gid s = Some (- EEXIST, s)"
    "may_write uid gid (inode_at s k) \<Longrightarrow> found t (entries_of s k) = 0 \<Longrightarrow> free_inums s = {} \<or> free_data s = {} \<Longrightarrow>
      \<exists>u. mkdir_fs (path_of (ts @ [t])) mode uid gid s = Some (- ENOSPC, u) \<and>
        free_inums u = free_inums s \<and> free_data u = free_data s \<and> fs_frame (free_inums s) {} s u"
proof -
  obtain index where n: "namei (path_of (ts @ [t])) uid gid s = Some (SUCCESS, int k, found t (entries_of s k), index)"
    "permissions (int k) uid gid s = (True, may_write uid gid (inode_at s k), True)"
    using creatable_namei[OF ok c] by metis
  show "\<not> may_write uid gid (inode_at s k) \<Longrightarrow> mkdir_fs (path_of (ts @ [t])) mode uid gid s = Some (- EACCES, s)"
    "may_write uid gid (inode_at s k) \<Longrightarrow> found t (entries_of s k) \<noteq> 0 \<Longrightarrow>
      mkdir_fs (path_of (ts @ [t])) mode uid gid s = Some (- EEXIST, s)"
    by (simp_all add: mkdir_fs_def n)
  assume w: "may_write uid gid (inode_at s k)" "found t (entries_of s k) = 0" "free_inums s = {} \<or> free_data s = {}"
  obtain r u where u: "create_dir_base 0 mode uid gid (int k) s = (r, 0, u)" "r \<noteq> SUCCESS"
    "free_inums u = free_inums s" "free_data u = free_data s" "fs_frame (free_inums s) {} s u"
  proof -
    consider (full) u where "create_dir_base 0 mode uid gid (int k) s = (ILIST_FULL, 0, u)"
        "fs_frame {} {} s u" "free_inums u = free_inums s" "free_data u = free_data s"
      | (data) n u where "create_dir_base 0 mode uid gid (int k) s = (DATA_FULL, 0, u)" "first_free s n"
        "fs_frame {n} {} s u" "free_inums u = free_inums s" "free_data u = free_data s"
      using create_dir_base_spec[OF ok, of 0 mode uid gid "int k"] w(3)
      by (auto simp: first_free_def free_inums_def)
    then show thesis
    proof cases
      case full
      then show thesis using fs_frame_mono[OF full(2), of "free_inums s" "{}"] by (intro that[of ILIST_FULL u]) (simp_all add: c_consts)
    next
      case data
      then have "{n} \<subseteq> free_inums s" by (simp add: first_free_def free_inums_def)
      then show thesis using data fs_frame_mono[OF data(3), of "free_inums s" "{}"] by (intro that[of DATA_FULL u]) (simp_all add: c_consts)
    qed
  qed
  then have "mkdir_fs (path_of (ts @ [t])) mode uid gid s = Some (- ENOSPC, u)"
    using w by (simp add: mkdir_fs_def n)
  then show "\<exists>u. mkdir_fs (path_of (ts @ [t])) mode uid gid s = Some (- ENOSPC, u) \<and>
        free_inums u = free_inums s \<and> free_data u = free_data s \<and> fs_frame (free_inums s) {} s u"
    using u(3-5) by blast
qed

text \<open>The new directory before its name is entered in the parent.\<close>

lemma mkdir_inode:
  assumes ok: "fs_ok s" and d: "is_dir s k" and free: "free_inums s \<noteq> {}" "free_data s \<noteq> {}"
    and mode: "mode AND 0x3000 = 0"
  obtains n b u where "create_dir_base 0 mode uid gid (int k) s = (SUCCESS, int n, u)" "first_free s n" "b \<in> free_data s"
    "fs_frame {n} (free_data s) s u" "free_inums u = free_inums s - {n}" "free_data u = free_data s - {b}"
    "is_dir u k" "entries_of u k = entries_of s k" "inode_at u k = inode_at s k" "is_dir u n"
    "base_entries n (int k) (entries_of u n)" "file_set u (inode_at u n) = {b}" "n \<noteq> k" "n \<in> free_inums s"
proof -
  obtain n b u where u: "create_dir_base 0 mode uid gid (int k) s = (SUCCESS, int n, u)" "first_free s n" "b \<in> free_data s"
    "fs_frame {n} (free_data s) s u" "inode_at u n = dir_inode mode uid gid (int b)" "dir_base_block n (int k) (data_blk u b)"
    "free_inums u = free_inums s - {n}" "free_data u = free_data s - {b}"
    using create_dir_base_spec[OF ok, of 0 mode uid gid "int k"] free by auto
  have m: "mounted s" using ok by (rule fs_ok_mounted)
  note fu = fs_frameD[OF u(4)]
  have n: "n \<in> free_inums s" "valid_inum s n" using u(2) by (simp_all add: first_free_def free_inums_def)
  have k: "k \<notin> free_inums s" "free_data s \<inter> file_set s (inode_at s k) = {}" "valid_inum s k"
    using d file_okD(4)[OF dir_okD(1)] by (auto simp: is_dir_def)
  then have nk: "k \<notin> {n}" "k \<notin> free_inums u" using n u(7) by auto
  have du: "is_dir u k" "entries_of u k = entries_of s k" "inode_at u k = inode_at s k"
    using dir_frame[OF d u(4) nk(1) _ _ nk(2)] k(2) u(8) by auto
  have vb: "valid_data s b" using free_data_valid[OF ok u(3)] .
  then have b: "valid_data u b" "b \<notin> free_data u" "b < 2 ^ 32"
    using u(8) fu(7) valid_data_range[OF m vb] by auto
  have nz: "(word_of_nat n :: u32) \<noteq> 0" "(word_of_int (int k) :: u32) \<noteq> 0"
    using inum_u32(2)[OF m n(2)] inum_u32(2)[OF m k(3)] by simp_all
  have bd: "dir_ok u (inode_at u n)" "file_set u (inode_at u n) = {b}" "base_entries n (int k) (dir_entries u (inode_at u n))"
    using base_dir[OF b u(6) u(5) mode nz(1)] nz(2) by simp_all
  have "is_dir u n" using bd(1) fu(6) n(2) u(7) by (simp add: is_dir_def)
  then show thesis using that u(1-4,7,8) du bd(2,3) nk(1) n(1) unfolding entries_of_def by auto
qed

text \<open>
  When the parent needs a further block for the name and there is none, the new directory is deleted again.
  Its inode is free, but its block, which is the only one that may be lost, is not given back if the bytes
  after its entries are not zero.
\<close>

lemma mkdir_undone:
  assumes v: "fs_frame {n, k} B s v" "is_dir v k" "is_dir v n" and n: "n \<noteq> k"
    and b: "file_set v (inode_at v n) = {b}" "b \<notin> file_set v (inode_at v k)" "b \<in> B" "free_data v \<subseteq> B"
  shows "\<exists>x. del (int n) v = Some (SUCCESS, x) \<and> fs_frame {n, k} B s x \<and> is_dir x k \<and> entries_of x k = entries_of v k \<and>
    inode_at x k = inode_at v k \<and> free_inums x = insert n (free_inums v) \<and> free_data x \<subseteq> B \<and>
    card (free_data v) \<le> card (free_data x)"
proof -
  have vn: "valid_inum v n" "dir_ok v (inode_at v n)" and vk: "dir_ok v (inode_at v k)" "k \<notin> free_inums v"
    using v(2,3) by (simp_all add: is_dir_def)
  obtain x where x: "del (int n) v = Some (SUCCESS, x)" "fs_frame {n} (free_data v \<union> {b}) v x"
    "free_data x \<subseteq> free_data v \<union> {b}" "card (free_data v) \<le> card (free_data x)" "free_inums x = insert n (free_inums v)"
    using del_any[OF fs_frameD(1)[OF v(1)] vn(1) dir_okD(1,2,4)[OF vn(2)]] unfolding b(1) by blast
  have disj: "(free_data v \<union> {b}) \<inter> file_set v (inode_at v k) = {}" using file_okD(4)[OF dir_okD(1)[OF vk(1)]] b(2) by auto
  have "free_data x \<inter> file_set v (inode_at v k) = {}" "k \<notin> free_inums x" using x(3,5) disj vk(2) n by auto
  from dir_frame[OF v(2) x(2) _ disj this] n
  have "is_dir x k" "entries_of x k = entries_of v k" "inode_at x k = inode_at v k" by simp_all
  moreover have "fs_frame {n, k} B s x" by (rule fs_frame_trans[OF v(1) x(2)]) (use b(3,4) in auto)
  moreover have "free_data x \<subseteq> B" using x(3) b(3,4) by auto
  ultimately show ?thesis using x(1,4,5) by blast
qed

lemma mkdir_spec:
  assumes ok: "fs_ok s" and c: "creatable s uid gid ts t k" and w: "may_write uid gid (inode_at s k)"
    and new: "found t (entries_of s k) = 0" and free: "free_inums s \<noteq> {}" "free_data s \<noteq> {}"
    and small: "dir_size (Suc (length (entries_of s k))) < 2 ^ 31" and mode: "mode AND 0x3000 = 0"
  shows "\<exists>ret n v. mkdir_fs (path_of (ts @ [t])) mode uid gid s = Some (ret, v) \<and> first_free s n \<and>
    fs_frame {n, k} (free_data s \<union> file_set s (inode_at s k)) s v \<and> is_dir v k \<and>
    (ret = SUCCESS \<and> is_dir v n \<and>
      free_inums v = free_inums s - {n} \<and> entries_of v k = entries_of s k @ [new_dirent t (int n)] \<and>
      base_entries n (int k) (entries_of v n) \<and>
      free_data v \<union> file_set v (inode_at v k) \<union> file_set v (inode_at v n) = free_data s \<union> file_set s (inode_at s k) \<and>
      file_set v (inode_at v k) \<inter> file_set v (inode_at v n) = {} \<and>
      same_meta (write_meta (dir_pos (length (entries_of s k))) sizeof_dirent (inode_at s k)) (inode_at v k) \<or>
     ret = - ENOSPC \<and> length (entries_of s k) mod DIRENTS_PER_BLOCK = 0 \<and> free_inums v = free_inums s \<and>
      entries_of v k = entries_of s k \<and> inode_at v k = inode_at s k \<and>
      free_data v \<subseteq> free_data s \<union> file_set s (inode_at s k) \<and> card (free_data s) \<le> Suc (card (free_data v)))"
proof -
  obtain index where nm: "namei (path_of (ts @ [t])) uid gid s = Some (SUCCESS, int k, 0, index)"
    "permissions (int k) uid gid s = (True, True, True)" "last_component (path_of (ts @ [t])) = Some t"
    using creatable_namei[OF ok c] w new by metis
  have d: "is_dir s k" and m: "mounted s" using c ok by (simp_all add: creatable_def fs_ok_mounted)
  obtain n b u where u: "create_dir_base 0 mode uid gid (int k) s = (SUCCESS, int n, u)" "first_free s n" "b \<in> free_data s"
    "fs_frame {n} (free_data s) s u" "free_inums u = free_inums s - {n}" "free_data u = free_data s - {b}"
    "is_dir u k" "entries_of u k = entries_of s k" "inode_at u k = inode_at s k" "is_dir u n"
    "base_entries n (int k) (entries_of u n)" "file_set u (inode_at u n) = {b}" "n \<noteq> k" "n \<in> free_inums s"
    by (rule mkdir_inode[OF ok d free mode])
  have n: "valid_inum s n" using u(14) by (simp add: free_inums_def)
  have sub: "free_data u \<subseteq> free_data s" using u(6) by auto
  obtain r v where v: "add_dirent (int k) (Some (new_dirent t (int n))) u = Some (r, v)"
    "file_step {k} u (inode_at u k) v (inode_at v k)" "is_dir v k"
    "file_set u (inode_at u k) = file_set s (inode_at s k)"
    "fs_frame {n, k} (free_data s \<union> file_set s (inode_at s k)) s v"
    and rr: "r = int sizeof_dirent \<and> entries_of v k = entries_of s k @ [new_dirent t (int n)] \<and>
       same_meta (write_meta (dir_pos (length (entries_of s k))) sizeof_dirent (inode_at s k)) (inode_at v k) \<or>
     r = DATA_FULL \<and> entries_of v k = entries_of s k \<and> inode_at v k = inode_at s k \<and>
       card (free_data v) = card (free_data u) \<and> length (entries_of s k) mod DIRENTS_PER_BLOCK = 0"
    by (rule enter_name[OF d m u(13) n u(4) sub u(7-9) small])
  note dv = file_stepD[OF v(2)]
  have "file_set s (inode_at s k) \<inter> free_data s = {}"
    using d file_okD(4)[OF dir_okD(1), of s "inode_at s k"] by (simp add: is_dir_def)
  then have bk: "b \<notin> free_data u \<union> file_set u (inode_at u k)" using u(3,6) v(4) by auto
  moreover have "n \<notin> free_inums v" using dv(3) u(5) by simp
  ultimately have vn: "is_dir v n" "entries_of v n = entries_of u n" "inode_at v n = inode_at u n"
    using dir_frame[OF u(10) dv(1), unfolded u(12)] u(13) dv(2) by auto
  have "dir_ok u (inode_at u n)" using u(10) by (simp add: is_dir_def)
  from file_frame(2)[OF dir_okD(1)[OF this] dv(1)] bk dv(2) have bs: "file_set v (inode_at v n) = {b}"
    unfolding vn(3) u(12) by blast
  have bv: "b \<notin> file_set v (inode_at v k)" "free_data v \<subseteq> free_data s \<union> file_set s (inode_at s k)"
    using bk dv(2) u(6) v(4) by auto
  from rr show ?thesis
  proof
    assume a: "r = int sizeof_dirent \<and> entries_of v k = entries_of s k @ [new_dirent t (int n)] \<and>
       same_meta (write_meta (dir_pos (length (entries_of s k))) sizeof_dirent (inode_at s k)) (inode_at v k)"
    have "free_data v \<union> file_set v (inode_at v k) \<union> file_set v (inode_at v n) = free_data s \<union> file_set s (inode_at s k)"
      "file_set v (inode_at v k) \<inter> file_set v (inode_at v n) = {}"
      using dv(2) v(4) u(3,6) bk unfolding bs by auto
    moreover have "mkdir_fs (path_of (ts @ [t])) mode uid gid s = Some (SUCCESS, v)"
      using nm u(1) v(1) a by (simp add: mkdir_fs_def c_consts)
    moreover have "free_inums v = free_inums s - {n}" using dv(3) u(5) by simp
    ultimately show ?thesis using u(2,11) v(3,5) a vn(1,2) by auto
  next
    assume a: "r = DATA_FULL \<and> entries_of v k = entries_of s k \<and> inode_at v k = inode_at s k \<and>
       card (free_data v) = card (free_data u) \<and> length (entries_of s k) mod DIRENTS_PER_BLOCK = 0"
    obtain x where x: "del (int n) v = Some (SUCCESS, x)" "fs_frame {n, k} (free_data s \<union> file_set s (inode_at s k)) s x"
      "is_dir x k" "entries_of x k = entries_of v k" "inode_at x k = inode_at v k" "free_inums x = insert n (free_inums v)"
      "free_data x \<subseteq> free_data s \<union> file_set s (inode_at s k)" "card (free_data v) \<le> card (free_data x)"
      using mkdir_undone[OF v(5,3) vn(1) u(13) bs bv(1) _ bv(2)] u(3) by blast
    have "finite (free_data s)" by (simp add: free_data_def)
    then have "card (free_data s) \<le> Suc (card (free_data x))" using a x(8) u(3,6) by simp
    moreover have "free_inums x = free_inums s" using x(6) dv(3) u(5,14) by auto
    moreover have "mkdir_fs (path_of (ts @ [t])) mode uid gid s = Some (- ENOSPC, x)"
      using nm u(1) v(1) a x(1) by (simp add: mkdir_fs_def c_consts c_u64_def)
    ultimately show ?thesis using a u(2) x(2-5,7) by auto
  qed
qed

section \<open>The new name is found\<close>

lemma sint_0_word: "sint w = 0 \<longleftrightarrow> (w :: u32) = 0"
  by (rule signed_eq_0_iff)

lemma found_0:
  assumes "dir_ok s ino"
  shows "found t (dir_entries s ino) = 0 \<longleftrightarrow> dir_find t (dir_entries s ino) = None"
proof (cases "dir_find t (dir_entries s ino)")
  case (Some i)
  then have "dir_entries s ino ! i \<in> set (dir_entries s ino)"
    using first_index_lt[of "has_name t" "dir_entries s ino" i] by (intro nth_mem) (simp add: dir_find_def)
  then have "de_inode_num (dir_entries s ino ! i) \<noteq> 0" using dir_okD(7)[OF assms] by blast
  then show ?thesis using Some sint_0_word[of "de_inode_num (dir_entries s ino ! i)"] by (simp add: found_def)
qed (simp add: found_def)

lemma found_new:
  assumes "mounted s" "valid_inum s n" "valid_name t" "is_dir s k" "found t (entries_of s k) = 0"
  shows "found t (entries_of s k @ [new_dirent t (int n)]) = int n"
    "dir_find t' (entries_of s k @ [new_dirent t (int n)]) = Some i \<Longrightarrow> t' \<noteq> t \<Longrightarrow> dir_find t' (entries_of s k) = Some i"
proof -
  have none: "dir_find t (entries_of s k) = None"
    using found_0[of s "inode_at s k" t] assms(4,5) by (simp add: is_dir_def entries_of_def)
  then show "found t (entries_of s k @ [new_dirent t (int n)]) = int n"
    using has_name_new[OF assms(3), of t n] inum_u32(1)[OF assms(1,2)]
    by (simp add: found_def dir_find_def first_index_append nth_append new_dirent_def)
  show "dir_find t' (entries_of s k @ [new_dirent t (int n)]) = Some i \<Longrightarrow> t' \<noteq> t \<Longrightarrow> dir_find t' (entries_of s k) = Some i"
    using has_name_new[OF assms(3), of t' n] by (auto simp: dir_find_def first_index_append split: option.splits)
qed

lemma has_write_meta:
  assumes "flag AND (0xffff XOR (S_ISUID OR S_ISGID)) = flag"
  shows "has flag (write_meta a n ino) = has flag ino"
proof -
  have "flag AND (i_mode ino AND (0xffff XOR (S_ISUID OR S_ISGID))) = flag AND i_mode ino"
    using arg_cong[OF assms, of "\<lambda>w. w AND i_mode ino"] by (simp only: ac_simps)
  then show ?thesis by (simp add: has_def write_meta_def)
qed

lemma granted_write_meta:
  "may_read uid gid (write_meta a n ino) = may_read uid gid ino"
  "may_write uid gid (write_meta a n ino) = may_write uid gid ino"
  "may_exec uid gid (write_meta a n ino) = may_exec uid gid ino"
proof -
  note masks = S_ISUID_def S_ISGID_def S_IRUSR_def S_IRGRP_def S_IROTH_def S_IWUSR_def S_IWGRP_def S_IWOTH_def
    S_IXUSR_def S_IXGRP_def S_IXOTH_def
  have o: "i_uid (write_meta a n ino) = i_uid ino" "i_gid (write_meta a n ino) = i_gid ino"
    by (simp_all add: write_meta_def)
  show "may_read uid gid (write_meta a n ino) = may_read uid gid ino"
    "may_write uid gid (write_meta a n ino) = may_write uid gid ino"
    "may_exec uid gid (write_meta a n ino) = may_exec uid gid ino"
    unfolding may_read_def may_write_def may_exec_def granted_def o
    by (subst (1 2 3) has_write_meta; simp add: masks)+
qed

lemma same_meta_granted:
  assumes "same_meta i j"
  shows "may_read uid gid j = may_read uid gid i" "may_write uid gid j = may_write uid gid i"
    "may_exec uid gid j = may_exec uid gid i"
  using assms by (simp_all add: may_read_def may_write_def may_exec_def granted_def same_meta_def has_def)

lemma may_search_meta:
  "same_meta (write_meta a n (inode_at s k)) (inode_at v k) \<Longrightarrow> may_search v uid gid k = may_search s uid gid k"
  by (simp add: may_search_def same_meta_granted granted_write_meta)

lemma walk_new:
  assumes "mounted s" "valid_inum s n" "valid_name t" "is_dir s k" "found t (entries_of s k) = 0" "may_search s uid gid k"
    and "is_dir v k" "entries_of v k = entries_of s k @ [new_dirent t (int n)]"
    "same_meta (write_meta a q (inode_at s k)) (inode_at v k)"
  shows "walk v uid gid k [t] n"
proof -
  have n0: "n \<noteq> 0" using assms(2) by (simp add: valid_inum_def)
  have f: "found t (entries_of v k) = int n" using found_new(1)[OF assms(1-5)] assms(8) by simp
  then obtain i where i: "dir_find t (entries_of v k) = Some i" "sint (de_inode_num (entries_of v k ! i)) = int n"
    using n0 by (auto simp: found_def split: option.splits)
  have "may_search v uid gid k" using may_search_meta[OF assms(9)] assms(6) by simp
  then show ?thesis using walk.down[OF assms(7) _ assms(3) i n0 walk.here] by blast
qed

end
