(* ===== verification/OpenFiles.thy ===== *)
theory OpenFiles
  imports FileWrite
begin

text \<open>
  The open file table of \<open>src/layer2.c\<close>: \<open>oft_inodes\<close> counts the references of every open inode and
  remembers that it is to be deleted, \<open>oft_fds\<close> maps a descriptor to its inode and flags.  The
  arrays are lists, \<open>oft_inodes_size\<close> and \<open>oft_fds_size\<close> their lengths; \<open>realloc\<close> is assumed not to
  fail.  The counters do not overflow before \<open>2 ^ 31\<close> descriptors are open.
\<close>

section \<open>State and operations\<close>

record oft_inode =
  on_inum :: int
  on_ref :: int
  on_pending_deletion :: bool

record oft_fd =
  of_fd :: int
  of_inum :: int
  of_flags :: int

record layer2 =
  files :: layer1
  oft_inodes :: "oft_inode list"
  oft_fds :: "oft_fd list"

definition MIN_FD :: int where "MIN_FD = 10"

primrec oft_count :: "int \<Rightarrow> oft_inode list \<Rightarrow> oft_inode list \<times> bool" where
  "oft_count inode [] = ([], False)"
| "oft_count inode (n # ns) =
    (if on_inum n = inode then (n\<lparr>on_ref := on_ref n + 1\<rparr> # ns, True)
     else (let (ns', already_exists) = oft_count inode ns in (n # ns', already_exists)))"

primrec fd_good :: "int \<Rightarrow> oft_fd list \<Rightarrow> bool" where
  "fd_good fd [] = True"
| "fd_good fd (f # fs) = (if of_fd f = fd then False else fd_good fd fs)"

lemma fd_good_iff [simp]: "fd_good fd fs \<longleftrightarrow> fd \<notin> of_fd ` set fs"
  by (induction fs) auto

text \<open>The loop \<open>for (fd = MIN_FD;; fd++)\<close> has no bound; it ends because the table is finite.\<close>

function find_fd :: "int \<Rightarrow> oft_fd list \<Rightarrow> int" where
  "find_fd fd fds = (if fd_good fd fds then fd else find_fd (fd + 1) fds)"
  by pat_completeness auto

lemma fewer_above:
  assumes "finite (A :: int set)" "a \<in> A"
  shows "card {x \<in> A. a + 1 \<le> x} < card {x \<in> A. a \<le> x}"
proof (rule psubset_card_mono)
  have "a \<in> {x \<in> A. a \<le> x}" "a \<notin> {x \<in> A. a + 1 \<le> x}" using assms by auto
  moreover have "{x \<in> A. a + 1 \<le> x} \<subseteq> {x \<in> A. a \<le> x}" by auto
  ultimately show "{x \<in> A. a + 1 \<le> x} \<subset> {x \<in> A. a \<le> x}" by blast
qed (use assms in simp)

termination find_fd
  by (relation "measure (\<lambda>(fd, fds). card {x \<in> of_fd ` set fds. fd \<le> x})")
    (simp_all del: set_map add: fewer_above)

declare find_fd.simps [simp del]

definition oft_add :: "int \<Rightarrow> int \<Rightarrow> layer2 \<Rightarrow> int \<times> layer2" where
  "oft_add inode flags s =
    (let (ns, already_exists) = oft_count inode (oft_inodes s);
         ns = (if already_exists then ns
               else ns @ [\<lparr>on_inum = inode, on_ref = 1, on_pending_deletion = False\<rparr>]);
         fd = find_fd MIN_FD (oft_fds s)
     in (fd, s\<lparr>oft_inodes := ns,
               oft_fds := oft_fds s @ [\<lparr>of_fd = fd, of_inum = inode, of_flags = flags\<rparr>]\<rparr>))"

text \<open>
  The first loop of \<open>oft_remove\<close> does not stop at a hit: the entries behind it move back by one and
  the next index is read, so the entry after a hit is skipped.
\<close>

fun remove_fds :: "int \<Rightarrow> int \<Rightarrow> oft_fd list \<Rightarrow> int \<times> oft_fd list" where
  "remove_fds fd inode [] = (inode, [])"
| "remove_fds fd inode [f] = (if of_fd f = fd then (of_inum f, []) else (inode, [f]))"
| "remove_fds fd inode (f # g # fs) =
    (if of_fd f = fd then (let (inode, fs) = remove_fds fd (of_inum f) fs in (inode, g # fs))
     else (let (inode, fs) = remove_fds fd inode (g # fs) in (inode, f # fs)))"

text \<open>
  The second loop: \<open>None\<close> when the inode has no entry, otherwise the new table and whether the inode
  is to be deleted.
\<close>

primrec release_inode :: "int \<Rightarrow> oft_inode list \<Rightarrow> (oft_inode list \<times> bool) option" where
  "release_inode inode [] = None"
| "release_inode inode (n # ns) =
    (if on_inum n = inode then
       (let n = n\<lparr>on_ref := on_ref n - 1\<rparr> in
        if on_ref n = 0 then Some (ns, on_pending_deletion n) else Some (n # ns, False))
     else map_option (\<lambda>(ns, d). (n # ns, d)) (release_inode inode ns))"

definition oft_remove :: "int \<Rightarrow> layer2 \<Rightarrow> (bool \<times> layer2) option" where
  "oft_remove fd s =
    (let (inode, fds) = remove_fds fd (- 1) (oft_fds s); s = s\<lparr>oft_fds := fds\<rparr> in
     if inode = - 1 then Some (False, s)
     else case release_inode inode (oft_inodes s) of
       None \<Rightarrow> Some (False, s)
     | Some (ns, delete) \<Rightarrow>
         if delete then
           (case del inode (files s) of
              None \<Rightarrow> None
            | Some (_, t) \<Rightarrow> Some (True, s\<lparr>files := t, oft_inodes := ns\<rparr>))
         else Some (True, s\<lparr>oft_inodes := ns\<rparr>))"

primrec mark_pending :: "int \<Rightarrow> oft_inode list \<Rightarrow> oft_inode list option" where
  "mark_pending inode [] = None"
| "mark_pending inode (n # ns) =
    (if on_inum n = inode then Some (n\<lparr>on_pending_deletion := True\<rparr> # ns)
     else map_option ((#) n) (mark_pending inode ns))"

definition oft_attempt_delete :: "int \<Rightarrow> layer2 \<Rightarrow> (bool \<times> layer2) option" where
  "oft_attempt_delete inode s =
    (case mark_pending inode (oft_inodes s) of
       Some ns \<Rightarrow> Some (False, s\<lparr>oft_inodes := ns\<rparr>)
     | None \<Rightarrow>
         (case del inode (files s) of
            None \<Rightarrow> None
          | Some (_, t) \<Rightarrow> Some (True, s\<lparr>files := t\<rparr>)))"

primrec lookup_fd :: "int \<Rightarrow> oft_fd list \<Rightarrow> (int \<times> int) option" where
  "lookup_fd fd [] = None"
| "lookup_fd fd (f # fs) = (if of_fd f = fd then Some (of_inum f, of_flags f) else lookup_fd fd fs)"

text \<open>\<open>TRUE\<close> is a result \<open>Some (*inode, *flags)\<close>.\<close>

definition oft_lookup :: "int \<Rightarrow> layer2 \<Rightarrow> (int \<times> int) option" where
  "oft_lookup fd s = lookup_fd fd (oft_fds s)"

section \<open>The two tables\<close>

lemma lookup_fd_None: "lookup_fd fd fds = None \<longleftrightarrow> fd \<notin> of_fd ` set fds"
  by (induction fds) auto

lemma lookup_fd_append:
  "lookup_fd fd (fds @ gs) = (case lookup_fd fd fds of None \<Rightarrow> lookup_fd fd gs | Some r \<Rightarrow> Some r)"
  by (induction fds) auto

lemma lookup_fd_iff:
  assumes "distinct (map of_fd fds)"
  shows "lookup_fd fd fds = Some (i, fl) \<longleftrightarrow> \<lparr>of_fd = fd, of_inum = i, of_flags = fl\<rparr> \<in> set fds"
  using assms
proof (induction fds)
  case (Cons f fds)
  have e: "f = \<lparr>of_fd = fd, of_inum = i, of_flags = fl\<rparr> \<longleftrightarrow> of_fd f = fd \<and> of_inum f = i \<and> of_flags f = fl"
    by (cases f) auto
  have "\<lparr>of_fd = fd, of_inum = i, of_flags = fl\<rparr> \<notin> set fds" if "of_fd f = fd"
    using Cons.prems that image_eqI[of fd of_fd "\<lparr>of_fd = fd, of_inum = i, of_flags = fl\<rparr>" "set fds"] by auto
  then show ?case using Cons by (auto simp: e eq_commute[of _ f])
qed simp

lemma lookup_fd_filter:
  "lookup_fd x (filter (\<lambda>f. of_fd f \<noteq> fd) fds) = (if x = fd then None else lookup_fd x fds)"
  by (induction fds) auto

lemma find_fd_least:
  "fd \<le> find_fd fd fds \<and> find_fd fd fds \<notin> of_fd ` set fds \<and>
    (\<forall>x. fd \<le> x \<and> x < find_fd fd fds \<longrightarrow> x \<in> of_fd ` set fds)"
proof (induction fd fds rule: find_fd.induct)
  case (1 fd fds)
  show ?case
  proof (cases "fd \<in> of_fd ` set fds")
    case False
    then have "find_fd fd fds = fd" by (simp add: find_fd.simps)
    then show ?thesis using False by auto
  next
    case True
    then have e: "find_fd fd fds = find_fd (fd + 1) fds" by (simp add: find_fd.simps[of fd])
    have ih: "fd + 1 \<le> find_fd (fd + 1) fds" "find_fd (fd + 1) fds \<notin> of_fd ` set fds"
      "\<forall>x. fd + 1 \<le> x \<and> x < find_fd (fd + 1) fds \<longrightarrow> x \<in> of_fd ` set fds"
      using 1 True by simp_all
    have "x \<in> of_fd ` set fds" if "fd \<le> x" "x < find_fd (fd + 1) fds" for x
      using ih(3) that True by (cases "x = fd") auto
    then show ?thesis using ih(1,2) unfolding e by simp
  qed
qed

lemma find_fd_bound: "find_fd fd fds \<le> fd + int (length fds)"
proof -
  have "{fd..<find_fd fd fds} \<subseteq> of_fd ` set fds" using find_fd_least[of fd fds] by auto
  then have "card {fd..<find_fd fd fds} \<le> card (of_fd ` set fds)" by (intro card_mono) simp_all
  also have "\<dots> \<le> length fds" using card_image_le[of "set fds" of_fd] card_length[of fds] by simp
  finally show ?thesis by simp
qed

lemma map_absent [simp]:
  "i \<notin> on_inum ` set ns \<Longrightarrow> map (\<lambda>n. if on_inum n = i then g n else n) ns = ns"
  "i \<notin> on_inum ` set ns \<Longrightarrow> filter (\<lambda>n. on_inum n \<noteq> i) ns = ns"
  by (induction ns) auto

lemma oft_count_spec:
  assumes "distinct (map on_inum ns)"
  shows "oft_count i ns =
    (map (\<lambda>n. if on_inum n = i then n\<lparr>on_ref := on_ref n + 1\<rparr> else n) ns, i \<in> on_inum ` set ns)"
  using assms by (induction ns) (auto simp: eq_commute[of i])

lemma remove_fds_absent: "fd \<notin> of_fd ` set fds \<Longrightarrow> remove_fds fd d fds = (d, fds)"
  by (induction fd d fds rule: remove_fds.induct) auto

lemma remove_fds_spec:
  assumes "distinct (map of_fd fds)"
  shows "remove_fds fd d fds =
    (case lookup_fd fd fds of None \<Rightarrow> d | Some (i, _) \<Rightarrow> i, filter (\<lambda>f. of_fd f \<noteq> fd) fds)"
  using assms
proof (induction fd d fds rule: remove_fds.induct)
  case (3 fd d f g fds)
  show ?case
  proof (cases "of_fd f = fd")
    case True
    have "fd \<notin> of_fd ` set (g # fds)" using 3(3) True by auto
    moreover from this have "filter (\<lambda>f. of_fd f \<noteq> fd) (g # fds) = g # fds" by (auto intro!: filter_True)
    ultimately show ?thesis using True by (simp add: remove_fds_absent)
  next
    case False
    then show ?thesis using 3(2)[OF False] 3(3) by simp
  qed
qed auto

lemma release_inode_spec:
  assumes "distinct (map on_inum ns)" "n \<in> set ns" "on_inum n = i"
  shows "release_inode i ns =
    (if on_ref n = 1 then Some (filter (\<lambda>n. on_inum n \<noteq> i) ns, on_pending_deletion n)
     else Some (map (\<lambda>n. if on_inum n = i then n\<lparr>on_ref := on_ref n - 1\<rparr> else n) ns, False))"
  using assms
proof (induction ns)
  case (Cons m ns)
  show ?case
  proof (cases "on_inum m = i")
    case True
    then have i: "i \<notin> on_inum ` set ns" using Cons.prems(1) by auto
    then have "m = n" using Cons.prems(2,3) by auto
    then show ?thesis using True i by simp
  next
    case False
    then show ?thesis using Cons by auto
  qed
qed simp

lemma mark_pending_spec:
  assumes "distinct (map on_inum ns)"
  shows "mark_pending i ns = (if i \<in> on_inum ` set ns
    then Some (map (\<lambda>n. if on_inum n = i then n\<lparr>on_pending_deletion := True\<rparr> else n) ns) else None)"
  using assms by (induction ns) (auto simp: eq_commute[of i])

section \<open>The invariant of the tables\<close>

definition refs :: "int \<Rightarrow> oft_fd list \<Rightarrow> nat" where
  "refs i fds = length (filter (\<lambda>f. of_inum f = i) fds)"

definition oft_ok :: "layer2 \<Rightarrow> bool" where
  "oft_ok s \<longleftrightarrow> distinct (map of_fd (oft_fds s)) \<and> distinct (map on_inum (oft_inodes s)) \<and>
    (\<forall>f \<in> set (oft_fds s). MIN_FD \<le> of_fd f \<and> of_inum f \<noteq> - 1 \<and> of_inum f \<in> on_inum ` set (oft_inodes s)) \<and>
    (\<forall>n \<in> set (oft_inodes s). on_ref n = int (refs (on_inum n) (oft_fds s)) \<and> 0 < refs (on_inum n) (oft_fds s))"

lemma oft_okD:
  assumes "oft_ok s"
  shows "distinct (map of_fd (oft_fds s))" "distinct (map on_inum (oft_inodes s))"
    "\<And>f. f \<in> set (oft_fds s) \<Longrightarrow> MIN_FD \<le> of_fd f \<and> of_inum f \<noteq> - 1 \<and> of_inum f \<in> on_inum ` set (oft_inodes s)"
    "\<And>n. n \<in> set (oft_inodes s) \<Longrightarrow> on_ref n = int (refs (on_inum n) (oft_fds s)) \<and> 0 < refs (on_inum n) (oft_fds s)"
  using assms unfolding oft_ok_def by blast+

lemma refs_pos: "oft_ok s \<Longrightarrow> n \<in> set (oft_inodes s) \<Longrightarrow> 0 < refs (on_inum n) (oft_fds s)"
  using oft_okD(4)[of s n] by simp

lemma refs_append [simp]: "refs i (fds @ gs) = refs i fds + refs i gs"
  by (simp add: refs_def)

lemma refs_0: "refs i fds = 0 \<longleftrightarrow> i \<notin> of_inum ` set fds"
  by (auto simp: refs_def filter_empty_conv)

lemma refs_remove:
  assumes "distinct (map of_fd fds)" "lookup_fd fd fds = Some (i, fl)"
  shows "refs j fds = refs j (filter (\<lambda>f. of_fd f \<noteq> fd) fds) + (if j = i then 1 else 0)"
  using assms
proof (induction fds)
  case (Cons f fds)
  show ?case
  proof (cases "of_fd f = fd")
    case True
    then have "fd \<notin> of_fd ` set fds" using Cons.prems(1) by auto
    then have "filter (\<lambda>f. of_fd f \<noteq> fd) fds = fds" by (auto intro!: filter_True)
    then show ?thesis using True Cons.prems(2) by (auto simp: refs_def)
  next
    case False
    then show ?thesis using Cons by (auto simp: refs_def)
  qed
qed simp

text \<open>Updating the entry of one inode; \<open>ns\<close> and \<open>fds\<close> are the new tables.\<close>

definition upd_inode :: "int \<Rightarrow> (oft_inode \<Rightarrow> oft_inode) \<Rightarrow> oft_inode list \<Rightarrow> oft_inode list" where
  "upd_inode i g ns = map (\<lambda>n. if on_inum n = i then g n else n) ns"

lemma upd_inode_inums:
  assumes "\<forall>n. on_inum (g n) = on_inum n"
  shows "map on_inum (upd_inode i g ns) = map on_inum ns" "on_inum ` set (upd_inode i g ns) = on_inum ` set ns"
proof -
  show "map on_inum (upd_inode i g ns) = map on_inum ns" using assms by (simp add: upd_inode_def)
  from arg_cong[OF this, of set] show "on_inum ` set (upd_inode i g ns) = on_inum ` set ns" by simp
qed

lemma upd_inode_mem:
  "n \<in> set (upd_inode i g ns) \<Longrightarrow> \<exists>m \<in> set ns. n = (if on_inum m = i then g m else m)"
  by (auto simp: upd_inode_def)

lemma upd_inode_ex:
  assumes "\<forall>n. on_inum (g n) = on_inum n"
  shows "(\<exists>n \<in> set (upd_inode i g ns). on_inum n = i \<and> Q n) \<longleftrightarrow> (\<exists>n \<in> set ns. on_inum n = i \<and> Q (g n))"
  using assms unfolding upd_inode_def set_map bex_simps by (intro bex_cong) auto

lemma oft_fd_eta: "\<lparr>of_fd = of_fd f, of_inum = of_inum f, of_flags = of_flags f\<rparr> = f"
  by simp

lemma oft_okI:
  assumes "distinct (map of_fd (oft_fds s))" "distinct (map on_inum (oft_inodes s))"
    "\<And>f. f \<in> set (oft_fds s) \<Longrightarrow> MIN_FD \<le> of_fd f \<and> of_inum f \<noteq> - 1 \<and> of_inum f \<in> on_inum ` set (oft_inodes s)"
    "\<And>n. n \<in> set (oft_inodes s) \<Longrightarrow> on_ref n = int (refs (on_inum n) (oft_fds s)) \<and> 0 < refs (on_inum n) (oft_fds s)"
  shows "oft_ok s"
  using assms unfolding oft_ok_def by blast

lemma oft_ok_files [simp]: "oft_ok (s\<lparr>files := t\<rparr>) = oft_ok s"
  by (simp add: oft_ok_def)

section \<open>The operations on tables in good order\<close>

lemma oft_add_eq:
  assumes "oft_ok s"
  shows "oft_add i fl s = (find_fd MIN_FD (oft_fds s), s\<lparr>
    oft_inodes := (if i \<in> on_inum ` set (oft_inodes s)
      then upd_inode i (\<lambda>n. n\<lparr>on_ref := on_ref n + 1\<rparr>) (oft_inodes s)
      else oft_inodes s @ [\<lparr>on_inum = i, on_ref = 1, on_pending_deletion = False\<rparr>]),
    oft_fds := oft_fds s @ [\<lparr>of_fd = find_fd MIN_FD (oft_fds s), of_inum = i, of_flags = fl\<rparr>]\<rparr>)"
  using oft_okD(2)[OF assms] by (auto simp: oft_add_def oft_count_spec upd_inode_def Let_def)

lemma oft_add_ok:
  assumes "oft_ok s" "i \<noteq> - 1"
  shows "oft_ok (snd (oft_add i fl s))"
proof -
  note d = oft_okD[OF assms(1)]
  note fd = find_fd_least[of MIN_FD "oft_fds s"]
  let ?fd = "find_fd MIN_FD (oft_fds s)"
  have new: "refs i (oft_fds s) = 0" if "i \<notin> on_inum ` set (oft_inodes s)"
    using that d(3) by (auto simp: refs_0)
  have one: "refs j [\<lparr>of_fd = ?fd, of_inum = i, of_flags = fl\<rparr>] = (if j = i then 1 else 0)" for j
    by (simp add: refs_def)
  have fds: "distinct (map of_fd (oft_fds s @ [\<lparr>of_fd = ?fd, of_inum = i, of_flags = fl\<rparr>]))"
    using d(1) fd by auto
  let ?ns = "oft_inodes (snd (oft_add i fl s))" and ?fds = "oft_fds (snd (oft_add i fl s))"
  have fds_eq: "?fds = oft_fds s @ [\<lparr>of_fd = ?fd, of_inum = i, of_flags = fl\<rparr>]"
    by (simp add: oft_add_eq[OF assms(1)])
  have "distinct (map on_inum ?ns) \<and> on_inum ` set ?ns = insert i (on_inum ` set (oft_inodes s)) \<and>
    (\<forall>n \<in> set ?ns. on_ref n = int (refs (on_inum n) ?fds) \<and> 0 < refs (on_inum n) ?fds)"
  proof (cases "i \<in> on_inum ` set (oft_inodes s)")
    case True
    then have e: "?ns = upd_inode i (\<lambda>n. n\<lparr>on_ref := on_ref n + 1\<rparr>) (oft_inodes s)"
      by (simp add: oft_add_eq[OF assms(1)])
    show ?thesis
      unfolding e fds_eq using True d(2,4) one refs_pos[OF assms(1)] by (auto simp: upd_inode_inums dest!: upd_inode_mem)
  next
    case False
    then have e: "?ns = oft_inodes s @ [\<lparr>on_inum = i, on_ref = 1, on_pending_deletion = False\<rparr>]"
      by (simp add: oft_add_eq[OF assms(1)])
    show ?thesis unfolding e fds_eq using False d(2,4) one new refs_pos[OF assms(1)] by auto
  qed
  note ns = conjunct1[OF this] conjunct1[OF conjunct2[OF this]] conjunct2[OF conjunct2[OF this]]
  show ?thesis
  proof (rule oft_okI)
    fix f assume "f \<in> set ?fds"
    then consider "f \<in> set (oft_fds s)" | "f = \<lparr>of_fd = ?fd, of_inum = i, of_flags = fl\<rparr>"
      unfolding fds_eq by auto
    then show "MIN_FD \<le> of_fd f \<and> of_inum f \<noteq> - 1 \<and> of_inum f \<in> on_inum ` set ?ns"
      unfolding ns(2) using d(3) fd assms(2) by cases auto
  qed (use ns(1,3) fds in \<open>simp_all add: fds_eq\<close>)
qed

lemma oft_add_lookup:
  assumes "oft_ok s"
  shows "oft_lookup (fst (oft_add i fl s)) s = None"
    "oft_lookup x (snd (oft_add i fl s)) = (if x = fst (oft_add i fl s) then Some (i, fl) else oft_lookup x s)"
proof -
  have "lookup_fd (find_fd MIN_FD (oft_fds s)) (oft_fds s) = None"
    unfolding lookup_fd_None using find_fd_least by blast
  then show "oft_lookup (fst (oft_add i fl s)) s = None"
    "oft_lookup x (snd (oft_add i fl s)) = (if x = fst (oft_add i fl s) then Some (i, fl) else oft_lookup x s)"
    by (auto simp: oft_add_eq[OF assms] oft_lookup_def lookup_fd_append split: option.split)
qed

text \<open>What \<open>oft_remove\<close> does on tables in good order.\<close>

lemma oft_remove_absent: "oft_ok s \<Longrightarrow> oft_lookup fd s = None \<Longrightarrow> oft_remove fd s = Some (False, s)"
  by (simp add: oft_remove_def oft_lookup_def lookup_fd_None remove_fds_absent)

definition drop_fd :: "int \<Rightarrow> int \<Rightarrow> layer2 \<Rightarrow> layer2" where
  "drop_fd fd i s = s\<lparr>oft_fds := filter (\<lambda>f. of_fd f \<noteq> fd) (oft_fds s),
    oft_inodes := (if refs i (oft_fds s) = 1 then filter (\<lambda>n. on_inum n \<noteq> i) (oft_inodes s)
      else upd_inode i (\<lambda>n. n\<lparr>on_ref := on_ref n - 1\<rparr>) (oft_inodes s))\<rparr>"

definition pending :: "int \<Rightarrow> layer2 \<Rightarrow> bool" where
  "pending i s \<longleftrightarrow> (\<exists>n \<in> set (oft_inodes s). on_inum n = i \<and> on_pending_deletion n)"

lemma pending_unique:
  "oft_ok s \<Longrightarrow> n \<in> set (oft_inodes s) \<Longrightarrow> pending (on_inum n) s = on_pending_deletion n"
  using oft_okD(2)[of s] by (auto simp: pending_def distinct_map dest: inj_onD)

lemma oft_remove_present:
  assumes "oft_ok s" "oft_lookup fd s = Some (i, fl)"
  shows "oft_remove fd s =
    (if refs i (oft_fds s) = 1 \<and> pending i s
     then map_option (\<lambda>(_, t). (True, (drop_fd fd i s)\<lparr>files := t\<rparr>)) (del i (files s))
     else Some (True, drop_fd fd i s))"
proof -
  note d = oft_okD[OF assms(1)]
  have "\<lparr>of_fd = fd, of_inum = i, of_flags = fl\<rparr> \<in> set (oft_fds s)"
    using assms(2) lookup_fd_iff[OF d(1)] by (simp add: oft_lookup_def)
  then have i: "i \<noteq> - 1" "i \<in> on_inum ` set (oft_inodes s)" using d(3) by fastforce+
  then obtain n where n: "n \<in> set (oft_inodes s)" "on_inum n = i" by auto
  have r: "on_ref n = 1 \<longleftrightarrow> refs i (oft_fds s) = 1" using d(4)[OF n(1)] n(2) by auto
  have p: "on_pending_deletion n = pending i s" using pending_unique[OF assms(1) n(1)] n(2) by simp
  show ?thesis
    using assms(2) i(1) unfolding oft_lookup_def oft_remove_def remove_fds_spec[OF d(1)] Let_def
    by (simp add: release_inode_spec[OF d(2) n] r p drop_fd_def upd_inode_def split: option.split)
qed

lemma drop_fd_ok:
  assumes "oft_ok s" "oft_lookup fd s = Some (i, fl)"
  shows "oft_ok ((drop_fd fd i s)\<lparr>files := t\<rparr>)" "oft_ok (drop_fd fd i s)"
proof -
  note d = oft_okD[OF assms(1)]
  let ?fds = "filter (\<lambda>f. of_fd f \<noteq> fd) (oft_fds s)"
  have r: "refs j (oft_fds s) = refs j ?fds + (if j = i then 1 else 0)" for j
    by (rule refs_remove[OF d(1)]) (use assms(2) in \<open>simp add: oft_lookup_def\<close>)
  have gone: "i \<notin> of_inum ` set ?fds" if "refs i (oft_fds s) = 1"
    using that r[of i] refs_0[of i ?fds] by simp
  have ref: "on_ref n = int (refs (on_inum n) ?fds + (if on_inum n = i then 1 else 0))"
    if "n \<in> set (oft_inodes s)" for n using d(4)[OF that] r[of "on_inum n"] by simp
  show "oft_ok (drop_fd fd i s)"
  proof (cases "refs i (oft_fds s) = 1")
    case True
    then have e: "oft_inodes (drop_fd fd i s) = filter (\<lambda>n. on_inum n \<noteq> i) (oft_inodes s)"
      "oft_fds (drop_fd fd i s) = ?fds" by (simp_all add: drop_fd_def)
    have "of_inum f \<in> on_inum ` {n \<in> set (oft_inodes s). on_inum n \<noteq> i}" if "f \<in> set ?fds" for f
    proof -
      from that have f: "f \<in> set (oft_fds s)" "of_inum f \<noteq> i" using gone[OF True] by auto
      then obtain n where "n \<in> set (oft_inodes s)" "on_inum n = of_inum f" using d(3)[OF f(1)] by auto
      then show ?thesis using f(2) by (intro image_eqI[of _ _ n]) simp_all
    qed
    moreover have "0 < refs (on_inum n) ?fds" if "n \<in> set (oft_inodes s)" "on_inum n \<noteq> i" for n
      using refs_pos[OF assms(1) that(1)] r[of "on_inum n"] that(2) by simp
    ultimately show ?thesis unfolding oft_ok_def e using d(1-3) ref by (auto simp: distinct_map_filter)
  next
    case False
    then have e: "oft_inodes (drop_fd fd i s) = upd_inode i (\<lambda>n. n\<lparr>on_ref := on_ref n - 1\<rparr>) (oft_inodes s)"
      "oft_fds (drop_fd fd i s) = ?fds" by (simp_all add: drop_fd_def)
    have "0 < refs (on_inum n) ?fds" if "n \<in> set (oft_inodes s)" for n
      using d(4)[OF that] False r[of "on_inum n"] by (cases "on_inum n = i") auto
    then show ?thesis
      unfolding oft_ok_def e using d(1-3) ref
      by (auto simp: upd_inode_inums distinct_map_filter dest!: upd_inode_mem)
  qed
  then show "oft_ok ((drop_fd fd i s)\<lparr>files := t\<rparr>)" by simp
qed

lemma drop_fd_lookup:
  "oft_lookup x (drop_fd fd i s) = (if x = fd then None else oft_lookup x s)"
  by (simp add: oft_lookup_def drop_fd_def lookup_fd_filter)

lemma oft_remove_ok:
  assumes "oft_ok s" "oft_remove fd s = Some (b, t)"
  shows "oft_ok t" "oft_lookup x t = (if x = fd then None else oft_lookup x s)" "b \<longleftrightarrow> oft_lookup fd s \<noteq> None"
proof -
  have "oft_ok t \<and> oft_lookup x t = (if x = fd then None else oft_lookup x s) \<and> (b \<longleftrightarrow> oft_lookup fd s \<noteq> None)"
  proof (cases "oft_lookup fd s")
    case None
    then show ?thesis using assms oft_remove_absent by auto
  next
    case (Some p)
    obtain i fl where p: "oft_lookup fd s = Some (i, fl)" using Some by (cases p) auto
    have "oft_lookup x (u\<lparr>files := v\<rparr>) = oft_lookup x u" for u v by (simp add: oft_lookup_def)
    then show ?thesis
      using assms p drop_fd_ok[OF assms(1) p] oft_remove_present[OF assms(1) p]
      by (auto simp: drop_fd_lookup split: if_splits)
  qed
  then show "oft_ok t" "oft_lookup x t = (if x = fd then None else oft_lookup x s)" "b \<longleftrightarrow> oft_lookup fd s \<noteq> None"
    by blast+
qed

lemma oft_attempt_delete_eq:
  assumes "oft_ok s"
  shows "oft_attempt_delete i s =
    (if i \<in> on_inum ` set (oft_inodes s)
     then Some (False, s\<lparr>oft_inodes := upd_inode i (\<lambda>n. n\<lparr>on_pending_deletion := True\<rparr>) (oft_inodes s)\<rparr>)
     else map_option (\<lambda>(_, t). (True, s\<lparr>files := t\<rparr>)) (del i (files s)))"
  using oft_okD(2)[OF assms]
  by (simp add: oft_attempt_delete_def mark_pending_spec upd_inode_def split: option.split)

lemma oft_mark_ok:
  assumes "oft_ok s"
  shows "oft_ok (s\<lparr>oft_inodes := upd_inode i (\<lambda>n. n\<lparr>on_pending_deletion := True\<rparr>) (oft_inodes s)\<rparr>)"
  using oft_okD[OF assms] refs_pos[OF assms] by (auto simp: oft_ok_def upd_inode_inums dest!: upd_inode_mem)

lemma oft_attempt_delete_ok:
  assumes "oft_ok s" "oft_attempt_delete i s = Some (b, t)"
  shows "oft_ok t" "oft_fds t = oft_fds s"
  using assms oft_mark_ok[OF assms(1), of i] by (auto simp: oft_attempt_delete_eq split: if_splits)

section \<open>Descriptor tables as an interface\<close>

text \<open>
  What a client relies on: a fresh descriptor on opening, and lookups that only change at the
  descriptor opened or closed.
\<close>

locale descriptor_table =
  fixes ok :: "'s \<Rightarrow> bool"
    and find :: "int \<Rightarrow> 's \<Rightarrow> (int \<times> int) option"
    and opn :: "int \<Rightarrow> int \<Rightarrow> 's \<Rightarrow> int \<times> 's"
    and cls :: "int \<Rightarrow> 's \<Rightarrow> 's option"
    and usable :: "int \<Rightarrow> bool"
  assumes opn_ok: "ok s \<Longrightarrow> usable i \<Longrightarrow> ok (snd (opn i fl s))"
    and opn_fresh: "ok s \<Longrightarrow> usable i \<Longrightarrow> find (fst (opn i fl s)) s = None"
    and find_opn: "ok s \<Longrightarrow> usable i \<Longrightarrow>
      find x (snd (opn i fl s)) = (if x = fst (opn i fl s) then Some (i, fl) else find x s)"
    and cls_ok: "ok s \<Longrightarrow> cls fd s = Some t \<Longrightarrow> ok t"
    and find_cls: "ok s \<Longrightarrow> cls fd s = Some t \<Longrightarrow> find x t = (if x = fd then None else find x s)"
begin

primrec opn_all :: "(int \<times> int) list \<Rightarrow> 's \<Rightarrow> int list \<times> 's" where
  "opn_all [] s = ([], s)"
| "opn_all (r # rs) s =
    (let (fd, s) = opn (fst r) (snd r) s; (fds, s) = opn_all rs s in (fd # fds, s))"

lemma opn_all_spec:
  assumes "ok s" "\<forall>r \<in> set rs. usable (fst r)" "opn_all rs s = (fds, t)"
  shows "ok t \<and> length fds = length rs \<and> distinct fds \<and> (\<forall>fd \<in> set fds. find fd s = None) \<and>
    (\<forall>x. find x t = (case map_of (zip fds rs) x of Some r \<Rightarrow> Some r | None \<Rightarrow> find x s))"
  using assms
proof (induction rs arbitrary: s fds)
  case (Cons r rs)
  obtain fd u where o: "opn (fst r) (snd r) s = (fd, u)" by fastforce
  obtain fds' where r: "opn_all rs u = (fds', t)" "fds = fd # fds'"
    using Cons.prems(3) o by (auto split: prod.splits)
  have us: "usable (fst r)" "\<forall>r \<in> set rs. usable (fst r)" using Cons.prems(2) by simp_all
  have u: "ok u" "find fd s = None" "\<And>x. find x u = (if x = fd then Some r else find x s)"
    using opn_ok[OF Cons.prems(1) us(1), of "snd r"] opn_fresh[OF Cons.prems(1) us(1), of "snd r"]
      find_opn[OF Cons.prems(1) us(1), of _ "snd r"] o by simp_all
  note ih = Cons.IH[OF u(1) us(2) r(1)]
  have new: "fd \<notin> set fds'" using ih u(3)[of fd] by auto
  have old: "find x s = None" if "x \<in> set fds'" for x
    using ih that u(3)[of x] new by (auto split: if_splits)
  have nn: "map_of (zip fds' rs) fd = None" using new ih by simp
  then show ?case using ih new u(2) old by (auto simp: r(2) u(3) nn dest: set_zip_leftD split: option.split)
qed simp

lemma cls_opn:
  assumes "ok s" "usable i" "cls (fst (opn i fl s)) (snd (opn i fl s)) = Some t"
  shows "find x t = find x s"
  using find_cls[OF opn_ok[OF assms(1,2)] assms(3)] find_opn[OF assms(1,2)] opn_fresh[OF assms(1,2), of fl]
  by simp

end

interpretation oft: descriptor_table oft_ok oft_lookup oft_add
  "\<lambda>fd s. map_option snd (oft_remove fd s)" "\<lambda>i. i \<noteq> - 1"
proof
  fix s t :: layer2 and i fl fd x :: int
  assume ok: "oft_ok s"
  show "i \<noteq> - 1 \<Longrightarrow> oft_ok (snd (oft_add i fl s))" by (rule oft_add_ok[OF ok])
  show "oft_lookup (fst (oft_add i fl s)) s = None" by (rule oft_add_lookup(1)[OF ok])
  show "oft_lookup x (snd (oft_add i fl s)) = (if x = fst (oft_add i fl s) then Some (i, fl) else oft_lookup x s)"
    by (rule oft_add_lookup(2)[OF ok])
  assume "map_option snd (oft_remove fd s) = Some t"
  then obtain b where "oft_remove fd s = Some (b, t)" unfolding map_option_eq_Some by fastforce
  then show "oft_ok t" "oft_lookup x t = (if x = fd then None else oft_lookup x s)"
    using oft_remove_ok[OF ok] by blast+
qed

section \<open>The table as a state machine\<close>

text \<open>
  The steps of the table: the four operations, and any change of the files by the rest of the
  program.  It starts with both tables empty.
\<close>

inductive oft_step :: "layer2 \<Rightarrow> layer2 \<Rightarrow> bool" where
  add: "inode \<noteq> - 1 \<Longrightarrow> oft_add inode flags s = (fd, t) \<Longrightarrow> oft_step s t"
| remove: "oft_remove fd s = Some (b, t) \<Longrightarrow> oft_step s t"
| delete: "oft_attempt_delete inode s = Some (b, t) \<Longrightarrow> oft_step s t"
| other: "oft_step s (s\<lparr>files := f\<rparr>)"

inductive oft_reachable :: "layer2 \<Rightarrow> bool" where
  start: "oft_inodes s = [] \<Longrightarrow> oft_fds s = [] \<Longrightarrow> oft_reachable s"
| step: "oft_reachable s \<Longrightarrow> oft_step s t \<Longrightarrow> oft_reachable t"

inductive_cases oft_stepE: "oft_step s t"

lemma oft_step_ok: "oft_step s t \<Longrightarrow> oft_ok s \<Longrightarrow> oft_ok t"
proof (erule oft_stepE)
  fix inode flags fd assume "oft_ok s" "inode \<noteq> - 1" "oft_add inode flags s = (fd, t)"
  then show "oft_ok t" using oft_add_ok[of s inode flags] by simp
qed (auto dest: oft_remove_ok(1) oft_attempt_delete_ok(1))

lemma oft_ok_empty: "oft_inodes s = [] \<Longrightarrow> oft_fds s = [] \<Longrightarrow> oft_ok s"
  by (simp add: oft_ok_def)

lemma oft_reachable_ok: "oft_reachable s \<Longrightarrow> oft_ok s"
  by (induction rule: oft_reachable.induct) (auto intro: oft_ok_empty oft_step_ok)

section \<open>Closing the descriptors of one inode\<close>

definition open_fds :: "int \<Rightarrow> layer2 \<Rightarrow> int set" where
  "open_fds i s = {fd. \<exists>fl. oft_lookup fd s = Some (i, fl)}"

lemma refs_card:
  assumes "oft_ok s"
  shows "refs i (oft_fds s) = card (open_fds i s)"
proof -
  note d = oft_okD(1)[OF assms]
  let ?F = "{f \<in> set (oft_fds s). of_inum f = i}"
  have "\<exists>fl. \<lparr>of_fd = of_fd f, of_inum = i, of_flags = fl\<rparr> \<in> set (oft_fds s)" if "f \<in> ?F" for f
  proof -
    have e: "\<lparr>of_fd = of_fd f, of_inum = i, of_flags = of_flags f\<rparr> = f" using that oft_fd_eta[of f] by auto
    have "\<lparr>of_fd = of_fd f, of_inum = i, of_flags = of_flags f\<rparr> \<in> set (oft_fds s)" unfolding e using that by simp
    then show ?thesis by blast
  qed
  then have "open_fds i s = of_fd ` ?F"
    unfolding open_fds_def oft_lookup_def lookup_fd_iff[OF d] by (force intro!: image_eqI)
  moreover have "inj_on of_fd ?F" using d by (auto simp: distinct_map intro: inj_on_subset)
  ultimately have "card (open_fds i s) = card ?F" by (simp add: card_image)
  also have "?F = set (filter (\<lambda>f. of_inum f = i) (oft_fds s))" by simp
  also have "card \<dots> = refs i (oft_fds s)"
    unfolding refs_def using d by (intro distinct_card) (simp add: distinct_map)
  finally show ?thesis by simp
qed

primrec release_all :: "int list \<Rightarrow> layer2 \<Rightarrow> layer2 option" where
  "release_all [] s = Some s"
| "release_all (fd # fds) s = (case oft_remove fd s of None \<Rightarrow> None | Some (_, t) \<Rightarrow> release_all fds t)"

lemma pending_drop:
  assumes "refs i (oft_fds s) \<noteq> 1"
  shows "pending i (drop_fd fd i s) = pending i s"
  using assms upd_inode_ex[of "\<lambda>n. n\<lparr>on_ref := on_ref n - 1\<rparr>" i "oft_inodes s" on_pending_deletion]
  by (simp add: pending_def drop_fd_def)

lemma release_all_keeps:
  assumes "oft_ok s" "distinct ds" "set ds \<subset> open_fds i s"
  shows "\<exists>t. release_all ds s = Some t \<and> oft_ok t \<and> files t = files s \<and> pending i t = pending i s \<and>
    open_fds i t = open_fds i s - set ds"
  using assms
proof (induction ds arbitrary: s)
  case (Cons fd ds)
  obtain fl where l: "oft_lookup fd s = Some (i, fl)" using Cons.prems(3) by (auto simp: open_fds_def)
  have r: "refs i (oft_fds s) \<noteq> 1"
  proof
    assume "refs i (oft_fds s) = 1"
    then have "card (open_fds i s) = 1" using refs_card[OF Cons.prems(1)] by simp
    then obtain x where "open_fds i s = {x}" using card_1_singletonE by blast
    then show False using Cons.prems(3) by auto
  qed
  let ?t = "drop_fd fd i s"
  have "oft_remove fd s = Some (True, ?t)" using oft_remove_present[OF Cons.prems(1) l] r by simp
  moreover have "open_fds i ?t = open_fds i s - {fd}" by (auto simp: open_fds_def drop_fd_lookup)
  moreover have "files ?t = files s" by (simp add: drop_fd_def)
  moreover have "set ds \<subset> open_fds i ?t" using Cons.prems(2,3) calculation(2) by auto
  ultimately show ?case
    using Cons.IH[OF drop_fd_ok(2)[OF Cons.prems(1) l]] Cons.prems(2) pending_drop[OF r, of fd] by auto
qed (auto intro!: exI)

lemma release_last:
  assumes "oft_ok s" "open_fds i s = {fd}" "pending i s" "del i (files s) = Some (r, f)"
  shows "\<exists>t. oft_remove fd s = Some (True, t) \<and> files t = f \<and> open_fds i t = {} \<and> oft_ok t \<and>
    i \<notin> on_inum ` set (oft_inodes t)"
proof -
  obtain fl where l: "oft_lookup fd s = Some (i, fl)" using assms(2) by (auto simp: open_fds_def)
  have r: "refs i (oft_fds s) = 1" using refs_card[OF assms(1), of i] assms(2) by simp
  let ?t = "(drop_fd fd i s)\<lparr>files := f\<rparr>"
  have "oft_remove fd s = Some (True, ?t)" using oft_remove_present[OF assms(1) l] r assms(3,4) by simp
  moreover have "open_fds i ?t = open_fds i s - {fd}"
    using drop_fd_lookup[of _ fd i s] by (auto simp: open_fds_def oft_lookup_def)
  moreover have "i \<notin> on_inum ` set (oft_inodes ?t)" using r by (auto simp: drop_fd_def)
  ultimately show ?thesis using drop_fd_ok(1)[OF assms(1) l, of f] assms(2) by auto
qed

lemma mark_pending_effect:
  assumes "oft_ok s" "open_fds i s \<noteq> {}"
  shows "\<exists>t. oft_attempt_delete i s = Some (False, t) \<and> oft_ok t \<and> files t = files s \<and> pending i t \<and>
    open_fds i t = open_fds i s"
proof -
  obtain fd fl where "oft_lookup fd s = Some (i, fl)" using assms(2) by (auto simp: open_fds_def)
  then have "\<lparr>of_fd = fd, of_inum = i, of_flags = fl\<rparr> \<in> set (oft_fds s)"
    using lookup_fd_iff[OF oft_okD(1)[OF assms(1)]] by (simp add: oft_lookup_def)
  then have i: "i \<in> on_inum ` set (oft_inodes s)" using oft_okD(3)[OF assms(1)] by fastforce
  let ?t = "s\<lparr>oft_inodes := upd_inode i (\<lambda>n. n\<lparr>on_pending_deletion := True\<rparr>) (oft_inodes s)\<rparr>"
  have "pending i ?t"
    using i upd_inode_ex[of "\<lambda>n. n\<lparr>on_pending_deletion := True\<rparr>" i "oft_inodes s" on_pending_deletion]
    by (auto simp: pending_def)
  moreover have "open_fds i ?t = open_fds i s" by (simp add: open_fds_def oft_lookup_def)
  moreover have "oft_attempt_delete i s = Some (False, ?t)" using oft_attempt_delete_eq[OF assms(1)] i by simp
  ultimately show ?thesis using oft_mark_ok[OF assms(1), of i] by auto
qed

end
