(* ===== verification/FuseOps.thy ===== *)
theory FuseOps
  imports Namespace OpenFiles
begin

text \<open>
  The FUSE handlers, \<open>src/fusemain.c\<close>.  The user and group of \<open>fuse_get_context()\<close> are arguments, the
  \<open>filler\<close> that \<open>fs_readdir\<close> calls is a function on the caller's buffer, a \<open>struct fuse_file_info\<close>
  is the record of the two fields the handlers use.
\<close>

record fuse_file_info =
  fi_flags :: int
  fi_fh :: int

definition O_RDONLY :: int where [simp]: "O_RDONLY = 0"
definition O_WRONLY :: int where [simp]: "O_WRONLY = 1"
definition O_RDWR :: int where [simp]: "O_RDWR = 2"
definition O_ACCMODE :: int where [simp]: "O_ACCMODE = 3"
definition O_APPEND :: int where [simp]: "O_APPEND = 0x400"

text \<open>An operation of the layers below, on the file system of the whole state.\<close>

definition on_files :: "('r \<times> layer1) option \<Rightarrow> layer2 \<Rightarrow> ('r \<times> layer2) option" where
  "on_files r s = map_option (\<lambda>(ret, t). (ret, s\<lparr>files := t\<rparr>)) r"

definition fs_init :: "bool \<Rightarrow> int \<Rightarrow> int \<Rightarrow> layer2 \<Rightarrow> layer2" where
  "fs_init malloc_ok uid gid s = s\<lparr>files := snd (mkfs malloc_ok 40000 uid gid (files s))\<rparr>"

text \<open>The second result is \<open>*stbuf\<close>, if it was written.\<close>

definition fs_getattr ::
    "byte list \<Rightarrow> int \<Rightarrow> int \<Rightarrow> c_stat \<Rightarrow> layer2 \<Rightarrow> (int \<times> c_stat option) option" where
  "fs_getattr path uid gid s0 s =
    (case namei path uid gid (files s) of
       None \<Rightarrow> None
     | Some (ret, parent_inum, target_inum, index) \<Rightarrow>
         if ret \<noteq> SUCCESS then Some (ret, None)
         else if target_inum = INVALID_INODE then Some (- ENOENT, None)
         else
           (let (read, write, exec) = permissions parent_inum uid gid (files s) in
            if \<not> read then Some (- EACCES, None)
            else Some (0, Some (get_stat s0 target_inum (files s)))))"

text \<open>\<open>Inl\<close> ends the call (the filler's buffer is full), \<open>Inr\<close> goes on.\<close>

primrec fill_entries ::
    "nat list \<Rightarrow> byte list \<Rightarrow> ('b \<Rightarrow> byte list \<Rightarrow> c_stat \<Rightarrow> int \<Rightarrow> 'b \<times> bool) \<Rightarrow> c_stat \<Rightarrow> 'b \<Rightarrow>
      layer2 \<Rightarrow> 'b + 'b" where
  "fill_entries [] d filler s0 buf s = Inr buf"
| "fill_entries (i # is) d filler s0 buf s =
    (let e = dirent_at d i;
         st = get_stat s0 (sint (de_inode_num e)) (files s);
         (buf, full) = filler buf (cstr (de_name e)) st 0
     in if full then Inl buf else fill_entries is d filler s0 buf s)"

text \<open>The loop over the pages does not look at the code of \<open>read_dir_page\<close>; it ends when \<open>last\<close> is set.\<close>

partial_function (option) readdir_pages ::
    "int \<Rightarrow> byte list \<Rightarrow> int \<Rightarrow> int \<Rightarrow> bool \<Rightarrow> ('b \<Rightarrow> byte list \<Rightarrow> c_stat \<Rightarrow> int \<Rightarrow> 'b \<times> bool) \<Rightarrow>
      c_stat \<Rightarrow> 'b \<Rightarrow> layer2 \<Rightarrow> 'b option" where
  "readdir_pages target_inum d page entries reached_end filler s0 buf s =
    (if reached_end then Some buf
     else case read_dir_page target_inum (Some d) page (Some entries) (Some reached_end) (files s) of
       None \<Rightarrow> None
     | Some (ret, d, entries, reached_end) \<Rightarrow>
         (case fill_entries [0..<nat entries] d filler s0 buf s of
            Inl buf \<Rightarrow> Some buf
          | Inr buf \<Rightarrow> readdir_pages target_inum d (page + 1) entries reached_end filler s0 buf s))"

definition fs_readdir ::
    "byte list \<Rightarrow> 'b \<Rightarrow> ('b \<Rightarrow> byte list \<Rightarrow> c_stat \<Rightarrow> int \<Rightarrow> 'b \<times> bool) \<Rightarrow> int \<Rightarrow> int \<Rightarrow> c_stat \<Rightarrow> layer2 \<Rightarrow>
      (int \<times> 'b) option" where
  "fs_readdir path buf filler uid gid s0 s =
    (case namei path uid gid (files s) of
       None \<Rightarrow> None
     | Some (ret, parent_inum, target_inum, index) \<Rightarrow>
         if ret \<noteq> SUCCESS then Some (ret, buf)
         else if target_inum = INVALID_INODE then Some (- ENOENT, buf)
         else
           (let (ret, my_inode) = local_inode target_inum (files s) in
            if \<not> S_ISDIR (i_mode my_inode) then Some (- ENOTDIR, buf)
            else map_option (\<lambda>buf. (0, buf))
              (readdir_pages target_inum (uninit BLOCK_SIZE (files s)) 0 0 False filler s0 buf s)))"

definition fs_mknod :: "byte list \<Rightarrow> u32 \<Rightarrow> int \<Rightarrow> int \<Rightarrow> layer2 \<Rightarrow> (int \<times> layer2) option" where
  "fs_mknod path mode uid gid s = on_files (mknod_fs path mode uid gid (files s)) s"

definition fs_mkdir :: "byte list \<Rightarrow> u32 \<Rightarrow> int \<Rightarrow> int \<Rightarrow> layer2 \<Rightarrow> (int \<times> layer2) option" where
  "fs_mkdir path mode uid gid s = on_files (mkdir_fs path mode uid gid (files s)) s"

definition fs_unlink :: "byte list \<Rightarrow> int \<Rightarrow> int \<Rightarrow> layer2 \<Rightarrow> (int \<times> layer2) option" where
  "fs_unlink path uid gid s =
    (case namei path uid gid (files s) of
       None \<Rightarrow> None
     | Some (ret, parent_inum, target_inum, index) \<Rightarrow>
         if ret \<noteq> SUCCESS then Some (ret, s)
         else if target_inum = INVALID_INODE then Some (- ENOENT, s)
         else
           (let (ret, my_inode) = local_inode target_inum (files s) in
            if S_ISDIR (i_mode my_inode) then Some (- EISDIR, s)
            else
              (let (read, write, exec) = permissions parent_inum uid gid (files s) in
               if \<not> write then Some (- EACCES, s)
               else case on_files (remove_dirent parent_inum index (files s)) s of
                 None \<Rightarrow> None
               | Some (_, s) \<Rightarrow> map_option (\<lambda>(_, s). (0, s)) (oft_attempt_delete target_inum s))))"

definition fs_rmdir :: "byte list \<Rightarrow> int \<Rightarrow> int \<Rightarrow> layer2 \<Rightarrow> (int \<times> layer2) option" where
  "fs_rmdir path uid gid s =
    (case namei path uid gid (files s) of
       None \<Rightarrow> None
     | Some (ret, parent_inum, target_inum, index) \<Rightarrow>
         if ret \<noteq> SUCCESS then Some (ret, s)
         else if target_inum = INVALID_INODE then Some (- ENOENT, s)
         else
           (let (ret, my_inode) = local_inode target_inum (files s) in
            if \<not> S_ISDIR (i_mode my_inode) then Some (- ENOTDIR, s)
            else
              (let (read, write, exec) = permissions parent_inum uid gid (files s) in
               if \<not> write then Some (- EACCES, s)
               else case on_files (remove_dirent parent_inum index (files s)) s of
                 None \<Rightarrow> None
               | Some (_, s) \<Rightarrow>
                   map_option (\<lambda>(_, s). (0, s)) (on_files (del target_inum (files s)) s))))"

definition fs_truncate :: "byte list \<Rightarrow> int \<Rightarrow> int \<Rightarrow> int \<Rightarrow> layer2 \<Rightarrow> (int \<times> layer2) option" where
  "fs_truncate path sz uid gid s =
    (case namei path uid gid (files s) of
       None \<Rightarrow> None
     | Some (ret, parent_inum, target_inum, index) \<Rightarrow>
         if ret \<noteq> SUCCESS then Some (ret, s)
         else if target_inum = INVALID_INODE then Some (- ENOENT, s)
         else
           (let (ret, my_inode) = local_inode target_inum (files s) in
            if S_ISDIR (i_mode my_inode) then Some (- EISDIR, s)
            else
              (let (read, write, exec) = permissions target_inum uid gid (files s) in
               if \<not> write then Some (- EACCES, s)
               else map_option (\<lambda>(_, s). (0, s)) (on_files (truncate_i target_inum sz (files s)) s))))"

text \<open>The second result is \<open>fi\<close> afterwards.\<close>

definition fs_open ::
    "byte list \<Rightarrow> fuse_file_info \<Rightarrow> int \<Rightarrow> int \<Rightarrow> layer2 \<Rightarrow> (int \<times> fuse_file_info \<times> layer2) option" where
  "fs_open path fi uid gid s =
    (case namei path uid gid (files s) of
       None \<Rightarrow> None
     | Some (ret, parent_inum, target_inum, index) \<Rightarrow>
         if ret \<noteq> SUCCESS then Some (ret, fi, s)
         else if target_inum = INVALID_INODE then Some (- ENOENT, fi, s)
         else
           (let (read, write, exec) = permissions target_inum uid gid (files s);
                access_mode = fi_flags fi AND O_ACCMODE
            in if access_mode = O_RDONLY \<and> \<not> read then Some (- EACCES, fi, s)
               else if access_mode = O_WRONLY \<and> \<not> write then Some (- EACCES, fi, s)
               else if access_mode = O_RDWR \<and> (\<not> read \<or> \<not> write) then Some (- EACCES, fi, s)
               else if access_mode \<noteq> O_RDONLY \<and> access_mode \<noteq> O_WRONLY \<and> access_mode \<noteq> O_RDWR
               then Some (- EINVAL, fi, s)
               else
                 (let (ret, my_inode) = local_inode target_inum (files s) in
                  if S_ISDIR (i_mode my_inode) \<and> (access_mode = O_WRONLY \<or> access_mode = O_RDWR)
                  then Some (- EISDIR, fi, s)
                  else (let (fh, s) = oft_add target_inum (fi_flags fi) s
                        in Some (0, fi\<lparr>fi_fh := fh\<rparr>, s)))))"

text \<open>The result is the return value and the buffer afterwards.\<close>

definition fs_read ::
    "byte list \<Rightarrow> int \<Rightarrow> int \<Rightarrow> fuse_file_info option \<Rightarrow> layer2 \<Rightarrow> (int \<times> byte list) option" where
  "fs_read buf sz offset fi s =
    (case fi of
       None \<Rightarrow> Some (- EBADF, buf)
     | Some fi \<Rightarrow>
         (case oft_lookup (c_int (fi_fh fi)) s of
            None \<Rightarrow> Some (- EBADF, buf)
          | Some (inum, flags) \<Rightarrow>
              (let access_mode = fi_flags fi AND O_ACCMODE in
               if access_mode \<noteq> O_RDWR \<and> access_mode \<noteq> O_RDONLY then Some (- EBADF, buf)
               else read_i inum (Some buf) offset sz (files s))))"

definition fs_write ::
    "byte list \<Rightarrow> int \<Rightarrow> int \<Rightarrow> fuse_file_info option \<Rightarrow> layer2 \<Rightarrow> (int \<times> layer2) option" where
  "fs_write buf sz offset fi s =
    (case fi of
       None \<Rightarrow> Some (- EBADF, s)
     | Some fi \<Rightarrow>
         (case oft_lookup (c_int (fi_fh fi)) s of
            None \<Rightarrow> Some (- EBADF, s)
          | Some (inum, flags) \<Rightarrow>
              (let access_mode = fi_flags fi AND O_ACCMODE in
               if access_mode \<noteq> O_RDWR \<and> access_mode \<noteq> O_WRONLY then Some (- EBADF, s)
               else
                 (let (ret, my_inode) = local_inode inum (files s) in
                  if flags AND O_APPEND \<noteq> 0 \<and> ret \<noteq> SUCCESS then Some (- EBADF, s)
                  else
                    (let actual_offset =
                           (if flags AND O_APPEND \<noteq> 0 then uint (i_size my_inode) else offset)
                     in map_option (\<lambda>(ret, s). (if ret = DATA_FULL then - ENOSPC else ret, s))
                          (on_files (write_i inum (Some buf) actual_offset sz (files s)) s))))))"

definition fs_release :: "fuse_file_info option \<Rightarrow> layer2 \<Rightarrow> (int \<times> layer2) option" where
  "fs_release fi s =
    (case fi of
       None \<Rightarrow> Some (- EBADF, s)
     | Some fi \<Rightarrow> map_option (\<lambda>(_, s). (0, s)) (oft_remove (c_int (fi_fh fi)) s))"

end
