(* ===== verification/Layer1Props.thy ===== *)
theory Layer1Props
  imports Mkfs
begin

text \<open>
  The properties of layers 0 and 1.  \<open>formatted\<close> is the concrete disk the witnesses run on:
  \<open>mkfs(100, 0, 0)\<close> on a program that has just started.
\<close>

section \<open>A formatted disk\<close>

definition blank :: layer1 where
  "blank = \<lparr>disk = None, total_blocks = UNINITIALIZED_BLOCKS, junk = (\<lambda>_. 0), cached_superblock = None\<rparr>"

definition formatted :: layer1 where
  "formatted = snd (mkfs True 100 0 0 blank)"

definition root_block :: nat where
  "root_block = unat (i_direct_blocks (inode_at formatted 1) ! 0)"

lemma isize_100 [simp]: "isize 100 = 10" "bsize 100 = 1"
  by (simp_all add: isize_def bsize_def)

lemma direct_0_dir_inode: "i_direct_blocks (dir_inode m u g b) ! 0 = word_of_int b"
  using inode_wf_zero by (simp add: dir_inode_def inode_wf_def c_consts)

lemma formatted_facts:
  shows formatted_ok: "fs_ok formatted" and formatted_mounted: "mounted formatted"
    and formatted_nblocks: "nblocks formatted = 100"
    and formatted_ndata: "ndata formatted = 89" and formatted_ninodes: "ninodes formatted = 459"
    and formatted_free_data: "free_data formatted = {1..89} - {root_block}"
    and formatted_free_inums: "free_inums formatted = {2..459}"
    and formatted_root_block: "valid_data formatted root_block"
    and formatted_root: "inode_at formatted 1 = dir_inode S_IRWXUGO 0 0 (int root_block)"
    and formatted_root_dir: "dir_base_block 1 0 (data_blk formatted root_block)"
proof -
  have "(4 :: int) \<le> 100" "(0 :: int) \<le> 0" by simp_all
  from mkfs_spec[OF this(1,2,2), of blank]
  obtain b t where t: "mkfs True 100 0 0 blank = (SUCCESS, t)" "fs_ok t"
    "nblocks t = min (nat 100) MAX_FS_SIZE" "ndata t = nblocks t - 1 - isize (nblocks t)"
    "ninodes t = (isize (nblocks t) - bsize (nblocks t)) * INODES_PER_BLOCK"
    "valid_data t b" "free_data t = {1..ndata t} - {b}" "free_inums t = {2..ninodes t}"
    "inode_at t 1 = dir_inode S_IRWXUGO 0 0 (int b)" "dir_base_block 1 0 (data_blk t b)"
    by blast
  have f: "formatted = t" using t(1) by (simp add: formatted_def)
  have n: "nblocks t = 100" using t(3) by (simp add: MAX_FS_SIZE_def)
  have dims: "ndata t = 89" "ninodes t = 459" using t(4,5) by (simp_all add: n INODES_PER_BLOCK_eq)
  have b: "b < 2 ^ 32" using t(6) dims by (simp add: valid_data_def)
  have r: "root_block = b"
    unfolding root_block_def f t(9) direct_0_dir_inode using unat_u32_of_nat[OF b] by simp
  show "fs_ok formatted" "mounted formatted" "nblocks formatted = 100" "ndata formatted = 89"
    "ninodes formatted = 459" "free_data formatted = {1..89} - {root_block}"
    "free_inums formatted = {2..459}" "valid_data formatted root_block"
    "inode_at formatted 1 = dir_inode S_IRWXUGO 0 0 (int root_block)"
    "dir_base_block 1 0 (data_blk formatted root_block)"
    unfolding f r using t(2,6,9,10) fs_ok_mounted[OF t(2)] t(7,8)[unfolded dims] dims n
    by blast+
qed

lemma formatted_first_free: "first_free formatted n \<longleftrightarrow> n = 2"
proof -
  have v: "valid_inum formatted k \<longleftrightarrow> 1 \<le> k \<and> k \<le> 459" for k
    by (simp add: valid_inum_def formatted_ninodes)
  have u: "inode_used formatted k \<longleftrightarrow> \<not> (2 \<le> k \<and> k \<le> 459)" if "valid_inum formatted k" for k
  proof -
    have "k \<in> free_inums formatted \<longleftrightarrow> 2 \<le> k \<and> k \<le> 459" unfolding formatted_free_inums by simp
    then show ?thesis using that unfolding free_inums_def by blast
  qed
  show ?thesis
  proof
    assume "first_free formatted n"
    then have n: "1 \<le> n" "n \<le> 459" "2 \<le> n" and m: "\<And>m. valid_inum formatted m \<Longrightarrow> m < n \<Longrightarrow> inode_used formatted m"
      using v[of n] u[of n] unfolding first_free_def by blast+
    have "\<not> inode_used formatted 2" using u[of 2] v[of 2] by simp
    then show "n = 2" using m[of 2] v[of 2] n by force
  next
    assume n: "n = 2"
    have "inode_used formatted m" if "valid_inum formatted m" "m < 2" for m using u[OF that(1)] that(2) by simp
    then show "first_free formatted n" using n u[of 2] v[of 2] unfolding first_free_def by simp
  qed
qed

section \<open>Formatting\<close>

text \<open>
  C12: \<open>mkfs\<close> with at least four blocks and non-negative owner succeeds.  The disk has the requested
  number of blocks, clamped to \<open>MAX_FS_SIZE\<close>; the free list is a well-formed chain that holds every
  data block but the one of the root directory, the bitmap marks inode 1 and no other, and inode 1
  is a directory owned by the caller whose block lists \<open>.\<close> and \<open>..\<close>, both as inode 1.
\<close>
theorem mkfs_formats:
  assumes "4 \<le> blocks" "0 \<le> uid" "0 \<le> gid"
  shows "\<exists>b t. mkfs True blocks uid gid s = (SUCCESS, t) \<and> fs_ok t \<and>
    nblocks t = min (nat blocks) MAX_FS_SIZE \<and> valid_data t b \<and>
    free_data t = {1..ndata t} - {b} \<and> free_inums t = {2..ninodes t} \<and>
    sb_root_inode (sb_of t) = 1 \<and> inode_at t 1 = dir_inode S_IRWXUGO uid gid (int b) \<and>
    dir_base_block 1 0 (data_blk t b)"
  using mkfs_spec[OF assms, of s] by blast

lemma mkfs_formats_witness: "\<exists>t. mkfs True 4 1000 1000 blank = (SUCCESS, t) \<and> fs_ok t"
proof -
  have "(4 :: int) \<le> 4" "(0 :: int) \<le> 1000" by simp_all
  from mkfs_formats[OF this(1,2,2), of blank] show ?thesis by blast
qed

text \<open>
  C39: the geometry that \<open>init_superblock\<close> computes in doubles.  For every admissible size the two
  rounded ceilings are the exact ones: a tenth of the blocks, rounded up, for the inodes, of which
  the bitmap takes \<open>bsize n\<close>, enough bits for all inodes; the four regions follow each other
  without gap or overlap and fill the disk.
\<close>
theorem mkfs_geometry:
  assumes "4 \<le> n" "n \<le> MAX_FS_SIZE"
  shows "geometry (init_sb (int n)) n \<and>
    unat (sb_ibitmap_size (init_sb (int n))) = bsize n \<and>
    unat (sb_ilist_size (init_sb (int n))) = isize n - bsize n \<and>
    unat (sb_data_size (init_sb (int n))) = n - 1 - isize n \<and>
    unat (sb_num_inodes (init_sb (int n))) = (isize n - bsize n) * INODES_PER_BLOCK"
proof -
  have n: "n \<le> 250000" using assms(2) by (simp add: MAX_FS_SIZE_def)
  note b = sizes_bounds[OF assms]
  have u: "unat (word_of_nat k :: u32) = k" if "k \<le> 250000" for k
    using that by (intro unat_u32_of_nat) simp
  have "isize n - bsize n \<le> 25000" using b by linarith
  then have u51: "unat (word_of_nat ((isize n - bsize n) * 51) :: u32) = (isize n - bsize n) * 51"
    by (intro unat_u32_of_nat) simp
  show ?thesis
    unfolding init_sb_int[OF assms] superblock.select_convs
    using geometry_init_sb[OF assms, unfolded init_sb_int[OF assms]] b n
    by (intro conjI u, simp_all only: INODES_PER_BLOCK_eq) (use u51 in simp_all)
qed

lemma mkfs_geometry_witness: "geometry (init_sb (int 250000)) 250000"
  using mkfs_geometry[of 250000] by (simp add: MAX_FS_SIZE_def)

text \<open>
  \<open>init_freelist\<close> on a mounted disk whose superblock names block 1 as head: the resulting free
  list holds every data block exactly once, in ascending order, and nothing outside the data
  region is touched.
\<close>
theorem init_freelist_complete:
  assumes "mounted s" "fl_head s = 1"
  shows "\<exists>t. init_freelist s = (SUCCESS, t) \<and> fs_ok t \<and> free_list t = [1..<ndata s + 1] \<and>
    sb_of t = sb_of s \<and> (\<forall>m. 0 < m \<and> m < data_off s \<longrightarrow> blk t m = blk s m)"
proof -
  obtain t where t: "init_freelist s = (SUCCESS, t)" "fs_ok t" "data_step s t" "sb_of t = sb_of s"
    "free_list t = [1..<ndata s + 1]" using init_freelist_ok[OF assms] by blast
  have "\<forall>m. 0 < m \<and> m < data_off s \<longrightarrow> blk t m = blk s m" using t(3) unfolding data_step_def by blast
  with t show ?thesis by blast
qed

text \<open>The disk right after \<open>init_superblock\<close>.\<close>

definition fresh :: layer1 where
  "fresh = put_superblock (init_sb (int 4000))
    (blank\<lparr>disk := Some (replicate (4000 * BLOCK_SIZE) 0), total_blocks := 4000\<rparr>)"

lemma fresh_ok: "mounted fresh" "fl_head fresh = 1" "ndata fresh = 3599"
proof -
  let ?s = "blank\<lparr>disk := Some (replicate (4000 * BLOCK_SIZE) 0), total_blocks := 4000\<rparr>"
  have "disk_ok ?s" "nblocks ?s = 4000" by (simp_all add: disk_ok_def nblocks_def)
  from init_superblock_ok(2)[OF this] show "mounted fresh" by (simp add: fresh_def MAX_FS_SIZE_def)
  have "init_sb (int 4000) = init_sb 4000" by simp
  then have sb: "sb_of fresh = init_sb (int 4000)" by (simp add: fresh_def)
  have n: "(4 :: nat) \<le> 4000" "4000 \<le> MAX_FS_SIZE" by (simp_all add: MAX_FS_SIZE_def)
  show "fl_head fresh = 1" unfolding fl_head_def sb init_sb_int[OF n] by simp
  have "isize 4000 = 400" by (simp add: isize_def)
  then show "ndata fresh = 3599" unfolding ndata_def sb init_sb_int[OF n] by simp
qed

lemma init_freelist_complete_witness:
  "\<exists>t. init_freelist fresh = (SUCCESS, t) \<and> free_list t = [1..<3600]"
  using init_freelist_complete[OF fresh_ok(1,2)] unfolding fresh_ok(3) by fastforce

section \<open>Blocks and the superblock\<close>

lemma read_block_range:
  "disk_ok s \<Longrightarrow> n < 0 \<or> total_blocks s \<le> n \<Longrightarrow> read_block n (Some b) s = (INVALID_BLOCK, b)"
  "disk_ok s \<Longrightarrow> n < 0 \<or> total_blocks s \<le> n \<Longrightarrow> write_block n p s = (INVALID_BLOCK, s)"
  by (auto simp: read_block_def write_block_def disk_ok_def split: option.splits)

text \<open>
  The disk is a store of blocks.  Inside the range, \<open>write_block\<close> succeeds, the block reads back
  as written, and every other read, including those out of range, returns what it returned before;
  outside the range both operations return \<open>INVALID_BLOCK\<close> and change nothing.
\<close>
theorem block_read_after_write:
  assumes "disk_ok s" "is_block b" "is_block buf"
  shows "if 0 \<le> n \<and> n < total_blocks s
    then \<exists>t. write_block n (Some b) s = (SUCCESS, t) \<and> disk_ok t \<and>
      read_block n (Some buf) t = (SUCCESS, b) \<and>
      (\<forall>m. m \<noteq> n \<longrightarrow> read_block m (Some buf) t = read_block m (Some buf) s)
    else write_block n (Some b) s = (INVALID_BLOCK, s) \<and>
      read_block n (Some buf) s = (INVALID_BLOCK, buf)"
proof (cases "0 \<le> n \<and> n < total_blocks s")
  case True
  let ?t = "put_blk (nat n) b s"
  have n: "nat n < nblocks s" using True by (simp add: nblocks_def)
  have t: "disk_ok ?t" "total_blocks ?t = total_blocks s" using assms n by simp_all
  have "read_block m (Some buf) ?t = read_block m (Some buf) s" if "m \<noteq> n" for m
  proof (cases "0 \<le> m \<and> m < total_blocks s")
    case m: True
    then have "nat m \<noteq> nat n" using that True by auto
    then show ?thesis
      using m t assms n by (simp add: read_block_ok blk_put_blk)
  next
    case False
    then have "m < 0 \<or> total_blocks s \<le> m" by linarith
    then show ?thesis using read_block_range(1)[OF t(1), of m buf] read_block_range(1)[OF assms(1), of m buf]
      by (simp only: t(2))
  qed
  moreover have "read_block n (Some buf) ?t = (SUCCESS, b)"
    using True t assms n by (simp add: read_block_ok blk_put_blk)
  ultimately show ?thesis using True t assms write_block_ok[of s n b] by auto
next
  case False
  then have "n < 0 \<or> total_blocks s \<le> n" by linarith
  then show ?thesis using read_block_range[OF assms(1)] False by (simp only: if_False)
qed

lemma block_read_after_write_witness:
  "\<exists>t. write_block 7 (Some (replicate 4096 1)) formatted = (SUCCESS, t) \<and>
    read_block 7 (Some (replicate 4096 0)) t = (SUCCESS, replicate 4096 1)"
proof -
  have "total_blocks formatted = 100"
    using mounted_total_blocks[OF formatted_mounted] formatted_nblocks by simp
  moreover have "is_block (replicate 4096 1)" "is_block (replicate 4096 0)"
    by (simp_all add: is_block_def BLOCK_SIZE_def)
  ultimately show ?thesis
    using block_read_after_write[OF mounted_disk_ok[OF formatted_mounted],
        of "replicate 4096 1" "replicate 4096 0" 7] by auto
qed

text \<open>
  No address computation overflows.  On a mounted disk of at most \<open>MAX_FS_SIZE\<close> blocks, the limit
  that \<open>mkfs\<close> enforces, every block number that passes the
  guards of \<open>read_block\<close> and \<open>write_block\<close> gives an \<open>int\<close> offset \<open>blocknum * BLOCK_SIZE\<close> whose whole
  block lies inside the memory of the disk and below \<open>2 ^ 31\<close>.
\<close>
theorem block_address_fits:
  assumes "mounted s" "0 \<le> n" "n < total_blocks s" "total_blocks s \<le> int MAX_FS_SIZE"
  shows "nat n * BLOCK_SIZE + BLOCK_SIZE \<le> length (contents (disk s)) \<and>
    length (contents (disk s)) < 2 ^ 31"
proof -
  obtain d where d: "disk s = Some d" "length d = nblocks s * BLOCK_SIZE"
    using mounted_disk_ok[OF assms(1)] by (rule disk_okE)
  have "nat n < nblocks s" using assms(2,3) by (simp add: nblocks_def)
  then have "nat n * BLOCK_SIZE + BLOCK_SIZE \<le> nblocks s * BLOCK_SIZE" by (rule slot_inside)
  then show ?thesis using d mounted_total_blocks[OF assms(1)] assms(4) by (simp add: BLOCK_SIZE_def MAX_FS_SIZE_def)
qed

lemma block_address_fits_witness:
  "99 * BLOCK_SIZE + BLOCK_SIZE \<le> length (contents (disk formatted))"
  using block_address_fits[OF formatted_mounted, of 99] mounted_total_blocks[OF formatted_mounted]
    formatted_nblocks by (simp add: MAX_FS_SIZE_def)

text \<open>
  \<open>write_superblock\<close> keeps the cache and block 0 in step: after it the disk is mounted, and
  \<open>read_superblock\<close> returns the written superblock both through the cache and, when the cache is
  empty, from block 0; blocks other than 0 keep their contents.
\<close>
theorem superblock_coherent:
  assumes "disk_ok s" "geometry sb (nblocks s)"
  shows "\<exists>t. write_superblock (Some sb) s = (SUCCESS, t) \<and> mounted t \<and>
    read_superblock (Some old) t = (SUCCESS, sb) \<and>
    read_superblock (Some old) (t\<lparr>cached_superblock := None\<rparr>) = (SUCCESS, sb) \<and>
    (\<forall>m. m \<noteq> 0 \<longrightarrow> blk t m = blk s m)"
proof -
  let ?t = "put_superblock sb s"
  have pos: "0 < nblocks s" using assms(2) by (simp add: geometry_def)
  have m: "mounted ?t" using assms by (rule mounted_put_superblock)
  have "read_superblock (Some old) (?t\<lparr>cached_superblock := None\<rparr>) = (SUCCESS, sb)"
    using read_superblock_uncached[OF m, of old] by simp
  moreover have "read_superblock (Some old) ?t = (SUCCESS, sb)" by (simp add: read_superblock_def)
  ultimately show ?thesis
    using write_superblock_ok[OF assms(1) pos] m blk_put_superblock[OF assms(1) pos]
    by (intro exI[of _ ?t]) simp
qed

lemma superblock_coherent_witness:
  "\<exists>t. write_superblock (Some (init_sb (int 100))) formatted = (SUCCESS, t) \<and>
    read_superblock (Some zero_superblock) (t\<lparr>cached_superblock := None\<rparr>) = (SUCCESS, init_sb (int 100))"
proof -
  have "geometry (init_sb (int 100)) (nblocks formatted)"
    unfolding formatted_nblocks by (rule geometry_init_sb) (simp_all add: MAX_FS_SIZE_def)
  from superblock_coherent[OF mounted_disk_ok[OF formatted_mounted] this, of zero_superblock]
  show ?thesis by blast
qed

section \<open>Inodes\<close>

text \<open>
  The inode table.  \<open>inode_write\<close> of a valid number succeeds; that inode reads back as written,
  every other inode, every data block, the bitmap and the free list are as before.  A number
  outside \<open>1 .. num_inodes\<close> gives \<open>BAD_INODE\<close> and changes nothing.
\<close>
theorem inode_read_after_write:
  assumes "fs_ok s" "inode_wf i"
  shows "if 1 \<le> n \<and> n \<le> int (ninodes s)
    then \<exists>t. inode_write n (Some i) s = (SUCCESS, t) \<and> fs_ok t \<and>
      inode_read n (Some old) t = (SUCCESS, i) \<and>
      (\<forall>m. m \<noteq> n \<longrightarrow> inode_read m (Some old) t = inode_read m (Some old) s) \<and>
      (\<forall>c. data_blk t c = data_blk s c) \<and> free_inums t = free_inums s \<and> free_data t = free_data s
    else inode_write n (Some i) s = (BAD_INODE, s) \<and> inode_read n (Some old) s = (BAD_INODE, old)"
proof (cases "1 \<le> n \<and> n \<le> int (ninodes s)")
  case True
  have m: "mounted s" using assms(1) by (rule fs_ok_mounted)
  have n: "valid_inum s (nat n)" "int (nat n) = n" using True by (auto simp: valid_inum_def)
  let ?t = "put_inode (nat n) i s"
  have t: "mounted ?t" "valid_inum ?t (nat n)" using m n assms(2) by simp_all
  note fr = fs_frame_put_inode[OF assms(1) n(1) assms(2)]
  have "inode_read k (Some old) ?t = inode_read k (Some old) s" if "k \<noteq> n" for k
  proof (cases "1 \<le> k \<and> k \<le> int (ninodes s)")
    case k: True
    then have v: "valid_inum s (nat k)" "int (nat k) = k" "nat k \<noteq> nat n"
      using that n(2) by (auto simp: valid_inum_def)
    then show ?thesis
      using inode_read_ok[OF m v(1), of old] inode_read_ok[OF t(1), of "nat k" old] fs_frameD(8)[OF fr v(1)]
      by simp
  next
    case False
    then have "k \<le> 0 \<or> int (ninodes s) < k" by linarith
    then show ?thesis using inode_read_bad(1)[OF m] inode_read_bad(1)[OF t(1)] by simp
  qed
  moreover have "inode_read n (Some old) ?t = (SUCCESS, i)"
    using inode_read_ok[OF t, of old] inode_at_put_inode[OF m n(1) assms(2), of "nat n"] n
    by (simp add: valid_inum_def)
  moreover have "inode_write n (Some i) s = (SUCCESS, ?t)"
    using inode_write_ok[OF m n(1) assms(2)] n(2) by simp
  moreover have "free_data ?t = free_data s" "free_inums ?t = free_inums s"
    using inode_step_free_list(2)[OF inode_step_put_inode[OF m n(1) assms(2)]]
      put_inode_free_inums[OF m n(1) assms(2)] by simp_all
  ultimately show ?thesis
    using True fs_frameD(1)[OF fr] fs_frameD(9)[OF fr] by auto
next
  case False
  then have "n \<le> 0 \<or> int (ninodes s) < n" by linarith
  then show ?thesis using inode_read_bad[OF fs_ok_mounted[OF assms(1)]] False by (simp only: if_False)
qed

lemma inode_read_after_write_witness:
  "\<exists>t. inode_write 459 (Some zero_inode) formatted = (SUCCESS, t) \<and>
    inode_read 459 (Some zero_inode) t = (SUCCESS, zero_inode)"
  using inode_read_after_write[OF formatted_ok inode_wf_zero, of 459 zero_inode] formatted_ninodes by auto

lemma first_free_Min:
  assumes "mounted s" "first_free s n"
  shows "Min (free_inums s) = n"
proof (rule Min_eqI)
  show "finite (free_inums s)" by (rule inodes.finite_free[OF assms(1)])
  show "n \<in> free_inums s" using assms(2) by (simp add: first_free_def free_inums_def)
  show "n \<le> m" if "m \<in> free_inums s" for m
  proof (rule leI, rule notI)
    assume "m < n"
    then show False using that assms(2) unfolding first_free_def free_inums_def by blast
  qed
qed

text \<open>
  C15: \<open>inode_create\<close> hands out the lowest free inode number, writes the given inode there, marks it
  used, and changes no other inode, no data block and not the free list; when every inode is
  used it returns \<open>ILIST_FULL\<close> and changes nothing.
\<close>
theorem inode_create_first_fit:
  assumes "fs_ok s" "inode_wf node"
  shows "(if free_inums s = {}
     then inode_create (Some node) (Some old) s = (ILIST_FULL, old, s)
     else \<exists>t. inode_create (Some node) (Some old) s = (SUCCESS, int (Min (free_inums s)), t) \<and>
       fs_frame {Min (free_inums s)} {} s t \<and> inode_at t (Min (free_inums s)) = node \<and>
       free_inums t = free_inums s - {Min (free_inums s)} \<and> free_data t = free_data s)"
proof (cases "free_inums s = {}")
  case True
  then show ?thesis using inode_create_frame[OF assms, of old]
    by (auto simp: first_free_def free_inums_def)
next
  case False
  then obtain n t where t: "inode_create (Some node) (Some old) s = (SUCCESS, int n, t)"
    "first_free s n" "fs_frame {n} {} s t" "inode_at t n = node" "free_inums t = free_inums s - {n}"
    "free_data t = free_data s" using inode_create_frame[OF assms, of old] by blast
  have "Min (free_inums s) = n" using fs_ok_mounted[OF assms(1)] t(2) by (rule first_free_Min)
  then show ?thesis unfolding if_not_P[OF False] using t by blast
qed

lemma inode_create_first_fit_witness:
  "\<exists>t. inode_create (Some zero_inode) (Some 0) formatted = (SUCCESS, 2, t)"
proof -
  have "Min (free_inums formatted) = 2" unfolding formatted_free_inums by (rule Min_eqI) simp_all
  moreover have "free_inums formatted \<noteq> {}" unfolding formatted_free_inums by simp
  ultimately show ?thesis
    using inode_create_first_fit[OF formatted_ok inode_wf_zero, of 0] by auto
qed

text \<open>
  \<open>inode_free\<close> gives a number back.  Freeing the inode just created restores the set of free
  numbers, keeps every used inode, and the next \<open>inode_create\<close> returns the same number.
\<close>
theorem inode_free_undoes_create:
  assumes "fs_ok s" "inode_wf node" "inode_create (Some node) (Some old) s = (SUCCESS, n, t)"
  shows "\<exists>u. inode_free n t = (SUCCESS, u) \<and> fs_ok u \<and> free_inums u = free_inums s \<and>
    (\<forall>k. valid_inum s k \<and> k \<notin> free_inums s \<longrightarrow> inode_at u k = inode_at s k) \<and>
    (\<forall>c. data_blk u c = data_blk s c) \<and>
    fst (snd (inode_create (Some node) (Some old) u)) = n"
proof -
  have ne: "free_inums s \<noteq> {}" using inode_create_frame[OF assms(1,2), of old] assms(3)
    by (auto simp: first_free_def free_inums_def)
  then obtain k where k: "n = int k" "first_free s k" "fs_frame {k} {} s t"
    "free_inums t = free_inums s - {k}"
    using inode_create_frame[OF assms(1,2), of old] assms(3) by auto
  have v: "valid_inum t k" "fs_ok t" using k(2) fs_frameD[OF k(3)] by (simp_all add: first_free_def)
  let ?u = "clear_inode k t"
  note fr = inode_free_frame[OF v(2,1)]
  have kf: "k \<in> free_inums s" using k(2) by (simp add: first_free_def free_inums_def)
  have su: "fs_frame {k} {} s ?u" by (rule fs_frame_trans[OF k(3) fr(2)]) auto
  have free: "free_inums ?u = free_inums s" using fr(3) k(4) kf by auto
  have "fst (snd (inode_create (Some node) (Some old) ?u)) = int k"
  proof -
    obtain k' t' where k': "inode_create (Some node) (Some old) ?u = (SUCCESS, int k', t')" "first_free ?u k'"
      using inode_create_frame[OF fs_frameD(1)[OF su] assms(2), of old] ne free by blast
    have "k' = k"
      using first_free_Min[OF fs_frameD(2)[OF su] k'(2)]
        first_free_Min[OF fs_ok_mounted[OF assms(1)] k(2)] free by simp
    then show ?thesis using k'(1) by simp
  qed
  moreover have "\<forall>j. valid_inum s j \<and> j \<notin> free_inums s \<longrightarrow> inode_at ?u j = inode_at s j"
    using fs_frameD(8)[OF su] kf by blast
  ultimately show ?thesis
    using fr(1) free fs_frameD(1,9)[OF su] k(1) by (intro exI[of _ ?u]) simp
qed

lemma inode_free_undoes_create_witness:
  "\<exists>t u. inode_create (Some zero_inode) (Some 0) formatted = (SUCCESS, 2, t) \<and>
    inode_free 2 t = (SUCCESS, u) \<and> free_inums u = free_inums formatted"
proof -
  have "free_inums formatted \<noteq> {}" unfolding formatted_free_inums by simp
  then obtain n t where t: "inode_create (Some zero_inode) (Some 0) formatted = (SUCCESS, int n, t)"
    "first_free formatted n"
    using inode_create_frame[OF formatted_ok inode_wf_zero, of 0] by blast
  then have "inode_create (Some zero_inode) (Some 0) formatted = (SUCCESS, 2, t)"
    by (simp add: formatted_first_free)
  with inode_free_undoes_create[OF formatted_ok inode_wf_zero this] show ?thesis by blast
qed

text \<open>
  A run of \<open>inode_create\<close> calls succeeds exactly as often as inodes are free, and the numbers it
  returns are pairwise different, were free before, and each holds the inode passed for it.
\<close>
theorem inode_create_runs:
  assumes "mounted s" "\<forall>v \<in> set vs. inode_wf v"
  shows "(case allocator.alloc_all alloc_inode vs s of
      None \<Rightarrow> card (free_inums s) < length vs
    | Some (ns, t) \<Rightarrow> length vs \<le> card (free_inums s) \<and> distinct ns \<and> set ns \<subseteq> free_inums s \<and>
        length ns = length vs \<and> (\<forall>i < length vs. inode_at t (ns ! i) = vs ! i) \<and>
        free_inums t = free_inums s - set ns)"
  using inodes.alloc_all_enough[OF assms] inodes.alloc_all_result[OF assms]
  by (auto split: option.splits)

lemma inode_create_runs_witness:
  "allocator.alloc_all alloc_inode (replicate 458 zero_inode) formatted \<noteq> None \<and>
   allocator.alloc_all alloc_inode (replicate 459 zero_inode) formatted = None"
proof -
  have c: "card (free_inums formatted) = 458" unfolding formatted_free_inums by simp
  have w: "\<forall>v \<in> set (replicate k zero_inode). inode_wf v" for k by simp
  show ?thesis
    using inode_create_runs[OF formatted_mounted w[of 458]] inode_create_runs[OF formatted_mounted w[of 459]]
    unfolding c length_replicate by (auto split: option.splits)
qed

section \<open>Data blocks\<close>

text \<open>
  C14: \<open>data_allocate\<close>.  With an empty free list it returns \<open>DATA_FULL\<close> and changes nothing.
  Otherwise it takes one block off the free list, stores the caller's data in it, and keeps the
  free list well formed, every inode, and every block that was not free.
\<close>
theorem data_allocate_takes_free:
  assumes "fs_ok s" "is_block v"
  shows "(if free_data s = {} then data_allocate (Some v) old s = (DATA_FULL, old, s)
    else \<exists>b t. data_allocate (Some v) old s = (SUCCESS, int b, t) \<and> b \<in> free_data s \<and>
      fs_frame {} (free_data s) s t \<and> free_data t = free_data s - {b} \<and>
      data_read (int b) (Some v) t = (SUCCESS, v) \<and> free_inums t = free_inums s)"
proof (cases "free_data s = {}")
  case True
  then show ?thesis using data_allocate_frame[OF assms, of old] by auto
next
  case False
  then obtain b t where t: "data_allocate (Some v) old s = (SUCCESS, int b, t)" "b \<in> free_data s"
    "fs_frame {} (free_data s) s t" "free_data t = free_data s - {b}" "data_blk t b = v"
    "free_inums t = free_inums s" using data_allocate_frame[OF assms, of old] by blast
  have "valid_data t b" using free_data_valid[OF assms(1) t(2)] fs_frameD(7)[OF t(3)] by simp
  then have "data_read (int b) (Some v) t = (SUCCESS, v)"
    using data_read_ok[OF fs_frameD(2)[OF t(3)] _ assms(2), of b] t(5) by simp
  then show ?thesis unfolding if_not_P[OF False] using t by blast
qed

lemma formatted_free_data_ne: "free_data formatted \<noteq> {}"
proof -
  have "card {1..89 :: nat} = 89" by simp
  then have "card ({1..89} - {root_block}) \<noteq> 0"
    using formatted_root_block by (simp add: valid_data_def formatted_ndata)
  then show ?thesis unfolding formatted_free_data by (metis card.empty)
qed

lemma is_block_zeros [simp]: "is_block (replicate BLOCK_SIZE 0)"
  by (simp add: is_block_def)

lemma data_allocate_takes_free_witness:
  "\<exists>b t. data_allocate (Some (replicate BLOCK_SIZE 0)) 0 formatted = (SUCCESS, int b, t) \<and>
    free_data t = free_data formatted - {b}"
  using data_allocate_takes_free[OF formatted_ok is_block_zeros, of 0]
  unfolding if_not_P[OF formatted_free_data_ne] by blast

text \<open>
  C40: \<open>data_free\<close> of a valid block that is not free returns: its walk along the free list ends, the
  block is added to the free list, and no inode and no other block in use is changed.  Numbers
  outside \<open>1 .. data_size\<close> give \<open>INVALID_BLOCK\<close>.
\<close>
theorem data_free_returns:
  assumes "fs_ok s" "\<not> (1 \<le> n \<and> n \<le> int (ndata s) \<and> nat n \<in> free_data s)"
  shows "(if 1 \<le> n \<and> n \<le> int (ndata s)
    then \<exists>t. data_free n s = Some (SUCCESS, t) \<and> fs_frame {} (insert (nat n) (free_data s)) s t \<and>
      free_data t = insert (nat n) (free_data s) \<and> free_inums t = free_inums s
    else data_free n s = Some (INVALID_BLOCK, s))"
proof (cases "1 \<le> n \<and> n \<le> int (ndata s)")
  case True
  then have n: "valid_data s (nat n)" "int (nat n) = n" by (auto simp: valid_data_def)
  have "nat n \<notin> free_data s" using True assms(2) by simp
  from data_free_frame[OF assms(1) n(1) this] show ?thesis unfolding n(2) if_P[OF True] .
next
  case False
  have m: "mounted s" using assms(1) by (rule fs_ok_mounted)
  from False consider "int (ndata s) < n \<or> n < 0" | "n = 0" by linarith
  then have "data_free n s = Some (INVALID_BLOCK, s)"
  proof cases
    case 1
    then show ?thesis by (rule data_access_bad(3)[OF m])
  next
    case 2
    then show ?thesis using m by (simp add: data_free_def)
  qed
  then show ?thesis using False by (simp only: if_False)
qed

lemma data_free_returns_witness:
  "\<exists>t. data_free (int root_block) formatted = Some (SUCCESS, t) \<and> free_data t = {1..89}"
proof -
  have r: "1 \<le> root_block" "root_block \<le> 89"
    using formatted_root_block unfolding valid_data_def formatted_ndata by simp_all
  have nf: "\<not> (1 \<le> int root_block \<and> int root_block \<le> int (ndata formatted) \<and>
      nat (int root_block) \<in> free_data formatted)"
    unfolding formatted_free_data by simp
  have c: "1 \<le> int root_block \<and> int root_block \<le> int (ndata formatted)"
    using r unfolding formatted_ndata by simp
  have "insert root_block ({1..89} - {root_block}) = {1..89}" using r by auto
  then show ?thesis
    using data_free_returns[OF formatted_ok nf] unfolding if_P[OF c] nat_int formatted_free_data
    by auto
qed

text \<open>
  Allocating a block and freeing it again restores the set of free blocks and leaves every block
  in use and every inode as it was.
\<close>
theorem data_free_undoes_allocate:
  assumes "fs_ok s" "is_block v" "data_allocate (Some v) old s = (SUCCESS, n, t)"
  shows "\<exists>u. data_free n t = Some (SUCCESS, u) \<and> fs_frame {} (free_data s) s u \<and>
    free_data u = free_data s \<and> free_inums u = free_inums s"
proof -
  obtain b where b: "n = int b" "b \<in> free_data s" "fs_frame {} (free_data s) s t"
    "free_data t = free_data s - {b}" "free_inums t = free_inums s"
    using data_allocate_frame[OF assms(1,2), of old] assms(3) by auto
  have v: "valid_data t b" using free_data_valid[OF assms(1) b(2)] fs_frameD(7)[OF b(3)] by simp
  have "b \<notin> free_data t" using b(4) by simp
  from data_free_frame[OF fs_frameD(1)[OF b(3)] v this] obtain u where u: "data_free n t = Some (SUCCESS, u)"
    "fs_frame {} (insert b (free_data t)) t u" "free_data u = insert b (free_data t)"
    "free_inums u = free_inums t" unfolding b(1) by blast
  have "insert b (free_data t) = free_data s" using b(2,4) by auto
  then show ?thesis
    using u b(5) fs_frame_trans[OF b(3) u(2), of "{}" "free_data s"] by auto
qed

lemma data_free_undoes_allocate_witness:
  "\<exists>n t u. data_allocate (Some (replicate BLOCK_SIZE 0)) 0 formatted = (SUCCESS, n, t) \<and>
    data_free n t = Some (SUCCESS, u) \<and> free_data u = free_data formatted"
proof -
  obtain b t where "data_allocate (Some (replicate BLOCK_SIZE 0)) 0 formatted = (SUCCESS, int b, t)"
    using data_allocate_frame[OF formatted_ok is_block_zeros, of 0] formatted_free_data_ne by blast
  with data_free_undoes_allocate[OF formatted_ok is_block_zeros this] show ?thesis by blast
qed

text \<open>
  A run of \<open>data_allocate\<close> calls succeeds exactly as often as blocks are free; the blocks it
  returns are pairwise different, were free before, and each holds the data passed for it, while
  all blocks in use keep theirs.
\<close>
theorem data_allocate_runs:
  assumes "fs_ok s" "\<forall>v \<in> set vs. is_block v"
  shows "(case allocator.alloc_all alloc_data vs s of
      None \<Rightarrow> card (free_data s) < length vs
    | Some (bs, t) \<Rightarrow> length vs \<le> card (free_data s) \<and> distinct bs \<and> set bs \<subseteq> free_data s \<and>
        length bs = length vs \<and> (\<forall>i < length vs. data_blk t (bs ! i) = vs ! i) \<and>
        (\<forall>c. valid_data s c \<and> c \<notin> free_data s \<longrightarrow> data_blk t c = data_blk s c) \<and>
        free_data t = free_data s - set bs)"
  using blocks.alloc_all_enough[OF assms] blocks.alloc_all_result[OF assms]
  by (auto split: option.splits)

lemma data_allocate_runs_witness:
  "allocator.alloc_all alloc_data (replicate 88 (replicate BLOCK_SIZE 0)) formatted \<noteq> None \<and>
   allocator.alloc_all alloc_data (replicate 89 (replicate BLOCK_SIZE 0)) formatted = None"
proof -
  have "1 \<le> root_block" "root_block \<le> 89"
    using formatted_root_block unfolding valid_data_def formatted_ndata by simp_all
  then have "card ({1..89} - {root_block}) = 88" by simp
  then have c: "card (free_data formatted) = 88" unfolding formatted_free_data .
  have w: "\<forall>v \<in> set (replicate k (replicate BLOCK_SIZE 0)). is_block v" for k by simp
  show ?thesis
    using data_allocate_runs[OF formatted_ok w[of 88]] data_allocate_runs[OF formatted_ok w[of 89]]
    unfolding c length_replicate by (auto split: option.splits)
qed

text \<open>
  C38: creating a directory either succeeds with the lowest free inode and a free block, filled as an
  empty directory whose \<open>..\<close> names the parent, or fails with \<open>ILIST_FULL\<close> or \<open>DATA_FULL\<close>; a
  failure gives back the inode it had taken, so no inode and no block is lost.
\<close>
theorem create_dir_base_all_or_nothing:
  assumes "fs_ok s" "create_dir_base old mode uid gid parent s = (ret, num, t)"
  shows "fs_ok t \<and>
    (if free_inums s = {} then ret = ILIST_FULL else if free_data s = {} then ret = DATA_FULL
     else ret = SUCCESS) \<and>
    (if ret = SUCCESS
     then \<exists>n b. num = int n \<and> first_free s n \<and> b \<in> free_data s \<and> fs_frame {n} (free_data s) s t \<and>
       inode_at t n = dir_inode mode uid gid (int b) \<and> dir_base_block n parent (data_blk t b) \<and>
       free_inums t = free_inums s - {n} \<and> free_data t = free_data s - {b}
     else num = old \<and> fs_frame (free_inums s) {} s t \<and> free_inums t = free_inums s \<and>
       free_data t = free_data s)"
proof -
  consider (ilist) "ret = ILIST_FULL" "num = old" "free_inums s = {}" "fs_frame {} {} s t"
      "free_inums t = free_inums s" "free_data t = free_data s"
    | (data) n where "ret = DATA_FULL" "num = old" "free_data s = {}" "first_free s n"
      "fs_frame {n} {} s t" "free_inums t = free_inums s" "free_data t = free_data s"
    | (created) n b where "ret = SUCCESS" "num = int n" "first_free s n" "b \<in> free_data s"
      "fs_frame {n} (free_data s) s t" "inode_at t n = dir_inode mode uid gid (int b)"
      "dir_base_block n parent (data_blk t b)" "free_inums t = free_inums s - {n}"
      "free_data t = free_data s - {b}"
    using create_dir_base_spec[OF assms(1), of old mode uid gid parent] unfolding assms(2) by auto
  then show ?thesis
  proof cases
    case ilist
    then show ?thesis using fs_frameD(1)[OF ilist(4)] by simp
  next
    case data
    have n: "n \<in> free_inums s" using data(4) by (simp add: first_free_def free_inums_def)
    then have "free_inums s \<noteq> {}" by auto
    moreover have "fs_frame (free_inums s) {} s t" by (rule fs_frame_mono[OF data(5)]) (use n in auto)
    ultimately show ?thesis using data fs_frameD(1)[OF data(5)] by simp
  next
    case created
    have "free_inums s \<noteq> {}" "free_data s \<noteq> {}"
      using created(3,4) by (auto simp: first_free_def free_inums_def)
    then show ?thesis using created fs_frameD(1)[OF created(5)] by auto
  qed
qed

lemma create_dir_base_all_or_nothing_witness:
  "\<exists>num t. create_dir_base 0 S_IRWXUGO 0 0 1 formatted = (SUCCESS, num, t)"
proof -
  obtain ret num t where r: "create_dir_base 0 S_IRWXUGO 0 0 1 formatted = (ret, num, t)"
    by (cases "create_dir_base 0 S_IRWXUGO 0 0 1 formatted")
  have "free_inums formatted \<noteq> {}" unfolding formatted_free_inums by simp
  with create_dir_base_all_or_nothing[OF formatted_ok r] formatted_free_data_ne r show ?thesis
    by simp
qed

end
