(* ===== verification/FileProps.thy ===== *)
theory FileProps
  imports FileWrite Layer1Props
begin

text \<open>
  The properties of the block map and of file input and output.  The witnesses run on
  \<open>with_file\<close>: the formatted disk on which inode 2 was created as an empty file.
\<close>

definition with_file :: layer1 where
  "with_file = snd (snd (inode_create (Some zero_inode) (Some 0) formatted))"

lemma empty_file_good:
  assumes "fs_ok s"
  shows "file_good s zero_inode" "file_set s zero_inode = {}"
    "n < MAX_FILE_BLOCKS \<Longrightarrow> file_map s zero_inode n = 0"
  by (rule no_pointers_good[OF assms]; simp add: file_size_zero_inode)+

lemma with_file_facts:
  shows with_file_ok: "fs_ok with_file" and with_file_inum: "valid_inum with_file 2"
    and with_file_inode: "inode_at with_file 2 = zero_inode"
    and with_file_free: "free_data with_file = {1..89} - {root_block}"
    and with_file_free_inums: "free_inums with_file = {3..459}"
proof -
  have "free_inums formatted \<noteq> {}" by (simp add: formatted_free_inums)
  then obtain n t where t: "inode_create (Some zero_inode) (Some 0) formatted = (SUCCESS, int n, t)"
    "first_free formatted n" "fs_frame {n} {} formatted t" "inode_at t n = zero_inode"
    "free_inums t = free_inums formatted - {n}" "free_data t = free_data formatted"
    using inode_create_frame[OF formatted_ok inode_wf_zero, of 0] by blast
  have n: "n = 2" using t(2) formatted_first_free by simp
  have f: "with_file = t" using t(1) by (simp add: with_file_def)
  show "fs_ok with_file" "inode_at with_file 2 = zero_inode"
    using fs_frameD(1)[OF t(3)] t(4) by (simp_all add: f n)
  show "free_data with_file = {1..89} - {root_block}" using t(6) by (simp add: f formatted_free_data)
  show "free_inums with_file = {3..459}" unfolding f t(5) n formatted_free_inums by auto
  show "valid_inum with_file 2"
    unfolding f fs_frameD(6)[OF t(3)] by (simp add: valid_inum_def formatted_ninodes)
qed

lemmas with_file_good = empty_file_good(1)[OF with_file_ok]
lemmas with_file_set = empty_file_good(2)[OF with_file_ok]
lemmas with_file_map = empty_file_good(3)[OF with_file_ok]
lemmas with_file_size = file_size_zero_inode

lemma with_file_file_ok: "file_ok with_file zero_inode" "file_full with_file zero_inode"
    "file_size zero_inode < 2 ^ 31"
  using file_goodD(1-3)[OF with_file_good] by simp_all

text \<open>Allocating until only \<open>k\<close> blocks are free.\<close>

lemma leave_free:
  assumes "fs_ok s" "k \<le> card (free_data s)"
  shows "\<exists>t. fs_frame {} (free_data s) s t \<and> free_data t \<subseteq> free_data s \<and> card (free_data t) = k"
  using assms
proof (induction "card (free_data s) - k" arbitrary: s)
  case 0
  then show ?case by (intro exI[of _ s]) simp
next
  case (Suc d)
  then have "free_data s \<noteq> {}" by auto
  then obtain b t where t: "b \<in> free_data s" "fs_frame {} (free_data s) s t" "free_data t = free_data s - {b}"
    using data_allocate_frame[OF Suc.prems(1) is_block_empty, of 0] by blast
  have fin: "finite (free_data s)" by (simp add: free_data_def)
  have c: "card (free_data t) = card (free_data s) - 1" using t(1,3) fin by simp
  obtain u where u: "fs_frame {} (free_data t) t u" "free_data u \<subseteq> free_data t" "card (free_data u) = k"
  proof -
    have "d = card (free_data t) - k" "k \<le> card (free_data t)" using Suc.hyps(2) c by linarith+
    from Suc.hyps(1)[OF this(1) fs_frameD(1)[OF t(2)] this(2)] show thesis using that by blast
  qed
  have "fs_frame {} (free_data s) s u" by (rule fs_frame_trans[OF t(2) u(1)]) (use t(3) in auto)
  then show ?case using u(2,3) t(3) by blast
qed

text \<open>A write of a few bytes to the empty file takes one direct block.\<close>

lemma with_file_free_nonempty: "free_data with_file \<noteq> {}"
proof -
  have "card (free_data with_file) = 88"
    using formatted_root_block by (simp add: with_file_free valid_data_def formatted_ndata)
  then show ?thesis by auto
qed

lemma empty_file_write:
  assumes s: "fs_ok s" "valid_inum s k" "inode_at s k = zero_inode" "free_data s \<noteq> {}"
    and n: "0 < n" "n \<le> BLOCK_SIZE" "n \<le> length buf"
  shows "\<exists>t. write_i (int k) (Some buf) (int 0) (int n) s = Some (int n, t)"
proof -
  have i: "(0 :: nat) < MAX_FILE_BLOCKS" "0 + (0 + n - 0) \<le> length buf" "0 \<le> 0 + n" "0 + n \<le> BLOCK_SIZE"
    using n by (simp_all add: c_consts)
  have g: "file_ok s zero_inode" "file_full s zero_inode" "file_size zero_inode < 2 ^ 31"
    using file_goodD(1-3)[OF empty_file_good(1)[OF s(1)]] by simp_all
  have h: "zero_test_ok buf 0 (0 + n - 0) 0 (file_map s zero_inode 0)"
    unfolding zero_test_ok_def using n(3)
    by (cases "window 0 n buf = replicate n 0") (auto simp: list_eq_iff_nth_eq nth_window)
  obtain ino t where p: "write_part buf (int 0) (int 0) (int (0 + n)) (int 0) zero_inode s = Some (None, ino, t)"
    using write_part_spec[OF s(1) g(1,2) i(1,3,4,2) h] s(4) by auto
  have m: "0 + n \<le> 2 ^ 31" "0 = 0 * BLOCK_SIZE + 0" using n(2) by (simp_all add: c_consts)
  show ?thesis
    using write_i_one_block[OF fs_ok_mounted[OF s(1)] s(2) _ n(1) m i(4), of buf] g(3) p by (simp add: s(3))
qed

lemma with_file_write:
  assumes "0 < n" "n \<le> BLOCK_SIZE" "n \<le> length buf"
  shows "\<exists>t. write_i (int 2) (Some buf) (int 0) (int n) with_file = Some (int n, t)"
  by (rule empty_file_write[OF with_file_ok with_file_inum with_file_inode with_file_free_nonempty assms])

section \<open>The block map\<close>

text \<open>
  the blocks of a well-formed file are pairwise different, exist, are not on the free list and
  are not address blocks of the file, for all \<open>MAX_FILE_BLOCKS\<close> block numbers the three levels of
  indirection reach.
\<close>
theorem block_map_injective:
  assumes "file_ok s ino" "n < MAX_FILE_BLOCKS" "file_map s ino n \<noteq> 0"
  shows "valid_data s (file_map s ino n) \<and> file_map s ino n \<notin> free_data s \<and>
    file_map s ino n \<notin> file_inner s ino \<and>
    (\<forall>m < MAX_FILE_BLOCKS. m \<noteq> n \<longrightarrow> file_map s ino m \<noteq> file_map s ino n)"
  using file_map_leaf[OF assms] file_map_inj[OF assms(1,2) _ _ assms(3)] by metis

text \<open>
  \<open>get_nth_datablock\<close> without \<open>create\<close> is the lookup in the tree of block pointers: it returns the
  block of the file, 0 for a hole, changes nothing, and rejects numbers beyond the triple indirect
  range with \<open>INVALID_BLOCK\<close>.
\<close>
theorem get_nth_datablock_lookup:
  assumes "mounted s" "file_ok s ino" "n < 2 ^ 31"
  shows "get_nth_datablock (Some ino) (int n) False cr s =
    Some (if n < MAX_FILE_BLOCKS then int (file_map s ino n) else INVALID_BLOCK, ino, cr, s)"
proof (cases "n < MAX_FILE_BLOCKS")
  case False
  then show ?thesis using get_nth_datablock_too_big(1)[OF _ assms(3)] by simp
qed (use get_nth_datablock_read[OF assms(1,2)] in simp)

lemma get_nth_datablock_lookup_witness:
  "get_nth_datablock (Some zero_inode) (int 1049610) False False with_file = Some (0, zero_inode, False, with_file)"
  using get_nth_datablock_lookup[OF fs_ok_mounted[OF with_file_ok] with_file_file_ok(1), of 1049610 False]
    with_file_map[of 1049610] by (simp add: MAX_FILE_BLOCKS_def)

text \<open>
  C16: \<open>get_nth_datablock\<close> with \<open>create\<close>.  A block that is there is returned and nothing changes.  A hole
  is filled with a zeroed block from the free list, whose address is returned with \<open>*created\<close> set, or
  \<open>DATA_FULL\<close> is returned when the free list is exhausted.  No byte of the file changes, every other
  block keeps its place, and blocks only move from the free list into the file.
\<close>
theorem get_nth_datablock_creates:
  assumes "fs_ok s" "file_ok s ino" "n < MAX_FILE_BLOCKS"
  shows "\<exists>x ino' cr' t. get_nth_datablock (Some ino) (int n) True cr s = Some (x, ino', cr', t) \<and>
    file_step {} s ino t ino' \<and> same_meta ino ino' \<and>
    (\<forall>m < MAX_FILE_BLOCKS. file_blk t ino' m = file_blk s ino m \<and>
      (m \<noteq> n \<longrightarrow> file_map t ino' m = file_map s ino m)) \<and>
    (if file_map s ino n \<noteq> 0 then x = int (file_map s ino n) \<and> t = s \<and> ino' = ino \<and> cr' = cr
     else x = int (file_map t ino' n) \<and> file_map t ino' n \<in> free_data s \<and> cr' \<or>
       x = DATA_FULL \<and> file_map t ino' n = 0 \<and> free_data t = {})"
proof -
  obtain x ino' cr' t where r: "get_nth_datablock (Some ino) (int n) True cr s = Some (x, ino', cr', t)"
    "got_block n s ino cr t ino' cr' x" using get_nth_datablock_create[OF assms] by blast
  note g = got_block_step[OF assms(2) r(2)]
  have "file_grow n s ino t ino'" using r(2) by (simp add: got_block_def)
  then have "\<forall>m < MAX_FILE_BLOCKS. m \<noteq> n \<longrightarrow> file_map t ino' m = file_map s ino m"
    by (simp add: file_grow_def)
  moreover have "if file_map s ino n \<noteq> 0 then x = int (file_map s ino n) \<and> t = s \<and> ino' = ino \<and> cr' = cr
     else x = int (file_map t ino' n) \<and> file_map t ino' n \<in> free_data s \<and> cr' \<or>
       x = DATA_FULL \<and> file_map t ino' n = 0 \<and> free_data t = {}"
    using r(2) unfolding got_block_def Let_def by auto
  ultimately show ?thesis using r(1) g(1,2,3) by blast
qed

lemma get_nth_datablock_creates_witness:
  "\<exists>x ino' cr' t. get_nth_datablock (Some zero_inode) (int 5) True False with_file = Some (x, ino', cr', t) \<and>
    file_step {} with_file zero_inode t ino'"
proof -
  have "5 < MAX_FILE_BLOCKS" by (simp add: MAX_FILE_BLOCKS_def)
  from get_nth_datablock_creates[OF with_file_ok with_file_file_ok(1) this, of False] show ?thesis by blast
qed

text \<open>
  C17: \<open>rm_nth_datablock\<close> makes a hole.  It returns \<open>SUCCESS\<close>, the block it removes is on the free list
  afterwards, with every address block that became empty; the rest of the file keeps its place and
  its bytes, and a file without empty address blocks has none afterwards.
\<close>
theorem rm_nth_datablock_makes_hole:
  assumes "fs_ok s" "file_ok s ino" "n < MAX_FILE_BLOCKS"
  shows "\<exists>ino' t. rm_nth_datablock (Some ino) (int n) s = Some (SUCCESS, ino', t) \<and>
    file_step {} s ino t ino' \<and> same_meta ino ino' \<and> free_data s \<subseteq> free_data t \<and>
    file_map t ino' n = 0 \<and> (file_map s ino n \<noteq> 0 \<longrightarrow> file_map s ino n \<in> free_data t) \<and>
    (\<forall>m < MAX_FILE_BLOCKS. m \<noteq> n \<longrightarrow>
      file_map t ino' m = file_map s ino m \<and> file_blk t ino' m = file_blk s ino m) \<and>
    (file_full s ino \<longrightarrow> file_full t ino')"
proof -
  obtain ino' t where r: "rm_nth_datablock (Some ino) (int n) s = Some (SUCCESS, ino', t)"
    "file_shrink n s ino t ino'" "file_map t ino' n = 0" "file_fullx n s ino \<longrightarrow> file_full t ino'"
    using rm_nth_datablock_spec[OF assms] by blast
  moreover have "same_meta ino ino'" "free_data s \<subseteq> free_data t"
    "\<forall>m < MAX_FILE_BLOCKS. m \<noteq> n \<longrightarrow> file_map t ino' m = file_map s ino m"
    using r(2) by (simp_all add: file_shrink_def)
  ultimately show ?thesis
    using file_shrink_step[OF assms(2) r(2)] rm_block_freed[OF assms(2,3) _ r(2,3)]
      file_full_fullx[OF assms(3), of s ino] by blast
qed

lemma rm_nth_datablock_makes_hole_witness:
  "\<exists>ino' t. rm_nth_datablock (Some zero_inode) (int 11) with_file = Some (SUCCESS, ino', t) \<and> file_map t ino' 11 = 0"
  using rm_nth_datablock_makes_hole[OF with_file_ok with_file_file_ok(1), of 11] by (auto simp: MAX_FILE_BLOCKS_def)

text \<open>
  When \<open>get_nth_datablock\<close> ran out of space half way down, \<open>rm_nth_datablock\<close> takes back the
  address blocks it had added: the inode is exactly the one before, so the copy on the disk, which
  was not written, is still right.
\<close>
theorem rm_undoes_failed_create:
  assumes "fs_ok s" "file_ok s ino" "file_full s ino" "n < MAX_FILE_BLOCKS"
    and "get_nth_datablock (Some ino) (int n) True cr s = Some (DATA_FULL, ino', cr', t)"
  shows "\<exists>u. rm_nth_datablock (Some ino') (int n) t = Some (SUCCESS, ino, u) \<and> file_step {} s ino u ino \<and>
    file_full u ino"
proof -
  have g: "got_block n s ino cr t ino' cr' DATA_FULL"
    using get_nth_datablock_create[OF assms(1,2,4), of cr] assms(5) by auto
  note st = got_block_step[OF assms(2) g]
  note d = file_stepD[OF st(1)]
  obtain ino'' u where r: "rm_nth_datablock (Some ino') (int n) t = Some (SUCCESS, ino'', u)"
    "file_shrink n t ino' u ino''" "file_map u ino'' n = 0" "file_fullx n t ino' \<longrightarrow> file_full u ino''"
    using rm_nth_datablock_spec[OF d(5,4) assms(4)] by blast
  have "file_fullx n t ino'"
    using g file_full_fullx[OF assms(4,3)] by (simp add: got_block_def file_grow_def)
  then have full: "file_full u ino''" using r(4) by blast
  have e: "ino'' = ino" by (rule full_disk_undone[OF assms(2-4) g r(2,3) full])
  have "file_step ({} \<union> {}) s ino u ino''" by (rule file_step_trans[OF st(1) file_shrink_step(1)[OF d(4) r(2)]])
  then show ?thesis using r(1) full e by auto
qed

lemma rm_undoes_failed_create_witness:
  "\<exists>(s :: layer1) ino' cr' t u. get_nth_datablock (Some zero_inode) (int 10) True False s = Some (DATA_FULL, ino', cr', t) \<and>
    free_data s \<noteq> {} \<and> rm_nth_datablock (Some ino') (int 10) t = Some (SUCCESS, zero_inode, u)"
proof -
  have "card (free_data with_file) = 88"
    using formatted_root_block by (simp add: with_file_free valid_data_def formatted_ndata)
  then have "1 \<le> card (free_data with_file)" by simp
  then obtain s where s: "fs_frame {} (free_data with_file) with_file s" "free_data s \<subseteq> free_data with_file"
    "card (free_data s) = 1" using leave_free[OF with_file_ok] by blast
  then obtain f where f: "free_data s = {f}" using card_1_singletonE by blast
  have z: "free_data with_file \<inter> file_set with_file zero_inode = {}" "free_data s \<inter> file_set with_file zero_inode = {}"
    by (simp_all add: with_file_set)
  note ff = file_frame[OF with_file_file_ok(1) s(1) z]
  have ok: "fs_ok s" "file_ok s zero_inode" "file_full s zero_inode" using fs_frameD(1)[OF s(1)] ff(1,5) with_file_file_ok(2) by simp_all
  have set: "file_set s zero_inode = {}" using ff(2) by (simp add: with_file_set)
  have n: "10 < MAX_FILE_BLOCKS" by (simp add: MAX_FILE_BLOCKS_def)
  have m0: "file_map s zero_inode 10 = 0" using ff(3)[OF n] with_file_map[OF n] by simp
  obtain x ino' cr' t where r: "get_nth_datablock (Some zero_inode) (int 10) True False s = Some (x, ino', cr', t)"
    "got_block 10 s zero_inode False t ino' cr' x" using get_nth_datablock_create[OF ok(1,2) n] by blast
  have st: "file_step {} s zero_inode t ino'" by (rule got_block_step(1)[OF ok(2) r(2)])
  have "file_map t ino' 10 = 0"
  proof (rule ccontr)
    assume nz: "file_map t ino' 10 \<noteq> 0"
    note ok' = file_stepD(4)[OF st]
    have sub: "file_set t ino' \<subseteq> {f}" using file_stepD(2)[OF st] set f by blast
    have "file_map t ino' 10 = f" using file_map_in[OF n nz] sub by blast
    moreover have "iptr ino' 10 \<in> file_inner t ino'"
    proof -
      have p: "fslot 10 = 10" "ilvl 10 = Suc 0" by (simp_all add: fslot_def ilvl_def)
      then have "iptr ino' 10 \<noteq> 0" using nz unfolding file_map_def by (auto split: if_splits)
      then have "iptr ino' 10 \<in> bm_inner (ilvl 10) (addr_words t) (iptr ino' 10)" unfolding p by simp
      then show ?thesis unfolding file_inner_def forest_inner_def by (auto simp: NPTRS_def)
    qed
    ultimately show False using file_map_leaf(1)[OF ok' n nz] sub file_inner_subset[of t ino'] by auto
  qed
  then have x: "x = DATA_FULL" using r(2) m0 unfolding got_block_def Let_def by auto
  from rm_undoes_failed_create[OF ok n r(1)[unfolded x]] show ?thesis using r(1) x f by blast
qed

lemma block_map_injective_witness:
  "\<exists>(t :: layer1) ino. file_map t ino 7 \<noteq> 0 \<and> (\<forall>m < MAX_FILE_BLOCKS. m \<noteq> 7 \<longrightarrow> file_map t ino m \<noteq> file_map t ino 7)"
proof -
  have free: "free_data with_file \<noteq> {}"
  proof -
    have "card (free_data with_file) = 88"
      using formatted_root_block by (simp add: with_file_free valid_data_def formatted_ndata)
    then show ?thesis by auto
  qed
  have n: "7 < MAX_FILE_BLOCKS" by (simp add: MAX_FILE_BLOCKS_def)
  obtain x ino t cr where g: "got_block 7 with_file zero_inode False t ino cr x" "file_map t ino 7 \<noteq> 0"
    using get_nth_datablock_direct[OF with_file_ok with_file_file_ok(1) _ free, of 7 False] by auto
  have "file_ok t ino" using file_stepD(4)[OF got_block_step(1)[OF with_file_file_ok(1) g(1)]] .
  from block_map_injective[OF this n g(2)] show ?thesis using g(2) by blast
qed

section \<open>Files as byte lists\<close>

text \<open>
  The abstract file: a byte list.  Reading is a window of it; writing overwrites, after padding with
  zeros up to the offset when it lies beyond the end.
\<close>

definition file_contents :: "'a layer1_scheme \<Rightarrow> nat \<Rightarrow> byte list" where
  "file_contents s k = file_bytes s (inode_at s k) 0 (file_size (inode_at s k))"

definition apply_write :: "nat \<Rightarrow> byte list \<Rightarrow> byte list \<Rightarrow> byte list" where
  "apply_write off d c = (if d = [] then c else overlay off d (c @ replicate (off + length d - length c) 0))"

lemma length_file_contents [simp]: "length (file_contents s k) = file_size (inode_at s k)"
  by (simp add: file_contents_def)

lemma window_file_contents:
  "window off n (file_contents s k) =
    file_bytes s (inode_at s k) off (min n (file_size (inode_at s k) - off))"
  by (rule nth_equalityI) (auto simp: file_contents_def nth_window less_diff_conv add.commute)

lemma length_apply_write: "length (apply_write off d c) = (if d = [] then length c else max (length c) (off + length d))"
  by (simp add: apply_write_def max_def)

lemma nth_apply_write:
  "j < length (apply_write off d c) \<Longrightarrow> apply_write off d c ! j =
    (if off \<le> j \<and> j < off + length d then d ! (j - off) else if j < length c then c ! j else 0)"
  by (auto simp: apply_write_def nth_overlay nth_append split: if_splits)

lemma small_byte: "j < 2 ^ 31 \<Longrightarrow> j < MAX_FILE_BYTES"
  by (simp add: MAX_FILE_BYTES_def c_consts)

lemma wrote_contents:
  assumes g: "file_good s (inode_at s k)" and w: "wrote k off buf q s t" and q: "off + q < 2 ^ 31" "q \<le> length buf"
  shows "file_contents t k = apply_write off (take q buf) (file_contents s k)"
proof (rule nth_equalityI)
  note sz = wrote_good(2)[OF g w q(1)] and f = file_goodD[OF g]
  show l: "length (file_contents t k) = length (apply_write off (take q buf) (file_contents s k))"
    using sz q(2) by (auto simp: length_apply_write)
  fix j assume j: "j < length (file_contents t k)"
  then have b: "j < MAX_FILE_BYTES" using sz f(3) q(1) by (intro small_byte) (simp split: if_splits)
  have "file_byte s (inode_at s k) j = (if j < file_size (inode_at s k) then file_contents s k ! j else 0)"
    using f(5)[OF b] by (simp add: file_contents_def)
  moreover have "file_contents t k ! j = file_byte t (inode_at t k) j" using j by (simp add: file_contents_def)
  moreover have "take q buf ! (j - off) = buf ! (j - off)" if "off \<le> j \<and> j < off + q"
    using that by (intro nth_take) linarith
  ultimately show "file_contents t k ! j = apply_write off (take q buf) (file_contents s k) ! j"
    using wroteD(4)[OF w b] nth_apply_write[of j off "take q buf" "file_contents s k"] j l q(2) by auto
qed

text \<open>
  C11: \<open>read_i\<close> refines the window of the byte list.  It returns the number of bytes from \<open>offset\<close> to
  the end of the file, at most \<open>size\<close>, puts exactly these bytes at the start of the buffer and leaves
  the rest of the buffer; holes read as zeros.
\<close>
theorem read_i_refines:
  assumes "mounted s" "valid_inum s k" "file_good s (inode_at s k)" "n < 2 ^ 64"
    and "length (window off n (file_contents s k)) \<le> length buf"
  shows "read_i (int k) (Some buf) (int off) (int n) s =
    Some (int (length (window off n (file_contents s k))), overlay 0 (window off n (file_contents s k)) buf)"
  using read_i_spec[OF assms(1,2) file_goodD(1,3)[OF assms(3)] assms(4)] assms(5)
  by (simp add: window_file_contents)

lemma read_i_refines_witness:
  "read_i (int 2) (Some [1, 2, 3]) (int 0) (int 3) with_file = Some (0, [1, 2, 3])"
proof -
  have z: "window 0 3 (file_contents with_file 2) = []"
    using file_goodD(4)[OF with_file_good] with_file_size by (simp add: window_file_contents with_file_inode)
  show ?thesis
    using read_i_refines[OF fs_ok_mounted[OF with_file_ok] with_file_inum, of 3 0 "[1, 2, 3]"] with_file_good z
    by (simp add: with_file_inode)
qed

text \<open>
  C6: \<open>write_i\<close> refines overwriting the byte list, provided its zero test is honest.  It returns
  \<open>size\<close>, or \<open>DATA_FULL\<close> after a prefix; the file is the old one with the bytes written overwritten, it
  stays in good order, and nothing but the file's inode, the file's blocks and free blocks changes.
\<close>
theorem write_i_refines:
  assumes "fs_ok s" "valid_inum s k" "file_good s (inode_at s k)"
    and "0 < n" "off + n < 2 ^ 31" "n \<le> length buf" "write_honest s (inode_at s k) buf off n"
  shows "\<exists>ret q t. write_i (int k) (Some buf) (int off) (int n) s = Some (ret, t) \<and>
    (ret = int n \<and> q = n \<or> ret = DATA_FULL \<and> q < n) \<and>
    file_contents t k = apply_write off (take q buf) (file_contents s k) \<and>
    file_good t (inode_at t k) \<and> file_step {k} s (inode_at s k) t (inode_at t k)"
proof -
  note f = file_goodD[OF assms(3)]
  have n: "off + n \<le> 2 ^ 31" "n < 2 ^ 31" using assms(5) by simp_all
  obtain ret q t where w: "write_i (int k) (Some buf) (int off) (int n) s = Some (ret, t)" "wrote k off buf q s t"
    "ret = int n \<and> q = n \<or> ret = DATA_FULL \<and> q < n"
    using write_i_spec[OF assms(1) f(1-3) assms(2,4) n assms(6,7)] by blast
  have q: "off + q < 2 ^ 31" "q \<le> length buf" using w(3) assms(5,6) by auto
  show ?thesis
    using w(1,3) wrote_contents[OF assms(3) w(2) q] wrote_good(1)[OF assms(3) w(2) q(1)] wroteD(1)[OF w(2)] by blast
qed

text \<open>An aligned write whose first byte is not zero is honest: no block tests as zero.\<close>

lemma write_honest_first:
  assumes "off mod BLOCK_SIZE = 0" "0 < n" "0 < length buf" "buf ! 0 \<noteq> 0"
  shows "write_honest s ino buf off n"
  unfolding write_honest_def Let_def
proof (intro ballI)
  fix i assume i: "i \<in> {off div BLOCK_SIZE..(off + n - 1) div BLOCK_SIZE}"
  have "off = off div BLOCK_SIZE * BLOCK_SIZE" using assms(1) by (metis add.right_neutral div_mult_mod_eq)
  then have "off \<le> i * BLOCK_SIZE" using i by (metis atLeastAtMost_iff mult_le_mono1)
  moreover have "i * BLOCK_SIZE \<le> (off + n - 1) div BLOCK_SIZE * BLOCK_SIZE" using i by simp
  then have "i * BLOCK_SIZE \<le> off + n - 1" using div_times_less_eq_dividend le_trans by blast
  moreover have "i * BLOCK_SIZE < Suc i * BLOCK_SIZE" by simp
  ultimately have "max off (i * BLOCK_SIZE) = i * BLOCK_SIZE" "0 < min (Suc i * BLOCK_SIZE) (off + n) - i * BLOCK_SIZE"
    using assms(2) by auto
  then show "zero_test_ok buf (max off (i * BLOCK_SIZE) - i * BLOCK_SIZE)
      (min (Suc i * BLOCK_SIZE) (off + n) - max off (i * BLOCK_SIZE)) (max off (i * BLOCK_SIZE) - off) (file_map s ino i)"
    using assms(3,4) unfolding zero_test_ok_def by (intro disjI1 exI[of _ 0]) simp
qed

lemma write_i_refines_witness:
  "\<exists>ret q t. write_i (int 2) (Some [7, 8]) (int 0) (int 2) with_file = Some (ret, t) \<and>
    (ret = int 2 \<and> q = 2 \<or> ret = DATA_FULL \<and> q < 2) \<and> file_good t (inode_at t 2) \<and>
    file_contents t 2 = apply_write 0 (take q [7, 8]) (file_contents with_file 2)"
proof -
  have h: "write_honest with_file (inode_at with_file 2) [7, 8] 0 2" by (rule write_honest_first) simp_all
  have g: "file_good with_file (inode_at with_file 2)" using with_file_good by (simp add: with_file_inode)
  have n: "(0 :: nat) < 2" "0 + 2 < (2 :: nat) ^ 31" "2 \<le> length [7, 8 :: byte]" by simp_all
  from write_i_refines[OF with_file_ok with_file_inum g n h] show ?thesis by blast
qed

text \<open>
  C27: what was written is read back.  After a \<open>write_i\<close> that returned \<open>size\<close>, \<open>read_i\<close> of the same range
  returns \<open>size\<close> and the bytes written.  The file is in good order and stays below \<open>2 ^ 31\<close> bytes, and the bytes that the
  zero test of \<open>write_i\<close> takes for zeros, which it looks for in the wrong place, are zeros: otherwise data is
  lost with success reported.
\<close>
theorem write_then_read:
  assumes "fs_ok s" "valid_inum s k" "file_good s (inode_at s k)"
    and "0 < n" "off + n < 2 ^ 31" "n \<le> length buf" "write_honest s (inode_at s k) buf off n"
    and "write_i (int k) (Some buf) (int off) (int n) s = Some (int n, t)"
    and "n \<le> length out"
  shows "read_i (int k) (Some out) (int off) (int n) t = Some (int n, overlay 0 (take n buf) out)"
proof -
  note f = file_goodD[OF assms(3)]
  have n: "off + n \<le> 2 ^ 31" "n < 2 ^ 31" "n < 2 ^ 64" using assms(5) by simp_all
  obtain q where w: "wrote k off buf q s t" "q = n"
    using write_i_spec[OF assms(1) f(1-3) assms(2,4) n(1,2) assms(6,7)] assms(8) by auto
  have w': "wrote k off buf n s t" using w by simp
  note d = file_stepD[OF wroteD(1)[OF w']]
  note g = wrote_good[OF assms(3) w' assms(5)]
  have c: "file_contents t k = apply_write off (take n buf) (file_contents s k)"
    by (rule wrote_contents[OF assms(3) w' assms(5,6)])
  have ne: "take n buf \<noteq> []" using assms(4,6) by auto
  have win: "window off n (file_contents t k) = take n buf"
    using ne assms(6) unfolding c apply_write_def by (simp add: window_overlay_same)
  have min: "min n (file_size (inode_at t k) - off) = n" using g(2) assms(4) by simp
  have v: "valid_inum t k" using assms(2) d(7) by simp
  have len: "min n (file_size (inode_at t k) - off) \<le> length out" unfolding min by (rule assms(9))
  show ?thesis
    using read_i_spec[OF d(6) v file_goodD(1,3)[OF g(1)] n(3) len] win unfolding window_file_contents min by simp
qed

lemma write_then_read_witness:
  "\<exists>t. write_i (int 2) (Some [7, 8]) (int 0) (int 2) with_file = Some (int 2, t) \<and>
    read_i (int 2) (Some [0, 0, 9]) (int 0) (int 2) t = Some (int 2, [7, 8, 9])"
proof -
  have h: "write_honest with_file (inode_at with_file 2) [7, 8] 0 2" by (rule write_honest_first) simp_all
  have g: "file_good with_file (inode_at with_file 2)" using with_file_good by (simp add: with_file_inode)
  have n: "(0 :: nat) < 2" "0 + 2 < (2 :: nat) ^ 31" "2 \<le> length [7, 8 :: byte]" "2 \<le> length [0, 0, 9 :: byte]" by simp_all
  obtain t where t: "write_i (int 2) (Some [7, 8]) (int 0) (int 2) with_file = Some (int 2, t)"
    using with_file_write[of 2 "[7, 8]"] by (auto simp: c_consts)
  have "overlay 0 (take 2 [7, 8 :: byte]) [0, 0, 9] = [7, 8, 9]" by (simp add: overlay_def)
  then show ?thesis using write_then_read[OF with_file_ok with_file_inum g n(1-3) h t n(4)] t by auto
qed

text \<open>
  \<open>write_i\<close>, whatever it returns, leaves every other well-formed file alone that shares no block
  with the file written.
\<close>
theorem write_i_keeps_others:
  assumes "fs_ok s" "valid_inum s k" "file_good s (inode_at s k)"
    and "0 < n" "off + n < 2 ^ 31" "n \<le> length buf" "write_honest s (inode_at s k) buf off n"
    and "valid_inum s l" "l \<noteq> k" "file_good s (inode_at s l)"
    and "file_set s (inode_at s l) \<inter> file_set s (inode_at s k) = {}"
    and "write_i (int k) (Some buf) (int off) (int n) s = Some (ret, t)"
  shows "file_contents t l = file_contents s l \<and> file_good t (inode_at t l)"
proof -
  note f = file_goodD[OF assms(3)] and fl = file_goodD[OF assms(10)]
  have n: "off + n \<le> 2 ^ 31" "n < 2 ^ 31" using assms(5) by simp_all
  obtain q where w: "wrote k off buf q s t"
    using write_i_spec[OF assms(1) f(1-3) assms(2,4) n(1,2) assms(6,7)] assms(12) by auto
  note d = file_stepD[OF wroteD(1)[OF w]]
  have at: "inode_at t l = inode_at s l" using fs_frameD(8)[OF d(1) assms(8)] assms(9) by simp
  have "file_set s (inode_at s l) \<inter> free_data s = {}" using file_okD(4)[OF fl(1)] .
  then have B: "(free_data s \<union> file_set s (inode_at s k)) \<inter> file_set s (inode_at s l) = {}"
    "free_data t \<inter> file_set s (inode_at s l) = {}" using assms(11) d(2) by blast+
  note ff = file_frame[OF fl(1) d(1) B]
  have byte: "file_byte t (inode_at s l) j = file_byte s (inode_at s l) j" if "j < MAX_FILE_BYTES" for j
    using ff(4)[OF byte_block[OF that]] by (simp add: file_byte_def)
  have "file_byte t (inode_at s l) j = file_byte s (inode_at s l) j" if "j < file_size (inode_at s l)" for j
    using that fl(3) by (intro byte small_byte) simp
  then have "file_contents t l = file_contents s l" unfolding file_contents_def at file_bytes_def by simp
  moreover have "file_good t (inode_at t l)"
    using fl ff(1,3,5) byte unfolding at file_good_def by simp
  ultimately show ?thesis by blast
qed

lemma write_i_keeps_others_witness:
  "\<exists>(s :: layer1) l ret t. write_i (int 2) (Some [7, 8]) (int 0) (int 2) s = Some (ret, t) \<and> l \<noteq> 2 \<and> valid_inum s l \<and>
    file_contents t l = file_contents s l"
proof -
  have "free_inums with_file \<noteq> {}" using with_file_free_inums by auto
  then obtain l s where s: "first_free with_file l" "fs_frame {l} {} with_file s" "inode_at s l = zero_inode"
    using inode_create_frame[OF with_file_ok inode_wf_zero, of 0] by blast
  have ok: "fs_ok s" and k: "valid_inum s 2" "valid_inum s l"
    using s(1,2) with_file_inum fs_frameD(1,6)[OF s(2)] by (auto simp: first_free_def)
  have "l \<in> free_inums with_file" using s(1) by (simp add: first_free_def free_inums_def)
  then have l: "l \<noteq> 2" unfolding with_file_free_inums by auto
  have i2: "inode_at s 2 = zero_inode" using fs_frameD(8)[OF s(2) with_file_inum] l with_file_inode by simp
  have g: "file_good s (inode_at s 2)" "file_good s (inode_at s l)" using empty_file_good[OF ok] by (simp_all add: i2 s(3))
  have dj: "file_set s (inode_at s l) \<inter> file_set s (inode_at s 2) = {}" using empty_file_good(2)[OF ok] by (simp add: s(3))
  have h: "write_honest s (inode_at s 2) [7, 8] 0 2" by (rule write_honest_first) simp_all
  have n: "(0 :: nat) < 2" "0 + 2 < (2 :: nat) ^ 31" "2 \<le> length [7, 8 :: byte]" "0 + 2 \<le> (2 :: nat) ^ 31" "2 < (2 :: nat) ^ 31"
    by simp_all
  obtain ret t where w: "write_i (int 2) (Some [7, 8]) (int 0) (int 2) s = Some (ret, t)"
    using write_i_spec[OF ok file_goodD(1-3)[OF g(1)] k(1) n(1,4,5,3) h] by blast
  from write_i_keeps_others[OF ok k(1) g(1) n(1-3) h k(2) l g(2) dj w] show ?thesis using w l k(2) by blast
qed

text \<open>A file that holds the bytes 7 and 8.\<close>

lemma two_bytes_written:
  assumes s: "fs_ok s" "valid_inum s k" "inode_at s k = zero_inode" "free_data s \<noteq> {}"
  obtains t where "write_i (int k) (Some [7, 8]) (int 0) (int 2) s = Some (int 2, t)"
    "fs_ok t" "valid_inum t k" "file_good t (inode_at t k)" "file_contents t k = [7, 8]"
    "file_set t (inode_at t k) \<noteq> {}" "i_mod_time (inode_at t k) = i_mod_time zero_inode"
proof -
  have h: "write_honest s (inode_at s k) [7, 8] 0 2" by (rule write_honest_first) simp_all
  have g: "file_good s (inode_at s k)" using empty_file_good(1)[OF s(1)] by (simp add: s(3))
  have n: "(0 :: nat) < 2" "0 + 2 \<le> (2 :: nat) ^ 31" "(2 :: nat) < 2 ^ 31" "2 \<le> length [7, 8 :: byte]"
    "0 + 2 < (2 :: nat) ^ 31" by simp_all
  obtain t where t: "write_i (int k) (Some [7, 8]) (int 0) (int 2) s = Some (int 2, t)"
    using empty_file_write[OF s, of 2 "[7, 8]"] by (auto simp: c_consts)
  then have w: "wrote k 0 [7, 8] 2 s t"
    using write_i_spec[OF s(1) file_goodD(1-3)[OF g] s(2) n(1-4) h] by auto
  note d = file_stepD[OF wroteD(1)[OF w]]
  have c: "file_contents t k = [7, 8]"
    using wrote_contents[OF g w n(5,4)] file_size_zero_inode
    by (simp add: apply_write_def file_contents_def s(3) overlay_def file_bytes_def)
  note gt = wrote_good[OF g w n(5)]
  have mt: "i_mod_time (inode_at t k) = i_mod_time zero_inode"
    using wroteD(3)[OF w] by (simp add: same_meta_def write_meta_def s(3))
  have "file_set t (inode_at t k) \<noteq> {}"
  proof
    assume e: "file_set t (inode_at t k) = {}"
    have "file_map t (inode_at t k) 0 = 0"
      using file_map_in[of 0 t "inode_at t k"] e by (auto simp: MAX_FILE_BLOCKS_def)
    then have "file_byte t (inode_at t k) 0 = 0" by (simp add: file_byte_def file_blk_def empty_block_def)
    moreover have "file_size (inode_at t k) = 2" using arg_cong[OF c, of length] by simp
    then have "file_contents t k ! 0 = file_byte t (inode_at t k) 0" by (simp add: file_contents_def)
    ultimately show False using c by simp
  qed
  then show thesis using that t d(5,7) s(2) gt(1) c mt by blast
qed

lemma with_data:
  obtains t :: layer1 where "fs_ok t" "valid_inum t 2" "file_good t (inode_at t 2)" "file_contents t 2 = [7, 8]"
    "file_set t (inode_at t 2) \<noteq> {}"
  using two_bytes_written[OF with_file_ok with_file_inum with_file_inode with_file_free_nonempty] that by metis

text \<open>
  C37: data loss in \<open>write_i\<close>.  From the second block on the zero test looks at the start of the buffer
  (\<open>buf + write_start\<close>) instead of the bytes to be written (\<open>buf + bytes_written\<close>).  If the first block
  of a block-aligned write is zero, \<open>write_i\<close> reports success for all of the write, and the whole
  range of the file is zero afterwards, whatever the other blocks of the buffer held.
\<close>
theorem write_i_loses_data:
  assumes "fs_ok s" "valid_inum s k" "file_good s (inode_at s k)"
    and "length x = n * BLOCK_SIZE" "(a + Suc n) * BLOCK_SIZE < 2 ^ 31"
  shows "\<exists>t. write_i (int k) (Some (replicate BLOCK_SIZE 0 @ x)) (int (a * BLOCK_SIZE)) (int (Suc n * BLOCK_SIZE)) s =
      Some (int (Suc n * BLOCK_SIZE), t) \<and>
    (\<forall>j. a * BLOCK_SIZE \<le> j \<and> j < (a + Suc n) * BLOCK_SIZE \<longrightarrow> file_byte t (inode_at t k) j = 0)"
proof -
  let ?z = "replicate BLOCK_SIZE (0 :: byte) @ replicate (n * BLOCK_SIZE) 0"
  let ?off = "a * BLOCK_SIZE" and ?n = "Suc n * BLOCK_SIZE"
  note f = file_goodD[OF assms(3)]
  have len: "?off + ?n = (a + Suc n) * BLOCK_SIZE" by (simp add: algebra_simps)
  have an: "a + n < 2 ^ 31" using assms(5) by (simp add: c_consts)
  have z: "?z = replicate (length ?z) 0" by (simp add: replicate_add[symmetric])
  have lz: "?n \<le> length ?z" by simp
  have n: "0 < ?n" "?off + ?n \<le> 2 ^ 31" "?n < 2 ^ 31" using assms(5) by (simp_all add: len del: mult_Suc) (simp add: c_consts)
  obtain ret q t where w: "write_i (int k) (Some ?z) (int ?off) (int ?n) s = Some (ret, t)" "wrote k ?off ?z q s t"
    "ret = int ?n \<and> q = ?n \<or> ret = DATA_FULL \<and> q < ?n \<and> \<not> (?off mod BLOCK_SIZE = 0 \<and> ?z = replicate (length ?z) 0)"
    using write_i_spec[OF assms(1) f(1-3) assms(2) n lz write_honest_zeros[OF z lz]] by blast
  have q: "ret = int ?n" "q = ?n" using w(3) z by auto
  have "file_byte t (inode_at t k) j = 0" if j: "?off \<le> j" "j < (a + Suc n) * BLOCK_SIZE" for j
  proof -
    have "j < MAX_FILE_BYTES" using j(2) assms(5) by (intro small_byte) simp
    moreover have "?z ! (j - ?off) = 0" using j len by (subst z) (simp add: nth_replicate)
    ultimately show ?thesis using wroteD(4)[OF w(2)] j len q(2) by simp
  qed
  then show ?thesis using w(1) q(1) unfolding write_i_zero_test[OF assms(4) an] by blast
qed

lemma write_i_loses_data_witness:
  "\<exists>t. write_i (int 2) (Some (replicate BLOCK_SIZE 0 @ replicate BLOCK_SIZE 1)) (int 0) (int 8192) with_file =
      Some (8192, t) \<and> file_byte t (inode_at t 2) 5000 = 0"
proof -
  have g: "file_good with_file (inode_at with_file 2)" using with_file_good by (simp add: with_file_inode)
  have l: "length (replicate BLOCK_SIZE (1 :: byte)) = 1 * BLOCK_SIZE" "(0 + Suc 1) * BLOCK_SIZE < 2 ^ 31"
    by (simp_all add: c_consts)
  from write_i_loses_data[OF with_file_ok with_file_inum g l] show ?thesis
    by (auto simp: BLOCK_SIZE_def)
qed

text \<open>
  \<open>truncate\<close> beyond the end extends the file with zeros and keeps it in good order.
\<close>
theorem truncate_extends:
  assumes "fs_ok s" "valid_inum s k" "file_good s (inode_at s k)"
    and "file_size (inode_at s k) < off" "off < 2 ^ 31"
  shows "\<exists>t. truncate_i (int k) (int off) s = Some (SUCCESS, t) \<and> file_good t (inode_at t k) \<and>
    file_step {k} s (inode_at s k) t (inode_at t k) \<and>
    file_contents t k = file_contents s k @ replicate (off - file_size (inode_at s k)) 0"
proof -
  obtain t where t: "truncate_i (int k) (int off) s = Some (SUCCESS, t)" "file_good t (inode_at t k)"
    "file_step {k} s (inode_at s k) t (inode_at t k)" "file_size (inode_at t k) = off"
    "\<forall>j < MAX_FILE_BYTES. file_byte t (inode_at t k) j = file_byte s (inode_at s k) j"
    using truncate_extend[OF assms(1,2,3,4,5)] by metis
  have "file_contents t k = file_contents s k @ replicate (off - file_size (inode_at s k)) 0"
  proof (rule nth_equalityI)
    fix j assume "j < length (file_contents t k)"
    then have j: "j < off" "j < MAX_FILE_BYTES" using t(4) assms(5) small_byte[of j] by simp_all
    then show "file_contents t k ! j = (file_contents s k @ replicate (off - file_size (inode_at s k)) 0) ! j"
      using t(4,5) file_goodD(5)[OF assms(3) j(2)] by (simp add: file_contents_def nth_append)
  qed (use t(4) assms(4) in simp)
  then show ?thesis using t by blast
qed

lemma truncate_extends_witness:
  "\<exists>t. truncate_i (int 2) (int 5) with_file = Some (SUCCESS, t) \<and> file_contents t 2 = [0, 0, 0, 0, 0]"
proof -
  have g: "file_good with_file (inode_at with_file 2)" using with_file_good by (simp add: with_file_inode)
  have "file_size (inode_at with_file 2) < 5" "(5 :: nat) < 2 ^ 31" by (simp_all add: with_file_inode with_file_size)
  moreover have "file_contents with_file 2 = []"
    by (simp add: file_contents_def with_file_inode with_file_size file_bytes_def)
  moreover have "replicate 5 0 = [0, 0, 0, 0, 0 :: byte]" by (simp add: numeral_eq_Suc)
  then have "replicate (5 - file_size (inode_at with_file 2)) 0 = [0, 0, 0, 0, 0 :: byte]"
    by (simp add: with_file_inode with_file_size)
  ultimately show ?thesis using truncate_extends[OF with_file_ok with_file_inum g] by fastforce
qed

text \<open>
  \<open>truncate\<close> to a length inside the last block of the file cuts the file there, provided a nonzero
  byte of that block remains: then no block is freed and the inode that \<open>truncate\<close> writes back is
  right.
\<close>
theorem truncate_cuts:
  assumes "fs_ok s" "valid_inum s k" "file_good s (inode_at s k)"
    and "off = b * BLOCK_SIZE + p" "off < file_size (inode_at s k)" "file_size (inode_at s k) \<le> Suc b * BLOCK_SIZE"
    and "j < p" "file_contents s k ! (b * BLOCK_SIZE + j) \<noteq> 0"
  shows "\<exists>t. truncate_i (int k) (int off) s = Some (SUCCESS, t) \<and> file_good t (inode_at t k) \<and>
    file_step {k} s (inode_at s k) t (inode_at t k) \<and> file_contents t k = take off (file_contents s k)"
proof -
  have sz: "file_size (inode_at s k) \<le> b * BLOCK_SIZE + BLOCK_SIZE" using assms(6) by simp
  have "b * BLOCK_SIZE + j < file_size (inode_at s k)" using assms(4,5,7) by linarith
  then have kept: "file_byte s (inode_at s k) (b * BLOCK_SIZE + j) \<noteq> 0" using assms(8) by (simp add: file_contents_def)
  obtain t where t: "truncate_i (int k) (int off) s = Some (SUCCESS, t)" "file_good t (inode_at t k)"
    "file_step {k} s (inode_at s k) t (inode_at t k)" "file_size (inode_at t k) = off"
    "\<forall>j < MAX_FILE_BYTES. file_byte t (inode_at t k) j = (if j < off then file_byte s (inode_at s k) j else 0)"
    using truncate_within_block[OF assms(1-4) sz assms(5,7) kept] by metis
  have "file_contents t k = take off (file_contents s k)"
  proof (rule nth_equalityI)
    fix j assume "j < length (file_contents t k)"
    then have j: "j < off" "j < MAX_FILE_BYTES"
      using t(4) assms(5) small_byte[of j] file_goodD(3)[OF assms(3)] by simp_all
    then show "file_contents t k ! j = take off (file_contents s k) ! j"
      using t(4,5) assms(5) by (simp add: file_contents_def)
  qed (use t(4) assms(5) in simp)
  then show ?thesis using t by blast
qed

lemma truncate_cuts_witness:
  "\<exists>(s :: layer1) t. file_contents s 2 = [7, 8] \<and> truncate_i (int 2) (int 1) s = Some (SUCCESS, t) \<and> file_contents t 2 = [7]"
proof -
  obtain s :: layer1 where s: "fs_ok s" "valid_inum s 2" "file_good s (inode_at s 2)" "file_contents s 2 = [7, 8]"
    using with_data by metis
  have sz: "file_size (inode_at s 2) = 2" using arg_cong[OF s(4), of length] by simp
  have h: "1 = 0 * BLOCK_SIZE + 1" "1 < file_size (inode_at s 2)" "file_size (inode_at s 2) \<le> Suc 0 * BLOCK_SIZE"
    "0 < (1 :: nat)" "file_contents s 2 ! (0 * BLOCK_SIZE + 0) \<noteq> 0" using s(4) by (simp_all add: sz c_consts)
  from truncate_cuts[OF s(1-3) h] show ?thesis using s(4) by auto
qed

lemma pointer_in_set: "p < NPTRS \<Longrightarrow> iptr ino p \<noteq> 0 \<Longrightarrow> iptr ino p \<in> file_set s ino"
proof -
  assume p: "p < NPTRS" "iptr ino p \<noteq> 0"
  have "iptr ino p \<in> bm_set (ilvl p) (addr_words s) (iptr ino p)"
    using p(2) by (cases "ilvl p") auto
  then show ?thesis using p(1) unfolding file_set_def forest_set_def by blast
qed

lemma has_pointer:
  assumes "file_set s ino \<noteq> {}"
  obtains p where "p < NPTRS" "iptr ino p \<noteq> 0"
proof (rule ccontr)
  assume "\<not> thesis"
  then have "\<forall>p < NPTRS. iptr ino p = 0" using that by blast
  then show False using assms unfolding file_set_def forest_set_def by simp
qed

text \<open>
  C35: \<open>truncate\<close> to 0 frees all blocks of the file but then writes back the inode it read before, whose
  pointers still name them: every block pointer of the file is a free block afterwards, ready to be
  handed to another file.
\<close>
theorem truncate_dangling_pointers:
  assumes "fs_ok s" "valid_inum s k" "file_good s (inode_at s k)"
  shows "\<exists>t. truncate_i (int k) 0 s = Some (SUCCESS, t) \<and> inode_at t k = (inode_at s k)\<lparr>i_size := 0\<rparr> \<and>
    free_data t = free_data s \<union> file_set s (inode_at s k) \<and>
    (\<forall>p < NPTRS. iptr (inode_at t k) p \<noteq> 0 \<longrightarrow> iptr (inode_at t k) p \<in> free_data t)"
proof -
  obtain t where t: "truncate_i (int k) 0 s = Some (SUCCESS, t)" "inode_at t k = (inode_at s k)\<lparr>i_size := 0\<rparr>"
    "free_data t = free_data s \<union> file_set s (inode_at s k)" using truncate_0_dangling[OF assms] by blast
  then show ?thesis using pointer_in_set by auto
qed

lemma truncate_dangling_pointers_witness:
  "\<exists>(s :: layer1) t p. truncate_i (int 2) 0 s = Some (SUCCESS, t) \<and> p < NPTRS \<and> iptr (inode_at t 2) p \<noteq> 0 \<and>
    iptr (inode_at t 2) p \<in> free_data t"
proof -
  obtain s :: layer1 where s: "fs_ok s" "valid_inum s 2" "file_good s (inode_at s 2)" "file_set s (inode_at s 2) \<noteq> {}"
    using with_data by metis
  obtain p where p: "p < NPTRS" "iptr (inode_at s 2) p \<noteq> 0" using has_pointer[OF s(4)] .
  obtain t where "truncate_i (int 2) 0 s = Some (SUCCESS, t)" "inode_at t 2 = (inode_at s 2)\<lparr>i_size := 0\<rparr>"
    "\<forall>p < NPTRS. iptr (inode_at t 2) p \<noteq> 0 \<longrightarrow> iptr (inode_at t 2) p \<in> free_data t"
    using truncate_dangling_pointers[OF s(1-3)] by blast
  then show ?thesis using p by (metis iptr_meta(1))
qed

text \<open>
  C21: \<open>del\<close> of a file in good order returns every block of the file, address blocks included, to the
  free list and its number to the bitmap, and changes nothing outside the file.
\<close>
theorem del_frees_all:
  assumes "fs_ok s" "valid_inum s k" "file_good s (inode_at s k)"
  shows "\<exists>t. del (int k) s = Some (SUCCESS, t) \<and>
    fs_frame {k} (free_data s \<union> file_set s (inode_at s k)) s t \<and>
    free_data t = free_data s \<union> file_set s (inode_at s k) \<and> free_inums t = insert k (free_inums s)"
  by (rule del_spec[OF assms])

lemma del_frees_all_witness:
  "\<exists>(s :: layer1) t. file_contents s 2 = [7, 8] \<and> del (int 2) s = Some (SUCCESS, t) \<and> free_inums t = insert 2 (free_inums s)"
proof -
  obtain s :: layer1 where s: "fs_ok s" "valid_inum s 2" "file_good s (inode_at s 2)" "file_contents s 2 = [7, 8]"
    using with_data by metis
  from del_frees_all[OF s(1-3)] show ?thesis using s(4) by blast
qed

text \<open>
  The error results of the file operations.  A null buffer gives \<open>BUF_NULL\<close>, an inode number
  outside the table \<open>BAD_INODE\<close>, a disk that is not there \<open>DISC_UNINITIALIZED\<close>; none of these calls
  changes the disk or the buffer.
\<close>
theorem file_io_errors:
  "read_i inum None off n s = Some (BUF_NULL, []) \<and> write_i inum None off n s = Some (BUF_NULL, s) \<and>
   (mounted s \<and> (inum \<le> 0 \<or> int (ninodes s) < inum) \<longrightarrow>
     read_i inum (Some buf) off n s = Some (BAD_INODE, buf) \<and> write_i inum (Some buf) off n s = Some (BAD_INODE, s) \<and>
     truncate_i inum off s = Some (BAD_INODE, s) \<and> del inum s = Some (BAD_INODE, s)) \<and>
   (disk s = None \<and> cached_superblock s = None \<longrightarrow>
     read_i inum (Some buf) off n s = Some (DISC_UNINITIALIZED, buf) \<and>
     write_i inum (Some buf) off n s = Some (DISC_UNINITIALIZED, s) \<and>
     truncate_i inum off s = Some (DISC_UNINITIALIZED, s) \<and> del inum s = Some (DISC_UNINITIALIZED, s))"
proof (intro conjI impI)
  show "read_i inum None off n s = Some (BUF_NULL, [])" "write_i inum None off n s = Some (BUF_NULL, s)"
    by (simp_all add: read_i_def write_i_def)
next
  assume "mounted s \<and> (inum \<le> 0 \<or> int (ninodes s) < inum)"
  then have "local_inode inum s = (BAD_INODE, uninit_inode s)"
    using inode_read_bad(1)[of s inum] by (simp add: local_inode_def)
  then show "read_i inum (Some buf) off n s = Some (BAD_INODE, buf)"
    "write_i inum (Some buf) off n s = Some (BAD_INODE, s)"
    "truncate_i inum off s = Some (BAD_INODE, s)" "del inum s = Some (BAD_INODE, s)"
    by (simp_all add: read_i_def write_i_def truncate_i_def del_def)
next
  assume u: "disk s = None \<and> cached_superblock s = None"
  then have "local_superblock s = (DISC_UNINITIALIZED, uninit_superblock s)"
    by (simp add: local_superblock_def read_superblock_def read_block_def)
  then have "local_inode inum s = (DISC_UNINITIALIZED, uninit_inode s)"
    by (simp add: local_inode_def inode_read_def)
  then show "read_i inum (Some buf) off n s = Some (DISC_UNINITIALIZED, buf)"
    "write_i inum (Some buf) off n s = Some (DISC_UNINITIALIZED, s)"
    "truncate_i inum off s = Some (DISC_UNINITIALIZED, s)" "del inum s = Some (DISC_UNINITIALIZED, s)"
    by (simp_all add: read_i_def write_i_def truncate_i_def del_def)
qed

lemma file_io_errors_witness:
  "read_i 0 (Some [1]) 0 1 with_file = Some (BAD_INODE, [1]) \<and> del 0 with_file = Some (BAD_INODE, with_file) \<and>
   write_i 2 (Some [1]) 0 1 blank = Some (DISC_UNINITIALIZED, blank)"
  using file_io_errors[of 0 0 1 with_file "[1]"] file_io_errors[of 2 0 1 blank "[1]"]
    fs_ok_mounted[OF with_file_ok] by (simp add: blank_def)

end
