(* ===== verification/HandlerSpec.thy ===== *)
theory HandlerSpec
  imports NewDir FuseOps FileProps
begin

text \<open>
  The handlers on well-formed states: listing a directory, input and output through descriptors,
  and the life of a file that is unlinked while it is open.
\<close>

section \<open>Listing a directory\<close>

text \<open>
  The calls of the filler for a list of entries; \<open>Inl\<close> when the filler said that its buffer is full.
\<close>

primrec fill_list ::
    "dir_ent list \<Rightarrow> ('b \<Rightarrow> byte list \<Rightarrow> c_stat \<Rightarrow> int \<Rightarrow> 'b \<times> bool) \<Rightarrow> c_stat \<Rightarrow> 'b \<Rightarrow> layer2 \<Rightarrow> 'b + 'b" where
  "fill_list [] filler s0 buf s = Inr buf"
| "fill_list (e # es) filler s0 buf s =
    (let (buf, full) = filler buf (cstr (de_name e)) (get_stat s0 (sint (de_inode_num e)) (files s)) 0
     in if full then Inl buf else fill_list es filler s0 buf s)"

definition filled :: "'b + 'b \<Rightarrow> 'b" where
  "filled r = (case r of Inl b \<Rightarrow> b | Inr b \<Rightarrow> b)"

lemma filled_simps [simp]: "filled (Inl b) = b" "filled (Inr b) = b"
  by (simp_all add: filled_def)

lemma fill_list_append:
  "fill_list (es @ es') filler s0 buf s = (case fill_list es filler s0 buf s of
     Inl b \<Rightarrow> Inl b | Inr b \<Rightarrow> fill_list es' filler s0 b s)"
  by (induction es arbitrary: buf) (auto split: prod.split)

lemma fill_entries_list:
  "fill_entries is d filler s0 buf s = fill_list (map (dirent_at d) is) filler s0 buf s"
  by (induction "is" arbitrary: buf) (auto simp: Let_def split: prod.split)

lemma fill_page:
  assumes "m = page_entries (dir_len ino) p" "length d = BLOCK_SIZE"
  shows "fill_entries [0..<m] (overlay 0 (file_bytes (files s) ino (p * BLOCK_SIZE) (m * sizeof_dirent)) d) filler s0 buf s =
    fill_list (take DIRENTS_PER_BLOCK (drop (p * DIRENTS_PER_BLOCK) (dir_entries (files s) ino))) filler s0 buf s"
proof -
  have le: "m \<le> DIRENTS_PER_BLOCK" using assms(1) by (simp add: page_entries_def)
  have "map (dirent_at (overlay 0 (file_bytes (files s) ino (p * BLOCK_SIZE) (m * sizeof_dirent)) d)) [0..<m] =
      map (\<lambda>i. dir_entry (files s) ino (p * DIRENTS_PER_BLOCK + i)) [0..<m]"
    using dirent_at_page[OF _ le assms(2), of _ "files s" ino p] by simp
  then show ?thesis using page_of_entries[of "files s" ino p] by (simp add: fill_entries_list assms(1))
qed

lemma readdir_pages_spec:
  assumes m: "mounted (files s)" and k: "valid_inum (files s) k" and ok: "dir_ok (files s) (inode_at (files s) k)"
    and p: "p \<le> (dir_len (inode_at (files s) k) - 1) div DIRENTS_PER_BLOCK" and d: "length d = BLOCK_SIZE"
  shows "readdir_pages (int k) d (int p) e0 False filler s0 buf s =
    Some (filled (fill_list (drop (p * DIRENTS_PER_BLOCK) (dir_entries (files s) (inode_at (files s) k))) filler s0 buf s))"
  using p d
proof (induction "(dir_len (inode_at (files s) k) - 1) div DIRENTS_PER_BLOCK - p" arbitrary: p d e0 buf rule: less_induct)
  case less
  let ?ino = "inode_at (files s) k"
  let ?es = "dir_entries (files s) ?ino" and ?N = "(dir_len ?ino - 1) div DIRENTS_PER_BLOCK"
  let ?m = "page_entries (dir_len ?ino) p" and ?a = "p * DIRENTS_PER_BLOCK"
  let ?d = "overlay 0 (file_bytes (files s) ?ino (p * BLOCK_SIZE) (?m * sizeof_dirent)) d"
  let ?f = "fill_list (take DIRENTS_PER_BLOCK (drop ?a ?es)) filler s0 buf s"
  have fit: "?m * sizeof_dirent \<le> BLOCK_SIZE" by (simp add: page_entries_def c_consts)
  have fi: "fill_entries [0..<?m] ?d filler s0 buf s = ?f" by (rule fill_page[OF refl less.prems(2)])
  have step: "readdir_pages (int k) d (int p) e0 False filler s0 buf s = (case ?f of
      Inl b \<Rightarrow> Some b | Inr b \<Rightarrow> readdir_pages (int k) ?d (int p + 1) (int ?m) (p = ?N) filler s0 b s)"
    by (subst readdir_pages.simps) (simp only: read_dir_page_spec[OF m k ok refl less.prems] if_False
        option.case prod.case nat_int fi)
  have split: "drop ?a ?es = take DIRENTS_PER_BLOCK (drop ?a ?es) @ drop (Suc p * DIRENTS_PER_BLOCK) ?es"
    using append_take_drop_id[of DIRENTS_PER_BLOCK "drop ?a ?es"] by (simp add: add.commute)
  show ?case
  proof (cases ?f)
    case (Inl b)
    then show ?thesis unfolding step by (subst split) (simp add: fill_list_append)
  next
    case (Inr b)
    have "readdir_pages (int k) ?d (int p + 1) (int ?m) (p = ?N) filler s0 b s =
        Some (filled (fill_list (drop (Suc p * DIRENTS_PER_BLOCK) ?es) filler s0 b s))"
    proof (cases "p = ?N")
      case True
      have "dir_len ?ino \<le> Suc p * DIRENTS_PER_BLOCK"
        using div_mult_mod_eq[of "dir_len ?ino - 1" DIRENTS_PER_BLOCK]
          mod_less_divisor[of DIRENTS_PER_BLOCK "dir_len ?ino - 1"] dir_okD(5)[OF ok] unfolding True[symmetric]
        by (simp add: c_consts)
      then show ?thesis using True by (simp add: readdir_pages.simps)
    next
      case False
      have "readdir_pages (int k) ?d (int (Suc p)) (int ?m) False filler s0 b s =
          Some (filled (fill_list (drop (Suc p * DIRENTS_PER_BLOCK) ?es) filler s0 b s))"
        by (rule less.hyps) (use False less.prems fit in simp_all)
      then show ?thesis using False by (simp add: add.commute)
    qed
    then show ?thesis unfolding step Inr by (subst split) (simp add: fill_list_append Inr)
  qed
qed

text \<open>
  A directory of size 0, which \<open>read_dir_page\<close> refuses without setting \<open>*last\<close>: the loop never ends.
\<close>

lemma readdir_pages_diverges:
  assumes m: "mounted (files s)" and k: "valid_inum (files s) k" and ino: "S_ISDIR (i_mode (inode_at (files s) k))"
    "i_size (inode_at (files s) k) = 0"
  shows "readdir_pages (int k) d page 0 False filler s0 buf s = None"
proof -
  have r: "read_dir_page (int k) (Some d) page (Some 0) (Some False) (files s) = Some (MALFORMED_DIRECTORY, d, 0, False)"
    for d page using ino by (simp add: read_dir_page_def local_inode_ok[OF m k] opt_or_def)
  have "x = int k \<longrightarrow> e = 0 \<longrightarrow> \<not> l \<longrightarrow> u = s \<longrightarrow> False"
    if "readdir_pages x d page e l filler s0 buf u = Some b" for x d page e l buf u b
    by (rule readdir_pages.raw_induct[where P = "\<lambda>x d page e l f s0 buf u b. x = int k \<longrightarrow> e = 0 \<longrightarrow> \<not> l \<longrightarrow> u = s \<longrightarrow> False",
          OF _ that]) (auto simp: r, metis)
  from this[OF _, of "int k" d page 0 False buf s] show ?thesis
    by (cases "readdir_pages (int k) d page 0 False filler s0 buf s") simp_all
qed

section \<open>Descriptors\<close>

lemma local_inode_size:
  assumes "mounted s" "valid_inum s k"
  shows "uint (i_size (snd (local_inode (int k) s))) = int (file_size (inode_at s k))"
  by (simp add: local_inode_ok[OF assms] file_size_def)

lemma apply_write_end: "apply_write (length c) d c = c @ d"
proof -
  have l: "length (apply_write (length c) d c) = length c + length d" by (simp add: length_apply_write)
  show ?thesis by (rule nth_equalityI) (simp_all add: l nth_apply_write nth_append)
qed

lemma fs_write_append_spec:
  assumes ok: "fs_ok (files s)" and k: "valid_inum (files s) k" and g: "file_good (files s) (inode_at (files s) k)"
    and fd: "oft_lookup (c_int (fi_fh fi)) s = Some (int k, flags)" "flags AND O_APPEND \<noteq> 0"
      "fi_flags fi AND O_ACCMODE = O_WRONLY \<or> fi_flags fi AND O_ACCMODE = O_RDWR"
    and n: "0 < n" "file_size (inode_at (files s) k) + n < 2 ^ 31" "n \<le> length buf"
    and h: "write_honest (files s) (inode_at (files s) k) buf (file_size (inode_at (files s) k)) n"
  shows "\<exists>ret q t. fs_write buf (int n) offset (Some fi) s = Some (ret, s\<lparr>files := t\<rparr>) \<and>
    (ret = int n \<and> q = n \<or> ret = - ENOSPC \<and> q < n) \<and> fs_ok t \<and> file_good t (inode_at t k) \<and>
    file_contents t k = file_contents (files s) k @ take q buf"
proof -
  let ?ino = "inode_at (files s) k"
  let ?z = "file_size ?ino"
  note f = file_goodD[OF g]
  have m: "mounted (files s)" using ok by (rule fs_ok_mounted)
  have nn: "?z + n \<le> 2 ^ 31" "n < 2 ^ 31" using n(2) by simp_all
  obtain ret q t where w: "write_i (int k) (Some buf) (int ?z) (int n) (files s) = Some (ret, t)" "wrote k ?z buf q (files s) t"
    "ret = int n \<and> q = n \<or> ret = DATA_FULL \<and> q < n"
    using write_i_spec[OF ok f(1-3) k n(1) nn n(3) h] by blast
  have q: "?z + q < 2 ^ 31" "q \<le> length buf" using w(3) n by auto
  have ne: "int n \<noteq> DATA_FULL" by (simp add: c_consts)
  have "fs_write buf (int n) offset (Some fi) s = Some (if ret = DATA_FULL then - ENOSPC else ret, s\<lparr>files := t\<rparr>)"
    using fd w(1) by (auto simp: fs_write_def local_inode_ok[OF m k] uint_size on_files_def Let_def)
  moreover have "file_contents t k = file_contents (files s) k @ take q buf"
  proof -
    have "file_contents t k = apply_write ?z (take q buf) (file_contents (files s) k)"
      by (rule wrote_contents[OF g w(2) q])
    also have "\<dots> = file_contents (files s) k @ take q buf"
      using apply_write_end[of "file_contents (files s) k" "take q buf"] by simp
    finally show ?thesis .
  qed
  ultimately show ?thesis
    using w(3) ne wrote_good(1)[OF g w(2) q(1)] file_stepD(5)[OF wroteD(1)[OF w(2)]] by fastforce
qed

section \<open>Unlinking an open file\<close>

lemma file_good_frame:
  assumes "file_good s ino" "fs_frame I B s t" "B \<inter> file_set s ino = {}" "free_data t \<inter> file_set s ino = {}"
  shows "file_good t ino" "file_set t ino = file_set s ino"
    "n \<le> 2 ^ 31 \<Longrightarrow> file_bytes t ino 0 n = file_bytes s ino 0 n"
proof -
  note g = file_goodD[OF assms(1)]
  note f = file_frame[OF g(1) assms(2-4)]
  have b: "file_byte t ino j = file_byte s ino j" if "j < MAX_FILE_BYTES" for j
    using f(4)[OF byte_block[OF that]] by (simp add: file_byte_def)
  show "file_good t ino" using assms(1) f(1,3,5) b unfolding file_good_def by simp
  show "file_set t ino = file_set s ino" by (rule f(2))
  show "file_bytes t ino 0 n = file_bytes s ino 0 n" if "n \<le> 2 ^ 31"
    unfolding file_bytes_def using that by (intro map_cong refl b small_byte) simp
qed

lemma fs_unlink_spec:
  assumes ok: "fs_ok (files s)" "oft_ok s" and c: "creatable (files s) uid gid ts name k"
    and w: "may_write uid gid (inode_at (files s) k)"
    and i: "dir_find name (entries_of (files s) k) = Some i" "sint (de_inode_num (entries_of (files s) k ! i)) = int n"
    and n: "valid_inum (files s) n" "n \<noteq> k" "\<not> S_ISDIR (i_mode (inode_at (files s) n))"
    and g: "file_good (files s) (inode_at (files s) n)"
      "file_set (files s) (inode_at (files s) n) \<inter> file_set (files s) (inode_at (files s) k) = {}"
    and part: "length (entries_of (files s) k) mod DIRENTS_PER_BLOCK \<noteq> 1" and opn: "open_fds (int n) s \<noteq> {}"
  shows "\<exists>t. fs_unlink (path_of (ts @ [name])) uid gid s = Some (0, t) \<and> oft_ok t \<and> fs_ok (files t) \<and>
    entries_of (files t) k = list_remove i (entries_of (files s) k) \<and> inode_at (files t) n = inode_at (files s) n \<and>
    file_contents (files t) n = file_contents (files s) n \<and> file_good (files t) (inode_at (files t) n) \<and>
    file_set (files t) (inode_at (files t) n) = file_set (files s) (inode_at (files s) n) \<and>
    free_inums (files t) = free_inums (files s) \<and> valid_inum (files t) n \<and> pending (int n) t \<and>
    open_fds (int n) t = open_fds (int n) s"
proof -
  let ?f = "files s"
  have m: "mounted ?f" using ok(1) by (rule fs_ok_mounted)
  have d: "is_dir ?f k" "may_search ?f uid gid k" "valid_name name" "walk ?f uid gid 1 ts k"
    "\<forall>u \<in> set (ts @ [name]). is_component u" using c by (simp_all add: creatable_def)
  then have k: "valid_inum ?f k" "dir_ok ?f (inode_at ?f k)" by (simp_all add: is_dir_def)
  have n0: "int n \<noteq> 0" using n(1) by (simp add: valid_inum_def)
  have nm: "namei (path_of (ts @ [name])) uid gid ?f = Some (SUCCESS, int k, int n, int i)"
    using namei_last[OF d(4) m d(5,1-3)] i by (metis found_def option.simps(5))
  obtain l where l: "dir_len (inode_at ?f k) = Suc l" using dir_okD(5)[OF k(2)] by (cases "dir_len (inode_at ?f k)") auto
  have il: "i < Suc l" using first_index_lt[OF i(1)[unfolded dir_find_def]] l by (simp add: entries_of_def)
  have pl: "l mod DIRENTS_PER_BLOCK \<noteq> 0" using part l by (intro notI) (simp add: entries_of_def mod_Suc c_consts)
  obtain u where u: "remove_dirent (int k) (int i) ?f = Some (SUCCESS, u)" "file_step {k} ?f (inode_at ?f k) u (inode_at u k)"
    "dir_entries u (inode_at u k) = list_remove i (dir_entries ?f (inode_at ?f k))"
    using remove_dirent_spec[OF ok(1) k l il pl] by blast
  note du = file_stepD[OF u(2)]
  have iu: "inode_at u n = inode_at ?f n" using fs_frameD(8)[OF du(1) n(1)] n(2) by simp
  have "file_set ?f (inode_at ?f n) \<inter> free_data ?f = {}" by (rule file_okD(4)[OF file_goodD(1)[OF g(1)]])
  then have dj: "(free_data ?f \<union> file_set ?f (inode_at ?f k)) \<inter> file_set ?f (inode_at ?f n) = {}"
    "free_data u \<inter> file_set ?f (inode_at ?f n) = {}" using g(2) du(2) by blast+
  note gu = file_good_frame[OF g(1) du(1) dj]
  have "file_contents u n = file_contents ?f n"
    using gu(3) file_goodD(3)[OF g(1)] by (simp add: file_contents_def iu)
  moreover obtain t where t: "oft_attempt_delete (int n) (s\<lparr>files := u\<rparr>) = Some (False, t)" "oft_ok t" "files t = u"
    "pending (int n) t" "open_fds (int n) t = open_fds (int n) s"
    using mark_pending_effect[of "s\<lparr>files := u\<rparr>" "int n"] ok(2) opn by (auto simp: open_fds_def oft_lookup_def)
  moreover have "fs_unlink (path_of (ts @ [name])) uid gid s = Some (0, t)"
    using nm n0 n(3) permissions_eq[OF m k(1)] w t(1) u(1)
    by (simp add: fs_unlink_def local_inode_ok[OF m n(1)] on_files_def)
  ultimately show ?thesis using u(3) du(3,5,7) n(1) gu(1,2) iu by (auto simp: entries_of_def)
qed

lemma close_last_spec:
  assumes ok: "fs_ok (files s)" "oft_ok s" and p: "pending (int n) s"
    and n: "valid_inum (files s) n" "file_good (files s) (inode_at (files s) n)"
    and ds: "distinct (ds @ [fd])" "set (ds @ [fd]) = open_fds (int n) s"
  shows "\<exists>u v. release_all ds s = Some u \<and> files u = files s \<and> oft_remove fd u = Some (True, v) \<and>
    open_fds (int n) v = {} \<and> oft_ok v \<and> free_inums (files v) = insert n (free_inums (files s)) \<and>
    free_data (files v) = free_data (files s) \<union> file_set (files s) (inode_at (files s) n)"
proof -
  have sub: "set ds \<subset> open_fds (int n) s" using ds by auto
  obtain u where u: "release_all ds s = Some u" "oft_ok u" "files u = files s" "pending (int n) u"
    "open_fds (int n) u = open_fds (int n) s - set ds"
    using release_all_keeps[OF ok(2) _ sub] ds(1) p by auto
  have o: "open_fds (int n) u = {fd}" using u(5) ds by auto
  obtain t where t: "del (int n) (files u) = Some (SUCCESS, t)"
    "free_data t = free_data (files s) \<union> file_set (files s) (inode_at (files s) n)" "free_inums t = insert n (free_inums (files s))"
    using del_spec[OF ok(1) n] u(3) by auto
  show ?thesis using release_last[OF u(2) o u(4) t(1)] u(1,3) t(2,3) by auto
qed

end
