(* ===== verification/Volume.thy ===== *)
theory Volume
  imports HandlerSpec
begin

text \<open>
  The disk as a whole.  \<open>volume_ok\<close> says that every data block is on the free list or belongs to exactly
  one file or directory, and that every used inode is a file or directory in good order.  An operation
  that changes a few inodes is checked on those: \<open>volume_change\<close> gives the invariant back and keeps
  all other files.
\<close>

definition used_inums :: "'a layer1_scheme \<Rightarrow> nat set" where
  "used_inums s = {k. valid_inum s k} - free_inums s"

definition owned :: "'a layer1_scheme \<Rightarrow> nat \<Rightarrow> nat set" where
  "owned s k = file_set s (inode_at s k)"

definition node_ok :: "'a layer1_scheme \<Rightarrow> nat \<Rightarrow> bool" where
  "node_ok s k \<longleftrightarrow>
    (if S_ISDIR (i_mode (inode_at s k)) then dir_ok s (inode_at s k) else file_good s (inode_at s k))"

definition volume_ok :: "'a layer1_scheme \<Rightarrow> bool" where
  "volume_ok s \<longleftrightarrow> fs_ok s \<and> (\<forall>k \<in> used_inums s. node_ok s k) \<and>
    (\<forall>k \<in> used_inums s. \<forall>l \<in> used_inums s. k \<noteq> l \<longrightarrow> owned s k \<inter> owned s l = {}) \<and>
    {b. valid_data s b} = free_data s \<union> (\<Union>k \<in> used_inums s. owned s k)"

lemma volume_okD:
  assumes "volume_ok s"
  shows "fs_ok s" "k \<in> used_inums s \<Longrightarrow> node_ok s k"
    "k \<in> used_inums s \<Longrightarrow> l \<in> used_inums s \<Longrightarrow> k \<noteq> l \<Longrightarrow> owned s k \<inter> owned s l = {}"
    "{b. valid_data s b} = free_data s \<union> (\<Union>k \<in> used_inums s. owned s k)"
  using assms unfolding volume_ok_def by blast+

lemma node_okD:
  assumes "node_ok s k"
  shows "file_ok s (inode_at s k)" "owned s k \<inter> free_data s = {}"
    "S_ISDIR (i_mode (inode_at s k)) \<Longrightarrow> dir_ok s (inode_at s k)"
    "\<not> S_ISDIR (i_mode (inode_at s k)) \<Longrightarrow> file_good s (inode_at s k)"
proof -
  show f: "file_ok s (inode_at s k)" using assms dir_okD(1) file_goodD(1) unfolding node_ok_def by (metis (no_types))
  show "owned s k \<inter> free_data s = {}" using file_okD(4)[OF f] by (auto simp: owned_def)
qed (use assms in \<open>simp_all add: node_ok_def\<close>)

lemma used_is_dir:
  assumes "volume_ok s"
  shows "is_dir s k \<longleftrightarrow> k \<in> used_inums s \<and> S_ISDIR (i_mode (inode_at s k))"
  using node_okD(3)[OF volume_okD(2)[OF assms]] dir_okD(3) by (auto simp: is_dir_def used_inums_def)

text \<open>A file or directory that an operation does not touch.\<close>

definition kept :: "'a layer1_scheme \<Rightarrow> 'a layer1_scheme \<Rightarrow> nat \<Rightarrow> bool" where
  "kept s t k \<longleftrightarrow> inode_at t k = inode_at s k \<and> owned t k = owned s k \<and>
    (S_ISDIR (i_mode (inode_at s k)) \<longrightarrow> entries_of t k = entries_of s k) \<and>
    (\<not> S_ISDIR (i_mode (inode_at s k)) \<longrightarrow> file_contents t k = file_contents s k)"

lemma untouched:
  assumes k: "valid_inum s k" "k \<notin> free_inums s" "k \<notin> free_inums t" "k \<notin> I" and n: "node_ok s k"
    and fr: "fs_frame I B s t" and B: "B \<inter> owned s k = {}" "free_data t \<inter> owned s k = {}"
  shows "node_ok t k" "kept s t k"
proof -
  have i: "inode_at t k = inode_at s k" using fs_frameD(8)[OF fr k(1,4)] .
  have o: "owned t k = owned s k"
    using file_frame(2)[OF node_okD(1)[OF n] fr] B by (simp add: owned_def i)
  have "node_ok t k \<and> kept s t k"
  proof (cases "S_ISDIR (i_mode (inode_at s k))")
    case True
    then have "is_dir s k" using node_okD(3)[OF n] k(1,2) by (simp add: is_dir_def)
    from dir_frame[OF this fr k(4) _ _ k(3)] B have "is_dir t k" "entries_of t k = entries_of s k"
      by (simp_all add: owned_def)
    then show ?thesis using True i o by (simp add: is_dir_def node_ok_def kept_def)
  next
    case False
    note g = node_okD(4)[OF n False]
    have "file_contents t k = file_contents s k"
      using file_good_frame(3)[OF g fr] B file_goodD(3)[OF g] by (simp add: owned_def file_contents_def i)
    then show ?thesis using False i o file_good_frame(1)[OF g fr] B by (simp add: node_ok_def kept_def owned_def)
  qed
  then show "node_ok t k" "kept s t k" by simp_all
qed

lemma volume_change:
  assumes v: "volume_ok s"
    and fr: "fs_frame I (free_data s \<union> (\<Union>k \<in> I \<inter> used_inums s. owned s k)) s t"
    and used: "used_inums t - I = used_inums s - I"
    and ok: "\<And>k. k \<in> I \<Longrightarrow> k \<in> used_inums t \<Longrightarrow> node_ok t k"
    and disj: "\<And>k l. k \<in> I \<Longrightarrow> l \<in> I \<Longrightarrow> k \<in> used_inums t \<Longrightarrow> l \<in> used_inums t \<Longrightarrow> k \<noteq> l \<Longrightarrow>
      owned t k \<inter> owned t l = {}"
    and all: "free_data t \<union> (\<Union>k \<in> I \<inter> used_inums t. owned t k) =
      free_data s \<union> (\<Union>k \<in> I \<inter> used_inums s. owned s k)"
  shows "volume_ok t" "k \<in> used_inums s - I \<Longrightarrow> kept s t k"
proof -
  note d = volume_okD[OF v]
  let ?A = "free_data s \<union> (\<Union>k \<in> I \<inter> used_inums s. owned s k)"
  have out: "?A \<inter> owned s k = {}" if k: "k \<in> used_inums s - I" for k
  proof -
    have "owned s l \<inter> owned s k = {}" if "l \<in> I" "l \<in> used_inums s" for l using d(3)[of l k] that k by auto
    moreover have "owned s k \<inter> free_data s = {}" using node_okD(2)[OF d(2)] k by simp
    ultimately show ?thesis by auto
  qed
  have same: "node_ok t k" "kept s t k" if k: "k \<in> used_inums s - I" for k
  proof -
    have u: "k \<in> used_inums t" using used k by auto
    have f: "free_data t \<inter> owned s k = {}" using out[OF k] all by auto
    have i: "valid_inum s k" "k \<notin> free_inums s" "k \<notin> free_inums t" "k \<notin> I" "node_ok s k"
      using k u d(2)[of k] by (simp_all add: used_inums_def)
    show "node_ok t k" "kept s t k" using untouched[OF i fr out[OF k] f] by simp_all
  qed
  then show "k \<in> used_inums s - I \<Longrightarrow> kept s t k" by simp
  have rest: "owned t k = owned s k" if "k \<in> used_inums t" "k \<notin> I" for k
    using same(2)[of k] used that by (auto simp: kept_def)
  have node: "node_ok t k" if "k \<in> used_inums t" for k
    using ok[of k] same(1)[of k] used that by (cases "k \<in> I") auto
  have mixed: "owned t k \<inter> owned t l = {}" if "k \<in> used_inums t" "l \<in> used_inums t" "k \<in> I" "l \<notin> I" for k l
  proof -
    have "owned t k \<subseteq> ?A" using all that(1,3) by blast
    moreover have "?A \<inter> owned s l = {}" using out[of l] used that(2,4) by auto
    ultimately show ?thesis using rest[OF that(2,4)] by auto
  qed
  have "owned t k \<inter> owned t l = {}" if "k \<in> used_inums t" "l \<in> used_inums t" "k \<noteq> l" for k l
  proof -
    consider "k \<in> I" "l \<in> I" | "k \<in> I" "l \<notin> I" | "k \<notin> I" "l \<in> I" | "k \<notin> I" "l \<notin> I" by blast
    then show ?thesis
    proof cases
      case 4
      then have "k \<in> used_inums s" "l \<in> used_inums s" using used that by auto
      then show ?thesis using d(3) that(3) rest[OF that(1) 4(1)] rest[OF that(2) 4(2)] by simp
    qed (use disj mixed[of k l] mixed[of l k] that in \<open>auto simp: Int_commute\<close>)
  qed
  moreover have "{b. valid_data t b} = free_data t \<union> (\<Union>k \<in> used_inums t. owned t k)"
  proof -
    have "(\<Union>k \<in> used_inums t. owned t k) = (\<Union>k \<in> I \<inter> used_inums t. owned t k) \<union> (\<Union>k \<in> used_inums s - I. owned s k)"
      using rest used by blast
    moreover have "(\<Union>k \<in> used_inums s. owned s k) = (\<Union>k \<in> I \<inter> used_inums s. owned s k) \<union> (\<Union>k \<in> used_inums s - I. owned s k)"
      by blast
    moreover have "{b. valid_data t b} = {b. valid_data s b}" using fs_frameD(7)[OF fr] by simp
    ultimately show ?thesis using d(4) all by (simp add: Un_assoc[symmetric])
  qed
  ultimately show "volume_ok t" using fs_frameD(1)[OF fr] node unfolding volume_ok_def by blast
qed

end
