(* ===== verification/VolumeTree.thy ===== *)
theory VolumeTree
  imports Volume "HOL-Library.Multiset"
begin

text \<open>
  The names on the disk.  Apart from \<open>.\<close> and \<open>..\<close> the entries of the directories form a tree with the
  root directory at the top that names every used inode exactly once, but for files that were
  unlinked while they are open.  On such a disk \<open>namei\<close> always returns, and its result is an error or
  a directory with the entry looked for.
\<close>

section \<open>Trees of names\<close>

text \<open>
  \<open>D\<close> are the directories, \<open>K\<close> the inodes a directory names and \<open>U\<close> all inodes that are named, with
  the root 1.
\<close>

definition edges :: "nat set \<Rightarrow> (nat \<Rightarrow> nat list) \<Rightarrow> (nat \<times> nat) set" where
  "edges D K = {(k, n). k \<in> D \<and> n \<in> set (K k)}"

definition name_tree :: "nat set \<Rightarrow> (nat \<Rightarrow> nat list) \<Rightarrow> nat set \<Rightarrow> bool" where
  "name_tree D K U \<longleftrightarrow> finite U \<and> 1 \<in> D \<and> D \<subseteq> U \<and> (\<Sum>k \<in> D. mset (K k)) = mset_set (U - {1}) \<and>
    (\<forall>n \<in> U. (1, n) \<in> (edges D K)\<^sup>*)"

lemma name_treeD:
  assumes "name_tree D K U"
  shows "finite U" "finite D" "1 \<in> D" "D \<subseteq> U" "(\<Sum>k \<in> D. mset (K k)) = mset_set (U - {1})"
    "n \<in> U \<Longrightarrow> (1, n) \<in> (edges D K)\<^sup>*"
  using assms by (auto simp: name_tree_def intro: finite_subset)

lemma name_tree_cong:
  assumes "\<And>k. k \<in> D \<Longrightarrow> K' k = K k"
  shows "name_tree D K' U = name_tree D K U"
proof -
  have "edges D K' = edges D K" using assms by (auto simp: edges_def)
  moreover have "(\<Sum>k \<in> D. mset (K' k)) = (\<Sum>k \<in> D. mset (K k))" using assms by (intro sum.cong) simp_all
  ultimately show ?thesis by (simp add: name_tree_def)
qed

lemma named:
  assumes "name_tree D K U" "k \<in> D" "n \<in> set (K k)"
  shows "n \<in> U" "n \<noteq> 1" "count (mset (K k)) n = 1" "l \<in> D \<Longrightarrow> n \<in> set (K l) \<Longrightarrow> l = k"
proof -
  note d = name_treeD[OF assms(1)]
  have "mset (K k) \<subseteq># (\<Sum>k \<in> D. mset (K k))" using sum.remove[OF d(2) assms(2), of "\<lambda>k. mset (K k)"] by simp
  then have sub: "mset (K k) \<subseteq># mset_set (U - {1})" using d(5) by simp
  then have "n \<in># mset_set (U - {1})" using assms(3) by (metis mset_subset_eqD set_mset_mset)
  then show u: "n \<in> U" "n \<noteq> 1" using d(1) by simp_all
  have c: "count (mset_set (U - {1})) n = 1" using u d(1) by simp
  then show one: "count (mset (K k)) n = 1"
    using mset_subset_eq_count[OF sub, of n] assms(3) by (simp add: Suc_leI le_antisym)
  show "l \<in> D \<Longrightarrow> n \<in> set (K l) \<Longrightarrow> l = k"
  proof (rule ccontr)
    assume l: "l \<in> D" "n \<in> set (K l)" "l \<noteq> k"
    have "(\<Sum>k \<in> D. mset (K k)) = mset (K k) + (mset (K l) + (\<Sum>k \<in> D - {k} - {l}. mset (K k)))"
      using sum.remove[OF d(2) assms(2), of "\<lambda>k. mset (K k)"]
        sum.remove[of "D - {k}" l "\<lambda>k. mset (K k)"] d(2) l by simp
    then have "count (mset (K k)) n + count (mset (K l)) n \<le> 1" using c unfolding d(5)[symmetric] by simp
    moreover have "0 < count (mset (K l)) n" using l(2) by simp
    ultimately show False using one by simp
  qed
qed

text \<open>A new file, a new directory, and a name taken away.\<close>

lemma sum_kids:
  assumes "finite D" "k \<in> D"
  shows "(\<Sum>l \<in> D. mset ((K(k := ks)) l)) + mset (K k) = (\<Sum>l \<in> D. mset (K l)) + mset ks"
proof -
  have "(\<Sum>l \<in> D - {k}. mset ((K(k := ks)) l)) = (\<Sum>l \<in> D - {k}. mset (K l))" by (intro sum.cong) auto
  then show ?thesis
    using sum.remove[OF assms, of "\<lambda>l. mset ((K(k := ks)) l)"] sum.remove[OF assms, of "\<lambda>l. mset (K l)"] by simp
qed

lemma tree_new_file:
  assumes t: "name_tree D K U" and k: "k \<in> D" "n \<notin> U"
  shows "name_tree D (K(k := K k @ [n])) (insert n U)"
proof -
  note d = name_treeD[OF t]
  let ?K = "K(k := K k @ [n])"
  have e: "edges D ?K = insert (k, n) (edges D K)" using k(1) by (auto simp: edges_def split: if_splits)
  have "(\<Sum>l \<in> D. mset (?K l)) = add_mset n (mset_set (U - {1}))"
    using sum_kids[OF d(2) k(1), of K "K k @ [n]"] unfolding d(5) by (simp del: fun_upd_apply)
  also have "\<dots> = mset_set (insert n U - {1})" using d(1,3,4) k(2) by (subst insert_Diff_if) auto
  finally have s: "(\<Sum>l \<in> D. mset (?K l)) = mset_set (insert n U - {1})" .
  have mono: "(1, l) \<in> (edges D ?K)\<^sup>*" if "(1, l) \<in> (edges D K)\<^sup>*" for l
    using that rtrancl_mono[of "edges D K" "edges D ?K"] e by blast
  have "(1, n) \<in> (edges D ?K)\<^sup>*"
    using rtrancl_into_rtrancl[OF mono[OF d(6)], of k n] d(4) k(1) e by blast
  then show ?thesis using d(1,3,4) s mono d(6) by (auto simp: name_tree_def)
qed

lemma tree_new_dir:
  assumes t: "name_tree D K U" and k: "k \<in> D" "n \<notin> U"
  shows "name_tree (insert n D) (K(k := K k @ [n], n := [])) (insert n U)"
proof -
  note f = name_treeD[OF tree_new_file[OF t k]] and d = name_treeD[OF t]
  have n: "n \<notin> D" using k(2) d(4) by blast
  have e: "edges (insert n D) (K(k := K k @ [n], n := [])) = edges D (K(k := K k @ [n]))"
    using n by (auto simp: edges_def split: if_splits)
  have "(\<Sum>l \<in> insert n D. mset ((K(k := K k @ [n], n := [])) l)) = (\<Sum>l \<in> D. mset ((K(k := K k @ [n], n := [])) l))"
    using d(2) n by simp
  also have "\<dots> = (\<Sum>l \<in> D. mset ((K(k := K k @ [n])) l))" using n by (intro sum.cong) auto
  finally show ?thesis using f(1,5,6) d(3,4) unfolding name_tree_def e by auto
qed

lemma tree_drop:
  assumes t: "name_tree D K U" and k: "k \<in> D" "n \<in> D \<Longrightarrow> K n = [] \<and> n \<noteq> k" and ks: "mset (K k) = add_mset n (mset ks)"
  shows "name_tree (D - {n}) (K(k := ks)) (U - {n})"
proof -
  note d = name_treeD[OF t]
  let ?K = "K(k := ks)"
  have nk: "n \<in> set (K k)" using ks by (metis set_mset_mset union_single_eq_member)
  note n = named[OF t k(1) nk]
  have "add_mset n (\<Sum>l \<in> D. mset (?K l)) = mset_set (U - {1})"
    using sum_kids[OF d(2) k(1), of K ks] unfolding d(5) ks by (simp del: fun_upd_apply)
  also have "U - {1} = insert n (U - {n} - {1})" using n(1,2) by blast
  also have "mset_set \<dots> = add_mset n (mset_set (U - {n} - {1}))" using d(1) by (subst mset_set.insert) auto
  finally have "(\<Sum>l \<in> D. mset (?K l)) = mset_set (U - {n} - {1})" by simp
  moreover have "(\<Sum>l \<in> D - {n}. mset (?K l)) = (\<Sum>l \<in> D. mset (?K l))"
    using k(2) d(2) by (intro sum.mono_neutral_left) auto
  ultimately have s: "(\<Sum>l \<in> D - {n}. mset (?K l)) = mset_set (U - {n} - {1})" by simp
  have e: "(l, m) \<in> edges (D - {n}) ?K" if "(l, m) \<in> edges D K" "m \<noteq> n" for l m
  proof -
    have "m \<in> set ks" if "l = k"
    proof -
      have "m \<in># mset (K k)" using \<open>(l, m) \<in> edges D K\<close> that by (simp add: edges_def)
      then show ?thesis unfolding ks using \<open>m \<noteq> n\<close> by simp
    qed
    moreover have "l \<noteq> n" using that(1) k(2) by (auto simp: edges_def)
    ultimately show ?thesis using that by (auto simp: edges_def)
  qed
  have "m = n \<or> (1, m) \<in> (edges (D - {n}) ?K)\<^sup>*" if "(1, m) \<in> (edges D K)\<^sup>*" for m
    using that
  proof (induction rule: rtrancl_induct)
    case (step l m)
    have "l \<noteq> n" using step.hyps(2) k(2) by (auto simp: edges_def)
    then have "(1, l) \<in> (edges (D - {n}) ?K)\<^sup>*" using step.IH by blast
    then show ?case using e[OF step.hyps(2)] rtrancl_into_rtrancl[of 1 l "edges (D - {n}) ?K" m] by blast
  qed simp
  then show ?thesis using d(1,3,4,6) s n(2) by (auto simp: name_tree_def)
qed

lemma tree_drop_file:
  assumes "name_tree D K U" "k \<in> D" "n \<notin> D" "mset (K k) = add_mset n (mset ks)"
  shows "name_tree D (K(k := ks)) (U - {n})"
  using tree_drop[OF assms(1,2) _ assms(4)] assms(3) by simp

section \<open>The directories of the disk\<close>

definition entry_inum :: "dir_ent \<Rightarrow> nat" where
  "entry_inum e = nat (sint (de_inode_num e))"

definition kids :: "'a layer1_scheme \<Rightarrow> nat \<Rightarrow> nat list" where
  "kids s k = map entry_inum (drop 2 (entries_of s k))"

definition dirs :: "'a layer1_scheme \<Rightarrow> nat set" where
  "dirs s = {k. is_dir s k}"

definition name_of :: "dir_ent \<Rightarrow> byte list" where
  "name_of e = cstr (de_name e)"

text \<open>
  A directory begins with its own number and that of the directory that names it, the root with its
  own; its names are different.
\<close>

definition parent_of :: "'a layer1_scheme \<Rightarrow> nat \<Rightarrow> nat" where
  "parent_of s k = entry_inum (entries_of s k ! 1)"

definition dir_wf :: "'a layer1_scheme \<Rightarrow> nat \<Rightarrow> bool" where
  "dir_wf s k \<longleftrightarrow> 2 \<le> length (entries_of s k) \<and> distinct (map name_of (entries_of s k)) \<and>
    name_of (entries_of s k ! 0) = DOT \<and> entry_inum (entries_of s k ! 0) = k \<and>
    name_of (entries_of s k ! 1) = DOT_DOT \<and> parent_of s k \<in> dirs s \<and>
    (if k = 1 then parent_of s k = 1 else k \<in> set (kids s (parent_of s k)))"

lemma dir_wf_change:
  assumes "dir_wf s k" "2 \<le> length (entries_of t k)" "distinct (map name_of (entries_of t k))"
    "entries_of t k ! 0 = entries_of s k ! 0" "entries_of t k ! 1 = entries_of s k ! 1"
    "parent_of s k \<in> dirs t" "k \<noteq> 1 \<Longrightarrow> k \<in> set (kids s (parent_of s k)) \<Longrightarrow> k \<in> set (kids t (parent_of s k))"
  shows "dir_wf t k"
proof -
  have "parent_of t k = parent_of s k" using assms(5) by (simp add: parent_of_def)
  then show ?thesis using assms unfolding dir_wf_def by (simp split: if_splits)
qed

text \<open>\<open>lost\<close> are the files without a name.\<close>

definition names_ok :: "'a layer1_scheme \<Rightarrow> nat set \<Rightarrow> bool" where
  "names_ok s lost \<longleftrightarrow> volume_ok s \<and> lost \<subseteq> used_inums s - dirs s \<and> (\<forall>k \<in> dirs s. dir_wf s k) \<and>
    name_tree (dirs s) (kids s) (used_inums s - lost)"

lemma finite_used [simp]: "finite (used_inums s)"
proof -
  have "used_inums s \<subseteq> {1..ninodes s}" by (auto simp: used_inums_def valid_inum_def)
  then show ?thesis by (rule finite_subset) simp
qed

lemma names_okD:
  assumes "names_ok s lost"
  shows "volume_ok s" "lost \<subseteq> used_inums s - dirs s" "k \<in> dirs s \<Longrightarrow> dir_wf s k"
    "name_tree (dirs s) (kids s) (used_inums s - lost)" "fs_ok s" "mounted s" "1 \<in> dirs s"
    "k \<in> dirs s \<longleftrightarrow> k \<in> used_inums s \<and> S_ISDIR (i_mode (inode_at s k))"
  using assms name_treeD(3) volume_okD(1) fs_ok_mounted used_is_dir[of s k]
  unfolding names_ok_def dirs_def by blast+

text \<open>Every entry names a used inode.\<close>

lemma entry_cases:
  assumes t: "names_ok s lost" and k: "k \<in> dirs s" and i: "i < length (entries_of s k)"
  shows "entry_inum (entries_of s k ! i) \<in> used_inums s - lost"
    "i < 2 \<Longrightarrow> entry_inum (entries_of s k ! i) \<in> dirs s"
    "2 \<le> i \<Longrightarrow> entry_inum (entries_of s k ! i) \<in> set (kids s k)"
    "sint (de_inode_num (entries_of s k ! i)) = int (entry_inum (entries_of s k ! i))"
proof -
  note d = names_okD[OF t]
  have w: "dir_wf s k" using d(3) k by simp
  show dir: "entry_inum (entries_of s k ! i) \<in> dirs s" if "i < 2"
    using w k that by (cases i) (auto simp: dir_wf_def parent_of_def)
  show kid: "entry_inum (entries_of s k ! i) \<in> set (kids s k)" if ge: "2 \<le> i"
  proof -
    obtain j where j: "i = 2 + j" using le_Suc_ex[OF ge] by blast
    have "kids s k ! j = entry_inum (entries_of s k ! i)" "j < length (kids s k)"
      using i by (simp_all add: kids_def j)
    then show ?thesis by (metis nth_mem)
  qed
  show u: "entry_inum (entries_of s k ! i) \<in> used_inums s - lost"
  proof (cases "i < 2")
    case True
    then show ?thesis using dir d(2) name_treeD(4)[OF d(4)] by blast
  next
    case False
    then show ?thesis using named(1)[OF d(4) k kid] by simp
  qed
  then have "0 < entry_inum (entries_of s k ! i)" by (auto simp: used_inums_def valid_inum_def)
  then show "sint (de_inode_num (entries_of s k ! i)) = int (entry_inum (entries_of s k ! i))"
    by (simp add: entry_inum_def)
qed

section \<open>namei on such a disk\<close>

text \<open>The names \<open>ts\<close> lead from \<open>k\<close> to entry \<open>i\<close> of directory \<open>q\<close>, which names \<open>n\<close>, or to no entry.\<close>

definition looked_up :: "'a layer1_scheme \<Rightarrow> int \<Rightarrow> int \<Rightarrow> nat \<Rightarrow> byte list list \<Rightarrow> int \<Rightarrow> int \<Rightarrow> int \<Rightarrow> bool" where
  "looked_up s uid gid k ts q n i \<longleftrightarrow> (\<exists>us x l. ts = us @ [x] \<and> walk s uid gid k us l \<and> is_dir s l \<and>
    may_search s uid gid l \<and> valid_name x \<and> q = int l \<and> n = found x (entries_of s l) \<and>
    (\<forall>j. dir_find x (entries_of s l) = Some j \<longrightarrow> i = int j))"

lemma looked_up_here:
  assumes "is_dir s k" "may_search s uid gid k" "valid_name x" "n = found x (entries_of s k)"
    "\<forall>j. dir_find x (entries_of s k) = Some j \<longrightarrow> i = int j"
  shows "looked_up s uid gid k [x] (int k) n i"
proof -
  have "walk s uid gid k [] k" by (rule walk.here)
  then show ?thesis using assms by (auto simp: looked_up_def)
qed

lemma looked_up_down:
  assumes "is_dir s k" "may_search s uid gid k" "valid_name x" "dir_find x (entries_of s k) = Some i"
    "sint (de_inode_num (entries_of s k ! i)) = int l" "l \<noteq> 0" "looked_up s uid gid l ts q n j"
  shows "looked_up s uid gid k (x # ts) q n j"
proof -
  obtain us y m where u: "ts = us @ [y]" "walk s uid gid l us m" "is_dir s m" "may_search s uid gid m" "valid_name y"
    "q = int m" "n = found y (entries_of s m)" "\<forall>i. dir_find y (entries_of s m) = Some i \<longrightarrow> j = int i"
    using assms(7) unfolding looked_up_def by blast
  have "walk s uid gid k (x # us) m" by (rule walk.down[OF assms(1-6) u(2)])
  moreover have "x # ts = (x # us) @ [y]" using u(1) by simp
  ultimately show ?thesis unfolding looked_up_def using u(3-8) by blast
qed

lemma namei_loop_total:
  assumes t: "names_ok s lost" and k: "k \<in> used_inums s" and ts: "\<forall>x \<in> set ts. is_cstr x" "ts \<noteq> []"
  shows "\<exists>r q n i. namei_loop ts uid gid p (int k) index s = Some (r, q, n, i) \<and>
    (r = SUCCESS \<longrightarrow> looked_up s uid gid k ts q n i)"
  using k ts
proof (induction ts arbitrary: k p index)
  case (Cons x xs)
  note d = names_okD[OF t]
  have k: "valid_inum s k" "k \<noteq> 0" using Cons.prems(1) by (auto simp: used_inums_def valid_inum_def)
  note perm = permissions_eq[OF d(6) k(1), of uid gid]
  consider (long) "MAX_FILENAME < length x" | (forbidden) "length x \<le> MAX_FILENAME" "\<not> may_search s uid gid k"
    | (plain) "length x \<le> MAX_FILENAME" "may_search s uid gid k" "\<not> S_ISDIR (i_mode (inode_at s k))"
    | (dir) "valid_name x" "may_search s uid gid k" "k \<in> dirs s"
    using Cons.prems(1,2) d(8) by (cases "MAX_FILENAME < length x") (auto simp: valid_name_def)
  then show ?case
  proof cases
    case long
    then show ?thesis using k by (simp add: Let_def)
  next
    case forbidden
    then show ?thesis using k by (auto simp: perm may_search_def Let_def)
  next
    case plain
    then show ?thesis using k by (simp add: perm may_search_def search_by_name_def local_inode_ok[OF d(6) k(1)] Let_def)
  next
    case dir
    then have isd: "is_dir s k" by (simp add: dirs_def)
    note step = namei_loop_dir[OF d(6) isd dir(2,1) k(2), of xs p index]
    note here = looked_up_here[OF isd dir(2,1)]
    show ?thesis
    proof (cases "dir_find x (entries_of s k)")
      case None
      then show ?thesis using step here by (cases xs) (auto simp: found_def)
    next
      case (Some i)
      have i: "i < length (entries_of s k)" using first_index_lt Some by (simp add: dir_find_def)
      let ?n = "entry_inum (entries_of s k ! i)"
      note e = entry_cases[OF t dir(3) i]
      have n: "?n \<in> used_inums s" "?n \<noteq> 0" using e(1) by (auto simp: used_inums_def valid_inum_def)
      have next_loop: "namei_loop (x # xs) uid gid p (int k) index s = namei_loop xs uid gid (int k) (int ?n) (int i) s"
        using step Some e(4) by simp
      show ?thesis
      proof (cases "xs = []")
        case True
        then show ?thesis using next_loop here[of "int ?n" "int i"] Some e(4) by (simp add: found_def)
      next
        case False
        then obtain r q m j where r: "namei_loop xs uid gid (int k) (int ?n) (int i) s = Some (r, q, m, j)"
          "r = SUCCESS \<longrightarrow> looked_up s uid gid ?n xs q m j"
          using Cons.IH[OF n(1), of "int k" "int i"] Cons.prems(2) by auto
        then show ?thesis
          using looked_up_down[OF isd dir(2,1) Some e(4) n(2), of xs q m j] unfolding next_loop by auto
      qed
    qed
  qed
qed simp

text \<open>The paths the kernel hands to the handlers: from the root, without empty names.\<close>

definition fuse_path :: "byte list list \<Rightarrow> byte list" where
  "fuse_path ts = (if ts = [] then [SLASH] else path_of ts)"

definition clean :: "byte list list \<Rightarrow> bool" where
  "clean ts \<longleftrightarrow> (\<forall>x \<in> set ts. is_component x \<and> is_cstr x)"

lemma namei_total:
  assumes t: "names_ok s lost" and ts: "clean ts"
  obtains (error) r q n i where "namei (fuse_path ts) uid gid s = Some (r, q, n, i)" "r \<noteq> SUCCESS"
  | (root) "ts = []" "namei (fuse_path ts) uid gid s = Some (SUCCESS, 1, 1, 0)"
  | (entry) us x k i where "ts = us @ [x]" "fuse_path ts = path_of (us @ [x])" "creatable s uid gid us x k" "k \<in> dirs s"
    "namei (fuse_path ts) uid gid s = Some (SUCCESS, int k, found x (entries_of s k), i)"
    "\<And>j. dir_find x (entries_of s k) = Some j \<Longrightarrow> i = int j"
proof (cases "ts = []")
  case True
  have "strtok [SLASH] = []" by (simp add: strtok.simps)
  then show thesis using root True by (simp add: fuse_path_def namei_def)
next
  case False
  note d = names_okD[OF t]
  have "1 \<in> used_inums s" using d(2) name_treeD(4)[OF d(4)] d(7) by blast
  moreover have c: "\<forall>x \<in> set ts. is_cstr x" "\<forall>x \<in> set ts. is_component x" using ts by (simp_all add: clean_def)
  ultimately obtain r q n i where r: "namei_loop ts uid gid 1 (int 1) 0 s = Some (r, q, n, i)"
    "r = SUCCESS \<longrightarrow> looked_up s uid gid 1 ts q n i"
    using namei_loop_total[OF t, of 1 ts uid gid 1 0] False by blast
  have nm: "namei (fuse_path ts) uid gid s = Some (r, q, n, i)"
    using r(1) strtok_path[OF c(2)] False by (simp add: fuse_path_def namei_def)
  show thesis
  proof (cases "r = SUCCESS")
    case True
    obtain us x l where u: "ts = us @ [x]" "walk s uid gid 1 us l" "is_dir s l" "may_search s uid gid l"
      "valid_name x" "q = int l" "n = found x (entries_of s l)" "\<forall>j. dir_find x (entries_of s l) = Some j \<longrightarrow> i = int j"
      using r(2) True unfolding looked_up_def by blast
    have "creatable s uid gid us x l" using u c(2) by (simp add: creatable_def)
    then show thesis using entry[of us x l i] u nm True by (simp add: fuse_path_def dirs_def)
  qed (rule error[OF nm])
qed

section \<open>Changes of the tree\<close>

text \<open>Nothing happens to the directories; files without a name may disappear.\<close>

lemma tree_same:
  assumes t: "names_ok s lost" and v: "volume_ok t" and ds: "dirs t = dirs s"
    and es: "\<And>k. k \<in> dirs s \<Longrightarrow> entries_of t k = entries_of s k"
    and u: "used_inums t - lost' = used_inums s - lost" "lost' \<subseteq> used_inums t - dirs t"
  shows "names_ok t lost'"
proof -
  note d = names_okD[OF t]
  have "dir_wf t k" if "k \<in> dirs t" for k
  proof -
    have w: "dir_wf s k" "entries_of t k = entries_of s k" using d(3)[of k] es that by (simp_all add: ds)
    then have "kids t (parent_of s k) = kids s (parent_of s k)" using es by (simp add: dir_wf_def kids_def)
    then show ?thesis using w by (intro dir_wf_change[OF w(1)]) (simp_all add: dir_wf_def ds)
  qed
  moreover have "name_tree (dirs t) (kids t) (used_inums t - lost')"
    unfolding u(1) ds using d(4) es by (subst name_tree_cong[where K = "kids s"]) (auto simp: kids_def)
  ultimately show ?thesis using v u(2) by (simp add: names_ok_def)
qed

text \<open>The name \<open>x\<close> of a new inode \<open>n\<close> is entered in directory \<open>k\<close>.\<close>

lemma name_new_dirent: "valid_name x \<Longrightarrow> name_of (new_dirent x n) = x"
  using has_name_new[of x x n] by (simp add: has_name_def name_of_def)

lemma enter_wf:
  assumes t: "names_ok s lost" and k: "k \<in> dirs s" and x: "valid_name x" "found x (entries_of s k) = 0"
    and e: "entries_of t k = entries_of s k @ [new_dirent x (int n)]" and ds: "dirs s \<subseteq> dirs t"
    and kp: "\<And>l. l \<in> dirs s \<Longrightarrow> set (kids s l) \<subseteq> set (kids t l)"
  shows "dir_wf t k"
proof -
  have w: "dir_wf s k" using names_okD(3)[OF t k] .
  have "dir_find x (entries_of s k) = None"
    using x(2) k found_0[of s "inode_at s k"] by (simp add: dirs_def is_dir_def entries_of_def)
  then have "x \<notin> set (map name_of (entries_of s k))" by (auto simp: dir_find_def first_index_None has_name_def name_of_def)
  then have "distinct (map name_of (entries_of t k))" using w name_new_dirent[OF x(1)] by (simp add: e dir_wf_def)
  moreover have "parent_of s k \<in> dirs s" "2 \<le> length (entries_of s k)" using w by (simp_all add: dir_wf_def)
  ultimately show ?thesis using ds kp by (intro dir_wf_change[OF w]) (auto simp: e nth_append)
qed

lemma base_wf:
  assumes b: "base_entries n (int k) (entries_of t n)" and m: "mounted s" "valid_inum s n" "valid_inum s k"
    and k: "k \<in> dirs t" "n \<in> set (kids t k)" "n \<noteq> 1"
  shows "dir_wf t n" "kids t n = []"
proof -
  have "k \<noteq> 0" using m(3) by (simp add: valid_inum_def)
  then obtain e f where e: "entries_of t n = [e, f]" "name_of e = DOT" "name_of f = DOT_DOT"
    "de_inode_num e = word_of_nat n" "de_inode_num f = word_of_nat k" using b by (auto simp: base_entries_def name_of_def)
  have "entry_inum e = n" "entry_inum f = k"
    using inum_u32(1)[OF m(1,2)] inum_u32(1)[OF m(1,3)] e(4,5) by (simp_all add: entry_inum_def)
  moreover have "DOT \<noteq> DOT_DOT" by (simp add: DOT_def DOT_DOT_def)
  ultimately show "dir_wf t n" "kids t n = []" using e(1-3) k by (simp_all add: dir_wf_def parent_of_def kids_def)
qed

lemma tree_enter:
  assumes t: "names_ok s lost" and k: "k \<in> dirs s" and n: "n \<notin> used_inums s" "valid_inum s n"
    and x: "valid_name x" "found x (entries_of s k) = 0"
    and v: "volume_ok t" and u: "used_inums t = insert n (used_inums s)"
    and es: "entries_of t k = entries_of s k @ [new_dirent x (int n)]"
      "\<And>l. l \<in> dirs s \<Longrightarrow> l \<noteq> k \<Longrightarrow> entries_of t l = entries_of s l"
    and ds: "dirs t = dirs s \<or> dirs t = insert n (dirs s) \<and> base_entries n (int k) (entries_of t n)"
  shows "names_ok t lost"
proof -
  note d = names_okD[OF t]
  have nd: "n \<notin> dirs s" "n \<noteq> k" using n(1) k d(8) by blast+
  have sub: "dirs s \<subseteq> dirs t" using ds by blast
  have inum: "entry_inum (new_dirent x (int n)) = n"
    using inum_u32(1)[OF d(6) n(2)] by (simp add: entry_inum_def new_dirent_def)
  have kk: "kids t k = kids s k @ [n]" using d(3)[OF k] by (simp add: kids_def es(1) inum dir_wf_def)
  have kl: "kids t l = kids s l" if "l \<in> dirs s" "l \<noteq> k" for l using es(2)[OF that] by (simp add: kids_def)
  have kp: "set (kids s l) \<subseteq> set (kids t l)" if "l \<in> dirs s" for l using kk kl that by (cases "l = k") auto
  have wk: "dir_wf t k" by (rule enter_wf[OF t k x es(1) sub kp])
  have wl: "dir_wf t l" if l: "l \<in> dirs s" for l
  proof (cases "l = k")
    case False
    have w: "dir_wf s l" by (rule d(3)[OF l])
    then have "parent_of s l \<in> dirs s" by (simp add: dir_wf_def)
    then show ?thesis using w es(2)[OF l False] sub kp by (intro dir_wf_change[OF w]) (auto simp: dir_wf_def)
  qed (use wk in simp)
  have nu: "n \<notin> used_inums s - lost" using n(1) by blast
  have ul: "used_inums t - lost = insert n (used_inums s - lost)" using u n(1) d(2) by blast
  from ds show ?thesis
  proof
    assume e: "dirs t = dirs s"
    have "name_tree (dirs s) ((kids s)(k := kids s k @ [n])) (insert n (used_inums s - lost))"
      by (rule tree_new_file[OF d(4) k nu])
    then have "name_tree (dirs s) (kids t) (insert n (used_inums s - lost))"
      using kk kl by (subst name_tree_cong[where K = "(kids s)(k := kids s k @ [n])"]) auto
    moreover have "lost \<subseteq> used_inums t - dirs t" using d(2) u e by blast
    ultimately show ?thesis using v wl unfolding names_ok_def e ul by blast
  next
    assume e: "dirs t = insert n (dirs s) \<and> base_entries n (int k) (entries_of t n)"
    have "valid_inum s k" "k \<in> dirs t" "n \<in> set (kids t k)" "n \<noteq> 1"
      using k e kk nd(1) d(7) by (auto simp: dirs_def is_dir_def)
    note b = base_wf[OF conjunct2[OF e] d(6) n(2) this]
    have "name_tree (insert n (dirs s)) ((kids s)(k := kids s k @ [n], n := [])) (insert n (used_inums s - lost))"
      by (rule tree_new_dir[OF d(4) k nu])
    then have "name_tree (insert n (dirs s)) (kids t) (insert n (used_inums s - lost))"
      using kk kl b(2) nd by (subst name_tree_cong[where K = "(kids s)(k := kids s k @ [n], n := [])"]) auto
    moreover have "lost \<subseteq> used_inums t - dirs t" unfolding u conjunct1[OF e] using d(2) n(1) by blast
    ultimately show ?thesis using v wl b(1) conjunct1[OF e] unfolding names_ok_def ul by auto
  qed
qed

text \<open>Entry \<open>i\<close> of directory \<open>k\<close>, which names a file, is removed.\<close>

lemma mset_list_remove: "i < length es \<Longrightarrow> mset es = add_mset (es ! i) (mset (list_remove i es))"
proof -
  assume i: "i < length es"
  then obtain zs z where e: "es = zs @ [z]" by (cases es rule: rev_cases) auto
  show ?thesis
  proof (cases "i = length zs")
    case False
    then have i': "i < length zs" using i e by simp
    then have "list_remove i es = zs[i := z]" by (simp add: list_remove_def e list_update_append)
    moreover have "mset (zs[i := z]) = add_mset z (mset zs - {#zs ! i#})" by (rule mset_update[OF i'])
    ultimately show ?thesis using i' nth_mem_mset[OF i'] by (simp add: e nth_append)
  qed (simp add: e list_remove_def)
qed

lemma list_remove_rest:
  assumes "2 \<le> i" "i < length es"
  shows "2 \<le> length (list_remove i es)" "list_remove i es ! 0 = es ! 0" "list_remove i es ! 1 = es ! 1"
    "drop 2 (list_remove i es) = list_remove (i - 2) (drop 2 es)"
proof -
  obtain a b zs where e: "es = a # b # zs" "zs \<noteq> []" using assms by (cases es; cases "tl es") (auto, fastforce)
  obtain j where j: "i = Suc (Suc j)" using assms(1) by (metis Suc_le_D add_2_eq_Suc le_Suc_ex)
  have r: "list_remove i es = a # b # list_remove j zs" using e(2) by (simp add: list_remove_def e j)
  then show "2 \<le> length (list_remove i es)" "list_remove i es ! 0 = es ! 0" "list_remove i es ! 1 = es ! 1"
    "drop 2 (list_remove i es) = list_remove (i - 2) (drop 2 es)" by (simp_all add: e j)
qed

text \<open>The directory \<open>k\<close> and all others after the entry was removed.\<close>

lemma unname_wf:
  assumes t: "names_ok s lost" and k: "k \<in> dirs s" and i: "2 \<le> i" "i < length (entries_of s k)"
    and n: "n = entry_inum (entries_of s k ! i)" and ds: "dirs t = dirs s - {n}"
    and es: "entries_of t k = list_remove i (entries_of s k)"
      "\<And>l. l \<in> dirs t \<Longrightarrow> l \<noteq> k \<Longrightarrow> entries_of t l = entries_of s l"
    and kn: "n \<in> dirs s \<Longrightarrow> kids s n = []"
  shows "mset (kids s k) = add_mset n (mset (kids t k))" "l \<in> dirs t \<Longrightarrow> dir_wf t l"
proof -
  note d = names_okD[OF t]
  let ?es = "entries_of s k"
  note r = list_remove_rest[OF i]
  obtain j where j: "i = 2 + j" using le_Suc_ex[OF i(1)] by blast
  have "i - 2 < length (drop 2 ?es)" "drop 2 ?es ! (i - 2) = ?es ! i" using i(2) by (simp_all add: j)
  from mset_list_remove[OF this(1)] this(2)
  show ms: "mset (kids s k) = add_mset n (mset (kids t k))" by (simp add: kids_def es(1) r(4) n)
  have nk: "n \<in> set (kids s k)" using ms by (metis set_mset_mset union_single_eq_member)
  have kids: "set (kids s p) - {n} \<subseteq> set (kids t p)" if "p \<in> dirs t" for p
  proof (cases "p = k")
    case True
    have "set (kids s k) = insert n (set (kids t k))" using arg_cong[OF ms, of set_mset] by simp
    then show ?thesis using True by blast
  qed (use es(2)[OF that] in \<open>simp add: kids_def\<close>)
  have par: "parent_of s l \<in> dirs t" if l: "l \<in> dirs t" for l
  proof -
    have w: "dir_wf s l" "l \<noteq> n" using d(3)[of l] l ds by auto
    have "parent_of s l \<noteq> n"
    proof
      assume p: "parent_of s l = n"
      then have "n \<in> dirs s" using w(1) by (simp add: dir_wf_def)
      then have "l = 1" "n = 1" using w(1) kn p by (auto simp: dir_wf_def split: if_splits)
      then show False using w(2) by simp
    qed
    then show ?thesis using w(1) ds by (simp add: dir_wf_def)
  qed
  show "dir_wf t l" if l: "l \<in> dirs t"
  proof -
    have w: "dir_wf s l" "l \<noteq> n" using d(3)[of l] l ds by auto
    have keep: "l \<in> set (kids t (parent_of s l))" if "l \<in> set (kids s (parent_of s l))"
      using kids[OF par[OF l]] that w(2) by blast
    show ?thesis
    proof (cases "l = k")
      case True
      have "mset (map name_of ?es) = mset (map name_of (?es ! i # list_remove i ?es))"
        using mset_list_remove[OF i(2)] by simp
      then have "distinct (map name_of (?es ! i # list_remove i ?es))"
        using w(1) mset_eq_imp_distinct_iff unfolding dir_wf_def True by blast
      then show ?thesis using r keep par[OF l] by (intro dir_wf_change[OF w(1)]) (simp_all add: True es(1))
    next
      case False
      then show ?thesis
        using w(1) es(2)[OF l] keep par[OF l] by (intro dir_wf_change[OF w(1)]) (simp_all add: dir_wf_def)
    qed
  qed
qed

lemma tree_unname:
  assumes t: "names_ok s lost" and k: "k \<in> dirs s" and i: "2 \<le> i" "i < length (entries_of s k)"
    and n: "n = entry_inum (entries_of s k ! i)" "n \<notin> dirs s"
    and v: "volume_ok t" and ds: "dirs t = dirs s"
    and es: "entries_of t k = list_remove i (entries_of s k)"
      "\<And>l. l \<in> dirs s \<Longrightarrow> l \<noteq> k \<Longrightarrow> entries_of t l = entries_of s l"
    and u: "used_inums t - lost' = used_inums s - lost - {n}" "lost' \<subseteq> used_inums t - dirs t"
  shows "names_ok t lost'"
proof -
  note d = names_okD[OF t]
  have ds': "dirs t = dirs s - {n}" using ds n(2) by simp
  note w = unname_wf[OF t k i n(1) ds' es(1)]
  have ms: "mset (kids s k) = add_mset n (mset (kids t k))" and wl: "\<And>l. l \<in> dirs t \<Longrightarrow> dir_wf t l"
    using w es(2) n(2) by (simp_all add: ds)
  have "name_tree (dirs s) ((kids s)(k := kids t k)) (used_inums s - lost - {n})"
    by (rule tree_drop_file[OF d(4) k n(2) ms])
  then have "name_tree (dirs s) (kids t) (used_inums s - lost - {n})"
    using es(2) by (subst name_tree_cong[where K = "(kids s)(k := kids t k)"]) (auto simp: kids_def)
  then show ?thesis using v wl u by (simp add: names_ok_def ds)
qed

text \<open>The same for an empty directory.\<close>

lemma tree_rmdir:
  assumes t: "names_ok s lost" and k: "k \<in> dirs s" and i: "2 \<le> i" "i < length (entries_of s k)"
    and n: "n = entry_inum (entries_of s k ! i)" "n \<in> dirs s" "n \<noteq> k" "kids s n = []"
    and v: "volume_ok t" and ds: "dirs t = dirs s - {n}"
    and es: "entries_of t k = list_remove i (entries_of s k)"
      "\<And>l. l \<in> dirs t \<Longrightarrow> l \<noteq> k \<Longrightarrow> entries_of t l = entries_of s l"
    and u: "used_inums t = used_inums s - {n}"
  shows "names_ok t lost"
proof -
  note d = names_okD[OF t]
  note w = unname_wf[OF t k i n(1) ds es(1)]
  have ms: "mset (kids s k) = add_mset n (mset (kids t k))" and wl: "\<And>l. l \<in> dirs t \<Longrightarrow> dir_wf t l"
    using w es(2) n(4) by simp_all
  have "name_tree (dirs s - {n}) ((kids s)(k := kids t k)) (used_inums s - lost - {n})"
    using tree_drop[OF d(4) k _ ms] n(3,4) by simp
  then have nt: "name_tree (dirs s - {n}) (kids t) (used_inums s - lost - {n})"
    using es(2) by (subst name_tree_cong[where K = "(kids s)(k := kids t k)"]) (auto simp: kids_def ds)
  have "used_inums t - lost = used_inums s - lost - {n}" using u by auto
  moreover have "lost \<subseteq> used_inums t - dirs t" unfolding u ds using d(2) n(2) by blast
  ultimately show ?thesis using v wl nt by (simp add: names_ok_def ds)
qed

end
