(* ===== verification/VolumePaths.thy ===== *)
theory VolumePaths
  imports VolumeTree "HOL-Library.Sublist"
begin

text \<open>
  What the disk stands for: a tree of folders and files, a map from paths without \<open>.\<close> and \<open>..\<close> to
  folders and contents of files.  A node of the tree has one path only, so that an operation on one
  inode changes the map at one path.
\<close>

section \<open>Paths and nodes\<close>

definition links_of :: "'a layer1_scheme \<Rightarrow> nat \<Rightarrow> (byte list \<times> nat) list" where
  "links_of s k = map (\<lambda>e. (name_of e, entry_inum e)) (drop 2 (entries_of s k))"

primrec node_at :: "'a layer1_scheme \<Rightarrow> nat \<Rightarrow> byte list list \<Rightarrow> nat option" where
  "node_at s k [] = Some k"
| "node_at s k (x # xs) = (if k \<in> dirs s then
     (case map_of (links_of s k) x of None \<Rightarrow> None | Some n \<Rightarrow> node_at s n xs) else None)"

datatype fs_node = Folder | Plain "byte list"

definition shown :: "'a layer1_scheme \<Rightarrow> nat \<Rightarrow> fs_node" where
  "shown s n = (if n \<in> dirs s then Folder else Plain (file_contents s n))"

definition tree_of :: "'a layer1_scheme \<Rightarrow> byte list list \<Rightarrow> fs_node option" where
  "tree_of s ts = map_option (shown s) (node_at s 1 ts)"

lemma node_at_append: "node_at s k (xs @ ys) = (case node_at s k xs of None \<Rightarrow> None | Some l \<Rightarrow> node_at s l ys)"
  by (induction xs arbitrary: k) (simp_all split: option.split)

lemma node_at_snoc:
  "node_at s k (xs @ [x]) = (case node_at s k xs of None \<Rightarrow> None
    | Some l \<Rightarrow> if l \<in> dirs s then map_of (links_of s l) x else None)"
  by (simp add: node_at_append split: option.split)

lemma kids_links: "kids s k = map snd (links_of s k)"
  by (simp add: kids_def links_of_def)

lemma links_entry:
  assumes "2 \<le> i" "i < length (entries_of s k)"
  shows "(name_of (entries_of s k ! i), entry_inum (entries_of s k ! i)) \<in> set (links_of s k)"
proof -
  obtain j where "i = 2 + j" using le_Suc_ex[OF assms(1)] by blast
  then have "entries_of s k ! i \<in> set (drop 2 (entries_of s k))" using assms(2) nth_mem[of j "drop 2 (entries_of s k)"] by simp
  then show ?thesis by (simp add: links_of_def)
qed

lemma dir_wf_links:
  assumes "dir_wf s k"
  shows "distinct (map fst (links_of s k))" "DOT \<notin> fst ` set (links_of s k)" "DOT_DOT \<notin> fst ` set (links_of s k)"
proof -
  let ?ns = "map name_of (entries_of s k)"
  obtain e f es where e: "entries_of s k = e # f # es" "name_of e = DOT" "name_of f = DOT_DOT"
    using assms by (cases "entries_of s k"; cases "tl (entries_of s k)") (auto simp: dir_wf_def)
  have "map fst (links_of s k) = map name_of es" by (simp add: links_of_def e(1))
  then show "distinct (map fst (links_of s k))" "DOT \<notin> fst ` set (links_of s k)" "DOT_DOT \<notin> fst ` set (links_of s k)"
    using assms e(2,3) unfolding dir_wf_def e(1) set_map[symmetric] by auto
qed

section \<open>Each node has one path\<close>

lemma node_named:
  assumes t: "names_ok s lost" and p: "node_at s 1 ts = Some n"
  shows "n \<in> used_inums s - lost"
  using p
proof (cases ts rule: rev_cases)
  case Nil
  then show ?thesis using p names_okD(2,7)[OF t] name_treeD(4)[OF names_okD(4)[OF t]] by auto
next
  case (snoc us x)
  then obtain l where l: "l \<in> dirs s" "map_of (links_of s l) x = Some n"
    using p by (auto simp: node_at_snoc split: option.splits if_splits)
  then have "n \<in> set (kids s l)" using map_of_SomeD[OF l(2)] by (force simp: kids_links)
  then show ?thesis using named(1)[OF names_okD(4)[OF t] l(1)] by simp
qed

lemma kids_distinct:
  assumes "names_ok s lost" "k \<in> dirs s"
  shows "distinct (kids s k)"
proof -
  have "count (mset (kids s k)) n = (if n \<in> set (kids s k) then 1 else 0)" for n
    using named(3)[OF names_okD(4)[OF assms(1)] assms(2), of n] by (cases "n \<in> set (kids s k)") (simp_all add: count_mset_0_iff)
  then show ?thesis unfolding distinct_count_atmost_1 by simp
qed

lemma one_path:
  assumes t: "names_ok s lost" and p: "node_at s 1 ts = Some n" "node_at s 1 us = Some n"
  shows "ts = us"
  using p
proof (induction ts arbitrary: us n rule: rev_induct)
  case Nil
  then have n: "n = 1" by simp
  show ?case
  proof (cases us rule: rev_cases)
    case (snoc ws y)
    then obtain l where l: "l \<in> dirs s" "map_of (links_of s l) y = Some 1"
      using Nil.prems(2) n by (auto simp: node_at_snoc split: option.splits if_splits)
    then have "1 \<in> set (kids s l)" using map_of_SomeD[OF l(2)] by (force simp: kids_links)
    then show ?thesis using named(2)[OF names_okD(4)[OF t] l(1)] by blast
  qed simp
next
  case (snoc x ts)
  obtain l where l: "node_at s 1 ts = Some l" "l \<in> dirs s" "map_of (links_of s l) x = Some n"
    using snoc.prems(1) by (auto simp: node_at_snoc split: option.splits if_splits)
  have nl: "n \<in> set (kids s l)" using map_of_SomeD[OF l(3)] by (force simp: kids_links)
  have "us \<noteq> []" using named(2)[OF names_okD(4)[OF t] l(2) nl] snoc.prems(2) by auto
  then obtain ws y where u: "us = ws @ [y]" by (metis rev_exhaust)
  obtain m where m: "node_at s 1 ws = Some m" "m \<in> dirs s" "map_of (links_of s m) y = Some n"
    using snoc.prems(2) u by (auto simp: node_at_snoc split: option.splits if_splits)
  have "n \<in> set (kids s m)" using map_of_SomeD[OF m(3)] by (force simp: kids_links)
  then have ml: "m = l" using named(4)[OF names_okD(4)[OF t] l(2) nl m(2)] by simp
  have "inj_on snd (set (links_of s l))"
    using kids_distinct[OF t l(2)] unfolding kids_links distinct_map by simp
  then have "x = y" using map_of_SomeD[OF l(3)] map_of_SomeD[OF m(3)] unfolding ml inj_on_def by fastforce
  then show ?case using snoc.IH[OF l(1)] m(1) ml u by blast
qed

lemma path_exists:
  assumes t: "names_ok s lost" and n: "n \<in> used_inums s - lost"
  shows "\<exists>ts. node_at s 1 ts = Some n"
proof -
  note d = names_okD[OF t]
  have "(1, n) \<in> (edges (dirs s) (kids s))\<^sup>*" by (rule name_treeD(6)[OF d(4) n])
  then show ?thesis
  proof (induction rule: rtrancl_induct)
    case base
    have "node_at s 1 [] = Some 1" by simp
    then show ?case by blast
  next
    case (step l n)
    then obtain ts where ts: "node_at s 1 ts = Some l" by blast
    have l: "l \<in> dirs s" "n \<in> set (kids s l)" using step.hyps(2) by (simp_all add: edges_def)
    then obtain x where x: "(x, n) \<in> set (links_of s l)" by (auto simp: kids_links)
    have "map_of (links_of s l) x = Some n" by (rule map_of_is_SomeI[OF dir_wf_links(1)[OF d(3)[OF l(1)]] x])
    then have "node_at s 1 (ts @ [x]) = Some n" using ts l(1) by (simp add: node_at_snoc)
    then show ?case by blast
  qed
qed

section \<open>The paths of the code\<close>

text \<open>The kernel resolves \<open>.\<close> and \<open>..\<close> before it calls a handler.\<close>

definition no_dots :: "byte list list \<Rightarrow> bool" where
  "no_dots ts \<longleftrightarrow> DOT \<notin> set ts \<and> DOT_DOT \<notin> set ts"

lemma no_dots_simps [simp]:
  "no_dots []" "no_dots (x # ts) \<longleftrightarrow> x \<noteq> DOT \<and> x \<noteq> DOT_DOT \<and> no_dots ts"
  "no_dots (ts @ us) \<longleftrightarrow> no_dots ts \<and> no_dots us"
  by (auto simp: no_dots_def)

lemma map_of_first_index:
  "map_of (map (\<lambda>e. (f e, g e)) zs) x = map_option (\<lambda>i. g (zs ! i)) (first_index (\<lambda>e. f e = x) zs)"
  by (induction zs) (auto simp: option.map_comp comp_def)

lemma find_link:
  assumes "dir_wf s k" "x \<noteq> DOT" "x \<noteq> DOT_DOT"
  shows "map_of (links_of s k) x = map_option (\<lambda>i. entry_inum (entries_of s k ! i)) (dir_find x (entries_of s k))"
proof -
  obtain e f es where e: "entries_of s k = e # f # es" "name_of e = DOT" "name_of f = DOT_DOT"
    using assms(1) by (cases "entries_of s k"; cases "tl (entries_of s k)") (auto simp: dir_wf_def)
  have "links_of s k = map (\<lambda>e. (name_of e, entry_inum e)) es" by (simp add: links_of_def e(1))
  moreover have "has_name x = (\<lambda>e. name_of e = x)" by (simp add: has_name_def[abs_def] name_of_def)
  ultimately show ?thesis
    using e assms(2,3) by (auto simp: dir_find_def map_of_first_index option.map_comp comp_def)
qed

lemma walk_node:
  assumes t: "names_ok s lost" and w: "walk s uid gid k ts l" and n: "no_dots ts"
  shows "node_at s k ts = Some l"
  using w n
proof (induction rule: walk.induct)
  case (down k x i l ts m)
  have k: "k \<in> dirs s" using down.hyps(1) by (simp add: dirs_def)
  have "entry_inum (entries_of s k ! i) = l" using down.hyps(5) by (simp add: entry_inum_def)
  then have "map_of (links_of s k) x = Some l"
    using find_link[OF names_okD(3)[OF t k], of x] down.hyps(4) down.prems by simp
  then show ?case using down.IH down.prems k by simp
qed simp

lemma creatable_node:
  assumes "names_ok s lost" "creatable s uid gid us x k" "no_dots us"
  shows "node_at s 1 us = Some k" "k \<in> dirs s"
  using walk_node[OF assms(1) _ assms(3)] assms(2) by (auto simp: creatable_def dirs_def)

lemma found_link:
  assumes t: "names_ok s lost" and k: "k \<in> dirs s" and x: "no_dots [x]"
  shows "map_of (links_of s k) x = (if found x (entries_of s k) = 0 then None else Some (nat (found x (entries_of s k))))"
proof -
  have w: "dir_wf s k" using names_okD(3)[OF t k] .
  show ?thesis
  proof (cases "dir_find x (entries_of s k)")
    case None
    then show ?thesis using find_link[OF w, of x] x by (simp add: found_def)
  next
    case (Some i)
    have "i < length (entries_of s k)" using first_index_lt Some by (simp add: dir_find_def)
    from entry_cases(1,4)[OF t k this] show ?thesis
      using find_link[OF w, of x] x Some by (auto simp: found_def used_inums_def valid_inum_def)
  qed
qed

section \<open>Changes\<close>

lemma node_at_cong:
  assumes ds: "dirs t = dirs s" and es: "\<And>l. l \<in> dirs s \<Longrightarrow> entries_of t l = entries_of s l"
  shows "node_at t k ts = node_at s k ts"
  by (induction ts arbitrary: k) (auto simp: ds es links_of_def split: option.split)

text \<open>A name is entered.\<close>

lemma enter_path:
  assumes t: "names_ok s lost" and n: "n \<notin> used_inums s" and k: "k \<in> dirs s" "node_at s 1 us = Some k"
    and x: "x \<notin> fst ` set (links_of s k)" "links_of t k = links_of s k @ [(x, n)]"
    and es: "\<And>l. l \<in> dirs s \<Longrightarrow> l \<noteq> k \<Longrightarrow> links_of t l = links_of s l"
    and ds: "dirs t = dirs s \<or> dirs t = insert n (dirs s) \<and> links_of t n = []"
  shows "node_at t 1 vs = (if vs = us @ [x] then Some n else node_at s 1 vs)"
proof (induction vs rule: rev_induct)
  case (snoc y ws)
  have nd: "n \<notin> dirs s" using n names_okD(8)[OF t] by blast
  have new: "map_of (links_of s k) x = None" using x(1) by (simp add: map_of_eq_None_iff)
  show ?case
  proof (cases "ws = us @ [x]")
    case True
    then have "node_at t 1 ws = Some n" using snoc.IH by simp
    then have "node_at t 1 (ws @ [y]) = None" using ds nd unfolding node_at_snoc by auto
    moreover have "node_at s 1 ws = None" using k new unfolding True by (simp add: node_at_snoc)
    then have "node_at s 1 (ws @ [y]) = None" unfolding node_at_snoc by simp
    ultimately show ?thesis using True by simp
  next
    case False
    then have IH: "node_at t 1 ws = node_at s 1 ws" using snoc.IH by simp
    show ?thesis
    proof (cases "node_at s 1 ws")
      case None
      then show ?thesis using IH k(2) by (auto simp: node_at_snoc)
    next
      case (Some l)
      have ln: "l \<noteq> n" using node_named[OF t Some] n by blast
      have ld: "l \<in> dirs t \<longleftrightarrow> l \<in> dirs s" using ds ln by auto
      show ?thesis
      proof (cases "l = k")
        case True
        then have "ws = us" using one_path[OF t Some] k(2) by simp
        then show ?thesis using Some IH True ld k(1) x new by (auto simp: node_at_snoc map_add_def split: option.split)
      next
        case False
        then have "ws \<noteq> us" using Some k(2) by auto
        then show ?thesis using Some IH ld es[of l] False by (simp add: node_at_snoc)
      qed
    qed
  qed
qed simp

text \<open>A name is removed.\<close>

lemma map_of_remove:
  assumes "distinct (map fst ps)" "distinct (map fst qs)" "set ps = insert (x, n) (set qs)" "(x, n) \<notin> set qs"
  shows "map_of qs y = (if y = x then None else map_of ps y)"
proof (cases "y = x")
  case True
  have "x \<notin> fst ` set qs"
  proof
    assume "x \<in> fst ` set qs"
    then obtain m where "(x, m) \<in> set qs" by auto
    moreover from this have "m = n" using assms(1,3) by (metis eq_key_imp_eq_value insertCI)
    ultimately show False using assms(4) by simp
  qed
  then show ?thesis using True by (simp add: map_of_eq_None_iff)
next
  case False
  have "map_of qs y = Some m \<longleftrightarrow> map_of ps y = Some m" for m
    using assms False by auto
  then show ?thesis using False by (metis option.exhaust)
qed

lemma drop_path:
  assumes t: "names_ok s lost" and k: "k \<in> dirs s" "node_at s 1 us = Some k"
    and x: "map_of (links_of s k) x = Some n" "\<And>y. map_of (links_of t k) y = (if y = x then None else map_of (links_of s k) y)"
    and es: "\<And>l. l \<in> dirs t \<Longrightarrow> l \<noteq> k \<Longrightarrow> links_of t l = links_of s l" and ds: "dirs t = dirs s - {n}"
  shows "node_at t 1 vs = (if prefix (us @ [x]) vs then None else node_at s 1 vs)"
proof (induction vs rule: rev_induct)
  case (snoc y ws)
  have old: "node_at s 1 (us @ [x]) = Some n" using k x(1) by (simp add: node_at_snoc)
  show ?case
  proof (cases "prefix (us @ [x]) ws")
    case True
    then have "node_at t 1 ws = None" using snoc.IH by simp
    then show ?thesis using True by (simp add: node_at_snoc)
  next
    case False
    then have IH: "node_at t 1 ws = node_at s 1 ws" using snoc.IH by simp
    show ?thesis
    proof (cases "node_at s 1 ws")
      case None
      then show ?thesis using IH k(2) by (auto simp: node_at_snoc)
    next
      case (Some l)
      have ln: "l \<noteq> n" using one_path[OF t Some] old False by blast
      have ld: "l \<in> dirs t \<longleftrightarrow> l \<in> dirs s" using ds ln by auto
      show ?thesis
      proof (cases "l = k")
        case True
        then have "ws = us" using one_path[OF t Some] k(2) by simp
        then show ?thesis using Some IH True ld k(1) x(2) by (simp add: node_at_snoc)
      next
        case l: False
        then have "ws \<noteq> us" using Some k(2) by auto
        then show ?thesis using Some IH ld es[of l] l False by (simp add: node_at_snoc)
      qed
    qed
  qed
qed simp

section \<open>The tree after a change\<close>

lemma kept_shown:
  assumes "volume_ok s" "volume_ok t" "l \<in> used_inums s" "l \<in> used_inums t" "kept s t l"
  shows "shown t l = shown s l"
proof -
  note u = used_is_dir[OF assms(1), of l] used_is_dir[OF assms(2), of l]
  then have "l \<in> dirs t \<longleftrightarrow> l \<in> dirs s" using assms(3-5) by (simp add: dirs_def kept_def)
  then show ?thesis using assms(3,5) u by (auto simp: shown_def kept_def dirs_def)
qed

lemma tree_of_eq:
  assumes t: "names_ok s lost" and p: "\<And>ts. node_at t 1 ts = node_at s 1 ts"
    and sh: "\<And>l. l \<in> used_inums s - lost \<Longrightarrow> shown t l = shown s l"
  shows "tree_of t = tree_of s"
proof
  fix ts
  show "tree_of t ts = tree_of s ts"
    using node_named[OF t, of ts] sh by (cases "node_at s 1 ts") (simp_all add: tree_of_def p del: One_nat_def)
qed

lemma tree_of_write:
  assumes t: "names_ok s lost" and p: "\<And>ts. node_at t 1 ts = node_at s 1 ts"
    and sh: "\<And>l. l \<in> used_inums s - lost \<Longrightarrow> l \<noteq> k \<Longrightarrow> shown t l = shown s l" and k: "node_at s 1 us = Some k"
  shows "tree_of t = (tree_of s)(us \<mapsto> shown t k)"
proof
  fix ts
  show "tree_of t ts = ((tree_of s)(us \<mapsto> shown t k)) ts"
  proof (cases "ts = us")
    case True
    then show ?thesis using k by (simp add: tree_of_def p del: One_nat_def)
  next
    case False
    have "shown t l = shown s l" if l: "node_at s 1 ts = Some l" for l
      using sh[OF node_named[OF t l]] one_path[OF t l] k False by blast
    then show ?thesis using False by (cases "node_at s 1 ts") (simp_all add: tree_of_def p del: One_nat_def)
  qed
qed

lemma tree_of_enter:
  assumes t: "names_ok s lost" and k: "k \<in> dirs s" "node_at s 1 us = Some k" and n: "n \<notin> used_inums s" "valid_inum s n"
    and x: "valid_name x" "no_dots [x]" "found x (entries_of s k) = 0" "entries_of t k = entries_of s k @ [new_dirent x (int n)]"
    and es: "\<And>l. l \<in> dirs s \<Longrightarrow> l \<noteq> k \<Longrightarrow> entries_of t l = entries_of s l"
    and ds: "dirs t = dirs s \<or> dirs t = insert n (dirs s) \<and> kids t n = []"
    and sh: "\<And>l. l \<in> used_inums s \<Longrightarrow> shown t l = shown s l"
  shows "tree_of s (us @ [x]) = None" "tree_of t = (tree_of s)(us @ [x] \<mapsto> shown t n)"
proof -
  note d = names_okD[OF t]
  have new: "map_of (links_of s k) x = None" using found_link[OF t k(1) x(2)] x(3) by simp
  have inum: "entry_inum (new_dirent x (int n)) = n"
    using inum_u32(1)[OF d(6) n(2)] by (simp add: entry_inum_def new_dirent_def)
  have lk: "links_of t k = links_of s k @ [(x, n)]"
    using d(3)[OF k(1)] name_new_dirent[OF x(1)] by (simp add: links_of_def x(4) inum dir_wf_def)
  have ln: "dirs t = dirs s \<or> dirs t = insert n (dirs s) \<and> links_of t n = []" using ds by (auto simp: kids_links)
  have p: "node_at t 1 vs = (if vs = us @ [x] then Some n else node_at s 1 vs)" for vs
    by (rule enter_path[OF t n(1) k _ lk _ ln]) (use new es in \<open>simp_all add: map_of_eq_None_iff links_of_def\<close>)
  show "tree_of s (us @ [x]) = None" using k new by (simp add: tree_of_def node_at_snoc)
  show "tree_of t = (tree_of s)(us @ [x] \<mapsto> shown t n)"
  proof
    fix ts
    show "tree_of t ts = ((tree_of s)(us @ [x] \<mapsto> shown t n)) ts"
      using node_named[OF t, of ts] sh by (cases "node_at s 1 ts") (auto simp: tree_of_def p simp del: One_nat_def)
  qed
qed

text \<open>What is left of a tree when the node at a path is removed with all that is below it.\<close>

definition cut :: "byte list list \<Rightarrow> (byte list list \<Rightarrow> fs_node option) \<Rightarrow> byte list list \<Rightarrow> fs_node option" where
  "cut p T q = (if prefix p q then None else T q)"

lemma cut_leaf:
  assumes "node_at s 1 p = Some n" "n \<notin> dirs s \<or> kids s n = []"
  shows "cut p (tree_of s) = (tree_of s)(p := None)"
proof
  fix q
  have "node_at s n (x # xs) = None" for x xs using assms(2) by (auto simp: kids_links)
  then have "tree_of s q = None" if "prefix p q" "q \<noteq> p"
    using assms(1) that by (elim prefixE; rename_tac zs; case_tac zs) (simp_all add: tree_of_def node_at_append)
  then show "cut p (tree_of s) q = ((tree_of s)(p := None)) q" by (auto simp: cut_def)
qed

lemma tree_of_drop:
  assumes t: "names_ok s lost" and k: "k \<in> dirs s" "node_at s 1 us = Some k"
    and i: "2 \<le> i" "i < length (entries_of s k)" "x = name_of (entries_of s k ! i)" "n = entry_inum (entries_of s k ! i)"
    and x: "entries_of t k = list_remove i (entries_of s k)"
    and es: "\<And>l. l \<in> dirs t \<Longrightarrow> l \<noteq> k \<Longrightarrow> entries_of t l = entries_of s l" and ds: "dirs t = dirs s - {n}"
    and sh: "\<And>l. l \<in> used_inums s - lost \<Longrightarrow> l \<noteq> n \<Longrightarrow> shown t l = shown s l"
  shows "node_at s 1 (us @ [x]) = Some n" "tree_of t = cut (us @ [x]) (tree_of s)"
proof -
  note d = names_okD[OF t]
  have ls: "(x, n) \<in> set (links_of s k)" using links_entry[OF i(1,2)] i(3,4) by simp
  note w = dir_wf_links(1)[OF d(3)[OF k(1)]]
  have xn: "map_of (links_of s k) x = Some n" by (rule map_of_is_SomeI[OF w ls])
  obtain j where j: "i = 2 + j" using le_Suc_ex[OF i(1)] by blast
  have jl: "j < length (links_of s k)" "links_of s k ! j = (x, n)" using i by (simp_all add: links_of_def j)
  have "list_remove j (map f es) = map f (list_remove j es)" if "es \<noteq> []" for f :: "dir_ent \<Rightarrow> byte list \<times> nat" and es
    using that by (simp add: list_remove_def map_butlast map_update last_map)
  then have lt: "links_of t k = list_remove j (links_of s k)"
    using jl(1) list_remove_rest(4)[OF i(1,2)] by (simp add: links_of_def x j)
  have ms: "mset (links_of s k) = add_mset (x, n) (mset (links_of t k))" using mset_list_remove[OF jl(1)] by (simp add: jl(2) lt)
  have "distinct (map fst ((x, n) # links_of t k))"
    using w ms mset_eq_imp_distinct_iff[of "map fst ((x, n) # links_of t k)" "map fst (links_of s k)"] by (simp add: mset_map)
  then have dd: "distinct (map fst (links_of t k))" "(x, n) \<notin> set (links_of t k)" by force+
  have "set (links_of s k) = insert (x, n) (set (links_of t k))" using arg_cong[OF ms, of set_mset] by simp
  then have rm: "map_of (links_of t k) y = (if y = x then None else map_of (links_of s k) y)" for y
    using map_of_remove[OF w dd(1), of x n y] dd(2) by simp
  have p: "node_at t 1 vs = (if prefix (us @ [x]) vs then None else node_at s 1 vs)" for vs
    by (rule drop_path[OF t k xn rm _ ds]) (use es in \<open>simp add: links_of_def\<close>)
  show old: "node_at s 1 (us @ [x]) = Some n" using k xn by (simp add: node_at_snoc)
  show "tree_of t = cut (us @ [x]) (tree_of s)"
  proof
    fix ts
    show "tree_of t ts = cut (us @ [x]) (tree_of s) ts"
    proof (cases "prefix (us @ [x]) ts")
      case False
      have "shown t l = shown s l" if l: "node_at s 1 ts = Some l" for l
        using sh[OF node_named[OF t l]] one_path[OF t l] old False by blast
      then show ?thesis using False by (cases "node_at s 1 ts") (simp_all add: tree_of_def cut_def p del: One_nat_def)
    qed (simp add: tree_of_def cut_def p del: One_nat_def)
  qed
qed

end
