(* ===== verification/VolumeSteps.thy ===== *)
theory VolumeSteps
  imports VolumePaths
begin

text \<open>
  What the operations of layer 2 do to the disk as a whole: writing, deleting, removing a name and
  creating files and directories keep \<open>names_ok\<close>, they always return, and change the tree of folders
  and files at one path.
\<close>

section \<open>Operations on one inode\<close>

lemma kept_dirs:
  assumes v: "volume_ok s" "volume_ok t" and u: "used_inums t - I = used_inums s - I"
    and k: "\<And>k. k \<in> used_inums s - I \<Longrightarrow> kept s t k"
  shows "l \<notin> I \<Longrightarrow> l \<in> dirs t \<longleftrightarrow> l \<in> dirs s" "l \<notin> I \<Longrightarrow> l \<in> dirs s \<Longrightarrow> entries_of t l = entries_of s l"
proof -
  note ds = used_is_dir[OF v(1)] used_is_dir[OF v(2)]
  have i: "inode_at t l = inode_at s l" if "l \<in> used_inums s - I" for l using k[OF that] by (simp add: kept_def)
  show "l \<notin> I \<Longrightarrow> l \<in> dirs t \<longleftrightarrow> l \<in> dirs s" unfolding dirs_def mem_Collect_eq ds using u i by (metis Diff_iff)
  show "l \<notin> I \<Longrightarrow> l \<in> dirs s \<Longrightarrow> entries_of t l = entries_of s l"
    unfolding dirs_def mem_Collect_eq ds using k[of l] by (simp add: kept_def)
qed

lemma used_step: "file_step I s ino t ino' \<Longrightarrow> used_inums t = used_inums s"
  using file_stepD(3,7)[of I s ino t ino'] by (simp add: used_inums_def)

text \<open>One file or directory is written.\<close>

lemma node_change:
  assumes v: "volume_ok s" and k: "k \<in> used_inums s" and st: "file_step {k} s (inode_at s k) t (inode_at t k)"
    and n: "node_ok t k"
  shows "volume_ok t" "l \<in> used_inums s - {k} \<Longrightarrow> kept s t l" "used_inums t = used_inums s"
    "l \<in> used_inums s - {k} \<Longrightarrow> file_good s (inode_at s l) \<Longrightarrow> file_good t (inode_at t l)"
proof -
  note d = file_stepD[OF st]
  show u: "used_inums t = used_inums s" by (rule used_step[OF st])
  have i: "{k} \<inter> used_inums s = {k}" "{k} \<inter> used_inums t = {k}" using k u by simp_all
  have f: "fs_frame {k} (free_data s \<union> (\<Union>k \<in> {k} \<inter> used_inums s. owned s k)) s t" using d(1) i(1) by (simp add: owned_def)
  have a: "free_data t \<union> (\<Union>k \<in> {k} \<inter> used_inums t. owned t k) = free_data s \<union> (\<Union>k \<in> {k} \<inter> used_inums s. owned s k)"
    using d(2) i by (simp add: owned_def)
  note c = volume_change[OF v f _ _ _ a]
  show kp: "volume_ok t" "l \<in> used_inums s - {k} \<Longrightarrow> kept s t l" using c u n by simp_all
  show "file_good t (inode_at t l)" if l: "l \<in> used_inums s - {k}" and g: "file_good s (inode_at s l)"
  proof -
    have "file_set s (inode_at s k) \<inter> file_set s (inode_at s l) = {}" "file_set s (inode_at s l) \<inter> free_data s = {}"
      using volume_okD(3)[OF v k, of l] node_okD(2)[OF volume_okD(2)[OF v], of l] l by (auto simp: owned_def)
    then have "(free_data s \<union> file_set s (inode_at s k)) \<inter> file_set s (inode_at s l) = {}"
      "free_data t \<inter> file_set s (inode_at s l) = {}" using d(2) by blast+
    from file_good_frame(1)[OF g d(1) this] show ?thesis using kp(2)[OF l] by (simp add: kept_def)
  qed
qed

lemma file_change:
  assumes t: "names_ok s lost" and k: "k \<in> used_inums s - dirs s"
    and st: "file_step {k} s (inode_at s k) t (inode_at t k)" and g: "file_good t (inode_at t k)"
    and ki: "\<not> S_ISDIR (i_mode (inode_at t k))"
  shows "names_ok t lost" "used_inums t = used_inums s" "dirs t = dirs s"
    "node_at s 1 p = Some k \<Longrightarrow> tree_of t = (tree_of s)(p \<mapsto> Plain (file_contents t k))"
    "k \<in> lost \<Longrightarrow> tree_of t = tree_of s"
proof -
  note d = names_okD[OF t]
  have n: "node_ok t k" using g ki by (simp add: node_ok_def)
  have ku: "k \<in> used_inums s" using k by simp
  note c = node_change[OF d(1) ku st n]
  show u: "used_inums t = used_inums s" by (rule c(3))
  have ut: "used_inums t - {k} = used_inums s - {k}" by (simp add: u)
  have kp: "kept s t l" if "l \<in> used_inums s - {k}" for l using c(2) that .
  note ds = kept_dirs[OF d(1) c(1) ut kp]
  have "k \<notin> dirs t" using used_is_dir[OF c(1), of k] ki by (simp add: dirs_def)
  then show de: "dirs t = dirs s" using ds(1) k by (metis DiffE singletonD set_eqI)
  have es: "entries_of t l = entries_of s l" if "l \<in> dirs s" for l using ds(2)[of l] k that by auto
  then show "names_ok t lost" by (rule tree_same[OF t c(1) de]) (use d(2) in \<open>simp_all add: u de\<close>)
  note p = node_at_cong[OF de es]
  have sh: "shown t l = shown s l" if "l \<in> used_inums s - lost" "l \<noteq> k" for l
    using kept_shown[OF d(1) c(1)] kp[of l] that u by simp
  show "k \<in> lost \<Longrightarrow> tree_of t = tree_of s" by (rule tree_of_eq[OF t p sh]) auto
  have "shown t k = Plain (file_contents t k)" using k de by (simp add: shown_def)
  then show "node_at s 1 p = Some k \<Longrightarrow> tree_of t = (tree_of s)(p \<mapsto> Plain (file_contents t k))"
    using tree_of_write[OF t p sh, of k p] by simp
qed

text \<open>
  What an operation leaves alone even when it loses blocks: files and directories outside \<open>I\<close> when it
  changes only free blocks and blocks of the inodes \<open>I\<close>.
\<close>

lemma frame_nodes:
  assumes v: "volume_ok s" and fr: "fs_frame I (free_data s \<union> (\<Union>k \<in> I \<inter> used_inums s. owned s k)) s t"
    and u: "used_inums t - I = used_inums s - I"
    and fd: "free_data t \<subseteq> free_data s \<union> (\<Union>k \<in> I \<inter> used_inums s. owned s k)"
  shows "l \<notin> I \<Longrightarrow> l \<in> dirs t \<longleftrightarrow> l \<in> dirs s" "l \<notin> I \<Longrightarrow> l \<in> dirs s \<Longrightarrow> entries_of t l = entries_of s l"
    "l \<in> used_inums s - I \<Longrightarrow> shown t l = shown s l"
proof -
  let ?B = "free_data s \<union> (\<Union>k \<in> I \<inter> used_inums s. owned s k)"
  have kp: "node_ok t l" "kept s t l" if l: "l \<in> used_inums s - I" for l
  proof -
    have "owned s m \<inter> owned s l = {}" if "m \<in> I \<inter> used_inums s" for m using volume_okD(3)[OF v, of m l] that l by auto
    moreover have n: "node_ok s l" "owned s l \<inter> free_data s = {}" using volume_okD(2)[OF v] node_okD(2) l by auto
    ultimately have B: "?B \<inter> owned s l = {}" by blast
    have "l \<in> used_inums t" using u l by blast
    then have i: "valid_inum s l" "l \<notin> free_inums s" "l \<notin> free_inums t" "l \<notin> I" using l by (simp_all add: used_inums_def)
    have "free_data t \<inter> owned s l = {}" using fd B by blast
    from untouched[OF i n(1) fr B this] show "node_ok t l" "kept s t l" by simp_all
  qed
  have is_dir: "is_dir t l \<longleftrightarrow> l \<in> used_inums t \<and> S_ISDIR (i_mode (inode_at t l))" if "l \<in> used_inums t \<Longrightarrow> node_ok t l" for l
    using that node_okD(3)[of t l] dir_okD(3)[of t "inode_at t l"] by (auto simp: is_dir_def used_inums_def)
  show d: "l \<in> dirs t \<longleftrightarrow> l \<in> dirs s" if l: "l \<notin> I" for l
  proof (cases "l \<in> used_inums s")
    case True
    then have "l \<in> used_inums t" "node_ok t l" "inode_at t l = inode_at s l"
      using u kp[of l] l by (auto simp: kept_def)
    then show ?thesis using True is_dir used_is_dir[OF v, of l] by (simp add: dirs_def)
  next
    case False
    then have "l \<notin> used_inums t" using u l by blast
    then show ?thesis using False is_dir[of l] used_is_dir[OF v, of l] by (simp add: dirs_def)
  qed
  show "entries_of t l = entries_of s l" if "l \<notin> I" "l \<in> dirs s"
    using kp(2)[of l] that used_is_dir[OF v, of l] by (simp add: dirs_def kept_def)
  show "shown t l = shown s l" if l: "l \<in> used_inums s - I"
    using kp(2)[OF l] d[of l] l used_is_dir[OF v, of l] by (auto simp: shown_def kept_def dirs_def)
qed

text \<open>\<open>del\<close> of a file, or of a directory with zeros after its entries.\<close>

lemma del_change:
  assumes v: "volume_ok s" and n: "n \<in> used_inums s" and g: "file_good s (inode_at s n)"
  obtains t where "del (int n) s = Some (SUCCESS, t)" "volume_ok t" "used_inums t = used_inums s - {n}"
    "dirs t = dirs s - {n}" "\<And>l. l \<in> dirs t \<Longrightarrow> entries_of t l = entries_of s l"
    "\<And>l. l \<in> used_inums s - {n} \<Longrightarrow> shown t l = shown s l"
proof -
  have vn: "valid_inum s n" using n by (simp add: used_inums_def)
  obtain t where t: "del (int n) s = Some (SUCCESS, t)" "fs_frame {n} (free_data s \<union> owned s n) s t"
    "free_data t = free_data s \<union> owned s n" "free_inums t = insert n (free_inums s)"
    using del_spec[OF volume_okD(1)[OF v] vn g] unfolding owned_def by blast
  have u: "used_inums t = used_inums s - {n}" using t(4) fs_frameD(6)[OF t(2)] by (auto simp: used_inums_def)
  have i: "{n} \<inter> used_inums s = {n}" "{n} \<inter> used_inums t = {}" using n u by simp_all
  have f: "fs_frame {n} (free_data s \<union> (\<Union>k \<in> {n} \<inter> used_inums s. owned s k)) s t" using t(2) i(1) by simp
  have a: "free_data t \<union> (\<Union>k \<in> {n} \<inter> used_inums t. owned t k) = free_data s \<union> (\<Union>k \<in> {n} \<inter> used_inums s. owned s k)"
    using t(3) by (simp only: i UN_insert UN_empty Un_empty_right)
  note c = volume_change[OF v f _ _ _ a]
  have vt: "volume_ok t" and kp: "\<And>l. l \<in> used_inums s - {n} \<Longrightarrow> kept s t l" using c u by auto
  have ut: "used_inums t - {n} = used_inums s - {n}" by (simp add: u)
  note ds = kept_dirs[OF v vt ut kp]
  have "l \<in> dirs t \<longleftrightarrow> l \<in> dirs s - {n}" for l
    using ds(1)[of l] u used_is_dir[OF vt, of n] by (cases "l = n") (auto simp: dirs_def)
  then have de: "dirs t = dirs s - {n}" by blast
  have sh: "shown t l = shown s l" if "l \<in> used_inums s - {n}" for l
    using kept_shown[OF v vt _ _ kp[OF that]] that u by simp
  show thesis by (rule that[OF t(1) vt u de ds(2) sh]) (simp_all add: de)
qed

text \<open>\<open>del\<close> of a directory with any bytes after its entries, which may lose its block.\<close>

lemma del_dir:
  assumes v: "volume_ok s" and n: "n \<in> dirs s"
  obtains t where "del (int n) s = Some (SUCCESS, t)" "dirs t = dirs s - {n}"
    "\<And>l. l \<in> dirs t \<Longrightarrow> entries_of t l = entries_of s l" "\<And>l. l \<in> used_inums s - {n} \<Longrightarrow> shown t l = shown s l"
proof -
  have vn: "valid_inum s n" "dir_ok s (inode_at s n)" "n \<in> used_inums s"
    using n used_is_dir[OF v, of n] by (simp_all add: dirs_def is_dir_def)
  obtain t where t: "del (int n) s = Some (SUCCESS, t)" "fs_frame {n} (free_data s \<union> owned s n) s t"
    "free_data t \<subseteq> free_data s \<union> owned s n" "free_inums t = insert n (free_inums s)"
    using del_any[OF volume_okD(1)[OF v] vn(1) dir_okD(1,2,4)[OF vn(2)]] unfolding owned_def by blast
  have i: "(\<Union>k \<in> {n} \<inter> used_inums s. owned s k) = owned s n" using vn(3) by simp
  have u: "used_inums t - {n} = used_inums s - {n}" using t(4) fs_frameD(6)[OF t(2)] by (auto simp: used_inums_def)
  note f = frame_nodes[OF v t(2)[folded i] u t(3)[folded i]]
  have "n \<notin> dirs t" using t(4) by (simp add: dirs_def is_dir_def)
  then have "l \<in> dirs t \<longleftrightarrow> l \<in> dirs s - {n}" for l using f(1)[of l] by (cases "l = n") simp_all
  then have "dirs t = dirs s - {n}" by blast
  then show thesis using that[OF t(1)] f(2,3) by simp
qed

text \<open>\<open>remove_dirent\<close> of a name.\<close>

lemma remove_change:
  assumes t: "names_ok s lost" and k: "k \<in> dirs s" and i: "i < length (entries_of s k)"
    and part: "length (entries_of s k) mod DIRENTS_PER_BLOCK \<noteq> 1"
  obtains t where "remove_dirent (int k) (int i) s = Some (SUCCESS, t)" "volume_ok t" "used_inums t = used_inums s"
    "dirs t = dirs s" "entries_of t k = list_remove i (entries_of s k)"
    "\<And>l. l \<in> dirs s \<Longrightarrow> l \<noteq> k \<Longrightarrow> entries_of t l = entries_of s l"
    "\<And>l. l \<in> used_inums s - {k} \<Longrightarrow> file_good s (inode_at s l) \<Longrightarrow> file_good t (inode_at t l)"
    "\<And>l. l \<in> used_inums s \<Longrightarrow> shown t l = shown s l"
proof -
  note d = names_okD[OF t]
  have vk: "valid_inum s k" "dir_ok s (inode_at s k)" using k by (simp_all add: dirs_def is_dir_def)
  have ku: "k \<in> used_inums s" using k d(8) by blast
  obtain l where l: "dir_len (inode_at s k) = Suc l" using dir_okD(5)[OF vk(2)] by (cases "dir_len (inode_at s k)") auto
  have il: "i < Suc l" using i l by (simp add: entries_of_def)
  have pl: "l mod DIRENTS_PER_BLOCK \<noteq> 0" using part l by (intro notI) (simp add: entries_of_def mod_Suc c_consts)
  obtain u where u: "remove_dirent (int k) (int i) s = Some (SUCCESS, u)" "file_step {k} s (inode_at s k) u (inode_at u k)"
    "dir_ok u (inode_at u k)" "dir_entries u (inode_at u k) = list_remove i (dir_entries s (inode_at s k))"
    using remove_dirent_spec[OF d(5) vk l il pl] by blast
  have n: "node_ok u k" using u(3) dir_okD(3)[OF u(3)] by (simp add: node_ok_def)
  note c = node_change[OF d(1) ku u(2) n]
  have ut: "used_inums u - {k} = used_inums s - {k}" by (simp add: c(3))
  have kp: "kept s u l" if "l \<in> used_inums s - {k}" for l using c(2) that .
  note ds = kept_dirs[OF d(1) c(1) ut kp]
  have "k \<in> dirs u" using used_is_dir[OF c(1), of k] ku c(3) dir_okD(3)[OF u(3)] by (simp add: dirs_def)
  then have "l \<in> dirs u \<longleftrightarrow> l \<in> dirs s" for l using ds(1)[of l] k by (cases "l = k") simp_all
  then have de: "dirs u = dirs s" by blast
  have "shown u l = shown s l" if l: "l \<in> used_inums s" for l
    using kept_shown[OF d(1) c(1) l, of] kp[of l] l c(3) k de by (cases "l = k") (auto simp: shown_def)
  then show thesis using that[OF u(1) c(1,3) de] u(4) ds(2) c(4) by (simp add: entries_of_def)
qed

section \<open>Creating files and directories\<close>

text \<open>Directories have room for one more entry below \<open>2 ^ 31\<close> bytes.\<close>

definition small_dirs :: "'a layer1_scheme \<Rightarrow> bool" where
  "small_dirs s \<longleftrightarrow> (\<forall>k \<in> dirs s. dir_size (Suc (length (entries_of s k))) < 2 ^ 31)"

text \<open>No inode in use is freed or changes between file and directory.\<close>

definition same_kinds :: "'a layer1_scheme \<Rightarrow> 'a layer1_scheme \<Rightarrow> bool" where
  "same_kinds s t \<longleftrightarrow> used_inums s \<subseteq> used_inums t \<and> dirs t \<inter> used_inums s = dirs s"

lemma same_kinds_refl: "names_ok s lost \<Longrightarrow> same_kinds s s"
  using names_okD(8)[of s lost] by (auto simp: same_kinds_def)

text \<open>A new inode and its directory.\<close>

lemma new_node:
  assumes t: "names_ok s lost" and k: "k \<in> dirs s" and n: "n \<in> free_inums s"
    and fr: "fs_frame {n, k} (free_data s \<union> file_set s (inode_at s k)) s t" and u: "free_inums t = free_inums s - {n}"
    and dt: "is_dir t k" "node_ok t n"
    and all: "free_data t \<union> file_set t (inode_at t k) \<union> file_set t (inode_at t n) = free_data s \<union> file_set s (inode_at s k)"
      "file_set t (inode_at t k) \<inter> file_set t (inode_at t n) = {}"
    and x: "valid_name x" "found x (entries_of s k) = 0" "entries_of t k = entries_of s k @ [new_dirent x (int n)]"
    and nd: "\<not> S_ISDIR (i_mode (inode_at t n)) \<or> base_entries n (int k) (entries_of t n)"
  shows "names_ok t lost" "same_kinds s t"
    "node_at s 1 us = Some k \<Longrightarrow> no_dots [x] \<Longrightarrow> tree_of s (us @ [x]) = None \<and> tree_of t = (tree_of s)(us @ [x] \<mapsto> shown t n)"
proof -
  note d = names_okD[OF t]
  have vn: "valid_inum s n" "n \<notin> used_inums s" using n by (auto simp: free_inums_def used_inums_def)
  have ku: "k \<in> used_inums s" "k \<noteq> n" using k d(8) vn(2) by blast+
  have ut: "used_inums t = insert n (used_inums s)"
    using u fs_frameD(6)[OF fr] vn(1) by (auto simp: used_inums_def)
  have i: "{n, k} \<inter> used_inums s = {k}" "{n, k} \<inter> used_inums t = {n, k}" using ut ku vn(2) by auto
  have f: "fs_frame {n, k} (free_data s \<union> (\<Union>k \<in> {n, k} \<inter> used_inums s. owned s k)) s t"
    using fr unfolding i by (simp add: owned_def)
  have a: "free_data t \<union> (\<Union>k \<in> {n, k} \<inter> used_inums t. owned t k) = free_data s \<union> (\<Union>k \<in> {n, k} \<inter> used_inums s. owned s k)"
    unfolding i using all(1) by (simp add: owned_def Un_ac)
  have ok: "node_ok t l" if "l \<in> {n, k}" for l
    using that dt dir_okD(3) by (auto simp: node_ok_def is_dir_def)
  have dj: "owned t l \<inter> owned t m = {}" if "l \<in> {n, k}" "m \<in> {n, k}" "l \<noteq> m" for l m
    using that all(2) by (auto simp: owned_def)
  have uo: "used_inums t - {n, k} = used_inums s - {n, k}" using ut by auto
  have v: "volume_ok t" and kp: "\<And>l. l \<in> used_inums s - {n, k} \<Longrightarrow> kept s t l"
    using volume_change[OF d(1) f uo ok dj a] by blast+
  note ds = kept_dirs[OF d(1) v uo kp]
  have nn: "n \<in> dirs t \<longleftrightarrow> S_ISDIR (i_mode (inode_at t n))" "k \<in> dirs t"
    using used_is_dir[OF v, of n] ut dt(1) by (simp_all add: dirs_def)
  have dt': "l \<in> dirs t \<longleftrightarrow> l \<in> dirs s" if "l \<noteq> n" for l
    using ds(1)[of l] nn(2) k that by (cases "l = k") auto
  have nds: "n \<notin> dirs s" using vn(2) d(8) by blast
  have dn: "dirs t = dirs s \<or> dirs t = insert n (dirs s) \<and> base_entries n (int k) (entries_of t n)"
  proof (cases "S_ISDIR (i_mode (inode_at t n))")
    case True
    then have "dirs t = insert n (dirs s)" using dt' nn(1) by (intro set_eqI) (metis insert_iff)
    then show ?thesis using nd True by simp
  next
    case False
    then have "dirs t = dirs s" using dt' nn(1) nds by (intro set_eqI) metis
    then show ?thesis by simp
  qed
  have es: "entries_of t l = entries_of s l" if "l \<in> dirs s" "l \<noteq> k" for l using ds(2)[of l] that nds by auto
  show "names_ok t lost" by (rule tree_enter[OF t k vn(2,1) x(1,2) v ut x(3) es dn])
  have "dirs t = dirs s \<or> dirs t = insert n (dirs s) \<and> kids t n = []"
    using dn by (auto simp: kids_def base_entries_def split: if_splits)
  moreover have "shown t l = shown s l" if l: "l \<in> used_inums s" for l
    using kept_shown[OF d(1) v l, of] kp[of l] l ut vn(2) k nn(2) by (cases "l = k") (auto simp: shown_def)
  ultimately show "node_at s 1 us = Some k \<Longrightarrow> no_dots [x] \<Longrightarrow>
      tree_of s (us @ [x]) = None \<and> tree_of t = (tree_of s)(us @ [x] \<mapsto> shown t n)"
    using tree_of_enter[OF t k _ vn(2,1) x(1) _ x(2,3) es] by blast
  have "x \<in> dirs t \<inter> used_inums s \<longleftrightarrow> x \<in> dirs s" for x using dt'[of x] vn(2) nds d(8)[of x] by (cases "x = n") auto
  then show "same_kinds s t" using ut by (auto simp: same_kinds_def)
qed

text \<open>The disk when no room was found for the name, as before but for bytes of free blocks and free inodes.\<close>

lemma no_node:
  assumes t: "names_ok s lost" and k: "k \<in> dirs s"
    and fr: "fs_frame (insert k (free_inums s)) (free_data s \<union> file_set s (inode_at s k)) s t"
    and u: "free_inums t = free_inums s"
    and dt: "is_dir t k" "entries_of t k = entries_of s k"
    and all: "free_data t \<union> file_set t (inode_at t k) = free_data s \<union> file_set s (inode_at s k)"
  shows "names_ok t lost" "same_kinds s t" "tree_of t = tree_of s"
proof -
  note d = names_okD[OF t]
  let ?I = "insert k (free_inums s)"
  have ku: "k \<in> used_inums s" using k d(8) by blast
  have ut: "used_inums t = used_inums s" using u fs_frameD(6)[OF fr] by (simp add: used_inums_def)
  have i: "?I \<inter> used_inums s = {k}" using ku by (auto simp: used_inums_def)
  have f: "fs_frame ?I (free_data s \<union> (\<Union>k \<in> ?I \<inter> used_inums s. owned s k)) s t"
    using fr unfolding i by (simp add: owned_def)
  have a: "free_data t \<union> (\<Union>k \<in> ?I \<inter> used_inums t. owned t k) = free_data s \<union> (\<Union>k \<in> ?I \<inter> used_inums s. owned s k)"
    unfolding ut i using all by (simp add: owned_def)
  have one: "l = k" if "l \<in> ?I" "l \<in> used_inums t" for l using that i ut by blast
  have nk: "node_ok t k" using dt(1) dir_okD(3) by (auto simp: node_ok_def is_dir_def)
  have uo: "used_inums t - ?I = used_inums s - ?I" by (simp add: ut)
  have v: "volume_ok t" and kp: "\<And>l. l \<in> used_inums s - ?I \<Longrightarrow> kept s t l"
    using volume_change[OF d(1) f uo _ _ a] one nk by blast+
  note ds = kept_dirs[OF d(1) v uo kp]
  have out: "l = k" if "l \<in> ?I" "l \<in> dirs s \<or> l \<in> dirs t" for l
    using one[of l] that d(8)[of l] used_is_dir[OF v, of l] ut by (auto simp: dirs_def)
  have "l \<in> dirs t \<longleftrightarrow> l \<in> dirs s" for l
    using ds(1)[of l] out[of l] dt(1) k by (cases "l \<in> ?I") (auto simp: dirs_def)
  then have de: "dirs t = dirs s" by blast
  have es: "entries_of t l = entries_of s l" if "l \<in> dirs s" for l using ds(2)[of l] out[of l] that dt(2) by (cases "l = k") auto
  have sh: "shown t l = shown s l" if l: "l \<in> used_inums s - lost" for l
  proof (cases "l = k")
    case False
    then have "l \<in> used_inums s - ?I" using l i by blast
    then show ?thesis using kept_shown[OF d(1) v, of l] kp[of l] ut by simp
  qed (use k de in \<open>simp add: shown_def\<close>)
  show "tree_of t = tree_of s" by (rule tree_of_eq[OF t node_at_cong[OF de es] sh])
  from es show "names_ok t lost" by (rule tree_same[OF t v de]) (use d(2) in \<open>simp_all add: ut de\<close>)
  show "same_kinds s t" using ut de d(8) by (auto simp: same_kinds_def)
qed

text \<open>The tree is the same also when a block was lost.\<close>

lemma no_node_tree:
  assumes t: "names_ok s lost" and k: "k \<in> dirs s" and n: "n \<in> free_inums s"
    and fr: "fs_frame {n, k} (free_data s \<union> file_set s (inode_at s k)) s t"
    and u: "free_inums t = free_inums s" "free_data t \<subseteq> free_data s \<union> file_set s (inode_at s k)"
    and dt: "is_dir t k" "entries_of t k = entries_of s k"
  shows "tree_of t = tree_of s"
proof -
  note d = names_okD[OF t]
  have ku: "k \<in> used_inums s" "n \<notin> used_inums s" "n \<notin> dirs s" using k n d(8) by (auto simp: used_inums_def)
  then have i: "(\<Union>l \<in> {n, k} \<inter> used_inums s. owned s l) = file_set s (inode_at s k)" by (auto simp: owned_def)
  have uo: "used_inums t - {n, k} = used_inums s - {n, k}" using u(1) fs_frameD(6)[OF fr] by (simp add: used_inums_def)
  note f = frame_nodes[OF d(1) fr[folded i] uo u(2)[folded i]]
  have nt: "n \<notin> dirs t" using n u(1) by (simp add: dirs_def is_dir_def)
  have kt: "k \<in> dirs t" using dt(1) by (simp add: dirs_def)
  have "l \<in> dirs t \<longleftrightarrow> l \<in> dirs s" for l using f(1)[of l] nt kt ku(3) k by (cases "l \<in> {n, k}") auto
  then have de: "dirs t = dirs s" by blast
  have es: "entries_of t l = entries_of s l" if "l \<in> dirs s" for l using f(2)[of l] dt(2) that ku(3) by (cases "l \<in> {n, k}") auto
  have sh: "shown t l = shown s l" if "l \<in> used_inums s - lost" for l
    using f(3)[of l] that ku(2) de k by (cases "l \<in> {n, k}") (auto simp: shown_def)
  show ?thesis by (rule tree_of_eq[OF t node_at_cong[OF de es] sh])
qed

lemma file_inode_plain: "\<not> S_ISDIR (i_mode (file_inode mode uid gid))"
proof -
  have "((S_IFREG OR mode) AND (0xffff XOR S_IFDIR)) AND S_IFMT \<noteq> S_IFDIR"
  proof
    assume a: "((S_IFREG OR mode) AND (0xffff XOR S_IFDIR)) AND S_IFMT = S_IFDIR"
    have "bit (((S_IFREG OR mode) AND (0xffff XOR S_IFDIR)) AND S_IFMT) 14 \<longleftrightarrow> False"
      by (simp add: bit_and_iff S_IFDIR_def)
    then show False unfolding a by (simp add: S_IFDIR_def)
  qed
  then show ?thesis by (simp add: S_ISDIR_def file_inode_def)
qed

text \<open>On success a node appears in a folder that had none of that name.\<close>

definition created :: "'a layer1_scheme \<Rightarrow> 'a layer1_scheme \<Rightarrow> byte list list \<Rightarrow> int \<Rightarrow> fs_node \<Rightarrow> bool" where
  "created s t ts ret nd \<longleftrightarrow> (if ret = SUCCESS then ts \<noteq> [] \<and> tree_of s (butlast ts) = Some Folder \<and>
    tree_of s ts = None \<and> tree_of t = (tree_of s)(ts \<mapsto> nd) else tree_of t = tree_of s)"

lemma not_created [simp]: "ret \<noteq> SUCCESS \<Longrightarrow> created s s ts ret nd"
  by (simp add: created_def)

lemma error_codes [simp]: "- EACCES \<noteq> SUCCESS" "- EEXIST \<noteq> SUCCESS" "- ENOSPC \<noteq> SUCCESS"
  by (simp_all add: c_consts)

lemma created_node:
  assumes t: "names_ok s lost" and c: "creatable s uid gid us x k" and n: "no_dots (us @ [x])"
    and tr: "node_at s 1 us = Some k \<Longrightarrow> no_dots [x] \<Longrightarrow>
      tree_of s (us @ [x]) = None \<and> tree_of t = (tree_of s)(us @ [x] \<mapsto> shown t n)"
    and nd: "shown t n = nd"
  shows "created s t (us @ [x]) SUCCESS nd"
  using creatable_node[OF t c] n tr nd by (simp add: created_def tree_of_def shown_def)

lemma mknod_total:
  assumes t: "names_ok s lost" and ts: "clean ts" and small: "small_dirs s"
  shows "\<exists>ret t. mknod_fs (fuse_path ts) mode uid gid s = Some (ret, t) \<and> names_ok t lost \<and> same_kinds s t \<and>
    (no_dots ts \<longrightarrow> created s t ts ret (Plain []))"
proof -
  note d = names_okD[OF t]
  note same = t same_kinds_refl[OF t]
  from t ts show ?thesis
  proof (cases rule: namei_total[where uid = uid and gid = gid])
    case (error r q n i)
    then show ?thesis using same by (simp add: mknod_fs_def)
  next
    case root
    then show ?thesis using same by (auto simp: mknod_fs_def Let_def split: prod.split)
  next
    case (entry us x k i)
    note p = entry(2)
    note c = entry(3)
    show ?thesis
    proof (cases "may_write uid gid (inode_at s k) \<and> found x (entries_of s k) = 0 \<and> free_inums s \<noteq> {}")
      case False
      have "\<exists>ret. ret \<noteq> SUCCESS \<and> mknod_fs (path_of (us @ [x])) mode uid gid s = Some (ret, s)"
        using mknod_refused[OF d(5) c, of mode] False error_codes by blast
      then show ?thesis using same not_created[of _ s] unfolding p by blast
    next
      case True
      have sm: "dir_size (Suc (length (entries_of s k))) < 2 ^ 31" using small entry(4) by (simp add: small_dirs_def)
      obtain ret n v where v: "mknod_fs (path_of (us @ [x])) mode uid gid s = Some (ret, v)" "first_free s n"
        "fs_frame {n, k} (free_data s \<union> file_set s (inode_at s k)) s v" "is_dir v k"
        "free_data v \<union> file_set v (inode_at v k) = free_data s \<union> file_set s (inode_at s k)"
        and r: "ret = SUCCESS \<and> inode_at v n = file_inode mode uid gid \<and> free_inums v = free_inums s - {n} \<and>
          entries_of v k = entries_of s k @ [new_dirent x (int n)] \<or>
         ret = - ENOSPC \<and> free_inums v = free_inums s \<and> entries_of v k = entries_of s k"
        using mknod_spec[OF d(5) c _ _ _ sm, of mode] True by blast
      have n: "n \<in> free_inums s" using v(2) by (simp add: first_free_def free_inums_def)
      from r have "names_ok v lost \<and> same_kinds s v \<and> (no_dots ts \<longrightarrow> created s v ts ret (Plain []))"
      proof
        assume a: "ret = SUCCESS \<and> inode_at v n = file_inode mode uid gid \<and> free_inums v = free_inums s - {n} \<and>
          entries_of v k = entries_of s k @ [new_dirent x (int n)]"
        note g = no_pointers_good[OF fs_frameD(1)[OF v(3)] file_inode_empty]
        have nd: "\<not> S_ISDIR (i_mode (inode_at v n))" using a file_inode_plain by simp
        have no: "node_ok v n" "file_set v (inode_at v n) = {}" using a g(1,2) nd by (simp_all add: node_ok_def)
        have xn: "valid_name x" using c by (simp add: creatable_def)
        have d: "n \<notin> dirs v" using nd dir_okD(3) by (auto simp: dirs_def is_dir_def)
        have "file_size (file_inode mode uid gid) = 0" by (rule file_inode_empty(3))
        then have sh: "shown v n = Plain []" using d a by (simp add: shown_def file_contents_def)
        have nw: "names_ok v lost" "same_kinds s v" "node_at s 1 us = Some k \<Longrightarrow> no_dots [x] \<Longrightarrow>
            tree_of s (us @ [x]) = None \<and> tree_of v = (tree_of s)(us @ [x] \<mapsto> shown v n)"
          using new_node[OF t entry(4) n v(3) _ v(4) no(1) _ _ xn] a True v(5) no(2) nd by simp_all
        show ?thesis using nw(1,2) created_node[OF t c _ nw(3) sh] a entry(1) by blast
      next
        assume a: "ret = - ENOSPC \<and> free_inums v = free_inums s \<and> entries_of v k = entries_of s k"
        have "fs_frame (insert k (free_inums s)) (free_data s \<union> file_set s (inode_at s k)) s v"
          by (rule fs_frame_mono[OF v(3)]) (use n in auto)
        then have "names_ok v lost" "same_kinds s v" "tree_of v = tree_of s"
          using no_node[OF t entry(4) _ _ v(4) _ v(5)] a by blast+
        then show ?thesis using a by (simp add: created_def)
      qed
      then show ?thesis using v(1) unfolding p by blast
    qed
  qed
qed

text \<open>A condition on the directory that a path ends in.\<close>

definition in_parent :: "(nat \<Rightarrow> bool) \<Rightarrow> byte list \<Rightarrow> int \<Rightarrow> int \<Rightarrow> 'a layer1_scheme \<Rightarrow> bool" where
  "in_parent P path uid gid s \<longleftrightarrow>
    (\<forall>k n i. namei path uid gid s = Some (SUCCESS, int k, n, i) \<longrightarrow> P (length (entries_of s k)))"

lemma mkdir_total:
  assumes t: "names_ok s lost" and ts: "clean ts" and small: "small_dirs s" and mode: "mode AND 0x3000 = 0"
  shows "\<exists>ret t. mkdir_fs (fuse_path ts) mode uid gid s = Some (ret, t) \<and> (no_dots ts \<longrightarrow> created s t ts ret Folder) \<and>
    (in_parent (\<lambda>n. n mod DIRENTS_PER_BLOCK \<noteq> 0) (fuse_path ts) uid gid s \<longrightarrow> names_ok t lost \<and> same_kinds s t)"
proof -
  note d = names_okD[OF t]
  note same = t same_kinds_refl[OF t]
  from t ts show ?thesis
  proof (cases rule: namei_total[where uid = uid and gid = gid])
    case (error r q n i)
    then show ?thesis using same by (simp add: mkdir_fs_def)
  next
    case root
    then show ?thesis using same by (auto simp: mkdir_fs_def Let_def split: prod.split)
  next
    case (entry us x k i)
    note p = entry(2)
    note c = entry(3)
    show ?thesis
    proof (cases "may_write uid gid (inode_at s k) \<and> found x (entries_of s k) = 0")
      case False
      have "\<exists>ret. ret \<noteq> SUCCESS \<and> mkdir_fs (path_of (us @ [x])) mode uid gid s = Some (ret, s)"
        using mkdir_refused(1,2)[OF d(5) c, of mode] False error_codes by blast
      then show ?thesis using same not_created[of _ s] unfolding p by blast
    next
      case w: True
      show ?thesis
      proof (cases "free_inums s = {} \<or> free_data s = {}")
        case True
        obtain u where u: "mkdir_fs (path_of (us @ [x])) mode uid gid s = Some (- ENOSPC, u)"
          "free_inums u = free_inums s" "free_data u = free_data s" "fs_frame (free_inums s) {} s u"
          using mkdir_refused(3)[OF d(5) c _ _ True, of mode] w by blast
        have k: "is_dir s k" "k \<notin> free_inums s" using entry(4) by (simp_all add: dirs_def is_dir_def)
        have fk: "file_ok s (inode_at s k)" using k(1) dir_okD(1) unfolding is_dir_def by blast
        have dj: "{} \<inter> file_set s (inode_at s k) = {}" "free_data u \<inter> file_set s (inode_at s k) = {}"
          using file_okD(4)[OF fk] u(3) by auto
        note du = dir_frame[OF k(1) u(4) k(2) dj k(2)[folded u(2)]]
        have "file_set u (inode_at u k) = file_set s (inode_at s k)" unfolding du(3) by (rule file_frame(2)[OF fk u(4) dj])
        moreover have "fs_frame (insert k (free_inums s)) (free_data s \<union> file_set s (inode_at s k)) s u"
          by (rule fs_frame_mono[OF u(4)]) auto
        ultimately have "names_ok u lost" "same_kinds s u" "tree_of u = tree_of s"
          using no_node[OF t entry(4) _ u(2) du(1,2)] u(3) by simp_all
        then have "names_ok u lost \<and> same_kinds s u \<and> (no_dots ts \<longrightarrow> created s u ts (- ENOSPC) Folder)"
          by (simp add: created_def)
        then show ?thesis using u(1) unfolding p by blast
      next
        case False
        then have f: "free_inums s \<noteq> {}" "free_data s \<noteq> {}" by simp_all
        have sm: "dir_size (Suc (length (entries_of s k))) < 2 ^ 31" using small entry(4) by (simp add: small_dirs_def)
        have room: "length (entries_of s k) mod DIRENTS_PER_BLOCK \<noteq> 0"
          if "in_parent (\<lambda>n. n mod DIRENTS_PER_BLOCK \<noteq> 0) (path_of (us @ [x])) uid gid s"
          using that entry(5) unfolding in_parent_def p by blast
        obtain ret n v where v: "mkdir_fs (path_of (us @ [x])) mode uid gid s = Some (ret, v)" "first_free s n"
          "fs_frame {n, k} (free_data s \<union> file_set s (inode_at s k)) s v" "is_dir v k"
          and r: "ret = SUCCESS \<and> is_dir v n \<and> free_inums v = free_inums s - {n} \<and>
            entries_of v k = entries_of s k @ [new_dirent x (int n)] \<and> base_entries n (int k) (entries_of v n) \<and>
            free_data v \<union> file_set v (inode_at v k) \<union> file_set v (inode_at v n) = free_data s \<union> file_set s (inode_at s k) \<and>
            file_set v (inode_at v k) \<inter> file_set v (inode_at v n) = {} \<and>
            same_meta (write_meta (dir_pos (length (entries_of s k))) sizeof_dirent (inode_at s k)) (inode_at v k) \<or>
           ret = - ENOSPC \<and> length (entries_of s k) mod DIRENTS_PER_BLOCK = 0 \<and> free_inums v = free_inums s \<and>
            entries_of v k = entries_of s k \<and> inode_at v k = inode_at s k \<and>
            free_data v \<subseteq> free_data s \<union> file_set s (inode_at s k) \<and> card (free_data s) \<le> Suc (card (free_data v))"
          using mkdir_spec[OF d(5) c conjunct1[OF w] conjunct2[OF w] f sm mode] by (elim exE conjE) (rule that)
        have n: "n \<in> free_inums s" using v(2) by (simp add: first_free_def free_inums_def)
        from r show ?thesis
        proof (elim disjE conjE)
          assume a: "ret = SUCCESS" "is_dir v n" "free_inums v = free_inums s - {n}"
            "entries_of v k = entries_of s k @ [new_dirent x (int n)]" "base_entries n (int k) (entries_of v n)"
            "free_data v \<union> file_set v (inode_at v k) \<union> file_set v (inode_at v n) = free_data s \<union> file_set s (inode_at s k)"
            "file_set v (inode_at v k) \<inter> file_set v (inode_at v n) = {}"
          have no: "node_ok v n" using a(2) dir_okD(3) by (auto simp: node_ok_def is_dir_def)
          have xn: "valid_name x" using c by (simp add: creatable_def)
          have nw: "names_ok v lost" "same_kinds s v" "node_at s 1 us = Some k \<Longrightarrow> no_dots [x] \<Longrightarrow>
              tree_of s (us @ [x]) = None \<and> tree_of v = (tree_of s)(us @ [x] \<mapsto> shown v n)"
            using new_node[OF t entry(4) n v(3) a(3) v(4) no a(6,7) xn _ a(4)] w a(5) by blast+
          have "shown v n = Folder" using a(2) by (simp add: shown_def dirs_def)
          from nw(1,2) created_node[OF t c _ nw(3) this] show ?thesis using v(1) a(1) entry(1) unfolding p by blast
        next
          assume a: "ret = - ENOSPC" "length (entries_of s k) mod DIRENTS_PER_BLOCK = 0" "free_inums v = free_inums s"
            "entries_of v k = entries_of s k" "free_data v \<subseteq> free_data s \<union> file_set s (inode_at s k)"
          have "tree_of v = tree_of s" by (rule no_node_tree[OF t entry(4) n v(3) a(3,5) v(4) a(4)])
          then have "created s v ts ret Folder" using a(1) by (simp add: created_def)
          then show ?thesis using v(1) room a(2) unfolding p by blast
        qed
      qed
    qed
  qed
qed

end
