(* ===== verification/VolumeHandlers.thy ===== *)
theory VolumeHandlers
  imports VolumeSteps
begin

text \<open>
  The handlers on the whole state.  \<open>system_ok\<close> joins the disk with the table of open files: a file
  without a name is one that is open and will be deleted when it is closed for the last time.
  Every handler returns and keeps \<open>system_ok\<close>, with the restrictions named in its lemma; each of them
  leaves out calls on which the code goes wrong.
\<close>

definition orphans :: "layer2 \<Rightarrow> nat set" where
  "orphans s = {n. pending (int n) s}"

definition opened_ok :: "layer2 \<Rightarrow> bool" where
  "opened_ok s \<longleftrightarrow> (\<forall>fd i fl. oft_lookup fd s = Some (i, fl) \<longrightarrow>
    (\<exists>n \<in> used_inums (files s). i = int n \<and> (n \<in> dirs (files s) \<longrightarrow> fl AND O_ACCMODE = O_RDONLY)))"

definition system_ok :: "layer2 \<Rightarrow> bool" where
  "system_ok s \<longleftrightarrow> oft_ok s \<and> names_ok (files s) (orphans s) \<and> opened_ok s"

lemma system_okD:
  assumes "system_ok s"
  shows "oft_ok s" "names_ok (files s) (orphans s)" "opened_ok s" "mounted (files s)"
  using assms names_okD(6) unfolding system_ok_def by blast+

lemma opened_okD:
  assumes "opened_ok s" "oft_lookup fd s = Some (i, fl)"
  obtains n where "n \<in> used_inums (files s)" "i = int n" "n \<in> dirs (files s) \<Longrightarrow> fl AND O_ACCMODE = O_RDONLY"
  using assms unfolding opened_ok_def by blast

text \<open>Only the files change.\<close>

lemma system_files:
  assumes s: "system_ok s" and t: "names_ok t (orphans s)" "same_kinds (files s) t"
  shows "system_ok (s\<lparr>files := t\<rparr>)"
proof -
  have o: "orphans (s\<lparr>files := t\<rparr>) = orphans s" by (simp add: orphans_def pending_def)
  have "opened_ok (s\<lparr>files := t\<rparr>)"
    unfolding opened_ok_def
  proof (intro allI impI)
    fix fd i fl assume "oft_lookup fd (s\<lparr>files := t\<rparr>) = Some (i, fl)"
    then have l: "oft_lookup fd s = Some (i, fl)" by (simp add: oft_lookup_def)
    obtain n where n: "n \<in> used_inums (files s)" "i = int n" "n \<in> dirs (files s) \<Longrightarrow> fl AND O_ACCMODE = O_RDONLY"
      using opened_okD[OF system_okD(3)[OF s] l] by metis
    have "n \<in> used_inums t" "n \<in> dirs t \<Longrightarrow> n \<in> dirs (files s)" using t(2) n(1) unfolding same_kinds_def by blast+
    then show "\<exists>n \<in> used_inums (files (s\<lparr>files := t\<rparr>)). i = int n \<and>
        (n \<in> dirs (files (s\<lparr>files := t\<rparr>)) \<longrightarrow> fl AND O_ACCMODE = O_RDONLY)"
      using n(2,3) by auto
  qed
  then show ?thesis using system_okD(1)[OF s] t(1) o by (simp add: system_ok_def)
qed

section \<open>Creating\<close>

lemma fs_mknod_total:
  assumes s: "system_ok s" and p: "clean ts" "small_dirs (files s)"
  shows "\<exists>ret t. fs_mknod (fuse_path ts) mode uid gid s = Some (ret, t) \<and> system_ok t \<and>
    (no_dots ts \<longrightarrow> created (files s) (files t) ts ret (Plain []))"
proof -
  obtain ret t where t: "mknod_fs (fuse_path ts) mode uid gid (files s) = Some (ret, t)" "names_ok t (orphans s)"
    "same_kinds (files s) t" "no_dots ts \<longrightarrow> created (files s) t ts ret (Plain [])" using mknod_total[OF system_okD(2)[OF s] p] by blast
  then show ?thesis using system_files[OF s t(2,3)] t(4) by (simp add: fs_mknod_def on_files_def)
qed

lemma fs_mkdir_total:
  assumes s: "system_ok s" and p: "clean ts" "small_dirs (files s)" "mode AND 0x3000 = 0"
  shows "\<exists>ret t. fs_mkdir (fuse_path ts) mode uid gid s = Some (ret, t) \<and>
    (no_dots ts \<longrightarrow> created (files s) (files t) ts ret Folder) \<and>
    (in_parent (\<lambda>n. n mod DIRENTS_PER_BLOCK \<noteq> 0) (fuse_path ts) uid gid (files s) \<longrightarrow> system_ok t)"
proof -
  obtain ret t where t: "mkdir_fs (fuse_path ts) mode uid gid (files s) = Some (ret, t)"
    "no_dots ts \<longrightarrow> created (files s) t ts ret Folder"
    "in_parent (\<lambda>n. n mod DIRENTS_PER_BLOCK \<noteq> 0) (fuse_path ts) uid gid (files s) \<longrightarrow>
      names_ok t (orphans s) \<and> same_kinds (files s) t" using mkdir_total[OF system_okD(2)[OF s] p] by blast
  then show ?thesis using system_files[OF s, of t] by (auto simp: fs_mkdir_def on_files_def)
qed

section \<open>Writing\<close>

lemma system_file_change:
  assumes s: "system_ok s" and k: "k \<in> used_inums (files s) - dirs (files s)"
    and st: "file_step {k} (files s) (inode_at (files s) k) t (inode_at t k)" and g: "file_good t (inode_at t k)"
    and ki: "\<not> S_ISDIR (i_mode (inode_at t k))"
  shows "system_ok (s\<lparr>files := t\<rparr>)"
    "node_at (files s) 1 p = Some k \<Longrightarrow> tree_of t = (tree_of (files s))(p \<mapsto> Plain (file_contents t k))"
    "k \<in> orphans s \<Longrightarrow> tree_of t = tree_of (files s)"
proof -
  note d = system_okD[OF s]
  note c = file_change[OF d(2) k st g ki]
  have "same_kinds (files s) t" using c(2,3) names_okD(8)[OF d(2)] by (auto simp: same_kinds_def)
  then show "system_ok (s\<lparr>files := t\<rparr>)" by (rule system_files[OF s c(1)])
qed (use file_change(4,5)[OF system_okD(2)[OF s] k st g ki] in simp_all)

lemma tree_file:
  assumes "names_ok s lost" "k \<in> used_inums s - dirs s"
  shows "valid_inum s k" "\<not> S_ISDIR (i_mode (inode_at s k))" "file_good s (inode_at s k)"
proof -
  show "valid_inum s k" using assms(2) by (simp add: used_inums_def)
  show nd: "\<not> S_ISDIR (i_mode (inode_at s k))" using assms(2) names_okD(8)[OF assms(1)] by blast
  show "file_good s (inode_at s k)"
    using node_okD(4)[OF volume_okD(2)[OF names_okD(1)[OF assms(1)]] nd] assms(2) by simp
qed

text \<open>
  The buffer holds \<open>n\<close> bytes, at least one, the file stays below \<open>2 ^ 31\<close> bytes, the test for zeros reads
  the right bytes, and the flags are those given to \<open>open\<close>.
\<close>

definition proper_write :: "byte list \<Rightarrow> nat \<Rightarrow> nat \<Rightarrow> fuse_file_info \<Rightarrow> layer2 \<Rightarrow> bool" where
  "proper_write buf n off fi s \<longleftrightarrow> 0 < n \<and> n \<le> length buf \<and>
    (\<forall>k fl. oft_lookup (c_int (fi_fh fi)) s = Some (int k, fl) \<longrightarrow> fi_flags fi = fl \<and>
      (let ino = inode_at (files s) k; off = (if fl AND O_APPEND \<noteq> 0 then file_size ino else off)
       in off + n < 2 ^ 31 \<and> write_honest (files s) ino buf off n))"

text \<open>The paths of the file that a descriptor refers to, of which there is one or, after \<open>unlink\<close>, none.\<close>

definition opened_at :: "layer2 \<Rightarrow> int \<Rightarrow> byte list list \<Rightarrow> bool" where
  "opened_at s fd p \<longleftrightarrow> (\<exists>k fl. oft_lookup fd s = Some (int k, fl) \<and> node_at (files s) 1 p = Some k)"

definition map_files :: "(byte list list \<Rightarrow> bool) \<Rightarrow> (byte list \<Rightarrow> byte list) \<Rightarrow>
    (byte list list \<Rightarrow> fs_node option) \<Rightarrow> byte list list \<Rightarrow> fs_node option" where
  "map_files P f T p = (case T p of Some (Plain c) \<Rightarrow> Some (Plain (if P p then f c else c)) | r \<Rightarrow> r)"

lemma map_files_id: "(\<And>c. f c = c) \<Longrightarrow> map_files P f T = T"
  by (auto simp: map_files_def split: option.split fs_node.split)

lemma map_files_opened:
  assumes s: "system_ok s" and r: "oft_lookup fd s = Some (int k, fl)" and k: "k \<in> used_inums (files s) - dirs (files s)"
    and p: "\<And>p. node_at (files s) 1 p = Some k \<Longrightarrow> T = (tree_of (files s))(p \<mapsto> Plain (f (file_contents (files s) k)))"
    and o: "k \<in> orphans s \<Longrightarrow> T = tree_of (files s)"
  shows "T = map_files (opened_at s fd) f (tree_of (files s))"
proof -
  note t = system_okD(2)[OF s]
  have op: "opened_at s fd q \<longleftrightarrow> node_at (files s) 1 q = Some k" for q using r by (auto simp: opened_at_def)
  show ?thesis
  proof (cases "k \<in> orphans s")
    case True
    then have "\<not> opened_at s fd q" for q using node_named[OF t, of q k] by (auto simp: op)
    then show ?thesis using o True by (auto simp: map_files_def split: option.split fs_node.split)
  next
    case False
    then obtain q where q: "node_at (files s) 1 q = Some k" using path_exists[OF t, of k] k by blast
    then have o': "opened_at s fd r \<longleftrightarrow> r = q" for r using one_path[OF t] by (auto simp: op)
    have "tree_of (files s) q = Some (Plain (file_contents (files s) k))" using q k by (simp add: tree_of_def shown_def)
    then show ?thesis unfolding p[OF q] by (auto simp: map_files_def o' split: option.split fs_node.split)
  qed
qed

text \<open>The part of the buffer that was written goes to the end of the file or to the offset.\<close>

definition write_effect :: "byte list \<Rightarrow> nat \<Rightarrow> nat \<Rightarrow> fuse_file_info \<Rightarrow> int \<Rightarrow> layer2 \<Rightarrow> layer2 \<Rightarrow> bool" where
  "write_effect buf n off fi ret s t \<longleftrightarrow> (\<exists>q. (ret = int n \<and> q = n \<or> ret = - ENOSPC \<and> q < n \<or> ret = - EBADF \<and> q = 0) \<and>
    tree_of (files t) = map_files (opened_at s (c_int (fi_fh fi)))
      (\<lambda>c. apply_write (if fi_flags fi AND O_APPEND \<noteq> 0 then length c else off) (take q buf) c) (tree_of (files s)))"

lemma no_write: "write_effect buf n off fi (- EBADF) s s"
  unfolding write_effect_def by (intro exI[of _ 0]) (simp add: apply_write_def map_files_id)

lemma fs_write_total:
  assumes s: "system_ok s" and w: "proper_write buf n off fi s"
  shows "\<exists>ret t. fs_write buf (int n) (int off) (Some fi) s = Some (ret, t) \<and> system_ok t \<and>
    write_effect buf n off fi ret s t"
proof (cases "oft_lookup (c_int (fi_fh fi)) s")
  case None
  then have "fs_write buf (int n) (int off) (Some fi) s = Some (- EBADF, s)" by (simp add: fs_write_def)
  then show ?thesis using s no_write by (simp add: c_consts)
next
  case (Some r)
  obtain i fl where r: "oft_lookup (c_int (fi_fh fi)) s = Some (i, fl)" using Some by (cases r) simp
  note d = system_okD[OF s]
  obtain k where k: "k \<in> used_inums (files s)" "i = int k" "k \<in> dirs (files s) \<Longrightarrow> fl AND O_ACCMODE = O_RDONLY"
    using opened_okD[OF d(3) r] by metis
  let ?ino = "inode_at (files s) k"
  define o' where "o' = (if fl AND O_APPEND \<noteq> 0 then file_size ?ino else off)"
  have p: "0 < n" "n \<le> length buf" "fi_flags fi = fl" "o' + n < 2 ^ 31" "write_honest (files s) ?ino buf o' n"
    using w r unfolding proper_write_def k(2) Let_def o'_def by blast+
  show ?thesis
  proof (cases "fl AND O_ACCMODE = O_WRONLY \<or> fl AND O_ACCMODE = O_RDWR")
    case False
    then have "fs_write buf (int n) (int off) (Some fi) s = Some (- EBADF, s)" using r p(3) by (simp add: fs_write_def Let_def)
    then show ?thesis using s no_write by (simp add: c_consts)
  next
    case True
    then have kd: "k \<in> used_inums (files s) - dirs (files s)" using k(1,3) by auto
    note f = tree_file[OF d(2) kd]
    note g = file_goodD[OF f(3)]
    have lt: "o' + n \<le> 2 ^ 31" "n < 2 ^ 31" using p(4) by simp_all
    obtain ret q t where t: "write_i (int k) (Some buf) (int o') (int n) (files s) = Some (ret, t)" "wrote k o' buf q (files s) t"
      "ret = int n \<and> q = n \<or> ret = DATA_FULL \<and> q < n"
      using write_i_spec[OF names_okD(5)[OF d(2)] g(1-3) f(1) p(1) lt p(2,5)] by blast
    have q: "o' + q < 2 ^ 31" using t(3) p(4) by auto
    have nd: "\<not> S_ISDIR (i_mode (inode_at t k))"
      using wroteD(3)[OF t(2)] f(2) S_ISDIR_write_meta[of o' q ?ino] by (simp add: same_meta_def)
    note ch = system_file_change[OF s kd wroteD(1)[OF t(2)] wrote_good(1)[OF f(3) t(2) q] nd]
    note ok = ch(1)
    have qn: "q \<le> length buf" "q \<le> n" using t(3) p(2) by auto
    have tr: "tree_of t = map_files (opened_at s (c_int (fi_fh fi)))
        (\<lambda>c. apply_write (if fi_flags fi AND O_APPEND \<noteq> 0 then length c else off) (take q buf) c) (tree_of (files s))"
      by (rule map_files_opened[OF s r[unfolded k(2)] kd _ ch(3)])
        (simp_all add: ch(2) wrote_contents[OF f(3) t(2) q qn(1)] p(3) o'_def)
    have eff: "write_effect buf n off fi (if ret = DATA_FULL then - ENOSPC else ret) s (s\<lparr>files := t\<rparr>)"
      unfolding write_effect_def using t(3) qn(2) tr by (intro exI[of _ q]) auto
    have acc: "\<not> (fl AND O_ACCMODE \<noteq> O_RDWR \<and> fl AND O_ACCMODE \<noteq> O_WRONLY)" using True by blast
    have "fs_write buf (int n) (int off) (Some fi) s = Some (if ret = DATA_FULL then - ENOSPC else ret, s\<lparr>files := t\<rparr>)"
    proof (cases "fl AND O_APPEND = 0")
      case True
      then have "write_i (int k) (Some buf) (int off) (int n) (files s) = Some (ret, t)" using t(1) by (simp add: o'_def)
      then show ?thesis using r acc True unfolding k(2) p(3)[symmetric] by (auto simp: fs_write_def Let_def on_files_def)
    next
      case False
      then have "write_i (int k) (Some buf) (uint (i_size ?ino)) (int n) (files s) = Some (ret, t)"
        using t(1) by (simp add: o'_def uint_size)
      then show ?thesis using r acc False unfolding k(2) p(3)[symmetric]
        by (auto simp: fs_write_def local_inode_ok[OF d(4) f(1)] Let_def on_files_def)
    qed
    then show ?thesis using ok eff by blast
  qed
qed

section \<open>The target of a path\<close>

lemma found_entry:
  assumes t: "names_ok s lost" and k: "k \<in> dirs s"
  obtains (missing) "found x (entries_of s k) = 0"
  | (there) i where "dir_find x (entries_of s k) = Some i" "i < length (entries_of s k)"
    "found x (entries_of s k) = int (entry_inum (entries_of s k ! i))"
    "entry_inum (entries_of s k ! i) \<in> used_inums s - lost"
proof (cases "dir_find x (entries_of s k)")
  case None
  then show thesis using missing by (simp add: found_def)
next
  case (Some i)
  have i: "i < length (entries_of s k)" using first_index_lt Some by (simp add: dir_find_def)
  then show thesis using there[OF Some i] entry_cases(1,4)[OF t k i] Some by (simp add: found_def)
qed

text \<open>The result of \<open>namei\<close> as the handlers below look at it: an error, no target, or a used inode.\<close>

lemma target_cases:
  assumes t: "names_ok s lost" and ts: "clean ts"
  obtains (error) r q n i where "namei (fuse_path ts) uid gid s = Some (r, q, n, i)" "r \<noteq> SUCCESS"
  | (missing) q i where "namei (fuse_path ts) uid gid s = Some (SUCCESS, q, INVALID_INODE, i)"
  | (root) "namei (fuse_path ts) uid gid s = Some (SUCCESS, 1, 1, 0)" "1 \<in> dirs s" "ts = []"
  | (there) k n i where "namei (fuse_path ts) uid gid s = Some (SUCCESS, int k, int n, int i)" "k \<in> dirs s"
    "n \<in> used_inums s - lost" "i < length (entries_of s k)" "n = entry_inum (entries_of s k ! i)"
    "no_dots ts \<Longrightarrow> \<exists>us. ts = us @ [name_of (entries_of s k ! i)] \<and> node_at s 1 us = Some k"
  using t ts
proof (cases rule: namei_total[where uid = uid and gid = gid])
  case (error r q n i)
  then show thesis using that(1) by blast
next
  case root
  then show thesis using that(3) names_okD(7)[OF t] by blast
next
  case (entry us x k i)
  from t entry(4) show thesis
  proof (cases rule: found_entry[where x = x])
    case missing
    then show thesis using that(2) entry(5) by (simp add: INVALID_INODE_def)
  next
    case (there j)
    have "name_of (entries_of s k ! j) = x"
      using first_index_Some[OF there(1)[unfolded dir_find_def]] by (simp add: has_name_def name_of_def)
    then have p: "\<exists>us. ts = us @ [name_of (entries_of s k ! j)] \<and> node_at s 1 us = Some k" if "no_dots ts"
      using that entry(1) creatable_node(1)[OF t entry(3)] by auto
    have nm: "namei (fuse_path ts) uid gid s = Some (SUCCESS, int k, int (entry_inum (entries_of s k ! j)), int j)"
      using entry(5) entry(6)[OF there(1)] there(3) by simp
    show thesis by (rule that(4)[OF nm entry(4) there(4,2) refl p])
  qed
qed

section \<open>Truncating\<close>

text \<open>
  The sizes for which \<open>truncate\<close> does not free a block: larger than the file, or in its last block
  with a byte that is not zero before the new end.
\<close>

definition proper_size :: "'a layer1_scheme \<Rightarrow> nat \<Rightarrow> nat \<Rightarrow> bool" where
  "proper_size s n sz \<longleftrightarrow> (let ino = inode_at s n in file_size ino < sz \<and> sz < 2 ^ 31 \<or>
    (\<exists>b ws j. sz = b * BLOCK_SIZE + ws \<and> file_size ino \<le> b * BLOCK_SIZE + BLOCK_SIZE \<and> sz < file_size ino \<and>
      j < ws \<and> file_byte s ino (b * BLOCK_SIZE + j) \<noteq> 0))"

definition resize :: "nat \<Rightarrow> byte list \<Rightarrow> byte list" where
  "resize sz c = take sz c @ replicate (sz - length c) 0"

lemma truncate_proper:
  assumes t: "names_ok s lost" and n: "n \<in> used_inums s - dirs s" and p: "proper_size s n sz"
  shows "\<exists>t. truncate_i (int n) (int sz) s = Some (SUCCESS, t) \<and> file_step {n} s (inode_at s n) t (inode_at t n) \<and>
    file_good t (inode_at t n) \<and> \<not> S_ISDIR (i_mode (inode_at t n)) \<and> file_contents t n = resize sz (file_contents s n)"
proof -
  note f = tree_file[OF t n] and ok = names_okD(5)[OF t]
  let ?ino = "(inode_at s n)\<lparr>i_size := word_of_nat sz\<rparr>"
  have nd: "\<not> S_ISDIR (i_mode ?ino)" using f(2) by simp
  from p[unfolded proper_size_def Let_def] show ?thesis
  proof (elim disjE exE conjE)
    assume a: "file_size (inode_at s n) < sz" "sz < 2 ^ 31"
    then have "resize sz (file_contents s n) = file_contents s n @ replicate (sz - file_size (inode_at s n)) 0"
      by (simp add: resize_def)
    then show ?thesis using truncate_extend[OF ok f(1,3) a] truncate_extends[OF ok f(1,3) a] nd by auto
  next
    fix b ws j assume a: "sz = b * BLOCK_SIZE + ws" "file_size (inode_at s n) \<le> b * BLOCK_SIZE + BLOCK_SIZE"
      "sz < file_size (inode_at s n)" "j < ws" "file_byte s (inode_at s n) (b * BLOCK_SIZE + j) \<noteq> 0"
    have b: "file_size (inode_at s n) \<le> Suc b * BLOCK_SIZE" "file_contents s n ! (b * BLOCK_SIZE + j) \<noteq> 0"
      using a by (simp_all add: file_contents_def)
    have "resize sz (file_contents s n) = take sz (file_contents s n)" using a(3) by (simp add: resize_def)
    then show ?thesis
      using truncate_within_block[OF ok f(1,3) a] truncate_cuts[OF ok f(1,3) a(1,3) b(1) a(4) b(2)] nd by auto
  qed
qed

definition proper_truncate :: "byte list \<Rightarrow> nat \<Rightarrow> int \<Rightarrow> int \<Rightarrow> 'a layer1_scheme \<Rightarrow> bool" where
  "proper_truncate path sz uid gid s \<longleftrightarrow>
    (\<forall>q n i. namei path uid gid s = Some (SUCCESS, q, int n, i) \<longrightarrow> proper_size s n sz)"

text \<open>The file at the path is cut or filled up with zeros.\<close>

definition resized :: "layer2 \<Rightarrow> layer2 \<Rightarrow> byte list list \<Rightarrow> nat \<Rightarrow> int \<Rightarrow> bool" where
  "resized s t ts sz ret \<longleftrightarrow> (if ret = 0 then \<exists>c. tree_of (files s) ts = Some (Plain c) \<and>
    tree_of (files t) = (tree_of (files s))(ts \<mapsto> Plain (resize sz c)) else tree_of (files t) = tree_of (files s))"

lemma not_resized [simp]: "ret \<noteq> 0 \<Longrightarrow> resized s s ts sz ret"
  by (simp add: resized_def)

lemma node_there:
  assumes "\<exists>us. ts = us @ [name_of (entries_of s k ! i)] \<and> node_at s 1 us = Some k" and t: "names_ok s lost"
    and k: "k \<in> dirs s" and i: "2 \<le> i" "i < length (entries_of s k)"
  shows "node_at s 1 ts = Some (entry_inum (entries_of s k ! i))"
proof -
  have "map_of (links_of s k) (name_of (entries_of s k ! i)) = Some (entry_inum (entries_of s k ! i))"
    by (rule map_of_is_SomeI[OF dir_wf_links(1)[OF names_okD(3)[OF t k]] links_entry[OF i]])
  then show ?thesis using assms(1) k by (auto simp: node_at_snoc)
qed

lemma index_there:
  assumes e: "no_dots ts \<Longrightarrow> \<exists>us. ts = us @ [name_of (entries_of s k ! i)] \<and> node_at s 1 us = Some k" and ts: "no_dots ts"
    and t: "names_ok s lost" and k: "k \<in> dirs s"
  shows "2 \<le> i"
proof -
  have w: "dir_wf s k" by (rule names_okD(3)[OF t k])
  have "name_of (entries_of s k ! i) \<noteq> DOT \<and> name_of (entries_of s k ! i) \<noteq> DOT_DOT" using e[OF ts] ts by auto
  then have "i \<noteq> 0" "i \<noteq> 1" using w unfolding dir_wf_def by metis+
  then show ?thesis by linarith
qed

lemma named_there:
  assumes e: "no_dots ts \<Longrightarrow> \<exists>us. ts = us @ [name_of (entries_of s k ! i)] \<and> node_at s 1 us = Some k" and ts: "no_dots ts"
    and t: "names_ok s lost" and k: "k \<in> dirs s" and i: "i < length (entries_of s k)"
  shows "node_at s 1 ts = Some (entry_inum (entries_of s k ! i))"
  using node_there[OF e[OF ts] t k index_there[OF e ts t k] i] .

lemma file_there:
  assumes t: "names_ok s lost" and k: "k \<in> dirs s" and i: "i < length (entries_of s k)" "n = entry_inum (entries_of s k ! i)"
    and n: "n \<notin> dirs s"
  shows "2 \<le> i"
  using entry_cases(2)[OF t k i(1)] i(2) n by (meson not_le)

text \<open>The cases of \<open>fs_truncate\<close>.\<close>

lemma fs_truncate_cases:
  assumes s: "system_ok s" and ts: "clean ts"
  obtains (refused) ret where "fs_truncate (fuse_path ts) (int sz) uid gid s = Some (ret, s)" "ret \<noteq> 0"
  | (plain) k n i where "namei (fuse_path ts) uid gid (files s) = Some (SUCCESS, int k, int n, int i)"
    "n \<in> used_inums (files s) - dirs (files s)" "no_dots ts \<Longrightarrow> node_at (files s) 1 ts = Some n"
    "\<And>t. truncate_i (int n) (int sz) (files s) = Some (SUCCESS, t) \<Longrightarrow>
      fs_truncate (fuse_path ts) (int sz) uid gid s = Some (0, s\<lparr>files := t\<rparr>)"
proof -
  note d = system_okD[OF s]
  note [simp] = c_consts
  from d(2) ts show thesis
  proof (cases rule: target_cases[where uid = uid and gid = gid])
    case (error r q n i)
    then show thesis using refused[of r] by (simp add: fs_truncate_def)
  next
    case (missing q i)
    then show thesis using refused[of "- ENOENT"] by (simp add: fs_truncate_def)
  next
    case root
    have "valid_inum (files s) 1" "S_ISDIR (i_mode (inode_at (files s) 1))"
      using root(2) dir_okD(3) by (auto simp: dirs_def is_dir_def)
    then show thesis using root refused[of "- EISDIR"] local_inode_ok[OF d(4), of 1] by (simp add: fs_truncate_def INVALID_INODE_def)
  next
    case (there k n i)
    have vn: "valid_inum (files s) n" "int n \<noteq> INVALID_INODE" using there(3) by (auto simp: used_inums_def valid_inum_def INVALID_INODE_def)
    obtain r w x where perm: "permissions (int n) uid gid (files s) = (r, w, x)" by (cases "permissions (int n) uid gid (files s)")
    show thesis
    proof (cases "n \<in> dirs (files s) \<or> \<not> w")
      case True
      then obtain ret where "fs_truncate (fuse_path ts) (int sz) uid gid s = Some (ret, s)" "ret \<noteq> 0"
        using there(1,3) vn perm names_okD(8)[OF d(2), of n]
        by (cases "n \<in> dirs (files s)") (auto simp: fs_truncate_def local_inode_ok[OF d(4) vn(1)])
      then show thesis by (rule refused)
    next
      case False
      then have nd: "n \<in> used_inums (files s) - dirs (files s)" using there(3) by blast
      have "fs_truncate (fuse_path ts) (int sz) uid gid s = Some (0, s\<lparr>files := t\<rparr>)"
        if "truncate_i (int n) (int sz) (files s) = Some (SUCCESS, t)" for t
        using there(1) vn perm False that tree_file(2)[OF d(2) nd]
        by (simp add: fs_truncate_def local_inode_ok[OF d(4) vn(1)] on_files_def)
      moreover have "node_at (files s) 1 ts = Some n" if "no_dots ts"
        using named_there[OF there(6) that d(2) there(2,4)] there(5) by simp
      ultimately show thesis using plain[OF there(1) nd] by blast
    qed
  qed
qed

lemma fs_truncate_total:
  assumes s: "system_ok s" and ts: "clean ts" and p: "proper_truncate (fuse_path ts) sz uid gid (files s)"
  shows "\<exists>ret t. fs_truncate (fuse_path ts) (int sz) uid gid s = Some (ret, t) \<and> system_ok t \<and>
    (no_dots ts \<longrightarrow> resized s t ts sz ret)"
  using s ts
proof (cases rule: fs_truncate_cases[where sz = sz and uid = uid and gid = gid])
  case (refused ret)
  then show ?thesis using s by simp
next
  case (plain k n i)
  have "proper_size (files s) n sz" using p plain(1) unfolding proper_truncate_def by blast
  from truncate_proper[OF system_okD(2)[OF s] plain(2) this]
  obtain t where t: "truncate_i (int n) (int sz) (files s) = Some (SUCCESS, t)"
    "file_step {n} (files s) (inode_at (files s) n) t (inode_at t n)" "file_good t (inode_at t n)"
    "\<not> S_ISDIR (i_mode (inode_at t n))" "file_contents t n = resize sz (file_contents (files s) n)" by blast
  have "resized s (s\<lparr>files := t\<rparr>) ts sz 0" if "no_dots ts"
    using system_file_change(2)[OF s plain(2) t(2-4)] plain(2) plain(3)[OF that] t(5)
    by (simp add: resized_def tree_of_def shown_def)
  then show ?thesis using system_file_change(1)[OF s plain(2) t(2-4)] plain(4)[OF t(1)] by blast
qed

text \<open>It returns for sizes below \<open>2 ^ 31\<close> that are not the size of the file, also when it frees a block.\<close>

lemma truncate_returns:
  assumes t: "names_ok s lost" and n: "n \<in> used_inums s - dirs s" and sz: "sz < 2 ^ 31" "file_size (inode_at s n) \<noteq> sz"
  shows "\<exists>t. truncate_i (int n) (int sz) s = Some (SUCCESS, t)"
proof -
  note f = tree_file[OF t n] and ok = names_okD(5)[OF t]
  note g = file_goodD[OF f(3)]
  show ?thesis
  proof (cases "file_size (inode_at s n) < sz")
    case True
    then show ?thesis using truncate_extend[OF ok f(1,3) True sz(1)] by blast
  next
    case False
    let ?c = "file_size (inode_at s n) - sz"
    let ?z = "replicate ?c (0 :: byte)"
    have c: "sz \<le> file_size (inode_at s n)" "0 < ?c" "sz + ?c \<le> 2 ^ 31" "?c < 2 ^ 31" "?c \<le> length ?z" "?z = replicate (length ?z) 0"
      using False sz(2) g(3) by simp_all
    obtain ret q t1 where w: "write_i (int n) (Some ?z) (int sz) (int ?c) s = Some (ret, t1)" "wrote n sz ?z q s t1"
      using write_i_spec[OF ok g(1-3) f(1) c(2-5) write_honest_zeros[OF c(6,5)]] by blast
    note st = file_stepD[OF wroteD(1)[OF w(2)]]
    have "valid_inum t1 n" using st(7) f(1) by simp
    from truncate_shrink[OF ok f(1) g(3) c(1) w(1) st(5) this] show ?thesis by blast
  qed
qed

lemma fs_truncate_returns:
  assumes s: "system_ok s" and ts: "clean ts" and sz: "sz < 2 ^ 31"
    and ne: "\<forall>q n i. namei (fuse_path ts) uid gid (files s) = Some (SUCCESS, q, int n, i) \<longrightarrow> file_size (inode_at (files s) n) \<noteq> sz"
  shows "\<exists>r. fs_truncate (fuse_path ts) (int sz) uid gid s = Some r"
  using s ts
proof (cases rule: fs_truncate_cases[where sz = sz and uid = uid and gid = gid])
  case (plain k n i)
  have "file_size (inode_at (files s) n) \<noteq> sz" using ne plain(1) by blast
  from truncate_returns[OF system_okD(2)[OF s] plain(2) sz this] show ?thesis using plain(4) by blast
qed simp

section \<open>Opening and closing\<close>

lemma pending_upd:
  assumes "\<And>n. on_inum (g n) = on_inum n" "\<And>n. on_pending_deletion (g n) = on_pending_deletion n"
  shows "(\<exists>n \<in> set (upd_inode i g ns). on_inum n = j \<and> on_pending_deletion n) \<longleftrightarrow>
    (\<exists>n \<in> set ns. on_inum n = j \<and> on_pending_deletion n)"
  using assms unfolding upd_inode_def set_map bex_simps by (intro bex_cong) auto

lemma pending_add: "oft_ok s \<Longrightarrow> pending j (snd (oft_add i fl s)) = pending j s"
  by (simp add: pending_def oft_add_eq pending_upd)

lemma system_open:
  assumes s: "system_ok s" and n: "n \<in> used_inums (files s)" "n \<in> dirs (files s) \<Longrightarrow> fl AND O_ACCMODE = O_RDONLY"
  shows "system_ok (snd (oft_add (int n) fl s))"
proof -
  note d = system_okD[OF s]
  let ?t = "snd (oft_add (int n) fl s)"
  have f: "files ?t = files s" by (simp add: oft_add_eq[OF d(1)])
  have "orphans ?t = orphans s" by (simp add: orphans_def pending_add[OF d(1)])
  moreover have "opened_ok ?t"
    using d(3) n unfolding opened_ok_def f oft_add_lookup(2)[OF d(1)] by (auto split: if_splits)
  ultimately show ?thesis using oft_add_ok[OF d(1)] d(2) f by (simp add: system_ok_def)
qed

text \<open>A new descriptor refers to the path.\<close>

definition opens_path :: "layer2 \<Rightarrow> layer2 \<Rightarrow> byte list list \<Rightarrow> int \<Rightarrow> fuse_file_info \<Rightarrow> fuse_file_info \<Rightarrow> bool" where
  "opens_path s t ts ret fi fi' \<longleftrightarrow> (if ret = 0 then files t = files s \<and> fi' = fi\<lparr>fi_fh := fi_fh fi'\<rparr> \<and>
    tree_of (files s) ts \<noteq> None \<and> oft_lookup (fi_fh fi') s = None \<and>
    (\<forall>fd p. opened_at t fd p \<longleftrightarrow> opened_at s fd p \<or> fd = fi_fh fi' \<and> p = ts) else t = s \<and> fi' = fi)"

lemma not_opened [simp]: "ret \<noteq> 0 \<Longrightarrow> opens_path s s ts ret fi fi"
  by (simp add: opens_path_def)

lemma opens_path_add:
  assumes s: "system_ok s" and n: "node_at (files s) 1 ts = Some n"
  shows "opens_path s (snd (oft_add (int n) fl s)) ts 0 fi (fi\<lparr>fi_fh := fst (oft_add (int n) fl s)\<rparr>)"
proof -
  note d = system_okD[OF s] and l = oft_add_lookup[OF system_okD(1)[OF s]]
  have f: "files (snd (oft_add (int n) fl s)) = files s" by (simp add: oft_add_eq[OF d(1)])
  have "opened_at (snd (oft_add (int n) fl s)) fd p \<longleftrightarrow> opened_at s fd p \<or> fd = fst (oft_add (int n) fl s) \<and> p = ts" for fd p
  proof (cases "fd = fst (oft_add (int n) fl s)")
    case True
    then show ?thesis using one_path[OF d(2) n, of p] n l(1) by (auto simp: opened_at_def f l(2))
  qed (simp add: opened_at_def f l(2))
  then show ?thesis using n l(1) by (simp add: opens_path_def f tree_of_def)
qed

lemma fs_open_total:
  assumes s: "system_ok s" and ts: "clean ts"
  shows "\<exists>ret fi' t. fs_open (fuse_path ts) fi uid gid s = Some (ret, fi', t) \<and> system_ok t \<and>
    (no_dots ts \<longrightarrow> opens_path s t ts ret fi fi')"
proof -
  note d = system_okD[OF s]
  note [simp] = c_consts
  have target: "\<exists>ret fi' t. fs_open (fuse_path ts) fi uid gid s = Some (ret, fi', t) \<and> system_ok t \<and>
      (no_dots ts \<longrightarrow> opens_path s t ts ret fi fi')"
    if nm: "namei (fuse_path ts) uid gid (files s) = Some (SUCCESS, q, int n, i)" and n: "n \<in> used_inums (files s)"
      and path: "no_dots ts \<Longrightarrow> node_at (files s) 1 ts = Some n" for q n i
  proof -
    have vn: "valid_inum (files s) n" "int n \<noteq> INVALID_INODE" using n by (auto simp: used_inums_def valid_inum_def INVALID_INODE_def)
    obtain r w x where perm: "permissions (int n) uid gid (files s) = (r, w, x)" by (cases "permissions (int n) uid gid (files s)")
    let ?m = "fi_flags fi AND O_ACCMODE"
    show ?thesis
    proof (cases "(?m = O_RDONLY \<and> r \<or> ?m = O_WRONLY \<and> w \<or> ?m = O_RDWR \<and> r \<and> w) \<and> (n \<in> dirs (files s) \<longrightarrow> ?m = O_RDONLY)")
      case True
      then have "fs_open (fuse_path ts) fi uid gid s =
          (let (fh, t) = oft_add (int n) (fi_flags fi) s in Some (0, fi\<lparr>fi_fh := fh\<rparr>, t))"
        using nm vn perm n names_okD(8)[OF d(2), of n] by (auto simp: fs_open_def local_inode_ok[OF d(4) vn(1)] Let_def)
      moreover have "system_ok (snd (oft_add (int n) (fi_flags fi) s))" using system_open[OF s n] True by blast
      ultimately show ?thesis using opens_path_add[OF s path, of "fi_flags fi" fi] by (simp add: case_prod_beta)
    next
      case False
      then have "\<exists>ret. ret \<noteq> 0 \<and> fs_open (fuse_path ts) fi uid gid s = Some (ret, fi, s)"
        using nm vn perm n names_okD(8)[OF d(2), of n] by (auto simp: fs_open_def local_inode_ok[OF d(4) vn(1)] Let_def)
      then show ?thesis using s not_opened by blast
    qed
  qed
  from d(2) ts show ?thesis
  proof (cases rule: target_cases[where uid = uid and gid = gid])
    case (error r q n i)
    then show ?thesis using s by (simp add: fs_open_def)
  next
    case (missing q i)
    then show ?thesis using s by (simp add: fs_open_def)
  next
    case root
    then show ?thesis using target[of 1 1 0] names_okD(8)[OF d(2), of 1] by simp
  next
    case (there k n i)
    have "no_dots ts \<Longrightarrow> node_at (files s) 1 ts = Some n" using named_there[OF there(6) _ d(2) there(2,4)] there(5) by simp
    then show ?thesis using target[OF there(1)] there(3) by blast
  qed
qed

text \<open>The last descriptor of an inode is closed.\<close>

lemma pending_drop_fd:
  "pending j (drop_fd fd i s) \<longleftrightarrow> pending j s \<and> \<not> (refs i (oft_fds s) = 1 \<and> j = i)"
  by (cases "refs i (oft_fds s) = 1") (auto simp: pending_def drop_fd_def pending_upd)

lemma last_descriptor:
  assumes "oft_ok s" "refs i (oft_fds s) = 1" "oft_lookup fd s = Some (i, fl)" "oft_lookup x s = Some (i, fl')"
  shows "x = fd"
proof -
  have "card (open_fds i s) = 1" using refs_card[OF assms(1), of i] assms(2) by simp
  moreover have "fd \<in> open_fds i s" "x \<in> open_fds i s" using assms(3,4) by (auto simp: open_fds_def)
  ultimately show ?thesis by (metis card_1_singletonE singletonD)
qed

lemma delete_orphan:
  assumes t: "names_ok s lost" and n: "n \<in> lost"
  obtains t where "del (int n) s = Some (SUCCESS, t)" "names_ok t (lost - {n})" "used_inums t = used_inums s - {n}" "dirs t = dirs s"
    "tree_of t = tree_of s"
proof -
  note d = names_okD[OF t]
  have nu: "n \<in> used_inums s - dirs s" using d(2) n by blast
  then have nu': "n \<in> used_inums s" by simp
  obtain t where t: "del (int n) s = Some (SUCCESS, t)" "volume_ok t" "used_inums t = used_inums s - {n}"
    "dirs t = dirs s - {n}" "\<And>l. l \<in> dirs t \<Longrightarrow> entries_of t l = entries_of s l"
    "\<And>l. l \<in> used_inums s - {n} \<Longrightarrow> shown t l = shown s l"
    using del_change[OF d(1) nu' tree_file(3)[OF t nu]] by metis
  have de: "dirs t = dirs s" using t(4) nu by blast
  have "names_ok t (lost - {n})"
    by (rule tree_same[OF \<open>names_ok s lost\<close> t(2) de]) (use t(3,5) de d(2) n in auto)
  moreover have "tree_of t = tree_of s"
    by (rule tree_of_eq[OF \<open>names_ok s lost\<close> node_at_cong[OF de]]) (use t(5,6) de n in auto)
  ultimately show thesis using that t(1,3) de by blast
qed

lemma fs_release_total:
  assumes s: "system_ok s"
  shows "\<exists>ret t. fs_release (Some fi) s = Some (ret, t) \<and> system_ok t \<and> tree_of (files t) = tree_of (files s)"
proof (cases "oft_lookup (c_int (fi_fh fi)) s")
  case None
  then show ?thesis using s oft_remove_absent[OF system_okD(1)[OF s] None] by (simp add: fs_release_def)
next
  case (Some r)
  let ?fd = "c_int (fi_fh fi)"
  obtain i fl where r: "oft_lookup ?fd s = Some (i, fl)" using Some by (cases r) simp
  note d = system_okD[OF s]
  obtain n where n: "n \<in> used_inums (files s)" "i = int n" using opened_okD[OF d(3) r] by metis
  note rm = oft_remove_present[OF d(1) r]
  let ?u = "drop_fd ?fd i s"
  have u: "oft_ok ?u" "files ?u = files s" by (rule drop_fd_ok(2)[OF d(1) r], simp add: drop_fd_def)
  show ?thesis
  proof (cases "refs i (oft_fds s) = 1 \<and> pending i s")
    case False
    have "pending j ?u = pending j s" for j using False by (auto simp: pending_drop_fd)
    then have o: "orphans ?u = orphans s" by (simp add: orphans_def)
    have "opened_ok ?u" using d(3) unfolding opened_ok_def u(2) drop_fd_lookup by (auto split: if_splits)
    then have "system_ok ?u" using u d(2) o by (simp add: system_ok_def)
    then show ?thesis using rm False u(2) by (auto simp: fs_release_def)
  next
    case True
    have "n \<in> orphans s" using True n(2) by (simp add: orphans_def)
    then obtain t where t: "del (int n) (files s) = Some (SUCCESS, t)" "names_ok t (orphans s - {n})"
      "used_inums t = used_inums (files s) - {n}" "dirs t = dirs (files s)" "tree_of t = tree_of (files s)"
      using delete_orphan[OF d(2)] by metis
    let ?v = "?u\<lparr>files := t\<rparr>"
    have "pending j ?v \<longleftrightarrow> pending j s \<and> j \<noteq> i" for j using pending_drop_fd[of j ?fd i s] True by (simp add: pending_def)
    then have o: "orphans ?v = orphans s - {n}" using n(2) by (auto simp: orphans_def)
    have "opened_ok ?v" unfolding opened_ok_def
    proof (intro allI impI)
      fix x j fl' assume "oft_lookup x ?v = Some (j, fl')"
      then have l: "x \<noteq> ?fd" "oft_lookup x s = Some (j, fl')"
        using drop_fd_lookup[of x ?fd i s] by (auto simp: oft_lookup_def split: if_splits)
      obtain m where m: "m \<in> used_inums (files s)" "j = int m" "m \<in> dirs (files s) \<Longrightarrow> fl' AND O_ACCMODE = O_RDONLY"
        using opened_okD[OF d(3) l(2)] by metis
      have "m \<noteq> n" using last_descriptor[OF d(1) _ r, of x fl'] True l m(2) n(2) by blast
      then show "\<exists>n \<in> used_inums (files ?v). j = int n \<and> (n \<in> dirs (files ?v) \<longrightarrow> fl' AND O_ACCMODE = O_RDONLY)"
        using m t(3,4) by auto
    qed
    then have "system_ok ?v" using drop_fd_ok(1)[OF d(1) r] t(2) o by (simp add: system_ok_def)
    then show ?thesis using rm True t(1,5) n(2) by (auto simp: fs_release_def)
  qed
qed

section \<open>Unlinking\<close>

lemma open_used:
  assumes "oft_ok s" "int n \<in> on_inum ` set (oft_inodes s)"
  shows "\<exists>fd fl. oft_lookup fd s = Some (int n, fl)"
proof -
  obtain m where m: "m \<in> set (oft_inodes s)" "on_inum m = int n" using assms(2) by auto
  have "card (open_fds (int n) s) > 0" using refs_pos[OF assms(1) m(1)] refs_card[OF assms(1), of "int n"] m(2) by simp
  then have "open_fds (int n) s \<noteq> {}" by auto
  then show ?thesis by (auto simp: open_fds_def)
qed

lemma pending_mark:
  assumes "int n \<in> on_inum ` set (oft_inodes s)"
  shows "orphans (s\<lparr>files := u, oft_inodes := upd_inode (int n) (\<lambda>n. n\<lparr>on_pending_deletion := True\<rparr>) (oft_inodes s)\<rparr>) =
    insert n (orphans s)"
proof -
  have "(\<exists>m \<in> set (upd_inode (int n) (\<lambda>n. n\<lparr>on_pending_deletion := True\<rparr>) (oft_inodes s)).
      on_inum m = int l \<and> on_pending_deletion m) \<longleftrightarrow>
    l = n \<or> (\<exists>m \<in> set (oft_inodes s). on_inum m = int l \<and> on_pending_deletion m)" for l
  proof (cases "l = n")
    case True
    then show ?thesis
      using assms upd_inode_ex[of "\<lambda>n. n\<lparr>on_pending_deletion := True\<rparr>" "int n" "oft_inodes s" on_pending_deletion] by auto
  next
    case False
    then show ?thesis unfolding upd_inode_def set_map bex_simps by (auto intro!: bex_cong)
  qed
  then show ?thesis by (auto simp: orphans_def pending_def)
qed

text \<open>After the name was removed: the file is marked or deleted.\<close>

lemma attempt_delete:
  assumes s: "system_ok s" and n: "n \<in> used_inums (files s) - orphans s" "n \<notin> dirs (files s)"
    and u: "names_ok u (insert n (orphans s))" "used_inums u = used_inums (files s)" "dirs u = dirs (files s)"
  shows "\<exists>b t. oft_attempt_delete (int n) (s\<lparr>files := u\<rparr>) = Some (b, t) \<and> system_ok t \<and> tree_of (files t) = tree_of u"
proof -
  note d = system_okD[OF s]
  have ok: "oft_ok (s\<lparr>files := u\<rparr>)" using d(1) by simp
  note eq = oft_attempt_delete_eq[OF ok, of "int n"]
  show ?thesis
  proof (cases "int n \<in> on_inum ` set (oft_inodes s)")
    case True
    let ?t = "s\<lparr>files := u, oft_inodes := upd_inode (int n) (\<lambda>n. n\<lparr>on_pending_deletion := True\<rparr>) (oft_inodes s)\<rparr>"
    have "opened_ok ?t" using d(3) unfolding opened_ok_def by (simp add: oft_lookup_def u(2,3))
    then have "system_ok ?t"
      using oft_mark_ok[OF ok, of "int n"] u(1) pending_mark[OF True, of u] by (simp add: system_ok_def)
    then show ?thesis using eq True by auto
  next
    case False
    obtain t where t: "del (int n) u = Some (SUCCESS, t)" "names_ok t (insert n (orphans s) - {n})"
      "used_inums t = used_inums u - {n}" "dirs t = dirs u" "tree_of t = tree_of u"
      using delete_orphan[OF u(1), of n] by auto
    have o: "orphans (s\<lparr>files := t\<rparr>) = orphans s" by (simp add: orphans_def pending_def)
    have "opened_ok (s\<lparr>files := t\<rparr>)" unfolding opened_ok_def
    proof (intro allI impI)
      fix x j fl assume "oft_lookup x (s\<lparr>files := t\<rparr>) = Some (j, fl)"
      then have l: "oft_lookup x s = Some (j, fl)" by (simp add: oft_lookup_def)
      obtain m where m: "m \<in> used_inums (files s)" "j = int m" "m \<in> dirs (files s) \<Longrightarrow> fl AND O_ACCMODE = O_RDONLY"
        using opened_okD[OF d(3) l] by metis
      have "\<lparr>of_fd = x, of_inum = int m, of_flags = fl\<rparr> \<in> set (oft_fds s)"
        using l lookup_fd_iff[OF oft_okD(1)[OF d(1)]] m(2) by (simp add: oft_lookup_def)
      then have "int m \<in> on_inum ` set (oft_inodes s)" using oft_okD(3)[OF d(1)] by fastforce
      then have "m \<noteq> n" using False by auto
      then show "\<exists>n \<in> used_inums (files (s\<lparr>files := t\<rparr>)). j = int n \<and>
          (n \<in> dirs (files (s\<lparr>files := t\<rparr>)) \<longrightarrow> fl AND O_ACCMODE = O_RDONLY)"
        using m t(3,4) u(2,3) by auto
    qed
    moreover have "insert n (orphans s) - {n} = orphans s" using n(1) by auto
    ultimately have "system_ok (s\<lparr>files := t\<rparr>)" using d(1) t(2) o by (simp add: system_ok_def)
    then show ?thesis using eq False t(1,5) by auto
  qed
qed

text \<open>The file at the path is gone.\<close>

definition unlinked :: "layer2 \<Rightarrow> layer2 \<Rightarrow> byte list list \<Rightarrow> int \<Rightarrow> bool" where
  "unlinked s t ts ret \<longleftrightarrow> (if ret = 0 then (\<exists>c. tree_of (files s) ts = Some (Plain c)) \<and>
    tree_of (files t) = (tree_of (files s))(ts := None) else tree_of (files t) = tree_of (files s))"

lemma not_unlinked [simp]: "ret \<noteq> 0 \<Longrightarrow> unlinked s s ts ret"
  by (simp add: unlinked_def)

lemma fs_unlink_total:
  assumes s: "system_ok s" and ts: "clean ts"
    and part: "in_parent (\<lambda>n. n mod DIRENTS_PER_BLOCK \<noteq> 1) (fuse_path ts) uid gid (files s)"
  shows "\<exists>ret t. fs_unlink (fuse_path ts) uid gid s = Some (ret, t) \<and> system_ok t \<and>
    (no_dots ts \<longrightarrow> unlinked s t ts ret)"
proof -
  note d = system_okD[OF s]
  note [simp] = c_consts
  from d(2) ts show ?thesis
  proof (cases rule: target_cases[where uid = uid and gid = gid])
    case (error r q n i)
    then show ?thesis using s by (simp add: fs_unlink_def)
  next
    case (missing q i)
    then show ?thesis using s by (simp add: fs_unlink_def)
  next
    case root
    have "valid_inum (files s) 1" "S_ISDIR (i_mode (inode_at (files s) 1))"
      using root(2) dir_okD(3) by (auto simp: dirs_def is_dir_def)
    then show ?thesis using s root local_inode_ok[OF d(4), of 1] by (simp add: fs_unlink_def INVALID_INODE_def)
  next
    case (there k n i)
    have vn: "valid_inum (files s) n" "int n \<noteq> INVALID_INODE" using there(3) by (auto simp: used_inums_def valid_inum_def INVALID_INODE_def)
    obtain r w x where perm: "permissions (int k) uid gid (files s) = (r, w, x)" by (cases "permissions (int k) uid gid (files s)")
    show ?thesis
    proof (cases "n \<in> dirs (files s) \<or> \<not> w")
      case True
      then show ?thesis using s there(1) vn perm names_okD(8)[OF d(2), of n]
        by (auto simp: fs_unlink_def local_inode_ok[OF d(4) vn(1)])
    next
      case False
      have pt: "length (entries_of (files s) k) mod DIRENTS_PER_BLOCK \<noteq> 1" using part there(1) unfolding in_parent_def by blast
      obtain u where u: "remove_dirent (int k) (int i) (files s) = Some (SUCCESS, u)" "volume_ok u"
        "used_inums u = used_inums (files s)" "dirs u = dirs (files s)"
        "entries_of u k = list_remove i (entries_of (files s) k)"
        "\<And>l. l \<in> dirs (files s) \<Longrightarrow> l \<noteq> k \<Longrightarrow> entries_of u l = entries_of (files s) l"
        "\<And>l. l \<in> used_inums (files s) \<Longrightarrow> shown u l = shown (files s) l"
        using remove_change[OF d(2) there(2,4) pt] by metis
      have nd: "n \<notin> dirs (files s)" using False by blast
      note i2 = file_there[OF d(2) there(2,4,5) nd]
      have nu: "names_ok u (insert n (orphans s))"
        by (rule tree_unname[OF d(2) there(2) i2 there(4,5) nd u(2,4,5,6)])
          (use u(3,4) there(3) nd names_okD(2)[OF d(2)] in auto)
      from attempt_delete[OF s there(3) nd nu u(3,4)] obtain b t where
        t: "oft_attempt_delete (int n) (s\<lparr>files := u\<rparr>) = Some (b, t)" "system_ok t" "tree_of (files t) = tree_of u" by blast
      have "unlinked s t ts 0" if clear: "no_dots ts"
      proof -
        obtain us where us: "ts = us @ [name_of (entries_of (files s) k ! i)]" "node_at (files s) 1 us = Some k"
          using there(6)[OF clear] by blast
        have ds: "dirs u = dirs (files s) - {n}" using u(4) nd by simp
        note dr = tree_of_drop[OF d(2) there(2) us(2) i2 there(4) refl there(5) u(5) _ ds, folded us(1)]
        have nt: "node_at (files s) 1 ts = Some n" "tree_of u = cut ts (tree_of (files s))" using u(4,6,7) by (intro dr; simp)+
        have "tree_of (files s) ts = Some (shown (files s) n)" "tree_of u = (tree_of (files s))(ts := None)"
          using nt cut_leaf[OF nt(1)] nd by (simp_all add: tree_of_def)
        then show ?thesis using t(3) nd by (simp add: unlinked_def shown_def)
      qed
      moreover
      have "fs_unlink (fuse_path ts) uid gid s = Some (0, t)"
        using there(1) vn perm False u(1) t(1) names_okD(8)[OF d(2), of n] there(3)
        by (simp add: fs_unlink_def local_inode_ok[OF d(4) vn(1)] on_files_def)
      ultimately show ?thesis using t(2) by blast
    qed
  qed
qed

section \<open>Removing a directory\<close>

text \<open>
  For these directories the whole disk stays in good order.  The code asks for none of it: the directory
  is not named by \<open>.\<close> or \<open>..\<close>, has no entry besides those two, is not open, and the bytes after its entries
  are zero, without which \<open>del\<close> would not free its block.
\<close>

definition proper_rmdir :: "byte list \<Rightarrow> int \<Rightarrow> int \<Rightarrow> layer2 \<Rightarrow> bool" where
  "proper_rmdir path uid gid s \<longleftrightarrow>
    (\<forall>k n i. namei path uid gid (files s) = Some (SUCCESS, int k, int n, i) \<and> is_dir (files s) n \<longrightarrow>
      2 \<le> i \<and> length (entries_of (files s) k) mod DIRENTS_PER_BLOCK \<noteq> 1 \<and> length (entries_of (files s) n) = 2 \<and>
      file_good (files s) (inode_at (files s) n) \<and> open_fds (int n) s = {})"

text \<open>The folder at the path is gone with all that is below it: the code does not ask whether it is empty.\<close>

definition folder_removed :: "layer2 \<Rightarrow> layer2 \<Rightarrow> byte list list \<Rightarrow> int \<Rightarrow> bool" where
  "folder_removed s t ts ret \<longleftrightarrow> (if ret = 0 then tree_of (files s) ts = Some Folder \<and>
    tree_of (files t) = cut ts (tree_of (files s)) else tree_of (files t) = tree_of (files s))"

lemma not_removed [simp]: "ret \<noteq> 0 \<Longrightarrow> folder_removed s s ts ret"
  by (simp add: folder_removed_def)

text \<open>The cases of \<open>fs_rmdir\<close>.\<close>

lemma fs_rmdir_cases:
  assumes s: "system_ok s" and ts: "clean ts"
  obtains (refused) ret where "fs_rmdir (fuse_path ts) uid gid s = Some (ret, s)" "ret \<noteq> 0"
  | (root) "namei (fuse_path ts) uid gid (files s) = Some (SUCCESS, int 1, int 1, 0)" "is_dir (files s) 1" "ts = []"
  | (dir) k n i where "namei (fuse_path ts) uid gid (files s) = Some (SUCCESS, int k, int n, int i)" "k \<in> dirs (files s)"
    "n \<in> dirs (files s)" "i < length (entries_of (files s) k)" "n = entry_inum (entries_of (files s) k ! i)"
    "no_dots ts \<Longrightarrow> \<exists>us. ts = us @ [name_of (entries_of (files s) k ! i)] \<and> node_at (files s) 1 us = Some k"
    "\<And>u t. remove_dirent (int k) (int i) (files s) = Some (SUCCESS, u) \<Longrightarrow> del (int n) u = Some (SUCCESS, t) \<Longrightarrow>
      fs_rmdir (fuse_path ts) uid gid s = Some (0, s\<lparr>files := t\<rparr>)"
proof -
  note d = system_okD[OF s]
  note [simp] = c_consts
  from d(2) ts show thesis
  proof (cases rule: target_cases[where uid = uid and gid = gid])
    case (error r q n i)
    then show thesis using refused[of r] by (simp add: fs_rmdir_def)
  next
    case (missing q i)
    then show thesis using refused[of "- ENOENT"] by (simp add: fs_rmdir_def)
  next
    case root
    then show thesis using that(2) by (simp add: dirs_def)
  next
    case (there k n i)
    have vn: "valid_inum (files s) n" "int n \<noteq> INVALID_INODE" using there(3) by (auto simp: used_inums_def valid_inum_def INVALID_INODE_def)
    obtain r w x where perm: "permissions (int k) uid gid (files s) = (r, w, x)" by (cases "permissions (int k) uid gid (files s)")
    note nd = names_okD(8)[OF d(2), of n]
    show thesis
    proof (cases "n \<in> dirs (files s) \<and> w")
      case False
      then obtain ret where "fs_rmdir (fuse_path ts) uid gid s = Some (ret, s)" "ret \<noteq> 0"
        using there(1,3) vn perm nd by (cases "n \<in> dirs (files s)") (simp_all add: fs_rmdir_def local_inode_ok[OF d(4) vn(1)])
      then show thesis by (rule refused)
    next
      case True
      have "fs_rmdir (fuse_path ts) uid gid s = Some (0, s\<lparr>files := t\<rparr>)"
        if "remove_dirent (int k) (int i) (files s) = Some (SUCCESS, u)" "del (int n) u = Some (SUCCESS, t)" for u t
        using there(1,3) vn perm nd True that by (simp add: fs_rmdir_def local_inode_ok[OF d(4) vn(1)] on_files_def)
      then show thesis using dir[OF there(1,2) _ there(4,5,6)] True by blast
    qed
  qed
qed

lemma rmdir_tree:
  assumes t: "names_ok s lost" and k: "k \<in> dirs s" and i: "2 \<le> i" "i < length (entries_of s k)"
    and part: "length (entries_of s k) mod DIRENTS_PER_BLOCK \<noteq> 1" and n: "n = entry_inum (entries_of s k ! i)" "n \<in> dirs s"
    and us: "ts = us @ [name_of (entries_of s k ! i)]" "node_at s 1 us = Some k"
  obtains u t where "remove_dirent (int k) (int i) s = Some (SUCCESS, u)" "del (int n) u = Some (SUCCESS, t)"
    "tree_of s ts = Some Folder" "tree_of t = cut ts (tree_of s)"
proof -
  obtain u where u: "remove_dirent (int k) (int i) s = Some (SUCCESS, u)" "volume_ok u" "used_inums u = used_inums s"
    "dirs u = dirs s" "entries_of u k = list_remove i (entries_of s k)"
    "\<And>l. l \<in> dirs s \<Longrightarrow> l \<noteq> k \<Longrightarrow> entries_of u l = entries_of s l"
    "\<And>l. l \<in> used_inums s \<Longrightarrow> shown u l = shown s l"
    using remove_change[OF t k i(2) part] by metis
  obtain t where t: "del (int n) u = Some (SUCCESS, t)" "dirs t = dirs u - {n}"
    "\<And>l. l \<in> dirs t \<Longrightarrow> entries_of t l = entries_of u l" "\<And>l. l \<in> used_inums u - {n} \<Longrightarrow> shown t l = shown u l"
    using del_dir[OF u(2), of n] n(2) u(4) by metis
  have node: "node_at s 1 ts = Some n" using node_there[OF _ \<open>names_ok s lost\<close> k i] us n(1) by blast
  then have "k \<noteq> n" using one_path[OF \<open>names_ok s lost\<close> us(2)] us(1) by auto
  then have ds: "dirs t = dirs s - {n}" and kt: "k \<in> dirs t" using t(2) u(4) k by simp_all
  have ek: "entries_of t k = list_remove i (entries_of s k)" using t(3)[OF kt] u(5) by simp
  have es: "entries_of t l = entries_of s l" if "l \<in> dirs t" "l \<noteq> k" for l using t(3) u(6) ds that by auto
  have sh: "shown t l = shown s l" if "l \<in> used_inums s - lost" "l \<noteq> n" for l using that t(4)[of l] u(3) u(7)[of l] by simp
  have "tree_of t = cut ts (tree_of s)"
    using tree_of_drop(2)[OF \<open>names_ok s lost\<close> k us(2) i refl n(1) ek es ds sh] unfolding us(1) by simp
  moreover have "tree_of s ts = Some Folder" using node n(2) by (simp add: tree_of_def shown_def)
  ultimately show thesis using that[OF u(1) t(1)] by blast
qed

lemma fs_rmdir_tree:
  assumes s: "system_ok s" and ts: "clean ts" "no_dots ts" "ts \<noteq> []"
    and part: "in_parent (\<lambda>n. n mod DIRENTS_PER_BLOCK \<noteq> 1) (fuse_path ts) uid gid (files s)"
  shows "\<exists>ret t. fs_rmdir (fuse_path ts) uid gid s = Some (ret, t) \<and> folder_removed s t ts ret"
  using s ts(1)
proof (cases rule: fs_rmdir_cases[where uid = uid and gid = gid])
  case (refused ret)
  then show ?thesis by simp
next
  case root
  then show ?thesis using ts(3) by simp
next
  case (dir k n i)
  note t = system_okD(2)[OF s]
  have i: "2 \<le> i" by (rule index_there[OF dir(6) ts(2) t dir(2)])
  have pt: "length (entries_of (files s) k) mod DIRENTS_PER_BLOCK \<noteq> 1" using part dir(1) unfolding in_parent_def by blast
  obtain us where us: "ts = us @ [name_of (entries_of (files s) k ! i)]" "node_at (files s) 1 us = Some k"
    using dir(6)[OF ts(2)] by blast
  obtain u t where u: "remove_dirent (int k) (int i) (files s) = Some (SUCCESS, u)" "del (int n) u = Some (SUCCESS, t)"
    "tree_of (files s) ts = Some Folder" "tree_of t = cut ts (tree_of (files s))"
    by (rule rmdir_tree[OF t dir(2) i dir(4) pt dir(5,3) us])
  have "folder_removed s (s\<lparr>files := t\<rparr>) ts 0" using u(3,4) by (simp add: folder_removed_def)
  then show ?thesis using dir(7)[OF u(1,2)] by blast
qed

lemma rmdir_change:
  assumes t: "names_ok s lost" and k: "k \<in> dirs s" and i: "2 \<le> i" "i < length (entries_of s k)"
    and part: "length (entries_of s k) mod DIRENTS_PER_BLOCK \<noteq> 1"
    and n: "n = entry_inum (entries_of s k ! i)" "n \<in> dirs s" "length (entries_of s n) = 2" "file_good s (inode_at s n)"
  obtains u t where "remove_dirent (int k) (int i) s = Some (SUCCESS, u)" "del (int n) u = Some (SUCCESS, t)"
    "names_ok t lost" "used_inums t = used_inums s - {n}" "dirs t = dirs s - {n}"
proof -
  note d = names_okD[OF t]
  obtain u where u: "remove_dirent (int k) (int i) s = Some (SUCCESS, u)" "volume_ok u" "used_inums u = used_inums s"
    "dirs u = dirs s" "entries_of u k = list_remove i (entries_of s k)"
    "\<And>l. l \<in> dirs s \<Longrightarrow> l \<noteq> k \<Longrightarrow> entries_of u l = entries_of s l"
    "\<And>l. l \<in> used_inums s - {k} \<Longrightarrow> file_good s (inode_at s l) \<Longrightarrow> file_good u (inode_at u l)"
    using remove_change[OF t k i(2) part] by metis
  have nu: "n \<in> used_inums u" using n(2) d(8) u(3) by blast
  have kn: "kids s n = []" using n(3) by (simp add: kids_def)
  have nk: "n \<noteq> k" using entry_cases(3)[OF t k i(2,1)] kn n(1) by (metis empty_iff empty_set)
  have g: "file_good u (inode_at u n)" using u(3) u(7)[of n] nu nk n(4) by simp
  obtain t where t: "del (int n) u = Some (SUCCESS, t)" "volume_ok t" "used_inums t = used_inums u - {n}"
    "dirs t = dirs u - {n}" "\<And>l. l \<in> dirs t \<Longrightarrow> entries_of t l = entries_of u l"
    using del_change[OF u(2) nu g] by metis
  have ds: "dirs t = dirs s - {n}" "used_inums t = used_inums s - {n}" using t(3,4) u(3,4) by simp_all
  have "k \<in> dirs t" using ds(1) k nk by blast
  then have es: "entries_of t k = list_remove i (entries_of s k)"
    "\<And>l. l \<in> dirs t \<Longrightarrow> l \<noteq> k \<Longrightarrow> entries_of t l = entries_of s l" using t(5) u(5,6) ds(1) by auto
  have nt: "names_ok t lost"
    by (rule tree_rmdir[OF \<open>names_ok s lost\<close> k i n(1,2) nk kn t(2) ds(1) es ds(2)])
  from that[OF u(1) t(1) nt ds(2,1)] show thesis .
qed

lemma fs_rmdir_total:
  assumes s: "system_ok s" and ts: "clean ts" and p: "proper_rmdir (fuse_path ts) uid gid s"
  shows "\<exists>ret t. fs_rmdir (fuse_path ts) uid gid s = Some (ret, t) \<and> system_ok t"
  using s ts
proof (cases rule: fs_rmdir_cases[where uid = uid and gid = gid])
  case (refused ret)
  then show ?thesis using s by simp
next
  case root
  then have "\<not> (2 \<le> (0 :: int))" by simp
  then show ?thesis using p root(1,2) unfolding proper_rmdir_def by blast
next
  case (dir k n i)
  note d = system_okD[OF s]
  have q: "2 \<le> i" "length (entries_of (files s) k) mod DIRENTS_PER_BLOCK \<noteq> 1"
    "length (entries_of (files s) n) = 2" "file_good (files s) (inode_at (files s) n)" "open_fds (int n) s = {}"
    using p dir(1,3) unfolding proper_rmdir_def by (auto simp: dirs_def)
  obtain u t where u: "remove_dirent (int k) (int i) (files s) = Some (SUCCESS, u)" "del (int n) u = Some (SUCCESS, t)"
    and t: "names_ok t (orphans s)" "used_inums t = used_inums (files s) - {n}" "dirs t = dirs (files s) - {n}"
    by (rule rmdir_change[OF d(2) dir(2) q(1) dir(4) q(2) dir(5,3) q(3,4)])
  have "orphans (s\<lparr>files := t\<rparr>) = orphans s" by (simp add: orphans_def pending_def)
  moreover have "opened_ok (s\<lparr>files := t\<rparr>)" unfolding opened_ok_def
  proof (intro allI impI)
    fix fd j fl assume "oft_lookup fd (s\<lparr>files := t\<rparr>) = Some (j, fl)"
    then have l: "oft_lookup fd s = Some (j, fl)" by (simp add: oft_lookup_def)
    obtain m where m: "m \<in> used_inums (files s)" "j = int m" "m \<in> dirs (files s) \<Longrightarrow> fl AND O_ACCMODE = O_RDONLY"
      using opened_okD[OF d(3) l] by metis
    have "m \<noteq> n" using l m(2) q(5) by (auto simp: open_fds_def)
    then show "\<exists>n \<in> used_inums (files (s\<lparr>files := t\<rparr>)). j = int n \<and>
        (n \<in> dirs (files (s\<lparr>files := t\<rparr>)) \<longrightarrow> fl AND O_ACCMODE = O_RDONLY)"
      using m t(2,3) by auto
  qed
  ultimately have "system_ok (s\<lparr>files := t\<rparr>)" using d(1) t(1) by (simp add: system_ok_def)
  then show ?thesis using dir(7)[OF u] by blast
qed

section \<open>The handlers that only look\<close>

lemma fs_getattr_total:
  assumes s: "system_ok s" and ts: "clean ts"
  shows "\<exists>r. fs_getattr (fuse_path ts) uid gid s0 s = Some r"
  using system_okD(2)[OF s] ts
  by (cases rule: namei_total[where uid = uid and gid = gid]) (auto simp: fs_getattr_def Let_def split: prod.split)

lemma fs_readdir_total:
  assumes s: "system_ok s" and ts: "clean ts"
  shows "\<exists>r. fs_readdir (fuse_path ts) buf filler uid gid s0 s = Some r"
proof -
  note d = system_okD[OF s]
  have target: "\<exists>r. fs_readdir (fuse_path ts) buf filler uid gid s0 s = Some r"
    if nm: "namei (fuse_path ts) uid gid (files s) = Some (SUCCESS, q, int n, i)" and n: "n \<in> used_inums (files s)" for q n i
  proof (cases "n \<in> dirs (files s)")
    case True
    then have k: "valid_inum (files s) n" "dir_ok (files s) (inode_at (files s) n)" by (simp_all add: dirs_def is_dir_def)
    then show ?thesis
      using nm readdir_pages_spec[OF d(4) k, of 0 "uninit BLOCK_SIZE (files s)" 0 filler s0 buf] dir_okD(3)[OF k(2)]
      by (auto simp: fs_readdir_def local_inode_ok[OF d(4) k(1)])
  next
    case False
    then have nd: "n \<in> used_inums (files s) - dirs (files s)" using n by simp
    note f = tree_file[OF d(2) nd]
    show ?thesis using nm f(2) by (auto simp: fs_readdir_def local_inode_ok[OF d(4) f(1)])
  qed
  from d(2) ts show ?thesis
  proof (cases rule: target_cases[where uid = uid and gid = gid])
    case (error r q n i)
    then show ?thesis by (simp add: fs_readdir_def)
  next
    case (missing q i)
    then show ?thesis by (simp add: fs_readdir_def)
  next
    case root
    then show ?thesis using target[of 1 1 0] names_okD(8)[OF d(2), of 1] by simp
  next
    case (there k n i)
    then show ?thesis using target by blast
  qed
qed

lemma fs_read_total:
  assumes s: "system_ok s" and n: "n \<le> length buf" "n < 2 ^ 64"
  shows "\<exists>r. fs_read buf (int n) (int off) (Some fi) s = Some r"
proof (cases "oft_lookup (c_int (fi_fh fi)) s")
  case None
  then show ?thesis by (simp add: fs_read_def)
next
  case (Some r)
  obtain i fl where r: "oft_lookup (c_int (fi_fh fi)) s = Some (i, fl)" using Some by (cases r) simp
  note d = system_okD[OF s]
  obtain k where k: "k \<in> used_inums (files s)" "i = int k" using opened_okD[OF d(3) r] by metis
  let ?ino = "inode_at (files s) k"
  have ok: "node_ok (files s) k" using volume_okD(2)[OF names_okD(1)[OF d(2)] k(1)] .
  have sz: "file_size ?ino < 2 ^ 31" using ok dir_okD(4) file_goodD(3) unfolding node_ok_def by (metis (no_types))
  have v: "valid_inum (files s) k" using k(1) by (simp add: used_inums_def)
  have "min n (file_size ?ino - off) \<le> length buf" using n(1) by simp
  from read_i_spec[OF d(4) v node_okD(1)[OF ok] sz n(2) this]
  show ?thesis using r k(2) by (auto simp: fs_read_def Let_def)
qed

text \<open>Reading through a descriptor.\<close>

lemma fs_read_opened:
  assumes s: "system_ok s" and p: "opened_at s (c_int (fi_fh fi)) p" "tree_of (files s) p = Some (Plain c)"
    and fl: "fi_flags fi AND O_ACCMODE = O_RDONLY \<or> fi_flags fi AND O_ACCMODE = O_RDWR"
    and n: "n < 2 ^ 64" "length (window off n c) \<le> length buf"
  shows "fs_read buf (int n) (int off) (Some fi) s = Some (int (length (window off n c)), overlay 0 (window off n c) buf)"
proof -
  note d = system_okD[OF s]
  obtain k f where k: "oft_lookup (c_int (fi_fh fi)) s = Some (int k, f)" "node_at (files s) 1 p = Some k"
    using p(1) by (auto simp: opened_at_def)
  have c: "c = file_contents (files s) k" "k \<notin> dirs (files s)"
    using p(2) k(2) by (auto simp: tree_of_def shown_def split: if_splits)
  have ku: "k \<in> used_inums (files s) - dirs (files s)" using node_named[OF d(2) k(2)] c(2) by simp
  note f = tree_file[OF d(2) ku]
  have "read_i (int k) (Some buf) (int off) (int n) (files s) =
      Some (int (length (window off n c)), overlay 0 (window off n c) buf)"
    using read_i_spec[OF d(4) f(1) file_goodD(1,3)[OF f(3)] n(1)] n(2) by (simp add: window_file_contents c(1))
  then show ?thesis using fl k(1) by (auto simp: fs_read_def Let_def)
qed

section \<open>A formatted disk\<close>

lemma mkfs_tree:
  assumes "4 \<le> blocks" "0 \<le> uid" "0 \<le> gid" and f: "mkfs True blocks uid gid s = (SUCCESS, t)"
  shows "names_ok t {}"
proof -
  obtain b t' where t': "mkfs True blocks uid gid s = (SUCCESS, t')" and b': "fs_ok t'" "nblocks t' = min (nat blocks) MAX_FS_SIZE"
    "ninodes t' = (isize (nblocks t') - bsize (nblocks t')) * INODES_PER_BLOCK" "valid_data t' b"
    "free_data t' = {1..ndata t'} - {b}" "free_inums t' = {2..ninodes t'}"
    "inode_at t' 1 = dir_inode S_IRWXUGO uid gid (int b)" "dir_base_block 1 0 (data_blk t' b)"
    using mkfs_spec[OF assms(1-3), of s] by blast
  have "t' = t" using t' f by simp
  then have b: "fs_ok t" "nblocks t = min (nat blocks) MAX_FS_SIZE"
    "ninodes t = (isize (nblocks t) - bsize (nblocks t)) * INODES_PER_BLOCK" "valid_data t b"
    "free_data t = {1..ndata t} - {b}" "free_inums t = {2..ninodes t}" "inode_at t 1 = dir_inode S_IRWXUGO uid gid (int b)"
    "dir_base_block 1 0 (data_blk t b)" using b' by simp_all
  have m: "mounted t" using b(1) by (rule fs_ok_mounted)
  have n: "4 \<le> nblocks t" "nblocks t \<le> MAX_FS_SIZE" using b(2) assms(1) by (auto simp: MAX_FS_SIZE_def)
  have "1 \<le> ninodes t" unfolding b(3) using sizes_bounds(5)[OF n] by (simp add: INODES_PER_BLOCK_eq)
  then have "{k. valid_inum t k} - {2..ninodes t} = {1}" by (auto simp: valid_inum_def)
  then have u: "used_inums t = {1}" unfolding used_inums_def b(6) .
  have vb: "b \<notin> free_data t" "b < 2 ^ 32" using valid_data_range(4)[OF m b(4)] by (simp_all add: b(5))
  have one: "(word_of_nat 1 :: u32) \<noteq> 0" by simp
  note d = base_dir[OF b(4) vb b(8,7) S_IRWXUGO_mode one]
  have dok: "dir_ok t (inode_at t 1)" "owned t 1 = {b}" "base_entries 1 0 (entries_of t 1)"
    using d by (simp_all add: owned_def entries_of_def)
  have "node_ok t 1" using dok(1) dir_okD(3)[OF dok(1)] by (simp add: node_ok_def)
  moreover have "{x. valid_data t x} = free_data t \<union> {b}"
  proof -
    have "{x. valid_data t x} = {1..ndata t}" "b \<in> {1..ndata t}" using b(4) by (auto simp: valid_data_def)
    then show ?thesis unfolding b(5) by blast
  qed
  ultimately have v: "volume_ok t" unfolding volume_ok_def u using b(1) dok(2) by simp
  have "k \<in> dirs t \<longleftrightarrow> k = 1" for k using used_is_dir[OF v, of k] dir_okD(3)[OF dok(1)] by (auto simp: dirs_def u)
  then have ds: "dirs t = {1}" by blast
  obtain e g where e: "entries_of t 1 = [e, g]" "name_of e = DOT" "name_of g = DOT_DOT"
    "de_inode_num e = 1" "de_inode_num g = 1" using dok(3) by (auto simp: base_entries_def name_of_def)
  have "DOT \<noteq> DOT_DOT" by (simp add: DOT_def DOT_DOT_def)
  then have "dir_wf t 1" using e by (simp add: dir_wf_def parent_of_def entry_inum_def ds)
  moreover have "kids t 1 = []" using e(1) by (simp add: kids_def)
  ultimately show ?thesis using v by (simp add: names_ok_def ds u name_tree_def)
qed

lemma mkfs_system:
  assumes "4 \<le> blocks" "0 \<le> uid" "0 \<le> gid" "mkfs True blocks uid gid f = (SUCCESS, t)"
  shows "system_ok \<lparr>files = t, oft_inodes = [], oft_fds = []\<rparr>"
proof -
  let ?s = "\<lparr>files = t, oft_inodes = [], oft_fds = []\<rparr>"
  have "orphans ?s = {}" "opened_ok ?s" by (simp_all add: orphans_def pending_def opened_ok_def oft_lookup_def)
  then show ?thesis using mkfs_tree[OF assms] by (simp add: system_ok_def oft_ok_empty)
qed

end
