(* ===== verification/VolumeQueries.thy ===== *)
theory VolumeQueries
  imports VolumeHandlers
begin

text \<open>
  What the handlers that do not change the disk say about the tree: \<open>fs_getattr\<close> about the node at a path,
  \<open>fs_readdir\<close> about the names in a folder.
\<close>

section \<open>namei and the tree\<close>

lemma namei_loop_node:
  assumes t: "names_ok s lost" and k: "k \<in> used_inums s" and ts: "\<forall>x \<in> set ts. is_cstr x" "no_dots ts"
    and r: "namei_loop ts uid gid p (int k) index s = Some (r, q, n, i)"
  shows "(r = SUCCESS \<longrightarrow> n = (case node_at s k ts of None \<Rightarrow> 0 | Some m \<Rightarrow> int m)) \<and> (r = - ENOENT \<longrightarrow> node_at s k ts = None)"
  using k ts r
proof (induction ts arbitrary: k p index)
  case (Cons x xs)
  note d = names_okD[OF t]
  have k: "valid_inum s k" "k \<noteq> 0" using Cons.prems(1) by (auto simp: used_inums_def valid_inum_def)
  note perm = permissions_eq[OF d(6) k(1)]
  consider (long) "MAX_FILENAME < length x" | (forbidden) "length x \<le> MAX_FILENAME" "\<not> may_search s uid gid k"
    | (plain) "length x \<le> MAX_FILENAME" "may_search s uid gid k" "\<not> S_ISDIR (i_mode (inode_at s k))"
    | (dir) "valid_name x" "may_search s uid gid k" "k \<in> dirs s"
    using Cons.prems(1,2) d(8) by (cases "MAX_FILENAME < length x") (auto simp: valid_name_def)
  then show ?case
  proof cases
    case long
    then show ?thesis using k Cons.prems(4) by (simp add: Let_def c_consts)
  next
    case forbidden
    then show ?thesis using k Cons.prems(4) by (auto simp: perm may_search_def Let_def c_consts split: if_splits)
  next
    case plain
    then show ?thesis using k Cons.prems(4)
      by (simp add: perm may_search_def search_by_name_def local_inode_ok[OF d(6) k(1)] Let_def c_consts)
  next
    case dir
    then have isd: "is_dir s k" by (simp add: dirs_def)
    note step = namei_loop_dir[OF d(6) isd dir(2,1) k(2), of xs p index]
    note link = find_link[OF d(3)[OF dir(3)], of x]
    show ?thesis
    proof (cases "dir_find x (entries_of s k)")
      case None
      then have "node_at s k (x # xs) = None" using link Cons.prems(3) by simp
      then show ?thesis using step None Cons.prems(4) by (cases xs) auto
    next
      case (Some i)
      have i: "i < length (entries_of s k)" using first_index_lt Some by (simp add: dir_find_def)
      note e = entry_cases(1,4)[OF t dir(3) i]
      have "node_at s k (x # xs) = node_at s (entry_inum (entries_of s k ! i)) xs" using link Some Cons.prems(3) dir(3) by simp
      then show ?thesis using Cons.IH[of "entry_inum (entries_of s k ! i)"] step Some e Cons.prems by auto
    qed
  qed
qed (simp add: c_consts)

lemma namei_node:
  assumes t: "names_ok s lost" and ts: "clean ts" "no_dots ts" and r: "namei (fuse_path ts) uid gid s = Some (r, q, n, i)"
  obtains (none) "r = SUCCESS" "n = 0" "tree_of s ts = None"
  | (node) m where "r = SUCCESS" "n = int m" "n \<noteq> 0" "node_at s 1 ts = Some m"
  | (error) "r \<noteq> SUCCESS" "r = - ENOENT \<longrightarrow> tree_of s ts = None"
proof -
  have c: "\<forall>x \<in> set ts. is_component x" "\<forall>x \<in> set ts. is_cstr x" using ts(1) by (simp_all add: clean_def)
  have one: "1 \<in> used_inums s" using names_okD(7,8)[OF t] by blast
  have "namei (fuse_path ts) uid gid s = namei_loop ts uid gid 1 (int 1) 0 s"
  proof (cases "ts = []")
    case True
    have "strtok [SLASH] = []" by (simp add: strtok.simps)
    then show ?thesis using True by (simp add: fuse_path_def namei_def)
  qed (simp add: fuse_path_def namei_def strtok_path[OF c(1)])
  with namei_loop_node[OF t one c(2) ts(2)] r
  have "(r = SUCCESS \<longrightarrow> n = (case node_at s 1 ts of None \<Rightarrow> 0 | Some m \<Rightarrow> int m)) \<and> (r = - ENOENT \<longrightarrow> node_at s 1 ts = None)"
    by metis
  moreover have "m \<noteq> 0" if "node_at s 1 ts = Some m" for m
    using node_named[OF t that] by (auto simp: used_inums_def valid_inum_def)
  ultimately show thesis using that by (cases "node_at s 1 ts"; cases "r = SUCCESS") (auto simp: tree_of_def)
qed

section \<open>fs_getattr\<close>

definition describes :: "c_stat \<Rightarrow> fs_node \<Rightarrow> bool" where
  "describes st nd = (case nd of Folder \<Rightarrow> S_ISDIR (st_mode st)
    | Plain c \<Rightarrow> \<not> S_ISDIR (st_mode st) \<and> st_size st = int (length c))"

lemma get_stat_describes:
  assumes t: "names_ok s lost" and n: "n \<in> used_inums s"
  shows "describes (get_stat s0 (int n) s) (shown s n)"
proof -
  have v: "valid_inum s n" using n by (simp add: used_inums_def)
  show ?thesis
    using n names_okD(8)[OF t, of n] by (simp add: describes_def shown_def get_stat_def local_inode_ok[OF names_okD(6)[OF t] v] file_size_def)
qed

lemma fs_getattr_node:
  assumes s: "system_ok s" and ts: "clean ts" "no_dots ts" and r: "fs_getattr (fuse_path ts) uid gid s0 s = Some (ret, st)"
  shows "ret = - ENOENT \<Longrightarrow> tree_of (files s) ts = None"
    "ret = 0 \<Longrightarrow> \<exists>a nd. st = Some a \<and> tree_of (files s) ts = Some nd \<and> describes a nd"
proof -
  note t = system_okD(2)[OF s]
  obtain e q n i where e: "namei (fuse_path ts) uid gid (files s) = Some (e, q, n, i)"
    using r by (auto simp: fs_getattr_def split: option.splits)
  from t ts e have "(ret = - ENOENT \<longrightarrow> tree_of (files s) ts = None) \<and>
    (ret = 0 \<longrightarrow> (\<exists>a nd. st = Some a \<and> tree_of (files s) ts = Some nd \<and> describes a nd))"
  proof (cases rule: namei_node)
    case none
    then show ?thesis using r e by (simp add: fs_getattr_def INVALID_INODE_def c_consts)
  next
    case error
    then show ?thesis using r e by (simp add: fs_getattr_def c_consts)
  next
    case (node m)
    have "describes (get_stat s0 n (files s)) (shown (files s) m)"
      unfolding node(2) using get_stat_describes[OF t] node_named[OF t node(4)] by simp
    then show ?thesis using r e node
      by (auto simp: fs_getattr_def INVALID_INODE_def tree_of_def c_consts split: if_splits prod.splits)
  qed
  then show "ret = - ENOENT \<Longrightarrow> tree_of (files s) ts = None"
    "ret = 0 \<Longrightarrow> \<exists>a nd. st = Some a \<and> tree_of (files s) ts = Some nd \<and> describes a nd" by simp_all
qed

section \<open>fs_readdir\<close>

text \<open>A filler with room for all names.\<close>

definition collect :: "byte list list \<Rightarrow> byte list \<Rightarrow> c_stat \<Rightarrow> int \<Rightarrow> byte list list \<times> bool" where
  "collect names name st off = (names @ [name], False)"

lemma fill_collect: "fill_list es collect s0 names s = Inr (names @ map name_of es)"
  by (induction es arbitrary: names) (simp_all add: collect_def name_of_def)

lemma folder_names:
  assumes t: "names_ok s lost" and k: "k \<in> dirs s" "node_at s 1 ts = Some k"
  shows "distinct (map name_of (entries_of s k))"
    "set (map name_of (entries_of s k)) = {DOT, DOT_DOT} \<union> {x. tree_of s (ts @ [x]) \<noteq> None}"
proof -
  have w: "dir_wf s k" by (rule names_okD(3)[OF t k(1)])
  then show "distinct (map name_of (entries_of s k))" by (simp add: dir_wf_def)
  obtain e f es where e: "entries_of s k = e # f # es" "name_of e = DOT" "name_of f = DOT_DOT"
    using w by (cases "entries_of s k"; cases "tl (entries_of s k)") (auto simp: dir_wf_def)
  have "tree_of s (ts @ [x]) \<noteq> None \<longleftrightarrow> x \<in> fst ` set (links_of s k)" for x
    using k map_of_eq_None_iff[of "links_of s k" x] by (simp add: tree_of_def node_at_snoc)
  moreover have "fst ` set (links_of s k) = name_of ` set es" by (force simp: links_of_def e(1))
  ultimately show "set (map name_of (entries_of s k)) = {DOT, DOT_DOT} \<union> {x. tree_of s (ts @ [x]) \<noteq> None}"
    using e by auto
qed

lemma fs_readdir_node:
  assumes s: "system_ok s" and ts: "clean ts" "no_dots ts"
    and r: "fs_readdir (fuse_path ts) [] collect uid gid s0 s = Some (ret, names)"
  shows "ret = - ENOENT \<Longrightarrow> tree_of (files s) ts = None"
    "ret = 0 \<Longrightarrow> tree_of (files s) ts = Some Folder \<and> distinct names \<and>
      set names = {DOT, DOT_DOT} \<union> {x. tree_of (files s) (ts @ [x]) \<noteq> None}"
proof -
  note d = system_okD[OF s]
  obtain e q n i where e: "namei (fuse_path ts) uid gid (files s) = Some (e, q, n, i)"
    using r by (auto simp: fs_readdir_def split: option.splits)
  from d(2) ts e have "(ret = - ENOENT \<longrightarrow> tree_of (files s) ts = None) \<and>
    (ret = 0 \<longrightarrow> tree_of (files s) ts = Some Folder \<and> distinct names \<and>
      set names = {DOT, DOT_DOT} \<union> {x. tree_of (files s) (ts @ [x]) \<noteq> None})"
  proof (cases rule: namei_node)
    case none
    then show ?thesis using r e by (simp add: fs_readdir_def INVALID_INODE_def c_consts)
  next
    case error
    then show ?thesis using r e by (simp add: fs_readdir_def c_consts)
  next
    case m: (node m)
    have mu: "m \<in> used_inums (files s)" using node_named[OF d(2) m(4)] by simp
    then have v: "valid_inum (files s) m" by (simp add: used_inums_def)
    show ?thesis
    proof (cases "m \<in> dirs (files s)")
      case False
      then have "\<not> S_ISDIR (i_mode (inode_at (files s) m))" using names_okD(8)[OF d(2)] mu by blast
      then have "ret = - ENOTDIR" using r e m(1,2,3) by (simp add: fs_readdir_def INVALID_INODE_def local_inode_ok[OF d(4) v])
      then show ?thesis by (simp add: c_consts)
    next
      case True
      then have k: "dir_ok (files s) (inode_at (files s) m)" by (simp add: dirs_def is_dir_def)
      have "ret = 0 \<and> names = map name_of (entries_of (files s) m)"
        using r e m(1,2,3) dir_okD(3)[OF k]
          readdir_pages_spec[OF d(4) v k, of 0 "uninit BLOCK_SIZE (files s)" 0 collect s0 "[]"]
        by (simp add: fs_readdir_def INVALID_INODE_def local_inode_ok[OF d(4) v] fill_collect filled_def entries_of_def)
      then show ?thesis using folder_names[OF d(2) True m(4)] True m(4) by (simp add: tree_of_def shown_def)
    qed
  qed
  then show "ret = - ENOENT \<Longrightarrow> tree_of (files s) ts = None"
    "ret = 0 \<Longrightarrow> tree_of (files s) ts = Some Folder \<and> distinct names \<and>
      set names = {DOT, DOT_DOT} \<union> {x. tree_of (files s) (ts @ [x]) \<noteq> None}" by simp_all
qed

end
