(* ===== verification/Layer2Props.thy ===== *)
theory Layer2Props
  imports HandlerSpec
begin

text \<open>
  The properties of the open file table, of directories and paths, and of the handlers.  The
  witnesses run on the formatted disk of \<open>Layer1Props\<close>, whose root directory is empty, and on the
  same disk after \<open>mknod\<close> of a file \<open>/a\<close>.
\<close>

section \<open>The disks of the witnesses\<close>

lemma formatted_root_num: "valid_inum formatted 1" "1 \<notin> free_inums formatted" "root_block \<notin> free_data formatted"
  by (simp_all add: valid_inum_def formatted_ninodes formatted_free_inums formatted_free_data)

lemmas root = fresh_root[OF formatted_mounted formatted_root_block formatted_root_num(3) formatted_root_dir formatted_root
    formatted_root_num(1,2)]

lemmas root_dir_ok = root(1) and root_entries = root(2) and root_set = root(3) and root_length = root(4)
  and root_permissions = root(5,6)

text \<open>The name \<open>a\<close>, of a path \<open>/a\<close>.\<close>

definition name_a :: "byte list" where
  "name_a = [0x61]"

lemma name_a: "valid_name name_a" "is_component name_a" "name_a \<noteq> DOT" "name_a \<noteq> DOT_DOT"
  by (simp_all add: valid_name_def name_a_def is_cstr_def is_component_def SLASH_def DOT_def DOT_DOT_def c_consts)

lemma root_no_a: "dir_find name_a (entries_of formatted 1) = None"
  by (rule root(9)[OF name_a(3,4)])

lemma root_creatable: "creatable formatted 0 0 [] name_a 1"
  by (rule root(8)[OF name_a(2,1)])

lemma root_small: "dir_size (Suc (length (entries_of formatted 1))) < 2 ^ 31"
  unfolding root_length by (simp add: dir_size_def dir_pos_def c_consts)

lemma root_room: "free_inums formatted \<noteq> {}" "length (entries_of formatted 1) mod DIRENTS_PER_BLOCK \<noteq> 0"
  unfolding root_length by (simp_all add: formatted_free_inums c_consts)

text \<open>The disk after \<open>mknod\<close> of \<open>/a\<close>.\<close>

definition with_a :: layer1 where
  "with_a = snd (the (mknod_fs (path_of [name_a]) 0x1a4 0 0 formatted))"

lemma with_a_facts:
  shows with_a_ok: "fs_ok with_a" and with_a_dir: "is_dir with_a 1" and with_a_inode: "inode_at with_a 2 = file_inode 0x1a4 0 0"
    and with_a_free: "free_inums with_a = {3..459}" and with_a_inum: "valid_inum with_a 2" and with_a_ninodes: "ninodes with_a = 459"
    and with_a_entries: "entries_of with_a 1 = entries_of formatted 1 @ [new_dirent name_a 2]"
    and with_a_permissions: "may_search with_a 0 0 1" "may_write 0 0 (inode_at with_a 1)"
proof -
  have w: "found name_a (entries_of formatted 1) = 0" using root_no_a by (simp add: found_def)
  obtain ret n v where v: "mknod_fs (path_of ([] @ [name_a])) 0x1a4 0 0 formatted = Some (ret, v)" "first_free formatted n"
    "fs_frame {n, 1} (free_data formatted \<union> file_set formatted (inode_at formatted 1)) formatted v" "is_dir v 1"
    "inode_at v n = file_inode 0x1a4 0 0" "free_inums v = free_inums formatted - {n}"
    "entries_of v 1 = entries_of formatted 1 @ [new_dirent name_a (int n)]"
    "same_meta (write_meta (dir_pos (length (entries_of formatted 1))) sizeof_dirent (inode_at formatted 1)) (inode_at v 1)"
    using mknod_spec[OF formatted_ok root_creatable root_permissions(2) w root_room(1) root_small, of "0x1a4"] root_room(2)
    by blast
  have n: "n = 2" using v(2) by (simp add: formatted_first_free)
  have e: "with_a = v" using v(1) by (simp add: with_a_def)
  show "fs_ok with_a" "is_dir with_a 1" "inode_at with_a 2 = file_inode 0x1a4 0 0"
    "entries_of with_a 1 = entries_of formatted 1 @ [new_dirent name_a 2]"
    using fs_frameD(1)[OF v(3)] v(4,5,7) by (simp_all add: e n)
  show "free_inums with_a = {3..459}" unfolding e v(6) n formatted_free_inums by auto
  show "valid_inum with_a 2" "ninodes with_a = 459"
    unfolding e fs_frameD(4,6)[OF v(3)] by (simp_all add: valid_inum_def formatted_ninodes)
  show "may_search with_a 0 0 1" "may_write 0 0 (inode_at with_a 1)"
    using may_search_meta[OF v(8)] same_meta_granted(2)[OF v(8)] root_permissions
    by (simp_all add: e granted_write_meta)
qed

lemma with_a_find: "dir_find name_a (entries_of with_a 1) = Some 2" "length (entries_of with_a 1) = 3"
  "de_inode_num (entries_of with_a 1 ! 2) = 2"
proof -
  have "has_name name_a (new_dirent name_a 2)" using has_name_new[OF name_a(1)] by simp
  then show "dir_find name_a (entries_of with_a 1) = Some 2"
    unfolding with_a_entries using root_no_a root_length by (simp add: dir_find_def first_index_append)
  show "length (entries_of with_a 1) = 3" unfolding with_a_entries using root_length by simp
  show "de_inode_num (entries_of with_a 1 ! 2) = 2"
    unfolding with_a_entries using root_length by (simp add: nth_append new_dirent_def)
qed

lemma with_a_file: "file_good with_a (inode_at with_a 2)" "file_set with_a (inode_at with_a 2) = {}"
  "\<not> S_ISDIR (i_mode (inode_at with_a 2))"
proof -
  show "file_good with_a (inode_at with_a 2)" "file_set with_a (inode_at with_a 2) = {}"
    unfolding with_a_inode using no_pointers_good[OF with_a_ok file_inode_empty] by blast+
  show "\<not> S_ISDIR (i_mode (inode_at with_a 2))"
    by (simp add: with_a_inode file_inode_def S_ISDIR_def S_IFDIR_def S_IFMT_def S_IFREG_def)
qed

lemma with_a_creatable: "creatable with_a 0 0 [] name_a 1"
  using with_a_dir with_a_permissions(1) name_a(1,2) by (simp add: creatable_def walk.here)

section \<open>Open files\<close>

text \<open>
  C24: the tables of open files stay consistent under every sequence of opening, closing and
  deleting, whatever happens to the files in between: no descriptor is used twice, none is below
  \<open>MIN_FD\<close>, each belongs to an inode with an entry, and the reference count of every entry is the
  number of descriptors open on its inode, at least one.
\<close>
theorem open_tables_consistent:
  assumes "oft_reachable s"
  shows "distinct (map of_fd (oft_fds s)) \<and> distinct (map on_inum (oft_inodes s)) \<and>
    (\<forall>fd i fl. oft_lookup fd s = Some (i, fl) \<longrightarrow> MIN_FD \<le> fd \<and> i \<in> on_inum ` set (oft_inodes s)) \<and>
    (\<forall>n \<in> set (oft_inodes s). on_ref n = int (card (open_fds (on_inum n) s)) \<and> open_fds (on_inum n) s \<noteq> {})"
proof -
  have ok: "oft_ok s" using assms by (rule oft_reachable_ok)
  note d = oft_okD[OF ok]
  have "MIN_FD \<le> fd \<and> i \<in> on_inum ` set (oft_inodes s)" if "oft_lookup fd s = Some (i, fl)" for fd i fl
    using d(3)[of "\<lparr>of_fd = fd, of_inum = i, of_flags = fl\<rparr>"] that lookup_fd_iff[OF d(1)]
    by (simp add: oft_lookup_def)
  moreover have "on_ref n = int (card (open_fds (on_inum n) s)) \<and> open_fds (on_inum n) s \<noteq> {}"
    if "n \<in> set (oft_inodes s)" for n
    using d(4)[OF that] unfolding refs_card[OF ok] by (metis card.empty less_irrefl)
  ultimately show ?thesis using d(1,2) by blast
qed

text \<open>A state with one open file: inode \<open>i\<close> through descriptor 10.\<close>

definition one_open :: "layer1 \<Rightarrow> int \<Rightarrow> int \<Rightarrow> layer2" where
  "one_open f i flags = \<lparr>files = f, oft_inodes = [\<lparr>on_inum = i, on_ref = 1, on_pending_deletion = False\<rparr>],
    oft_fds = [\<lparr>of_fd = 10, of_inum = i, of_flags = flags\<rparr>]\<rparr>"

lemma one_open_add: "oft_add i flags \<lparr>files = f, oft_inodes = [], oft_fds = []\<rparr> = (10, one_open f i flags)"
  by (simp add: oft_add_def one_open_def find_fd.simps MIN_FD_def)

lemma one_open_reachable: "i \<noteq> - 1 \<Longrightarrow> oft_reachable (one_open f i flags)"
  using oft_reachable.start[of "\<lparr>files = f, oft_inodes = [], oft_fds = []\<rparr>"]
  by (auto intro: oft_reachable.step oft_step.add[OF _ one_open_add])

lemmas one_open_ok = oft_reachable_ok[OF one_open_reachable]

lemma one_open_simps [simp]: "files (one_open f i flags) = f"
  "oft_lookup fd (one_open f i flags) = (if fd = 10 then Some (i, flags) else None)"
  "open_fds i (one_open f i flags) = {10}"
  by (auto simp: one_open_def oft_lookup_def open_fds_def)

lemma open_tables_consistent_witness: "on_ref (hd (oft_inodes (one_open formatted 2 0))) = int (card (open_fds 2 (one_open formatted 2 0)))"
proof -
  have "\<lparr>on_inum = 2, on_ref = 1, on_pending_deletion = False\<rparr> \<in> set (oft_inodes (one_open formatted 2 0))"
    "hd (oft_inodes (one_open formatted 2 0)) = \<lparr>on_inum = 2, on_ref = 1, on_pending_deletion = False\<rparr>"
    by (simp_all add: one_open_def)
  then show ?thesis using open_tables_consistent[OF one_open_reachable[of 2 formatted 0]] by fastforce
qed

text \<open>
  C25: \<open>oft_add\<close> returns the least unused descriptor from \<open>MIN_FD\<close> on, so its loop without a bound ends
  after at most as many rounds as descriptors are open; the new descriptor refers to the inode and
  the flags, all others stay as they were, and closing it again restores every lookup.
\<close>
theorem oft_add_fresh:
  assumes "oft_ok s" "inode \<noteq> - 1" "oft_add inode flags s = (fd, t)"
  shows "MIN_FD \<le> fd \<and> fd \<le> MIN_FD + int (length (oft_fds s)) \<and> oft_lookup fd s = None \<and>
    (\<forall>x. MIN_FD \<le> x \<and> x < fd \<longrightarrow> oft_lookup x s \<noteq> None) \<and>
    oft_lookup fd t = Some (inode, flags) \<and> (\<forall>x. x \<noteq> fd \<longrightarrow> oft_lookup x t = oft_lookup x s) \<and>
    (\<forall>b u x. oft_remove fd t = Some (b, u) \<longrightarrow> oft_lookup x u = oft_lookup x s)"
proof -
  have e: "fd = find_fd MIN_FD (oft_fds s)"
    using arg_cong[OF assms(3), of fst] by (simp add: oft_add_eq[OF assms(1)])
  have "oft_lookup fd s = None" "\<And>x. oft_lookup x t = (if x = fd then Some (inode, flags) else oft_lookup x s)"
    using oft.opn_fresh[OF assms(1,2), of flags] oft.find_opn[OF assms(1,2), of _ flags] by (simp_all add: assms(3))
  moreover have "oft_lookup x u = oft_lookup x s" if "oft_remove fd t = Some (b, u)" for b u x
    using oft.cls_opn[OF assms(1,2), of flags u x] that assms(3) by simp
  moreover have "MIN_FD \<le> fd \<and> (\<forall>x. MIN_FD \<le> x \<and> x < fd \<longrightarrow> oft_lookup x s \<noteq> None)"
    unfolding e oft_lookup_def lookup_fd_None using find_fd_least[of MIN_FD "oft_fds s"] by blast
  moreover have "fd \<le> MIN_FD + int (length (oft_fds s))" unfolding e by (rule find_fd_bound)
  ultimately show ?thesis by simp
qed

lemma oft_add_fresh_witness: "oft_lookup 11 (snd (oft_add 7 2 (one_open formatted 2 0))) = Some (7, 2)"
proof -
  have "find_fd MIN_FD (oft_fds (one_open formatted 2 0)) = 11"
    by (simp add: find_fd.simps MIN_FD_def one_open_def)
  then have "oft_add 7 2 (one_open formatted 2 0) = (11, snd (oft_add 7 2 (one_open formatted 2 0)))"
    using oft_add_eq[OF one_open_ok[of 2 formatted 0], of 7 2] by simp
  from oft_add_fresh[OF one_open_ok _ this] show ?thesis by simp
qed

text \<open>
  C8: a file that is unlinked while it is open.  For a file in good order, sharing no block with its directory, in a
  directory that may be searched and written, whose name is not the only one in the last block of the directory,
  \<open>fs_unlink\<close> takes the name out of the directory and
  returns 0; the inode stays allocated with all its bytes as long as any descriptor is open on it,
  and the descriptors keep working.  When the last one is closed, in whatever order, the inode and
  every block of the file are free.
\<close>
theorem unlink_waits_for_last_close:
  assumes "fs_ok (files s)" "oft_ok s" "creatable (files s) uid gid ts name k"
    and "may_write uid gid (inode_at (files s) k)"
    and "dir_find name (entries_of (files s) k) = Some i" "sint (de_inode_num (entries_of (files s) k ! i)) = int n"
    and "valid_inum (files s) n" "n \<noteq> k" "\<not> S_ISDIR (i_mode (inode_at (files s) n))" "n \<notin> free_inums (files s)"
    and "file_good (files s) (inode_at (files s) n)"
      "file_set (files s) (inode_at (files s) n) \<inter> file_set (files s) (inode_at (files s) k) = {}"
    and "length (entries_of (files s) k) mod DIRENTS_PER_BLOCK \<noteq> 1"
    and "distinct (ds @ [fd])" "set (ds @ [fd]) = open_fds (int n) s"
  shows "\<exists>t u v. fs_unlink (path_of (ts @ [name])) uid gid s = Some (0, t) \<and>
    entries_of (files t) k = list_remove i (entries_of (files s) k) \<and> open_fds (int n) t = open_fds (int n) s \<and>
    release_all ds t = Some u \<and> files u = files t \<and> n \<notin> free_inums (files u) \<and>
    file_contents (files u) n = file_contents (files s) n \<and>
    oft_remove fd u = Some (True, v) \<and> open_fds (int n) v = {} \<and> n \<in> free_inums (files v) \<and>
    file_set (files s) (inode_at (files s) n) \<subseteq> free_data (files v)"
proof -
  have "open_fds (int n) s \<noteq> {}" using assms(15) by auto
  from fs_unlink_spec[OF assms(1-9,11-13) this]
  obtain t where t: "fs_unlink (path_of (ts @ [name])) uid gid s = Some (0, t)" "oft_ok t" "fs_ok (files t)"
    "entries_of (files t) k = list_remove i (entries_of (files s) k)"
    "file_contents (files t) n = file_contents (files s) n" "file_good (files t) (inode_at (files t) n)"
    "file_set (files t) (inode_at (files t) n) = file_set (files s) (inode_at (files s) n)"
    "free_inums (files t) = free_inums (files s)" "pending (int n) t" "open_fds (int n) t = open_fds (int n) s"
    "valid_inum (files t) n" by blast
  from close_last_spec[OF t(3,2,9,11,6) assms(14), unfolded t(10), OF assms(15)]
  show ?thesis using t assms(10) by auto
qed

lemma unlink_waits_for_last_close_witness:
  "\<exists>t u v. fs_unlink (path_of [name_a]) 0 0 (one_open with_a 2 0) = Some (0, t) \<and>
    2 \<notin> free_inums (files u) \<and> oft_remove 10 u = Some (True, v) \<and> 2 \<in> free_inums (files v)"
proof -
  let ?s = "one_open with_a 2 0"
  have i: "dir_find name_a (entries_of (files ?s) 1) = Some 2" "sint (de_inode_num (entries_of (files ?s) 1 ! 2)) = int 2"
    unfolding one_open_simps using with_a_find(1,3) by simp_all
  have g: "file_good (files ?s) (inode_at (files ?s) 2)" "\<not> S_ISDIR (i_mode (inode_at (files ?s) 2))"
    "file_set (files ?s) (inode_at (files ?s) 2) \<inter> file_set (files ?s) (inode_at (files ?s) 1) = {}"
    using with_a_file by simp_all
  have l: "length (entries_of (files ?s) 1) mod DIRENTS_PER_BLOCK \<noteq> 1" "2 \<notin> free_inums (files ?s)"
    "fs_ok (files ?s)" "creatable (files ?s) 0 0 [] name_a 1" "may_write 0 0 (inode_at (files ?s) 1)"
    "valid_inum (files ?s) 2" "distinct ([] @ [10 :: int])" "set ([] @ [10]) = open_fds (int 2) ?s"
    unfolding one_open_simps with_a_find(2)
    using with_a_free with_a_ok with_a_creatable with_a_permissions(2) with_a_inum by (simp_all add: c_consts)
  show ?thesis
    using unlink_waits_for_last_close[OF l(3) one_open_ok l(4,5) i l(6) _ g(2) l(2) g(1,3) l(1,7,8)] by auto
qed

text \<open>
  C28: what is written through a descriptor opened with \<open>O_APPEND\<close> goes to the end of the file, whatever
  offset the caller passes: the file is the old one followed by the bytes written, all of them or,
  with \<open>- ENOSPC\<close> on a full disk, a proper prefix.  The tables are not touched.  The file is in good order and stays below
  \<open>2 ^ 31\<close> bytes, and the bytes that the zero test of \<open>write_i\<close> takes for zeros, which it looks for in the wrong place, are zeros.
\<close>
theorem fs_write_appends:
  assumes "fs_ok (files s)" "valid_inum (files s) k" "file_good (files s) (inode_at (files s) k)"
    and "oft_lookup (c_int (fi_fh fi)) s = Some (int k, flags)" "flags AND O_APPEND \<noteq> 0"
      "fi_flags fi AND O_ACCMODE = O_WRONLY \<or> fi_flags fi AND O_ACCMODE = O_RDWR"
    and "0 < n" "file_size (inode_at (files s) k) + n < 2 ^ 31" "n \<le> length buf"
    and "write_honest (files s) (inode_at (files s) k) buf (file_size (inode_at (files s) k)) n"
  shows "\<exists>ret q t. fs_write buf (int n) offset (Some fi) s = Some (ret, s\<lparr>files := t\<rparr>) \<and>
    (ret = int n \<and> q = n \<or> ret = - ENOSPC \<and> q < n) \<and> fs_ok t \<and> file_good t (inode_at t k) \<and>
    file_contents t k = file_contents (files s) k @ take q buf"
  by (rule fs_write_append_spec[OF assms])

lemma fs_write_appends_witness:
  "\<exists>ret q t. fs_write [7, 8] (int 2) 1000 (Some \<lparr>fi_flags = 0x401, fi_fh = 10\<rparr>) (one_open with_a 2 0x401) =
      Some (ret, (one_open with_a 2 0x401)\<lparr>files := t\<rparr>) \<and> (ret = int 2 \<and> q = 2 \<or> ret = - ENOSPC \<and> q < 2) \<and>
    file_contents t 2 = file_contents with_a 2 @ take q [7, 8]"
proof -
  let ?s = "one_open with_a 2 0x401" and ?fi = "\<lparr>fi_flags = 0x401, fi_fh = 10\<rparr>"
  have z: "file_size (inode_at (files ?s) 2) = 0" by (simp add: with_a_inode file_inode_empty(3))
  have h: "write_honest (files ?s) (inode_at (files ?s) 2) [7, 8] (file_size (inode_at (files ?s) 2)) 2"
    unfolding z by (rule write_honest_first) simp_all
  have a: "oft_lookup (c_int (fi_fh ?fi)) ?s = Some (int 2, 0x401)" "(0x401 :: int) AND O_APPEND \<noteq> 0"
    "fi_flags ?fi AND O_ACCMODE = O_WRONLY \<or> fi_flags ?fi AND O_ACCMODE = O_RDWR"
    "(0 :: nat) < 2" "file_size (inode_at (files ?s) 2) + 2 < 2 ^ 31" "2 \<le> length [7, 8 :: byte]"
    unfolding z by simp_all
  show ?thesis
    using fs_write_appends[OF _ _ _ a h, of 1000] with_a_ok with_a_inum with_a_file(1) by auto
qed

section \<open>Directories\<close>

text \<open>
  C29: \<open>search_by_name\<close> returns, for every directory in good order, and is the linear search of its
  list of entries: the first entry with the name, its inode number and its index, or
  \<open>NOT_IN_DIR\<close> with the results left as they were; the pages, the last one only partly used, and the
  bytes behind the NUL of a name do not matter.
\<close>
theorem search_by_name_is_list_search:
  assumes "mounted s" "is_dir s k" "valid_name name"
  shows "search_by_name (int k) (Some name) (Some target) index s =
    Some (case first_index (\<lambda>e. cstr (de_name e) = name) (entries_of s k) of
      None \<Rightarrow> (NOT_IN_DIR, target, index)
    | Some i \<Rightarrow> (SUCCESS, sint (de_inode_num (entries_of s k ! i)), int i))"
proof -
  have k: "valid_inum s k" "dir_ok s (inode_at s k)" using assms(2) by (simp_all add: is_dir_def)
  have "has_name name = (\<lambda>e. cstr (de_name e) = name)" by (rule ext) (simp add: has_name_def)
  then show ?thesis
    unfolding entries_of_def using search_by_name_spec[OF assms(1) k assms(3), of target index] by (simp add: dir_find_def)
qed

lemma search_by_name_is_list_search_witness:
  "search_by_name (int 1) (Some name_a) (Some 0) 0 with_a = Some (SUCCESS, 2, int 2)"
proof -
  have "first_index (\<lambda>e. cstr (de_name e) = name_a) (entries_of with_a 1) = Some 2"
    using with_a_find(1) unfolding dir_find_def has_name_def .
  then show ?thesis
    using search_by_name_is_list_search[OF fs_ok_mounted[OF with_a_ok] with_a_dir name_a(1), of 0 0] with_a_find(3)
    by simp
qed

text \<open>
  C30: \<open>remove_dirent\<close>, when the removed entry is not the only one in the last block of the directory and
  its offset is below \<open>2 ^ 31\<close>, puts the last entry of the list into the place of the removed one and shortens
  the list; it returns \<open>SUCCESS\<close>, the directory stays in good order, no inode and no block outside it changes.  An index
  beyond the last entry is refused with \<open>BAD_INDEX\<close> without a change.
\<close>
theorem remove_dirent_moves_last:
  assumes "fs_ok s" "is_dir s k" "length (entries_of s k) mod DIRENTS_PER_BLOCK \<noteq> 1" "dir_pos i < 2 ^ 31"
  shows "if i < length (entries_of s k)
    then \<exists>t. remove_dirent (int k) (int i) s = Some (SUCCESS, t) \<and> is_dir t k \<and>
      entries_of t k = butlast ((entries_of s k)[i := last (entries_of s k)]) \<and>
      file_step {k} s (inode_at s k) t (inode_at t k)
    else remove_dirent (int k) (int i) s = Some (BAD_INDEX, s)"
proof -
  have m: "mounted s" using assms(1) by (rule fs_ok_mounted)
  have k: "valid_inum s k" "dir_ok s (inode_at s k)" "k \<notin> free_inums s" using assms(2) by (simp_all add: is_dir_def)
  obtain l where l: "dir_len (inode_at s k) = Suc l" using dir_okD(5)[OF k(2)] by (cases "dir_len (inode_at s k)") auto
  have len: "length (entries_of s k) = Suc l" by (simp add: entries_of_def l)
  have pl: "l mod DIRENTS_PER_BLOCK \<noteq> 0" using assms(3) by (intro notI) (simp add: len mod_Suc c_consts)
  show ?thesis
  proof (cases "i < Suc l")
    case True
    obtain t where t: "remove_dirent (int k) (int i) s = Some (SUCCESS, t)" "file_step {k} s (inode_at s k) t (inode_at t k)"
      "dir_ok t (inode_at t k)" "dir_entries t (inode_at t k) = list_remove i (dir_entries s (inode_at s k))"
      using remove_dirent_spec[OF assms(1) k(1,2) l True pl] by blast
    then have "is_dir t k" using k(1,3) file_stepD(3,7)[OF t(2)] by (simp add: is_dir_def)
    then show ?thesis using True t l by (auto simp: entries_of_def list_remove_def)
  next
    case False
    then show ?thesis using remove_dirent_bad_index[OF m k(1,2), of "int i"] assms(4) l by (auto simp: len)
  qed
qed

lemma remove_dirent_moves_last_witness:
  "\<exists>t. remove_dirent (int 1) (int 0) with_a = Some (SUCCESS, t) \<and>
    entries_of t 1 = [entries_of with_a 1 ! 2, entries_of with_a 1 ! 1]"
proof -
  have c: "length (entries_of with_a 1) mod DIRENTS_PER_BLOCK \<noteq> 1" "dir_pos 0 < 2 ^ 31"
    unfolding with_a_find(2) by (simp_all add: c_consts dir_pos_def)
  obtain a b d where e: "entries_of with_a 1 = [a, b, d]"
    using with_a_find(2) by (auto simp: numeral_3_eq_3 length_Suc_conv)
  then show ?thesis using remove_dirent_moves_last[OF with_a_ok with_a_dir c] unfolding e by auto
qed

section \<open>Paths\<close>

text \<open>
  C19: \<open>namei\<close> on the path of the names \<open>ts\<close>, then \<open>t\<close>, then \<open>us\<close>, when \<open>ts\<close> leads to inode \<open>k\<close>.  The first
  obstacle at \<open>k\<close> decides: a name that is too long, a directory the user may not read and search, a
  file in the place of a directory, a missing name that is not the last one.  For the last name the
  result is the parent, the inode found, 0 when there is none, and the index of the entry.
\<close>
theorem namei_follows_walk:
  assumes "mounted s" "walk s uid gid 1 ts k" "\<forall>u \<in> set (ts @ t # us). is_component u" "valid_inum s k"
  shows "if MAX_FILENAME < length t then map_option fst (namei (path_of (ts @ t # us)) uid gid s) = Some (- ENAMETOOLONG)
    else if \<not> may_search s uid gid k then map_option fst (namei (path_of (ts @ t # us)) uid gid s) = Some (- EACCES)
    else if \<not> S_ISDIR (i_mode (inode_at s k))
    then map_option fst (namei (path_of (ts @ t # us)) uid gid s) = Some (- ENOTDIR)
    else is_dir s k \<and> is_cstr t \<longrightarrow>
      (case dir_find t (entries_of s k) of
        None \<Rightarrow> if us \<noteq> [] then map_option fst (namei (path_of (ts @ t # us)) uid gid s) = Some (- ENOENT)
          else \<exists>index. namei (path_of (ts @ [t])) uid gid s = Some (SUCCESS, int k, 0, index)
      | Some i \<Rightarrow> us = [] \<longrightarrow> namei (path_of (ts @ [t])) uid gid s =
          Some (SUCCESS, int k, sint (de_inode_num (entries_of s k ! i)), int i))"
proof -
  note o = namei_obstacle[OF assms(2,1,3,4)]
  have c: "\<forall>u \<in> set (ts @ [t]). is_component u" using assms(3) by simp
  have "is_dir s k \<and> is_cstr t \<longrightarrow>
      (case dir_find t (entries_of s k) of
        None \<Rightarrow> if us \<noteq> [] then map_option fst (namei (path_of (ts @ t # us)) uid gid s) = Some (- ENOENT)
          else \<exists>index. namei (path_of (ts @ [t])) uid gid s = Some (SUCCESS, int k, 0, index)
      | Some i \<Rightarrow> us = [] \<longrightarrow> namei (path_of (ts @ [t])) uid gid s =
          Some (SUCCESS, int k, sint (de_inode_num (entries_of s k ! i)), int i))"
    if "\<not> MAX_FILENAME < length t" "may_search s uid gid k"
  proof (intro impI)
    note h = that
    assume d: "is_dir s k \<and> is_cstr t"
    then have v: "valid_name t" using h(1) by (simp add: valid_name_def)
    obtain index where n: "namei (path_of (ts @ [t])) uid gid s = Some (SUCCESS, int k, found t (entries_of s k), index)"
      "\<And>i. dir_find t (entries_of s k) = Some i \<Longrightarrow> index = int i"
      by (rule namei_last[OF assms(2,1) c _ h(2) v]) (use d in blast)+
    show "case dir_find t (entries_of s k) of
        None \<Rightarrow> if us \<noteq> [] then map_option fst (namei (path_of (ts @ t # us)) uid gid s) = Some (- ENOENT)
          else \<exists>index. namei (path_of (ts @ [t])) uid gid s = Some (SUCCESS, int k, 0, index)
      | Some i \<Rightarrow> us = [] \<longrightarrow> namei (path_of (ts @ [t])) uid gid s =
          Some (SUCCESS, int k, sint (de_inode_num (entries_of s k ! i)), int i)"
      using n o(4)[OF conjunct1[OF d] h(2) v] by (cases "dir_find t (entries_of s k)") (simp_all add: found_def)
  qed
  then show ?thesis using o(1-3) by simp
qed

lemma namei_follows_walk_witness:
  "namei (path_of ([] @ [name_a])) 0 0 with_a = Some (SUCCESS, int 1, 2, int 2) \<and>
   map_option fst (namei (path_of ([] @ [replicate 257 0x62])) 0 0 with_a) = Some (- ENAMETOOLONG)"
proof -
  have v: "valid_inum with_a 1" "S_ISDIR (i_mode (inode_at with_a 1))" "is_cstr name_a" "\<not> MAX_FILENAME < length name_a"
    using with_a_dir dir_okD(3) name_a(1) by (auto simp: is_dir_def valid_name_def)
  have c: "\<forall>u \<in> set ([] @ [name_a]). is_component u" "\<forall>u \<in> set ([] @ [replicate 257 (0x62 :: byte)]). is_component u"
    "MAX_FILENAME < length (replicate 257 (0x62 :: byte))"
    using name_a(2) by (auto simp: is_component_def SLASH_def c_consts)
  show ?thesis
    using namei_follows_walk[OF fs_ok_mounted[OF with_a_ok] walk.here c(1) v(1), of 0 0]
      namei_follows_walk[OF fs_ok_mounted[OF with_a_ok] walk.here c(2) v(1), of 0 0]
      with_a_permissions(1) v with_a_find(1,3) with_a_dir c(3) by simp
qed

text \<open>
  C9: \<open>mknod_fs\<close> in a directory that can be reached and searched and stays below \<open>2 ^ 31\<close> bytes.  Without write
  permission the answer is \<open>- EACCES\<close>, for a name that exists \<open>- EEXIST\<close>, without a free inode \<open>- ENOSPC\<close>, and
  nothing changes.  Otherwise the first free inode becomes an empty file whose name is entered behind the other
  entries, where it is found from then on.  Or, only when the directory needs a further block, \<open>- ENOSPC\<close>
  is returned; the inode is then free again, inode and entries of the directory are as before, and no block is lost: each
  is free or the directory's, and as many are free as before.
\<close>
theorem mknod_creates_file:
  assumes "fs_ok s" "creatable s uid gid ts t k" "dir_size (Suc (length (entries_of s k))) < 2 ^ 31"
  shows "if \<not> may_write uid gid (inode_at s k) then mknod_fs (path_of (ts @ [t])) mode uid gid s = Some (- EACCES, s)
    else if found t (entries_of s k) \<noteq> 0 then mknod_fs (path_of (ts @ [t])) mode uid gid s = Some (- EEXIST, s)
    else if free_inums s = {} then mknod_fs (path_of (ts @ [t])) mode uid gid s = Some (- ENOSPC, s)
    else \<exists>ret n v. mknod_fs (path_of (ts @ [t])) mode uid gid s = Some (ret, v) \<and> first_free s n \<and>
      fs_frame {n, k} (free_data s \<union> file_set s (inode_at s k)) s v \<and> is_dir v k \<and>
      free_data v \<union> file_set v (inode_at v k) = free_data s \<union> file_set s (inode_at s k) \<and>
      (ret = SUCCESS \<and> inode_at v n = file_inode mode uid gid \<and> free_inums v = free_inums s - {n} \<and>
        entries_of v k = entries_of s k @ [new_dirent t (int n)] \<and> walk v uid gid k [t] n \<or>
       ret = - ENOSPC \<and> free_inums v = free_inums s \<and> entries_of v k = entries_of s k \<and> inode_at v k = inode_at s k \<and>
        card (free_data v) = card (free_data s) \<and> length (entries_of s k) mod DIRENTS_PER_BLOCK = 0)"
proof -
  note r = mknod_refused[OF assms(1,2), of mode]
  have m: "mounted s" using assms(1) by (rule fs_ok_mounted)
  have c: "is_dir s k" "may_search s uid gid k" "valid_name t" using assms(2) by (simp_all add: creatable_def)
  show ?thesis
  proof (cases "may_write uid gid (inode_at s k) \<and> found t (entries_of s k) = 0 \<and> free_inums s \<noteq> {}")
    case False
    then show ?thesis using r by auto
  next
    case True
    then have w: "may_write uid gid (inode_at s k)" "found t (entries_of s k) = 0" "free_inums s \<noteq> {}" by simp_all
    note new = walk_new[OF m _ c(3,1) w(2) c(2)]
    from mknod_spec[OF assms(1,2) w assms(3), of mode] show ?thesis
      by (simp only: w simp_thms if_False) (metis new first_free_def)
  qed
qed

lemma mknod_creates_file_witness:
  "mknod_fs (path_of ([] @ [name_a])) 0x1a4 0 0 with_a = Some (- EEXIST, with_a)"
proof -
  have s: "dir_size (Suc (length (entries_of with_a 1))) < 2 ^ 31"
    unfolding with_a_find(2) by (simp add: dir_size_def dir_pos_def c_consts)
  have "found name_a (entries_of with_a 1) = 2" using with_a_find(1,3) by (simp add: found_def)
  then show ?thesis
    using mknod_creates_file[OF with_a_ok with_a_creatable s, of "0x1a4"] with_a_permissions(2) by simp
qed

text \<open>
  C18: \<open>mkdir_fs\<close> in a directory that can be reached and searched and stays below \<open>2 ^ 31\<close> bytes, with a mode without
  bits of the file type 0x3000.  The refusals are those of \<open>mknod_fs\<close>, and \<open>- ENOSPC\<close> also answers a full disk; inodes and
  blocks are then free as before.  Otherwise the first free inode becomes a directory in good order that holds \<open>.\<close>
  (itself) and \<open>..\<close> (its parent), the parent stays in good order with the new name behind its other entries, and the
  name leads to the new directory.  Or, only when the parent needs a further block, \<open>- ENOSPC\<close> is returned; the
  inode is then free again and inode and entries of the parent are as before, but one block may be lost: that of the new
  directory, which \<open>del\<close> does not find to be zero.
\<close>
theorem mkdir_creates_directory:
  assumes "fs_ok s" "creatable s uid gid ts t k" "dir_size (Suc (length (entries_of s k))) < 2 ^ 31"
    and "mode AND 0x3000 = 0"
  shows "if \<not> may_write uid gid (inode_at s k) then mkdir_fs (path_of (ts @ [t])) mode uid gid s = Some (- EACCES, s)
    else if found t (entries_of s k) \<noteq> 0 then mkdir_fs (path_of (ts @ [t])) mode uid gid s = Some (- EEXIST, s)
    else if free_inums s = {} \<or> free_data s = {}
    then \<exists>u. mkdir_fs (path_of (ts @ [t])) mode uid gid s = Some (- ENOSPC, u) \<and>
      free_inums u = free_inums s \<and> free_data u = free_data s \<and> fs_frame (free_inums s) {} s u
    else \<exists>ret n v. mkdir_fs (path_of (ts @ [t])) mode uid gid s = Some (ret, v) \<and> first_free s n \<and>
      fs_frame {n, k} (free_data s \<union> file_set s (inode_at s k)) s v \<and> is_dir v k \<and>
      (ret = SUCCESS \<and> free_inums v = free_inums s - {n} \<and> entries_of v k = entries_of s k @ [new_dirent t (int n)] \<and>
        is_dir v n \<and> base_entries n (int k) (entries_of v n) \<and> walk v uid gid k [t] n \<and>
        free_data v \<union> file_set v (inode_at v k) \<union> file_set v (inode_at v n) = free_data s \<union> file_set s (inode_at s k) \<or>
       ret = - ENOSPC \<and> free_inums v = free_inums s \<and> entries_of v k = entries_of s k \<and> inode_at v k = inode_at s k \<and>
        card (free_data s) \<le> Suc (card (free_data v)) \<and> length (entries_of s k) mod DIRENTS_PER_BLOCK = 0)"
proof -
  have m: "mounted s" using assms(1) by (rule fs_ok_mounted)
  have c: "is_dir s k" "may_search s uid gid k" "valid_name t" using assms(2) by (simp_all add: creatable_def)
  show ?thesis
  proof (cases "may_write uid gid (inode_at s k) \<and> found t (entries_of s k) = 0 \<and> free_inums s \<noteq> {} \<and> free_data s \<noteq> {}")
    case False
    then show ?thesis using mkdir_refused[OF assms(1,2), of mode] by auto
  next
    case True
    then have w: "may_write uid gid (inode_at s k)" "found t (entries_of s k) = 0" "free_inums s \<noteq> {}" "free_data s \<noteq> {}"
      by simp_all
    note new = walk_new[OF m _ c(3,1) w(2) c(2)]
    from mkdir_spec[OF assms(1,2) w assms(3,4)] show ?thesis
      by (simp only: w simp_thms if_False) (metis new first_free_def)
  qed
qed

lemma mkdir_creates_directory_witness:
  "\<exists>v. mkdir_fs (path_of ([] @ [name_a])) 0x1ed 0 0 formatted = Some (SUCCESS, v) \<and> is_dir v 2 \<and>
    base_entries 2 (int 1) (entries_of v 2) \<and> walk v 0 0 1 [name_a] 2"
proof -
  have "found name_a (entries_of formatted 1) = 0" using root_no_a by (simp add: found_def)
  moreover have "(0x1ed :: u32) AND 0x3000 = 0" by simp
  ultimately show ?thesis
    using mkdir_creates_directory[OF formatted_ok root_creatable root_small, of "0x1ed"] root_permissions(2)
      root_room formatted_free_data_ne by (auto simp: formatted_first_free)
qed

text \<open>
  C26: \<open>fs_readdir\<close> of a directory in good order returns: its loop over the pages, which has no bound of
  its own, ends.  It returns 0 and has called the filler once for every entry of the directory, in
  order, with the name up to its NUL and the attributes of the inode, until the filler said that its
  buffer was full.
\<close>
theorem fs_readdir_lists_entries:
  assumes "mounted (files s)" "walk (files s) uid gid 1 ts k" "\<forall>t \<in> set ts. is_component t" "is_dir (files s) k"
  shows "fs_readdir (path_of ts) buf filler uid gid s0 s =
    Some (0, filled (fill_list (entries_of (files s) k) filler s0 buf s))"
proof -
  have k: "valid_inum (files s) k" "dir_ok (files s) (inode_at (files s) k)" using assms(4) by (simp_all add: is_dir_def)
  have "int k \<noteq> 0" using k(1) by (simp add: valid_inum_def)
  moreover obtain p index where "namei (path_of ts) uid gid (files s) = Some (SUCCESS, p, int k, index)"
    using namei_walk[OF assms(2,1), of "[]"] assms(3) by auto
  ultimately show ?thesis
    using readdir_pages_spec[OF assms(1) k, of 0 "uninit BLOCK_SIZE (files s)" 0 filler s0 buf] dir_okD(3)[OF k(2)]
    by (simp add: fs_readdir_def local_inode_ok[OF assms(1) k(1)] entries_of_def)
qed

lemma fs_readdir_lists_entries_witness:
  "\<forall>s0. fs_readdir (path_of []) [] (\<lambda>names name st off. (names @ [name], False)) 0 0 s0 (one_open with_a 2 0) =
    Some (0, [DOT, DOT_DOT, name_a])"
proof
  fix s0
  have "cstr (de_name (new_dirent name_a 2)) = name_a"
    using has_name_new[OF name_a(1), of name_a 2] by (simp add: has_name_def)
  then have "map (\<lambda>e. cstr (de_name e)) (entries_of with_a 1) = [DOT, DOT_DOT, name_a]"
    unfolding with_a_entries using root_entries by (auto simp: base_entries_def)
  moreover have "filled (fill_list es (\<lambda>names name st off. (names @ [name], False)) s0 names (one_open with_a 2 0)) =
    names @ map (\<lambda>e. cstr (de_name e)) es" for es names
    by (induction es arbitrary: names) simp_all
  ultimately show "fs_readdir (path_of []) [] (\<lambda>names name st off. (names @ [name], False)) 0 0 s0 (one_open with_a 2 0) =
      Some (0, [DOT, DOT_DOT, name_a])"
    using fs_readdir_lists_entries[of "one_open with_a 2 0" 0 0 "[]" 1 "[]" "\<lambda>names name st off. (names @ [name], False)" s0]
      with_a_dir fs_ok_mounted[OF with_a_ok] by (simp add: walk.here)
qed

end
