(* ===== verification/SystemProps.thy ===== *)
theory SystemProps
  imports VolumeQueries Layer2Props
begin

text \<open>
  The handlers as a state machine: the disk starts formatted and no file is open, every step is a call
  of a handler.  The properties are the invariants of all reachable states.  Left out are the calls that
  are known to go wrong: writes whose blocks of data the code takes for zeros, sizes below the end of
  the file for which \<open>truncate\<close> frees a block, names that are the only ones in the last block of a
  directory, new directories in a parent whose last block is full, and \<open>fs_rmdir\<close> of a directory that
  is open, not empty, named by its \<open>.\<close>, or has bytes other than zero after its entries.  That \<open>fs_mkdir\<close> and
  \<open>fs_rmdir\<close> return in such cases and what they do to the tree is shown nevertheless, for one call in a
  reachable state.
\<close>

inductive handler_step :: "layer2 \<Rightarrow> layer2 \<Rightarrow> bool" where
  mknod: "clean ts \<Longrightarrow> small_dirs (files s) \<Longrightarrow> fs_mknod (fuse_path ts) mode uid gid s = Some (ret, t) \<Longrightarrow>
    handler_step s t"
| mkdir: "clean ts \<Longrightarrow> small_dirs (files s) \<Longrightarrow> mode AND 0x3000 = 0 \<Longrightarrow>
    in_parent (\<lambda>n. n mod DIRENTS_PER_BLOCK \<noteq> 0) (fuse_path ts) uid gid (files s) \<Longrightarrow>
    fs_mkdir (fuse_path ts) mode uid gid s = Some (ret, t) \<Longrightarrow> handler_step s t"
| unlink: "clean ts \<Longrightarrow> in_parent (\<lambda>n. n mod DIRENTS_PER_BLOCK \<noteq> 1) (fuse_path ts) uid gid (files s) \<Longrightarrow>
    fs_unlink (fuse_path ts) uid gid s = Some (ret, t) \<Longrightarrow> handler_step s t"
| rmdir: "clean ts \<Longrightarrow> proper_rmdir (fuse_path ts) uid gid s \<Longrightarrow>
    fs_rmdir (fuse_path ts) uid gid s = Some (ret, t) \<Longrightarrow> handler_step s t"
| truncate: "clean ts \<Longrightarrow> proper_truncate (fuse_path ts) sz uid gid (files s) \<Longrightarrow>
    fs_truncate (fuse_path ts) (int sz) uid gid s = Some (ret, t) \<Longrightarrow> handler_step s t"
| opened: "clean ts \<Longrightarrow> fs_open (fuse_path ts) fi uid gid s = Some (ret, fi', t) \<Longrightarrow> handler_step s t"
| written: "proper_write buf n off fi s \<Longrightarrow> fs_write buf (int n) (int off) (Some fi) s = Some (ret, t) \<Longrightarrow>
    handler_step s t"
| release: "fs_release (Some fi) s = Some (ret, t) \<Longrightarrow> handler_step s t"

inductive system_reachable :: "layer2 \<Rightarrow> bool" where
  formatted: "4 \<le> blocks \<Longrightarrow> 0 \<le> uid \<Longrightarrow> 0 \<le> gid \<Longrightarrow> mkfs True blocks uid gid f = (SUCCESS, t) \<Longrightarrow>
    system_reachable \<lparr>files = t, oft_inodes = [], oft_fds = []\<rparr>"
| step: "system_reachable s \<Longrightarrow> handler_step s t \<Longrightarrow> system_reachable t"

lemma handler_step_ok: "handler_step s t \<Longrightarrow> system_ok s \<Longrightarrow> system_ok t"
proof (induction rule: handler_step.induct)
  case (mknod ts s mode uid gid ret t)
  then show ?case using fs_mknod_total[of s ts mode uid gid] by auto
next
  case (mkdir ts s mode uid gid ret t)
  then show ?case using fs_mkdir_total[of s ts mode uid gid] by auto
next
  case (unlink ts uid gid s ret t)
  then show ?case using fs_unlink_total[of s ts uid gid] by auto
next
  case (rmdir ts uid gid s ret t)
  then show ?case using fs_rmdir_total[of s ts uid gid] by auto
next
  case (truncate ts sz uid gid s ret t)
  then show ?case using fs_truncate_total[of s ts sz uid gid] by auto
next
  case (opened ts fi uid gid s ret fi' t)
  then show ?case using fs_open_total[of s ts fi uid gid] by auto
next
  case (written buf n off fi s ret t)
  then show ?case using fs_write_total[of s buf n off fi] by auto
next
  case (release fi s ret t)
  then show ?case using fs_release_total[of s fi] by auto
qed

lemma reachable_ok: "system_reachable s \<Longrightarrow> system_ok s"
proof (induction rule: system_reachable.induct)
  case (formatted blocks uid gid f t)
  then show ?case by (rule mkfs_system)
next
  case (step s t)
  then show ?case using handler_step_ok by blast
qed

text \<open>The state of the witnesses: the disk with the file \<open>/a\<close>.\<close>

definition with_a_system :: layer2 where
  "with_a_system = \<lparr>files = with_a, oft_inodes = [], oft_fds = []\<rparr>"

lemma formatted_reachable: "system_reachable \<lparr>files = formatted, oft_inodes = [], oft_fds = []\<rparr>"
proof -
  obtain t where "mkfs True 100 0 0 blank = (SUCCESS, t)" using mkfs_spec[of 100 0 0 blank] by auto
  then have "mkfs True 100 0 0 blank = (SUCCESS, formatted)" by (simp add: formatted_def)
  then show ?thesis by (intro system_reachable.formatted) simp_all
qed

lemma clean_a: "clean [name_a]" "fuse_path [name_a] = path_of ([] @ [name_a])"
  using name_a is_cstr_valid by (simp_all add: clean_def fuse_path_def)

lemma formatted_small: "small_dirs formatted"
proof -
  have "k = 1" if "k \<in> dirs formatted" for k
    using that formatted_free_inums formatted_ninodes by (auto simp: dirs_def is_dir_def valid_inum_def)
  then show ?thesis unfolding small_dirs_def using root_small by auto
qed

lemma formatted_mknod:
  "fs_mknod (fuse_path [name_a]) 0x1a4 0 0 \<lparr>files = formatted, oft_inodes = [], oft_fds = []\<rparr> =
    Some (SUCCESS, with_a_system)"
proof -
  have w: "found name_a (entries_of formatted 1) = 0" using root_no_a by (simp add: found_def)
  obtain ret v where v: "mknod_fs (path_of ([] @ [name_a])) 0x1a4 0 0 formatted = Some (ret, v)"
    "ret = SUCCESS \<or> length (entries_of formatted 1) mod DIRENTS_PER_BLOCK = 0"
    using mknod_spec[OF formatted_ok root_creatable root_permissions(2) w root_room(1) root_small, of "0x1a4"]
    by (elim exE conjE disjE) (rule that, assumption, simp)+
  have "with_a = v" "ret = SUCCESS" using v root_room(2) by (simp_all add: with_a_def)
  then show ?thesis using v(1) by (simp add: fs_mknod_def on_files_def with_a_system_def clean_a)
qed

lemma with_a_reachable: "system_reachable with_a_system"
  by (rule system_reachable.step[OF formatted_reachable handler_step.mknod[OF clean_a(1) _ formatted_mknod]])
    (simp add: formatted_small)

section \<open>Blocks\<close>

text \<open>
  C2: no call of a handler, but for those left out above, loses a data block or gives it to two owners.
  In every reachable state
  each data block of the disk is either on the free list or belongs to exactly one used inode, and every
  used inode is a well-formed directory or a file in good order.
\<close>
theorem handlers_partition_blocks:
  assumes "system_reachable s"
  shows "{b. valid_data (files s) b} =
      free_data (files s) \<union> (\<Union>k \<in> used_inums (files s). file_set (files s) (inode_at (files s) k)) \<and>
    (\<forall>k \<in> used_inums (files s).
      file_set (files s) (inode_at (files s) k) \<inter> free_data (files s) = {} \<and>
      (\<forall>l \<in> used_inums (files s). l \<noteq> k \<longrightarrow>
        file_set (files s) (inode_at (files s) k) \<inter> file_set (files s) (inode_at (files s) l) = {}) \<and>
      (if S_ISDIR (i_mode (inode_at (files s) k)) then dir_ok (files s) (inode_at (files s) k)
       else file_good (files s) (inode_at (files s) k)))"
proof -
  note v = volume_okD[OF names_okD(1)[OF system_okD(2)[OF reachable_ok[OF assms]]], unfolded owned_def]
  have "file_set (files s) (inode_at (files s) k) \<inter> free_data (files s) = {}" if "k \<in> used_inums (files s)" for k
    using node_okD(2)[OF v(2)[OF that]] by (simp add: owned_def)
  then show ?thesis using v(2-4) unfolding node_ok_def by blast
qed

lemma formatted_used: "used_inums formatted = {1}"
  using formatted_free_inums by (auto simp: used_inums_def valid_inum_def formatted_ninodes)

lemma handlers_partition_blocks_witness:
  "{b. valid_data formatted b} = free_data formatted \<union> file_set formatted (inode_at formatted 1)"
  using handlers_partition_blocks[OF formatted_reachable] by (simp add: formatted_used)

section \<open>Names\<close>

text \<open>The places where inode \<open>n\<close> is named: entry \<open>i\<close> of directory \<open>k\<close>, after \<open>.\<close> and \<open>..\<close>.\<close>

definition links :: "'a layer1_scheme \<Rightarrow> nat \<Rightarrow> (nat \<times> nat) set" where
  "links s n = {(k, i). is_dir s k \<and> 2 \<le> i \<and> i < length (entries_of s k) \<and>
    de_inode_num (entries_of s k ! i) = word_of_nat n}"

lemma entry_num:
  assumes "names_ok s lost" "k \<in> dirs s" "i < length (entries_of s k)" "valid_inum s n"
  shows "de_inode_num (entries_of s k ! i) = word_of_nat n \<longleftrightarrow> entry_inum (entries_of s k ! i) = n"
proof -
  have n: "sint (word_of_int (int n) :: u32) = int n" by (rule inum_u32(1)[OF names_okD(6)[OF assms(1)] assms(4)])
  note e = entry_cases(4)[OF assms(1-3)]
  show ?thesis
  proof
    assume "de_inode_num (entries_of s k ! i) = word_of_nat n"
    then show "entry_inum (entries_of s k ! i) = n" using e n by simp
  next
    assume "entry_inum (entries_of s k ! i) = n"
    then have "sint (de_inode_num (entries_of s k ! i)) = sint (word_of_int (int n) :: u32)" using e n by simp
    then show "de_inode_num (entries_of s k ! i) = word_of_nat n" by (simp only: signed_word_eqI of_int_of_nat_eq)
  qed
qed

lemma links_kids:
  assumes t: "names_ok s lost" and n: "valid_inum s n"
  shows "links s n = {(k, i). k \<in> dirs s \<and> 2 \<le> i \<and> i - 2 < length (kids s k) \<and> kids s k ! (i - 2) = n}"
proof -
  have "(2 \<le> i \<and> i < length (entries_of s k) \<and> de_inode_num (entries_of s k ! i) = word_of_nat n) \<longleftrightarrow>
      (2 \<le> i \<and> i - 2 < length (kids s k) \<and> kids s k ! (i - 2) = n)" if k: "k \<in> dirs s" for k i
  proof (cases "2 \<le> i \<and> i < length (entries_of s k)")
    case True
    then obtain j where j: "i = 2 + j" using le_Suc_ex by blast
    then show ?thesis using entry_num[OF t k _ n, of i] True by (auto simp: kids_def)
  qed (auto simp: kids_def)
  then show ?thesis by (auto simp: links_def dirs_def)
qed

lemma count_positions: "count (mset xs) x = card {j. j < length xs \<and> xs ! j = x}"
proof -
  have "count (mset xs) x = length (filter (\<lambda>y. y = x) xs)" by (induction xs) simp_all
  then show ?thesis by (simp add: length_filter_conv_card)
qed

lemma links_card:
  assumes t: "names_ok s lost" and n: "n \<in> used_inums s" "n \<noteq> 1"
  shows "if n \<in> lost then links s n = {} else card (links s n) = 1"
proof -
  note d = names_okD[OF t]
  note nt = name_treeD[OF d(4)]
  have vn: "valid_inum s n" using n(1) by (simp add: used_inums_def)
  note lk = links_kids[OF t vn]
  show ?thesis
  proof (cases "n \<in> lost")
    case True
    have "n \<notin> set (kids s k)" if "k \<in> dirs s" for k using named(1)[OF d(4) that] True by blast
    then have "links s n = {}" unfolding lk by (auto dest: nth_mem)
    then show ?thesis using True by simp
  next
    case False
    then have "n \<in># (\<Sum>k \<in> dirs s. mset (kids s k))" unfolding nt(5) using n nt(1) by simp
    then obtain k where k: "k \<in> dirs s" "n \<in> set (kids s k)" using nt(2) by (auto simp: set_mset_sum)
    note one = named(3,4)[OF d(4) k]
    have "count (mset (kids s k)) n = card {j. j < length (kids s k) \<and> kids s k ! j = n}"
      by (rule count_positions)
    then obtain j where j: "{j. j < length (kids s k) \<and> kids s k ! j = n} = {j}"
      using one(1) by (metis card_1_singletonE)
    have "links s n = {(k, Suc (Suc j))}"
    proof (intro set_eqI iffI)
      fix x assume "x \<in> links s n"
      then obtain l i where x: "x = (l, i)" "l \<in> dirs s" "2 \<le> i" "i - 2 < length (kids s l)" "kids s l ! (i - 2) = n"
        unfolding lk by auto
      then have l: "l = k" using one(2)[OF x(2)] nth_mem by metis
      then have "i - 2 \<in> {j}" using x(4,5) unfolding j[symmetric] by blast
      then have "i = Suc (Suc j)" using x(3) by simp
      then show "x \<in> {(k, Suc (Suc j))}" using l x(1) by simp
    next
      fix x assume "x \<in> {(k, Suc (Suc j))}"
      moreover have "j < length (kids s k)" "kids s k ! j = n" using j by auto
      ultimately show "x \<in> links s n" unfolding lk using k(1) by simp
    qed
    then show ?thesis using False by simp
  qed
qed

lemma edges_links:
  assumes t: "names_ok s lost"
  shows "edges (dirs s) (kids s) \<subseteq> {(k, l). \<exists>i. (k, i) \<in> links s l}"
proof (clarsimp simp: edges_def)
  fix k l assume k: "k \<in> dirs s" "l \<in> set (kids s k)"
  then have "valid_inum s l" using named(1)[OF names_okD(4)[OF t] k] by (simp add: used_inums_def)
  from links_kids[OF t this] k obtain j where "j < length (kids s k)" "kids s k ! j = l" by (auto simp: in_set_conv_nth)
  then have "(k, Suc (Suc j)) \<in> links s l" using links_kids[OF t \<open>valid_inum s l\<close>] k(1) by simp
  then show "\<exists>i. (k, i) \<in> links s l" by blast
qed

text \<open>What a directory holds.\<close>

lemma entries_used:
  assumes "names_ok s lost" "k \<in> dirs s" "e \<in> set (entries_of s k)"
  shows "\<exists>n \<in> used_inums s. sint (de_inode_num e) = int n"
  using entry_cases(1,4)[OF assms(1,2)] assms(3) by (metis DiffD1 in_set_conv_nth)

lemma distinct_names: "names_ok s lost \<Longrightarrow> k \<in> dirs s \<Longrightarrow> distinct (map (cstr \<circ> de_name) (entries_of s k))"
  using names_okD(3)[of s lost k] by (simp add: dir_wf_def name_of_def[abs_def] comp_def)

lemma dot_entries:
  assumes t: "names_ok s lost" and k: "k \<in> dirs s"
  shows "\<exists>e f es p. entries_of s k = e # f # es \<and> cstr (de_name e) = DOT \<and> cstr (de_name f) = DOT_DOT \<and>
    sint (de_inode_num e) = int k \<and> sint (de_inode_num f) = int p \<and>
    (if k = 1 then p = 1 else \<exists>i. links s k = {(p, i)})"
proof -
  note d = names_okD[OF t]
  have w: "dir_wf s k" by (rule d(3)[OF k])
  then have "2 \<le> length (entries_of s k)" by (simp add: dir_wf_def)
  then obtain e f es where e: "entries_of s k = e # f # es" by (cases "entries_of s k"; cases "tl (entries_of s k)") auto
  have n: "sint (de_inode_num e) = int k" "sint (de_inode_num f) = int (parent_of s k)"
    using entry_cases(4)[OF t k, of 0] entry_cases(4)[OF t k, of 1] w by (simp_all add: e dir_wf_def parent_of_def)
  have "\<exists>i. links s k = {(parent_of s k, i)}" if k1: "k \<noteq> 1"
  proof -
    have ku: "k \<in> used_inums s" "k \<notin> lost" using k d(2,8) by blast+
    obtain x where x: "links s k = {x}" using links_card[OF t ku(1) k1] ku(2) by (auto simp: card_1_singleton_iff)
    have "(parent_of s k, k) \<in> edges (dirs s) (kids s)" using w k1 by (simp add: dir_wf_def edges_def)
    then obtain i where "(parent_of s k, i) \<in> links s k" using edges_links[OF t] by blast
    then show ?thesis using x by auto
  qed
  then show ?thesis using e n w by (auto simp: dir_wf_def name_of_def)
qed

text \<open>
  C4: the names on the disk.  In every reachable state every entry of a directory names a used inode,
  its names are different and it begins with \<open>.\<close> and \<open>..\<close>, which name itself and the directory that
  names it;
  every used inode but the root has exactly one name besides \<open>.\<close> and \<open>..\<close> and is reached from the root
  through such names, or it was unlinked, has none and is still open; and every open descriptor
  belongs to a used inode, a directory only for reading.
\<close>
theorem handlers_name_once:
  assumes "system_reachable s"
  shows "(\<forall>k. is_dir (files s) k \<longrightarrow>
      (\<forall>e \<in> set (entries_of (files s) k). \<exists>n \<in> used_inums (files s). sint (de_inode_num e) = int n) \<and>
      distinct (map (cstr \<circ> de_name) (entries_of (files s) k)) \<and>
      (\<exists>e f es p. entries_of (files s) k = e # f # es \<and> cstr (de_name e) = DOT \<and> cstr (de_name f) = DOT_DOT \<and>
        sint (de_inode_num e) = int k \<and> sint (de_inode_num f) = int p \<and>
        (if k = 1 then p = 1 else \<exists>i. links (files s) k = {(p, i)}))) \<and>
    (\<forall>n \<in> used_inums (files s) - {1}. if pending (int n) s then links (files s) n = {} \<and> open_fds (int n) s \<noteq> {}
      else card (links (files s) n) = 1 \<and> (1, n) \<in> {(k, l). \<exists>i. (k, i) \<in> links (files s) l}\<^sup>*) \<and>
    (\<forall>fd i fl. oft_lookup fd s = Some (i, fl) \<longrightarrow> (\<exists>n \<in> used_inums (files s). i = int n \<and>
      (is_dir (files s) n \<longrightarrow> fl AND O_ACCMODE = O_RDONLY)))"
proof (intro conjI)
  note d = system_okD[OF reachable_ok[OF assms]]
  show "\<forall>k. is_dir (files s) k \<longrightarrow>
      (\<forall>e \<in> set (entries_of (files s) k). \<exists>n \<in> used_inums (files s). sint (de_inode_num e) = int n) \<and>
      distinct (map (cstr \<circ> de_name) (entries_of (files s) k)) \<and>
      (\<exists>e f es p. entries_of (files s) k = e # f # es \<and> cstr (de_name e) = DOT \<and> cstr (de_name f) = DOT_DOT \<and>
        sint (de_inode_num e) = int k \<and> sint (de_inode_num f) = int p \<and>
        (if k = 1 then p = 1 else \<exists>i. links (files s) k = {(p, i)}))"
    using entries_used[OF d(2)] distinct_names[OF d(2)] dot_entries[OF d(2)] unfolding dirs_def mem_Collect_eq by blast
  have "if pending (int n) s then links (files s) n = {} \<and> open_fds (int n) s \<noteq> {}
      else card (links (files s) n) = 1 \<and> (1, n) \<in> {(k, l). \<exists>i. (k, i) \<in> links (files s) l}\<^sup>*"
    if n: "n \<in> used_inums (files s) - {1}" for n
  proof -
    have c: "if pending (int n) s then links (files s) n = {} else card (links (files s) n) = 1"
      using links_card[OF d(2)] n by (simp add: orphans_def)
    have "open_fds (int n) s \<noteq> {}" if p: "pending (int n) s"
    proof -
      have "int n \<in> on_inum ` set (oft_inodes s)" using p by (force simp: pending_def)
      then show ?thesis using open_used[OF d(1)] by (auto simp: open_fds_def)
    qed
    moreover have "(1, n) \<in> {(k, l). \<exists>i. (k, i) \<in> links (files s) l}\<^sup>*" if "\<not> pending (int n) s"
      using name_treeD(6)[OF names_okD(4)[OF d(2)], of n] rtrancl_mono[OF edges_links[OF d(2)]] n that by (auto simp: orphans_def)
    ultimately show ?thesis using c by auto
  qed
  then show "\<forall>n \<in> used_inums (files s) - {1}. if pending (int n) s then links (files s) n = {} \<and> open_fds (int n) s \<noteq> {}
      else card (links (files s) n) = 1 \<and> (1, n) \<in> {(k, l). \<exists>i. (k, i) \<in> links (files s) l}\<^sup>*" by blast
  show "\<forall>fd i fl. oft_lookup fd s = Some (i, fl) \<longrightarrow> (\<exists>n \<in> used_inums (files s). i = int n \<and>
      (is_dir (files s) n \<longrightarrow> fl AND O_ACCMODE = O_RDONLY))"
    using d(3) by (simp add: opened_ok_def dirs_def)
qed

lemma with_a_used: "used_inums with_a = {1, 2}"
  by (auto simp: used_inums_def valid_inum_def with_a_free with_a_ninodes)

lemma with_a_files [simp]: "files with_a_system = with_a" "oft_inodes with_a_system = []" "oft_fds with_a_system = []"
  by (simp_all add: with_a_system_def)

lemma handlers_name_once_witness: "card (links with_a 2) = 1 \<and> (1, 2) \<in> {(k, l). \<exists>i. (k, i) \<in> links with_a l}\<^sup>*"
proof -
  have "\<not> pending (int 2) with_a_system" "2 \<in> used_inums (files with_a_system) - {1}"
    by (simp_all add: pending_def with_a_used)
  with handlers_name_once[OF with_a_reachable] show ?thesis
    by (elim conjE) (drule bspec[of "used_inums (files with_a_system) - {1}" _ 2], simp_all)
qed

section \<open>Every call returns\<close>

lemma some_result: "\<exists>a b. f = Some (a, b) \<and> P a b \<Longrightarrow> \<exists>r. f = Some r"
  by blast

lemma open_returns: "system_reachable s \<Longrightarrow> clean ts \<Longrightarrow> \<exists>r. fs_open (fuse_path ts) fi uid gid s = Some r"
  using fs_open_total[OF reachable_ok, of s ts fi uid gid] by blast

text \<open>
  C7: no handler runs forever or leaves the code's defined behaviour.  In every reachable state and for
  every path from the root \<open>fs_getattr\<close>, \<open>fs_readdir\<close>, \<open>fs_open\<close>, \<open>fs_release\<close> and, for buffers below
  \<open>2 ^ 64\<close> bytes, \<open>fs_read\<close> return.  The others return under the conditions in the statement:
  \<open>fs_write\<close> of at least one byte of the buffer to a descriptor used with the flags of \<open>open\<close>, up to size
  \<open>2 ^ 31\<close>, where the test for zeros does not take data for zeros (\<open>write_honest\<close>); \<open>fs_truncate\<close> to a size below \<open>2 ^ 31\<close> other than the file's;
  \<open>fs_mknod\<close> and \<open>fs_mkdir\<close> (mode without bits of the file type 0x3000) when directories stay below \<open>2 ^ 31\<close> bytes;
  \<open>fs_unlink\<close> and \<open>fs_rmdir\<close> when the name is not the only one in the last block of its directory, \<open>fs_rmdir\<close> of a
  path that is not \<open>/\<close> and does not go through \<open>.\<close> or \<open>..\<close>.  The walks along the path, the searches of directories page by page, the
  free list and the bitmap, and the loops over the blocks of a file all end.
\<close>
theorem handlers_return:
  assumes "system_reachable s" "clean ts"
  shows "(\<exists>r. fs_getattr (fuse_path ts) uid gid s0 s = Some r) \<and>
    (\<exists>r. fs_readdir (fuse_path ts) names filler uid gid s0 s = Some r) \<and>
    (\<exists>r. fs_open (fuse_path ts) fi uid gid s = Some r) \<and> (\<exists>r. fs_release (Some fi) s = Some r) \<and>
    (length buf < 2 ^ 64 \<longrightarrow> (\<exists>r. fs_read buf (int (length buf)) (int off) (Some fi) s = Some r)) \<and>
    (proper_write buf n off fi s \<longrightarrow> (\<exists>r. fs_write buf (int n) (int off) (Some fi) s = Some r)) \<and>
    (sz < 2 ^ 31 \<and> (\<forall>q n i. namei (fuse_path ts) uid gid (files s) = Some (SUCCESS, q, int n, i) \<longrightarrow>
        file_size (inode_at (files s) n) \<noteq> sz) \<longrightarrow> (\<exists>r. fs_truncate (fuse_path ts) (int sz) uid gid s = Some r)) \<and>
    (in_parent (\<lambda>n. n mod DIRENTS_PER_BLOCK \<noteq> 1) (fuse_path ts) uid gid (files s) \<longrightarrow>
      (\<exists>r. fs_unlink (fuse_path ts) uid gid s = Some r)) \<and>
    (small_dirs (files s) \<longrightarrow> (\<exists>r. fs_mknod (fuse_path ts) mode uid gid s = Some r)) \<and>
    (small_dirs (files s) \<and> mode AND 0x3000 = 0 \<longrightarrow> (\<exists>r. fs_mkdir (fuse_path ts) mode uid gid s = Some r)) \<and>
    (no_dots ts \<and> ts \<noteq> [] \<and> in_parent (\<lambda>n. n mod DIRENTS_PER_BLOCK \<noteq> 1) (fuse_path ts) uid gid (files s) \<longrightarrow>
      (\<exists>r. fs_rmdir (fuse_path ts) uid gid s = Some r))"
  using fs_getattr_total[OF reachable_ok[OF assms(1)] assms(2)] fs_readdir_total[OF reachable_ok[OF assms(1)] assms(2)]
    open_returns[OF assms] fs_read_total[OF reachable_ok[OF assms(1)] order_refl]
    some_result[OF fs_release_total[OF reachable_ok[OF assms(1)]]]
    some_result[OF fs_write_total[OF reachable_ok[OF assms(1)]]]
    fs_truncate_returns[OF reachable_ok[OF assms(1)] assms(2)]
    some_result[OF fs_unlink_total[OF reachable_ok[OF assms(1)] assms(2)]]
    some_result[OF fs_mknod_total[OF reachable_ok[OF assms(1)] assms(2)]]
    some_result[OF fs_mkdir_total[OF reachable_ok[OF assms(1)] assms(2)]]
    some_result[OF fs_rmdir_tree[OF reachable_ok[OF assms(1)] assms(2)]]
  by (intro conjI impI; (elim conjE)?; assumption?)

lemma handlers_return_witness:
  "\<exists>r. fs_unlink (path_of [name_a]) 0 0 with_a_system = Some r"
proof -
  obtain index where "namei (path_of ([] @ [name_a])) 0 0 with_a = Some (SUCCESS, int 1, found name_a (entries_of with_a 1), index)"
    using creatable_namei[OF with_a_ok with_a_creatable] by metis
  then have "in_parent (\<lambda>n. n mod DIRENTS_PER_BLOCK \<noteq> 1) (fuse_path [name_a]) 0 0 (files with_a_system)"
    unfolding in_parent_def clean_a using with_a_find(2) by (auto simp: c_consts)
  with handlers_return[OF with_a_reachable clean_a(1), of 0 0, THEN conjunct2, THEN conjunct2, THEN conjunct2,
      THEN conjunct2, THEN conjunct2, THEN conjunct2, THEN conjunct2, THEN conjunct1]
  show ?thesis unfolding clean_a append_Nil by (rule mp)
qed

section \<open>The tree of folders and files\<close>

lemma tree_of_simps:
  assumes "names_ok s lost"
  shows "tree_of s [] = Some Folder" "tree_of s (us @ [x]) \<noteq> None \<Longrightarrow> tree_of s us = Some Folder"
  using names_okD(7)[OF assms] by (auto simp: tree_of_def node_at_snoc shown_def split: option.splits if_splits)

text \<open>
  C1: the handlers implement operations on a tree.  Let \<open>tree_of\<close> map the paths without \<open>.\<close> and \<open>..\<close> to folders
  and contents of files.  In every reachable state, for paths without \<open>.\<close> and \<open>..\<close>, \<open>fs_mknod\<close> and \<open>fs_mkdir\<close>
  enter an empty file or folder at a free path below a folder (directories stay below \<open>2 ^ 31\<close> bytes; mode without bits of 0x3000),
  \<open>fs_unlink\<close> removes a file and \<open>fs_rmdir\<close>, of a path other than \<open>/\<close>, a folder with all that is below it, for
  the code does not ask whether it is empty (in both cases the name is not the only one in the last block of its directory, where the
  code leaves a pointer to a freed block), \<open>fs_truncate\<close> cuts a file or fills it up with zeros (to a larger size below \<open>2 ^ 31\<close>, or
  inside its last block behind a byte that is not zero, where no block is freed), \<open>fs_open\<close> connects a new descriptor with the path; nothing else in the tree changes, and nothing at all when an error is
  returned.
\<close>
theorem handlers_refine_tree:
  assumes "system_reachable s" "clean ts" "no_dots ts"
  shows "tree_of (files s) [] = Some Folder \<and>
    (\<forall>us x. tree_of (files s) (us @ [x]) \<noteq> None \<longrightarrow> tree_of (files s) us = Some Folder) \<and>
    (small_dirs (files s) \<and> fs_mknod (fuse_path ts) mode uid gid s = Some (ret, t) \<longrightarrow>
      created (files s) (files t) ts ret (Plain [])) \<and>
    (small_dirs (files s) \<and> mode AND 0x3000 = 0 \<and> fs_mkdir (fuse_path ts) mode uid gid s = Some (ret, t) \<longrightarrow>
      created (files s) (files t) ts ret Folder) \<and>
    (in_parent (\<lambda>n. n mod DIRENTS_PER_BLOCK \<noteq> 1) (fuse_path ts) uid gid (files s) \<and>
      fs_unlink (fuse_path ts) uid gid s = Some (ret, t) \<longrightarrow> unlinked s t ts ret) \<and>
    (ts \<noteq> [] \<and> in_parent (\<lambda>n. n mod DIRENTS_PER_BLOCK \<noteq> 1) (fuse_path ts) uid gid (files s) \<and>
      fs_rmdir (fuse_path ts) uid gid s = Some (ret, t) \<longrightarrow> folder_removed s t ts ret) \<and>
    (proper_truncate (fuse_path ts) sz uid gid (files s) \<and>
      fs_truncate (fuse_path ts) (int sz) uid gid s = Some (ret, t) \<longrightarrow> resized s t ts sz ret) \<and>
    (fs_open (fuse_path ts) fi uid gid s = Some (ret, fi', t) \<longrightarrow> opens_path s t ts ret fi fi')"
proof -
  note s = reachable_ok[OF assms(1)]
  note tr = tree_of_simps[OF system_okD(2)[OF s]]
  have "created (files s) (files t) ts ret (Plain [])"
    if "small_dirs (files s)" "fs_mknod (fuse_path ts) mode uid gid s = Some (ret, t)"
    using fs_mknod_total[OF s assms(2) that(1), of mode uid gid] that(2) assms(3) by auto
  moreover have "created (files s) (files t) ts ret Folder"
    if "small_dirs (files s)" "mode AND 0x3000 = 0" "fs_mkdir (fuse_path ts) mode uid gid s = Some (ret, t)"
    using fs_mkdir_total[OF s assms(2) that(1,2), of uid gid] that(3) assms(3) by auto
  moreover have "unlinked s t ts ret"
    if "in_parent (\<lambda>n. n mod DIRENTS_PER_BLOCK \<noteq> 1) (fuse_path ts) uid gid (files s)"
      "fs_unlink (fuse_path ts) uid gid s = Some (ret, t)"
    using fs_unlink_total[OF s assms(2) that(1)] that(2) assms(3) by auto
  moreover have "folder_removed s t ts ret"
    if "ts \<noteq> []" "in_parent (\<lambda>n. n mod DIRENTS_PER_BLOCK \<noteq> 1) (fuse_path ts) uid gid (files s)"
      "fs_rmdir (fuse_path ts) uid gid s = Some (ret, t)"
    using fs_rmdir_tree[OF s assms(2,3) that(1,2)] that(3) by auto
  moreover have "resized s t ts sz ret"
    if "proper_truncate (fuse_path ts) sz uid gid (files s)" "fs_truncate (fuse_path ts) (int sz) uid gid s = Some (ret, t)"
    using fs_truncate_total[OF s assms(2) that(1)] that(2) assms(3) by auto
  moreover have "opens_path s t ts ret fi fi'" if "fs_open (fuse_path ts) fi uid gid s = Some (ret, fi', t)"
    using fs_open_total[OF s assms(2), of fi uid gid] that assms(3) by auto
  ultimately show ?thesis using tr by blast
qed

lemma formatted_tree: "tree_of formatted = [[] \<mapsto> Folder]"
proof
  fix ts
  note t = system_okD(2)[OF reachable_ok[OF formatted_reachable], simplified]
  have "node_at formatted 1 [] = Some 1" by simp
  then have "ts = []" if "node_at formatted 1 ts = Some n" for n
    using that node_named[OF t that] one_path[OF t that, of "[]"] formatted_used by auto
  then show "tree_of formatted ts = [[] \<mapsto> Folder] ts"
    using tree_of_simps(1)[OF t] by (cases "node_at formatted 1 ts") (auto simp: tree_of_def)
qed

lemma clean_dots: "no_dots [name_a]"
  by (simp add: name_a_def DOT_def DOT_DOT_def)

lemma handlers_refine_tree_witness: "tree_of with_a = [[] \<mapsto> Folder, [name_a] \<mapsto> Plain []]"
proof -
  let ?s = "\<lparr>files = formatted, oft_inodes = [], oft_fds = []\<rparr>"
  have "small_dirs formatted" using formatted_small .
  moreover have "fs_mknod (fuse_path [name_a]) 0x1a4 0 0 ?s = Some (SUCCESS, with_a_system)" using formatted_mknod .
  ultimately have "created (files ?s) (files with_a_system) [name_a] SUCCESS (Plain [])"
    by (intro handlers_refine_tree[OF formatted_reachable clean_a(1) clean_dots, THEN conjunct2, THEN conjunct2,
        THEN conjunct1, THEN mp] conjI) simp_all
  then show ?thesis by (simp add: created_def formatted_tree)
qed

lemma with_a_tree: "tree_of with_a = [[] \<mapsto> Folder, [name_a] \<mapsto> Plain []]"
proof -
  have "created formatted with_a [name_a] SUCCESS (Plain [])"
    using fs_mknod_total[OF reachable_ok[OF formatted_reachable] clean_a(1), of "0x1a4" 0 0] formatted_small formatted_mknod clean_dots
    by simp
  then show ?thesis by (simp add: created_def formatted_tree)
qed

text \<open>
  C3: the descriptors of open files.  In every reachable state a descriptor belongs to at most one path of the
  tree; \<open>fs_read\<close> returns the window of the file at this path, for a buffer with room for it, and \<open>fs_release\<close>
  changes nothing in the tree.  \<open>fs_write\<close> changes the file of its descriptor only, by the bytes of the buffer from
  the offset or, with \<open>O_APPEND\<close>, from its end: all of them with their number as result, a proper prefix, whose length is
  not reported, with \<open>- ENOSPC\<close>, none with \<open>- EBADF\<close>.  This holds for writes with the flags given to \<open>open\<close>, of at
  least one byte of the buffer, to files that stay below \<open>2 ^ 31\<close> bytes, whose test for zeros does not take data for zeros (\<open>write_honest\<close>);
  others can lose data with success reported.  The file of an unlinked path can be written and closed without
  any effect on the tree.
\<close>
theorem descriptors_refine_tree:
  assumes "system_reachable s"
  shows "(opened_at s fd p \<and> opened_at s fd q \<longrightarrow> p = q) \<and>
    (opened_at s (c_int (fi_fh fi)) p \<and> tree_of (files s) p = Some (Plain c) \<and>
      (fi_flags fi AND O_ACCMODE = O_RDONLY \<or> fi_flags fi AND O_ACCMODE = O_RDWR) \<and>
      n < 2 ^ 64 \<and> length (window off n c) \<le> length buf \<longrightarrow>
      fs_read buf (int n) (int off) (Some fi) s =
        Some (int (length (window off n c)), overlay 0 (window off n c) buf)) \<and>
    (proper_write buf n off fi s \<and> fs_write buf (int n) (int off) (Some fi) s = Some (ret, t) \<longrightarrow>
      write_effect buf n off fi ret s t) \<and>
    (fs_release (Some fi) s = Some (ret, t) \<longrightarrow> tree_of (files t) = tree_of (files s))"
proof -
  note s = reachable_ok[OF assms]
  have "p = q" if "opened_at s fd p" "opened_at s fd q"
    using that one_path[OF system_okD(2)[OF s]] by (auto simp: opened_at_def)
  then show ?thesis
    using fs_read_opened[OF s, of fi p c n off buf] fs_write_total[OF s, of buf n off fi] fs_release_total[OF s, of fi] by auto
qed

lemma open_a:
  "fs_open (fuse_path [name_a]) \<lparr>fi_flags = 0x401, fi_fh = 0\<rparr> 0 0 with_a_system =
    Some (0, \<lparr>fi_flags = 0x401, fi_fh = 10\<rparr>, one_open with_a 2 0x401)"
proof -
  obtain index where nm: "namei (path_of ([] @ [name_a])) 0 0 with_a = Some (SUCCESS, int 1, found name_a (entries_of with_a 1), index)"
    using creatable_namei[OF with_a_ok with_a_creatable] by metis
  have f: "found name_a (entries_of with_a 1) = 2" using with_a_find(1,3) by (simp add: found_def)
  have m: "mounted with_a" using fs_ok_mounted[OF with_a_ok] .
  have "may_write 0 0 (file_inode 0x1a4 0 0)"
    by (simp add: may_write_def granted_def file_inode_def has_def S_IWUSR_def S_IFREG_def S_IFDIR_def)
  then have w: "permissions 2 0 0 with_a = (may_read 0 0 (inode_at with_a 2), True, may_exec 0 0 (inode_at with_a 2))"
    using permissions_eq[OF m with_a_inum] by (simp add: with_a_inode)
  have l: "local_inode 2 with_a = (SUCCESS, inode_at with_a 2)" using local_inode_ok[OF m with_a_inum] by simp
  show ?thesis
    unfolding clean_a with_a_system_def
    using nm f w l with_a_file(3) by (simp add: fs_open_def one_open_add INVALID_INODE_def)
qed

lemma descriptors_refine_tree_witness:
  "\<exists>ret t q. fs_write [7, 8] (int 2) (int 0) (Some \<lparr>fi_flags = 0x401, fi_fh = 10\<rparr>) (one_open with_a 2 0x401) = Some (ret, t) \<and>
    (ret = 2 \<and> q = 2 \<or> ret = - ENOSPC \<and> q < 2 \<or> ret = - EBADF \<and> q = 0) \<and> tree_of (files t) = [[] \<mapsto> Folder, [name_a] \<mapsto> Plain (take q [7, 8])]"
proof -
  let ?s = "one_open with_a 2 0x401" and ?fi = "\<lparr>fi_flags = 0x401, fi_fh = 10\<rparr>" and ?T = "[[] \<mapsto> Folder, [name_a] \<mapsto> Plain []]"
  have r: "system_reachable ?s" by (rule system_reachable.step[OF with_a_reachable handler_step.opened[OF clean_a(1) open_a]])
  have z: "file_size (inode_at with_a 2) = 0" by (simp add: with_a_inode file_inode_empty(3))
  have "write_honest with_a (inode_at with_a 2) [7, 8] 0 2" by (rule write_honest_first) simp_all
  then have p: "proper_write [7, 8] 2 0 ?fi ?s" by (auto simp: proper_write_def z)
  obtain ret t where t: "fs_write [7, 8] (int 2) (int 0) (Some ?fi) ?s = Some (ret, t)"
    using fs_write_total[OF reachable_ok[OF r] p] by blast
  have "write_effect [7, 8] 2 0 ?fi ret ?s t"
    by (rule descriptors_refine_tree[OF r, THEN conjunct2, THEN conjunct2, THEN conjunct1, THEN mp, OF conjI[OF p t]])
  then obtain q where q: "ret = 2 \<and> q = 2 \<or> ret = - ENOSPC \<and> q < 2 \<or> ret = - EBADF \<and> q = 0" "tree_of (files t) =
      map_files (opened_at ?s 10) (\<lambda>c. apply_write (length c) (take q [7, 8]) c) (tree_of with_a)"
    by (simp add: write_effect_def) blast
  have "opened_at ?s 10 [name_a]"
    using fs_open_total[OF reachable_ok[OF with_a_reachable] clean_a(1), of "\<lparr>fi_flags = 0x401, fi_fh = 0\<rparr>" 0 0] open_a clean_dots
    by (simp add: opens_path_def)
  moreover have "apply_write 0 d [] = d" for d by (simp add: apply_write_def overlay_def)
  ultimately have "tree_of (files t) = [[] \<mapsto> Folder, [name_a] \<mapsto> Plain (take q [7, 8])]"
    unfolding q(2) with_a_tree by (auto simp: map_files_def)
  then show ?thesis using t q(1) by blast
qed

text \<open>
  C5: what the handlers that only look say about the tree.  In every reachable state \<open>fs_getattr\<close> and \<open>fs_readdir\<close>
  answer \<open>- ENOENT\<close> only for paths that are not in the tree; the attributes of \<open>fs_getattr\<close> tell folders from files
  and have the length of the file; \<open>fs_readdir\<close> succeeds on folders only and passes the names in the folder, each
  once, and \<open>.\<close> and \<open>..\<close>, to a filler with room for all of them.
\<close>
theorem queries_refine_tree:
  assumes "system_reachable s" "clean ts" "no_dots ts"
  shows "(fs_getattr (fuse_path ts) uid gid s0 s = Some (ret, st) \<longrightarrow>
      (ret = - ENOENT \<longrightarrow> tree_of (files s) ts = None) \<and>
      (ret = 0 \<longrightarrow> (\<exists>a. st = Some a \<and> (case tree_of (files s) ts of None \<Rightarrow> False
        | Some Folder \<Rightarrow> S_ISDIR (st_mode a)
        | Some (Plain c) \<Rightarrow> \<not> S_ISDIR (st_mode a) \<and> st_size a = int (length c))))) \<and>
    (fs_readdir (fuse_path ts) [] collect uid gid s0 s = Some (ret, names) \<longrightarrow>
      (ret = - ENOENT \<longrightarrow> tree_of (files s) ts = None) \<and>
      (ret = 0 \<longrightarrow> tree_of (files s) ts = Some Folder \<and> distinct names \<and>
        set names = {DOT, DOT_DOT} \<union> {x. tree_of (files s) (ts @ [x]) \<noteq> None}))"
  using fs_getattr_node[OF reachable_ok[OF assms(1)] assms(2,3), of uid gid s0 ret st]
    fs_readdir_node[OF reachable_ok[OF assms(1)] assms(2,3), of uid gid s0 ret names]
  by (auto simp: describes_def)

lemma queries_refine_tree_witness:
  "\<forall>s0. \<exists>names. fs_readdir (fuse_path []) [] collect 0 0 s0 with_a_system = Some (0, names) \<and> distinct names \<and>
    set names = {DOT, DOT_DOT, name_a}"
proof
  fix s0
  have c: "clean []" "no_dots []" by (simp_all add: clean_def)
  have k: "valid_inum with_a 1" "dir_ok with_a (inode_at with_a 1)" using with_a_dir by (simp_all add: is_dir_def)
  have m: "mounted with_a" by (rule fs_ok_mounted[OF with_a_ok])
  have nm: "namei [SLASH] 0 0 with_a = Some (SUCCESS, 1, 1, 0)" by (simp add: namei_def strtok.simps)
  obtain names where n: "fs_readdir (fuse_path []) [] collect 0 0 s0 with_a_system = Some (0, names)"
    using nm readdir_pages_spec[of with_a_system 1 0 "uninit BLOCK_SIZE with_a" 0 collect s0 "[]"] m k dir_okD(3)[OF k(2)]
      local_inode_ok[OF m k(1)]
    by (simp add: fs_readdir_def fuse_path_def INVALID_INODE_def)
  have t: "tree_of with_a [x] \<noteq> None \<longleftrightarrow> x = name_a" for x by (simp add: with_a_tree)
  have "distinct names \<and> set names = {DOT, DOT_DOT} \<union> {x. tree_of (files with_a_system) ([] @ [x]) \<noteq> None}"
    using queries_refine_tree[OF with_a_reachable c, of 0 0 s0 0 _ names] n by blast
  then show "\<exists>names. fs_readdir (fuse_path []) [] collect 0 0 s0 with_a_system = Some (0, names) \<and> distinct names \<and>
      set names = {DOT, DOT_DOT, name_a}"
    using n t by auto
qed

end
