(* ===== verification/DeviceDisk.thy ===== *)
theory DeviceDisk
  imports Superblock
begin

text \<open>
  Layer 0 and the superblock of the later version in \<open>src/phase 2\<close>, which keeps its blocks in a device
  file.  The state is the same record: \<open>disk\<close> is now the content of the device behind \<open>layer0_fd\<close>,
  \<open>None\<close> for \<open>UNINITIALIZED_FD\<close>; no operation reads \<open>total_blocks\<close>.  The code of layer 1 that did not
  change between the versions is modelled again over the new layer 0, with the suffix \<open>_dev\<close>, and
  shown to be the same function on every mounted disk.
\<close>

section \<open>Layer 0\<close>

definition NUM_BLOCKS :: nat where [c_consts]: "NUM_BLOCKS = 2000000"

text \<open>
  \<open>lseek\<close> and \<open>write\<close>, \<open>lseek\<close> and \<open>read\<close> on a device of fixed size: only what lies inside it is
  transferred.  Their results are not looked at; errors of the device are not modelled.
\<close>

definition device_write :: "nat \<Rightarrow> byte list \<Rightarrow> byte list \<Rightarrow> byte list" where
  "device_write off b d = overlay off (take (length d - off) b) d"

definition device_read :: "nat \<Rightarrow> nat \<Rightarrow> byte list \<Rightarrow> byte list" where
  "device_read off n d = window off n d"

definition write_block_dev ::
    "int \<Rightarrow> byte list option \<Rightarrow> 'a layer0_scheme \<Rightarrow> int \<times> 'a layer0_scheme" where
  "write_block_dev blocknum write_buf s =
    (case disk s of
       None \<Rightarrow> (DISC_UNINITIALIZED, s)
     | Some d \<Rightarrow>
         if int NUM_BLOCKS \<le> blocknum \<or> blocknum < 0 then (INVALID_BLOCK, s)
         else case write_buf of
           None \<Rightarrow> (BUF_NULL, s)
         | Some buf \<Rightarrow>
             (let write_start = nat blocknum * BLOCK_SIZE
              in (SUCCESS, s\<lparr>disk := Some (device_write write_start (take BLOCK_SIZE buf) d)\<rparr>)))"

definition read_block_dev ::
    "int \<Rightarrow> byte list option \<Rightarrow> 'a layer0_scheme \<Rightarrow> int \<times> byte list" where
  "read_block_dev blocknum read_buf s =
    (case disk s of
       None \<Rightarrow> (DISC_UNINITIALIZED, contents read_buf)
     | Some d \<Rightarrow>
         if int NUM_BLOCKS \<le> blocknum \<or> blocknum < 0 then (INVALID_BLOCK, contents read_buf)
         else case read_buf of
           None \<Rightarrow> (BUF_NULL, [])
         | Some buf \<Rightarrow>
             (let read_start = nat blocknum * BLOCK_SIZE
              in (SUCCESS, overlay 0 (device_read read_start BLOCK_SIZE d) buf)))"

text \<open>On the blocks of a disk that fits the device the two versions agree.\<close>

lemma block_dev_eq:
  assumes "disk_ok s" "nblocks s \<le> NUM_BLOCKS" "0 \<le> n" "n < int (nblocks s)"
  shows "read_block_dev n b s = read_block n b s" "write_block_dev n b s = write_block n b s"
proof -
  obtain d where d: "disk s = Some d" "length d = nblocks s * BLOCK_SIZE" "total_blocks s = int (nblocks s)"
    using assms(1) by (rule disk_okE)
  have n: "nat n < nblocks s" "n < int NUM_BLOCKS" using assms(2-4) by simp_all
  have "nat n * BLOCK_SIZE + BLOCK_SIZE \<le> length d" using slot_inside[OF n(1), of BLOCK_SIZE] d(2) by argo
  then have "BLOCK_SIZE \<le> length d - nat n * BLOCK_SIZE" by arith
  then have "take (length d - nat n * BLOCK_SIZE) (take BLOCK_SIZE buf) = take BLOCK_SIZE buf" for buf :: "byte list"
    by (intro take_all) simp
  then have w: "device_write (nat n * BLOCK_SIZE) (take BLOCK_SIZE buf) d = overlay (nat n * BLOCK_SIZE) (take BLOCK_SIZE buf) d"
    for buf by (simp add: device_write_def)
  show "read_block_dev n b s = read_block n b s" "write_block_dev n b s = write_block n b s"
    using assms(3,4) n(2) d(1,3)
    by (simp_all add: read_block_dev_def read_block_def write_block_dev_def write_block_def device_read_def w Let_def
        split: option.split)
qed

section \<open>The superblock\<close>

primrec read_superblock_loop_dev :: "nat list \<Rightarrow> byte list \<Rightarrow> 'a layer0_scheme \<Rightarrow> int \<times> byte list" where
  "read_superblock_loop_dev [] temp_buffer s = (SUCCESS, temp_buffer)"
| "read_superblock_loop_dev (i # is) temp_buffer s =
    (let (ret, b) = read_block_dev (int i) (Some (window (BLOCK_SIZE * i) BLOCK_SIZE temp_buffer)) s
     in if ret \<noteq> SUCCESS then (DISC_UNINITIALIZED, temp_buffer)
        else read_superblock_loop_dev is (overlay (BLOCK_SIZE * i) b temp_buffer) s)"

definition read_superblock_dev ::
    "superblock option \<Rightarrow> 'a layer1_scheme \<Rightarrow> int \<times> superblock" where
  "read_superblock_dev sb s =
    (case sb of
       None \<Rightarrow> (BUF_NULL, uninit_superblock s)
     | Some old \<Rightarrow>
         (case cached_superblock s of
            Some c \<Rightarrow> (SUCCESS, c)
          | None \<Rightarrow>
              (let (ret, temp_buffer) = read_superblock_loop_dev [0..<SUPERBLOCK_SIZE]
                     (uninit (BLOCK_SIZE * SUPERBLOCK_SIZE) s) s
               in if ret \<noteq> SUCCESS then (ret, old) else (SUCCESS, dec_superblock temp_buffer))))"

primrec write_superblock_loop_dev ::
    "nat list \<Rightarrow> byte list \<Rightarrow> 'a layer0_scheme \<Rightarrow> int \<times> 'a layer0_scheme" where
  "write_superblock_loop_dev [] temp_buffer s = (SUCCESS, s)"
| "write_superblock_loop_dev (i # is) temp_buffer s =
    (let (ret, s') = write_block_dev (int i) (Some (window (BLOCK_SIZE * i) BLOCK_SIZE temp_buffer)) s
     in if ret \<noteq> SUCCESS then (DISC_UNINITIALIZED, s')
        else write_superblock_loop_dev is temp_buffer s')"

definition write_superblock_dev ::
    "superblock option \<Rightarrow> 'a layer1_scheme \<Rightarrow> int \<times> 'a layer1_scheme" where
  "write_superblock_dev sb s =
    (case sb of
       None \<Rightarrow> (BUF_NULL, s)
     | Some c \<Rightarrow>
         (let s1 = s\<lparr>cached_superblock := Some c\<rparr>;
              n = BLOCK_SIZE * SUPERBLOCK_SIZE;
              temp_buffer = overlay 0 (enc_superblock c) (uninit n s1)
          in write_superblock_loop_dev [0..<SUPERBLOCK_SIZE] temp_buffer (consume n s1)))"

definition local_superblock_dev :: "'a layer1_scheme \<Rightarrow> int \<times> superblock" where
  "local_superblock_dev s = read_superblock_dev (Some (uninit_superblock s)) s"

lemma read_superblock_dev_eq:
  assumes "disk_ok s" "0 < nblocks s" "nblocks s \<le> NUM_BLOCKS"
  shows "read_superblock_dev sb s = read_superblock sb s"
proof -
  have "read_block_dev 0 b s = read_block 0 b s" for b
    using block_dev_eq(1)[OF assms(1,3), of 0] assms(2) by simp
  then show ?thesis by (simp add: read_superblock_dev_def read_superblock_def Let_def split: option.split prod.split)
qed

lemma write_superblock_dev_eq:
  assumes "disk_ok s" "0 < nblocks s" "nblocks s \<le> NUM_BLOCKS"
  shows "write_superblock_dev sb s = write_superblock sb s"
proof -
  have "write_block_dev 0 b (consume n (s\<lparr>cached_superblock := c\<rparr>)) = write_block 0 b (consume n (s\<lparr>cached_superblock := c\<rparr>))"
    for b n c using block_dev_eq(2)[of "consume n (s\<lparr>cached_superblock := c\<rparr>)" 0] assms by simp
  then show ?thesis by (simp add: write_superblock_dev_def write_superblock_def Let_def split: option.split prod.split)
qed

text \<open>On a mounted disk.\<close>

lemma mounted_device:
  assumes "mounted s"
  shows "disk_ok s" "0 < nblocks s" "nblocks s \<le> NUM_BLOCKS"
  using mounted_regions[OF assms] mounted_disk_ok[OF assms] by (simp_all add: NUM_BLOCKS_def)

lemma local_superblock_dev_mounted [simp]: "mounted s \<Longrightarrow> local_superblock_dev s = (SUCCESS, sb_of s)"
  using local_superblock_mounted[of s] read_superblock_dev_eq[OF mounted_device[of s]]
  by (simp add: local_superblock_dev_def local_superblock_def)

lemma block_dev_mounted:
  assumes "mounted s" "k < nblocks s"
  shows "read_block_dev (int k) b s = read_block (int k) b s" "write_block_dev (int k) b s = write_block (int k) b s"
  using block_dev_eq[OF mounted_device(1,3)[OF assms(1)], of "int k"] assms(2) by simp_all

end
