(* ===== verification/DeviceData.thy ===== *)
theory DeviceData
  imports DeviceDisk FreeList
begin

text \<open>
  The data blocks of the version on a device, the code of \<open>src/phase 2/layer1.c\<close>.  On a mounted disk
  every operation is the one of the version in memory, so that all its theorems carry over.
\<close>

definition data_read_dev ::
    "int \<Rightarrow> byte list option \<Rightarrow> 'a layer1_scheme \<Rightarrow> int \<times> byte list" where
  "data_read_dev data_block_num read_buf s =
    (let (ret, sb) = local_superblock_dev s in
     if ret \<noteq> SUCCESS then (DISC_UNINITIALIZED, contents read_buf)
     else if data_block_num < 0 \<or> uint (sb_data_size sb) < data_block_num
     then (INVALID_BLOCK, contents read_buf)
     else case read_buf of
       None \<Rightarrow> (BUF_NULL, [])
     | Some buf \<Rightarrow>
         if data_block_num = 0 then (SUCCESS, overlay 0 (replicate BLOCK_SIZE 0) buf)
         else (let total_offset = sint (sb_data_block_offset sb + word_of_int data_block_num - 1)
               in read_block_dev total_offset read_buf s))"

definition data_write_dev ::
    "int \<Rightarrow> byte list option \<Rightarrow> 'a layer1_scheme \<Rightarrow> int \<times> 'a layer1_scheme" where
  "data_write_dev data_block_num write_buf s =
    (let (ret, sb) = local_superblock_dev s in
     if ret \<noteq> SUCCESS then (DISC_UNINITIALIZED, s)
     else if data_block_num \<le> 0 \<or> uint (sb_data_size sb) < data_block_num then (INVALID_BLOCK, s)
     else (let total_offset = sint (sb_data_block_offset sb + word_of_int data_block_num - 1)
           in write_block_dev total_offset write_buf s))"

partial_function (option) data_free_scan_dev ::
    "int \<Rightarrow> freelist_node \<Rightarrow> 'a layer1_scheme \<Rightarrow> (int \<times> freelist_node \<times> nat) option option" where
  "data_free_scan_dev cur_loc cur_node s =
    (if cur_loc = INVALID_DATA then Some None
     else (let node = dec_node (snd (data_read_dev cur_loc (Some (enc_node cur_node)) s))
           in case first_index (\<lambda>a. a = 0) (fl_addr node) of
                Some i \<Rightarrow> Some (Some (cur_loc, node, i))
              | None \<Rightarrow> data_free_scan_dev (sint (fl_next node)) node s))"

definition data_free_dev :: "int \<Rightarrow> 'a layer1_scheme \<Rightarrow> (int \<times> 'a layer1_scheme) option" where
  "data_free_dev data_block_num s =
    (let (ret, sb) = local_superblock_dev s in
     if ret \<noteq> SUCCESS then Some (DISC_UNINITIALIZED, s)
     else if data_block_num \<le> 0 \<or> uint (sb_data_size sb) < data_block_num then Some (INVALID_BLOCK, s)
     else
       (let original_root = sint (sb_free_list_head sb) in
        case data_free_scan_dev original_root (dec_node (uninit BLOCK_SIZE s)) s of
          None \<Rightarrow> None
        | Some (Some (cur_loc, cur_node, i)) \<Rightarrow>
            (let cur_node = cur_node\<lparr>fl_addr := (fl_addr cur_node)[i := word_of_int data_block_num]\<rparr>;
                 (_, s1) = data_write_dev cur_loc (Some (enc_node cur_node)) s
             in Some (SUCCESS, s1))
        | Some None \<Rightarrow>
            (let cur_node = zero_node\<lparr>fl_next := word_of_int original_root\<rparr>;
                 sb = sb\<lparr>sb_free_list_head := word_of_int data_block_num\<rparr>;
                 (_, s1) = data_write_dev data_block_num (Some (enc_node cur_node)) s;
                 (_, s2) = write_superblock_dev (Some sb) s1
             in Some (SUCCESS, s2))))"

definition data_allocate_dev ::
    "byte list option \<Rightarrow> int \<Rightarrow> 'a layer1_scheme \<Rightarrow> int \<times> int \<times> 'a layer1_scheme" where
  "data_allocate_dev new_data data_block_num s =
    (let (ret, sb) = local_superblock_dev s in
     if ret \<noteq> SUCCESS then (DISC_UNINITIALIZED, data_block_num, s)
     else if sb_free_list_head sb = 0 then (DATA_FULL, data_block_num, s)
     else
       (let head = sint (sb_free_list_head sb);
            cur = dec_node (snd (data_read_dev head (Some (uninit BLOCK_SIZE s)) s))
        in case first_index (\<lambda>a. a \<noteq> 0) (fl_addr cur) of
             Some i \<Rightarrow>
               (let data_block_num = sint (fl_addr cur ! i);
                    cur = cur\<lparr>fl_addr := (fl_addr cur)[i := 0]\<rparr>;
                    (_, s1) = data_write_dev head (Some (enc_node cur)) s;
                    (ret, s2) = data_write_dev data_block_num new_data s1
                in (ret, data_block_num, s2))
           | None \<Rightarrow>
               (let sb = sb\<lparr>sb_free_list_head := fl_next cur\<rparr>;
                    (_, s1) = write_superblock_dev (Some sb) s;
                    (ret, s2) = data_write_dev head new_data s1
                in (ret, head, s2))))"

section \<open>The same functions on a mounted disk\<close>

lemma data_access_dev_eq:
  assumes "mounted s"
  shows "data_read_dev n b s = data_read n b s" "data_write_dev n b s = data_write n b s"
proof -
  have *: "read_block_dev (sint (sb_data_block_offset (sb_of s) + word_of_int n - 1)) b s =
      read_block (sint (sb_data_block_offset (sb_of s) + word_of_int n - 1)) b s \<and>
    write_block_dev (sint (sb_data_block_offset (sb_of s) + word_of_int n - 1)) b s =
      write_block (sint (sb_data_block_offset (sb_of s) + word_of_int n - 1)) b s"
    if "0 < n" "n \<le> uint (sb_data_size (sb_of s))" for b
  proof -
    have v: "valid_data s (nat n)" using that by (simp add: valid_data_def uint_regions nat_le_iff)
    have "sint (sb_data_block_offset (sb_of s) + word_of_int n - 1) = int (data_off s + dslot (nat n))"
      using data_offset[OF assms v] that(1) by simp
    then show ?thesis using block_dev_mounted[OF assms valid_data_range(2)[OF assms v], of b] by simp
  qed
  show "data_read_dev n b s = data_read n b s" "data_write_dev n b s = data_write n b s"
    using * assms by (auto simp: data_read_dev_def data_read_def data_write_dev_def data_write_def Let_def
        split: option.split)
qed

lemma data_free_scan_dev_eq:
  assumes "mounted s"
  shows "data_free_scan_dev l c s = data_free_scan l c s"
proof -
  have "mounted s \<longrightarrow> data_free_scan l c s = Some r" if "data_free_scan_dev l c s = Some r" for r
    by (rule data_free_scan_dev.raw_induct[OF _ that, of "\<lambda>l c s r. mounted s \<longrightarrow> data_free_scan l c s = Some r"])
      (subst data_free_scan.simps, auto simp: data_access_dev_eq Let_def split: if_splits option.splits)
  moreover have "mounted s \<longrightarrow> data_free_scan_dev l c s = Some r" if "data_free_scan l c s = Some r" for r
    by (rule data_free_scan.raw_induct[OF _ that, of "\<lambda>l c s r. mounted s \<longrightarrow> data_free_scan_dev l c s = Some r"])
      (subst data_free_scan_dev.simps, auto simp: data_access_dev_eq Let_def split: if_splits option.splits)
  ultimately show ?thesis using assms by (metis option.exhaust)
qed

lemma data_access_block:
  assumes "mounted s" "is_block x"
  shows "is_block (snd (data_read n (Some x) s))" "mounted (snd (data_write n (Some x) s))"
proof -
  consider "n < 0" | "n = 0" | "int (ndata s) < n" | "valid_data s (nat n)" "n = int (nat n)"
    by (cases "n < 0"; cases "n = 0"; cases "int (ndata s) < n"; auto simp: valid_data_def nat_le_iff)
  then have "is_block (snd (data_read n (Some x) s)) \<and> mounted (snd (data_write n (Some x) s))"
  proof cases
    case 2
    then show ?thesis using assms data_read_0[OF assms] data_write_0[OF assms(1)] by (simp add: data_blk_def is_block_def)
  next
    case 4
    then have "data_read n (Some x) s = (SUCCESS, data_blk s (nat n))" "data_write n (Some x) s = (SUCCESS, put_data (nat n) x s)"
      using data_read_ok[OF assms(1) 4(1) assms(2)] data_write_ok[OF assms(1) 4(1) assms(2)] by simp_all
    then show ?thesis using assms 4(1) by simp
  qed (use assms data_access_bad[OF assms(1)] in auto)
  then show "is_block (snd (data_read n (Some x) s))" "mounted (snd (data_write n (Some x) s))" by blast+
qed

lemma write_superblock_dev_mounted: "mounted s \<Longrightarrow> write_superblock_dev sb s = write_superblock sb s"
  by (rule write_superblock_dev_eq[OF mounted_device])

lemma data_free_dev_eq:
  assumes "mounted s"
  shows "data_free_dev n s = data_free n s"
proof -
  have "is_block (enc_node (zero_node\<lparr>fl_next := x\<rparr>))" for x by (rule length_enc_node) simp
  then have "mounted (snd (data_write n (Some (enc_node (zero_node\<lparr>fl_next := x\<rparr>))) s))" for x
    by (rule data_access_block(2)[OF assms])
  then have "write_superblock_dev sb (snd (data_write n (Some (enc_node (zero_node\<lparr>fl_next := x\<rparr>))) s)) =
      write_superblock sb (snd (data_write n (Some (enc_node (zero_node\<lparr>fl_next := x\<rparr>))) s))" for x sb
    by (rule write_superblock_dev_mounted)
  then show ?thesis
    using assms
    by (simp add: data_free_dev_def data_free_def data_free_scan_dev_eq data_access_dev_eq case_prod_beta Let_def
        split: option.split)
qed

lemma data_allocate_dev_eq:
  assumes "mounted s"
  shows "data_allocate_dev d n s = data_allocate d n s"
proof -
  let ?h = "sint (sb_free_list_head (sb_of s))"
  define cur where "cur = dec_node (snd (data_read ?h (Some (uninit BLOCK_SIZE s)) s))"
  have wf: "node_wf cur" unfolding cur_def by (intro node_wf_dec data_access_block(1)[OF assms]) simp
  have m: "mounted (snd (data_write ?h (Some (enc_node (cur\<lparr>fl_addr := (fl_addr cur)[i := 0]\<rparr>))) s))" for i
    by (intro data_access_block(2)[OF assms] length_enc_node node_wf_update wf)
  have h: "mounted (snd (write_superblock (Some ((sb_of s)\<lparr>sb_free_list_head := x\<rparr>)) s))" for x
    using mounted_set_head[OF assms, of x] write_superblock_ok[OF mounted_device(1,2)[OF assms]]
    by (simp add: set_head_def)
  note e = data_access_dev_eq[OF assms] data_access_dev_eq(2)[OF m] data_access_dev_eq(2)[OF h]
    write_superblock_dev_mounted[OF assms]
  show ?thesis
    using assms
    by (simp add: data_allocate_dev_def data_allocate_def case_prod_beta Let_def cur_def[symmetric] e split: option.split)
qed

end
