(* ===== verification/DeviceInodes.thy ===== *)
theory DeviceInodes
  imports DeviceData
begin

text \<open>
  Inodes of the version on a device: the struct with a size of 64 bits, its packed table, and the
  bitmap.  \<open>inode_write\<close> sets the modification time of the caller's struct to \<open>time(NULL)\<close>; the clock
  is a stream of times in the state, of which each call takes the next.
\<close>

section \<open>The struct\<close>

type_synonym u64 = "64 word"

record inode_dev =
  d_mode :: u32
  d_links :: u32
  d_uid :: u32
  d_gid :: u32
  d_size :: u64
  d_access_time :: u32
  d_mod_time :: u32
  d_direct_blocks :: "u32 list"
  d_indirect :: u32
  d_double_indirect :: u32
  d_triple_indirect :: u32

definition sizeof_inode_dev :: nat where [c_consts]: "sizeof_inode_dev = 84"
definition INODES_PER_BLOCK_DEV :: nat where "INODES_PER_BLOCK_DEV = BLOCK_SIZE div sizeof_inode_dev"

lemma INODES_PER_BLOCK_DEV_eq [c_consts]: "INODES_PER_BLOCK_DEV = 48"
  by (simp add: INODES_PER_BLOCK_DEV_def c_consts)

text \<open>The size lies in the struct with its low word first.\<close>

definition enc_inode_dev :: "inode_dev \<Rightarrow> byte list" where
  "enc_inode_dev i = bytes_of_words
    ([d_mode i, d_links i, d_uid i, d_gid i, ucast (d_size i), ucast (drop_bit 32 (d_size i)),
      d_access_time i, d_mod_time i] @
     d_direct_blocks i @ [d_indirect i, d_double_indirect i, d_triple_indirect i])"

definition dec_inode_dev :: "byte list \<Rightarrow> inode_dev" where
  "dec_inode_dev bs = (let w = words_of_bytes bs in
    \<lparr>d_mode = w ! 0, d_links = w ! 1, d_uid = w ! 2, d_gid = w ! 3,
     d_size = ucast (w ! 4) OR push_bit 32 (ucast (w ! 5)), d_access_time = w ! 6, d_mod_time = w ! 7,
     d_direct_blocks = window 8 NUM_DIRECT w,
     d_indirect = w ! 18, d_double_indirect = w ! 19, d_triple_indirect = w ! 20\<rparr>)"

definition inode_dev_wf :: "inode_dev \<Rightarrow> bool" where
  "inode_dev_wf i \<longleftrightarrow> length (d_direct_blocks i) = NUM_DIRECT"

lemma length_enc_inode_dev: "inode_dev_wf i \<Longrightarrow> length (enc_inode_dev i) = sizeof_inode_dev"
  by (simp add: enc_inode_dev_def inode_dev_wf_def c_consts del: bytes_of_words_simps)

lemma size_words: "ucast (ucast x :: u32) OR push_bit 32 (ucast (ucast (drop_bit 32 x) :: u32)) = (x :: u64)"
  by (rule bit_word_eqI) (auto simp: bit_simps)

lemma dec_enc_inode_dev [codec]: "inode_dev_wf i \<Longrightarrow> dec_inode_dev (enc_inode_dev i) = i"
  by (simp add: dec_inode_dev_def enc_inode_dev_def Let_def inode_dev_wf_def c_consts window_def nth_append size_words
      del: bytes_of_words_simps)

lemma inode_dev_wf_dec: "length bs = sizeof_inode_dev \<Longrightarrow> inode_dev_wf (dec_inode_dev bs)"
  by (simp add: inode_dev_wf_def dec_inode_dev_def Let_def c_consts)

definition uninit_inode_dev :: "'a layer0_scheme \<Rightarrow> inode_dev" where
  "uninit_inode_dev s = dec_inode_dev (uninit sizeof_inode_dev s)"

section \<open>The clock\<close>

record layer1_dev = layer1 +
  clock :: "nat \<Rightarrow> int"

definition time_now :: "'a layer1_dev_scheme \<Rightarrow> int" where
  "time_now s = clock s 0"

definition tick :: "'a layer1_dev_scheme \<Rightarrow> 'a layer1_dev_scheme" where
  "tick s = s\<lparr>clock := (\<lambda>k. clock s (Suc k))\<rparr>"

section \<open>Operations\<close>

definition inode_read_dev ::
    "int \<Rightarrow> inode_dev option \<Rightarrow> 'a layer1_dev_scheme \<Rightarrow> int \<times> inode_dev" where
  "inode_read_dev inode_num read_node s =
    (let (ret, sb) = local_superblock_dev s in
     case read_node of
       None \<Rightarrow> (if ret \<noteq> SUCCESS then DISC_UNINITIALIZED else BUF_NULL, uninit_inode_dev s)
     | Some old \<Rightarrow>
         if ret \<noteq> SUCCESS then (DISC_UNINITIALIZED, old)
         else if inode_num \<le> 0 \<or> uint (sb_num_inodes sb) < inode_num then (BAD_INODE, old)
         else
           (let inode_block_num = (inode_num - 1) div int INODES_PER_BLOCK_DEV;
                inode_in_block = nat ((inode_num - 1) mod int INODES_PER_BLOCK_DEV);
                total_block_offset = sint (sb_ilist_block_offset sb + word_of_int inode_block_num);
                (_, block) = read_block_dev total_block_offset (Some (uninit BLOCK_SIZE s)) s
            in (SUCCESS, dec_inode_dev (window (inode_in_block * sizeof_inode_dev) sizeof_inode_dev block))))"

text \<open>\<open>inode my_inode; ret = inode_read(inum, &my_inode);\<close>\<close>

definition local_inode_dev :: "int \<Rightarrow> 'a layer1_dev_scheme \<Rightarrow> int \<times> inode_dev" where
  "local_inode_dev inum s = inode_read_dev inum (Some (uninit_inode_dev s)) s"

text \<open>The second result is \<open>*modified\<close> afterwards.\<close>

definition inode_write_dev ::
    "int \<Rightarrow> inode_dev option \<Rightarrow> 'a layer1_dev_scheme \<Rightarrow> int \<times> inode_dev \<times> 'a layer1_dev_scheme" where
  "inode_write_dev inode_num modified s =
    (let (ret, sb) = local_superblock_dev s in
     case modified of
       None \<Rightarrow> (if ret \<noteq> SUCCESS then DISC_UNINITIALIZED else BUF_NULL, uninit_inode_dev s, s)
     | Some node \<Rightarrow>
         if ret \<noteq> SUCCESS then (DISC_UNINITIALIZED, node, s)
         else if inode_num \<le> 0 \<or> uint (sb_num_inodes sb) < inode_num then (BAD_INODE, node, s)
         else
           (let inode_block_num = (inode_num - 1) div int INODES_PER_BLOCK_DEV;
                inode_in_block = nat ((inode_num - 1) mod int INODES_PER_BLOCK_DEV);
                total_block_offset = sint (sb_ilist_block_offset sb + word_of_int inode_block_num);
                (_, block) = read_block_dev total_block_offset (Some (uninit BLOCK_SIZE s)) s;
                now = time_now s;
                node = node\<lparr>d_mod_time := word_of_int now\<rparr>;
                (ret, s1) = write_block_dev total_block_offset
                  (Some (overlay (inode_in_block * sizeof_inode_dev) (enc_inode_dev node) block)) (tick s)
            in (ret, node, s1)))"

definition inode_free_dev :: "int \<Rightarrow> 'a layer1_scheme \<Rightarrow> int \<times> 'a layer1_scheme" where
  "inode_free_dev inode_num s =
    (let (ret, sb) = local_superblock_dev s in
     if ret \<noteq> SUCCESS then (DISC_UNINITIALIZED, s)
     else if inode_num \<le> 0 \<or> uint (sb_num_inodes sb) < inode_num then (BAD_INODE, s)
     else
       (let bitmap_block_num = (inode_num - 1) div int BITS_PER_BLOCK;
            bit_in_block = nat ((inode_num - 1) mod int BITS_PER_BLOCK);
            byte_in_block = bit_in_block div 8;
            bit_in_byte = bit_in_block mod 8;
            total_block_offset = sint (sb_ibitmap_block_offset sb + word_of_int bitmap_block_num);
            (_, buf) = read_block_dev total_block_offset (Some (uninit BLOCK_SIZE s)) s;
            b = buf ! byte_in_block
        in write_block_dev total_block_offset
             (Some (buf[byte_in_block := b AND (b XOR drop_bit bit_in_byte 0x80)])) s))"

text \<open>
  The loops over the bytes and bits of a bitmap block are those of the other version.  The results
  are the code, \<open>*inode_num\<close>, \<open>*new_node\<close> and the state.
\<close>

primrec scan_blocks_dev ::
    "nat list \<Rightarrow> superblock \<Rightarrow> byte list \<Rightarrow> inode_dev \<Rightarrow> int \<Rightarrow> 'a layer1_dev_scheme \<Rightarrow>
      int \<times> int \<times> inode_dev \<times> 'a layer1_dev_scheme"
where
  "scan_blocks_dev [] sb ibitmap_buffer new_node inode_num s = (ILIST_FULL, inode_num, new_node, s)"
| "scan_blocks_dev (cur # rest) sb ibitmap_buffer new_node inode_num s =
    (let addr = sint (sb_ibitmap_block_offset sb + word_of_nat cur);
         (_, buf) = read_block_dev addr (Some ibitmap_buffer) s
     in case scan_bytes (sb_num_inodes sb) cur (enumerate 0 buf) of
          Scan_Full \<Rightarrow> (ILIST_FULL, inode_num, new_node, s)
        | Scan_Free byte_offset bit_offset inode_number \<Rightarrow>
            (let byte = buf ! byte_offset OR drop_bit bit_offset 0x80;
                 (_, s1) = write_block_dev addr (Some (buf[byte_offset := byte])) s;
                 (ret, new_node, s2) = inode_write_dev inode_number (Some new_node) s1
             in (ret, inode_number, new_node, s2))
        | Scan_None \<Rightarrow> scan_blocks_dev rest sb buf new_node inode_num s)"

definition inode_create_dev ::
    "inode_dev option \<Rightarrow> int option \<Rightarrow> 'a layer1_dev_scheme \<Rightarrow> int \<times> int \<times> inode_dev \<times> 'a layer1_dev_scheme" where
  "inode_create_dev new_node inode_num s =
    (let (ret, sb) = local_superblock_dev s; old = (case inode_num of None \<Rightarrow> 0 | Some n \<Rightarrow> n);
         node = (case new_node of None \<Rightarrow> uninit_inode_dev s | Some i \<Rightarrow> i)
     in if ret \<noteq> SUCCESS then (DISC_UNINITIALIZED, old, node, s)
     else case new_node of
       None \<Rightarrow> (BUF_NULL, old, node, s)
     | Some _ \<Rightarrow>
         (case inode_num of
            None \<Rightarrow> (INT_NULL, old, node, s)
          | Some _ \<Rightarrow> scan_blocks_dev [0..<unat (sb_ibitmap_size sb)] sb (uninit BLOCK_SIZE s) node old s))"

section \<open>The inode table\<close>

interpretation dlist: packed_table
  "\<lambda>s k. blk s (ilist_off s + k)" "\<lambda>k b s. put_blk (ilist_off s + k) b s" mounted ilist_len
  is_block INODES_PER_BLOCK_DEV sizeof_inode_dev enc_inode_dev dec_inode_dev inode_dev_wf
  by (rule packed_table.intro[OF ilist.block_store_axioms], unfold_locales)
    (simp_all add: c_consts dec_enc_inode_dev length_enc_inode_dev)

definition mounted_dev :: "'a layer1_scheme \<Rightarrow> bool" where
  "mounted_dev s \<longleftrightarrow> mounted s \<and> ninodes s \<le> ilist_len s * INODES_PER_BLOCK_DEV"

definition inode_dev_at :: "'a layer1_scheme \<Rightarrow> nat \<Rightarrow> inode_dev" where
  "inode_dev_at s n = dlist.get s (islot n)"

definition put_inode_dev :: "nat \<Rightarrow> inode_dev \<Rightarrow> 'a layer1_scheme \<Rightarrow> 'a layer1_scheme" where
  "put_inode_dev n i s = dlist.put (islot n) i s"

lemma mounted_dev_mounted: "mounted_dev s \<Longrightarrow> mounted s"
  by (simp add: mounted_dev_def)

lemma tick_simps [simp]:
  "disk (tick s) = disk s" "total_blocks (tick s) = total_blocks s" "cached_superblock (tick s) = cached_superblock s"
  "nblocks (tick s) = nblocks s" "blk (tick s) m = blk s m" "sb_of (tick s) = sb_of s" "disk_ok (tick s) = disk_ok s"
  by (simp_all add: tick_def nblocks_def blk_def sb_of_def disk_ok_def cong: option.case_cong)

lemma tick_layout [simp]:
  "mounted (tick s) = mounted s" "ilist_off (tick s) = ilist_off s" "ilist_len (tick s) = ilist_len s"
  "ninodes (tick s) = ninodes s" "valid_inum (tick s) n = valid_inum s n" "inode_dev_at (tick s) n = inode_dev_at s n"
  "inode_used (tick s) n = inode_used s n"
proof -
  show "inode_dev_at (tick s) n = inode_dev_at s n"
    unfolding inode_dev_at_def dlist.get_def by (simp add: region_defs)
qed (simp_all add: mounted_def region_defs valid_inum_def inode_used_def bit_pos_def)

lemma mounted_dev_tick [simp]: "mounted_dev (tick s) = mounted_dev s"
  by (simp add: mounted_dev_def)

lemma dev_inum_range:
  assumes "mounted_dev s" "valid_inum s n"
  shows "islot n < ilist_len s * INODES_PER_BLOCK_DEV" "islot n div INODES_PER_BLOCK_DEV < ilist_len s"
    "ilist_off s + islot n div INODES_PER_BLOCK_DEV < nblocks s"
proof -
  show 1: "islot n < ilist_len s * INODES_PER_BLOCK_DEV"
    using assms by (auto simp: valid_inum_def islot_def mounted_dev_def)
  then show 2: "islot n div INODES_PER_BLOCK_DEV < ilist_len s" by (rule dlist.in_range)
  then show "ilist_off s + islot n div INODES_PER_BLOCK_DEV < nblocks s"
    using mounted_regions[OF mounted_dev_mounted[OF assms(1)]] by linarith
qed

lemma dev_inode_offset:
  assumes "mounted_dev s" "valid_inum s n"
  shows "sint (sb_ilist_block_offset (sb_of s) + word_of_int ((int n - 1) div int INODES_PER_BLOCK_DEV)) =
      int (ilist_off s + islot n div INODES_PER_BLOCK_DEV)"
    and "nat ((int n - 1) mod int INODES_PER_BLOCK_DEV) = islot n mod INODES_PER_BLOCK_DEV"
proof -
  have i: "int n - 1 = int (islot n)" using assms(2) by (simp add: valid_inum_def islot_def)
  show "sint (sb_ilist_block_offset (sb_of s) + word_of_int ((int n - 1) div int INODES_PER_BLOCK_DEV)) =
      int (ilist_off s + islot n div INODES_PER_BLOCK_DEV)"
    using dev_inum_range(3)[OF assms] mounted_regions(8)[OF mounted_dev_mounted[OF assms(1)]]
    unfolding i zdiv_int[symmetric] by (subst sint_add_small) (simp_all add: uint_regions)
  show "nat ((int n - 1) mod int INODES_PER_BLOCK_DEV) = islot n mod INODES_PER_BLOCK_DEV"
    unfolding i zmod_int[symmetric] by simp
qed

lemma inode_read_dev_ok:
  assumes "mounted_dev s" "valid_inum s n"
  shows "inode_read_dev (int n) (Some old) s = (SUCCESS, inode_dev_at s n)"
proof -
  note m = mounted_dev_mounted[OF assms(1)] and r = dev_inum_range(3)[OF assms]
  show ?thesis
    using dev_inode_offset[OF assms] inode_num_ok[OF m assms(2)] m r block_dev_mounted(1)[OF m r]
      read_block_mounted[OF m, of "int (ilist_off s + islot n div INODES_PER_BLOCK_DEV)" "uninit BLOCK_SIZE s"]
    by (simp add: inode_read_dev_def Let_def inode_dev_at_def dlist.get_def)
qed

lemma inode_write_dev_ok:
  assumes "mounted_dev s" "valid_inum s n" "inode_dev_wf i"
  defines "i' \<equiv> i\<lparr>d_mod_time := word_of_int (time_now s)\<rparr>"
  shows "inode_write_dev (int n) (Some i) s = (SUCCESS, i', put_inode_dev n i' (tick s))"
proof -
  note m = mounted_dev_mounted[OF assms(1)] and r = dev_inum_range[OF assms(1,2)]
  let ?a = "ilist_off s + islot n div INODES_PER_BLOCK_DEV"
  let ?b = "overlay (islot n mod INODES_PER_BLOCK_DEV * sizeof_inode_dev) (enc_inode_dev i') (blk s ?a)"
  have wf: "inode_dev_wf i'" using assms(3) by (simp add: i'_def inode_dev_wf_def)
  have b: "is_block ?b" using dlist.fits_put[OF m r(1) wf] .
  have rb: "read_block_dev (int ?a) (Some (uninit BLOCK_SIZE s)) s = (SUCCESS, blk s ?a)"
    using block_dev_mounted(1)[OF m r(3)] read_block_mounted[OF m, of "int ?a" "uninit BLOCK_SIZE s"] r(3) by simp
  have mt: "mounted (tick s)" "?a < nblocks (tick s)" using m r(3) by simp_all
  have wb: "write_block_dev (int ?a) (Some ?b) (tick s) = (SUCCESS, put_blk ?a ?b (tick s))"
    using block_dev_mounted(2)[OF mt] write_block_mounted[OF mt(1), of "int ?a" ?b] b r(3) by simp
  show ?thesis
    using dev_inode_offset[OF assms(1,2)] inode_num_ok[OF m assms(2)] m rb wb
    by (simp add: inode_write_dev_def Let_def put_inode_dev_def dlist.put_def i'_def)
qed

lemma inode_dev_bad:
  assumes "mounted s" "n \<le> 0 \<or> int (ninodes s) < n"
  shows "inode_read_dev n (Some old) s = (BAD_INODE, old)" "inode_write_dev n (Some i) s = (BAD_INODE, i, s)"
  using assms by (auto simp: inode_read_dev_def inode_write_dev_def uint_regions)

lemma inode_dev_at_put:
  assumes "mounted_dev s" "valid_inum s n" "inode_dev_wf i" "1 \<le> m"
  shows "inode_dev_at (put_inode_dev n i s) m = (if m = n then i else inode_dev_at s m)"
proof -
  have "islot m = islot n \<longleftrightarrow> m = n" using assms(2,4) by (auto simp: valid_inum_def islot_def)
  then show ?thesis
    using dlist.get_put[OF mounted_dev_mounted[OF assms(1)] dev_inum_range(1)[OF assms(1,2)] assms(3)]
    by (simp add: inode_dev_at_def put_inode_dev_def)
qed

lemma put_inode_dev_simps [simp]:
  "sb_of (put_inode_dev n i s) = sb_of s" "nblocks (put_inode_dev n i s) = nblocks s"
  "ninodes (put_inode_dev n i s) = ninodes s" "ilist_len (put_inode_dev n i s) = ilist_len s"
  "data_off (put_inode_dev n i s) = data_off s" "ndata (put_inode_dev n i s) = ndata s"
  "ibitmap_off (put_inode_dev n i s) = ibitmap_off s" "ilist_off (put_inode_dev n i s) = ilist_off s"
  "valid_inum (put_inode_dev n i s) m = valid_inum s m"
  by (simp_all add: put_inode_dev_def dlist.put_def valid_inum_def)

lemma mounted_dev_put:
  assumes "mounted_dev s" "valid_inum s n" "inode_dev_wf i"
  shows "mounted_dev (put_inode_dev n i s)"
  using dlist.put_ok[OF mounted_dev_mounted[OF assms(1)] dev_inum_range(1)[OF assms(1,2)] assms(3)] assms(1)
  by (simp add: mounted_dev_def put_inode_dev_def dlist.lim_put) (simp add: dlist.put_def)

text \<open>Outside the inode table nothing changes.\<close>

lemma blk_put_inode_dev:
  assumes "mounted_dev s" "valid_inum s n" "inode_dev_wf i" "m < ilist_off s \<or> ilist_off s + ilist_len s \<le> m"
  shows "blk (put_inode_dev n i s) m = blk s m"
proof -
  note m = mounted_dev_mounted[OF assms(1)] and r = dev_inum_range[OF assms(1,2)]
  show ?thesis
    using assms(4) r(2,3) dlist.fits_put[OF m r(1) assms(3)] m
    by (auto simp: put_inode_dev_def dlist.put_def blk_put_blk mounted_disk_ok)
qed

section \<open>The bitmap\<close>

lemma inode_free_dev_eq:
  assumes "mounted s"
  shows "inode_free_dev n s = inode_free n s"
proof (cases "n \<le> 0 \<or> int (ninodes s) < n")
  case False
  then have v: "valid_inum s (nat n)" and n: "n = int (nat n)" by (auto simp: valid_inum_def nat_le_iff)
  have i: "n - 1 = int (islot (nat n))" using False by (auto simp: islot_def)
  have c: "islot (nat n) div BITS_PER_BLOCK < ibitmap_len s"
    using bitmap_room[OF assms v] by (rule less_mult_imp_div_less)
  note off = bitmap_offset[OF assms c]
  have "read_block_dev (int (ibitmap_off s + islot (nat n) div BITS_PER_BLOCK)) b s =
      read_block (int (ibitmap_off s + islot (nat n) div BITS_PER_BLOCK)) b s \<and>
    write_block_dev (int (ibitmap_off s + islot (nat n) div BITS_PER_BLOCK)) b s =
      write_block (int (ibitmap_off s + islot (nat n) div BITS_PER_BLOCK)) b s" for b
    using block_dev_mounted[OF assms off(2)] by blast
  then show ?thesis
    using assms off(1) unfolding inode_free_dev_def inode_free_def i zdiv_int[symmetric] zmod_int[symmetric]
    by (simp add: Let_def case_prod_beta)
qed (use assms in \<open>auto simp: inode_free_dev_def inode_free_def uint_regions\<close>)

lemma scan_blocks_dev_spec:
  assumes "mounted_dev s" "inode_dev_wf node" "k \<le> ibitmap_len s" "is_block buf"
    and "\<forall>p < k * BITS_PER_BLOCK. bit_pos s p"
  defines "node' \<equiv> node\<lparr>d_mod_time := word_of_int (time_now s)\<rparr>"
  shows "(\<exists>n. first_free s n \<and>
        scan_blocks_dev [k..<ibitmap_len s] (sb_of s) buf node old s =
          (SUCCESS, int n, node', put_inode_dev n node' (tick (mark_inode n s))))
    \<or> ((\<forall>n. valid_inum s n \<longrightarrow> inode_used s n) \<and>
        scan_blocks_dev [k..<ibitmap_len s] (sb_of s) buf node old s = (ILIST_FULL, old, node, s))"
  using assms(3-5)
proof (induction "ibitmap_len s - k" arbitrary: k buf)
  case 0
  then have "\<forall>p < ninodes s. bit_pos s p" and "k = ibitmap_len s"
    using mounted_regions(10)[OF mounted_dev_mounted[OF assms(1)]] by auto
  then show ?case by (auto intro: all_usedI)
next
  case (Suc d)
  note m = mounted_dev_mounted[OF assms(1)]
  have k: "k < ibitmap_len s" using Suc.hyps(2) by simp
  let ?b = "blk s (ibitmap_off s + k)"
  have isb: "is_block ?b" by (rule ibitmap.rd_fits[OF m k])
  note off = bitmap_offset[OF m k] and out = scan_block_outcome[OF m k Suc.prems(3)]
  note dev = block_dev_mounted[OF m off(2)]
  have upt: "[k..<ibitmap_len s] = k # [Suc k..<ibitmap_len s]" using k by (simp add: upt_conv_Cons)
  have rb: "read_block_dev (sint (sb_ibitmap_block_offset (sb_of s) + word_of_nat k)) (Some buf) s = (SUCCESS, ?b)"
    using off m Suc.prems(2) dev(1) by simp
  show ?case
  proof (cases "scan_bytes (sb_num_inodes (sb_of s)) k (enumerate 0 ?b)")
    case Scan_None
    then show ?thesis
      using Suc.hyps(1)[of "Suc k" ?b] Suc.hyps(2) k isb out by (simp add: upt rb Let_def)
  next
    case Scan_Full
    then show ?thesis using out by (simp add: upt rb Let_def)
  next
    case (Scan_Free i j n)
    then obtain x where x: "n = int x" "first_free s x"
      "put_blk (ibitmap_off s + k) (?b[i := ?b ! i OR drop_bit j 0x80]) s = mark_inode x s" using out by auto
    have v: "valid_inum s x" using x(2) by (simp add: first_free_def)
    have wb: "write_block_dev (sint (sb_ibitmap_block_offset (sb_of s) + word_of_nat k))
        (Some (?b[i := ?b ! i OR drop_bit j 0x80])) s = (SUCCESS, mark_inode x s)"
      using off m isb x(3) dev(2) by (simp add: is_block_def)
    have md: "mounted_dev (mark_inode x s)" "valid_inum (mark_inode x s) x"
      using assms(1) v m by (simp_all add: mounted_dev_def)
    have t: "time_now (mark_inode x s) = time_now s"
      by (simp add: time_now_def mark_inode_def upd_bitmap_def Let_def put_blk_def)
    have "inode_write_dev (int x) (Some node) (mark_inode x s) =
        (SUCCESS, node', put_inode_dev x node' (tick (mark_inode x s)))"
      using inode_write_dev_ok[OF md assms(2)] by (simp add: t node'_def)
    then show ?thesis using x(2) by (intro disjI1 exI[of _ x]) (simp add: upt rb Scan_Free Let_def wb x(1))
  qed
qed

end
