(* ===== verification/DeviceMap.thy ===== *)
theory DeviceMap
  imports DeviceInodes BlockMap
begin

text \<open>
  The block map of the version on a device: \<open>get_nth_datablock\<close> and \<open>rm_nth_datablock\<close> of
  \<open>src/phase 2/layer2.c\<close>, over the data blocks of the device.
\<close>

definition from_pointer_dev :: "nat \<Rightarrow> int \<Rightarrow> inode_dev \<Rightarrow> u32" where
  "from_pointer_dev lv off ino =
    (if lv = 0 then d_direct_blocks ino ! nat off
     else if lv = 1 then d_indirect ino
     else if lv = 2 then d_double_indirect ino
     else d_triple_indirect ino)"

definition set_pointer_dev :: "nat \<Rightarrow> int \<Rightarrow> u32 \<Rightarrow> inode_dev \<Rightarrow> inode_dev" where
  "set_pointer_dev lv off x ino =
    (if lv = 0 then ino\<lparr>d_direct_blocks := (d_direct_blocks ino)[nat off := x]\<rparr>
     else if lv = 1 then ino\<lparr>d_indirect := x\<rparr>
     else if lv = 2 then ino\<lparr>d_double_indirect := x\<rparr>
     else ino\<lparr>d_triple_indirect := x\<rparr>)"

primrec get_nth_loop_dev ::
    "nat \<Rightarrow> int \<Rightarrow> int \<Rightarrow> bool \<Rightarrow> bool \<Rightarrow> 'a layer1_dev_scheme \<Rightarrow> int \<times> bool \<times> 'a layer1_dev_scheme" where
  "get_nth_loop_dev 0 offset next_addr create created s = (next_addr, created, s)"
| "get_nth_loop_dev (Suc i) offset next_addr create created s =
    (if next_addr = 0 \<and> \<not> create then (0, created, s)
     else
       (let (ret, bytes) = data_read_dev next_addr (Some (uninit BLOCK_SIZE s)) s in
        if ret \<noteq> SUCCESS then (ret, created, s)
        else
          (let b = words_of_bytes bytes;
               next_index = nat (offset div intPow (int ADDRESSES_PER_BLOCK) (int i));
               offset = offset mod intPow (int ADDRESSES_PER_BLOCK) (int i)
           in if b ! next_index = 0 \<and> create then
                (let (ret, new_block, s1) = data_allocate_dev (Some empty_block) 0 s in
                 if ret \<noteq> SUCCESS then (ret, created, s1)
                 else
                   (let b = b[next_index := word_of_int new_block];
                        (ret, s2) = data_write_dev next_addr (Some (bytes_of_words b)) s1
                    in if ret \<noteq> SUCCESS then (ret, created, s2)
                       else get_nth_loop_dev i offset (sint (b ! next_index)) create True s2))
              else get_nth_loop_dev i offset (sint (b ! next_index)) create created s)))"

definition get_nth_datablock_dev ::
    "inode_dev option \<Rightarrow> int \<Rightarrow> bool \<Rightarrow> bool \<Rightarrow> 'a layer1_dev_scheme \<Rightarrow>
      (int \<times> inode_dev \<times> bool \<times> 'a layer1_dev_scheme) option" where
  "get_nth_datablock_dev inod n create created s =
    (case inod of
       None \<Rightarrow> Some (BUF_NULL, uninit_inode_dev s, created, s)
     | Some ino \<Rightarrow>
         if c_int n < 0 then None
         else case block_level (c_int n) of
           None \<Rightarrow> Some (INVALID_BLOCK, ino, created, s)
         | Some (lv, offset) \<Rightarrow>
             (let next_addr = sint (from_pointer_dev lv offset ino) in
              if next_addr = 0 \<and> create then
                (let (ret, new_block, s1) = data_allocate_dev (Some empty_block) 0 s in
                 if ret \<noteq> SUCCESS then Some (ret, ino, created, s1)
                 else
                   (let ino' = set_pointer_dev lv offset (word_of_int new_block) ino;
                        (addr, cr, s2) = get_nth_loop_dev lv offset new_block create True s1
                    in Some (addr, ino', cr, s2)))
              else
                (let (addr, cr, s1) = get_nth_loop_dev lv offset next_addr create created s
                 in Some (addr, ino, cr, s1))))"

primrec rm_walk_dev ::
    "nat \<Rightarrow> int \<Rightarrow> int \<Rightarrow> rm_entry list \<Rightarrow> 'a layer1_dev_scheme \<Rightarrow> int + rm_entry list" where
  "rm_walk_dev 0 offset next_addr acc s = Inr acc"
| "rm_walk_dev (Suc j) offset next_addr acc s =
    (if next_addr = 0 then Inr acc
     else
       (let (ret, bytes) = data_read_dev next_addr (Some (uninit BLOCK_SIZE s)) s in
        if ret \<noteq> SUCCESS then Inl ret
        else
          (let b = words_of_bytes bytes;
               next_index = nat (offset div intPow (int ADDRESSES_PER_BLOCK) (int j))
           in rm_walk_dev j (offset mod intPow (int ADDRESSES_PER_BLOCK) (int j))
                (sint (b ! next_index)) ((next_addr, b, next_index) # acc) s)))"

primrec rm_up_dev ::
    "rm_entry list \<Rightarrow> 'a layer1_dev_scheme \<Rightarrow> (int option \<times> 'a layer1_dev_scheme) option" where
  "rm_up_dev [] s = Some (None, s)"
| "rm_up_dev (e # es) s =
    (let (block_addr, b, next_index) = e; next_addr = sint (b ! next_index) in
     if next_addr \<noteq> 0 then
       (case data_free_dev next_addr s of
          None \<Rightarrow> None
        | Some (ret, s1) \<Rightarrow>
            if ret \<noteq> SUCCESS then Some (Some ret, s1)
            else
              (let b = b[next_index := 0];
                   (_, s2) = data_write_dev block_addr (Some (bytes_of_words b)) s1
               in if bytes_of_words b \<noteq> empty_block then Some (Some SUCCESS, s2)
                  else rm_up_dev es s2))
     else if bytes_of_words b \<noteq> empty_block then Some (Some SUCCESS, s)
     else rm_up_dev es s)"

definition rm_nth_datablock_dev ::
    "inode_dev option \<Rightarrow> int \<Rightarrow> 'a layer1_dev_scheme \<Rightarrow> (int \<times> inode_dev \<times> 'a layer1_dev_scheme) option" where
  "rm_nth_datablock_dev inod n s =
    (case inod of
       None \<Rightarrow> Some (BUF_NULL, uninit_inode_dev s, s)
     | Some ino \<Rightarrow>
         if c_int n < 0 then None
         else case block_level (c_int n) of
           None \<Rightarrow> Some (INVALID_BLOCK, ino, s)
         | Some (lv, offset) \<Rightarrow>
             (case rm_walk_dev lv offset (sint (from_pointer_dev lv offset ino)) [] s of
                Inl ret \<Rightarrow> Some (ret, ino, s)
              | Inr es \<Rightarrow>
                  (case rm_up_dev es s of
                     None \<Rightarrow> None
                   | Some (Some ret, s1) \<Rightarrow> Some (ret, ino, s1)
                   | Some (None, s1) \<Rightarrow>
                       (let p = sint (from_pointer_dev lv offset ino) in
                        if p \<noteq> 0 then
                          (case data_free_dev p s1 of
                             None \<Rightarrow> None
                           | Some (ret, s2) \<Rightarrow>
                               if ret \<noteq> SUCCESS then Some (ret, ino, s2)
                               else Some (SUCCESS, set_pointer_dev lv offset 0 ino, s2))
                        else Some (SUCCESS, ino, s1)))))"

end
