(* ===== verification/DeviceFiles.thy ===== *)
theory DeviceFiles
  imports DeviceMap FileIO
begin

text \<open>
  Files of the version on a device, \<open>src/phase 2/layer2.c\<close>: \<open>read_i\<close>, \<open>write_i\<close>, \<open>trunc_fs\<close>, \<open>del\<close> with sizes
  of type \<open>off_t\<close>.  \<open>trunc_fs\<close> no longer allocates a buffer for the whole rest of the file.
\<close>

text \<open>Conversion to \<open>off_t\<close>.\<close>

definition c_s64 :: "int \<Rightarrow> int" where
  "c_s64 x = (x + 2 ^ 63) mod 2 ^ 64 - 2 ^ 63"

section \<open>Reading and writing\<close>

primrec read_loop_dev ::
    "int list \<Rightarrow> int \<Rightarrow> int \<Rightarrow> inode_dev \<Rightarrow> int \<Rightarrow> int \<Rightarrow> byte list \<Rightarrow> 'a layer1_dev_scheme \<Rightarrow>
      (int \<times> byte list) option" where
  "read_loop_dev [] end_block end_size my_inode read_start bytes_read buf s = Some (c_int bytes_read, buf)"
| "read_loop_dev (i # is) end_block end_size my_inode read_start bytes_read buf s =
    (let read_size = (if i = end_block then c_u64 end_size else int BLOCK_SIZE) in
     case get_nth_datablock_dev (Some my_inode) i False False s of
       None \<Rightarrow> None
     | Some (block_addr, _, _, _) \<Rightarrow>
         (let (ret, block_buf) = data_read_dev block_addr (Some (uninit BLOCK_SIZE s)) s in
          if ret \<noteq> SUCCESS then Some (ret, buf)
          else case memcpy buf bytes_read block_buf read_start (c_u64 (read_size - read_start)) of
            None \<Rightarrow> None
          | Some buf \<Rightarrow>
              read_loop_dev is end_block end_size my_inode 0
                (c_u64 (bytes_read + (read_size - read_start))) buf s))"

definition read_i_dev ::
    "int \<Rightarrow> byte list option \<Rightarrow> int \<Rightarrow> int \<Rightarrow> 'a layer1_dev_scheme \<Rightarrow> (int \<times> byte list) option" where
  "read_i_dev inum buf offset sz s =
    (case buf of
       None \<Rightarrow> Some (BUF_NULL, [])
     | Some buf \<Rightarrow>
         (let (ret, my_inode) = local_inode_dev inum s in
          if ret \<noteq> SUCCESS then Some (ret, buf)
          else if sint (d_size my_inode) \<le> offset then Some (0, buf)
          else
            (let truncated_size = c_s64 (min (c_u64 (sint (d_size my_inode) - offset)) sz) in
             if truncated_size = 0 then Some (0, buf)
             else
               (let start_block = c_int (offset sdiv int BLOCK_SIZE);
                    start_offset = offset smod int BLOCK_SIZE;
                    end_block = c_int ((offset + truncated_size - 1) sdiv int BLOCK_SIZE);
                    end_size = (offset + truncated_size - 1) smod int BLOCK_SIZE + 1
                in read_loop_dev [start_block..end_block] end_block end_size my_inode start_offset 0 buf s))))"

definition write_part_dev ::
    "byte list \<Rightarrow> int \<Rightarrow> int \<Rightarrow> int \<Rightarrow> int \<Rightarrow> inode_dev \<Rightarrow> 'a layer1_dev_scheme \<Rightarrow>
      (int option \<times> inode_dev \<times> 'a layer1_dev_scheme) option" where
  "write_part_dev buf i write_start write_size bytes_written my_inode s =
    (let n = c_u64 (write_size - write_start) in
     if write_start < 0 \<or> int BLOCK_SIZE < n then None
     else
       (let (mem, s) = peek buf (nat write_start) (nat n) s;
            all_zeros = (mem = replicate (nat n) 0);
            whole_block = (write_size = int BLOCK_SIZE \<and> write_start = 0)
        in if all_zeros \<and> whole_block then
             map_option (\<lambda>(_, ino, s). (None, ino, s)) (rm_nth_datablock_dev (Some my_inode) i s)
           else case get_nth_datablock_dev (Some my_inode) i True False s of
             None \<Rightarrow> None
           | Some (block_addr, my_inode, created, s) \<Rightarrow>
               if block_addr = DATA_FULL \<and> \<not> all_zeros then
                 map_option (\<lambda>(_, ino, s). (Some DATA_FULL, ino, s)) (rm_nth_datablock_dev (Some my_inode) i s)
               else if block_addr = DATA_FULL then
                 map_option (\<lambda>(_, ino, s). (None, ino, s)) (rm_nth_datablock_dev (Some my_inode) i s)
               else if whole_block then
                 (if int (length buf) < bytes_written + int BLOCK_SIZE then None
                  else
                    (let (ret, s) = data_write_dev block_addr
                           (Some (window (nat bytes_written) BLOCK_SIZE buf)) s
                     in Some (if ret \<noteq> SUCCESS then Some ret else None, my_inode, s)))
               else
                 (let (ret, block_buf) =
                        (if created then (SUCCESS, empty_block)
                         else data_read_dev block_addr (Some (uninit BLOCK_SIZE s)) s)
                  in if ret \<noteq> SUCCESS then Some (Some ret, my_inode, s)
                     else case memcpy block_buf write_start buf bytes_written n of
                       None \<Rightarrow> None
                     | Some block_buf \<Rightarrow>
                         if block_buf = empty_block then
                           map_option (\<lambda>(_, ino, s). (None, ino, s)) (rm_nth_datablock_dev (Some my_inode) i s)
                         else
                           (let (ret, s) = data_write_dev block_addr (Some block_buf) s
                            in Some (if ret \<noteq> SUCCESS then Some ret else None, my_inode, s)))))"

definition new_size_dev :: "int \<Rightarrow> int \<Rightarrow> int \<Rightarrow> u64" where
  "new_size_dev original_size offset bytes_written =
    word_of_int (max (c_u64 original_size) (c_u64 (offset + bytes_written)))"

primrec write_loop_dev ::
    "int list \<Rightarrow> int \<Rightarrow> byte list \<Rightarrow> int \<Rightarrow> int \<Rightarrow> int \<Rightarrow> int \<Rightarrow> int \<Rightarrow> int \<Rightarrow> inode_dev \<Rightarrow> 'a layer1_dev_scheme \<Rightarrow>
      (int \<times> 'a layer1_dev_scheme) option" where
  "write_loop_dev [] inum buf offset original_size end_block end_size write_start bytes_written my_inode s =
    Some (c_int bytes_written, s)"
| "write_loop_dev (i # is) inum buf offset original_size end_block end_size write_start bytes_written my_inode s =
    (let write_size = (if i = end_block then c_u64 end_size else int BLOCK_SIZE) in
     case write_part_dev buf i write_start write_size bytes_written my_inode s of
       None \<Rightarrow> None
     | Some (Some ret, _, s) \<Rightarrow> Some (ret, s)
     | Some (None, my_inode, s) \<Rightarrow>
         (let bytes_written = c_u64 (bytes_written + (write_size - write_start));
              my_inode = my_inode
                \<lparr>d_size := new_size_dev original_size offset bytes_written,
                 d_mode := d_mode my_inode AND (0xffff XOR (S_ISUID OR S_ISGID))\<rparr>;
              (_, my_inode, s) = inode_write_dev inum (Some my_inode) s
          in write_loop_dev is inum buf offset original_size end_block end_size 0 bytes_written my_inode s))"

definition write_i_dev ::
    "int \<Rightarrow> byte list option \<Rightarrow> int \<Rightarrow> int \<Rightarrow> 'a layer1_dev_scheme \<Rightarrow> (int \<times> 'a layer1_dev_scheme) option" where
  "write_i_dev inum buf offset sz s =
    (case buf of
       None \<Rightarrow> Some (BUF_NULL, s)
     | Some buf \<Rightarrow>
         (let (ret, my_inode) = local_inode_dev inum s in
          if ret \<noteq> SUCCESS then Some (ret, s)
          else
            (let original_size = sint (d_size my_inode);
                 start_block = c_int (offset sdiv int BLOCK_SIZE);
                 start_offset = offset smod int BLOCK_SIZE;
                 end_block = c_int (c_u64 (offset + sz - 1) div int BLOCK_SIZE);
                 end_size = c_u64 (offset + sz - 1) mod int BLOCK_SIZE + 1
             in write_loop_dev [start_block..end_block] inum buf offset original_size end_block end_size
                  start_offset 0 my_inode s)))"

section \<open>trunc_fs and del\<close>

text \<open>
  The loop writes zeros over the rest of the file, ten blocks at a time; the codes of \<open>write_i\<close> are not
  looked at.
\<close>

definition TRUNC_BUF :: nat where "TRUNC_BUF = BLOCK_SIZE * 10"

lemma TRUNC_BUF_eq [c_consts]: "TRUNC_BUF = 40960"
  by (simp add: TRUNC_BUF_def c_consts)

function trunc_loop_dev ::
    "int \<Rightarrow> int \<Rightarrow> int \<Rightarrow> int \<Rightarrow> 'a layer1_dev_scheme \<Rightarrow> 'a layer1_dev_scheme option" where
  "trunc_loop_dev inum offset len_written max_written s =
    (if len_written < max_written then
       (case write_i_dev inum (Some (replicate TRUNC_BUF 0)) (offset + len_written) (int TRUNC_BUF) s of
          None \<Rightarrow> None
        | Some (_, s) \<Rightarrow> trunc_loop_dev inum offset (len_written + int TRUNC_BUF) max_written s)
     else Some s)"
  by pat_completeness auto

termination trunc_loop_dev
  by (relation "measure (\<lambda>(_, _, len_written, max_written, _). nat (max_written - len_written))") (auto simp: c_consts)

declare trunc_loop_dev.simps [simp del]

definition trunc_fs_dev :: "int \<Rightarrow> int \<Rightarrow> 'a layer1_dev_scheme \<Rightarrow> (int \<times> 'a layer1_dev_scheme) option" where
  "trunc_fs_dev inum offset s =
    (let (ret, my_inode) = local_inode_dev inum s in
     if ret \<noteq> SUCCESS then Some (ret, s)
     else if sint (d_size my_inode) < offset then
       (let (_, _, s) = inode_write_dev inum (Some (my_inode\<lparr>d_size := word_of_int offset\<rparr>)) s
        in Some (SUCCESS, s))
     else
       (let max_written = sint (d_size my_inode) - offset in
        case trunc_loop_dev inum offset 0 max_written s of
          None \<Rightarrow> None
        | Some s \<Rightarrow>
            (let (_, _, s) = inode_write_dev inum (Some (my_inode\<lparr>d_size := word_of_int offset\<rparr>)) s
             in Some (SUCCESS, s))))"

definition del_dev :: "int \<Rightarrow> 'a layer1_dev_scheme \<Rightarrow> (int \<times> 'a layer1_dev_scheme) option" where
  "del_dev inum s =
    (case trunc_fs_dev inum 0 s of
       None \<Rightarrow> None
     | Some (ret, s) \<Rightarrow> if ret \<noteq> SUCCESS then Some (ret, s) else Some (inode_free_dev inum s))"

end
