(* ===== verification/DeviceDirs.thy ===== *)
theory DeviceDirs
  imports DeviceFiles Directory
begin

text \<open>
  Directories of the version on a device, \<open>src/phase 2/layer2.c\<close>.  Sizes are of type \<open>off_t\<close> and
  signed; quotients and remainders by \<open>BLOCK_SIZE\<close> truncate towards zero.
\<close>

text \<open>A product of two \<open>int\<close>s; \<open>None\<close> on signed overflow.\<close>

definition int_mult :: "int \<Rightarrow> int \<Rightarrow> int option" where
  "int_mult a b = (if - (2 ^ 31) \<le> a * b \<and> a * b < 2 ^ 31 then Some (a * b) else None)"

section \<open>Reading and searching\<close>

definition read_dir_page_dev ::
    "int \<Rightarrow> byte list option \<Rightarrow> int \<Rightarrow> int option \<Rightarrow> bool option \<Rightarrow> 'a layer1_dev_scheme \<Rightarrow>
      (int \<times> byte list \<times> int \<times> bool) option" where
  "read_dir_page_dev inum d page entries reached_end s =
    (let d0 = contents d; entries0 = opt_or 0 entries; last0 = opt_or False reached_end in
     if d = None \<or> entries = None \<or> reached_end = None then Some (BUF_NULL, d0, entries0, last0)
     else
       (let (ret, my_inode) = local_inode_dev inum s in
        if ret \<noteq> SUCCESS then Some (ret, d0, entries0, last0)
        else if \<not> S_ISDIR (d_mode my_inode) then Some (NOT_DIR, d0, entries0, last0)
        else if d_size my_inode = 0 then Some (MALFORMED_DIRECTORY, d0, entries0, last0)
        else
          (let num_blocks = c_int (sint (d_size my_inode) sdiv int BLOCK_SIZE);
               remainder = sint (d_size my_inode) smod int BLOCK_SIZE
           in if c_u64 remainder mod int sizeof_dirent \<noteq> 0 then Some (MALFORMED_DIRECTORY, d0, entries0, last0)
              else if num_blocks < page \<or> page < 0 then Some (INVALID_PAGE, d0, entries0, last0)
              else
                (let (entries, reached_end) =
                       (if page = num_blocks then (c_int (c_u64 remainder div int sizeof_dirent), True)
                        else (int DIRENTS_PER_BLOCK, False))
                 in case int_mult page (int BLOCK_SIZE) of
                      None \<Rightarrow> None
                    | Some offset \<Rightarrow>
                        (case read_i_dev inum (Some d0) offset (c_u64 (entries * int sizeof_dirent)) s of
                           None \<Rightarrow> None
                         | Some (ret, d) \<Rightarrow>
                             Some (if c_u64 ret \<noteq> c_u64 (entries * int sizeof_dirent) then ret else SUCCESS,
                               d, entries, reached_end))))))"

definition read_into_dev ::
    "int \<Rightarrow> byte list \<Rightarrow> nat \<Rightarrow> int \<Rightarrow> int \<Rightarrow> 'a layer1_dev_scheme \<Rightarrow> (int \<times> byte list) option" where
  "read_into_dev inum buf write_offset offset sz s =
    map_option (\<lambda>(ret, b). (ret, take write_offset buf @ b))
      (read_i_dev inum (Some (drop write_offset buf)) offset sz s)"

primrec read_dir_blocks_dev ::
    "nat list \<Rightarrow> int \<Rightarrow> byte list \<Rightarrow> nat \<Rightarrow> 'a layer1_dev_scheme \<Rightarrow>
      ((int \<times> byte list) + (byte list \<times> nat)) option" where
  "read_dir_blocks_dev [] inum buf write_offset s = Some (Inr (buf, write_offset))"
| "read_dir_blocks_dev (i # is) inum buf write_offset s =
    (case int_mult (int i) (int BLOCK_SIZE) of
       None \<Rightarrow> None
     | Some offset \<Rightarrow>
         (case read_into_dev inum buf write_offset offset (int (DIRENTS_PER_BLOCK * sizeof_dirent)) s of
            None \<Rightarrow> None
          | Some (ret, buf) \<Rightarrow>
              if c_u64 ret \<noteq> int (DIRENTS_PER_BLOCK * sizeof_dirent) then Some (Inl (ret, buf))
              else read_dir_blocks_dev is inum buf (write_offset + DIRENTS_PER_BLOCK * sizeof_dirent) s))"

definition read_dir_whole_dev ::
    "int \<Rightarrow> byte list option \<Rightarrow> 'a layer1_dev_scheme \<Rightarrow> (int \<times> byte list) option" where
  "read_dir_whole_dev inum buf s =
    (case buf of
       None \<Rightarrow> Some (BUF_NULL, [])
     | Some buf \<Rightarrow>
         (let (ret, my_inode) = local_inode_dev inum s in
          if ret \<noteq> SUCCESS then Some (ret, buf)
          else if \<not> S_ISDIR (d_mode my_inode) then Some (NOT_DIR, buf)
          else if d_size my_inode = 0 then Some (MALFORMED_DIRECTORY, buf)
          else
            (let num_blocks = nat (c_int (sint (d_size my_inode) sdiv int BLOCK_SIZE));
                 remainder = sint (d_size my_inode) smod int BLOCK_SIZE
             in if c_u64 remainder mod int sizeof_dirent \<noteq> 0 then Some (MALFORMED_DIRECTORY, buf)
                else case read_dir_blocks_dev [0..<num_blocks] inum buf 0 s of
                  None \<Rightarrow> None
                | Some (Inl r) \<Rightarrow> Some r
                | Some (Inr (buf, write_offset)) \<Rightarrow>
                    (case int_mult (int num_blocks) (int BLOCK_SIZE) of
                       None \<Rightarrow> None
                     | Some offset \<Rightarrow>
                         (case read_into_dev inum buf write_offset offset (c_u64 remainder) s of
                            None \<Rightarrow> None
                          | Some (ret, buf) \<Rightarrow> Some (if ret \<noteq> remainder then ret else SUCCESS, buf))))))"

partial_function (option) search_pages_dev ::
    "(dir_ent \<Rightarrow> bool) \<Rightarrow> int \<Rightarrow> byte list \<Rightarrow> int \<Rightarrow> int \<Rightarrow> bool \<Rightarrow> 'a layer1_dev_scheme \<Rightarrow>
      (int + dir_ent \<times> int) option" where
  "search_pages_dev P inum d cur_block num_entries reached_end s =
    (if reached_end then Some (Inl NOT_IN_DIR)
     else case read_dir_page_dev inum (Some d) cur_block (Some num_entries) (Some reached_end) s of
       None \<Rightarrow> None
     | Some (ret, d, num_entries, reached_end) \<Rightarrow>
         if ret \<noteq> SUCCESS then Some (Inl NOT_DIR)
         else case first_index (\<lambda>i. P (dirent_at d i)) [0..<nat num_entries] of
           Some i \<Rightarrow> Some (Inr (dirent_at d i, cur_block * int DIRENTS_PER_BLOCK + int i))
         | None \<Rightarrow> search_pages_dev P inum d (cur_block + 1) num_entries reached_end s)"

definition search_by_inum_dev ::
    "int \<Rightarrow> int \<Rightarrow> int option \<Rightarrow> 'a layer1_dev_scheme \<Rightarrow> (int \<times> int) option" where
  "search_by_inum_dev inum search_num index s =
    (case index of
       None \<Rightarrow> Some (BUF_NULL, 0)
     | Some index \<Rightarrow>
         (let (ret, my_inode) = local_inode_dev inum s in
          if ret \<noteq> SUCCESS then Some (ret, index)
          else if \<not> S_ISDIR (d_mode my_inode) then Some (NOT_DIR, index)
          else map_option (\<lambda>r. case r of Inl ret \<Rightarrow> (ret, index) | Inr (_, index) \<Rightarrow> (SUCCESS, index))
            (search_pages_dev (\<lambda>e. sint (de_inode_num e) = search_num) inum (uninit BLOCK_SIZE s) 0 0 False s)))"

definition search_by_name_dev ::
    "int \<Rightarrow> byte list option \<Rightarrow> int option \<Rightarrow> int \<Rightarrow> 'a layer1_dev_scheme \<Rightarrow> (int \<times> int \<times> int) option" where
  "search_by_name_dev inum name target index s =
    (case (name, target) of
       (Some name, Some target) \<Rightarrow>
         (let (ret, my_inode) = local_inode_dev inum s in
          if ret \<noteq> SUCCESS then Some (ret, target, index)
          else if \<not> S_ISDIR (d_mode my_inode) then Some (NOT_DIR, target, index)
          else map_option (\<lambda>r. case r of
              Inl ret \<Rightarrow> (ret, target, index)
            | Inr (e, index) \<Rightarrow> (SUCCESS, sint (de_inode_num e), index))
            (search_pages_dev (\<lambda>e. strncmp_eq FILEBUF_SIZE (name @ [0]) (de_name e)) inum
              (uninit BLOCK_SIZE s) 0 0 False s))
     | _ \<Rightarrow> Some (BUF_NULL, opt_or 0 target, index))"

section \<open>Removing and adding entries\<close>

definition remove_dirent_dev :: "int \<Rightarrow> int \<Rightarrow> 'a layer1_dev_scheme \<Rightarrow> (int \<times> 'a layer1_dev_scheme) option" where
  "remove_dirent_dev inum index s =
    (let (ret, my_inode) = local_inode_dev inum s in
     if ret \<noteq> SUCCESS then Some (ret, s)
     else if \<not> S_ISDIR (d_mode my_inode) then Some (NOT_DIR, s)
     else if d_size my_inode = 0 \<or> index < 0 then Some (BAD_INDEX, s)
     else
       (let block_num = index div int DIRENTS_PER_BLOCK;
            block_offset = index mod int DIRENTS_PER_BLOCK;
            num_blocks = c_int (sint (d_size my_inode) sdiv int BLOCK_SIZE);
            remainder = sint (d_size my_inode) smod int BLOCK_SIZE
        in if c_u64 remainder mod int sizeof_dirent \<noteq> 0 then Some (MALFORMED_DIRECTORY, s)
           else case (int_mult block_num (int BLOCK_SIZE), int_mult num_blocks (int BLOCK_SIZE)) of
             (Some block_start, Some blocks_end) \<Rightarrow>
               (let entry = c_u64 (block_start + block_offset * int sizeof_dirent);
                    last_entry = c_u64 (blocks_end + (remainder - int sizeof_dirent))
                in if last_entry < entry then Some (BAD_INDEX, s)
                   else case read_i_dev inum (Some (uninit sizeof_dirent s)) (c_s64 last_entry) (int sizeof_dirent) s of
                     None \<Rightarrow> None
                   | Some (_, last_ent) \<Rightarrow>
                       (case write_i_dev inum (Some last_ent) (c_s64 entry) (int sizeof_dirent) s of
                          None \<Rightarrow> None
                        | Some (ret, s) \<Rightarrow>
                            if ret \<noteq> int sizeof_dirent then Some (ret, s)
                            else
                              (let new_size = sint (d_size my_inode) - int sizeof_dirent;
                                   new_size = (if new_size smod int BLOCK_SIZE = 0 \<and> new_size \<noteq> 0
                                     then new_size - int DIRENTS_REMAINDER else new_size)
                               in map_option (\<lambda>(_, s). (SUCCESS, s)) (trunc_fs_dev inum new_size s))))
           | _ \<Rightarrow> None))"

definition add_dirent_dev :: "int \<Rightarrow> dir_ent option \<Rightarrow> 'a layer1_dev_scheme \<Rightarrow> (int \<times> 'a layer1_dev_scheme) option" where
  "add_dirent_dev inum d s =
    (case d of
       None \<Rightarrow> Some (BUF_NULL, s)
     | Some d \<Rightarrow>
         (let (ret, my_inode) = local_inode_dev inum s in
          if ret \<noteq> SUCCESS then Some (ret, s)
          else if \<not> S_ISDIR (d_mode my_inode) then Some (NOT_DIR, s)
          else
            (let sz = sint (d_size my_inode);
                 write_offset = (if sz sdiv int BLOCK_SIZE < (sz + int sizeof_dirent) sdiv int BLOCK_SIZE
                   then sz + int DIRENTS_REMAINDER else sz);
                 remainder = sz smod int BLOCK_SIZE
             in if c_u64 remainder mod int sizeof_dirent \<noteq> 0 then Some (MALFORMED_DIRECTORY, s)
                else write_i_dev inum (Some (enc_dirent d)) write_offset (int sizeof_dirent) s)))"

end
