(* ===== verification/DeviceMkfs.thy ===== *)
theory DeviceMkfs
  imports DeviceInodes Mkfs
begin

text \<open>
  Formatting a device, \<open>src/phase 2/layer1.c\<close> and \<open>src/phase 2/mkfs.c\<close>.  The size given to \<open>mkfs\<close> is not
  limited any more, and the inode table packs 48 inodes into a block.
\<close>

section \<open>Operations\<close>

definition zero_inode_dev :: inode_dev where
  "zero_inode_dev = dec_inode_dev (replicate sizeof_inode_dev 0)"

definition init_sb_dev :: "int \<Rightarrow> superblock" where
  "init_sb_dev blocks =
    (let total_iblocks = max (MIN_IBITMAP + MIN_INODES)
           (int (dbl_ceil (dbl_mult_nat (nat blocks) INODES_PERCENT)));
         data_blocks = blocks - int SUPERBLOCK_SIZE - total_iblocks;
         inode_blocks_per_bitmap_block = dbl_of_ratio BITS_PER_BLOCK INODES_PER_BLOCK_DEV;
         ibitmap_blocks = int (dbl_ceil
           (nat_div_dbl (nat total_iblocks) (dbl_add_nat inode_blocks_per_bitmap_block 1)));
         inode_blocks = total_iblocks - ibitmap_blocks
     in \<lparr>sb_ibitmap_block_offset = word_of_nat SUPERBLOCK_SIZE,
         sb_ibitmap_size = word_of_int ibitmap_blocks,
         sb_ilist_block_offset = word_of_int (int SUPERBLOCK_SIZE + ibitmap_blocks),
         sb_ilist_size = word_of_int inode_blocks,
         sb_data_block_offset = word_of_int (int SUPERBLOCK_SIZE + ibitmap_blocks + inode_blocks),
         sb_data_size = word_of_int data_blocks,
         sb_total_blocks = word_of_int blocks,
         sb_total_inodes = word_of_int (inode_blocks * int INODES_PER_BLOCK_DEV),
         sb_free_list_head = word_of_int ROOT_FREELIST,
         sb_root_inode = word_of_int ROOT_INODE,
         sb_block_size = word_of_nat BLOCK_SIZE,
         sb_inodes_per_block = word_of_nat INODES_PER_BLOCK_DEV,
         sb_num_inodes = word_of_int (inode_blocks * int INODES_PER_BLOCK_DEV)\<rparr>)"

definition init_superblock_dev :: "int \<Rightarrow> 'a layer1_dev_scheme \<Rightarrow> int \<times> 'a layer1_dev_scheme" where
  "init_superblock_dev blocks s = write_superblock_dev (Some (init_sb_dev blocks)) s"

primrec init_freelist_loop_dev ::
    "nat list \<Rightarrow> int \<Rightarrow> 'a layer1_dev_scheme \<Rightarrow> int \<times> 'a layer1_dev_scheme" where
  "init_freelist_loop_dev [] num_data_blocks s = (SUCCESS, s)"
| "init_freelist_loop_dev (i # is) num_data_blocks s =
    (let node_loc = int (i * (ADDR_PER_NODE + 1) + 1);
         (ret, s') = data_write_dev node_loc (Some (enc_node (init_node num_data_blocks i))) s
     in if ret \<noteq> SUCCESS then (DISC_UNINITIALIZED, s')
        else init_freelist_loop_dev is num_data_blocks s')"

definition init_freelist_dev :: "'a layer1_dev_scheme \<Rightarrow> int \<times> 'a layer1_dev_scheme" where
  "init_freelist_dev s =
    (let (ret, sb) = local_superblock_dev s in
     if ret \<noteq> SUCCESS then (DISC_UNINITIALIZED, s)
     else (let num_data_blocks = sint (sb_data_size sb);
               blocks_per_node = ADDR_PER_NODE + 1;
               num_nodes = dbl_ceil (dbl_of_ratio (nat num_data_blocks) blocks_per_node)
           in init_freelist_loop_dev [0..<num_nodes] num_data_blocks s))"

primrec init_ibitmap_loop_dev :: "nat list \<Rightarrow> superblock \<Rightarrow> 'a layer1_dev_scheme \<Rightarrow> 'a layer1_dev_scheme" where
  "init_ibitmap_loop_dev [] sb s = s"
| "init_ibitmap_loop_dev (cur # rest) sb s =
    init_ibitmap_loop_dev rest sb
      (snd (write_block_dev (sint (sb_ibitmap_block_offset sb + word_of_nat cur))
        (Some (replicate BLOCK_SIZE 0)) s))"

definition init_ibitmap_dev :: "'a layer1_dev_scheme \<Rightarrow> int \<times> 'a layer1_dev_scheme" where
  "init_ibitmap_dev s =
    (let (ret, sb) = local_superblock_dev s in
     if ret \<noteq> SUCCESS then (DISC_UNINITIALIZED, s)
     else (SUCCESS, init_ibitmap_loop_dev [0..<unat (sb_ibitmap_size sb)] sb s))"

definition dir_inode_dev :: "u32 \<Rightarrow> int \<Rightarrow> int \<Rightarrow> int \<Rightarrow> inode_dev" where
  "dir_inode_dev mode uid gid data_num =
    zero_inode_dev\<lparr>d_mode := (S_IFDIR OR mode) AND (0xffff XOR S_IFREG),
      d_uid := word_of_int uid, d_gid := word_of_int gid,
      d_size := word_of_nat (2 * sizeof_dirent),
      d_direct_blocks := (d_direct_blocks zero_inode_dev)[0 := word_of_int data_num]\<rparr>"

definition create_dir_base_dev ::
    "int \<Rightarrow> u32 \<Rightarrow> int \<Rightarrow> int \<Rightarrow> int \<Rightarrow> 'a layer1_dev_scheme \<Rightarrow> int \<times> int \<times> 'a layer1_dev_scheme" where
  "create_dir_base_dev inode_num mode uid gid parent_inum s =
    (let (ret, my_inode, _, s1) = inode_create_dev (Some (uninit_inode_dev s)) (Some 0) (consume sizeof_inode_dev s) in
     if ret \<noteq> SUCCESS then (ret, inode_num, s1)
     else
       (let d = base_dirblock my_inode parent_inum s1;
            (ret, data_num, s2) = data_allocate_dev (Some d) 0
              (consume (BLOCK_SIZE + 2 * FILEBUF_SIZE) s1)
        in if ret \<noteq> SUCCESS then (ret, inode_num, snd (inode_free_dev my_inode s2))
           else (let (_, _, s3) = inode_write_dev my_inode (Some (dir_inode_dev mode uid gid data_num)) s2
                 in (SUCCESS, my_inode, s3))))"

text \<open>
  \<open>device\<close> is what \<open>open("/dev/vde", O_RDWR)\<close> finds, \<open>None\<close> when it fails.  The field \<open>total_blocks\<close>,
  which no operation reads, is kept at the size of the device.
\<close>

definition open_device :: "byte list option \<Rightarrow> 'a layer0_scheme \<Rightarrow> 'a layer0_scheme" where
  "open_device device s =
    s\<lparr>disk := device, total_blocks := int (length (contents device) div BLOCK_SIZE)\<rparr>"

definition mkfs_dev ::
    "byte list option \<Rightarrow> int \<Rightarrow> int \<Rightarrow> int \<Rightarrow> 'a layer1_dev_scheme \<Rightarrow> int \<times> 'a layer1_dev_scheme" where
  "mkfs_dev device blocks root_uid root_gid s =
    (if blocks < 0 then (TOTALBLOCKS_INVALID, s)
     else if blocks < MIN_BLOCKS then (FS_TOO_SMALL, s)
     else if BLOCK_SIZE < sizeof_inode_dev then (BLOCKSIZE_TOO_SMALL, s)
     else if root_uid < 0 \<or> root_gid < 0 then (BAD_UID, s)
     else
       (let s0 = open_device device s in
        if disk s0 = None then (UNEXPECTED_ERROR, s0)
        else
          (let (_, s1) = init_superblock_dev blocks s0;
               (_, s2) = init_freelist_dev s1;
               (_, s3) = init_ibitmap_dev s2;
               (_, root_inode, s4) = create_dir_base_dev 0 S_IRWXUGO root_uid root_gid INVALID_INODE s3;
               (_, sb) = local_superblock_dev s4;
               (_, s5) = write_superblock_dev (Some (sb\<lparr>sb_root_inode := word_of_int root_inode\<rparr>)) s4
           in (SUCCESS, s5))))"

text \<open>\<open>main\<close> of \<open>src/phase 2/mkfs.c\<close>, which formats the whole device.\<close>

definition mkfs_main :: "byte list option \<Rightarrow> 'a layer1_dev_scheme \<Rightarrow> 'a layer1_dev_scheme" where
  "mkfs_main device s = snd (mkfs_dev device (int NUM_BLOCKS) 0 0 s)"

end
