(* ===== verification/DeviceNames.thy ===== *)
theory DeviceNames
  imports DeviceDirs DeviceMkfs Namespace
begin

text \<open>
  Paths of the version on a device, \<open>src/phase 2/layer2.c\<close>: attributes with the modification time,
  permissions, \<open>namei\<close>, \<open>mkdir\<close> and \<open>mknod\<close>.
\<close>

section \<open>Attributes, permissions, paths\<close>

record c_stat_dev = c_stat +
  st_mtime :: int

definition get_stat_dev :: "c_stat_dev \<Rightarrow> int \<Rightarrow> 'a layer1_dev_scheme \<Rightarrow> c_stat_dev" where
  "get_stat_dev s0 inum s =
    (let st = s0\<lparr>st_dev := st_dev s0 AND NOT 0xff\<rparr>;
         (ret, my_inode) = local_inode_dev inum s
     in if ret \<noteq> SUCCESS then st
        else st\<lparr>st_ino := inum, st_mode := d_mode my_inode, st_uid := d_uid my_inode,
                st_gid := d_gid my_inode, st_size := sint (d_size my_inode),
                st_mtime := uint (d_mod_time my_inode)\<rparr>)"

definition has_dev :: "u32 \<Rightarrow> inode_dev \<Rightarrow> bool" where
  "has_dev flag ino \<longleftrightarrow> flag AND d_mode ino \<noteq> 0"

definition check_permissions_dev ::
    "int \<Rightarrow> int \<Rightarrow> int \<Rightarrow> bool option \<Rightarrow> bool option \<Rightarrow> bool option \<Rightarrow> 'a layer1_dev_scheme \<Rightarrow>
      int \<times> bool \<times> bool \<times> bool" where
  "check_permissions_dev inum uid gid read write exec s =
    (if read = None \<or> write = None \<or> exec = None
     then (BUF_NULL, opt_or False read, opt_or False write, opt_or False exec)
     else
       (let (ret, my_inode) = local_inode_dev inum s in
        if ret \<noteq> SUCCESS then (ret, False, False, False)
        else
          (let read = False; write = False; exec = False;
               (read, write, exec) =
                 (if d_uid my_inode = word_of_int uid then
                    (read \<or> has_dev S_IRUSR my_inode, write \<or> has_dev S_IWUSR my_inode, exec \<or> has_dev S_IXUSR my_inode)
                  else (read, write, exec));
               (read, write, exec) =
                 (if d_gid my_inode = word_of_int gid then
                    (read \<or> has_dev S_IRGRP my_inode, write \<or> has_dev S_IWGRP my_inode, exec \<or> has_dev S_IXGRP my_inode)
                  else (read, write, exec));
               (read, write, exec) =
                 (if d_uid my_inode \<noteq> word_of_int uid \<and> d_gid my_inode \<noteq> word_of_int gid then
                    (read \<or> has_dev S_IROTH my_inode, write \<or> has_dev S_IWOTH my_inode, exec \<or> has_dev S_IXOTH my_inode)
                  else (read, write, exec))
           in (SUCCESS, read, write, exec))))"

definition permissions_dev :: "int \<Rightarrow> int \<Rightarrow> int \<Rightarrow> 'a layer1_dev_scheme \<Rightarrow> bool \<times> bool \<times> bool" where
  "permissions_dev inum uid gid s =
    snd (check_permissions_dev inum uid gid (Some False) (Some False) (Some False) s)"

primrec namei_loop_dev ::
    "byte list list \<Rightarrow> int \<Rightarrow> int \<Rightarrow> int \<Rightarrow> int \<Rightarrow> int \<Rightarrow> 'a layer1_dev_scheme \<Rightarrow>
      (int \<times> int \<times> int \<times> int) option" where
  "namei_loop_dev [] uid gid parent_inum target_inum index s = Some (SUCCESS, parent_inum, target_inum, index)"
| "namei_loop_dev (token # tokens) uid gid parent_inum target_inum index s =
    (let parent_inum = target_inum in
     if parent_inum = 0 then Some (- ENOENT, parent_inum, target_inum, index)
     else if MAX_FILENAME < length token then Some (- ENAMETOOLONG, parent_inum, target_inum, index)
     else
       (let (read, write, exec) = permissions_dev parent_inum uid gid s in
        if \<not> read \<or> \<not> exec then Some (- EACCES, parent_inum, target_inum, index)
        else case search_by_name_dev parent_inum (Some token) (Some target_inum) index s of
          None \<Rightarrow> None
        | Some (ret, target_inum, index) \<Rightarrow>
            if ret = NOT_DIR then Some (- ENOTDIR, parent_inum, target_inum, index)
            else
              (let target_inum = (if ret = NOT_IN_DIR then 0 else target_inum)
               in namei_loop_dev tokens uid gid parent_inum target_inum index s)))"

definition namei_dev ::
    "byte list \<Rightarrow> int \<Rightarrow> int \<Rightarrow> 'a layer1_dev_scheme \<Rightarrow> (int \<times> int \<times> int \<times> int) option" where
  "namei_dev pathname uid gid s = namei_loop_dev (strtok pathname) uid gid ROOT_INODE ROOT_INODE 0 s"

section \<open>mkdir and mknod\<close>

definition mkdir_fs_dev ::
    "byte list \<Rightarrow> u32 \<Rightarrow> int \<Rightarrow> int \<Rightarrow> 'a layer1_dev_scheme \<Rightarrow> (int \<times> 'a layer1_dev_scheme) option" where
  "mkdir_fs_dev pathname mode uid gid s =
    (case namei_dev pathname uid gid s of
       None \<Rightarrow> None
     | Some (ret, parent_inum, target_inum, index) \<Rightarrow>
         if ret \<noteq> SUCCESS then Some (ret, s)
         else
           (let (read, write, exec) = permissions_dev parent_inum uid gid s in
            if \<not> read \<or> \<not> exec \<or> \<not> write then Some (- EACCES, s)
            else if target_inum \<noteq> 0 then Some (- EEXIST, s)
            else
              (let (ret, new_inum, s) = create_dir_base_dev 0 mode uid gid parent_inum s in
               if ret \<noteq> SUCCESS then Some (- ENOSPC, s)
               else case last_component pathname of
                 None \<Rightarrow> None
               | Some target_name \<Rightarrow>
                   (case add_dirent_dev parent_inum (Some (new_dirent target_name new_inum)) s of
                      None \<Rightarrow> None
                    | Some (ret, s) \<Rightarrow>
                        if c_u64 ret \<noteq> int sizeof_dirent then
                          map_option (\<lambda>(_, s). (- ENOSPC, s)) (del_dev new_inum s)
                        else Some (SUCCESS, s)))))"

definition file_inode_dev :: "u32 \<Rightarrow> int \<Rightarrow> int \<Rightarrow> inode_dev" where
  "file_inode_dev mode uid gid =
    zero_inode_dev\<lparr>d_mode := (S_IFREG OR mode) AND (0xffff XOR S_IFDIR),
      d_uid := word_of_int uid, d_gid := word_of_int gid\<rparr>"

definition mknod_fs_dev ::
    "byte list \<Rightarrow> u32 \<Rightarrow> int \<Rightarrow> int \<Rightarrow> 'a layer1_dev_scheme \<Rightarrow> (int \<times> 'a layer1_dev_scheme) option" where
  "mknod_fs_dev pathname mode uid gid s =
    (case namei_dev pathname uid gid s of
       None \<Rightarrow> None
     | Some (ret, parent_inum, target_inum, index) \<Rightarrow>
         if ret \<noteq> SUCCESS then Some (ret, s)
         else
           (let (read, write, exec) = permissions_dev parent_inum uid gid s in
            if \<not> read \<or> \<not> exec \<or> \<not> write then Some (- EACCES, s)
            else if target_inum \<noteq> 0 then Some (- EEXIST, s)
            else
              (let (ret, new_inum, _, s) = inode_create_dev (Some (file_inode_dev mode uid gid)) (Some 0) s in
               if ret \<noteq> SUCCESS then Some (- ENOSPC, s)
               else case last_component pathname of
                 None \<Rightarrow> None
               | Some target_name \<Rightarrow>
                   (case add_dirent_dev parent_inum (Some (new_dirent target_name new_inum)) s of
                      None \<Rightarrow> None
                    | Some (ret, s) \<Rightarrow>
                        if c_u64 ret \<noteq> int sizeof_dirent then
                          map_option (\<lambda>(_, s). (- ENOSPC, s)) (del_dev new_inum s)
                        else Some (SUCCESS, s)))))"

end
