(* ===== verification/DeviceView.thy ===== *)
theory DeviceView
  imports DeviceInodes
begin

text \<open>
  The file system on a device seen as one in memory.  \<open>warm\<close> fills the cache of the superblock, which is
  empty between \<open>fs_init\<close> and the first write; \<open>view\<close> is the state in memory with the same blocks in
  which the inode table is packed the other way, with sizes of 32 bits and no modification times.
  \<open>dev_rel t u\<close> says that \<open>t\<close> is the view of \<open>u\<close>; the operations of layer 1 preserve it.
\<close>

section \<open>A state with an empty cache\<close>

definition warm :: "'a layer1_scheme \<Rightarrow> 'a layer1_scheme" where
  "warm s = (case cached_superblock s of
     Some _ \<Rightarrow> s | None \<Rightarrow> s\<lparr>cached_superblock := Some (dec_superblock (blk s 0))\<rparr>)"

definition attached :: "'a layer1_scheme \<Rightarrow> bool" where
  "attached s \<longleftrightarrow> mounted_dev (warm s)"

lemma warm_simps [simp]:
  "disk (warm s) = disk s" "total_blocks (warm s) = total_blocks s" "junk (warm s) = junk s"
  "nblocks (warm s) = nblocks s" "blk (warm s) m = blk s m" "disk_ok (warm s) = disk_ok s"
  "uninit n (warm s) = uninit n s"
  by (simp_all add: warm_def uninit_def split: option.split)

lemma warm_cached [simp]: "cached_superblock s = Some c \<Longrightarrow> warm s = s"
  by (simp add: warm_def)

lemma warm_warm [simp]: "warm (warm s) = warm s"
  by (simp add: warm_def split: option.split)

lemma attached_mounted: "attached s \<Longrightarrow> mounted (warm s)"
  by (simp add: attached_def mounted_dev_mounted)

lemma local_superblock_warm [simp]:
  assumes "mounted (warm s)"
  shows "local_superblock_dev s = (SUCCESS, sb_of (warm s))"
proof (cases "cached_superblock s")
  case None
  then have s: "(warm s)\<lparr>cached_superblock := None\<rparr> = s" by (simp add: warm_def)
  have "read_superblock sb s = read_superblock_dev sb s" for sb
    using read_superblock_dev_eq[of s] mounted_device[OF assms] by simp
  then show ?thesis using read_superblock_uncached[OF assms] unfolding s by (simp add: local_superblock_dev_def)
qed (use assms in simp)

lemma read_block_warm [simp]: "read_block_dev n b (warm s) = read_block_dev n b s"
  by (simp add: read_block_dev_def)

text \<open>A block written behind the superblock.\<close>

definition put_part :: "nat \<Rightarrow> byte list \<Rightarrow> 'a layer0_scheme \<Rightarrow> 'a layer0_scheme" where
  "put_part k buf s = put_blk k (overlay 0 (take BLOCK_SIZE buf) (blk s k)) s"

lemma is_block_part: "disk_ok s \<Longrightarrow> k < nblocks s \<Longrightarrow> is_block (overlay 0 (take BLOCK_SIZE buf) (blk s k))"
  using is_block_blk[of s k] by (simp add: is_block_def)

lemma put_part_block: "disk_ok s \<Longrightarrow> k < nblocks s \<Longrightarrow> is_block b \<Longrightarrow> put_part k b s = put_blk k b s"
  using is_block_blk[of s k] by (simp add: put_part_def is_block_def overlay_all)

lemma write_block_dev_part:
  assumes "disk_ok s" "k < nblocks s" "nblocks s \<le> NUM_BLOCKS"
  shows "write_block_dev (int k) b s = (case b of None \<Rightarrow> (BUF_NULL, s) | Some buf \<Rightarrow> (SUCCESS, put_part k buf s))"
proof (cases b)
  case (Some buf)
  obtain d where d: "disk s = Some d" "length d = nblocks s * BLOCK_SIZE" "total_blocks s = int (nblocks s)"
    using assms(1) by (rule disk_okE)
  have fit: "k * BLOCK_SIZE + BLOCK_SIZE \<le> length d" using slot_inside[OF assms(2), of BLOCK_SIZE] d(2) by argo
  have "overlay (k * BLOCK_SIZE) (take BLOCK_SIZE buf) d =
      overlay (k * BLOCK_SIZE) (overlay 0 (take BLOCK_SIZE buf) (window (k * BLOCK_SIZE) BLOCK_SIZE d)) d"
    using fit by (intro nth_equalityI) (auto simp: nth_overlay nth_window)
  moreover have "write_block_dev (int k) b s = write_block (int k) b s"
    using block_dev_eq[OF assms(1,3)] assms(2) by simp
  ultimately show ?thesis
    using d assms(2) Some by (simp add: write_block_def put_part_def put_blk_def blk_def)
next
  case None
  moreover obtain d where "disk s = Some d" using assms(1) by (rule disk_okE)
  ultimately show ?thesis using assms(2,3) by (simp add: write_block_dev_def)
qed

section \<open>The view\<close>

text \<open>
  The inode without its modification time, which the version in memory never sets; the high word of
  the size is kept in its place.
\<close>

definition flat :: "inode_dev \<Rightarrow> inode" where
  "flat i = \<lparr>i_mode = d_mode i, i_links = d_links i, i_uid = d_uid i, i_gid = d_gid i, i_size = ucast (d_size i),
    i_access_time = d_access_time i, i_mod_time = ucast (drop_bit 32 (d_size i)), i_direct_blocks = d_direct_blocks i,
    i_indirect = d_indirect i, i_double_indirect = d_double_indirect i, i_triple_indirect = d_triple_indirect i\<rparr>"

definition view_inode :: "'a layer1_scheme \<Rightarrow> nat \<Rightarrow> inode" where
  "view_inode s k = (if k < ninodes s then flat (dlist.get s k) else zero_inode)"

definition view_block :: "'a layer1_scheme \<Rightarrow> nat \<Rightarrow> byte list" where
  "view_block s k =
    concat (map (\<lambda>j. enc_inode (view_inode s (k * INODES_PER_BLOCK + j))) [0..<INODES_PER_BLOCK]) @
    replicate (BLOCK_SIZE - INODES_PER_BLOCK * sizeof_inode) 0"

definition view :: "'a layer1_scheme \<Rightarrow> layer1" where
  "view s = layer1.truncate
    (fold (\<lambda>k t. put_blk (ilist_off s + k) (view_block s k) t) [0..<ilist_len s] s)"

text \<open>Inodes whose size fits the version in memory.\<close>

definition fits32 :: "inode_dev \<Rightarrow> bool" where
  "fits32 j \<longleftrightarrow> inode_dev_wf j \<and> drop_bit 32 (d_size j) = 0"

definition ino_rel :: "inode \<Rightarrow> inode_dev \<Rightarrow> bool" where
  "ino_rel i j \<longleftrightarrow> fits32 j \<and> i = flat j"

definition dev_rel :: "layer1 \<Rightarrow> layer1_dev \<Rightarrow> bool" where
  "dev_rel t u \<longleftrightarrow> attached u \<and> t = view (warm u)"

lemma inode_dev_wf_at [simp]:
  assumes "mounted_dev s" "valid_inum s n"
  shows "inode_dev_wf (inode_dev_at s n)"
  using dlist.slot_fits[of "islot n"] dev_inum_range(2)[OF assms]
    ilist.rd_fits[OF mounted_dev_mounted[OF assms(1)], of "islot n div INODES_PER_BLOCK_DEV"]
  by (auto simp: inode_dev_at_def dlist.get_def is_block_def intro!: inode_dev_wf_dec)

lemma inode_wf_flat [simp]: "inode_dev_wf i \<Longrightarrow> inode_wf (flat i)"
  by (simp add: inode_dev_wf_def inode_wf_def flat_def)

lemma flat_simps [simp]:
  "flat (i\<lparr>d_mod_time := t\<rparr>) = flat i" "i_mode (flat i) = d_mode i" "i_uid (flat i) = d_uid i"
  "i_gid (flat i) = d_gid i" "i_direct_blocks (flat i) = d_direct_blocks i" "i_indirect (flat i) = d_indirect i"
  "i_double_indirect (flat i) = d_double_indirect i" "i_triple_indirect (flat i) = d_triple_indirect i"
  by (simp_all add: flat_def)

lemma view_inode_at:
  "valid_inum s n \<Longrightarrow> view_inode s (islot n) = flat (inode_dev_at s n)"
  by (auto simp: view_inode_def inode_dev_at_def valid_inum_def islot_def)

lemma view_inode_wf [simp]:
  assumes "mounted_dev s"
  shows "inode_wf (view_inode s k)"
proof (cases "k < ninodes s")
  case True
  then have "valid_inum s (Suc k)" by (simp add: valid_inum_def)
  from inode_wf_flat[OF inode_dev_wf_at[OF assms this]] view_inode_at[OF this] show ?thesis
    by (simp add: islot_def)
qed (simp add: view_inode_def)

lemma window_concat:
  assumes "\<forall>x \<in> set xs. length x = w" "j < length xs"
  shows "window (j * w) w (concat xs @ r) = xs ! j"
  using assms
proof (induction xs arbitrary: j)
  case (Cons x xs)
  then show ?case by (cases j) (auto simp: window_def)
qed simp

lemma length_concat_same: "\<forall>x \<in> set xs. length x = w \<Longrightarrow> length (concat xs) = length xs * w"
  by (induction xs) auto

lemma view_block_inode:
  assumes "mounted_dev s" "j < INODES_PER_BLOCK"
  shows "window (j * sizeof_inode) sizeof_inode (view_block s k) = enc_inode (view_inode s (k * INODES_PER_BLOCK + j))"
  unfolding view_block_def by (subst window_concat) (use assms in \<open>auto simp: length_enc_inode\<close>)

lemma is_block_view [simp]: "mounted_dev s \<Longrightarrow> is_block (view_block s k)"
  unfolding view_block_def is_block_def length_append
  by (subst length_concat_same[of _ sizeof_inode]) (auto simp: length_enc_inode c_consts)

text \<open>The blocks of the view.\<close>

lemma truncate_layer1_simps [simp]:
  "disk (layer1.truncate s) = disk s" "total_blocks (layer1.truncate s) = total_blocks s"
  "junk (layer1.truncate s) = junk s" "cached_superblock (layer1.truncate s) = cached_superblock s"
  by (simp_all add: layer1.truncate_def)

lemma fold_put_blk:
  assumes "disk_ok s" "off + n \<le> nblocks s" "\<forall>k < n. is_block (f k)"
  defines "t \<equiv> fold (\<lambda>k t. put_blk (off + k) (f k) t) [0..<n] s"
  shows "disk_ok t \<and> nblocks t = nblocks s \<and> total_blocks t = total_blocks s \<and> junk t = junk s \<and>
    cached_superblock t = cached_superblock s \<and>
    (\<forall>m. blk t m = (if off \<le> m \<and> m < off + n then f (m - off) else blk s m))"
  using assms(2,3) unfolding t_def
proof (induction n)
  case (Suc n)
  then show ?case using assms(1) by (auto simp: blk_put_blk)
qed (use assms(1) in auto)

lemma view_fields:
  assumes "mounted_dev s"
  shows "disk_ok (view s)" "nblocks (view s) = nblocks s" "total_blocks (view s) = total_blocks s"
    "junk (view s) = junk s" "cached_superblock (view s) = cached_superblock s" "sb_of (view s) = sb_of s"
    "blk (view s) m = (if ilist_off s \<le> m \<and> m < ilist_off s + ilist_len s
      then view_block s (m - ilist_off s) else blk s m)"
proof -
  note m = mounted_dev_mounted[OF assms]
  have in_disk: "ilist_off s + ilist_len s \<le> nblocks s" using mounted_regions[OF m] by linarith
  note f = fold_put_blk[OF mounted_disk_ok[OF m] in_disk, of "view_block s"]
  show "disk_ok (view s)" "nblocks (view s) = nblocks s" "total_blocks (view s) = total_blocks s"
    "junk (view s) = junk s" "cached_superblock (view s) = cached_superblock s" "sb_of (view s) = sb_of s"
    "blk (view s) m = (if ilist_off s \<le> m \<and> m < ilist_off s + ilist_len s
      then view_block s (m - ilist_off s) else blk s m)"
    using f assms by (auto simp: view_def disk_ok_def nblocks_def blk_def sb_of_def cong: option.case_cong)
qed

lemma view_layout:
  assumes "mounted_dev s"
  shows "mounted (view s)" "ilist_off (view s) = ilist_off s" "ilist_len (view s) = ilist_len s"
    "data_off (view s) = data_off s" "ndata (view s) = ndata s" "ninodes (view s) = ninodes s"
    "ibitmap_off (view s) = ibitmap_off s" "ibitmap_len (view s) = ibitmap_len s"
    "valid_inum (view s) n = valid_inum s n" "valid_data (view s) n = valid_data s n"
    "uninit n (view s) = uninit n s"
proof -
  note m = mounted_dev_mounted[OF assms] and f = view_fields[OF assms]
  note r = mounted_regions[OF m]
  show "mounted (view s)"
    using mountedD[OF m] f r(3) by (simp add: mounted_def)
qed (simp_all add: region_defs valid_inum_def valid_data_def uninit_def view_fields[OF assms])

lemma inode_at_view:
  assumes "mounted_dev s" "valid_inum s n"
  shows "inode_at (view s) n = flat (inode_dev_at s n)"
proof -
  let ?i = "islot n"
  have c: "?i div INODES_PER_BLOCK < ilist_len s"
    using valid_inum_range(2)[OF mounted_dev_mounted[OF assms(1)] assms(2)] .
  have "inode_at (view s) n = dec_inode (window (?i mod INODES_PER_BLOCK * sizeof_inode) sizeof_inode
      (view_block s (?i div INODES_PER_BLOCK)))"
    using c by (simp add: inode_at_def ilist.get_def view_layout[OF assms(1)] view_fields(7)[OF assms(1)])
  also have "\<dots> = view_inode s ?i"
    using assms(1) by (subst view_block_inode) (simp_all add: c_consts codec)
  finally show ?thesis using view_inode_at[OF assms(2)] by simp
qed

text \<open>Two states with the same blocks and the same other fields are equal.\<close>

lemma layer1_eqI:
  assumes "disk_ok s" "disk_ok t" "\<And>k. k < nblocks s \<Longrightarrow> blk s k = blk t k"
    "total_blocks s = total_blocks t" "junk s = junk t" "cached_superblock s = cached_superblock t"
  shows "s = (t :: layer1)"
proof -
  have n: "nblocks s = nblocks t" using assms(4) by (simp add: nblocks_def)
  obtain d e where d: "disk s = Some d" "length d = nblocks s * BLOCK_SIZE"
    and e: "disk t = Some e" "length e = nblocks s * BLOCK_SIZE"
    using assms(1,2) n by (metis disk_okE)
  have "d = e"
  proof (rule nth_equalityI)
    fix i assume i: "i < length d"
    let ?k = "i div BLOCK_SIZE" and ?j = "i mod BLOCK_SIZE"
    have k: "?k < nblocks s" using i d(2) by (simp add: less_mult_imp_div_less)
    have j: "?k * BLOCK_SIZE + ?j = i" "?j < BLOCK_SIZE" by simp_all
    have "blk s ?k ! ?j = blk t ?k ! ?j" using assms(3)[OF k] by simp
    then show "d ! i = e ! i"
      using j i d e by (simp add: blk_def nth_window)
  qed (simp add: d e)
  then show ?thesis using assms d e by simp
qed

text \<open>Writes outside the inode table.\<close>

lemma view_put_blk:
  assumes "mounted_dev s" "0 < k" "k < nblocks s" "k < ilist_off s \<or> ilist_off s + ilist_len s \<le> k" "is_block b"
  shows "mounted_dev (put_blk k b s)" "view (put_blk k b s) = put_blk k b (view s)"
    "valid_inum s n \<Longrightarrow> inode_dev_at (put_blk k b s) n = inode_dev_at s n"
proof -
  note m = mounted_dev_mounted[OF assms(1)] and f = view_fields[OF assms(1)]
  show md: "mounted_dev (put_blk k b s)" using assms by (simp add: mounted_dev_def)
  have bl: "blk (put_blk k b s) (ilist_off s + q) = blk s (ilist_off s + q)" if "q < ilist_len s" for q
    using assms that m by (auto simp: blk_put_blk mounted_disk_ok)
  have "dlist.get (put_blk k b s) p = dlist.get s p" if "p < ninodes s" for p
  proof -
    have "p div INODES_PER_BLOCK_DEV < ilist_len s"
      using that assms(1) by (simp add: mounted_dev_def less_mult_imp_div_less)
    then show ?thesis by (simp add: dlist.get_def bl)
  qed
  then have vi: "view_inode (put_blk k b s) = view_inode s" by (auto simp: view_inode_def fun_eq_iff)
  show "valid_inum s n \<Longrightarrow> inode_dev_at (put_blk k b s) n = inode_dev_at s n"
    using \<open>\<And>p. p < ninodes s \<Longrightarrow> dlist.get (put_blk k b s) p = dlist.get s p\<close>
    by (auto simp: inode_dev_at_def valid_inum_def islot_def)
  show "view (put_blk k b s) = put_blk k b (view s)"
  proof (rule layer1_eqI)
    show "disk_ok (put_blk k b (view s))" using f assms by simp
    show "blk (view (put_blk k b s)) q = blk (put_blk k b (view s)) q" if "q < nblocks (view (put_blk k b s))" for q
      using assms f m unfolding view_fields(7)[OF md]
      by (auto simp: blk_put_blk mounted_disk_ok view_block_def vi)
  qed (simp_all add: view_fields[OF md] f)
qed

text \<open>Writes of an inode, of the superblock, and of nothing.\<close>

lemma overlay_concat:
  assumes "\<forall>x \<in> set xs. length x = w" "j < length xs" "length y = w"
  shows "overlay (j * w) y (concat xs @ r) = concat (xs[j := y]) @ r"
  using assms
proof (induction xs arbitrary: j)
  case (Cons x xs)
  then show ?case
  proof (cases j)
    case (Suc i)
    with Cons have "overlay (i * w) y (concat xs @ r) = concat (xs[i := y]) @ r" by simp
    with Suc Cons.prems show ?thesis by (simp add: overlay_def add.commute)
  qed (simp add: overlay_def)
qed simp

lemma view_put_inode:
  assumes "mounted_dev s" "valid_inum s n" "inode_dev_wf i"
  shows "view (put_inode_dev n i s) = put_inode n (flat i) (view s)"
proof -
  let ?t = "put_inode_dev n i s" and ?q = "islot n div INODES_PER_BLOCK" and ?j = "islot n mod INODES_PER_BLOCK"
  note m = mounted_dev_mounted[OF assms(1)] and f = view_fields[OF assms(1)] and l = view_layout[OF assms(1)]
  have mt: "mounted_dev ?t" by (rule mounted_dev_put[OF assms])
  have v: "valid_inum (view s) n" using assms(2) l by simp
  have wf: "inode_wf (flat i)" using assms(3) by simp
  have vi: "view_inode ?t p = (if p = islot n then flat i else view_inode s p)" for p
    using dlist.get_put[OF m dev_inum_range(1)[OF assms(1,2)] assms(3), of p, folded put_inode_dev_def] assms(2)
    by (auto simp: view_inode_def valid_inum_def islot_def)
  have vb: "view_block ?t k = (if k = ?q then overlay (?j * sizeof_inode) (enc_inode (flat i)) (view_block s k)
      else view_block s k)" for k
  proof (cases "k = ?q")
    case True
    have j: "?j < INODES_PER_BLOCK" by (simp add: c_consts)
    have e: "?q * INODES_PER_BLOCK + ?j = islot n" by simp
    then have pos: "?q * INODES_PER_BLOCK + p = islot n \<longleftrightarrow> p = ?j" for p by linarith
    have "map (\<lambda>p. enc_inode (view_inode ?t (k * INODES_PER_BLOCK + p))) [0..<INODES_PER_BLOCK] =
        (map (\<lambda>p. enc_inode (view_inode s (k * INODES_PER_BLOCK + p))) [0..<INODES_PER_BLOCK])[?j := enc_inode (flat i)]"
      by (rule nth_equalityI) (use True j in \<open>auto simp: vi pos nth_list_update\<close>)
    then show ?thesis using True j assms(1) wf
      by (simp add: view_block_def overlay_concat length_enc_inode)
  next
    case False
    have "enc_inode (view_inode ?t (k * INODES_PER_BLOCK + p)) = enc_inode (view_inode s (k * INODES_PER_BLOCK + p))"
      if "p < INODES_PER_BLOCK" for p
    proof -
      have "(k * INODES_PER_BLOCK + p) div INODES_PER_BLOCK = k" using that by simp
      then have "k * INODES_PER_BLOCK + p \<noteq> islot n" using False by metis
      then show ?thesis by (simp add: vi)
    qed
    then have "map (\<lambda>p. enc_inode (view_inode ?t (k * INODES_PER_BLOCK + p))) [0..<INODES_PER_BLOCK] =
        map (\<lambda>p. enc_inode (view_inode s (k * INODES_PER_BLOCK + p))) [0..<INODES_PER_BLOCK]"
      by (intro map_cong) auto
    then show ?thesis unfolding view_block_def using False by (simp only: if_False)
  qed
  have q: "ilist_off s + ?q < nblocks s" "?q < ilist_len s"
    using valid_inum_range(2)[OF m assms(2)] mounted_regions[OF m] by simp_all
  have pb: "is_block (overlay (?j * sizeof_inode) (enc_inode (flat i)) (view_block s ?q))"
    using is_block_view[OF mt, of ?q] vb[of ?q] by simp
  have put: "put_inode n (flat i) (view s) = put_blk (ilist_off s + ?q)
      (overlay (?j * sizeof_inode) (enc_inode (flat i)) (view_block s ?q)) (view s)"
    using q by (simp add: put_inode_def ilist.put_def l f)
  show ?thesis
  proof (rule layer1_eqI)
    show "disk_ok (put_inode n (flat i) (view s))" unfolding put using pb q f by simp
    have reg: "ilist_off ?t = ilist_off s" "ilist_len ?t = ilist_len s" by simp_all
    show "blk (view ?t) k = blk (put_inode n (flat i) (view s)) k" if "k < nblocks (view ?t)" for k
      unfolding view_fields(7)[OF mt] reg put using pb q f blk_put_inode_dev[OF assms, of k]
      by (auto simp: blk_put_blk vb)
    show "total_blocks (view ?t) = total_blocks (put_inode n (flat i) (view s))"
      "junk (view ?t) = junk (put_inode n (flat i) (view s))"
      "cached_superblock (view ?t) = cached_superblock (put_inode n (flat i) (view s))"
      unfolding put view_fields[OF mt] by (simp_all add: f put_inode_dev_def dlist.put_def)
  qed (rule view_fields(1)[OF mt])
qed

lemma mounted_dev_consume [simp]: "mounted_dev (consume k s) = mounted_dev s"
  by (simp add: mounted_dev_def mounted_def region_defs)

lemma view_consume [simp]:
  assumes "mounted_dev s"
  shows "view (consume k s) = consume k (view s)" "inode_dev_at (consume k s) n = inode_dev_at s n"
proof -
  have md: "mounted_dev (consume k s)" using assms by simp
  note f = view_fields[OF assms] and g = view_fields[OF md]
  have reg: "ilist_off (consume k s) = ilist_off s" "ilist_len (consume k s) = ilist_len s"
    "ninodes (consume k s) = ninodes s" by (simp_all add: region_defs)
  have get: "dlist.get (consume k s) p = dlist.get s p" for p by (simp add: dlist.get_def reg)
  then show "inode_dev_at (consume k s) n = inode_dev_at s n" by (simp add: inode_dev_at_def)
  have "view_inode (consume k s) = view_inode s" by (auto simp: view_inode_def get reg fun_eq_iff)
  then have vb: "view_block (consume k s) q = view_block s q" for q
    by (simp add: view_block_def)
  show "view (consume k s) = consume k (view s)"
    by (rule layer1_eqI) (simp_all add: f g reg vb, simp_all add: consume_def f)
qed

lemma view_put_superblock:
  assumes "mounted_dev s" "geometry sb (nblocks s)"
    and "sb_ilist_block_offset sb = sb_ilist_block_offset (sb_of s)" "sb_ilist_size sb = sb_ilist_size (sb_of s)"
    "sb_num_inodes sb = sb_num_inodes (sb_of s)"
  shows "mounted_dev (put_superblock sb s)" "view (put_superblock sb s) = put_superblock sb (view s)"
    "valid_inum s n \<Longrightarrow> inode_dev_at (put_superblock sb s) n = inode_dev_at s n"
proof -
  let ?t = "put_superblock sb s"
  note m = mounted_dev_mounted[OF assms(1)] and f = view_fields[OF assms(1)]
  note d = mounted_disk_ok[OF m] mounted_regions[OF m]
  have reg: "ilist_off ?t = ilist_off s" "ilist_len ?t = ilist_len s" "ninodes ?t = ninodes s"
    using assms(3-) by (simp_all add: region_defs)
  show md: "mounted_dev ?t"
    using mounted_put_superblock[OF d(1) assms(2)] assms(1) reg by (simp add: mounted_dev_def)
  have bl: "blk ?t (ilist_off s + q) = blk s (ilist_off s + q)" for q
    using blk_put_superblock[of s] d by simp
  have get: "dlist.get ?t p = dlist.get s p" for p by (simp add: dlist.get_def reg bl)
  then show "valid_inum s n \<Longrightarrow> inode_dev_at ?t n = inode_dev_at s n" by (simp add: inode_dev_at_def)
  have "view_inode ?t = view_inode s" by (auto simp: view_inode_def get reg fun_eq_iff)
  then have vb: "view_block ?t q = view_block s q" for q by (simp add: view_block_def)
  have u: "uninit BLOCK_SIZE (view s) = uninit BLOCK_SIZE s" by (rule view_layout(11)[OF assms(1)])
  have b: "blk (put_superblock sb (view s)) k = (if k = 0
      then overlay 0 (enc_superblock sb) (uninit BLOCK_SIZE s) else blk (view s) k)" for k
    using blk_put_superblock[of "view s" sb k] f d by (simp add: u)
  show "view ?t = put_superblock sb (view s)"
  proof (rule layer1_eqI)
    show "disk_ok (put_superblock sb (view s))" using f d by (simp add: put_superblock_def)
    show "blk (view ?t) k = blk (put_superblock sb (view s)) k" if "k < nblocks (view ?t)" for k
      unfolding view_fields(7)[OF md] reg b using blk_put_superblock[of s sb k] d by (auto simp: f vb)
    show "total_blocks (view ?t) = total_blocks (put_superblock sb (view s))"
      "junk (view ?t) = junk (put_superblock sb (view s))"
      unfolding view_fields[OF md] by (simp_all add: put_superblock_def f consume_def)
  qed (simp_all add: view_fields[OF md])
qed

lemma view_tick [simp]: "mounted_dev s \<Longrightarrow> view (tick s) = view s"
proof -
  assume md: "mounted_dev s"
  have "view_block (tick s) = view_block s"
  proof -
    have "dlist.get (tick s) p = dlist.get s p" for p unfolding dlist.get_def by (simp add: region_defs)
    then have "view_inode (tick s) = view_inode s" by (auto simp: view_inode_def fun_eq_iff)
    then show ?thesis by (simp add: view_block_def fun_eq_iff)
  qed
  moreover have "junk (tick s) = junk s" by (simp add: tick_def)
  moreover have "mounted_dev (tick s)" using md by simp
  ultimately show ?thesis
    using view_fields[OF md] view_fields[of "tick s"] by (intro layer1_eqI) simp_all
qed

end
