(* ===== verification/DeviceSim.thy ===== *)
theory DeviceSim
  imports DeviceView
begin

text \<open>
  Simulation of layer 1: on related states every operation on the device does what the operation in
  memory does, and leaves related states.  The collection \<open>sim\<close> has the rules for the operations and
  for the control structure of the definitions, so that the simulation of a function follows the
  structure of its two definitions.
\<close>

named_theorems sim "operations and control structure on related states"

section \<open>Control structure\<close>

lemma sim_if:
  "c = d \<Longrightarrow> (c \<Longrightarrow> d \<Longrightarrow> R a b) \<Longrightarrow> (\<not> c \<Longrightarrow> \<not> d \<Longrightarrow> R a' b') \<Longrightarrow> R (if c then a else a') (if d then b else b')"
  by simp

lemma sim_prod_same: "(\<And>a b. x = (a, b) \<Longrightarrow> R (f a b) (g a b)) \<Longrightarrow> R (case_prod f x) (case_prod g x)"
  by (cases x) simp

lemma sim_prod_eq:
  "rel_prod (=) B x y \<Longrightarrow> (\<And>a b d. B b d \<Longrightarrow> R (f a b) (g a d)) \<Longrightarrow> R (case_prod f x) (case_prod g y)"
  by (cases x; cases y) simp

lemma sim_prod_ino:
  "rel_prod ino_rel B x y \<Longrightarrow> (\<And>b c d. fits32 c \<Longrightarrow> B b d \<Longrightarrow> R (f (flat c) b) (g c d)) \<Longrightarrow>
    R (case_prod f x) (case_prod g y)"
  by (cases x; cases y) (auto simp: ino_rel_def)

lemma sim_prod_equal: "x = y \<Longrightarrow> (\<And>a b. y = (a, b) \<Longrightarrow> R (f a b) (g a b)) \<Longrightarrow> R (case_prod f x) (case_prod g y)"
  by (cases y) simp

lemma sim_option_same:
  "R n m \<Longrightarrow> (\<And>a. x = Some a \<Longrightarrow> R (f a) (g a)) \<Longrightarrow> R (case_option n f x) (case_option m g x)"
  by (cases x) simp_all

lemma sim_option:
  "rel_option B x y \<Longrightarrow> R n m \<Longrightarrow> (\<And>b d. B b d \<Longrightarrow> R (f b) (g d)) \<Longrightarrow> R (case_option n f x) (case_option m g y)"
  by (cases x; cases y) simp_all

lemma sim_map_option [sim]:
  "rel_option A x y \<Longrightarrow> (\<And>a b. A a b \<Longrightarrow> B (f a) (g b)) \<Longrightarrow> rel_option B (map_option f x) (map_option g y)"
  by (cases x; cases y) simp_all

lemma sim_sum_same:
  "(\<And>a. x = Inl a \<Longrightarrow> R (f a) (h a)) \<Longrightarrow> (\<And>b. x = Inr b \<Longrightarrow> R (g b) (k b)) \<Longrightarrow>
    R (case_sum f g x) (case_sum h k x)"
  by (cases x) simp_all

lemma sim_if_equal [sim]: "c = d \<Longrightarrow> a = b \<Longrightarrow> a' = b' \<Longrightarrow> (if c then a else a') = (if d then b else b')"
  by simp

text \<open>The relation is fixed to the shapes that results have.\<close>

lemmas sim_control [sim] =
  sim_if[where R = "rel_prod A B"] sim_if[where R = "rel_option A"]
  sim_prod_same[where R = "rel_prod A B"] sim_prod_same[where R = "rel_option A"]
  sim_prod_equal[where R = "rel_prod A B"] sim_prod_equal[where R = "rel_option A"]
  sim_prod_eq[where R = "rel_prod A B"] sim_prod_eq[where R = "rel_option A"]
  sim_prod_ino[where R = "rel_prod A B"] sim_prod_ino[where R = "rel_option A"]
  sim_option_same[where R = "rel_prod A B"] sim_option_same[where R = "rel_option A"]
  sim_option[where R = "rel_prod A B"] sim_option[where R = "rel_option A"]
  sim_sum_same[where R = "rel_prod A B"] sim_sum_same[where R = "rel_option A"]
  for A B

section \<open>Related states\<close>

lemma dev_relD:
  assumes "dev_rel t u"
  shows "t = view (warm u)" "mounted_dev (warm u)" "mounted (warm u)" "mounted t" "sb_of t = sb_of (warm u)"
    "uninit n t = uninit n u" "ninodes t = ninodes (warm u)"
  using assms view_fields[of "warm u"] view_layout[of "warm u"]
  by (auto simp: dev_rel_def attached_def mounted_dev_mounted)

lemma dev_rel_superblock:
  assumes "dev_rel t u"
  shows "local_superblock t = (SUCCESS, sb_of t)" "local_superblock_dev u = (SUCCESS, sb_of t)"
  using dev_relD[OF assms] by simp_all

text \<open>A block behind the superblock and outside the inode table, at an address of a region.\<close>

lemma warm_put_blk:
  assumes "attached u" "0 < k" "k < nblocks u" "is_block b"
  shows "warm (put_blk k b u) = put_blk k b (warm u)"
proof -
  have "disk_ok u" using mounted_disk_ok[OF attached_mounted[OF assms(1)]] by simp
  then have "blk (put_blk k b u) 0 = blk u 0" using assms by (simp add: blk_put_blk)
  then show ?thesis by (simp add: warm_def put_blk_def split: option.split)
qed

lemma dev_rel_block:
  assumes "dev_rel t u" "0 < k" "k < nblocks t" "k < ilist_off t \<or> ilist_off t + ilist_len t \<le> k"
  shows "read_block (int k) b t = read_block_dev (int k) b u"
    and "rel_prod (=) dev_rel (write_block (int k) b t) (write_block_dev (int k) b u)"
proof -
  note d = dev_relD[OF assms(1)] and f = view_fields[OF dev_relD(2)[OF assms(1)]]
  note l = view_layout[OF dev_relD(2)[OF assms(1)]]
  have k: "k < nblocks u" "k < ilist_off (warm u) \<or> ilist_off (warm u) + ilist_len (warm u) \<le> k"
    using assms(3,4) f l d(1) by simp_all
  have bk: "blk t k = blk u k" using f(7)[of k] k d(1) by auto
  have ok: "disk_ok u" "nblocks u \<le> NUM_BLOCKS" "disk_ok t" "nblocks t = nblocks u"
    using mounted_device[OF d(3)] f d(1) by simp_all
  have "read_block_dev (int k) b u = (case b of None \<Rightarrow> (BUF_NULL, []) | Some buf \<Rightarrow> (SUCCESS, overlay 0 (blk u k) buf))"
    "read_block_dev (int k) b t = (case b of None \<Rightarrow> (BUF_NULL, []) | Some buf \<Rightarrow> (SUCCESS, overlay 0 (blk t k) buf))"
    using ok k(1) by (auto elim!: disk_okE simp: read_block_dev_def device_read_def blk_def split: option.split)
  then show "read_block (int k) b t = read_block_dev (int k) b u"
    using block_dev_mounted(1)[OF d(4) assms(3)] bk by (simp split: option.split)
  have att: "attached u" using assms(1) by (simp add: dev_rel_def)
  have "dev_rel (put_part k buf t) (put_part k buf u)" for buf
  proof -
    note b = is_block_part[OF ok(1) k(1), of buf]
    have "k < nblocks (warm u)" using k(1) by simp
    note v = view_put_blk[OF d(2) assms(2) this k(2) b]
    show ?thesis
      using v(1,2) warm_put_blk[OF att assms(2) k(1) b] d(1) bk
      by (simp add: dev_rel_def attached_def put_part_def)
  qed
  then show "rel_prod (=) dev_rel (write_block (int k) b t) (write_block_dev (int k) b u)"
    using block_dev_mounted(2)[OF d(4) assms(3), of b] write_block_dev_part[OF ok(1) k(1) ok(2), of b]
      write_block_dev_part[of t k b] ok k(1) assms(1)
    by (cases b) simp_all
qed

lemma dev_rel_consume: "dev_rel t u \<Longrightarrow> dev_rel (consume k t) (consume k u)"
proof -
  assume "dev_rel t u"
  moreover have "warm (consume k u) = consume k (warm u)" by (simp add: warm_def consume_def blk_def split: option.split)
  ultimately show ?thesis by (simp add: dev_rel_def attached_def)
qed

section \<open>Data blocks\<close>

lemma data_address:
  assumes "dev_rel t u" "0 < n" "n \<le> int (ndata t)"
  obtains k where "sint (sb_data_block_offset (sb_of t) + word_of_int n - 1) = int k" "0 < k" "k < nblocks t"
    "ilist_off t + ilist_len t \<le> k"
proof -
  note m = dev_relD(4)[OF assms(1)]
  have v: "valid_data t (nat n)" "n = int (nat n)" using assms(2,3) by (auto simp: valid_data_def nat_le_iff)
  then have "sint (sb_data_block_offset (sb_of t) + word_of_int n - 1) = int (data_off t + dslot (nat n))"
    using data_offset[OF m v(1)] by simp
  then show thesis
    by (rule that) (use mounted_regions[OF m] valid_data_range(2)[OF m v(1)] in auto)
qed

lemma data_read_sim [sim]:
  assumes "dev_rel t u"
  shows "data_read n b t = data_read_dev n b u"
proof (cases "0 < n \<and> n \<le> int (ndata t)")
  case True
  then obtain k where "sint (sb_data_block_offset (sb_of t) + word_of_int n - 1) = int k" "0 < k" "k < nblocks t"
    "ilist_off t + ilist_len t \<le> k" using data_address[OF assms] by metis
  then show ?thesis
    using dev_rel_superblock[OF assms] dev_rel_block(1)[OF assms, of k b] True
    by (auto simp: data_read_def data_read_dev_def Let_def uint_regions split: option.split)
qed (use dev_rel_superblock[OF assms] in \<open>auto simp: data_read_def data_read_dev_def uint_regions split: option.split\<close>)

lemma data_write_sim [sim]:
  assumes "dev_rel t u"
  shows "rel_prod (=) dev_rel (data_write n b t) (data_write_dev n b u)"
proof (cases "0 < n \<and> n \<le> int (ndata t)")
  case True
  then obtain k where "sint (sb_data_block_offset (sb_of t) + word_of_int n - 1) = int k" "0 < k" "k < nblocks t"
    "ilist_off t + ilist_len t \<le> k" using data_address[OF assms] by metis
  then show ?thesis
    using dev_rel_superblock[OF assms] dev_rel_block(2)[OF assms, of k b] True
    by (simp add: data_write_def data_write_dev_def Let_def uint_regions)
qed (use assms dev_rel_superblock[OF assms] in \<open>auto simp: data_write_def data_write_dev_def uint_regions\<close>)

lemma data_read_local_sim [sim]:
  "dev_rel t u \<Longrightarrow> data_read n (Some (uninit k t)) t = data_read_dev n (Some (uninit k u)) u"
  using data_read_sim dev_relD(6) by metis

text \<open>Writes of the superblock keep the layout: they change the head of the free list or the root inode.\<close>

lemma write_superblock_sim:
  assumes "dev_rel t u" "geometry sb (nblocks t)"
    "sb_ilist_block_offset sb = sb_ilist_block_offset (sb_of t)" "sb_ilist_size sb = sb_ilist_size (sb_of t)"
    "sb_num_inodes sb = sb_num_inodes (sb_of t)"
  shows "rel_prod (=) dev_rel (write_superblock (Some sb) t) (write_superblock_dev (Some sb) u)"
proof -
  note d = dev_relD[OF assms(1)] and f = view_fields[OF dev_relD(2)[OF assms(1)]]
  have n: "nblocks t = nblocks u" using f(2) d(1) by simp
  have ok: "disk_ok u" "0 < nblocks u" "nblocks u \<le> NUM_BLOCKS" using mounted_device[OF d(3)] by simp_all
  have "put_superblock sb u = put_superblock sb (warm u)"
    by (simp add: put_superblock_def warm_def blk_def put_blk_def consume_def uninit_def split: option.split)
  then have "write_superblock_dev (Some sb) u = (SUCCESS, put_superblock sb (warm u))"
    using write_superblock_ok[OF ok(1,2)] write_superblock_dev_eq[OF ok] by simp
  moreover have "write_superblock (Some sb) t = (SUCCESS, put_superblock sb t)"
    using write_superblock_ok[of t sb] mounted_device(1,2)[OF d(4)] by simp
  moreover have "mounted_dev (put_superblock sb (warm u))"
    "view (put_superblock sb (warm u)) = put_superblock sb (view (warm u))"
    using view_put_superblock(1,2)[OF d(2), of sb] assms(2-) n d(5) by simp_all
  ultimately show ?thesis using d(1) by (simp add: dev_rel_def attached_def)
qed

lemma set_head_sim [sim]:
  assumes "dev_rel t u"
  shows "rel_prod (=) dev_rel (write_superblock (Some ((sb_of t)\<lparr>sb_free_list_head := x\<rparr>)) t)
    (write_superblock_dev (Some ((sb_of t)\<lparr>sb_free_list_head := x\<rparr>)) u)"
  using mounted_geometry[OF dev_relD(4)[OF assms]] by (intro write_superblock_sim[OF assms]) (simp_all add: geometry_def)

lemma data_free_scan_sim:
  assumes "dev_rel t u"
  shows "data_free_scan l c t = data_free_scan_dev l c u"
proof -
  note r = data_read_sim[OF assms]
  have "data_free_scan l c t = Some r" if "data_free_scan_dev l c v = Some r" "v = u" for r v
    using that by (rule data_free_scan_dev.raw_induct[of "\<lambda>l c v r. v = u \<longrightarrow> data_free_scan l c t = Some r", rule_format, rotated])
      (subst data_free_scan.simps, auto simp: r Let_def split: if_splits option.splits)
  moreover have "data_free_scan_dev l c u = Some r" if "data_free_scan l c v = Some r" "v = t" for r v
    using that by (rule data_free_scan.raw_induct[of "\<lambda>l c v r. v = t \<longrightarrow> data_free_scan_dev l c u = Some r", rule_format, rotated])
      (subst data_free_scan_dev.simps, auto simp: r Let_def split: if_splits option.splits)
  ultimately show ?thesis by (metis option.exhaust)
qed

lemma sb_of_data_write: "sb_of (snd (data_write n b s)) = sb_of s"
proof -
  have "cached_superblock (snd (write_block k b s)) = cached_superblock s" for k
    by (simp add: write_block_def Let_def split: option.split)
  then show ?thesis by (simp add: data_write_def sb_of_def Let_def case_prod_beta)
qed

lemma write_new_head_sim:
  assumes "dev_rel t u"
  shows "rel_option (rel_prod (=) dev_rel)
    (case data_write n b t of (_, s1) \<Rightarrow>
      case write_superblock (Some ((sb_of t)\<lparr>sb_free_list_head := x\<rparr>)) s1 of (_, s2) \<Rightarrow> Some (SUCCESS, s2))
    (case data_write_dev n b u of (_, s1) \<Rightarrow>
      case write_superblock_dev (Some ((sb_of t)\<lparr>sb_free_list_head := x\<rparr>)) s1 of (_, s2) \<Rightarrow> Some (SUCCESS, s2))"
proof -
  obtain r t1 u1 where w: "data_write n b t = (r, t1)" "data_write_dev n b u = (r, u1)" "dev_rel t1 u1"
    using data_write_sim[OF assms, of n b] by (cases "data_write n b t"; cases "data_write_dev n b u") auto
  have "sb_of t1 = sb_of t" using sb_of_data_write[of n b t] w(1) by simp
  then have "rel_prod (=) dev_rel (write_superblock (Some ((sb_of t)\<lparr>sb_free_list_head := x\<rparr>)) t1)
      (write_superblock_dev (Some ((sb_of t)\<lparr>sb_free_list_head := x\<rparr>)) u1)" using set_head_sim[OF w(3), of x] by simp
  then show ?thesis by (simp add: w(1,2) case_prod_beta rel_prod_sel)
qed

lemma data_free_sim [sim]:
  assumes "dev_rel t u"
  shows "rel_option (rel_prod (=) dev_rel) (data_free n t) (data_free_dev n u)"
  unfolding data_free_def data_free_dev_def Let_def dev_rel_superblock[OF assms] data_free_scan_sim[OF assms]
    prod.case dev_relD(6)[OF assms]
  by ((rule write_new_head_sim | rule sim | assumption | rule assms | (simp add: assms; fail))+)

lemma data_allocate_sim [sim]:
  assumes "dev_rel t u"
  shows "rel_prod (=) (rel_prod (=) dev_rel) (data_allocate b n t) (data_allocate_dev b n u)"
proof -
  note r = data_read_sim[OF assms]
  show ?thesis
    unfolding data_allocate_def data_allocate_dev_def Let_def dev_rel_superblock[OF assms] r prod.case dev_relD(6)[OF assms]
    by ((rule sim | assumption | rule assms | (simp add: assms; fail))+)
qed

section \<open>Inodes\<close>

lemma inode_read_warm:
  assumes "dev_rel t u"
  shows "inode_read_dev n old u = inode_read_dev n old (warm u)"
  using dev_relD[OF assms] by (simp add: inode_read_dev_def uninit_inode_dev_def split: option.split)

lemma inode_write_warm:
  assumes "dev_rel t u" "inode_write_dev n (Some i) u = (r, j, v)"
  shows "inode_write_dev n (Some i) (warm u) = (r, j, v\<lparr>cached_superblock := Some (sb_of t)\<rparr>)"
proof -
  note d = dev_relD[OF assms(1)]
  have w: "warm u = u\<lparr>cached_superblock := Some (sb_of t)\<rparr>"
    using d(5) by (auto simp: warm_def sb_of_def split: option.splits)
  have wb: "write_block_dev k b (tick (u\<lparr>cached_superblock := c\<rparr>)) =
      (let (r, v) = write_block_dev k b (tick u) in (r, v\<lparr>cached_superblock := c\<rparr>))" for k b c
    by (simp add: write_block_dev_def tick_def Let_def split: option.split)
  have wb': "write_block_dev k b (tick (warm u)) =
      (let (r, v) = write_block_dev k b (tick u) in (r, v\<lparr>cached_superblock := Some (sb_of t)\<rparr>))" for k b
    unfolding w by (rule wb)
  have "time_now (warm u) = time_now u" unfolding w by (simp add: time_now_def)
  then have eq: "local_superblock_dev (warm u) = (SUCCESS, sb_of t)" "local_superblock_dev u = (SUCCESS, sb_of t)"
    "time_now (warm u) = time_now u" "uninit BLOCK_SIZE (warm u) = uninit BLOCK_SIZE u"
    using d(3,5) by simp_all
  show ?thesis
  proof (cases "n \<le> 0 \<or> uint (sb_num_inodes (sb_of t)) < n")
    case True
    then have "inode_write_dev n (Some i) u = (BAD_INODE, i, u)" "inode_write_dev n (Some i) (warm u) = (BAD_INODE, i, warm u)"
      by (auto simp: inode_write_dev_def eq)
    then show ?thesis using assms(2) w by simp
  next
    case False
    obtain r1 v1 where "write_block_dev (sint (sb_ilist_block_offset (sb_of t) +
        word_of_int ((n - 1) div int INODES_PER_BLOCK_DEV)))
        (Some (overlay (nat ((n - 1) mod int INODES_PER_BLOCK_DEV) * sizeof_inode_dev)
          (enc_inode_dev (i\<lparr>d_mod_time := word_of_int (time_now u)\<rparr>))
          (snd (read_block_dev (sint (sb_ilist_block_offset (sb_of t) +
            word_of_int ((n - 1) div int INODES_PER_BLOCK_DEV))) (Some (uninit BLOCK_SIZE u)) u)))) (tick u) = (r1, v1)"
      by (rule prod.exhaust)
    then show ?thesis
      using False assms(2) by (simp add: inode_write_dev_def eq Let_def case_prod_beta wb')
  qed
qed

lemma inode_write_cache:
  assumes "inode_write_dev n i u = (r, j, v)"
  shows "cached_superblock v = cached_superblock u"
proof -
  have "cached_superblock (snd (write_block_dev k b x)) = cached_superblock x" for k b and x :: "'b layer1_scheme"
    by (simp add: write_block_dev_def Let_def split: option.split)
  from this[of _ _ "tick u"] show ?thesis
    using assms by (auto simp: inode_write_dev_def Let_def case_prod_beta split: option.splits if_splits)
qed

lemma local_inode_cases:
  assumes "dev_rel t u"
  obtains (bad) "n \<le> 0 \<or> int (ninodes t) < n" "local_inode n t = (BAD_INODE, uninit_inode t)"
      "local_inode_dev n u = (BAD_INODE, uninit_inode_dev u)"
  | (good) j where "0 < n" "valid_inum t (nat n)" "inode_dev_wf j" "j = inode_dev_at (warm u) (nat n)"
      "inode_at t (nat n) = flat j" "local_inode n t = (SUCCESS, flat j)" "local_inode_dev n u = (SUCCESS, j)"
proof (cases "n \<le> 0 \<or> int (ninodes t) < n")
  case True
  note d = dev_relD[OF assms]
  have "inode_read_dev n (Some (uninit_inode_dev u)) u = (BAD_INODE, uninit_inode_dev u)"
    unfolding inode_read_warm[OF assms] using inode_dev_bad(1)[OF d(3)] True d(7) by simp
  then show thesis
    using True inode_read_bad(1)[OF d(4)] by (intro bad) (simp_all add: local_inode_def local_inode_dev_def)
next
  case False
  note d = dev_relD[OF assms]
  have n: "0 < n" "int (nat n) = n" using False by auto
  have v: "valid_inum t (nat n)" "valid_inum (warm u) (nat n)"
    using False d(7) by (auto simp: valid_inum_def nat_le_iff)
  have at: "inode_at t (nat n) = flat (inode_dev_at (warm u) (nat n))"
    using inode_at_view[OF d(2) v(2)] d(1) by simp
  have "inode_read_dev n (Some (uninit_inode_dev u)) u = (SUCCESS, inode_dev_at (warm u) (nat n))"
    unfolding inode_read_warm[OF assms] using inode_read_dev_ok[OF d(2) v(2)] n(2) by simp
  then show thesis
    using n v at inode_dev_wf_at[OF d(2) v(2)] inode_read_ok[OF d(4) v(1)]
    by (intro good) (simp_all add: local_inode_def local_inode_dev_def)
qed

text \<open>Every caller tests the code; those that do not only look at the mode.\<close>

lemma local_inode_mode:
  assumes "dev_rel t u"
  shows "i_mode (snd (local_inode n t)) = d_mode (snd (local_inode_dev n u))" "fst (local_inode n t) = fst (local_inode_dev n u)"
proof -
  have "i_mode (uninit_inode t) = d_mode (uninit_inode_dev u)"
    using dev_relD(6)[OF assms, of sizeof_inode]
    by (simp add: uninit_inode_def uninit_inode_dev_def dec_inode_def dec_inode_dev_def uninit_def c_consts upt_rec Let_def)
  then show "i_mode (snd (local_inode n t)) = d_mode (snd (local_inode_dev n u))"
    "fst (local_inode n t) = fst (local_inode_dev n u)"
    by (cases rule: local_inode_cases[OF assms, of n]; simp)+
qed

lemma local_inode_sim:
  assumes "dev_rel t u" "\<And>r. r \<noteq> SUCCESS \<Longrightarrow> R (a r) (a' r)"
    "\<And>j. valid_inum t (nat n) \<Longrightarrow> inode_at t (nat n) = flat j \<Longrightarrow> inode_dev_wf j \<Longrightarrow> R (b (flat j)) (b' j)"
  shows "R (let (ret, i) = local_inode n t in if ret \<noteq> SUCCESS then a ret else b i)
    (let (ret, j) = local_inode_dev n u in if ret \<noteq> SUCCESS then a' ret else b' j)"
  unfolding Let_def by (cases rule: local_inode_cases[OF assms(1), of n]) (auto intro: assms(2,3))

lemma inode_write_attached:
  assumes rel: "dev_rel t u" and v: "valid_inum t n" and i: "inode_dev_wf i"
  defines "i' \<equiv> i\<lparr>d_mod_time := word_of_int (time_now u)\<rparr>"
  obtains v where "inode_write_dev (int n) (Some i) u = (SUCCESS, i', v)" "warm v = put_inode_dev n i' (tick (warm u))"
proof -
  note d = dev_relD[OF rel]
  have vw: "valid_inum (warm u) n" using v d(7) by (simp add: valid_inum_def)
  have tn: "time_now (warm u) = time_now u" by (simp add: time_now_def warm_def split: option.split)
  let ?p = "put_inode_dev n i' (tick (warm u))"
  have wf: "inode_dev_wf i'" using i by (simp add: i'_def inode_dev_wf_def)
  obtain r k u' where w: "inode_write_dev (int n) (Some i) u = (r, k, u')" by (rule prod_cases3)
  have p: "r = SUCCESS" "k = i'" "u'\<lparr>cached_superblock := Some (sb_of t)\<rparr> = ?p"
    using inode_write_dev_ok[OF d(2) vw i] inode_write_warm[OF rel w] by (simp_all add: i'_def tn)
  have mt: "mounted_dev (tick (warm u))" "valid_inum (tick (warm u)) n" using d(2) vw by simp_all
  have "blk u' 0 = blk ?p 0" unfolding p(3)[symmetric] by simp
  also have "\<dots> = blk u 0"
    using blk_put_inode_dev[OF mt wf, of 0] mounted_regions(3)[OF d(3)] by simp
  finally have b0: "dec_superblock (blk u' 0) = sb_of t"
    using mounted_coherent[OF d(3)] d(5) by simp
  have "warm u' = u'\<lparr>cached_superblock := Some (sb_of t)\<rparr>"
  proof (cases "cached_superblock u")
    case (Some c)
    then have "c = sb_of t" using d(5) by (simp add: sb_of_def)
    then show ?thesis using Some inode_write_cache[OF w] by (simp add: warm_def)
  qed (use inode_write_cache[OF w] b0 in \<open>simp add: warm_def\<close>)
  then show thesis using that w p by simp
qed

lemma inode_write_sim:
  assumes "dev_rel t u" "inode_dev_wf j"
  obtains r t' k u' where "inode_write n (Some (flat j)) t = (r, t')" "inode_write_dev n (Some j) u = (r, k, u')"
    "dev_rel t' u'" "inode_dev_wf k" "flat k = flat j" "d_size k = d_size j"
proof (cases "n \<le> 0 \<or> int (ninodes t) < n")
  case True
  note d = dev_relD[OF assms(1)]
  obtain r k u' where w: "inode_write_dev n (Some j) u = (r, k, u')" by (rule prod_cases3)
  have "inode_write_dev n (Some j) (warm u) = (BAD_INODE, j, warm u)" using inode_dev_bad(2)[OF d(3)] True d(7) by simp
  moreover have "inode_write_dev n (Some j) u = (BAD_INODE, j, u)"
    using True d(5,7) dev_rel_superblock[OF assms(1)] by (auto simp: inode_write_dev_def uint_regions)
  ultimately show thesis using that True inode_read_bad(2)[OF d(4)] assms by metis
next
  case False
  note d = dev_relD[OF assms(1)]
  have n: "int (nat n) = n" using False by auto
  have v: "valid_inum t (nat n)" "valid_inum (warm u) (nat n)"
    using False d(7) by (auto simp: valid_inum_def nat_le_iff)
  define j' where "j' = j\<lparr>d_mod_time := word_of_int (time_now u)\<rparr>"
  let ?p = "put_inode_dev (nat n) j' (tick (warm u))"
  have wf: "inode_dev_wf j'" "flat j' = flat j" "d_size j' = d_size j"
    using assms(2) by (simp_all add: j'_def inode_dev_wf_def)
  obtain u' where w: "inode_write_dev n (Some j) u = (SUCCESS, j', u')" "warm u' = ?p"
    using inode_write_attached[OF assms(1) v(1) assms(2)] n by (metis j'_def)
  have mt: "mounted_dev (tick (warm u))" "valid_inum (tick (warm u)) (nat n)" using d(2) v(2) by simp_all
  note w(2)
  moreover have "view ?p = put_inode (nat n) (flat j) t"
    using view_put_inode[OF mt wf(1)] d(1,2) wf(2) by simp
  moreover have "mounted_dev ?p" by (rule mounted_dev_put[OF mt wf(1)])
  ultimately have "dev_rel (put_inode (nat n) (flat j) t) u'" by (simp add: dev_rel_def attached_def)
  moreover have "inode_write n (Some (flat j)) t = (SUCCESS, put_inode (nat n) (flat j) t)"
    using inode_write_ok[OF d(4) v(1), of "flat j"] assms(2) n by simp
  ultimately show thesis using that w(1) wf by blast
qed

section \<open>The bitmap\<close>

lemma bitmap_block_sim:
  assumes "dev_rel t u" "k < ibitmap_len t"
  shows "read_block (sint (sb_ibitmap_block_offset (sb_of t) + word_of_int (int k))) b t =
      read_block_dev (sint (sb_ibitmap_block_offset (sb_of t) + word_of_int (int k))) b u"
    and "rel_prod (=) dev_rel (write_block (sint (sb_ibitmap_block_offset (sb_of t) + word_of_int (int k))) b t)
      (write_block_dev (sint (sb_ibitmap_block_offset (sb_of t) + word_of_int (int k))) b u)"
proof -
  note m = dev_relD(4)[OF assms(1)]
  note off = bitmap_offset[OF m assms(2)] and r = mounted_regions[OF m]
  have "0 < ibitmap_off t + k" "ibitmap_off t + k < ilist_off t" using r assms(2) by simp_all
  then show "read_block (sint (sb_ibitmap_block_offset (sb_of t) + word_of_int (int k))) b t =
      read_block_dev (sint (sb_ibitmap_block_offset (sb_of t) + word_of_int (int k))) b u"
    "rel_prod (=) dev_rel (write_block (sint (sb_ibitmap_block_offset (sb_of t) + word_of_int (int k))) b t)
      (write_block_dev (sint (sb_ibitmap_block_offset (sb_of t) + word_of_int (int k))) b u)"
    using dev_rel_block[OF assms(1) _ off(2), of b] unfolding off(1) by simp_all
qed

lemma inode_free_sim [sim]:
  assumes "dev_rel t u"
  shows "rel_prod (=) dev_rel (inode_free n t) (inode_free_dev n u)"
proof (cases "n \<le> 0 \<or> int (ninodes t) < n")
  case False
  note m = dev_relD(4)[OF assms]
  have v: "valid_inum t (nat n)" using False by (auto simp: valid_inum_def nat_le_iff)
  have i: "n - 1 = int (islot (nat n))" using False by (auto simp: islot_def)
  have c: "islot (nat n) div BITS_PER_BLOCK < ibitmap_len t"
    using bitmap_room[OF m v] by (rule less_mult_imp_div_less)
  note b = bitmap_block_sim[OF assms c]
  show ?thesis
    unfolding inode_free_def inode_free_dev_def i zdiv_int[symmetric] zmod_int[symmetric] Let_def
      dev_rel_superblock[OF assms] prod.case b(1) dev_relD(6)[OF assms]
    using False by (auto simp: uint_regions case_prod_beta intro: b(2)[unfolded of_int_of_nat_eq])
qed (use assms dev_rel_superblock[OF assms] in \<open>auto simp: inode_free_def inode_free_dev_def uint_regions\<close>)

lemma sb_of_bitmap_write: "sb_of (snd (write_block k b s)) = sb_of s"
  by (simp add: write_block_def sb_of_def Let_def split: option.split)

lemma scan_blocks_sim:
  assumes "dev_rel t u" "inode_dev_wf node" "\<forall>k \<in> set ks. k < ibitmap_len t"
  obtains r n t' k u' where "scan_blocks ks (sb_of t) buf (flat node) old t = (r, n, t')"
    "scan_blocks_dev ks (sb_of t) buf node old u = (r, n, k, u')" "dev_rel t' u'"
proof -
  have "\<exists>r n t' k u'. scan_blocks ks (sb_of t) buf (flat node) old t = (r, n, t') \<and>
      scan_blocks_dev ks (sb_of t) buf node old u = (r, n, k, u') \<and> dev_rel t' u'" using assms(3)
  proof (induction ks arbitrary: buf)
    case (Cons k ks)
    let ?a = "sint (sb_ibitmap_block_offset (sb_of t) + word_of_nat k)"
    have b: "read_block ?a b t = read_block_dev ?a b u"
      "rel_prod (=) dev_rel (write_block ?a b t) (write_block_dev ?a b u)" for b
      using bitmap_block_sim[OF assms(1), of k b] Cons.prems by simp_all
    obtain c bf where rd: "read_block_dev ?a (Some buf) u = (c, bf)" by (rule prod.exhaust)
    show ?case
    proof (cases "scan_bytes (sb_num_inodes (sb_of t)) k (enumerate 0 bf)")
      case (Scan_Free i j n)
      obtain c t1 u1 where w: "write_block ?a (Some (bf[i := bf ! i OR drop_bit j 0x80])) t = (c, t1)"
        "write_block_dev ?a (Some (bf[i := bf ! i OR drop_bit j 0x80])) u = (c, u1)" "dev_rel t1 u1"
        using b(2)[of "Some (bf[i := bf ! i OR drop_bit j 0x80])"] by (auto elim!: rel_prod.cases)
      obtain r t2 q u2 where "inode_write n (Some (flat node)) t1 = (r, t2)"
        "inode_write_dev n (Some node) u1 = (r, q, u2)" "dev_rel t2 u2"
        using inode_write_sim[OF w(3) assms(2)] by metis
      then show ?thesis using w by (simp add: b(1) rd Let_def Scan_Free)
    qed (use Cons assms(1) in \<open>simp_all add: b(1) rd Let_def\<close>)
  qed (use assms(1) in simp)
  then show thesis using that by blast
qed

lemma inode_create_sim:
  assumes "dev_rel t u" "inode_dev_wf node"
  obtains r n t' k u' where "inode_create (Some (flat node)) (Some old) t = (r, n, t')"
    "inode_create_dev (Some node) (Some old) u = (r, n, k, u')" "dev_rel t' u'"
proof -
  have "\<forall>k \<in> set [0..<ibitmap_len t]. k < ibitmap_len t" by simp
  from scan_blocks_sim[OF assms this, of "uninit BLOCK_SIZE u" old] show thesis
    using that dev_rel_superblock[OF assms(1)] dev_relD(6)[OF assms(1)]
    unfolding inode_create_def inode_create_dev_def ibitmap_len_def by (simp add: Let_def) metis
qed

end
