(* ===== verification/DeviceFileSim.thy ===== *)
theory DeviceFileSim
  imports DeviceFiles DeviceSim
begin

text \<open>
  Simulation of the block map and of \<open>read_i\<close> and \<open>write_i\<close>: on related states and for files below two
  gigabytes the version on a device does what the version in memory does.
\<close>

section \<open>Block map\<close>

lemma pointer_flat [simp]:
  "from_pointer lv off (flat j) = from_pointer_dev lv off j"
  "set_pointer lv off x (flat j) = flat (set_pointer_dev lv off x j)"
  "fits32 (set_pointer_dev lv off x j) = fits32 j"
  by (simp_all add: from_pointer_def from_pointer_dev_def set_pointer_def set_pointer_dev_def fits32_def inode_dev_wf_def flat_def)

lemma get_nth_loop_sim [sim]:
  "dev_rel t u \<Longrightarrow> rel_prod (=) (rel_prod (=) dev_rel)
    (get_nth_loop lv off a create cr t) (get_nth_loop_dev lv off a create cr u)"
proof (induction lv arbitrary: off a cr t u)
  case (Suc lv)
  show ?case unfolding get_nth_loop.simps get_nth_loop_dev.simps Let_def
    by ((rule sim Suc.IH | assumption | rule Suc.prems | (simp add: Suc.prems; fail))+)
qed simp

lemma get_nth_datablock_sim [sim]:
  assumes "dev_rel t u" "fits32 j"
  shows "rel_option (rel_prod (=) (rel_prod ino_rel (rel_prod (=) dev_rel)))
    (get_nth_datablock (Some (flat j)) n create cr t) (get_nth_datablock_dev (Some j) n create cr u)"
  unfolding get_nth_datablock_def get_nth_datablock_dev_def Let_def option.case pointer_flat
  by ((rule sim | assumption | rule assms | (simp add: assms ino_rel_def; fail))+)

lemma rm_walk_sim: "dev_rel t u \<Longrightarrow> rm_walk lv off a acc t = rm_walk_dev lv off a acc u"
  by (induction lv arbitrary: off a acc) (simp_all add: data_read_local_sim Let_def split: prod.split)

lemma rm_up_sim [sim]:
  "dev_rel t u \<Longrightarrow> rel_option (rel_prod (=) dev_rel) (rm_up es t) (rm_up_dev es u)"
proof (induction es arbitrary: t u)
  case (Cons e es)
  show ?case unfolding rm_up.simps rm_up_dev.simps Let_def
    by ((rule sim Cons.IH | assumption | rule Cons.prems | (simp add: Cons.prems; fail))+)
qed simp

lemma rm_nth_datablock_sim [sim]:
  assumes "dev_rel t u" "fits32 j"
  shows "rel_option (rel_prod (=) (rel_prod ino_rel dev_rel))
    (rm_nth_datablock (Some (flat j)) n t) (rm_nth_datablock_dev (Some j) n u)"
  unfolding rm_nth_datablock_def rm_nth_datablock_dev_def Let_def option.case pointer_flat rm_walk_sim[OF assms(1)]
  by ((rule sim | assumption | rule assms | (simp add: assms ino_rel_def; fail))+)

section \<open>Reading\<close>

definition small_inode :: "inode \<Rightarrow> bool" where
  "small_inode i \<longleftrightarrow> i_mod_time i = 0 \<and> uint (i_size i) < 2 ^ 31"

lemma small_word:
  assumes "ucast (drop_bit 32 w) = (0 :: u32)" "uint (ucast (w :: u64) :: u32) < 2 ^ 31"
  shows "uint (ucast w :: u32) = uint w" "sint w = uint w" "drop_bit 32 w = 0"
proof -
  have dw: "unat (drop_bit 32 w) = unat w div 2 ^ 32" by (subst unat_drop_bit_eq) (simp add: drop_bit_eq_div)
  have "unat w < 2 ^ 64" using unsigned_less[of w] by simp
  then have "unat (drop_bit 32 w) < 2 ^ 32" unfolding dw by (simp add: div_less_iff_less_mult)
  moreover have "unat (ucast (drop_bit 32 w) :: u32) = 0" by (simp only: assms(1) unsigned_0)
  ultimately have z: "unat (drop_bit 32 w) = 0" by (simp only: unsigned_ucast_eq) (simp add: take_bit_nat_eq_self)
  then show "drop_bit 32 w = 0" by (simp only: unsigned_eq_0_iff)
  have "unat w < 2 ^ 32" using z unfolding dw by (simp add: div_eq_0_iff)
  then have l: "uint w < 2 ^ 32" by (simp only: uint_nat of_nat_less_numeral_power_cancel_iff)
  then show u: "uint (ucast w :: u32) = uint w" by (simp add: unsigned_ucast_eq take_bit_int_eq_self)
  have "- (2 ^ 63) \<le> uint w" by (rule order_trans[OF _ uint_ge_0]) simp
  then show "sint w = uint w"
    using l signed_take_bit_int_eq_self[of 63 "uint w"] by (simp add: sint_uint)
qed

lemma small_size:
  assumes "small_inode (flat j)"
  shows "uint (i_size (flat j)) = sint (d_size j)" "0 \<le> sint (d_size j)" "sint (d_size j) < 2 ^ 31"
    "i_size (flat j) = 0 \<longleftrightarrow> d_size j = 0" "drop_bit 32 (d_size j) = 0"
proof -
  have h: "ucast (drop_bit 32 (d_size j)) = (0 :: u32)" "uint (ucast (d_size j) :: u32) < 2 ^ 31"
    using assms by (simp_all add: small_inode_def flat_def)
  note w = small_word[OF h]
  show u: "uint (i_size (flat j)) = sint (d_size j)" using w by (simp add: flat_def)
  show "sint (d_size j) < 2 ^ 31" using w h(2) by simp
  show "0 \<le> sint (d_size j)" unfolding w(2) by simp
  show "i_size (flat j) = 0 \<longleftrightarrow> d_size j = 0"
    using u w(2) unsigned_eq_0_iff[where 'a = int, of "i_size (flat j)"] unsigned_eq_0_iff[where 'a = int, of "d_size j"]
    by simp
  show "drop_bit 32 (d_size j) = 0" by (rule w(3))
qed

lemma small_fits: "small_inode (flat j) \<Longrightarrow> inode_dev_wf j \<Longrightarrow> fits32 j"
  using small_size(5) by (simp add: fits32_def)

lemma drop_bit_small: "0 \<le> x \<Longrightarrow> x < 2 ^ 32 \<Longrightarrow> drop_bit 32 (word_of_int x :: u64) = 0"
proof -
  assume "0 \<le> x" "x < 2 ^ 32"
  then have "uint (word_of_int x :: u64) = x" by (simp add: unsigned_of_int take_bit_int_eq_self)
  then have "word_of_int x div 2 ^ 32 = (0 :: u64)" using \<open>x < 2 ^ 32\<close> \<open>0 \<le> x\<close>
    by (simp add: word_div_def div_eq_0_iff)
  then show ?thesis by (simp add: drop_bit_eq_div)
qed

lemma read_loop_sim:
  assumes "dev_rel t u" "fits32 j"
  shows "rel_option (=) (read_loop is e z (flat j) st n buf t) (read_loop_dev is e z j st n buf u)"
proof (induction "is" arbitrary: st n buf)
  case (Cons i "is")
  show ?case unfolding read_loop.simps read_loop_dev.simps Let_def
    by ((rule sim Cons.IH | assumption | rule assms | (simp; fail))+)
qed simp

section \<open>Writing\<close>

lemma peek_sim [sim]: "dev_rel t u \<Longrightarrow> rel_prod (=) dev_rel (peek buf p n t) (peek buf p n u)"
  by (simp add: peek_def Let_def dev_relD(6) dev_rel_consume)

lemma write_part_sim [sim]:
  assumes "dev_rel t u" "fits32 j"
  shows "rel_option (rel_prod (=) (rel_prod ino_rel dev_rel))
    (write_part buf i st z n (flat j) t) (write_part_dev buf i st z n j u)"
  unfolding write_part_def write_part_dev_def Let_def
  by ((rule sim | assumption | rule assms | (simp add: ino_rel_def; fail))+)

lemma new_size_dev:
  assumes "0 \<le> a" "a < 2 ^ 31" "0 \<le> off" "0 \<le> b" "off + b < 2 ^ 32"
  shows "ucast (new_size_dev a off b) = new_size a off b" "drop_bit 32 (new_size_dev a off b) = 0"
proof -
  show "ucast (new_size_dev a off b) = new_size a off b"
    by (rule bit_word_eqI) (auto simp: new_size_dev_def new_size_def bit_simps)
  have "c_u64 a = a" "c_u64 (off + b) = off + b" using assms by simp_all
  then show "drop_bit 32 (new_size_dev a off b) = 0"
    unfolding new_size_dev_def using assms by (intro drop_bit_small) auto
qed

lemma inode_write_step:
  assumes "dev_rel t u" "fits32 j" "i = flat j"
    and "\<And>r t' k u'. dev_rel t' u' \<Longrightarrow> fits32 k \<Longrightarrow> i = flat k \<Longrightarrow> R (f r t') (g r k u')"
  shows "R (case inode_write n (Some i) t of (r, s) \<Rightarrow> f r s) (case inode_write_dev n (Some j) u of (r, k, s) \<Rightarrow> g r k s)"
proof -
  have "inode_dev_wf j" using assms(2) by (simp add: fits32_def)
  from inode_write_sim[OF assms(1) this, of n] obtain r t' k u' where
    w: "inode_write n (Some (flat j)) t = (r, t')" "inode_write_dev n (Some j) u = (r, k, u')" and k: "dev_rel t' u'"
    "inode_dev_wf k" "flat k = flat j" "d_size k = d_size j" by metis
  have "R (f r t') (g r k u')" using k assms(2,3) by (intro assms(4)) (simp_all add: fits32_def)
  then show ?thesis by (simp add: assms(3) w)
qed

lemma write_part_None:
  assumes "st < 0 \<or> int BLOCK_SIZE < c_u64 (z - st)"
  shows "write_part buf i st z n j t = None" "write_part_dev buf i st z n k u = None"
  using assms by (simp_all add: write_part_def write_part_dev_def)

lemma write_loop_sim:
  assumes "0 \<le> off" "0 \<le> sz" "sz < 2 ^ 31" "c_u64 e \<le> int BLOCK_SIZE"
  shows "dev_rel t u \<Longrightarrow> fits32 j \<Longrightarrow> i = flat j \<Longrightarrow> 0 \<le> n \<Longrightarrow> st \<le> int BLOCK_SIZE \<Longrightarrow>
      off + n + int (length is * BLOCK_SIZE) < 2 ^ 32 \<Longrightarrow> rel_option (rel_prod (=) dev_rel)
    (write_loop is inum buf off sz b e st n i t) (write_loop_dev is inum buf off sz b e st n j u)"
proof (induction "is" arbitrary: st n i j t u)
  case (Cons a "is")
  define z where "z = (if a = b then c_u64 e else int BLOCK_SIZE)"
  have z: "0 \<le> z" "z \<le> int BLOCK_SIZE" using assms(4) by (simp_all add: z_def c_u64_def)
  show ?case
  proof (cases "st < 0 \<or> int BLOCK_SIZE < c_u64 (z - st)")
    case True
    then show ?thesis by (simp add: write_part_None z_def[symmetric])
  next
    case False
    have le: "st \<le> z"
    proof (rule ccontr)
      assume "\<not> st \<le> z"
      have "c_u64 (z - st) = (z - st + 2 ^ 64) mod 2 ^ 64" by (simp add: c_u64_def)
      also have "\<dots> = z - st + 2 ^ 64"
        by (rule mod_pos_pos_trivial) (use \<open>\<not> st \<le> z\<close> z Cons.prems(5) in \<open>simp_all add: c_consts\<close>)
      finally have "c_u64 (z - st) = z - st + 2 ^ 64" .
      then show False using False Cons.prems(5) z by (simp add: c_consts)
    qed
    define m where "m = n + (z - st)"
    have m0: "0 \<le> m" "m \<le> n + int BLOCK_SIZE" using le False z Cons.prems(4) by (simp_all add: m_def)
    have "0 \<le> int (length is) * int BLOCK_SIZE" by simp
    moreover have "off + n + (int BLOCK_SIZE + int (length is) * int BLOCK_SIZE) < 2 ^ 32"
      using Cons.prems(6) by (simp add: algebra_simps)
    ultimately have "m < 2 ^ 32" using m0 assms(1) by linarith
    then have m: "0 \<le> m" "c_u64 m = m" "off + m + int (length is * BLOCK_SIZE) < 2 ^ 32"
      using m0 Cons.prems(6) by simp_all
    have "off + m < 2 ^ 32" using m(3) of_nat_0_le_iff[of "length is * BLOCK_SIZE"] by linarith
    note ns = new_size_dev[OF assms(2,3,1) m(1) this]
    have fit: "fits32 (k\<lparr>d_size := new_size_dev sz off m, d_mode := x\<rparr>)"
      and fl: "(flat k)\<lparr>i_size := new_size sz off m, i_mode := x\<rparr> =
        flat (k\<lparr>d_size := new_size_dev sz off m, d_mode := x\<rparr>)" if "fits32 k" for k x
      using ns that by (simp_all add: fits32_def inode_dev_wf_def flat_def)
    show ?thesis unfolding write_loop.simps write_loop_dev.simps Let_def Cons.prems(3) z_def[symmetric] m_def[symmetric] m(2)
      by ((rule inode_write_step[where R = "rel_option (rel_prod (=) dev_rel)"] sim Cons.IH fit | assumption |
          rule Cons.prems m | (simp add: fl; fail))+)
  qed
qed simp
section \<open>read_i and write_i\<close>

lemma c_s64_id [simp]: "- (2 ^ 63) \<le> x \<Longrightarrow> x < 2 ^ 63 \<Longrightarrow> c_s64 x = x"
  by (simp add: c_s64_def)

lemma read_i_sim:
  assumes "dev_rel t u" "valid_inum t (nat n) \<Longrightarrow> small_inode (inode_at t (nat n))" "0 \<le> off" "0 \<le> sz"
  shows "read_i n buf off sz t = read_i_dev n buf off sz u"
proof (cases buf)
  case (Some b)
  have "rel_option (=) (read_i n (Some b) off sz t) (read_i_dev n (Some b) off sz u)"
    unfolding read_i_def read_i_dev_def option.case
  proof (rule local_inode_sim[OF assms(1), where R = "rel_option (=)"])
    fix j assume j: "valid_inum t (nat n)" "inode_at t (nat n) = flat j" "inode_dev_wf j"
    have sm: "small_inode (flat j)" using assms(2)[OF j(1)] j(2) by simp
    note z = small_size[OF sm]
    show "rel_option (=) (if uint (i_size (flat j)) \<le> off then Some (0, b)
        else let truncated_size = c_int (min (c_u64 (uint (i_size (flat j)) - off)) sz)
          in if truncated_size = 0 then Some (0, b)
             else let start_block = c_int (off sdiv int BLOCK_SIZE); start_offset = off smod int BLOCK_SIZE;
                 end_block = c_int ((off + truncated_size - 1) sdiv int BLOCK_SIZE);
                 end_size = (off + truncated_size - 1) smod int BLOCK_SIZE + 1
               in read_loop [start_block..end_block] end_block end_size (flat j) start_offset 0 b t)
      (if sint (d_size j) \<le> off then Some (0, b)
        else let truncated_size = c_s64 (min (c_u64 (sint (d_size j) - off)) sz)
          in if truncated_size = 0 then Some (0, b)
             else let start_block = c_int (off sdiv int BLOCK_SIZE); start_offset = off smod int BLOCK_SIZE;
                 end_block = c_int ((off + truncated_size - 1) sdiv int BLOCK_SIZE);
                 end_size = (off + truncated_size - 1) smod int BLOCK_SIZE + 1
               in read_loop_dev [start_block..end_block] end_block end_size j start_offset 0 b u)"
    proof (cases "sint (d_size j) \<le> off")
      case False
      then have "c_u64 (sint (d_size j) - off) = sint (d_size j) - off" using z assms(3) by simp
      then have "c_int (min (c_u64 (sint (d_size j) - off)) sz) = c_s64 (min (c_u64 (sint (d_size j) - off)) sz)"
        using False z assms(3,4) by (simp add: min_def)
      then show ?thesis using read_loop_sim[OF assms(1) small_fits[OF sm j(3)]] by (simp add: z(1) Let_def)
    qed (simp add: z(1))
  qed simp
  then show ?thesis by (simp add: Some option.rel_eq)
qed (simp add: read_i_def read_i_dev_def)

lemma nonneg_blocks:
  assumes "0 \<le> x" "x < 2 ^ 31"
  shows "c_int (x sdiv int BLOCK_SIZE) = x div int BLOCK_SIZE" "x smod int BLOCK_SIZE = x mod int BLOCK_SIZE"
proof -
  obtain k where k: "x = int k" "k < 2 ^ 31" using assms by (metis nonneg_int_cases of_nat_less_numeral_power_cancel_iff)
  have "k div BLOCK_SIZE < 2 ^ 31" using k(2) by (meson div_le_dividend le_less_trans)
  then have "int (k div BLOCK_SIZE) < 2 ^ 31" by (simp only: of_nat_less_numeral_power_cancel_iff)
  then have "c_int (int (k div BLOCK_SIZE)) = int (k div BLOCK_SIZE)" by simp
  then show "c_int (x sdiv int BLOCK_SIZE) = x div int BLOCK_SIZE" by (simp add: k zdiv_int)
  show "x smod int BLOCK_SIZE = x mod int BLOCK_SIZE" by (simp add: k zmod_int)
qed

lemma write_blocks_bound:
  assumes "0 \<le> off" "0 \<le> sz" "off + sz < 2 ^ 31"
  shows "off + int (length [c_int (off sdiv int BLOCK_SIZE)..c_int (c_u64 (off + sz - 1) div int BLOCK_SIZE)] * BLOCK_SIZE) < 2 ^ 32"
proof (cases "off + sz = 0")
  case True
  then have z: "off = 0" "sz = 0" using assms by simp_all
  have "c_int (c_u64 (- 1) div int BLOCK_SIZE) = - 1" by (simp add: c_u64_def c_int_def c_consts)
  moreover have "c_int (0 sdiv int BLOCK_SIZE) = 0" using nonneg_blocks(1)[of 0] by simp
  ultimately show ?thesis unfolding z by simp
next
  case False
  define p where "p = off + sz - 1"
  have p: "0 \<le> p" "p < 2 ^ 31" "off \<le> p + 1" using assms False by (simp_all add: p_def)
  have q: "0 \<le> p div 4096" "p div 4096 < 2 ^ 31" "4096 * (p div 4096) \<le> p" "off \<le> 4096 * (off div 4096) + 4095"
    using p by (simp_all add: pos_imp_zdiv_nonneg_iff)
  have "c_u64 p = p" using p by simp
  then have "c_int (c_u64 p div int BLOCK_SIZE) = p div 4096" using q by (simp add: c_consts)
  moreover have "c_int (off sdiv int BLOCK_SIZE) = off div 4096" using nonneg_blocks(1)[of off] assms by (simp add: c_consts)
  ultimately have "int (length [c_int (off sdiv int BLOCK_SIZE)..c_int (c_u64 p div int BLOCK_SIZE)] * BLOCK_SIZE) \<le>
      max 0 ((p div 4096 - off div 4096 + 1) * 4096)"
    by (simp add: c_consts)
  also have "\<dots> \<le> p - off + 8192" using q p
    by (simp only: max.bounded_iff distrib_right left_diff_distrib) (intro conjI; linarith)
  finally have "int (length [c_int (off sdiv int BLOCK_SIZE)..c_int (c_u64 p div int BLOCK_SIZE)] * BLOCK_SIZE) \<le>
      p - off + 8192" .
  moreover have "2 ^ 31 + 8192 < (2 ^ 32 :: int)" by simp
  ultimately show ?thesis using p unfolding p_def[symmetric] by linarith
qed

lemma write_i_sim:
  assumes "dev_rel t u" "valid_inum t (nat n) \<Longrightarrow> small_inode (inode_at t (nat n))"
    and "0 \<le> off" "0 \<le> sz" "off + sz < 2 ^ 31"
  shows "rel_option (rel_prod (=) dev_rel) (write_i n (Some buf) off sz t) (write_i_dev n (Some buf) off sz u)"
  unfolding write_i_def write_i_dev_def option.case
proof (rule local_inode_sim[OF assms(1), where R = "rel_option (rel_prod (=) dev_rel)"])
  fix j assume j: "valid_inum t (nat n)" "inode_at t (nat n) = flat j" "inode_dev_wf j"
  have sm: "small_inode (flat j)" using assms(2)[OF j(1)] j(2) by simp
  note z = small_size[OF sm]
  have c: "c_int (uint (i_size (flat j))) = sint (d_size j)" using z by simp
  define e where "e = c_u64 (off + sz - 1) mod int BLOCK_SIZE + 1"
  have e: "c_u64 e \<le> int BLOCK_SIZE"
    using pos_mod_bound[of "int BLOCK_SIZE" "c_u64 (off + sz - 1)"] by (simp add: e_def c_consts)
  have st: "off smod int BLOCK_SIZE \<le> int BLOCK_SIZE"
    using assms(3) assms nonneg_blocks(2)[of off] pos_mod_bound[of "int BLOCK_SIZE" off] by (simp add: c_consts)
  have len: "off + 0 + int (length [c_int (off sdiv int BLOCK_SIZE)..c_int (c_u64 (off + sz - 1) div int BLOCK_SIZE)] * BLOCK_SIZE) < 2 ^ 32"
    using write_blocks_bound[OF assms(3-5)] by simp
  note wl = write_loop_sim[OF assms(3) z(2,3) e]
  show "rel_option (rel_prod (=) dev_rel)
     (let original_size = c_int (uint (i_size (flat j))); start_block = c_int (off sdiv int BLOCK_SIZE);
          start_offset = off smod int BLOCK_SIZE; end_block = c_int (c_u64 (off + sz - 1) div int BLOCK_SIZE);
          end_size = c_u64 (off + sz - 1) mod int BLOCK_SIZE + 1
      in write_loop [start_block..end_block] n buf off original_size end_block end_size start_offset 0 (flat j) t)
     (let original_size = sint (d_size j); start_block = c_int (off sdiv int BLOCK_SIZE);
          start_offset = off smod int BLOCK_SIZE; end_block = c_int (c_u64 (off + sz - 1) div int BLOCK_SIZE);
          end_size = c_u64 (off + sz - 1) mod int BLOCK_SIZE + 1
      in write_loop_dev [start_block..end_block] n buf off original_size end_block end_size start_offset 0 j u)"
    using wl[OF assms(1) small_fits[OF sm j(3)] refl _ st len, of n buf "c_int (c_u64 (off + sz - 1) div int BLOCK_SIZE)"]
    by (simp add: c Let_def e_def)
qed (use assms(1) in simp)

end
