(* ===== verification/DeviceNameSim.thy ===== *)
theory DeviceNameSim
  imports DeviceNames DeviceFileSim
begin

text \<open>
  Simulation of directories and paths: with the sizes of directories below two gigabytes the searches,
  the permissions and \<open>namei\<close> of the version on a device give the results of the version in memory.
\<close>

section \<open>Pages and searches\<close>

definition small_dir :: "layer1 \<Rightarrow> nat \<Rightarrow> bool" where
  "small_dir t n \<longleftrightarrow> (S_ISDIR (i_mode (inode_at t n)) \<longrightarrow> small_inode (inode_at t n))"

lemma size_parts:
  assumes "0 \<le> z" "z < 2 ^ 31"
  shows "c_int (z sdiv int BLOCK_SIZE) = z div int BLOCK_SIZE" "z smod int BLOCK_SIZE = z mod int BLOCK_SIZE"
    "c_u64 (z mod int BLOCK_SIZE) = z mod int BLOCK_SIZE"
    "c_int (z mod int BLOCK_SIZE div int sizeof_dirent) = z mod int BLOCK_SIZE div int sizeof_dirent"
    "c_u64 (z mod int BLOCK_SIZE div int sizeof_dirent * int sizeof_dirent) =
      z mod int BLOCK_SIZE div int sizeof_dirent * int sizeof_dirent"
proof -
  obtain k where k: "z = int k" "k < 2 ^ 31" using assms by (metis nonneg_int_cases of_nat_less_numeral_power_cancel_iff)
  have "k div BLOCK_SIZE < 2 ^ 31" using k(2) by (meson div_le_dividend le_less_trans)
  then show "c_int (z sdiv int BLOCK_SIZE) = z div int BLOCK_SIZE" by (simp add: k zdiv_int[symmetric])
  show "z smod int BLOCK_SIZE = z mod int BLOCK_SIZE" by (simp add: k zmod_int[symmetric])
  have m: "k mod BLOCK_SIZE < 4096" by (simp add: c_consts)
  then have d: "k mod BLOCK_SIZE div sizeof_dirent * sizeof_dirent < 4096"
    using div_times_less_eq_dividend[of "k mod BLOCK_SIZE" sizeof_dirent] by linarith
  have "k mod BLOCK_SIZE div sizeof_dirent < 4096" using m by (meson div_le_dividend le_less_trans)
  then show "c_u64 (z mod int BLOCK_SIZE) = z mod int BLOCK_SIZE"
    "c_int (z mod int BLOCK_SIZE div int sizeof_dirent) = z mod int BLOCK_SIZE div int sizeof_dirent"
    "c_u64 (z mod int BLOCK_SIZE div int sizeof_dirent * int sizeof_dirent) =
      z mod int BLOCK_SIZE div int sizeof_dirent * int sizeof_dirent"
    using m d unfolding k zmod_int[symmetric] zdiv_int[symmetric] of_nat_mult[symmetric] by (simp_all del: of_nat_mult)
qed

lemma int_mult_times: "0 \<le> a \<Longrightarrow> 0 \<le> b \<Longrightarrow> int_mult a b = int_times a b"
proof -
  assume "0 \<le> a" "0 \<le> b"
  then have "0 \<le> a * b" by simp
  then have "- (2 ^ 31) \<le> a * b" by (rule order_trans[rotated]) simp
  then show ?thesis by (simp add: int_mult_def int_times_def)
qed

lemma read_dir_page_sim:
  assumes "dev_rel t u" "valid_inum t (nat n) \<Longrightarrow> small_dir t (nat n)"
  shows "read_dir_page n d p e l t = read_dir_page_dev n d p e l u"
proof (cases rule: local_inode_cases[OF assms(1), of n, case_names bad good])
  case (good j)
  show ?thesis
  proof (cases "S_ISDIR (d_mode j)")
    case True
    then have st: "small_inode (inode_at t (nat n))" using assms(2) good by (simp add: small_dir_def)
    have sm: "small_inode (flat j)" using st good(5) by simp
    note z = small_size[OF sm]
    note q = size_parts[OF z(2,3)]
    have ri: "read_i n (Some b) off y t = read_i_dev n (Some b) off y u" if "0 \<le> off" "0 \<le> y" for b off y
      using read_i_sim[OF assms(1) st that] .
    have c: "c_u64 (int DIRENTS_PER_BLOCK * int sizeof_dirent) = int DIRENTS_PER_BLOCK * int sizeof_dirent"
      by (simp add: c_consts)
    note unf = read_dir_page_def read_dir_page_dev_def Let_def good(6,7) prod.case z(1,4) q
    show ?thesis
    proof (cases "d = None \<or> e = None \<or> l = None \<or> d_size j = 0 \<or>
        sint (d_size j) mod int BLOCK_SIZE mod int sizeof_dirent \<noteq> 0 \<or>
        sint (d_size j) div int BLOCK_SIZE < p \<or> p < 0")
      case True
      then show ?thesis using \<open>S_ISDIR (d_mode j)\<close> unfolding unf by (simp only: flat_simps) (elim disjE; simp)
    next
      case False
      then obtain d0 e0 l0 where args: "d = Some d0" "e = Some e0" "l = Some l0" by auto
      from False have m: "int_mult p (int BLOCK_SIZE) = int_times p (int BLOCK_SIZE)" by (intro int_mult_times) simp_all
      show ?thesis
      proof (cases "int_times p (int BLOCK_SIZE)")
        case None
        then show ?thesis using False \<open>S_ISDIR (d_mode j)\<close> unfolding unf m by simp
      next
        case (Some off)
        then have off: "0 \<le> off" using False by (auto simp: int_times_def split: if_splits)
        have "0 \<le> sint (d_size j) mod int BLOCK_SIZE div int sizeof_dirent * int sizeof_dirent"
          by (simp add: pos_imp_zdiv_nonneg_iff c_consts)
        note ri = ri[OF off this] ri[OF off, of "int DIRENTS_PER_BLOCK * int sizeof_dirent"]
        show ?thesis
          using False Some \<open>S_ISDIR (d_mode j)\<close> unfolding unf m c args
          by (cases "p = sint (d_size j) div int BLOCK_SIZE") (simp_all add: ri c q cong: option.case_cong)
      qed
    qed
  qed (simp add: read_dir_page_def read_dir_page_dev_def good(6,7) Let_def)
qed (simp add: read_dir_page_def read_dir_page_dev_def Let_def)

lemma search_pages_sim:
  assumes "dev_rel t u" "valid_inum t (nat n) \<Longrightarrow> small_dir t (nat n)"
  shows "search_pages P n d c ne l t = search_pages_dev P n d c ne l u"
proof -
  note r = read_dir_page_sim[OF assms]
  have "search_pages P n d c ne l t = Some r" if "search_pages_dev P n d c ne l u = Some r" for r
  proof -
    let ?Q = "\<lambda>((((((P, m), d), c), ne), l), v) r. m = n \<and> v = u \<longrightarrow> search_pages P n d c ne l t = Some r"
    have "?Q ((((((P, n), d), c), ne), l), u) r"
      by (rule search_pages_dev.raw_induct[OF _ that])
        (simp, subst search_pages.simps, auto simp: r Let_def split: if_splits option.splits prod.splits)
    then show ?thesis by simp
  qed
  moreover have "search_pages_dev P n d c ne l u = Some r" if "search_pages P n d c ne l t = Some r" for r
  proof -
    let ?Q = "\<lambda>((((((P, m), d), c), ne), l), v) r. m = n \<and> v = t \<longrightarrow> search_pages_dev P n d c ne l u = Some r"
    have "?Q ((((((P, n), d), c), ne), l), t) r"
      by (rule search_pages.raw_induct[OF _ that])
        (simp, subst search_pages_dev.simps, auto simp: r Let_def split: if_splits option.splits prod.splits)
    then show ?thesis by simp
  qed
  ultimately show ?thesis by (metis option.exhaust)
qed

lemma search_by_name_sim:
  assumes "dev_rel t u" "valid_inum t (nat n) \<Longrightarrow> small_dir t (nat n)"
  shows "search_by_name n nm tg ix t = search_by_name_dev n nm tg ix u"
  by (cases rule: local_inode_cases[OF assms(1), of n, case_names bad good])
    (simp_all add: search_by_name_def search_by_name_dev_def Let_def search_pages_sim[OF assms] dev_relD(6)[OF assms(1)]
      split: option.split)

lemma search_by_inum_sim:
  assumes "dev_rel t u" "valid_inum t (nat n) \<Longrightarrow> small_dir t (nat n)"
  shows "search_by_inum n m ix t = search_by_inum_dev n m ix u"
  by (cases rule: local_inode_cases[OF assms(1), of n, case_names bad good])
    (simp_all add: search_by_inum_def search_by_inum_dev_def Let_def search_pages_sim[OF assms] dev_relD(6)[OF assms(1)]
      split: option.split)

section \<open>Permissions and paths\<close>

lemma has_flat [simp]: "has flag (flat j) = has_dev flag j"
  by (simp add: has_def has_dev_def)

lemma check_permissions_sim:
  assumes "dev_rel t u"
  shows "check_permissions n ui gi r w x t = check_permissions_dev n ui gi r w x u"
  by (cases rule: local_inode_cases[OF assms, of n, case_names bad good])
    (simp_all add: check_permissions_def check_permissions_dev_def Let_def)

lemma permissions_sim: "dev_rel t u \<Longrightarrow> permissions n ui gi t = permissions_dev n ui gi u"
  by (simp add: permissions_def permissions_dev_def check_permissions_sim)

lemma namei_loop_sim:
  assumes "dev_rel t u" "\<forall>n. valid_inum t n \<longrightarrow> small_dir t n"
  shows "namei_loop ts ui gi pa ta ix t = namei_loop_dev ts ui gi pa ta ix u"
proof (induction ts arbitrary: pa ta ix)
  case (Cons a ts)
  have "search_by_name n nm tg ix t = search_by_name_dev n nm tg ix u" for n nm tg ix
    using assms by (intro search_by_name_sim) auto
  then show ?case by (simp add: Cons.IH permissions_sim[OF assms(1)] Let_def split: option.split prod.split)
qed simp

lemma namei_sim:
  assumes "dev_rel t u" "\<forall>n. valid_inum t n \<longrightarrow> small_dir t n"
  shows "namei path ui gi t = namei_dev path ui gi u"
  by (simp add: namei_def namei_dev_def namei_loop_sim[OF assms])

end
