(* ===== verification/DeviceTrunc.thy ===== *)
theory DeviceTrunc
  imports DeviceFileSim FileWrite
begin

text \<open>
  \<open>trunc_fs\<close> and \<open>del\<close> of the version on a device: the loop that overwrites the file with zeros, ten
  blocks at a time, turns every block of the file into a hole.
\<close>

lemma zeros_written:
  assumes w: "wrote k off buf q s t" and z: "buf = replicate (length buf) 0" "q \<le> length buf"
    and a: "off mod BLOCK_SIZE = 0" "q mod BLOCK_SIZE = 0" and m: "m < MAX_FILE_BLOCKS" "touched off q m"
  shows "file_map t (inode_at t k) m = 0"
proof -
  note d = wroteD[OF w]
  have len: "length (file_blk t (inode_at t k) m) = BLOCK_SIZE"
    using is_block_file_blk[OF file_stepD(6,4)[OF d(1)] m(1)] by (simp add: is_block_def)
  obtain x y where xy: "off = x * BLOCK_SIZE" "q = y * BLOCK_SIZE"
    using a by (metis dvd_div_mult_self dvd_eq_mod_eq_0)
  then have "x * BLOCK_SIZE < Suc m * BLOCK_SIZE" "m * BLOCK_SIZE < (x + y) * BLOCK_SIZE"
    using m(2) unfolding touched_def by (simp_all add: add_mult_distrib)
  then have "x \<le> m" "Suc m \<le> x + y" by (simp_all only: mult_less_cancel2, simp_all)
  then have "x * BLOCK_SIZE \<le> m * BLOCK_SIZE" "Suc m * BLOCK_SIZE \<le> (x + y) * BLOCK_SIZE" by (intro mult_right_mono; simp)+
  then have r: "off \<le> m * BLOCK_SIZE" "m * BLOCK_SIZE + BLOCK_SIZE \<le> off + q"
    unfolding xy by (simp_all add: add_mult_distrib)
  have "file_blk t (inode_at t k) m = empty_block"
  proof (rule nth_equalityI)
    fix j assume "j < length (file_blk t (inode_at t k) m)"
    then have j: "j < BLOCK_SIZE" using len by simp
    then have b: "m * BLOCK_SIZE + j < MAX_FILE_BYTES"
      using slot_inside[OF m(1), of BLOCK_SIZE] by (simp add: MAX_FILE_BYTES_def)
    have i: "m * BLOCK_SIZE + j - off < length buf" using r j z(2) by linarith
    have "buf ! (m * BLOCK_SIZE + j - off) = 0" by (subst z(1)) (rule nth_replicate[OF i])
    then show "file_blk t (inode_at t k) m ! j = empty_block ! j"
      using d(4)[OF b] r j by (simp add: file_byte_def empty_block_def)
  qed (simp add: len empty_block_def)
  then show ?thesis using d(6)[OF z(1) m] by blast
qed

lemma trunc_loop_zero:
  assumes "dev_rel t u" "fs_ok t" "valid_inum t k" "file_good t (inode_at t k)" "i_mod_time (inode_at t k) = 0"
    and "w mod BLOCK_SIZE = 0" "n + TRUNC_BUF < 2 ^ 31"
    and "\<forall>m < MAX_FILE_BLOCKS. m * BLOCK_SIZE < w \<longrightarrow> file_map t (inode_at t k) m = 0"
    and "file_size (inode_at t k) \<le> max n w"
  shows "\<exists>t' u'. trunc_loop_dev (int k) 0 (int w) (int n) u = Some u' \<and> dev_rel t' u' \<and>
    file_step {k} t (inode_at t k) t' (inode_at t' k) \<and> file_good t' (inode_at t' k) \<and>
    (\<forall>m < MAX_FILE_BLOCKS. file_map t' (inode_at t' k) m = 0)"
  using assms(1-6,8,9)
proof (induction "n - w" arbitrary: w t u rule: less_induct)
  case less
  note f = file_goodD[OF less.prems(4)]
  show ?case
  proof (cases "w < n")
    case False
    then have "file_map t (inode_at t k) m = 0" if "m < MAX_FILE_BLOCKS" for m
      using less.prems(7,8) f(4)[OF that] that by (cases "m * BLOCK_SIZE < w") simp_all
    then show ?thesis
      using False less.prems file_step_refl[OF less.prems(2) f(1)]
      by (intro exI[of _ t] exI[of _ u]) (auto simp: trunc_loop_dev.simps)
  next
    case True
    let ?z = "replicate TRUNC_BUF (0 :: byte)"
    have sm: "small_inode (inode_at t k)" using less.prems(5) f(3) by (simp add: small_inode_def uint_size)
    have b: "0 < TRUNC_BUF" "w + TRUNC_BUF < 2 ^ 31" "TRUNC_BUF < 2 ^ 31" "TRUNC_BUF \<le> length ?z" "TRUNC_BUF mod BLOCK_SIZE = 0"
      using True assms(7) by (simp_all add: c_consts)
    have bi: "0 \<le> int w" "0 \<le> int TRUNC_BUF" "int w + int TRUNC_BUF < 2 ^ 31" using b(2) by simp_all
    have sim: "rel_option (rel_prod (=) dev_rel) (write_i (int k) (Some ?z) (int w) (int TRUNC_BUF) t)
        (write_i_dev (int k) (Some ?z) (int w) (int TRUNC_BUF) u)"
      using write_i_sim[OF less.prems(1) _ bi, of "int k"] sm by simp
    have z: "?z = replicate (length ?z) 0" by simp
    obtain ret q t1 where w: "write_i (int k) (Some ?z) (int w) (int TRUNC_BUF) t = Some (ret, t1)"
      "wrote k w ?z q t t1" "q = TRUNC_BUF"
      using write_i_spec[OF less.prems(2) f(1,2,3) less.prems(3) b(1) less_imp_le[OF b(2)] b(3,4) write_honest_zeros[OF z b(4)]]
        less.prems(6) z by blast
    obtain u1 where u1: "write_i_dev (int k) (Some ?z) (int w) (int TRUNC_BUF) u = Some (ret, u1)" "dev_rel t1 u1"
      using sim w(1) by (auto elim: option.rel_cases)
    note d = wroteD[OF w(2)] and st = file_stepD[OF wroteD(1)[OF w(2)]]
    have z1: "file_size (inode_at t1 k) \<le> max n (w + TRUNC_BUF)"
      using wrote_good(2)[OF less.prems(4) w(2)] b(1,2) w(3) less.prems(8) True by simp
    have g1: "file_good t1 (inode_at t1 k)" using wrote_good(1)[OF less.prems(4) w(2)] b(2) w(3) by simp
    have mt: "i_mod_time (inode_at t1 k) = 0" using d(3) less.prems(5) by (simp add: same_meta_def write_meta_def split: if_splits)
    have al: "(w + TRUNC_BUF) mod BLOCK_SIZE = 0" using less.prems(6) b(5) by (simp add: mod_add_eq[symmetric])
    have holes: "file_map t1 (inode_at t1 k) m = 0" if "m < MAX_FILE_BLOCKS" "m * BLOCK_SIZE < w + TRUNC_BUF" for m
    proof (cases "touched w q m")
      case True
      show ?thesis
        by (rule zeros_written[OF w(2) z _ less.prems(6) _ that(1) True]) (use b(5) w(3) in simp_all)
    next
      case nt: False
      have "Suc m * BLOCK_SIZE \<le> w" using nt that(2) w(3) b(1) by (simp add: touched_def)
      then have "m * BLOCK_SIZE < w" by (simp add: c_consts)
      then show ?thesis using d(5)[OF that(1) nt] less.prems(7) that(1) by simp
    qed
    have "valid_inum t1 k" using less.prems(3) st(7) by simp
    then obtain t' u' where r: "trunc_loop_dev (int k) 0 (int (w + TRUNC_BUF)) (int n) u1 = Some u'" "dev_rel t' u'"
      "file_step {k} t1 (inode_at t1 k) t' (inode_at t' k)" "file_good t' (inode_at t' k)"
      "\<forall>m < MAX_FILE_BLOCKS. file_map t' (inode_at t' k) m = 0"
      using less.hyps[OF _ u1(2) st(5) _ g1 mt al _ z1] holes True b(1) by fastforce
    have "trunc_loop_dev (int k) 0 (int w) (int n) u = Some u'"
      using True u1(1) r(1) by (subst trunc_loop_dev.simps) (simp add: add.commute)
    moreover have "file_step {k} t (inode_at t k) t' (inode_at t' k)" using file_step_trans[OF d(1) r(3)] by simp
    ultimately show ?thesis using r by blast
  qed
qed

text \<open>As in the other version, the inode read at the start is written back: it keeps its pointers.\<close>

lemma trunc_fs_dev_0:
  assumes rel: "dev_rel t u" and ok: "fs_ok t" and k: "valid_inum t k" and g: "file_good t (inode_at t k)"
    and mt: "i_mod_time (inode_at t k) = 0" and sz: "file_size (inode_at t k) + TRUNC_BUF < 2 ^ 31"
  shows "\<exists>t' v. trunc_fs_dev (int k) 0 u = Some (SUCCESS, v) \<and> dev_rel t' v \<and>
    fs_frame {k} (free_data t \<union> file_set t (inode_at t k)) t t' \<and>
    inode_at t' k = (inode_at t k)\<lparr>i_size := 0\<rparr> \<and> free_inums t' = free_inums t \<and>
    free_data t' = free_data t \<union> file_set t (inode_at t k)"
proof (cases rule: local_inode_cases[OF rel, of "int k", case_names bad good])
  case (good j)
  let ?ino = "inode_at t k" and ?n = "file_size (inode_at t k)"
  have j: "flat j = ?ino" using good(5) by simp
  have sm: "small_inode (flat j)" using mt file_goodD(3)[OF g] by (simp add: j small_inode_def uint_size)
  have dn: "sint (d_size j) = int ?n" using small_size(1)[OF sm] by (simp add: j uint_size)
  obtain t1 u1 where l: "trunc_loop_dev (int k) 0 (int 0) (int ?n) u = Some u1" "dev_rel t1 u1"
    "file_step {k} t ?ino t1 (inode_at t1 k)" "file_good t1 (inode_at t1 k)"
    "\<forall>m < MAX_FILE_BLOCKS. file_map t1 (inode_at t1 k) m = 0"
    using trunc_loop_zero[OF rel ok k g mt _ sz, of 0] by auto
  note d = file_stepD[OF l(3)]
  have set: "file_set t1 (inode_at t1 k) = {}" by (rule no_blocks_no_set(1)[OF file_goodD(2)[OF l(4)] l(5)])
  let ?j = "j\<lparr>d_size := word_of_int 0\<rparr>" and ?i = "?ino\<lparr>i_size := 0\<rparr>"
  have wf: "inode_dev_wf ?j" "inode_wf ?i" "flat ?j = ?i"
    using good(3) mt inode_wf_flat[OF good(3)] by (simp_all add: j[symmetric] inode_dev_wf_def inode_wf_def flat_def)
  have k1: "valid_inum t1 k" using k d(7) by simp
  obtain r t2 q v where w: "inode_write (int k) (Some ?i) t1 = (r, t2)" "inode_write_dev (int k) (Some ?j) u1 = (r, q, v)"
    "dev_rel t2 v" using inode_write_sim[OF l(2) wf(1)] wf(3) by metis
  have t2: "t2 = put_inode k ?i t1" using w(1) inode_write_ok[OF d(6) k1 wf(2)] by simp
  have "trunc_fs_dev (int k) 0 u = Some (SUCCESS, v)"
    using l(1) w(2) by (simp add: trunc_fs_dev_def good(7) dn)
  moreover have "fs_frame {k} (free_data t \<union> file_set t ?ino) t t2"
    unfolding t2 by (rule fs_frame_trans[OF d(1) fs_frame_put_inode[OF d(5) k1 wf(2)]]) auto
  moreover have "free_data t2 = free_data t \<union> file_set t ?ino"
    unfolding t2 using inode_step_free_list(2)[OF inode_step_put_inode[OF d(6) k1 wf(2)]] d(2) set by simp
  moreover have "free_inums t2 = free_inums t"
    unfolding t2 using put_inode_free_inums[OF d(6) k1 wf(2)] d(3) by simp
  moreover have "inode_at t2 k = ?i"
    unfolding t2 using inode_at_put_inode[OF d(6) k1 wf(2), of k] k1 by (simp add: valid_inum_def)
  ultimately show ?thesis using w(3) by blast
qed (use k in \<open>simp add: valid_inum_def\<close>)

lemma del_dev_spec:
  assumes "dev_rel t u" "fs_ok t" "valid_inum t k" "file_good t (inode_at t k)"
    and "i_mod_time (inode_at t k) = 0" "file_size (inode_at t k) + TRUNC_BUF < 2 ^ 31"
  shows "\<exists>t' v. del_dev (int k) u = Some (SUCCESS, v) \<and> dev_rel t' v \<and>
    fs_frame {k} (free_data t \<union> file_set t (inode_at t k)) t t' \<and>
    free_data t' = free_data t \<union> file_set t (inode_at t k) \<and> free_inums t' = insert k (free_inums t)"
proof -
  obtain t1 u1 where c: "trunc_fs_dev (int k) 0 u = Some (SUCCESS, u1)" "dev_rel t1 u1"
    "fs_frame {k} (free_data t \<union> file_set t (inode_at t k)) t t1" "free_inums t1 = free_inums t"
    "free_data t1 = free_data t \<union> file_set t (inode_at t k)"
    using trunc_fs_dev_0[OF assms] by blast
  have k1: "valid_inum t1 k" using fs_frameD(6)[OF c(3)] assms(3) by simp
  note fr = inode_free_frame[OF fs_frameD(1)[OF c(3)] k1]
  obtain v where v: "inode_free_dev (int k) u1 = (SUCCESS, v)" "dev_rel (clear_inode k t1) v"
    using inode_free_sim[OF c(2), of "int k"] fr(1) by (auto elim!: rel_prod.cases)
  have "fs_frame {k} (free_data t \<union> file_set t (inode_at t k)) t (clear_inode k t1)"
    by (rule fs_frame_trans[OF c(3) fr(2)]) auto
  then show ?thesis
    using c(1,4,5) v fr(3,4) by (intro exI[of _ "clear_inode k t1"] exI[of _ v]) (simp add: del_dev_def)
qed

end
