(* ===== verification/DeviceFormat.thy ===== *)
theory DeviceFormat
  imports DeviceMkfs DeviceSim
begin

text \<open>
  Formatting a device: the geometry that \<open>init_superblock\<close> of \<open>src/phase 2/layer1.c\<close> computes in double
  arithmetic, and what \<open>mkfs\<close> leaves on the device.
\<close>

section \<open>The geometry\<close>

text \<open>
  A bitmap block serves 32768/48 blocks of inodes, so that the divisor is 2051/3 but for rounding.  The
  quotient is rounded back to the exact one whenever that is an integer.
\<close>

lemma bitmap_divisor_dev_eq: "dbl_add_nat (dbl_of_ratio 32768 48) 1 = Dbl 6013595596182869 43"
  by (simp add: dbl_add_nat_def dbl_of_ratio_def dbl_scale_def round_div_def compute_floorlog)

lemma bitmap_ceil_dev:
  assumes "1 \<le> t" "t \<le> 200000"
  shows "dbl_ceil (nat_div_dbl t (dbl_add_nat (dbl_of_ratio 32768 48) 1)) = (3 * t + 2050) div 2051"
proof -
  define a b k where "a = t * 2 ^ 43" and "b = (6013595596182869 :: nat)" and "k = (3 * t + 2050) div 2051"
  have eq: "nat_div_dbl t (dbl_add_nat (dbl_of_ratio 32768 48) 1) = dbl_of_ratio a b"
    unfolding bitmap_divisor_dev_eq by (simp add: nat_div_dbl_def a_def b_def)
  define r where "r = (3 * t + 2050) mod 2051"
  have "3 * t + 2050 = 2051 * k + r" "r < 2051" by (simp_all add: k_def r_def)
  then have k: "0 < k" "3 * t \<le> 2051 * k" "2051 * (k - 1) + 1 \<le> 3 * t" "k \<le> 293"
    using assms by linarith+
  have pos: "0 < a" "0 < b" using assms by (simp_all add: a_def b_def)
  have "a < 2 ^ 61" using assms by (simp add: a_def)
  then have "floorlog 2 a \<le> 61" using pos by (intro floorlog_leI) simp_all
  moreover have "floorlog 2 b = 53" unfolding b_def by (simp add: compute_floorlog)
  ultimately have fl: "floorlog 2 a \<le> 52 + floorlog 2 b" by simp
  have s: "2 ^ 31 \<le> (2 :: nat) ^ dbl_scale a b"
    by (rule dbl_scale_large[OF pos fl, of t]) (use assms in \<open>simp_all add: a_def b_def\<close>)
  show ?thesis
  proof (cases "3 * t = 2051 * k")
    case True
    define m where "m = 684 * k - t"
    have m: "k = 3 * m" using True by (simp add: m_def)
    define p where "p = (2 :: nat) ^ dbl_scale a b"
    have p_pos: "0 < p" by (simp add: p_def)
    have "t = 2051 * m" using True m by simp
    then have am: "a = k * b + m" using m by (simp add: a_def b_def)
    have "a * p < 2 ^ 53 * b" using dbl_scale_bounds(2)[OF pos fl] by (simp add: p_def mult.commute)
    moreover have "3 * (m * p) * b \<le> a * p" using m by (simp add: am algebra_simps)
    ultimately have "3 * (m * p) * b < 2 ^ 53 * b" by (rule le_less_trans[rotated])
    then have "3 * (m * p) < 2 ^ 53" using pos(2) by (simp only: mult_less_cancel2)
    then have r: "m * p * 2 < b" by (simp add: b_def)
    have "a * p = (k * p) * b + m * p" by (simp add: am algebra_simps)
    then have "round_div (a * p) b = k * p" using r by (simp add: round_div_def Let_def)
    then show ?thesis
      unfolding eq k_def[symmetric] using k(1) p_pos
      by (intro dbl_ceilI) (simp_all add: dbl_of_ratio_def p_def[symmetric])
  next
    case False
    then have "3 * t + 1 \<le> 2051 * k" using k(2) by simp
    then have up: "a \<le> k * b" using k(4) by (simp add: a_def b_def)
    have "(k - 1) * b + 2 ^ 41 \<le> a" using k(3,4) by (simp add: a_def b_def)
    then have "2 ^ 41 \<le> a - (k - 1) * b" by simp
    then have "2 ^ 31 * 2 ^ 41 \<le> 2 ^ dbl_scale a b * (a - (k - 1) * b)"
      using s by (intro mult_mono) simp_all
    then have lo: "b < 2 ^ Suc (dbl_scale a b) * (a - (k - 1) * b)" by (simp add: b_def)
    show ?thesis
      unfolding eq k_def[symmetric] by (rule dbl_ceil_ratio[OF pos(2) k(1) up lo])
  qed
qed

definition bsize_dev :: "nat \<Rightarrow> nat" where
  "bsize_dev n = (3 * isize n + 2050) div 2051"

lemma sizes_dev:
  assumes "4 \<le> n" "n \<le> NUM_BLOCKS"
  shows "2 \<le> isize n" "isize n \<le> 200000" "isize n + 2 \<le> n"
    "1 \<le> bsize_dev n" "bsize_dev n < isize n" "3 * isize n \<le> 2051 * bsize_dev n"
proof -
  have n: "n \<le> 2000000" using assms(2) by (simp add: NUM_BLOCKS_def)
  define q where "q = (n + 9) div 10"
  have "10 * q \<le> n + 9" by (simp add: q_def)
  then show i: "2 \<le> isize n" "isize n \<le> 200000" "isize n + 2 \<le> n"
    using assms(1) n unfolding isize_def q_def[symmetric] by auto
  define r where "r = (3 * isize n + 2050) mod 2051"
  have "3 * isize n + 2050 = 2051 * bsize_dev n + r" "r < 2051" by (simp_all add: bsize_dev_def r_def)
  then show "1 \<le> bsize_dev n" "bsize_dev n < isize n" "3 * isize n \<le> 2051 * bsize_dev n"
    using i by linarith+
qed

lemma init_sb_dev_int:
  assumes "4 \<le> n" "n \<le> NUM_BLOCKS"
  shows "init_sb_dev (int n) =
    \<lparr>sb_ibitmap_block_offset = 1, sb_ibitmap_size = word_of_nat (bsize_dev n),
     sb_ilist_block_offset = word_of_nat (1 + bsize_dev n),
     sb_ilist_size = word_of_nat (isize n - bsize_dev n),
     sb_data_block_offset = word_of_nat (1 + isize n), sb_data_size = word_of_nat (n - 1 - isize n),
     sb_total_blocks = word_of_nat n, sb_total_inodes = word_of_nat ((isize n - bsize_dev n) * 48),
     sb_free_list_head = 1, sb_root_inode = 1, sb_block_size = 4096, sb_inodes_per_block = 48,
     sb_num_inodes = word_of_nat ((isize n - bsize_dev n) * 48)\<rparr>"
proof -
  note b = sizes_dev[OF assms]
  have "int (dbl_ceil (dbl_mult_nat n INODES_PERCENT)) = int ((n + 9) div 10)"
    using assms by (subst tenth_ceil) (simp_all add: NUM_BLOCKS_def)
  then have T: "max (MIN_IBITMAP + MIN_INODES) (int (dbl_ceil (dbl_mult_nat n INODES_PERCENT))) =
      int (isize n)" by (simp add: isize_def c_consts)
  have "dbl_of_ratio BITS_PER_BLOCK INODES_PER_BLOCK_DEV = dbl_of_ratio 32768 48" by (simp add: c_consts)
  then have I: "int (dbl_ceil (nat_div_dbl (isize n)
      (dbl_add_nat (dbl_of_ratio BITS_PER_BLOCK INODES_PER_BLOCK_DEV) 1))) = int (bsize_dev n)"
    using b(1,2) bitmap_ceil_dev[of "isize n"] by (simp add: bsize_dev_def)
  have d: "int n - 1 - int (isize n) = int (n - 1 - isize n)"
    "int (isize n) - int (bsize_dev n) = int (isize n - bsize_dev n)" using b by simp_all
  show ?thesis
    unfolding init_sb_dev_def nat_int T I Let_def SUPERBLOCK_SIZE_eq of_nat_1 d
    using b by (simp add: c_consts flip: of_nat_add)
qed

lemma geometry_init_sb_dev:
  assumes "4 \<le> n" "n \<le> NUM_BLOCKS"
  shows "geometry (init_sb_dev (int n)) n"
    and "unat (sb_num_inodes (init_sb_dev (int n))) = unat (sb_ilist_size (init_sb_dev (int n))) * 48"
proof -
  note b = sizes_dev[OF assms]
  have n: "n \<le> 2000000" using assms(2) by (simp add: NUM_BLOCKS_def)
  have u: "unat (word_of_nat k :: u32) = k" if "k \<le> 20000000" for k
    using that by (intro unat_u32_of_nat) simp
  define k where "k = isize n - bsize_dev n"
  have k: "isize n = bsize_dev n + k" using b by (simp add: k_def)
  then have s: "unat (word_of_nat (k * 48) :: u32) = k * 48" using b by (intro u) linarith
  moreover have "k * 48 \<le> bsize_dev n * 32768" using b k by linarith
  ultimately show "geometry (init_sb_dev (int n)) n"
    unfolding geometry_def init_sb_dev_int[OF assms] k_def[symmetric]
    using b n k u[of "bsize_dev n"] u[of k] u[of "1 + bsize_dev n"] u[of "1 + isize n"] u[of "n - 1 - isize n"]
    by (simp add: c_consts)
  show "unat (sb_num_inodes (init_sb_dev (int n))) = unat (sb_ilist_size (init_sb_dev (int n))) * 48"
    unfolding init_sb_dev_int[OF assms] k_def[symmetric] using s u[of k] k b by simp
qed

section \<open>The steps of mkfs\<close>

lemma node_wf_fill_addr: "node_wf cur \<Longrightarrow> node_wf (fill_addr js l n cur)"
  by (induction js arbitrary: cur) simp_all

lemma node_wf_init_node: "node_wf (init_node n i)"
  using node_wf_fill_addr[OF node_wf_zero(2)] by (simp add: init_node_def Let_def node_wf_def)

lemma init_freelist_loop_dev_eq: "mounted s \<Longrightarrow> init_freelist_loop_dev is n s = init_freelist_loop is n s"
proof (induction "is" arbitrary: s)
  case (Cons i "is")
  let ?w = "data_write (int (i * (ADDR_PER_NODE + 1) + 1)) (Some (enc_node (init_node n i))) s"
  have "mounted (snd ?w)" by (rule data_access_block(2)[OF Cons.prems length_enc_node[OF node_wf_init_node]])
  from Cons.IH[OF this] show ?case by (simp add: data_access_dev_eq[OF Cons.prems] Let_def case_prod_beta)
qed simp

lemma init_freelist_dev_eq: "mounted s \<Longrightarrow> init_freelist_dev s = init_freelist s"
  by (simp add: init_freelist_dev_def init_freelist_def init_freelist_loop_dev_eq)

lemma init_ibitmap_loop_dev_eq:
  assumes "mounted s" "\<forall>k \<in> set ks. k < ibitmap_len s"
  shows "init_ibitmap_loop_dev ks (sb_of s) s = init_ibitmap_loop ks (sb_of s) s"
  using assms
proof (induction ks arbitrary: s)
  case (Cons k ks)
  let ?s = "put_blk (ibitmap_off s + k) (replicate BLOCK_SIZE 0) s"
  have k: "k < ibitmap_len s" using Cons.prems by simp
  have z: "is_block (replicate BLOCK_SIZE 0)" by (simp add: is_block_def)
  note off = bitmap_offset[OF Cons.prems(1) k]
  have m: "mounted ?s" using ibitmap.ok_wr[OF Cons.prems(1) k z] .
  have "init_ibitmap_loop_dev ks (sb_of ?s) ?s = init_ibitmap_loop ks (sb_of ?s) ?s"
    using Cons.IH[OF m] Cons.prems(2) by simp
  then show ?case using off Cons.prems(1) z block_dev_mounted(2)[OF Cons.prems(1) off(2)] by simp
qed simp

lemma init_ibitmap_dev_eq: "mounted s \<Longrightarrow> init_ibitmap_dev s = init_ibitmap s"
  using init_ibitmap_loop_dev_eq[of s "[0..<ibitmap_len s]"]
  by (simp add: init_ibitmap_dev_def init_ibitmap_def ibitmap_len_def)

text \<open>What layer 1 keeps outside the inode table is the same in the view.\<close>

lemma view_alloc:
  assumes "mounted_dev s"
  shows "fs_ok (view s) = fs_ok s" "free_data (view s) = free_data s" "free_inums (view s) = free_inums s"
    "data_blk (view s) b = data_blk s b"
proof -
  note m = mounted_dev_mounted[OF assms] and f = view_fields[OF assms] and l = view_layout[OF assms]
  have d: "data_blk (view s) c = data_blk s c" for c
    using mounted_regions[OF m] by (simp add: data_blk_def l f(7))
  then show "data_blk (view s) b = data_blk s b" .
  have n: "node_at (view s) = node_at s" by (simp add: node_at_def d fun_eq_iff)
  have h: "fl_head (view s) = fl_head s" by (simp add: fl_head_def f)
  have w: "free_nodes (view s) = free_nodes s" by (simp add: free_nodes_def n h l)
  then show "free_data (view s) = free_data s" by (simp add: free_data_def free_list_def n)
  show "fs_ok (view s) = fs_ok s" using m l(1) by (simp add: fs_ok_def fl_inv_def w n h l)
  have "inode_used (view s) k = inode_used s k" if "valid_inum s k" for k
    by (rule inode_used_blk_cong[OF _ l(7) m that]) (simp add: f(7))
  then show "free_inums (view s) = free_inums s" by (auto simp: free_inums_def l)
qed

section \<open>create_dir_base\<close>

lemma flat_zero_inode_dev: "flat zero_inode_dev = zero_inode" "inode_dev_wf zero_inode_dev" "d_size zero_inode_dev = 0"
proof -
  have w: "words_of_bytes (replicate (4 * n) 0) = replicate n 0" for n
    by (induction n) (simp_all add: le_word_def replicate_add, simp add: numeral_eq_Suc le_word_def)
  have z: "words_of_bytes (replicate 80 0) = replicate 20 0" "words_of_bytes (replicate 84 0) = replicate 21 0"
    using w[of 20] w[of 21] by simp_all
  show "flat zero_inode_dev = zero_inode" "inode_dev_wf zero_inode_dev" "d_size zero_inode_dev = 0"
    by (simp_all add: zero_inode_def zero_inode_dev_def flat_def dec_inode_def dec_inode_dev_def inode_dev_wf_def c_consts Let_def z window_def)
qed

lemma flat_dir_inode_dev:
  "flat (dir_inode_dev mode uid gid b) = dir_inode mode uid gid b" "fits32 (dir_inode_dev mode uid gid b)"
proof -
  have "drop_bit 32 (word_of_nat (2 * sizeof_dirent) :: u64) = 0" "ucast (word_of_nat (2 * sizeof_dirent) :: u64) =
      (word_of_nat (2 * sizeof_dirent) :: u32)" by (simp_all add: c_consts)
  then show "flat (dir_inode_dev mode uid gid b) = dir_inode mode uid gid b" "fits32 (dir_inode_dev mode uid gid b)"
    using flat_zero_inode_dev(2,3) unfolding dir_inode_dev_def dir_inode_def flat_zero_inode_dev(1)[symmetric]
    by (simp_all add: flat_def fits32_def inode_dev_wf_def)
qed

lemma inode_dev_wf_uninit [simp]: "inode_dev_wf (uninit_inode_dev u)"
  by (simp add: uninit_inode_dev_def inode_dev_wf_dec)

lemma rel_prodE:
  assumes "rel_prod (=) B x y"
  obtains r a b where "x = (r, a)" "y = (r, b)" "B a b"
  using assms by (cases x; cases y) auto

lemma rel_prodE2:
  assumes "rel_prod (=) (rel_prod (=) B) x y"
  obtains r m a b where "x = (r, m, a)" "y = (r, m, b)" "B a b"
  using assms by (cases x rule: prod_cases3; cases y rule: prod_cases3) auto

lemma create_dir_base_sim:
  assumes "dev_rel t u"
  shows "rel_prod (=) (rel_prod (=) dev_rel)
    (make_dir sizeof_inode_dev (flat (uninit_inode_dev u)) k mode uid gid parent t)
    (create_dir_base_dev k mode uid gid parent u)"
proof -
  obtain r n t1 q u1 where c:
    "inode_create (Some (flat (uninit_inode_dev u))) (Some 0) (consume sizeof_inode_dev t) = (r, n, t1)"
    "inode_create_dev (Some (uninit_inode_dev u)) (Some 0) (consume sizeof_inode_dev u) = (r, n, q, u1)" "dev_rel t1 u1"
    using inode_create_sim[OF dev_rel_consume[OF assms] inode_dev_wf_uninit] by metis
  have "uninit m (consume k t1) = uninit m (consume k u1)" for m k by (rule dev_relD(6)[OF dev_rel_consume[OF c(3)]])
  then have b: "base_dirblock n parent t1 = base_dirblock n parent u1"
    using dev_relD(6)[OF c(3)] by (simp add: base_dirblock_def)
  obtain r2 m t2 u2 where a:
    "data_allocate (Some (base_dirblock n parent u1)) 0 (consume (BLOCK_SIZE + 2 * FILEBUF_SIZE) t1) = (r2, m, t2)"
    "data_allocate_dev (Some (base_dirblock n parent u1)) 0 (consume (BLOCK_SIZE + 2 * FILEBUF_SIZE) u1) = (r2, m, u2)"
    "dev_rel t2 u2"
    using rel_prodE2[OF data_allocate_sim[OF dev_rel_consume[OF c(3), of "BLOCK_SIZE + 2 * FILEBUF_SIZE"],
        of "Some (base_dirblock n parent u1)" 0]] by blast
  have wf: "inode_dev_wf (dir_inode_dev mode uid gid m)" using flat_dir_inode_dev(2) by (simp add: fits32_def)
  obtain r3 t3 q3 u3 where w: "inode_write n (Some (dir_inode mode uid gid m)) t2 = (r3, t3)"
    "inode_write_dev n (Some (dir_inode_dev mode uid gid m)) u2 = (r3, q3, u3)" "dev_rel t3 u3"
    using inode_write_sim[OF a(3) wf] flat_dir_inode_dev(1) by metis
  show ?thesis
    using inode_free_sim[OF a(3), of n] c(3) a(3) w(3)
    by (auto simp: make_dir_def create_dir_base_dev_def c(1,2) b a(1,2) w(1,2) Let_def elim!: rel_prod.cases)
qed

section \<open>mkfs\<close>

lemma mkfs_dev_errors:
  "blocks < 0 \<Longrightarrow> mkfs_dev d blocks uid gid s = (TOTALBLOCKS_INVALID, s)"
  "0 \<le> blocks \<Longrightarrow> blocks < 4 \<Longrightarrow> mkfs_dev d blocks uid gid s = (FS_TOO_SMALL, s)"
  "4 \<le> blocks \<Longrightarrow> uid < 0 \<or> gid < 0 \<Longrightarrow> mkfs_dev d blocks uid gid s = (BAD_UID, s)"
  "4 \<le> blocks \<Longrightarrow> 0 \<le> uid \<Longrightarrow> 0 \<le> gid \<Longrightarrow> mkfs_dev None blocks uid gid s = (UNEXPECTED_ERROR, open_device None s)"
  by (auto simp: mkfs_dev_def c_consts Let_def open_device_def)

text \<open>\<open>mkfs\<close> does not clear the inode table: free inodes are what the device held there.\<close>

definition left_inode :: "nat \<Rightarrow> byte list \<Rightarrow> nat \<Rightarrow> inode_dev" where
  "left_inode n d k = dec_inode_dev
    (window ((1 + bsize_dev n + islot k div INODES_PER_BLOCK_DEV) * BLOCK_SIZE +
      islot k mod INODES_PER_BLOCK_DEV * sizeof_inode_dev) sizeof_inode_dev d)"

lemma init_ibitmap_loop_ilist:
  assumes "mounted s" "\<forall>k \<in> set ks. k < ibitmap_len s" "ilist_off s \<le> m"
  shows "blk (init_ibitmap_loop ks (sb_of s) s) m = blk s m"
  using assms
proof (induction ks arbitrary: s)
  case (Cons k ks)
  let ?s = "put_blk (ibitmap_off s + k) (replicate BLOCK_SIZE 0) s"
  have k: "k < ibitmap_len s" using Cons.prems by simp
  have z: "is_block (replicate BLOCK_SIZE 0)" by (simp add: is_block_def)
  note off = bitmap_offset[OF Cons.prems(1) k]
  have "mounted ?s" using ibitmap.ok_wr[OF Cons.prems(1) k z] .
  from Cons.IH[OF this] have "blk (init_ibitmap_loop ks (sb_of ?s) ?s) m = blk ?s m" using Cons.prems(2,3) by simp
  also have "\<dots> = blk s m"
    using Cons.prems k mounted_regions[OF Cons.prems(1)] off(2) z by (simp add: blk_put_blk mounted_disk_ok)
  finally show ?case using off Cons.prems(1) z by simp
qed simp

text \<open>Up to the root directory the inode table is not looked at.\<close>

lemma format_dev:
  assumes "4 \<le> n" "n \<le> NUM_BLOCKS" "length d = n * BLOCK_SIZE"
  shows "\<exists>s1 s2 s3. init_superblock_dev (int n) (open_device (Some d) s) = (SUCCESS, s1) \<and>
    init_freelist_dev s1 = (SUCCESS, s2) \<and> init_ibitmap_dev s2 = (SUCCESS, s3) \<and> mounted_dev s3 \<and> fs_ok s3 \<and>
    nblocks s3 = n \<and> ndata s3 = n - 1 - isize n \<and> ninodes s3 = (isize n - bsize_dev n) * 48 \<and>
    free_data s3 = {1..ndata s3} \<and> free_inums s3 = {1..ninodes s3} \<and>
    (\<forall>k. valid_inum s3 k \<longrightarrow> inode_dev_at s3 k = left_inode n d k)"
proof -
  let ?s0 = "open_device (Some d) s"
  have d0: "disk_ok ?s0" "nblocks ?s0 = n" using assms(3) by (simp_all add: open_device_def disk_ok_def nblocks_def c_consts)
  define s1 where "s1 = put_superblock (init_sb_dev (int n)) ?s0"
  note g = geometry_init_sb_dev[OF assms(1,2)] and b = sizes_dev[OF assms(1,2)]
  have s1: "init_superblock_dev (int n) ?s0 = (SUCCESS, s1)" "mounted s1" "nblocks s1 = n" "sb_of s1 = init_sb_dev (int n)"
    using d0 assms(1,2) g(1) write_superblock_ok[of ?s0] write_superblock_dev_eq[of ?s0]
    by (simp_all add: init_superblock_dev_def s1_def mounted_put_superblock)
  have "fl_head s1 = 1" using s1(4) init_sb_dev_int[OF assms(1,2)] by (simp add: fl_head_def)
  from init_freelist_ok[OF s1(2) this] obtain s2 where s2: "init_freelist s1 = (SUCCESS, s2)" "fs_ok s2"
    "data_step s1 s2" "sb_of s2 = sb_of s1" "free_list s2 = [1..<ndata s1 + 1]" by blast
  have m2: "mounted s2" by (rule fs_ok_mounted[OF s2(2)])
  obtain s3 where s3: "init_ibitmap s2 = (SUCCESS, s3)" "mounted s3" "inode_step s2 s3"
    "\<forall>k. valid_inum s3 k \<longrightarrow> \<not> inode_used s3 k" using init_ibitmap_ok[OF m2] by blast
  have ok3: "fs_ok s3" by (rule inode_step_fs_ok[OF s3(3) s2(2) s3(2)])
  have sb3: "sb_of s3 = init_sb_dev (int n)" "nblocks s3 = n"
    using inode_step_layout(1,2)[OF s3(3)] s2(4) s1(3,4) data_step_layout(8)[OF s2(3)] by simp_all
  have u: "unat (word_of_nat k :: u32) = k" if "k \<le> 20000000" for k
    using that by (intro unat_u32_of_nat) simp
  have dims: "ndata s3 = n - 1 - isize n" "ninodes s3 = (isize n - bsize_dev n) * 48"
    unfolding ndata_def ninodes_def sb3 init_sb_dev_int[OF assms(1,2)] superblock.select_convs
    using b assms(2) by (intro u, simp add: NUM_BLOCKS_def)+
  have room: "ninodes s3 = ilist_len s3 * INODES_PER_BLOCK_DEV"
    using g(2) by (simp add: ninodes_def ilist_len_def sb3 c_consts)
  have "set [1..<ndata s3 + 1] = {1..ndata s3}" by auto
  moreover have "ndata s1 = ndata s3" using sb3(1) s1(4) by (simp add: ndata_def)
  ultimately have "free_data s3 = {1..ndata s3}"
    using inode_step_free_list(2)[OF s3(3)] s2(5) by (simp add: free_data_def)
  moreover have "free_inums s3 = {1..ninodes s3}" using s3(4) by (auto simp: free_inums_def valid_inum_def)
  moreover have md: "mounted_dev s3" using s3(2) room by (simp add: mounted_dev_def)
  moreover have "inode_dev_at s3 k = left_inode n d k" if "valid_inum s3 k" for k
  proof -
    note l = inode_step_layout[OF s3(3)] data_step_layout[OF s2(3)] and r = mounted_regions[OF s3(2)]
    let ?m = "ilist_off s3 + islot k div INODES_PER_BLOCK_DEV"
    have m: "?m < data_off s3" "ilist_off s3 = 1 + bsize_dev n"
      using dev_inum_range(2)[OF md that] r u[of "1 + bsize_dev n"] b unfolding ilist_off_def sb3 init_sb_dev_int[OF assms(1,2)]
      by simp_all
    have "s3 = init_ibitmap_loop [0..<ibitmap_len s2] (sb_of s2) s2"
      using s3(1) m2 by (simp add: init_ibitmap_def ibitmap_len_def)
    then have "blk s3 ?m = blk s2 ?m" using init_ibitmap_loop_ilist[OF m2, of "[0..<ibitmap_len s2]" ?m] l by simp
    also have "\<dots> = blk s1 ?m" using s2(3) m l r by (simp add: data_step_def)
    also have "\<dots> = blk ?s0 ?m" using blk_put_superblock[OF d0(1), of "init_sb_dev (int n)" ?m] d0(2) assms(1) m by (simp add: s1_def)
    also have "\<dots> = window (?m * BLOCK_SIZE) BLOCK_SIZE d" by (simp add: blk_def open_device_def)
    finally show ?thesis
      by (simp add: inode_dev_at_def dlist.get_def left_inode_def window_window[OF dlist.slot_fits] m(2))
  qed
  ultimately show ?thesis
    using s1(1) s2(1) s3(1) ok3 sb3(2) dims init_freelist_dev_eq[OF s1(2)] init_ibitmap_dev_eq[OF m2]
    by (intro exI[of _ s1] exI[of _ s2] exI[of _ s3]) simp
qed

lemma mkfs_dev_spec:
  fixes s :: layer1_dev
  assumes "4 \<le> n" "n \<le> NUM_BLOCKS" "length d = n * BLOCK_SIZE" "0 \<le> uid" "0 \<le> gid"
  shows "\<exists>b t. mkfs_dev (Some d) (int n) uid gid s = (SUCCESS, t) \<and> attached t \<and>
    fs_ok (view (warm t)) \<and> nblocks (view (warm t)) = n \<and> ndata (view (warm t)) = n - 1 - isize n \<and>
    ninodes (view (warm t)) = (isize n - bsize_dev n) * 48 \<and> valid_data (view (warm t)) b \<and>
    free_data (view (warm t)) = {1..n - 1 - isize n} - {b} \<and>
    free_inums (view (warm t)) = {2..(isize n - bsize_dev n) * 48} \<and>
    sb_root_inode (sb_of (view (warm t))) = 1 \<and>
    inode_at (view (warm t)) 1 = dir_inode S_IRWXUGO uid gid (int b) \<and>
    dir_base_block 1 0 (data_blk (view (warm t)) b) \<and>
    (\<forall>k. 2 \<le> k \<and> k \<le> (isize n - bsize_dev n) * 48 \<longrightarrow> inode_at (view (warm t)) k = flat (left_inode n d k))"
proof -
  obtain s1 s2 s3 where f: "init_superblock_dev (int n) (open_device (Some d) s) = (SUCCESS, s1)"
    "init_freelist_dev s1 = (SUCCESS, s2)" "init_ibitmap_dev s2 = (SUCCESS, s3)" "mounted_dev s3" "fs_ok s3"
    "nblocks s3 = n" "ndata s3 = n - 1 - isize n" "ninodes s3 = (isize n - bsize_dev n) * 48"
    "free_data s3 = {1..ndata s3}" "free_inums s3 = {1..ninodes s3}"
    "\<forall>k. valid_inum s3 k \<longrightarrow> inode_dev_at s3 k = left_inode n d k"
    using format_dev[OF assms(1-3)] by blast
  note b = sizes_dev[OF assms(1,2)]
  have w3: "warm s3 = s3"
    by (rule warm_cached[OF mounted_cached[OF mounted_dev_mounted[OF f(4)]]])
  define v3 where "v3 = view s3"
  have r3: "dev_rel v3 s3" using f(4) w3 by (simp add: dev_rel_def attached_def v3_def)
  note va = view_alloc[OF f(4), folded v3_def] and vl = view_layout[OF f(4), folded v3_def]
  have dims: "nblocks v3 = n" "ndata v3 = n - 1 - isize n" "ninodes v3 = (isize n - bsize_dev n) * 48"
    using f(6-8) vl view_fields(2)[OF f(4)] by (simp_all add: v3_def)
  have pos: "1 \<le> ndata v3" "1 \<le> ninodes v3" using dims b by simp_all
  have fd: "free_data v3 = {1..ndata v3}" "free_inums v3 = {1..ninodes v3}" using f(9,10) va vl by simp_all
  then have ff: "first_free v3 k \<longleftrightarrow> k = 1" for k
    using pos(2) by (force simp: first_free_def free_inums_def valid_inum_def)
  have ok3: "fs_ok v3" using va(1) f(5) by simp
  let ?i = "flat (uninit_inode_dev s3)"
  obtain k v4 where c: "make_dir sizeof_inode_dev ?i 0 S_IRWXUGO uid gid INVALID_INODE v3 = (SUCCESS, 1, v4)"
    "k \<in> free_data v3" "fs_frame {1} (free_data v3) v3 v4"
    "inode_at v4 1 = dir_inode S_IRWXUGO uid gid (int k)" "dir_base_block 1 0 (data_blk v4 k)"
    "free_inums v4 = free_inums v3 - {1}" "free_data v4 = free_data v3 - {k}"
    using make_dir_spec[OF ok3, of ?i sizeof_inode_dev 0 S_IRWXUGO uid gid INVALID_INODE] fd pos
    by (auto simp: ff)
  obtain s4 where s4: "create_dir_base_dev 0 S_IRWXUGO uid gid INVALID_INODE s3 = (SUCCESS, 1, s4)" "dev_rel v4 s4"
    using rel_prodE2[OF create_dir_base_sim[OF r3, of 0 S_IRWXUGO uid gid INVALID_INODE]] c(1) by auto
  have ok4: "fs_ok v4" "mounted v4" using fs_frameD[OF c(3)] by simp_all
  note rt = set_root_ok[OF ok4(1), of 1]
  let ?sb = "(sb_of v4)\<lparr>sb_root_inode := 1\<rparr>"
  have "rel_prod (=) dev_rel (write_superblock (Some ?sb) v4) (write_superblock_dev (Some ?sb) s4)"
    using mounted_geometry[OF ok4(2)] by (intro write_superblock_sim[OF s4(2)]) (simp_all add: geometry_def)
  then obtain t where t: "write_superblock_dev (Some ?sb) s4 = (SUCCESS, t)" "dev_rel (set_root 1 v4) t"
    unfolding rt(1) by (auto elim!: rel_prod.cases)
  have fr: "fs_frame {1} (free_data v3) v3 (set_root 1 v4)" by (rule fs_frame_trans[OF c(3) rt(2)]) auto
  have "inode_at (set_root 1 v4) k = flat (left_inode n d k)" if "2 \<le> k" "k \<le> (isize n - bsize_dev n) * 48" for k
  proof -
    have v: "valid_inum s3 k" "valid_inum v3 k" using that f(8) dims(3) by (simp_all add: valid_inum_def)
    have "inode_at (set_root 1 v4) k = inode_at v3 k" using fs_frameD(8)[OF fr v(2)] that(1) by simp
    then show ?thesis using inode_at_view[OF f(4) v(1)] f(11) v(1) by (simp add: v3_def)
  qed
  moreover have "mkfs_dev (Some d) (int n) uid gid s = (SUCCESS, t)"
    using assms(1,4,5) f(1-3) s4(1) t(1) dev_rel_superblock(2)[OF s4(2)]
    by (simp add: mkfs_dev_def Let_def c_consts open_device_def)
  moreover have v: "view (warm t) = set_root 1 v4" "attached t" using t(2) by (simp_all add: dev_rel_def)
  moreover have "inode_at (set_root 1 v4) 1 = dir_inode S_IRWXUGO uid gid (int k)"
    using fs_frameD(8)[OF rt(2), of 1] c(4) pos(2) fs_frameD(4)[OF c(3)] by (simp add: valid_inum_def)
  moreover have "{1..ninodes v3} - {1} = {2..ninodes v3}" by auto
  moreover have "valid_data v3 k" using c(2) fd by (simp add: valid_data_def)
  ultimately show ?thesis
    using c(5-) fs_frameD[OF fr] rt dims fd fs_frameD(9)[OF rt(2), of k]
    by (intro exI[of _ k] exI[of _ t]) simp
qed

end
