(* ===== verification/DeviceCreate.thy ===== *)
theory DeviceCreate
  imports DeviceNameSim DeviceTrunc DeviceFormat NameSpec
begin

text \<open>
  Creating a file on a device: \<open>mknod_fs\<close> of \<open>src/phase 2/layer2.c\<close> does what the \<open>mknod_fs\<close> of the
  version in memory does, also when the directory is full and the new inode is given back.
\<close>

lemma add_dirent_sim:
  assumes rel: "dev_rel t u"
    and small: "valid_inum t (nat n) \<Longrightarrow> S_ISDIR (i_mode (inode_at t (nat n))) \<Longrightarrow>
      i_mod_time (inode_at t (nat n)) = 0 \<and> file_size (inode_at t (nat n)) + BLOCK_SIZE < 2 ^ 31"
  shows "rel_option (rel_prod (=) dev_rel) (add_dirent n (Some d) t) (add_dirent_dev n (Some d) u)"
proof (cases rule: local_inode_cases[OF rel, of n, case_names bad good])
  case (good j)
  show ?thesis
  proof (cases "S_ISDIR (d_mode j)")
    case True
    then have s: "i_mod_time (inode_at t (nat n)) = 0" "file_size (inode_at t (nat n)) + BLOCK_SIZE < 2 ^ 31"
      using small[OF good(2)] good(5) by simp_all
    have si: "small_inode (inode_at t (nat n))" using s by (simp add: small_inode_def uint_size)
    then have sm: "small_inode (flat j)" using good(5) by simp
    note z = small_size[OF sm]
    have b: "0 \<le> sint (d_size j)" "sint (d_size j) < 2 ^ 31" "sint (d_size j) + int BLOCK_SIZE < 2 ^ 31"
      using z(1-3) s(2) good(5) by (simp_all add: uint_size)
    define x where "x = sint (d_size j)"
    obtain m where m: "x = int m" using b(1) nonneg_int_cases[of x] by (auto simp: x_def)
    have q: "x sdiv int BLOCK_SIZE = x div int BLOCK_SIZE" "x smod int BLOCK_SIZE = x mod int BLOCK_SIZE"
      "(x + int sizeof_dirent) sdiv int BLOCK_SIZE = (x + int sizeof_dirent) div int BLOCK_SIZE"
      using sdiv_nat[of m BLOCK_SIZE] sdiv_nat[of "m + sizeof_dirent" BLOCK_SIZE] nonneg_blocks(2)[of x] b(1,2)
      by (simp_all add: m zdiv_int zmod_int)
    have r: "c_u64 (x mod int BLOCK_SIZE) = x mod int BLOCK_SIZE"
      using pos_mod_bound[of "int BLOCK_SIZE" x] by (simp add: c_consts)
    let ?off = "if x div int BLOCK_SIZE < (x + int sizeof_dirent) div int BLOCK_SIZE then x + int DIRENTS_REMAINDER else x"
    have "0 \<le> ?off" "0 \<le> int sizeof_dirent" "?off + int sizeof_dirent < 2 ^ 31"
      using b unfolding x_def[symmetric] by (simp_all add: c_consts)
    note w = write_i_sim[OF rel _ this, of n "enc_dirent d"]
    show ?thesis
      using True w si rel unfolding add_dirent_def add_dirent_dev_def option.case good(6,7) prod.case Let_def z(1)
        x_def[symmetric] q r by simp
  qed (use rel in \<open>simp add: add_dirent_def add_dirent_dev_def good(6,7) Let_def\<close>)
qed (use rel in \<open>simp add: add_dirent_def add_dirent_dev_def Let_def\<close>)

lemma del_empty_sim:
  assumes rel: "dev_rel t u" and k: "valid_inum t k"
    and e: "i_size (inode_at t k) = 0" "i_mod_time (inode_at t k) = 0"
  shows "rel_option (rel_prod (=) dev_rel) (del (int k) t) (del_dev (int k) u)"
proof (cases rule: local_inode_cases[OF rel, of "int k", case_names bad good])
  case (good j)
  have sm: "small_inode (flat j)" using e good(5) by (simp add: small_inode_def)
  have dz: "d_size j = 0" using small_size(4)[OF sm] e good(5) by simp
  let ?i = "flat (j\<lparr>d_size := 0\<rparr>)" and ?j = "j\<lparr>d_size := 0\<rparr>"
  have i: "(flat j)\<lparr>i_size := 0\<rparr> = ?i" using dz by (simp add: flat_def)
  have wf: "inode_dev_wf ?j" using good(3) by (simp add: inode_dev_wf_def)
  obtain r t1 q u1 where w: "inode_write (int k) (Some ?i) t = (r, t1)" "inode_write_dev (int k) (Some ?j) u = (r, q, u1)"
    "dev_rel t1 u1" using inode_write_sim[OF rel wf] by metis
  have "write_i (int k) (Some []) 0 0 t = Some (0, t)" by (rule write_i_nothing[OF dev_relD(4)[OF rel] k])
  moreover have "i_size (flat j) = 0" using e good(5) by simp
  ultimately have "truncate_i (int k) 0 t = Some (SUCCESS, t1)"
    using w(1) by (simp add: truncate_i_def good(6) i)
  moreover have "trunc_fs_dev (int k) 0 u = Some (SUCCESS, u1)"
    using w(2) by (simp add: trunc_fs_dev_def good(7) dz trunc_loop_dev.simps)
  ultimately show ?thesis
    using inode_free_sim[OF w(3), of "int k"] by (simp add: del_def del_dev_def)
qed (use k in \<open>simp add: valid_inum_def\<close>)

lemma flat_file_inode_dev:
  "flat (file_inode_dev mode uid gid) = file_inode mode uid gid" "inode_dev_wf (file_inode_dev mode uid gid)"
  "i_size (file_inode mode uid gid) = 0" "i_mod_time (file_inode mode uid gid) = 0"
  using flat_zero_inode_dev(2,3) unfolding file_inode_dev_def file_inode_def flat_zero_inode_dev(1)[symmetric]
  by (simp_all add: flat_def inode_dev_wf_def)

lemma mknod_sim:
  assumes rel: "dev_rel t u" and dirs: "\<forall>n. valid_inum t n \<longrightarrow> small_dir t n"
    and ok: "fs_ok t" and c: "creatable t uid gid ts nm k"
    and small: "file_size (inode_at t k) + BLOCK_SIZE < 2 ^ 31" "dir_size (Suc (length (entries_of t k))) < 2 ^ 31"
  shows "rel_option (rel_prod (=) dev_rel) (mknod_fs (path_of (ts @ [nm])) mode uid gid t)
    (mknod_fs_dev (path_of (ts @ [nm])) mode uid gid u)"
proof -
  obtain index where n: "namei (path_of (ts @ [nm])) uid gid t = Some (SUCCESS, int k, found nm (entries_of t k), index)"
    "permissions (int k) uid gid t = (True, may_write uid gid (inode_at t k), True)"
    "last_component (path_of (ts @ [nm])) = Some nm"
    using creatable_namei[OF ok c] by metis
  note nd = n(1)[unfolded namei_sim[OF rel dirs]] n(2)[unfolded permissions_sim[OF rel]]
  have d: "is_dir t k" and m: "mounted t" using c ok by (simp_all add: creatable_def fs_ok_mounted)
  have "small_dir t k" using dirs d by (simp add: is_dir_def)
  then have km: "i_mod_time (inode_at t k) = 0"
    using d dir_okD(3) by (auto simp: small_dir_def small_inode_def is_dir_def)
  let ?f = "file_inode mode uid gid"
  obtain r l t1 q u1 where ic: "inode_create (Some ?f) (Some 0) t = (r, l, t1)"
    "inode_create_dev (Some (file_inode_dev mode uid gid)) (Some 0) u = (r, l, q, u1)" "dev_rel t1 u1"
    using inode_create_sim[OF rel flat_file_inode_dev(2)] flat_file_inode_dev(1) by metis
  show ?thesis
  proof (cases "may_write uid gid (inode_at t k) \<and> found nm (entries_of t k) = 0 \<and> r = SUCCESS")
    case False
    then show ?thesis using rel ic(3) by (auto simp: mknod_fs_def mknod_fs_dev_def n nd ic(1,2))
  next
    case True
    have free: "free_inums t \<noteq> {}"
    proof
      assume "free_inums t = {}"
      then have "inode_create (Some ?f) (Some 0) t = (ILIST_FULL, 0, t)"
        using inode_create_frame[OF ok file_inode_empty(1), of mode uid gid 0] by (auto simp: first_free_def free_inums_def)
      then show False using ic(1) True by simp
    qed
    obtain x where x: "l = int x" "fs_frame {x} {} t t1" "inode_at t1 x = ?f" "free_data t1 = free_data t"
      "is_dir t1 k" "entries_of t1 k = entries_of t k" "inode_at t1 k = inode_at t k" "x \<noteq> k" "valid_inum t x"
      using mknod_inode[OF ok d free, of mode uid gid] ic(1) by (metis prod.inject)
    have fu: "fs_frame {x} (free_data t) t t1" using x(2) by (rule fs_frame_mono) auto
    obtain r' t2 where a: "add_dirent (int k) (Some (new_dirent nm (int x))) t1 = Some (r', t2)"
      "inode_at t2 x = inode_at t1 x" "fs_frame {x, k} (free_data t \<union> file_set t (inode_at t k)) t t2"
      using enter_name[OF d m x(8,9) fu _ x(5-7) small(2)] x(4) by (metis order_refl)
    have "rel_option (rel_prod (=) dev_rel) (add_dirent (int k) (Some (new_dirent nm (int x))) t1)
        (add_dirent_dev (int k) (Some (new_dirent nm (int x))) u1)"
      using km small(1) x(7) by (intro add_dirent_sim[OF ic(3)]) simp
    then obtain u2 where u2: "add_dirent_dev (int k) (Some (new_dirent nm (int x))) u1 = Some (r', u2)" "dev_rel t2 u2"
      unfolding a(1) by (auto elim: option.rel_cases)
    have "valid_inum t2 x" using x(9) fs_frameD(6)[OF a(3)] by simp
    then have "rel_option (rel_prod (=) dev_rel) (del (int x) t2) (del_dev (int x) u2)"
      using a(2) x(3) flat_file_inode_dev(3,4) by (intro del_empty_sim[OF u2(2)]) simp_all
    then have "rel_option (rel_prod (=) dev_rel) (map_option (\<lambda>(_, s). (- ENOSPC, s)) (del (int x) t2))
        (map_option (\<lambda>(_, s). (- ENOSPC, s)) (del_dev (int x) u2))"
      by (rule sim_map_option) auto
    then show ?thesis
      using True u2 by (simp add: mknod_fs_def mknod_fs_dev_def n nd ic(1,2) x(1) a(1))
  qed
qed

end
