(* ===== verification/DeviceFuse.thy ===== *)
theory DeviceFuse
  imports DeviceNames FuseOps
begin

text \<open>
  The open file table and the FUSE handlers of the version on a device, \<open>src/phase 2/layer2.c\<close> and
  \<open>src/phase 2/fusemain.c\<close>.  The loops over the two tables are those of the other version.  \<open>fs_init\<close>
  opens the device and does not format it; \<open>fs_rmdir\<close> refuses a directory with entries of its own.
\<close>

section \<open>The open file table\<close>

record layer2_dev =
  files_dev :: layer1_dev
  oft_inodes_dev :: "oft_inode list"
  oft_fds_dev :: "oft_fd list"

definition oft_add_dev :: "int \<Rightarrow> int \<Rightarrow> layer2_dev \<Rightarrow> int \<times> layer2_dev" where
  "oft_add_dev inode_dev flags s =
    (let (ns, already_exists) = oft_count inode_dev (oft_inodes_dev s);
         ns = (if already_exists then ns
               else ns @ [\<lparr>on_inum = inode_dev, on_ref = 1, on_pending_deletion = False\<rparr>]);
         fd = find_fd MIN_FD (oft_fds_dev s)
     in (fd, s\<lparr>oft_inodes_dev := ns,
               oft_fds_dev := oft_fds_dev s @ [\<lparr>of_fd = fd, of_inum = inode_dev, of_flags = flags\<rparr>]\<rparr>))"

definition oft_remove_dev :: "int \<Rightarrow> layer2_dev \<Rightarrow> (bool \<times> layer2_dev) option" where
  "oft_remove_dev fd s =
    (let (inode_dev, fds) = remove_fds fd (- 1) (oft_fds_dev s); s = s\<lparr>oft_fds_dev := fds\<rparr> in
     if inode_dev = - 1 then Some (False, s)
     else case release_inode inode_dev (oft_inodes_dev s) of
       None \<Rightarrow> Some (False, s)
     | Some (ns, delete) \<Rightarrow>
         if delete then
           (case del_dev inode_dev (files_dev s) of
              None \<Rightarrow> None
            | Some (_, t) \<Rightarrow> Some (True, s\<lparr>files_dev := t, oft_inodes_dev := ns\<rparr>))
         else Some (True, s\<lparr>oft_inodes_dev := ns\<rparr>))"

definition oft_attempt_delete_dev :: "int \<Rightarrow> layer2_dev \<Rightarrow> (bool \<times> layer2_dev) option" where
  "oft_attempt_delete_dev inode_dev s =
    (case mark_pending inode_dev (oft_inodes_dev s) of
       Some ns \<Rightarrow> Some (False, s\<lparr>oft_inodes_dev := ns\<rparr>)
     | None \<Rightarrow>
         (case del_dev inode_dev (files_dev s) of
            None \<Rightarrow> None
          | Some (_, t) \<Rightarrow> Some (True, s\<lparr>files_dev := t\<rparr>)))"

definition oft_lookup_dev :: "int \<Rightarrow> layer2_dev \<Rightarrow> (int \<times> int) option" where
  "oft_lookup_dev fd s = lookup_fd fd (oft_fds_dev s)"

section \<open>Handlers\<close>

definition ENOTEMPTY :: int where [simp]: "ENOTEMPTY = 39"

definition on_files_dev :: "('r \<times> layer1_dev) option \<Rightarrow> layer2_dev \<Rightarrow> ('r \<times> layer2_dev) option" where
  "on_files_dev r s = map_option (\<lambda>(ret, t). (ret, s\<lparr>files_dev := t\<rparr>)) r"

definition fs_init_dev :: "byte list option \<Rightarrow> layer2_dev \<Rightarrow> layer2_dev" where
  "fs_init_dev device s = s\<lparr>files_dev := open_device device (files_dev s)\<rparr>"

text \<open>\<open>fs_destroy\<close> closes the device and leaves it with what has been written to it.\<close>

definition fs_destroy_dev :: "layer2_dev \<Rightarrow> byte list option" where
  "fs_destroy_dev s = disk (files_dev s)"

definition fs_getattr_dev ::
    "byte list \<Rightarrow> int \<Rightarrow> int \<Rightarrow> c_stat_dev \<Rightarrow> layer2_dev \<Rightarrow> (int \<times> c_stat_dev option) option" where
  "fs_getattr_dev path uid gid s0 s =
    (case namei_dev path uid gid (files_dev s) of
       None \<Rightarrow> None
     | Some (ret, parent_inum, target_inum, index) \<Rightarrow>
         if ret \<noteq> SUCCESS then Some (ret, None)
         else if target_inum = INVALID_INODE then Some (- ENOENT, None)
         else
           (let (read, write, exec) = permissions_dev parent_inum uid gid (files_dev s) in
            if \<not> read then Some (- EACCES, None)
            else Some (0, Some (get_stat_dev s0 target_inum (files_dev s)))))"

primrec fill_entries_dev ::
    "nat list \<Rightarrow> byte list \<Rightarrow> ('b \<Rightarrow> byte list \<Rightarrow> c_stat_dev \<Rightarrow> int \<Rightarrow> 'b \<times> bool) \<Rightarrow> c_stat_dev \<Rightarrow> 'b \<Rightarrow>
      layer2_dev \<Rightarrow> 'b + 'b" where
  "fill_entries_dev [] d filler s0 buf s = Inr buf"
| "fill_entries_dev (i # is) d filler s0 buf s =
    (let e = dirent_at d i;
         st = get_stat_dev s0 (sint (de_inode_num e)) (files_dev s);
         (buf, full) = filler buf (cstr (de_name e)) st 0
     in if full then Inl buf else fill_entries_dev is d filler s0 buf s)"

partial_function (option) readdir_pages_dev ::
    "int \<Rightarrow> byte list \<Rightarrow> int \<Rightarrow> int \<Rightarrow> bool \<Rightarrow> ('b \<Rightarrow> byte list \<Rightarrow> c_stat_dev \<Rightarrow> int \<Rightarrow> 'b \<times> bool) \<Rightarrow>
      c_stat_dev \<Rightarrow> 'b \<Rightarrow> layer2_dev \<Rightarrow> 'b option" where
  "readdir_pages_dev target_inum d page entries reached_end filler s0 buf s =
    (if reached_end then Some buf
     else case read_dir_page_dev target_inum (Some d) page (Some entries) (Some reached_end) (files_dev s) of
       None \<Rightarrow> None
     | Some (ret, d, entries, reached_end) \<Rightarrow>
         (case fill_entries_dev [0..<nat entries] d filler s0 buf s of
            Inl buf \<Rightarrow> Some buf
          | Inr buf \<Rightarrow> readdir_pages_dev target_inum d (page + 1) entries reached_end filler s0 buf s))"

definition fs_readdir_dev ::
    "byte list \<Rightarrow> 'b \<Rightarrow> ('b \<Rightarrow> byte list \<Rightarrow> c_stat_dev \<Rightarrow> int \<Rightarrow> 'b \<times> bool) \<Rightarrow> int \<Rightarrow> int \<Rightarrow> c_stat_dev \<Rightarrow> layer2_dev \<Rightarrow>
      (int \<times> 'b) option" where
  "fs_readdir_dev path buf filler uid gid s0 s =
    (case namei_dev path uid gid (files_dev s) of
       None \<Rightarrow> None
     | Some (ret, parent_inum, target_inum, index) \<Rightarrow>
         if ret \<noteq> SUCCESS then Some (ret, buf)
         else if target_inum = INVALID_INODE then Some (- ENOENT, buf)
         else
           (let (ret, my_inode) = local_inode_dev target_inum (files_dev s) in
            if \<not> S_ISDIR (d_mode my_inode) then Some (- ENOTDIR, buf)
            else map_option (\<lambda>buf. (0, buf))
              (readdir_pages_dev target_inum (uninit BLOCK_SIZE (files_dev s)) 0 0 False filler s0 buf s)))"

definition fs_mknod_dev :: "byte list \<Rightarrow> u32 \<Rightarrow> int \<Rightarrow> int \<Rightarrow> layer2_dev \<Rightarrow> (int \<times> layer2_dev) option" where
  "fs_mknod_dev path mode uid gid s = on_files_dev (mknod_fs_dev path mode uid gid (files_dev s)) s"

definition fs_mkdir_dev :: "byte list \<Rightarrow> u32 \<Rightarrow> int \<Rightarrow> int \<Rightarrow> layer2_dev \<Rightarrow> (int \<times> layer2_dev) option" where
  "fs_mkdir_dev path mode uid gid s = on_files_dev (mkdir_fs_dev path mode uid gid (files_dev s)) s"

definition fs_unlink_dev :: "byte list \<Rightarrow> int \<Rightarrow> int \<Rightarrow> layer2_dev \<Rightarrow> (int \<times> layer2_dev) option" where
  "fs_unlink_dev path uid gid s =
    (case namei_dev path uid gid (files_dev s) of
       None \<Rightarrow> None
     | Some (ret, parent_inum, target_inum, index) \<Rightarrow>
         if ret \<noteq> SUCCESS then Some (ret, s)
         else if target_inum = INVALID_INODE then Some (- ENOENT, s)
         else
           (let (ret, my_inode) = local_inode_dev target_inum (files_dev s) in
            if S_ISDIR (d_mode my_inode) then Some (- EISDIR, s)
            else
              (let (read, write, exec) = permissions_dev parent_inum uid gid (files_dev s) in
               if \<not> write then Some (- EACCES, s)
               else case on_files_dev (remove_dirent_dev parent_inum index (files_dev s)) s of
                 None \<Rightarrow> None
               | Some (_, s) \<Rightarrow> map_option (\<lambda>(_, s). (0, s)) (oft_attempt_delete_dev target_inum s))))"

definition fs_rmdir_dev :: "byte list \<Rightarrow> int \<Rightarrow> int \<Rightarrow> layer2_dev \<Rightarrow> (int \<times> layer2_dev) option" where
  "fs_rmdir_dev path uid gid s =
    (case namei_dev path uid gid (files_dev s) of
       None \<Rightarrow> None
     | Some (ret, parent_inum, target_inum, index) \<Rightarrow>
         if ret \<noteq> SUCCESS then Some (ret, s)
         else if target_inum = INVALID_INODE then Some (- ENOENT, s)
         else
           (let (ret, my_inode) = local_inode_dev target_inum (files_dev s) in
            if \<not> S_ISDIR (d_mode my_inode) then Some (- ENOTDIR, s)
            else if int (2 * sizeof_dirent) < c_u64 (sint (d_size my_inode)) then Some (- ENOTEMPTY, s)
            else
              (let (read, write, exec) = permissions_dev parent_inum uid gid (files_dev s) in
               if \<not> write then Some (- EACCES, s)
               else case on_files_dev (remove_dirent_dev parent_inum index (files_dev s)) s of
                 None \<Rightarrow> None
               | Some (_, s) \<Rightarrow>
                   map_option (\<lambda>(_, s). (0, s)) (on_files_dev (del_dev target_inum (files_dev s)) s))))"

definition fs_truncate_dev :: "byte list \<Rightarrow> int \<Rightarrow> int \<Rightarrow> int \<Rightarrow> layer2_dev \<Rightarrow> (int \<times> layer2_dev) option" where
  "fs_truncate_dev path sz uid gid s =
    (case namei_dev path uid gid (files_dev s) of
       None \<Rightarrow> None
     | Some (ret, parent_inum, target_inum, index) \<Rightarrow>
         if ret \<noteq> SUCCESS then Some (ret, s)
         else if target_inum = INVALID_INODE then Some (- ENOENT, s)
         else
           (let (ret, my_inode) = local_inode_dev target_inum (files_dev s) in
            if S_ISDIR (d_mode my_inode) then Some (- EISDIR, s)
            else
              (let (read, write, exec) = permissions_dev target_inum uid gid (files_dev s) in
               if \<not> write then Some (- EACCES, s)
               else map_option (\<lambda>(_, s). (0, s)) (on_files_dev (trunc_fs_dev target_inum sz (files_dev s)) s))))"

definition fs_open_dev ::
    "byte list \<Rightarrow> fuse_file_info \<Rightarrow> int \<Rightarrow> int \<Rightarrow> layer2_dev \<Rightarrow> (int \<times> fuse_file_info \<times> layer2_dev) option" where
  "fs_open_dev path fi uid gid s =
    (case namei_dev path uid gid (files_dev s) of
       None \<Rightarrow> None
     | Some (ret, parent_inum, target_inum, index) \<Rightarrow>
         if ret \<noteq> SUCCESS then Some (ret, fi, s)
         else if target_inum = INVALID_INODE then Some (- ENOENT, fi, s)
         else
           (let (read, write, exec) = permissions_dev target_inum uid gid (files_dev s);
                access_mode = fi_flags fi AND O_ACCMODE
            in if access_mode = O_RDONLY \<and> \<not> read then Some (- EACCES, fi, s)
               else if access_mode = O_WRONLY \<and> \<not> write then Some (- EACCES, fi, s)
               else if access_mode = O_RDWR \<and> (\<not> read \<or> \<not> write) then Some (- EACCES, fi, s)
               else if access_mode \<noteq> O_RDONLY \<and> access_mode \<noteq> O_WRONLY \<and> access_mode \<noteq> O_RDWR
               then Some (- EINVAL, fi, s)
               else
                 (let (ret, my_inode) = local_inode_dev target_inum (files_dev s) in
                  if S_ISDIR (d_mode my_inode) \<and> (access_mode = O_WRONLY \<or> access_mode = O_RDWR)
                  then Some (- EISDIR, fi, s)
                  else (let (fh, s) = oft_add_dev target_inum (fi_flags fi) s
                        in Some (0, fi\<lparr>fi_fh := fh\<rparr>, s)))))"

definition fs_read_dev ::
    "byte list \<Rightarrow> int \<Rightarrow> int \<Rightarrow> fuse_file_info option \<Rightarrow> layer2_dev \<Rightarrow> (int \<times> byte list) option" where
  "fs_read_dev buf sz offset fi s =
    (case fi of
       None \<Rightarrow> Some (- EBADF, buf)
     | Some fi \<Rightarrow>
         (case oft_lookup_dev (c_int (fi_fh fi)) s of
            None \<Rightarrow> Some (- EBADF, buf)
          | Some (inum, flags) \<Rightarrow>
              (let access_mode = fi_flags fi AND O_ACCMODE in
               if access_mode \<noteq> O_RDWR \<and> access_mode \<noteq> O_RDONLY then Some (- EBADF, buf)
               else read_i_dev inum (Some buf) offset sz (files_dev s))))"

definition fs_write_dev ::
    "byte list \<Rightarrow> int \<Rightarrow> int \<Rightarrow> fuse_file_info option \<Rightarrow> layer2_dev \<Rightarrow> (int \<times> layer2_dev) option" where
  "fs_write_dev buf sz offset fi s =
    (case fi of
       None \<Rightarrow> Some (- EBADF, s)
     | Some fi \<Rightarrow>
         (case oft_lookup_dev (c_int (fi_fh fi)) s of
            None \<Rightarrow> Some (- EBADF, s)
          | Some (inum, flags) \<Rightarrow>
              (let access_mode = fi_flags fi AND O_ACCMODE in
               if access_mode \<noteq> O_RDWR \<and> access_mode \<noteq> O_WRONLY then Some (- EBADF, s)
               else
                 (let (ret, my_inode) = local_inode_dev inum (files_dev s) in
                  if flags AND O_APPEND \<noteq> 0 \<and> ret \<noteq> SUCCESS then Some (- EBADF, s)
                  else
                    (let actual_offset =
                           (if flags AND O_APPEND \<noteq> 0 then sint (d_size my_inode) else offset)
                     in map_option (\<lambda>(ret, s). (if ret = DATA_FULL then - ENOSPC else ret, s))
                          (on_files_dev (write_i_dev inum (Some buf) actual_offset sz (files_dev s)) s))))))"

definition fs_release_dev :: "fuse_file_info option \<Rightarrow> layer2_dev \<Rightarrow> (int \<times> layer2_dev) option" where
  "fs_release_dev fi s =
    (case fi of
       None \<Rightarrow> Some (- EBADF, s)
     | Some fi \<Rightarrow> map_option (\<lambda>(_, s). (0, s)) (oft_remove_dev (c_int (fi_fh fi)) s))"

end
