(* ===== verification/DeviceProps.thy ===== *)
theory DeviceProps
  imports DeviceCreate DeviceFuse Layer2Props
begin

text \<open>
  The properties of the version on a device.  The witnesses run on \<open>formatted_dev\<close>, a device of 100
  blocks as \<open>mkfs\<close> leaves it, and on \<open>file_dev\<close>, on which inode 2 is an empty file.
\<close>

text \<open>What the device holds, as a disk of the version in memory.\<close>

definition in_memory :: "layer1_dev \<Rightarrow> layer1" where
  "in_memory u = view (warm u)"

lemma in_memory_rel: "attached u \<Longrightarrow> dev_rel (in_memory u) u"
  by (simp add: dev_rel_def in_memory_def)

lemma dev_relI: "dev_rel t u \<Longrightarrow> attached u \<and> in_memory u = t"
  by (simp add: dev_rel_def in_memory_def)

lemma in_memory_prod:
  assumes "rel_prod (=) dev_rel x y"
  shows "(fst y, in_memory (snd y)) = x \<and> attached (snd y)"
  using assms dev_relI by (cases x; cases y) auto

lemma in_memory_option:
  assumes "rel_option (rel_prod (=) dev_rel) x y"
  shows "map_option (\<lambda>(r, v). (r, in_memory v)) y = x \<and> (\<forall>r v. y = Some (r, v) \<longrightarrow> attached v)"
  using assms dev_relI by (cases x; cases y) auto

section \<open>The device of the witnesses\<close>

definition blank_dev :: layer1_dev where
  "blank_dev = \<lparr>disk = None, total_blocks = 0, junk = (\<lambda>_. 0), cached_superblock = None, clock = (\<lambda>_. 0)\<rparr>"

definition formatted_dev :: layer1_dev where
  "formatted_dev = snd (mkfs_dev (Some (replicate (100 * BLOCK_SIZE) 0)) 100 0 0 blank_dev)"

definition file_dev :: layer1_dev where
  "file_dev = snd (snd (snd (inode_create_dev (Some zero_inode_dev) (Some 0) formatted_dev)))"

lemma small_zero_inode: "small_inode zero_inode"
proof -
  have "i_mod_time (flat zero_inode_dev) = 0" unfolding flat_def using flat_zero_inode_dev(3) by simp
  then show ?thesis using file_size_zero_inode by (simp add: small_inode_def uint_size flat_zero_inode_dev(1))
qed

lemma small_dir_inode: "small_inode (dir_inode mode uid gid b)"
  using small_zero_inode by (simp add: small_inode_def dir_inode_def c_consts)

lemma left_inode_zero:
  assumes "1 \<le> k" "k \<le> 432"
  shows "left_inode 100 (replicate (100 * BLOCK_SIZE) 0) k = zero_inode_dev"
proof -
  have "islot k div 48 \<le> 8" "islot k mod 48 \<le> 47" using assms by (simp_all add: islot_def less_Suc_eq_le[symmetric])
  then have "(1 + 1 + islot k div 48) * 4096 + islot k mod 48 * 84 + 84 \<le> (100 * 4096 :: nat)" by simp
  then show ?thesis
    using zeros_window[of "replicate (100 * BLOCK_SIZE) (0 :: byte)" "(1 + 1 + islot k div 48) * 4096 + islot k mod 48 * 84" 84]
    by (simp add: left_inode_def zero_inode_dev_def c_consts bsize_dev_def isize_def)
qed

lemma formatted_dev_facts:
  "attached formatted_dev" "fs_ok (in_memory formatted_dev)" "ninodes (in_memory formatted_dev) = 432"
  "free_inums (in_memory formatted_dev) = {2..432}" "card (free_data (in_memory formatted_dev)) = 88"
  "valid_inum (in_memory formatted_dev) k \<Longrightarrow> small_inode (inode_at (in_memory formatted_dev) k)"
  "\<exists>b. valid_data (in_memory formatted_dev) b \<and> b \<notin> free_data (in_memory formatted_dev) \<and>
    inode_at (in_memory formatted_dev) 1 = dir_inode S_IRWXUGO 0 0 (int b) \<and>
    dir_base_block 1 0 (data_blk (in_memory formatted_dev) b)"
proof -
  let ?d = "replicate (100 * BLOCK_SIZE) (0 :: byte)"
  have n: "(4 :: nat) \<le> 100" "100 \<le> NUM_BLOCKS" "length ?d = 100 * BLOCK_SIZE" "(0 :: int) \<le> 0" by (simp_all add: c_consts)
  have s: "isize 100 = 10" "bsize_dev 100 = 1" by (simp_all add: isize_def bsize_dev_def)
  obtain b t where t: "mkfs_dev (Some ?d) (int 100) 0 0 blank_dev = (SUCCESS, t)" "attached t" "fs_ok (view (warm t))"
    "ndata (view (warm t)) = 100 - 1 - isize 100" "ninodes (view (warm t)) = (isize 100 - bsize_dev 100) * 48"
    "valid_data (view (warm t)) b" "free_data (view (warm t)) = {1..100 - 1 - isize 100} - {b}"
    "free_inums (view (warm t)) = {2..(isize 100 - bsize_dev 100) * 48}"
    "inode_at (view (warm t)) 1 = dir_inode S_IRWXUGO 0 0 (int b)" "dir_base_block 1 0 (data_blk (view (warm t)) b)"
    "\<forall>k. 2 \<le> k \<and> k \<le> (isize 100 - bsize_dev 100) * 48 \<longrightarrow> inode_at (view (warm t)) k = flat (left_inode 100 ?d k)"
    using mkfs_dev_spec[OF n n(4), of blank_dev] by blast
  have f: "formatted_dev = t" using t(1) by (simp add: formatted_dev_def)
  show "attached formatted_dev" "fs_ok (in_memory formatted_dev)" "ninodes (in_memory formatted_dev) = 432"
    "free_inums (in_memory formatted_dev) = {2..432}" "card (free_data (in_memory formatted_dev)) = 88"
    using t(2-8) by (simp_all add: f in_memory_def s valid_data_def)
  show "\<exists>b. valid_data (in_memory formatted_dev) b \<and> b \<notin> free_data (in_memory formatted_dev) \<and>
    inode_at (in_memory formatted_dev) 1 = dir_inode S_IRWXUGO 0 0 (int b) \<and>
    dir_base_block 1 0 (data_blk (in_memory formatted_dev) b)"
    using t(6,7,9,10) by (intro exI[of _ b]) (simp add: f in_memory_def)
  assume "valid_inum (in_memory formatted_dev) k"
  then have k: "1 \<le> k" "k \<le> 432" using t(5) by (simp_all add: valid_inum_def f in_memory_def s)
  show "small_inode (inode_at (in_memory formatted_dev) k)"
  proof (cases "k = 1")
    case True
    then show ?thesis using t(9) small_dir_inode by (simp add: f in_memory_def)
  next
    case False
    then have "inode_at (in_memory formatted_dev) k = zero_inode"
      using t(11) k left_inode_zero[OF k] flat_zero_inode_dev(1) by (simp add: f in_memory_def s)
    then show ?thesis using small_zero_inode by simp
  qed
qed

lemma file_dev_facts:
  "attached file_dev" "fs_ok (in_memory file_dev)" "valid_inum (in_memory file_dev) 2"
  "inode_at (in_memory file_dev) 2 = zero_inode" "free_data (in_memory file_dev) \<noteq> {}"
proof -
  let ?v = "in_memory formatted_dev"
  note f = formatted_dev_facts
  obtain r l t q u where c: "inode_create (Some zero_inode) (Some 0) ?v = (r, l, t)"
    "inode_create_dev (Some zero_inode_dev) (Some 0) formatted_dev = (r, l, q, u)" "dev_rel t u"
    using inode_create_sim[OF in_memory_rel[OF f(1)] flat_zero_inode_dev(2)] flat_zero_inode_dev(1) by metis
  have "free_inums ?v \<noteq> {}" using f(4) by simp
  then obtain n where n: "l = int n" "first_free ?v n" "fs_frame {n} {} ?v t" "inode_at t n = zero_inode"
    "free_data t = free_data ?v"
    using inode_create_frame[OF f(2) inode_wf_zero, of 0] c(1) by auto
  have v: "valid_inum ?v m \<longleftrightarrow> 1 \<le> m \<and> m \<le> 432" for m by (simp add: valid_inum_def f(3))
  have u: "inode_used ?v m \<longleftrightarrow> \<not> (2 \<le> m \<and> m \<le> 432)" if "valid_inum ?v m" for m
  proof -
    have "m \<in> free_inums ?v \<longleftrightarrow> 2 \<le> m \<and> m \<le> 432" unfolding f(4) by simp
    then show ?thesis using that unfolding free_inums_def by blast
  qed
  have n1: "2 \<le> n" "n \<le> 432" "\<And>m. valid_inum ?v m \<Longrightarrow> m < n \<Longrightarrow> inode_used ?v m"
    using n(2) v[of n] u[of n] unfolding first_free_def by blast+
  have n2: "n = 2" using n1(3)[of 2] u[of 2] v[of 2] n1(1,2) by force
  have m: "in_memory file_dev = t" "attached file_dev"
    using dev_relI[OF c(3)] c(2) by (simp_all add: file_dev_def)
  show "attached file_dev" by (rule m(2))
  show "fs_ok (in_memory file_dev)" "inode_at (in_memory file_dev) 2 = zero_inode"
    using fs_frameD(1)[OF n(3)] n(4) by (simp_all add: m(1) n2)
  show "valid_inum (in_memory file_dev) 2"
    unfolding m(1) fs_frameD(6)[OF n(3)] using v[of 2] by simp
  show "free_data (in_memory file_dev) \<noteq> {}" using n(5) f(5) by (auto simp: m(1))
qed

section \<open>Layer 1\<close>

lemma local_inode_dev_at:
  assumes "dev_rel t u" "valid_inum t k"
  shows "local_inode_dev (int k) u = (SUCCESS, inode_dev_at (warm u) k)"
proof (cases rule: local_inode_cases[OF assms(1), of "int k", case_names bad good])
  case (good j)
  then show ?thesis by simp
qed (use assms(2) in \<open>simp add: valid_inum_def\<close>)

text \<open>
  C13: \<open>mkfs\<close> of \<open>src/phase 2/layer1.c\<close> on a device of \<open>n\<close> blocks, 4 to \<open>NUM_BLOCKS\<close>, whatever it held.  It
  returns \<open>SUCCESS\<close>; a tenth of the blocks, rounded up, is for the inodes, of which one in 2051/3,
  rounded up, holds the bitmap, although both are computed in double arithmetic; all data blocks but
  one are on the free list, all inodes but the first are free, and inode 1 is the root directory with
  the entries \<open>.\<close> and \<open>..\<close> in that block.
\<close>
theorem device_mkfs_formats:
  fixes s :: layer1_dev
  assumes "4 \<le> n" "n \<le> NUM_BLOCKS" "length d = n * BLOCK_SIZE" "0 \<le> uid" "0 \<le> gid"
  shows "\<exists>b t. mkfs_dev (Some d) (int n) uid gid s = (SUCCESS, t) \<and> attached t \<and> fs_ok (in_memory t) \<and>
    nblocks (in_memory t) = n \<and> valid_data (in_memory t) b \<and>
    free_data (in_memory t) = {1..n - 1 - max 2 ((n + 9) div 10)} - {b} \<and>
    free_inums (in_memory t) = {2..(max 2 ((n + 9) div 10) - (3 * max 2 ((n + 9) div 10) + 2050) div 2051) * 48} \<and>
    sb_root_inode (sb_of (in_memory t)) = 1 \<and>
    inode_at (in_memory t) 1 = dir_inode S_IRWXUGO uid gid (int b) \<and> dir_base_block 1 0 (data_blk (in_memory t) b)"
  using mkfs_dev_spec[OF assms, of s, unfolded bsize_dev_def isize_def] unfolding in_memory_def by blast

lemma device_mkfs_formats_witness:
  "\<exists>t. mkfs_dev (Some (replicate (100 * BLOCK_SIZE) 0)) (int 100) 0 0 blank_dev = (SUCCESS, t) \<and> attached t \<and>
    free_inums (in_memory t) = {2..432}"
proof -
  have n: "(4 :: nat) \<le> 100" "100 \<le> NUM_BLOCKS" "length (replicate (100 * BLOCK_SIZE) (0 :: byte)) = 100 * BLOCK_SIZE"
    "(0 :: int) \<le> 0" by (simp_all add: c_consts)
  have e: "(max 2 ((100 + 9) div 10) - (3 * max 2 ((100 + 9) div 10) + 2050) div 2051) * 48 = (432 :: nat)" by simp
  show ?thesis using device_mkfs_formats[OF n n(4), of blank_dev] unfolding e by blast
qed

text \<open>
  C32: the inodes of the device, with their 64-bit sizes.  \<open>inode_write\<close> stores the inode with the current
  time as its modification time and returns it; \<open>inode_read\<close> then gives exactly this inode, whether or not the
  superblock is cached, every other inode is unchanged and so is every block outside the table.
\<close>
theorem device_inode_roundtrip:
  assumes "attached u" "valid_inum (in_memory u) n" "inode_dev_wf i"
  shows "\<exists>v. inode_write_dev (int n) (Some i) u = (SUCCESS, i\<lparr>d_mod_time := word_of_int (time_now u)\<rparr>, v) \<and>
    attached v \<and> local_inode_dev (int n) v = (SUCCESS, i\<lparr>d_mod_time := word_of_int (time_now u)\<rparr>) \<and>
    (\<forall>m. valid_inum (in_memory u) m \<and> m \<noteq> n \<longrightarrow> local_inode_dev (int m) v = local_inode_dev (int m) u) \<and>
    (\<forall>b. data_blk (in_memory v) b = data_blk (in_memory u) b) \<and>
    free_inums (in_memory v) = free_inums (in_memory u) \<and> free_data (in_memory v) = free_data (in_memory u)"
proof -
  let ?i = "i\<lparr>d_mod_time := word_of_int (time_now u)\<rparr>" and ?u = "tick (warm u)"
  have rel: "dev_rel (in_memory u) u" by (rule in_memory_rel[OF assms(1)])
  note d = dev_relD[OF rel]
  obtain v where v: "inode_write_dev (int n) (Some i) u = (SUCCESS, ?i, v)" "warm v = put_inode_dev n ?i ?u"
    using inode_write_attached[OF rel assms(2,3)] by metis
  have wf: "inode_dev_wf ?i" using assms(3) by (simp add: inode_dev_wf_def)
  have n: "mounted_dev ?u" "valid_inum ?u n" using d(2,7) assms(2) by (simp_all add: valid_inum_def)
  have a: "attached v" using mounted_dev_put[OF n wf] v(2) by (simp add: attached_def)
  have vm: "in_memory v = put_inode n (flat i) (in_memory u)"
    using view_put_inode[OF n wf] v(2) d(1,2) by (simp add: in_memory_def)
  note m = d(4) and wi = inode_wf_flat[OF assms(3)]
  have st: "inode_step (in_memory u) (in_memory v)" using m assms(2) wi by (simp add: vm)
  have "local_inode_dev (int k) v = (if k = n then (SUCCESS, ?i) else local_inode_dev (int k) u)"
    if k: "valid_inum (in_memory u) k" for k
  proof -
    have kv: "valid_inum (in_memory v) k" using k inode_step_layout(5)[OF st] inode_step_layout[OF st] by (simp add: valid_inum_def)
    have at: "inode_dev_at (warm v) k = (if k = n then ?i else inode_dev_at (warm u) k)"
      unfolding v(2) using inode_dev_at_put[OF n wf, of k] k by (simp add: valid_inum_def)
    show ?thesis using local_inode_dev_at[OF in_memory_rel[OF a] kv] local_inode_dev_at[OF rel k] at by simp
  qed
  then show ?thesis
    using v(1) a assms(2) inode_step_data(1)[OF st] inode_step_free_list(2)[OF st]
      put_inode_free_inums[OF m assms(2) wi] by (intro exI[of _ v]) (simp add: vm)
qed

lemma device_inode_roundtrip_witness:
  "\<exists>v. inode_write_dev (int 2) (Some (zero_inode_dev\<lparr>d_size := 2 ^ 40\<rparr>)) file_dev =
      (SUCCESS, zero_inode_dev\<lparr>d_size := 2 ^ 40, d_mod_time := word_of_int (time_now file_dev)\<rparr>, v) \<and>
    d_size (snd (local_inode_dev (int 2) v)) = 2 ^ 40"
proof -
  have "inode_dev_wf (zero_inode_dev\<lparr>d_size := 2 ^ 40\<rparr>)" using flat_zero_inode_dev(2) by (simp add: inode_dev_wf_def)
  from device_inode_roundtrip[OF file_dev_facts(1,3) this] show ?thesis by fastforce
qed

text \<open>
  C31: layer 1 on the device refines layer 1 in memory: allocating and freeing of data blocks and inodes
  give the same results as on the disk that the device holds, and leave a device that holds the same
  disk, although the inode table is laid out differently.
\<close>
theorem device_layer1_refines:
  assumes "attached u" "inode_dev_wf i"
  shows "(case data_allocate_dev d b u of (r, c, v) \<Rightarrow> (r, c, in_memory v)) = data_allocate d b (in_memory u) \<and>
    map_option (\<lambda>(r, v). (r, in_memory v)) (data_free_dev c u) = data_free c (in_memory u) \<and>
    (case inode_create_dev (Some i) (Some old) u of (r, n, j, v) \<Rightarrow> (r, n, in_memory v)) =
      inode_create (Some (flat i)) (Some old) (in_memory u) \<and>
    (case inode_free_dev n u of (r, v) \<Rightarrow> (r, in_memory v)) = inode_free n (in_memory u) \<and>
    (case data_allocate_dev d b u of (r, c, v) \<Rightarrow> attached v) \<and>
      (case inode_create_dev (Some i) (Some old) u of (r, n, j, v) \<Rightarrow> attached v) \<and> attached (snd (inode_free_dev n u))"
proof -
  have rel: "dev_rel (in_memory u) u" by (rule in_memory_rel[OF assms(1)])
  obtain r m t v where a: "data_allocate d b (in_memory u) = (r, m, t)" "data_allocate_dev d b u = (r, m, v)" "dev_rel t v"
    using rel_prodE2[OF data_allocate_sim[OF rel, of d b]] by blast
  obtain r' l t' k v' where c: "inode_create (Some (flat i)) (Some old) (in_memory u) = (r', l, t')"
    "inode_create_dev (Some i) (Some old) u = (r', l, k, v')" "dev_rel t' v'"
    using inode_create_sim[OF rel assms(2)] by metis
  note f = in_memory_prod[OF inode_free_sim[OF rel, of n]]
  have "map_option (\<lambda>(r, v). (r, in_memory v)) (data_free_dev c u) = data_free c (in_memory u)"
    using in_memory_option[OF data_free_sim[OF rel]] by blast
  then show ?thesis
    using a c f dev_relI[OF a(3)] dev_relI[OF c(3)] by (simp add: case_prod_beta)
qed

lemma device_layer1_refines_witness:
  "(case data_allocate_dev (Some (replicate BLOCK_SIZE 1)) 0 file_dev of (r, c, v) \<Rightarrow> (r, c, in_memory v)) =
    data_allocate (Some (replicate BLOCK_SIZE 1)) 0 (in_memory file_dev)"
  using device_layer1_refines[OF file_dev_facts(1) flat_zero_inode_dev(2)] by blast

section \<open>Files\<close>

text \<open>
  C10: on files and offsets below two gigabytes, \<open>write_i\<close> and \<open>read_i\<close> of the device version, with 64-bit
  sizes, signed offsets and an inode table of another layout, refine those of the version in memory:
  the same results and buffers, and the device afterwards holds the disk that \<open>write_i\<close> in memory leaves.
\<close>
theorem device_file_io_refines:
  assumes "attached u" "small_inode (inode_at (in_memory u) k)" "0 \<le> off" "0 \<le> sz" "off + sz < 2 ^ 31"
  shows "map_option (\<lambda>(r, v). (r, in_memory v)) (write_i_dev (int k) (Some buf) off sz u) =
      write_i (int k) (Some buf) off sz (in_memory u) \<and>
    (\<forall>r v. write_i_dev (int k) (Some buf) off sz u = Some (r, v) \<longrightarrow> attached v) \<and>
    read_i_dev (int k) (Some buf) off sz u = read_i (int k) (Some buf) off sz (in_memory u)"
proof -
  note rel = in_memory_rel[OF assms(1)]
  have k: "small_inode (inode_at (in_memory u) (nat (int k)))" using assms(2) by simp
  show ?thesis
    using in_memory_option[OF write_i_sim[OF rel k assms(3-5), of buf]] read_i_sim[OF rel k assms(3,4), of "Some buf"] by simp
qed

lemma device_file_io_refines_witness:
  "\<exists>v. write_i_dev (int 2) (Some [7, 8]) (int 0) (int 2) file_dev = Some (2, v) \<and> file_contents (in_memory v) 2 = [7, 8]"
proof -
  obtain t where t: "write_i (int 2) (Some [7, 8]) (int 0) (int 2) (in_memory file_dev) = Some (int 2, t)"
    "file_contents t 2 = [7, 8]" using two_bytes_written[OF file_dev_facts(2-5)] by metis
  have "small_inode (inode_at (in_memory file_dev) 2)" using small_zero_inode file_dev_facts(4) by simp
  from device_file_io_refines[OF file_dev_facts(1) this, of "int 0" "int 2" "[7, 8]"] t(1)
  have "map_option (\<lambda>(r, v). (r, in_memory v)) (write_i_dev (int 2) (Some [7, 8]) (int 0) (int 2) file_dev) = Some (int 2, t)"
    by simp
  then show ?thesis using t(2) by auto
qed

text \<open>A device whose inode 2 is a file of two bytes.\<close>

lemma data_dev:
  obtains u where "attached u" "fs_ok (in_memory u)" "valid_inum (in_memory u) 2" "file_good (in_memory u) (inode_at (in_memory u) 2)"
    "i_mod_time (inode_at (in_memory u) 2) = 0" "file_size (inode_at (in_memory u) 2) = 2"
    "file_set (in_memory u) (inode_at (in_memory u) 2) \<noteq> {}"
proof -
  obtain t where t: "write_i (int 2) (Some [7, 8]) (int 0) (int 2) (in_memory file_dev) = Some (int 2, t)"
    "fs_ok t" "valid_inum t 2" "file_good t (inode_at t 2)" "file_contents t 2 = [7, 8]"
    "file_set t (inode_at t 2) \<noteq> {}" "i_mod_time (inode_at t 2) = i_mod_time zero_inode"
    using two_bytes_written[OF file_dev_facts(2-5)] by blast
  have k: "small_inode (inode_at (in_memory file_dev) (nat (int 2)))" using small_zero_inode file_dev_facts(4) by simp
  have "rel_option (rel_prod (=) dev_rel) (Some (int 2, t)) (write_i_dev (int 2) (Some [7, 8]) (int 0) (int 2) file_dev)"
    using write_i_sim[OF in_memory_rel[OF file_dev_facts(1)] k, of "int 0" "int 2" "[7, 8]"] t(1) by simp
  then obtain u where "dev_rel t u" by (auto elim: option.rel_cases)
  moreover have "file_size (inode_at t 2) = 2" using arg_cong[OF t(5), of length] by simp
  moreover have "i_mod_time zero_inode = 0" using small_zero_inode by (simp add: small_inode_def)
  ultimately show thesis using that t dev_relI by metis
qed

text \<open>
  C23: \<open>del\<close> on a device, whose \<open>trunc_fs\<close> overwrites the file ten blocks at a time, beyond its end if need
  be, frees every block of the file, address blocks included, and its number, and changes nothing else.  The file is in good order
  and its size is at least \<open>TRUNC_BUF\<close> bytes (ten blocks) below \<open>2 ^ 31\<close>; the high half of the 64-bit size, which is
  the word \<open>i_mod_time\<close> of the view, is then 0.
\<close>
theorem device_del_frees_all:
  assumes "attached u" "fs_ok (in_memory u)" "valid_inum (in_memory u) k"
    and "file_good (in_memory u) (inode_at (in_memory u) k)" "i_mod_time (inode_at (in_memory u) k) = 0"
    and "file_size (inode_at (in_memory u) k) + TRUNC_BUF < 2 ^ 31"
  shows "\<exists>v. del_dev (int k) u = Some (SUCCESS, v) \<and> attached v \<and>
    fs_frame {k} (free_data (in_memory u) \<union> file_set (in_memory u) (inode_at (in_memory u) k)) (in_memory u) (in_memory v) \<and>
    free_data (in_memory v) = free_data (in_memory u) \<union> file_set (in_memory u) (inode_at (in_memory u) k) \<and>
    free_inums (in_memory v) = insert k (free_inums (in_memory u))"
  using del_dev_spec[OF in_memory_rel[OF assms(1)] assms(2-)] dev_relI by blast

lemma device_del_frees_all_witness:
  "\<exists>u v. file_set (in_memory u) (inode_at (in_memory u) 2) \<noteq> {} \<and> del_dev (int 2) u = Some (SUCCESS, v) \<and>
    free_inums (in_memory v) = insert 2 (free_inums (in_memory u))"
proof -
  obtain u where u: "attached u" "fs_ok (in_memory u)" "valid_inum (in_memory u) 2"
    "file_good (in_memory u) (inode_at (in_memory u) 2)" "i_mod_time (inode_at (in_memory u) 2) = 0"
    "file_size (inode_at (in_memory u) 2) = 2" "file_set (in_memory u) (inode_at (in_memory u) 2) \<noteq> {}"
    using data_dev by blast
  have "file_size (inode_at (in_memory u) 2) + TRUNC_BUF < 2 ^ 31" using u(6) by (simp add: c_consts)
  from device_del_frees_all[OF u(1-5) this] show ?thesis using u(7) by blast
qed

text \<open>
  C36: \<open>trunc_fs\<close> of \<open>src/phase 2/layer2.c\<close> kept the mistake of \<open>truncate\<close>: cut to 0 bytes, a file has all its
  blocks freed, but its inode, read before and written back after, still points to them.
\<close>
theorem device_trunc_dangling:
  assumes "attached u" "fs_ok (in_memory u)" "valid_inum (in_memory u) k"
    and "file_good (in_memory u) (inode_at (in_memory u) k)" "i_mod_time (inode_at (in_memory u) k) = 0"
    and "file_size (inode_at (in_memory u) k) + TRUNC_BUF < 2 ^ 31"
  shows "\<exists>v. trunc_fs_dev (int k) 0 u = Some (SUCCESS, v) \<and>
    inode_at (in_memory v) k = (inode_at (in_memory u) k)\<lparr>i_size := 0\<rparr> \<and>
    free_data (in_memory v) = free_data (in_memory u) \<union> file_set (in_memory u) (inode_at (in_memory u) k) \<and>
    (\<forall>p < NPTRS. iptr (inode_at (in_memory v) k) p \<noteq> 0 \<longrightarrow> iptr (inode_at (in_memory v) k) p \<in> free_data (in_memory v))"
proof -
  obtain t v where v: "trunc_fs_dev (int k) 0 u = Some (SUCCESS, v)" "dev_rel t v"
    "inode_at t k = (inode_at (in_memory u) k)\<lparr>i_size := 0\<rparr>"
    "free_data t = free_data (in_memory u) \<union> file_set (in_memory u) (inode_at (in_memory u) k)"
    using trunc_fs_dev_0[OF in_memory_rel[OF assms(1)] assms(2-)] by blast
  then show ?thesis using pointer_in_set dev_relI[OF v(2)] by (intro exI[of _ v]) auto
qed

lemma device_trunc_dangling_witness:
  "\<exists>u v p. trunc_fs_dev (int 2) 0 u = Some (SUCCESS, v) \<and> p < NPTRS \<and> iptr (inode_at (in_memory v) 2) p \<noteq> 0 \<and>
    iptr (inode_at (in_memory v) 2) p \<in> free_data (in_memory v)"
proof -
  obtain u where u: "attached u" "fs_ok (in_memory u)" "valid_inum (in_memory u) 2"
    "file_good (in_memory u) (inode_at (in_memory u) 2)" "i_mod_time (inode_at (in_memory u) 2) = 0"
    "file_size (inode_at (in_memory u) 2) = 2" "file_set (in_memory u) (inode_at (in_memory u) 2) \<noteq> {}"
    using data_dev by blast
  have b: "file_size (inode_at (in_memory u) 2) + TRUNC_BUF < 2 ^ 31" using u(6) by (simp add: c_consts)
  obtain p where p: "p < NPTRS" "iptr (inode_at (in_memory u) 2) p \<noteq> 0" using has_pointer[OF u(7)] .
  obtain v where v: "trunc_fs_dev (int 2) 0 u = Some (SUCCESS, v)"
    "inode_at (in_memory v) 2 = (inode_at (in_memory u) 2)\<lparr>i_size := 0\<rparr>"
    "\<forall>p < NPTRS. iptr (inode_at (in_memory v) 2) p \<noteq> 0 \<longrightarrow> iptr (inode_at (in_memory v) 2) p \<in> free_data (in_memory v)"
    using device_trunc_dangling[OF u(1-5) b] by blast
  have "iptr (inode_at (in_memory v) 2) p \<noteq> 0" using p(2) v(2) by simp
  then show ?thesis using v(1,3) p(1) by blast
qed

section \<open>Directories and paths\<close>

text \<open>The root directory of the formatted device, and the device after \<open>mknod\<close> of \<open>/a\<close>.\<close>

lemma dev_root:
  shows "is_dir (in_memory formatted_dev) 1" "length (entries_of (in_memory formatted_dev) 1) = 2"
    "may_search (in_memory formatted_dev) 0 0 1" "may_write 0 0 (inode_at (in_memory formatted_dev) 1)"
    "file_size (inode_at (in_memory formatted_dev) 1) = 522"
    "creatable (in_memory formatted_dev) 0 0 [] name_a 1" "dir_find name_a (entries_of (in_memory formatted_dev) 1) = None"
proof -
  note f = formatted_dev_facts
  obtain b where b: "valid_data (in_memory formatted_dev) b" "b \<notin> free_data (in_memory formatted_dev)"
    "inode_at (in_memory formatted_dev) 1 = dir_inode S_IRWXUGO 0 0 (int b)"
    "dir_base_block 1 0 (data_blk (in_memory formatted_dev) b)" using f(7) by blast
  have v: "valid_inum (in_memory formatted_dev) 1" "1 \<notin> free_inums (in_memory formatted_dev)"
    using f(3,4) by (simp_all add: valid_inum_def)
  note r = fresh_root[OF fs_ok_mounted[OF f(2)] b(1,2,4,3) v]
  show "is_dir (in_memory formatted_dev) 1" "length (entries_of (in_memory formatted_dev) 1) = 2"
    "may_search (in_memory formatted_dev) 0 0 1" "may_write 0 0 (inode_at (in_memory formatted_dev) 1)"
    "creatable (in_memory formatted_dev) 0 0 [] name_a 1" "dir_find name_a (entries_of (in_memory formatted_dev) 1) = None"
    using r name_a by simp_all
  show "file_size (inode_at (in_memory formatted_dev) 1) = 522" using r(7) by (simp add: dir_size_def dir_pos_def c_consts)
qed

lemma dev_small_dirs: "\<forall>n. valid_inum (in_memory formatted_dev) n \<longrightarrow> small_dir (in_memory formatted_dev) n"
  using formatted_dev_facts(6) by (simp add: small_dir_def)

text \<open>The new file \<open>/a\<close>, first on the disk in memory.\<close>

lemma dev_mknod_a:
  obtains v where "mknod_fs (path_of ([] @ [name_a])) 0x1a4 0 0 (in_memory formatted_dev) = Some (SUCCESS, v)"
    "fs_ok v" "is_dir v 1" "length (entries_of v 1) = 3" "i_mod_time (inode_at v 1) = 0"
proof -
  let ?m = "in_memory formatted_dev"
  note f = formatted_dev_facts
  have s: "dir_size (Suc (length (entries_of ?m 1))) < 2 ^ 31" "length (entries_of ?m 1) mod DIRENTS_PER_BLOCK \<noteq> 0"
    "free_inums ?m \<noteq> {}" unfolding dev_root(2) f(4) by (simp_all add: dir_size_def dir_pos_def c_consts)
  obtain n v where v: "mknod_fs (path_of ([] @ [name_a])) 0x1a4 0 0 ?m = Some (SUCCESS, v)"
    "fs_frame {n, 1} (free_data ?m \<union> file_set ?m (inode_at ?m 1)) ?m v" "is_dir v 1"
    "entries_of v 1 = entries_of ?m 1 @ [new_dirent name_a (int n)]"
    "same_meta (write_meta (dir_pos (length (entries_of ?m 1))) sizeof_dirent (inode_at ?m 1)) (inode_at v 1)"
    using mknod_spec[OF f(2) dev_root(6,4) found_None[OF dev_root(7)] s(3,1), of "0x1a4"] s(2) by blast
  have "valid_inum ?m 1" using f(3) by (simp add: valid_inum_def)
  then have "i_mod_time (inode_at ?m 1) = 0" using f(6) by (simp add: small_inode_def)
  then have "i_mod_time (inode_at v 1) = 0" using v(5) by (simp add: same_meta_def write_meta_def split: if_splits)
  moreover have "length (entries_of v 1) = 3" using v(4) dev_root(2) by simp
  ultimately show thesis using that v(1,3) fs_frameD(1)[OF v(2)] by blast
qed

lemma dev_a_small:
  "file_size (inode_at (in_memory formatted_dev) 1) + BLOCK_SIZE < 2 ^ 31"
  "dir_size (Suc (length (entries_of (in_memory formatted_dev) 1))) < 2 ^ 31"
  unfolding dev_root(5) dev_root(2) by (simp_all add: dir_size_def dir_pos_def c_consts)

lemma dev_with_a:
  obtains u where "attached u" "is_dir (in_memory u) 1" "length (entries_of (in_memory u) 1) = 3"
    "i_mod_time (inode_at (in_memory u) 1) = 0"
proof -
  obtain v where v: "mknod_fs (path_of ([] @ [name_a])) 0x1a4 0 0 (in_memory formatted_dev) = Some (SUCCESS, v)"
    "is_dir v 1" "length (entries_of v 1) = 3" "i_mod_time (inode_at v 1) = 0" using dev_mknod_a by metis
  have "rel_option (rel_prod (=) dev_rel) (Some (SUCCESS, v)) (mknod_fs_dev (path_of ([] @ [name_a])) 0x1a4 0 0 formatted_dev)"
    using mknod_sim[OF in_memory_rel[OF formatted_dev_facts(1)] dev_small_dirs formatted_dev_facts(2) dev_root(6) dev_a_small]
      v(1) by metis
  then obtain u where "dev_rel v u" by (auto elim: option.rel_cases)
  then show thesis using that v(2-) dev_relI by metis
qed

text \<open>
  C33: path lookup on a device, its directories all below two gigabytes, is \<open>namei\<close> on the disk that the
  device holds: the same error, parent, inode and index; so are the permissions.
\<close>
theorem device_namei_equals:
  assumes "attached u" "\<forall>n. valid_inum (in_memory u) n \<longrightarrow> small_dir (in_memory u) n"
  shows "namei_dev path uid gid u = namei path uid gid (in_memory u) \<and>
    permissions_dev inum uid gid u = permissions inum uid gid (in_memory u)"
  using namei_sim[OF in_memory_rel[OF assms(1)] assms(2)] permissions_sim[OF in_memory_rel[OF assms(1)]] by simp

lemma device_namei_equals_witness:
  "\<exists>index. namei_dev (path_of ([] @ [name_a])) 0 0 formatted_dev = Some (SUCCESS, int 1, 0, index)"
proof -
  note f = formatted_dev_facts
  obtain index where "namei (path_of ([] @ [name_a])) 0 0 (in_memory formatted_dev) =
      Some (SUCCESS, int 1, found name_a (entries_of (in_memory formatted_dev) 1), index)"
    using creatable_namei[OF f(2) dev_root(6)] by blast
  moreover have "namei_dev (path_of ([] @ [name_a])) 0 0 formatted_dev =
      namei (path_of ([] @ [name_a])) 0 0 (in_memory formatted_dev)"
    using device_namei_equals[OF f(1) dev_small_dirs] by blast
  ultimately show ?thesis using found_None[OF dev_root(7)] by simp
qed

text \<open>
  C20: \<open>mknod_fs\<close> on a device, in a directory that can be reached and searched, refines \<open>mknod_fs\<close> in
  memory: the same answer, and the device holds the same disk afterwards, also when the directory cannot
  grow and the new inode is given back.
\<close>
theorem device_mknod_refines:
  assumes "attached u" "\<forall>n. valid_inum (in_memory u) n \<longrightarrow> small_dir (in_memory u) n" "fs_ok (in_memory u)"
    and "creatable (in_memory u) uid gid ts t k"
    and "file_size (inode_at (in_memory u) k) + BLOCK_SIZE < 2 ^ 31"
    and "dir_size (Suc (length (entries_of (in_memory u) k))) < 2 ^ 31"
  shows "map_option (\<lambda>(r, v). (r, in_memory v)) (mknod_fs_dev (path_of (ts @ [t])) mode uid gid u) =
      mknod_fs (path_of (ts @ [t])) mode uid gid (in_memory u) \<and>
    (\<forall>r v. mknod_fs_dev (path_of (ts @ [t])) mode uid gid u = Some (r, v) \<longrightarrow> attached v)"
  by (rule in_memory_option[OF mknod_sim[OF in_memory_rel[OF assms(1)] assms(2-)]])

lemma device_mknod_refines_witness:
  "\<exists>v. mknod_fs_dev (path_of ([] @ [name_a])) 0x1a4 0 0 formatted_dev = Some (SUCCESS, v) \<and> attached v \<and>
    length (entries_of (in_memory v) 1) = 3"
proof -
  note f = formatted_dev_facts
  obtain v where v: "mknod_fs (path_of ([] @ [name_a])) 0x1a4 0 0 (in_memory formatted_dev) = Some (SUCCESS, v)"
    "length (entries_of v 1) = 3" using dev_mknod_a by metis
  from device_mknod_refines[OF f(1) dev_small_dirs f(2) dev_root(6) dev_a_small, of "0x1a4"] v(1)
  have "map_option (\<lambda>(r, v). (r, in_memory v)) (mknod_fs_dev (path_of ([] @ [name_a])) 0x1a4 0 0 formatted_dev) = Some (SUCCESS, v)"
    "\<forall>r v. mknod_fs_dev (path_of ([] @ [name_a])) 0x1a4 0 0 formatted_dev = Some (r, v) \<longrightarrow> attached v" by simp_all
  then show ?thesis using v(2) by auto
qed

section \<open>Handlers\<close>

lemma dir_size_large: "522 < dir_size n \<longleftrightarrow> 2 < n"
proof -
  have "i * 261 \<le> dir_pos i" for i
  proof -
    have "(a * 15 + b) * 261 \<le> a * 4096 + b * 261" for a b :: nat by simp
    from this[of "i div 15" "i mod 15"] show ?thesis unfolding dir_pos_def by (simp add: c_consts)
  qed
  from this[of "n - 1"] have "2 < n \<Longrightarrow> 522 < dir_size n" by (simp add: dir_size_def c_consts)
  moreover have "n \<le> 2 \<Longrightarrow> dir_size n \<le> 522" by (cases n; cases "n - 1") (simp_all add: dir_size_def dir_pos_def c_consts)
  ultimately show ?thesis by (meson leD leI)
qed

text \<open>
  C34: \<open>fs_rmdir\<close> of \<open>src/phase 2/fusemain.c\<close> refuses exactly the directories with entries besides \<open>.\<close> and \<open>..\<close>:
  it returns \<open>- ENOTEMPTY\<close>, before it looks at the permissions, and then nothing has changed.
\<close>
theorem device_rmdir_refuses:
  assumes "attached (files_dev s)" "namei_dev path uid gid (files_dev s) = Some (SUCCESS, p, int k, index)"
    and "is_dir (in_memory (files_dev s)) k" "i_mod_time (inode_at (in_memory (files_dev s)) k) = 0"
  shows "(\<exists>v. fs_rmdir_dev path uid gid s = Some (- ENOTEMPTY, v)) = (2 < length (entries_of (in_memory (files_dev s)) k)) \<and>
    (2 < length (entries_of (in_memory (files_dev s)) k) \<longrightarrow> fs_rmdir_dev path uid gid s = Some (- ENOTEMPTY, s))"
proof -
  let ?m = "in_memory (files_dev s)" and ?u = "files_dev s"
  have k: "valid_inum ?m k" "dir_ok ?m (inode_at ?m k)" using assms(3) by (simp_all add: is_dir_def)
  note o = dir_okD[OF k(2)]
  let ?n = "length (entries_of ?m k)"
  have len: "file_size (inode_at ?m k) = dir_size ?n" using o(6) by (simp add: entries_of_def dir_entries_def)
  show ?thesis
  proof (cases rule: local_inode_cases[OF in_memory_rel[OF assms(1)], of "int k", case_names bad good])
    case (good j)
    have sm: "small_inode (flat j)"
      using assms(4) o(4) good(5) by (simp add: small_inode_def uint_size)
    have "sint (d_size j) = int (dir_size ?n)" using small_size(1)[OF sm] good(5) len by (simp add: uint_size)
    moreover have "dir_size ?n < 2 ^ 31" using o(4) len by simp
    ultimately have c: "c_u64 (sint (d_size j)) = int (dir_size ?n)" by simp
    have e: "int (2 * sizeof_dirent) < c_u64 (sint (d_size j)) \<longleftrightarrow> 2 < ?n"
      unfolding c using dir_size_large[of ?n] by (simp add: c_consts)
    have "S_ISDIR (d_mode j)" "int k \<noteq> INVALID_INODE" using o(3) good(1,5) by (simp_all add: INVALID_INODE_def)
    then show ?thesis
      using e by (simp add: fs_rmdir_dev_def assms(2) good(7) Let_def case_prod_beta split: option.split)
  qed (use k(1) in \<open>simp add: valid_inum_def\<close>)
qed

lemma device_rmdir_refuses_witness:
  "\<exists>s. fs_rmdir_dev [] 0 0 s = Some (- ENOTEMPTY, s)"
proof -
  obtain v where v: "attached v" "is_dir (in_memory v) 1" "length (entries_of (in_memory v) 1) = 3"
    "i_mod_time (inode_at (in_memory v) 1) = 0" using dev_with_a by blast
  let ?s = "\<lparr>files_dev = v, oft_inodes_dev = [], oft_fds_dev = []\<rparr>"
  have n: "namei_dev [] 0 0 (files_dev ?s) = Some (SUCCESS, 1, int 1, 0)" by (simp add: namei_dev_def strtok.simps)
  have "attached (files_dev ?s)" "is_dir (in_memory (files_dev ?s)) 1" "i_mod_time (inode_at (in_memory (files_dev ?s)) 1) = 0"
    using v by simp_all
  from device_rmdir_refuses[OF this(1) n this(2,3)] show ?thesis using v(3) by auto
qed

text \<open>A process that has just started and opens a device: its superblock is not cached yet.\<close>

lemma attached_reopen:
  assumes a: "attached u" and d: "disk v = disk u" "total_blocks v = total_blocks u" "cached_superblock v = None"
  shows "attached v" "in_memory v = (in_memory u)\<lparr>junk := junk v\<rparr>"
proof -
  let ?a = "warm u" and ?b = "warm v"
  have ma: "mounted_dev ?a" "mounted ?a" using a by (simp_all add: attached_def mounted_dev_mounted)
  have bl: "blk v k = blk u k" "nblocks v = nblocks u" "disk_ok v = disk_ok u" for k
    using d(1,2) by (simp_all add: blk_def nblocks_def disk_ok_def cong: option.case_cong)
  have "cached_superblock ?b = Some (dec_superblock (blk u 0))" using d(3) bl(1) by (simp add: warm_def)
  moreover have "dec_superblock (blk u 0) = sb_of ?a" using mounted_coherent[OF ma(2)] by simp
  ultimately have c: "cached_superblock ?b = Some (sb_of ?a)" by simp
  then have sb: "sb_of ?b = sb_of ?a" by (simp add: sb_of_def)
  have reg: "ilist_off ?b = ilist_off ?a" "ilist_len ?b = ilist_len ?a" "ninodes ?b = ninodes ?a"
    by (simp_all add: region_defs sb)
  have "mounted ?b" using ma(2) c bl mounted_coherent[OF ma(2)] by (simp add: mounted_def sb)
  then have mb: "mounted_dev ?b" using ma(1) reg by (simp add: mounted_dev_def)
  then show "attached v" by (simp add: attached_def)
  have "dlist.get ?b p = dlist.get ?a p" for p by (simp add: dlist.get_def reg bl)
  then have "view_inode ?b = view_inode ?a" by (auto simp: view_inode_def reg fun_eq_iff)
  then have vb: "view_block ?b q = view_block ?a q" for q by (simp add: view_block_def)
  note f = view_fields[OF ma(1)] and g = view_fields[OF mb]
  have ca: "cached_superblock ?a = Some (sb_of ?a)" by (rule mounted_cached[OF ma(2)])
  have j: "disk_ok ((view ?a)\<lparr>junk := x\<rparr>) = disk_ok (view ?a)" "nblocks ((view ?a)\<lparr>junk := x\<rparr>) = nblocks (view ?a)"
    "blk ((view ?a)\<lparr>junk := x\<rparr>) q = blk (view ?a) q" for x q
    by (simp_all add: disk_ok_def nblocks_def blk_def cong: option.case_cong)
  have "view ?b = (view ?a)\<lparr>junk := junk v\<rparr>"
    by (rule layer1_eqI) (simp_all add: f g j reg vb bl c ca d(2))
  then show "in_memory v = (in_memory u)\<lparr>junk := junk v\<rparr>" by (simp add: in_memory_def)
qed

text \<open>
  C22: the files outlive the process.  \<open>fs_destroy\<close> leaves a device; a later process, in which nothing is
  cached and nothing is known of the old one, opens it in \<open>fs_init\<close> and finds a well-formed device that
  holds the same disk, with the same inodes, data, free lists and names; only stale memory differs.
\<close>
theorem device_remount:
  assumes "attached (files_dev s)" "cached_superblock (files_dev s') = None"
  shows "attached (files_dev (fs_init_dev (fs_destroy_dev s) s')) \<and>
    in_memory (files_dev (fs_init_dev (fs_destroy_dev s) s')) = (in_memory (files_dev s))\<lparr>junk := junk (files_dev s')\<rparr>"
proof -
  let ?u = "files_dev s" and ?v = "files_dev (fs_init_dev (fs_destroy_dev s) s')"
  have "disk_ok ?u" using mounted_device(1)[OF attached_mounted[OF assms(1)]] by simp
  then obtain d where d: "disk ?u = Some d" "length d = nblocks ?u * BLOCK_SIZE" "total_blocks ?u = int (nblocks ?u)"
    by (rule disk_okE)
  have "total_blocks ?v = total_blocks ?u" "disk ?v = disk ?u" "cached_superblock ?v = None" "junk ?v = junk (files_dev s')"
    using d assms(2) by (simp_all add: fs_init_dev_def fs_destroy_dev_def open_device_def c_consts)
  then show ?thesis using attached_reopen[OF assms(1), of ?v] by simp
qed

lemma device_remount_witness:
  "in_memory (files_dev (fs_init_dev (fs_destroy_dev \<lparr>files_dev = file_dev, oft_inodes_dev = [], oft_fds_dev = []\<rparr>)
      \<lparr>files_dev = blank_dev, oft_inodes_dev = [], oft_fds_dev = []\<rparr>)) = (in_memory file_dev)\<lparr>junk := (\<lambda>_. 0)\<rparr>"
  using device_remount[of "\<lparr>files_dev = file_dev, oft_inodes_dev = [], oft_fds_dev = []\<rparr>"
      "\<lparr>files_dev = blank_dev, oft_inodes_dev = [], oft_fds_dev = []\<rparr>"] file_dev_facts(1)
  by (simp add: blank_dev_def)

end
