(* ===== verification/Spec2Isabelle.thy ===== *)
theory Spec2Isabelle
  imports SystemProps DeviceProps
begin

text \<open>
  A verification of a small Unix-like file system for FUSE, written in C in three layers
  (\<open>src/layer0.c\<close>, \<open>src/layer1.c\<close>, \<open>src/layer2.c\<close> with their headers) under the handlers of
  \<open>src/fusemain.c\<close>.  Every layer calls only the one below it, apart from the root inode that
  \<open>mkfs\<close> makes.

  \<^bold>\<open>The program and its model.\<close>
  \<^item> Layer 0 is a disk in memory: \<open>read_block\<close> and \<open>write_block\<close> copy blocks of 4096 bytes in and
    out of an array.  Theory \<open>Layer0\<close>: record \<open>layer0\<close> with the array (\<open>None\<close> for a null pointer) and
    the number of blocks.
  \<^item> Layer 1 divides the disk into superblock, inode bitmap, inode table and data blocks, and
    keeps the free data blocks in a chain of nodes.  \<open>Superblock\<close>: the packed structure, its cache,
    \<open>read_superblock\<close>, \<open>write_superblock\<close>.  \<open>Inodes\<close>: \<open>inode_read\<close>, \<open>inode_write\<close>.  \<open>Bitmap\<close>:
    \<open>inode_create\<close>, \<open>inode_free\<close>.  \<open>DataBlocks\<close>: \<open>data_read\<close>, \<open>data_write\<close>, \<open>data_allocate\<close>, \<open>data_free\<close>.
    \<open>Mkfs\<close>: \<open>mkfs\<close> and its steps, with the arithmetic in doubles of \<open>init_superblock\<close> (\<open>Doubles\<close>) and
    \<open>create_dir_base\<close>.
  \<^item> Layer 2 has files of direct, indirect, double and triple indirect blocks (\<open>BlockMap\<close>:
    \<open>get_nth_datablock\<close>, \<open>rm_nth_datablock\<close>), byte access to them (\<open>FileIO\<close>: \<open>read_i\<close>, \<open>write_i\<close>,
    \<open>truncate\<close>, \<open>del\<close>), the table of open files (\<open>OpenFiles\<close>: \<open>oft_add\<close>, \<open>oft_remove\<close>, \<open>oft_lookup\<close>,
    \<open>oft_attempt_delete\<close>), directories (\<open>Directory\<close>: \<open>read_dir_page\<close>, \<open>read_dir_whole\<close>, the two
    searches, \<open>add_dirent\<close>, \<open>remove_dirent\<close>) and paths (\<open>Namespace\<close>: \<open>namei\<close>, \<open>check_permissions\<close>,
    \<open>get_stat\<close>, \<open>mkdir_fs\<close>, \<open>mknod_fs\<close>).
  \<^item> The handlers (\<open>FuseOps\<close>) are functions of the path, the user and group of the FUSE context, the
    \<open>fuse_file_info\<close> and the state; the filler of \<open>fs_readdir\<close> is an argument.
  \<^item> \<open>src/phase 2\<close> is a later version of the same files that keeps its blocks in a device file, has
    sizes of 64 bits, stores modification times and formats with a program of its own, \<open>mkfs.c\<close>.  It is
    modelled again, function by function with the suffix \<open>_dev\<close>: \<open>DeviceDisk\<close>, \<open>DeviceData\<close>,
    \<open>DeviceInodes\<close> and \<open>DeviceMkfs\<close> (\<open>layer0.c\<close>, \<open>layer1.c\<close>, \<open>mkfs.c\<close>), \<open>DeviceMap\<close>, \<open>DeviceFiles\<close>,
    \<open>DeviceDirs\<close> and \<open>DeviceNames\<close> (\<open>layer2.c\<close>), \<open>DeviceFuse\<close> (the open files and \<open>fusemain.c\<close>).  What
    did not change is shared: the superblock, the free-list nodes, the entries of directories, \<open>strtok\<close>
    and the loops over the tables of open files.

  \<^bold>\<open>Conventions.\<close>  The state is passed explicitly: \<open>layer0\<close> is extended to \<open>layer1\<close> by the cached
  superblock, \<open>layer1_dev\<close> further by the values that \<open>time\<close> will return; \<open>layer2\<close> holds a \<open>layer1\<close> and
  the two tables.  A function that sets results through
  pointers returns them beside its code.  Fields of 32 bits are words; a C \<open>int\<close> is an integer
  with \<open>c_int\<close>, \<open>c_u64\<close> at the conversions that can change a value, and the result \<open>None\<close> where a
  computation has no defined value (signed overflow, an index outside an array).  Uninitialised
  memory is a stream of arbitrary bytes in the state, so that a theorem holds whatever the stack
  held.  Loops over a bound are structural recursion; \<open>strtok\<close> and the search for a descriptor
  terminate by a measure; the loops that a malformed disk can keep going (the walk along the free
  list in \<open>data_free\<close>, the loops over directory pages) are partial functions, where \<open>None\<close> also
  means that the loop does not end, and the properties show that they return.  No fuel is used.

  \<^bold>\<open>The invariants.\<close>  \<open>fs_ok\<close> (\<open>FreeList\<close>, \<open>Frames\<close>): the superblock describes regions that fill the
  disk, and the chain of the free list lists each free block once.  \<open>fs_frame I B s t\<close>: from \<open>s\<close> to \<open>t\<close>
  only inodes in \<open>I\<close> and data blocks in \<open>B\<close> changed.  \<open>file_ok\<close>, \<open>file_full\<close>, \<open>file_good\<close>
  (\<open>BlockMap\<close>, \<open>FileIO\<close>): the pointer trees of a file are disjoint, use no free block, have no empty
  address block, and nothing lies behind the end of the file.  \<open>dir_ok\<close>, \<open>is_dir\<close> (\<open>DirSpec\<close>,
  \<open>NameSpec\<close>): the size of a directory is the end of its last entry and every entry names an inode.
  \<open>oft_ok\<close> (\<open>OpenFiles\<close>): reference counts are the numbers of open descriptors.

  \<^bold>\<open>What is shown.\<close>  \<open>Allocator\<close> states the contract of an allocator as a locale, interpreted for
  inodes and for data blocks; \<open>Layer1Props\<close> has the properties of layers 0 and 1.  \<open>BlockTree\<close> and
  \<open>FileBlocks\<close> treat the pointer trees abstractly; \<open>FileProps\<close> shows that files refine byte lists and
  proves two losses of data in \<open>write_i\<close> and \<open>truncate\<close>.  Where a write is described by the bytes written, the hypothesis
  \<open>write_honest\<close> excludes the first of them.  \<open>DirSpec\<close> refines directories to lists of
  entries, \<open>NameSpec\<close> and \<open>NewDir\<close> paths to walks along these lists, \<open>HandlerSpec\<close> puts them together
  with the table of open files, whose contract is the locale \<open>descriptor_table\<close>; \<open>Layer2Props\<close> has the
  properties.

  \<open>Volume\<close> to \<open>VolumeQueries\<close> and \<open>SystemProps\<close> treat the whole system.  \<open>volume_ok\<close> (\<open>Volume\<close>): the data
  blocks are the disjoint union of the free list and of the blocks of the used inodes.  \<open>name_tree\<close>
  (\<open>VolumeTree\<close>): a tree of names as an abstract structure with the changes a name can make to it; \<open>names_ok\<close>: the directories of the disk form such a tree over all used inodes but the unlinked ones.
  \<open>VolumePaths\<close> abstracts from the disk: \<open>tree_of\<close> maps the paths without \<open>.\<close> and \<open>..\<close> to folders and
  contents of files; every inode has one path, so that a change of one inode changes the map at one
  path.  \<open>VolumeSteps\<close> shows that the operations of layer 2 keep \<open>names_ok\<close> and what they do to the tree,
  \<open>VolumeHandlers\<close> that every handler returns, keeps \<open>system_ok\<close>, which adds the table of open files, and
  implements an operation on the tree (\<open>fs_rmdir\<close> removes a folder with all that is below it), \<open>VolumeQueries\<close> that the handlers that only look describe the
  tree.  \<open>SystemProps\<close> has the handlers as a step relation, the states
  reachable from a formatted disk, their invariants and the refinement.

  The version on a device is related to the one in memory.  \<open>DeviceView\<close> defines the \<open>view\<close> of a device
  as a disk in memory, with the inodes packed 51 instead of 48 to a block and without their modification
  times.  \<open>DeviceSim\<close>, \<open>DeviceFileSim\<close> and \<open>DeviceNameSim\<close> show by a simulation, with the rules of the
  collection \<open>sim\<close>, that the operations commute with the view; files and directories are to stay below
  two gigabytes there, the limit of the version in memory.  \<open>DeviceFormat\<close> treats \<open>mkfs\<close> on a
  device, \<open>DeviceTrunc\<close> the loop of \<open>trunc_fs\<close>, \<open>DeviceCreate\<close> \<open>mknod_fs\<close>; \<open>DeviceProps\<close> has the properties.

  \<^bold>\<open>Not modelled.\<close>  The output of the \<open>DEBUG\<close> and \<open>ERR\<close> macros, \<open>main\<close> (it registers the handlers), the
  FUSE library, the test programs, errors
  that the device of \<open>src/phase 2\<close> reports (its code does not look at them), devices of another size than
  the one formatted; failure of \<open>realloc\<close> in the table of open files, of
  \<open>malloc\<close> of a size that is not negative in \<open>truncate\<close> and of \<open>strdup\<close> in \<open>namei\<close>.  The struct \<open>s\<close> that
  \<open>get_stat\<close> fills for the filler of \<open>fs_readdir\<close> is one argument of the model for all its calls; it shows only in
  fields that \<open>get_stat\<close> does not set.  The step relation of
  \<open>SystemProps\<close> leaves out the calls that break the invariants because of an error in the code: writes
  and truncations that lose data, \<open>remove_dirent\<close> of the only entry in the last block of a directory,
  \<open>mkdir_fs\<close> in a parent whose last block is full, which loses a block, and \<open>fs_rmdir\<close> of a directory that
  is open, has entries, is named by its \<open>.\<close> or has bytes other than zero after its entries, which loses
  what is in it or its block (see the findings).  What \<open>mkdir_fs\<close> and \<open>fs_rmdir\<close> do in these cases is shown
  where the directory they change stays in good order: the effect on the tree, and that \<open>mkdir_fs\<close> loses one block at most.
  Open on the proof side: \<open>mkdir_fs\<close>, \<open>unlink\<close> and the listing of directories on a device, which are
  modelled but not related to the version in memory.
\<close>

end
